(* ===== verification/Prelude.thy ===== *)
theory Prelude
  imports "HOL-Library.Word" "HOL-Library.Multiset"
begin

text \<open>
  Shared vocabulary of the development: the machine integers of the 32-bit MIPS kernel, the
  outcome type in which every kernel routine is written, the error numbers of
  \<^verbatim>\<open>kern/include/kern/errno.h\<close>, and the list and word lemmas that several components use.
\<close>

unbundle bit_operations_syntax

named_theorems errno_defs \<open>values of the error numbers\<close>
named_theorems run_simps \<open>rewriting of kernel outcomes\<close>
named_theorems layout_defs \<open>constants of the MIPS memory layout\<close>

subsection \<open>Machine integers\<close>

type_synonym u8 = "8 word"
type_synonym u16 = "16 word"
type_synonym u32 = "32 word"
type_synonym u64 = "64 word"

text \<open>
  \<open>vaddr_t\<close>, \<open>paddr_t\<close> and \<open>size_t\<close> are 32-bit unsigned integers on this
  platform (\<^verbatim>\<open>kern/arch/mips/include/types.h\<close>, \<^verbatim>\<open>kern/arch/mips/include/kern/types.h\<close>).
\<close>

type_synonym vaddr = u32
type_synonym paddr = u32
type_synonym csize = u32

subsection \<open>Outcomes of kernel code\<close>

text \<open>
  A kernel routine either returns or stops the machine. \<open>Assertion\<close> is a failed
  \<open>KASSERT\<close>, \<open>Panicked\<close> an explicit call of \<open>panic\<close>, \<open>Wild\<close> an access
  outside the object the C code indexes (undefined behaviour, never a defined result), and
  \<open>Spinning\<close> a loop that is never left.
\<close>

datatype halt = Assertion | Panicked | Wild | Spinning

datatype 'a run = Ok 'a | Halt halt

primrec bindR :: "'a run \<Rightarrow> ('a \<Rightarrow> 'b run) \<Rightarrow> 'b run" where
  "bindR (Ok x) f = f x"
| "bindR (Halt h) f = Halt h"

definition kassert :: "bool \<Rightarrow> 'a run \<Rightarrow> 'a run" where
  "kassert b k = (if b then k else Halt Assertion)"

lemma kassert_True [simp, run_simps]: "kassert True k = k"
  by (simp add: kassert_def)

lemma kassert_False [simp, run_simps]: "kassert False k = Halt Assertion"
  by (simp add: kassert_def)

lemma kassert_eq_Ok [run_simps]: "kassert b k = Ok x \<longleftrightarrow> b \<and> k = Ok x"
  by (simp add: kassert_def)

lemma bindR_eq_Ok [run_simps]: "bindR m f = Ok y \<longleftrightarrow> (\<exists>x. m = Ok x \<and> f x = Ok y)"
  by (cases m) auto

lemma bindR_assoc: "bindR (bindR m f) g = bindR m (\<lambda>x. bindR (f x) g)"
  by (cases m) auto

lemma bindR_Ok_right [simp]: "bindR m Ok = m"
  by (cases m) auto

subsection \<open>Words\<close>

lemma unat_of_nat_small: "m < 2 ^ LENGTH('a) \<Longrightarrow> unat (of_nat m :: 'a::len word) = m"
  by (simp add: unsigned_of_nat take_bit_nat_eq_self)

lemma unat_pow2:
  assumes "n < LENGTH('a)"
  shows "unat ((2::'a::len word) ^ n) = 2 ^ n"
proof -
  have "(2::'a word) ^ n = of_nat (2 ^ n)" by simp
  then show ?thesis using assms by (simp only: unat_of_nat_small power_strict_increasing_iff)
qed

lemma unat_u32_bound: "unat (x::u32) < 2 ^ 32"
proof -
  have "unat x < 2 ^ LENGTH(32)" by (rule unsigned_less)
  then show ?thesis by simp
qed

lemma word_eq_of_unat: "unat x = unat y \<Longrightarrow> x = y"
  by (simp add: word_unat_eq_iff)

lemma unat_u16_of_u32: "unat (ucast (w :: u32) :: u16) = unat w mod 2 ^ 16"
  by (simp add: unsigned_ucast_eq take_bit_eq_mod)

lemma unat_u32_of_u16: "unat (ucast (w :: u16) :: u32) = unat w"
proof -
  have "unat w < 2 ^ LENGTH(16)" by (rule unsigned_less)
  then show ?thesis by (simp add: unsigned_ucast_eq take_bit_nat_eq_self)
qed

lemma sint_small: "unat (n :: u32) < 2 ^ 31 \<Longrightarrow> sint n = int (unat n)"
proof -
  assume "unat n < 2 ^ 31"
  then have "int (unat n) < int (2 ^ 31)" by (simp only: of_nat_less_iff)
  then have lt: "uint n < 2 ^ 31" by simp
  have "- (2 ^ 31) \<le> uint n" by (rule order_trans [OF _ uint_ge_0]) simp
  with lt have "signed_take_bit 31 (uint n) = uint n" by (rule signed_take_bit_int_eq_self [rotated])
  then show ?thesis by (simp add: sint_uint)
qed

text \<open>The value of a C \<open>int\<close> after arithmetic that may leave its 32 bits.\<close>

definition cint :: "int \<Rightarrow> int" where
  "cint x = signed_take_bit 31 x"

lemma cint_small: "- (2 ^ 31) \<le> x \<Longrightarrow> x < 2 ^ 31 \<Longrightarrow> cint x = x"
  by (simp add: cint_def signed_take_bit_int_eq_self)

lemma cint_overflow: "cint (2 ^ 31) = - (2 ^ 31)"
  by (simp add: cint_def signed_take_bit_eq_take_bit_minus take_bit_eq_mod bit_iff_odd)

subsection \<open>Error numbers\<close>

definition ENOSYS :: int where [errno_defs]: "ENOSYS = 1"
definition EUNIMP :: int where [errno_defs]: "EUNIMP = 2"
definition ENOMEM :: int where [errno_defs]: "ENOMEM = 3"
definition EAGAIN :: int where [errno_defs]: "EAGAIN = 4"
definition EFAULT :: int where [errno_defs]: "EFAULT = 6"
definition ENAMETOOLONG :: int where [errno_defs]: "ENAMETOOLONG = 7"
definition EINVAL :: int where [errno_defs]: "EINVAL = 8"
definition EPERM :: int where [errno_defs]: "EPERM = 9"
definition EMPROC :: int where [errno_defs]: "EMPROC = 11"
definition ENPROC :: int where [errno_defs]: "ENPROC = 12"
definition ENOEXEC :: int where [errno_defs]: "ENOEXEC = 13"
definition E2BIG :: int where [errno_defs]: "E2BIG = 14"
definition ESRCH :: int where [errno_defs]: "ESRCH = 15"
definition ECHILD :: int where [errno_defs]: "ECHILD = 16"
definition ENOTDIR :: int where [errno_defs]: "ENOTDIR = 17"
definition EISDIR :: int where [errno_defs]: "EISDIR = 18"
definition ENOENT :: int where [errno_defs]: "ENOENT = 19"
definition EEXIST :: int where [errno_defs]: "EEXIST = 22"
definition ENODEV :: int where [errno_defs]: "ENODEV = 25"
definition ENXIO :: int where [errno_defs]: "ENXIO = 26"
definition EBUSY :: int where [errno_defs]: "EBUSY = 27"
definition EMFILE :: int where [errno_defs]: "EMFILE = 28"
definition EBADF :: int where [errno_defs]: "EBADF = 30"
definition EIOCTL :: int where [errno_defs]: "EIOCTL = 31"
definition EIO :: int where [errno_defs]: "EIO = 32"
definition ENOSPC :: int where [errno_defs]: "ENOSPC = 36"
definition EFBIG :: int where [errno_defs]: "EFBIG = 38"

subsection \<open>Open flags\<close>

text \<open>\<^verbatim>\<open>kern/include/kern/fcntl.h\<close>.\<close>

definition O_RDONLY :: int where [layout_defs]: "O_RDONLY = 0"
definition O_WRONLY :: int where [layout_defs]: "O_WRONLY = 1"
definition O_RDWR :: int where "O_RDWR = 2"
definition O_CREAT :: int where "O_CREAT = 4"
definition O_EXCL :: int where [layout_defs]: "O_EXCL = 8"
definition O_TRUNC :: int where "O_TRUNC = 16"
definition O_APPEND :: int where [layout_defs]: "O_APPEND = 32"
definition O_ACCMODE :: int where [layout_defs]: "O_ACCMODE = 3"

end
