(* ===== verification/Bswap.thy ===== *)
theory Bswap
  imports Prelude
begin

text \<open>
  Byte order (\<^verbatim>\<open>kern/lib/bswap.c\<close>): the unconditional swaps \<open>bswap16\<close>, \<open>bswap32\<close>,
  \<open>bswap64\<close>, the network-order functions of a big-endian machine, and the pasting of two
  32-bit words into a 64-bit one and back. The reference notion is the list of bytes of a word,
  least significant first; a byte swap has to reverse it.
\<close>

named_theorems byte_simps \<open>bytes of words built from masked shifts\<close>

subsection \<open>The functions of bswap.c\<close>

definition bswap16 :: "u16 \<Rightarrow> u16" where
  "bswap16 val = push_bit 8 (val AND 0x00ff) OR drop_bit 8 (val AND 0xff00)"

definition bswap32 :: "u32 \<Rightarrow> u32" where
  "bswap32 val =
     push_bit 24 (val AND 0x000000ff)
     OR push_bit 8 (val AND 0x0000ff00)
     OR drop_bit 8 (val AND 0x00ff0000)
     OR drop_bit 24 (val AND 0xff000000)"

definition bswap64 :: "u64 \<Rightarrow> u64" where
  "bswap64 val =
     push_bit 56 (val AND 0x00000000000000ff)
     OR push_bit 40 (val AND 0x000000000000ff00)
     OR push_bit 24 (val AND 0x0000000000ff0000)
     OR push_bit 8 (val AND 0x00000000ff000000)
     OR push_bit 8 (val AND 0x000000ff00000000)
     OR push_bit 24 (val AND 0x0000ff0000000000)
     OR drop_bit 40 (val AND 0x00ff000000000000)
     OR drop_bit 56 (val AND 0xff00000000000000)"

text \<open>
  The kernel runs on a big-endian machine (\<^verbatim>\<open>kern/arch/mips/include/kern/endian.h\<close>), so the
  macro \<open>TO\<close> expands to the identity for all three sizes.
\<close>

definition ntohs :: "u16 \<Rightarrow> u16" where "ntohs val = val"
definition htons :: "u16 \<Rightarrow> u16" where "htons val = val"
definition ntohl :: "u32 \<Rightarrow> u32" where "ntohl val = val"
definition htonl :: "u32 \<Rightarrow> u32" where "htonl val = val"
definition ntohll :: "u64 \<Rightarrow> u64" where "ntohll val = val"
definition htonll :: "u64 \<Rightarrow> u64" where "htonll val = val"

definition join32to64 :: "u32 \<Rightarrow> u32 \<Rightarrow> u64" where
  "join32to64 x1 x2 = push_bit 32 (ucast x1) OR ucast x2"

definition split64to32 :: "u64 \<Rightarrow> u32 \<times> u32" where
  "split64to32 x = (ucast (drop_bit 32 x), ucast (x AND 0xffffffff))"

subsection \<open>Words as byte lists\<close>

definition byte_of :: "nat \<Rightarrow> 'a::len word \<Rightarrow> u8" where
  "byte_of k x = ucast (drop_bit (8 * k) x)"

definition bytes_of :: "nat \<Rightarrow> 'a::len word \<Rightarrow> u8 list" where
  "bytes_of n x = map (\<lambda>k. byte_of k x) [0..<n]"

lemma bit_byte_of: "bit (byte_of k x) n \<longleftrightarrow> n < 8 \<and> bit x (8 * k + n)"
  by (auto simp: byte_of_def bit_simps)

lemma byte_of_or [byte_simps]: "byte_of k (x OR y) = byte_of k x OR byte_of k y"
  by (rule bit_word_eqI) (simp add: bit_byte_of bit_or_iff)

definition byte_up :: "nat \<Rightarrow> nat \<Rightarrow> 'a::len word \<Rightarrow> 'a word" where
  "byte_up m j x = push_bit (8 * m) (x AND push_bit (8 * j) (mask 8))"

definition byte_down :: "nat \<Rightarrow> nat \<Rightarrow> 'a::len word \<Rightarrow> 'a word" where
  "byte_down m j x = drop_bit (8 * m) (x AND push_bit (8 * j) (mask 8))"

lemma byte_of_up [byte_simps]:
  fixes x :: "'a::len word"
  assumes "8 * k + 8 \<le> LENGTH('a)"
  shows "byte_of k (byte_up m j x) = (if k = j + m then byte_of j x else 0)"
proof (rule bit_word_eqI)
  fix i assume "i < LENGTH(8)"
  then have i: "i < 8" by simp
  have "8 * k + i < LENGTH('a)" using assms i by linarith
  moreover have "8 * m \<le> 8 * k + i \<and> 8 * j \<le> 8 * k + i - 8 * m
      \<and> 8 * k + i - 8 * m - 8 * j < 8 \<longleftrightarrow> k = j + m"
    using i by (cases "k = j + m"; cases "k < j + m") auto
  ultimately show "bit (byte_of k (byte_up m j x)) i
      \<longleftrightarrow> bit (if k = j + m then byte_of j x else 0) i"
    using i by (auto simp: bit_byte_of byte_up_def bit_push_bit_iff bit_and_iff bit_mask_iff)
qed

lemma byte_of_down [byte_simps]:
  fixes x :: "'a::len word"
  assumes "8 * j + 8 \<le> LENGTH('a)"
  shows "byte_of k (byte_down m j x) = (if k + m = j then byte_of j x else 0)"
proof (rule bit_word_eqI)
  fix i assume "i < LENGTH(8)"
  then have i: "i < 8" by simp
  have "8 * j \<le> 8 * m + (8 * k + i) \<and> 8 * m + (8 * k + i) - 8 * j < 8 \<longleftrightarrow> k + m = j"
    using i by (cases "k + m = j"; cases "k + m < j") auto
  then show "bit (byte_of k (byte_down m j x)) i
      \<longleftrightarrow> bit (if k + m = j then byte_of j x else 0) i"
    using i assms by (auto simp: bit_byte_of byte_down_def bit_drop_bit_eq bit_push_bit_iff
        bit_and_iff bit_mask_iff algebra_simps)
qed

lemma word_eq_bytesI:
  fixes x y :: "'a::len word"
  assumes len: "LENGTH('a) = 8 * n" and eq: "bytes_of n x = bytes_of n y"
  shows "x = y"
proof (rule bit_word_eqI)
  fix i assume "i < LENGTH('a)"
  then have "i div 8 < n" using len by simp
  then have "byte_of (i div 8) x = byte_of (i div 8) y"
    using eq by (simp add: bytes_of_def)
  then have "bit (byte_of (i div 8) x) (i mod 8) = bit (byte_of (i div 8) y) (i mod 8)"
    by simp
  then show "bit x i = bit y i" by (simp add: bit_byte_of)
qed

lemma masks16:
  "(0x00ff::u16) = push_bit (8 * 0) (mask 8)" "(0xff00::u16) = push_bit (8 * 1) (mask 8)"
  by (simp_all add: mask_eq_exp_minus_1 push_bit_eq_mult)

lemma masks32:
  "(0x000000ff::u32) = push_bit (8 * 0) (mask 8)"
  "(0x0000ff00::u32) = push_bit (8 * 1) (mask 8)"
  "(0x00ff0000::u32) = push_bit (8 * 2) (mask 8)"
  "(0xff000000::u32) = push_bit (8 * 3) (mask 8)"
  by (simp_all add: mask_eq_exp_minus_1 push_bit_eq_mult)

lemma masks64:
  "(0x00000000000000ff::u64) = push_bit (8 * 0) (mask 8)"
  "(0x000000000000ff00::u64) = push_bit (8 * 1) (mask 8)"
  "(0x0000000000ff0000::u64) = push_bit (8 * 2) (mask 8)"
  "(0x00000000ff000000::u64) = push_bit (8 * 3) (mask 8)"
  "(0x000000ff00000000::u64) = push_bit (8 * 4) (mask 8)"
  "(0x0000ff0000000000::u64) = push_bit (8 * 5) (mask 8)"
  "(0x00ff000000000000::u64) = push_bit (8 * 6) (mask 8)"
  "(0xff00000000000000::u64) = push_bit (8 * 7) (mask 8)"
  by (simp_all add: mask_eq_exp_minus_1 push_bit_eq_mult)


lemma bswap16_bytes_form: "bswap16 x = byte_up 1 0 x OR byte_down 1 1 x"
  by (simp only: bswap16_def byte_up_def byte_down_def masks16) simp

lemma bswap32_bytes_form:
  "bswap32 x = byte_up 3 0 x OR byte_up 1 1 x OR byte_down 1 2 x OR byte_down 3 3 x"
  by (simp only: bswap32_def byte_up_def byte_down_def masks32) simp

lemma bswap64_bytes_form:
  "bswap64 x = byte_up 7 0 x OR byte_up 5 1 x OR byte_up 3 2 x OR byte_up 1 3 x
     OR byte_up 1 4 x OR byte_up 3 5 x OR byte_down 5 6 x OR byte_down 7 7 x"
  by (simp only: bswap64_def byte_up_def byte_down_def masks64) simp

lemma upt_simps: "[0..<2] = [0, 1::nat]" "[0..<4] = [0, 1, 2, 3::nat]" 
  "[0..<8] = [0, 1, 2, 3, 4, 5, 6, 7::nat]"
  by (simp_all add: upt_conv_Cons)

subsection \<open>What the swaps do to the bytes\<close>

lemma bytes_bswap16: "bytes_of 2 (bswap16 x) = rev (bytes_of 2 x)"
  by (simp add: bytes_of_def upt_simps bswap16_bytes_form byte_simps)

lemma bytes_bswap32: "bytes_of 4 (bswap32 x) = rev (bytes_of 4 x)"
  by (simp add: bytes_of_def upt_simps bswap32_bytes_form byte_simps)

lemma bytes_bswap64:
  "bytes_of 8 (bswap64 x) =
     [byte_of 7 x, byte_of 6 x, 0, 0, byte_of 3 x, byte_of 2 x OR byte_of 4 x, byte_of 1 x,
      byte_of 0 x]"
  by (simp add: bytes_of_def upt_simps bswap64_bytes_form byte_simps)

lemma mask32_u64: "(0xffffffff :: u64) = mask 32"
  by (simp add: mask_eq_exp_minus_1)

lemma split_join: "split64to32 (join32to64 x1 x2) = (x1, x2)"
proof -
  have "ucast (drop_bit 32 (join32to64 x1 x2)) = x1"
    by (rule bit_word_eqI) (auto simp: join32to64_def bit_simps dest: bit_imp_le_length)
  moreover have "ucast (join32to64 x1 x2 AND mask 32) = x2"
    by (rule bit_word_eqI) (auto simp: join32to64_def bit_simps dest: bit_imp_le_length)
  ultimately show ?thesis by (simp only: split64to32_def mask32_u64)
qed

lemma join_split: "(case split64to32 y of (y1, y2) \<Rightarrow> join32to64 y1 y2) = y"
  unfolding split64to32_def mask32_u64
  by (rule bit_word_eqI) (auto simp: join32to64_def bit_simps dest: bit_imp_le_length)

lemma unat_join32to64: "unat (join32to64 x1 x2) = unat x1 * 2 ^ 32 + unat x2"
proof -
  have "join32to64 x1 x2 = push_bit 32 (ucast x1) + ucast x2"
    unfolding join32to64_def
    by (rule disjunctive_add [symmetric]) (auto simp: bit_simps dest: bit_imp_le_length)
  moreover have "unat x1 < 2 ^ 32" "unat x2 < 2 ^ 32"
    using unsigned_less [of x1] unsigned_less [of x2] by simp_all
  ultimately show ?thesis
    by (simp add: push_bit_eq_mult unat_word_ariths unsigned_ucast_eq take_bit_eq_mod)
qed
text \<open>
  \<open>bswap16\<close> and \<open>bswap32\<close> reverse the bytes of their argument and are their own
  inverses.
\<close>

theorem bswap_reverses_and_involutive:
  "bytes_of 2 (bswap16 v) = rev (bytes_of 2 v) \<and> bswap16 (bswap16 v) = v
   \<and> bytes_of 4 (bswap32 w) = rev (bytes_of 4 w) \<and> bswap32 (bswap32 w) = w"
  by (simp add: bytes_bswap16 bytes_bswap32 word_eq_bytesI [of 2] word_eq_bytesI [of 4])

text \<open>
  The byte list \<open>bswap64\<close> really produces. Bytes 4 and 5 of the argument are shifted the
  wrong way (lines 69 and 70 shift left where the mirror image of lines 67 and 68 shifts right):
  byte 5 is lost, byte 4 is merged into the image of byte 2, and result bytes 2 and 3 are always
  zero. In particular the function neither reverses the bytes nor is injective.
\<close>

theorem bswap64_bytes:
  "bytes_of 8 (bswap64 x) =
     [byte_of 7 x, byte_of 6 x, 0, 0, byte_of 3 x, byte_of 2 x OR byte_of 4 x, byte_of 1 x,
      byte_of 0 x]
   \<and> bswap64 0x0000010000000000 = 0
   \<and> bytes_of 8 (bswap64 0x0000010000000000) \<noteq> rev (bytes_of 8 (0x0000010000000000 :: u64))"
proof (intro conjI)
  show "bytes_of 8 (bswap64 x) =
     [byte_of 7 x, byte_of 6 x, 0, 0, byte_of 3 x, byte_of 2 x OR byte_of 4 x, byte_of 1 x,
      byte_of 0 x]" by (rule bytes_bswap64)
  show zero: "bswap64 0x0000010000000000 = 0" by (simp add: bswap64_def)
  show "bytes_of 8 (bswap64 0x0000010000000000) \<noteq> rev (bytes_of 8 (0x0000010000000000 :: u64))"
    by (simp add: zero bytes_of_def upt_simps byte_of_def)
qed

text \<open>
  Splitting a joined pair gives the pair back and joining a split value gives the value
  back; in memory order, the first word is the more significant one.
\<close>

theorem join_split_roundtrip:
  "split64to32 (join32to64 x1 x2) = (x1, x2)
   \<and> (case split64to32 y of (y1, y2) \<Rightarrow> join32to64 y1 y2) = y
   \<and> unat (join32to64 x1 x2) = unat x1 * 2 ^ 32 + unat x2"
  by (simp add: split_join join_split unat_join32to64)

end
