(* ===== verification/KArray.thy ===== *)
theory KArray
  imports Prelude
begin

text \<open>
  Resizable arrays of pointers (\<^verbatim>\<open>kern/lib/array.c\<close>, \<^verbatim>\<open>kern/include/array.h\<close>), the container behind
  the process table, the exit-code table and the per-process thread table. The model keeps the
  allocated block with its capacity beside the element count, at the width of the C code; the
  contract a client relies on is the locale \<open>ptr_array\<close> over plain lists.
\<close>

subsection \<open>The array and its operations\<close>

text \<open>
  \<open>arr_v\<close> is the block \<open>v\<close> points to (no cells when it is \<open>NULL\<close>). \<open>kmalloc\<close> is a
  parameter: given the size in bytes it answers with a fresh block, whose cells hold arbitrary
  values, or with \<open>None\<close> for \<open>NULL\<close>.
\<close>

record 'a karray =
  arr_v :: "'a list"
  arr_num :: u32
  arr_max :: u32

type_synonym 'a block_alloc = "csize \<Rightarrow> 'a list option"

definition block_alloc_ok :: "'a block_alloc \<Rightarrow> bool" where
  "block_alloc_ok km \<longleftrightarrow> (\<forall>n b. km n = Some b \<longrightarrow> length b = unat n div 4)"

definition array_init :: "'a karray" where
  "array_init = \<lparr>arr_v = [], arr_num = 0, arr_max = 0\<rparr>"

definition array_create :: "bool \<Rightarrow> 'a karray option" where
  "array_create got = (if got then Some array_init else None)"

definition array_cleanup :: "'a karray \<Rightarrow> 'a karray run" where
  "array_cleanup a = kassert (arr_num a = 0) (Ok (a\<lparr>arr_v := []\<rparr>))"

definition array_destroy :: "'a karray \<Rightarrow> unit run" where
  "array_destroy a = bindR (array_cleanup a) (\<lambda>_. Ok ())"

definition array_get_num :: "'a karray \<Rightarrow> u32" where
  "array_get_num a = arr_num a"

definition array_get :: "'a karray \<Rightarrow> u32 \<Rightarrow> 'a run" where
  "array_get a index =
     kassert (index < arr_num a)
       (if unat index < length (arr_v a) then Ok (arr_v a ! unat index) else Halt Wild)"

definition array_set :: "'a karray \<Rightarrow> u32 \<Rightarrow> 'a \<Rightarrow> 'a karray run" where
  "array_set a index val =
     kassert (index < arr_num a)
       (if unat index < length (arr_v a)
        then Ok (a\<lparr>arr_v := (arr_v a)[unat index := val]\<rparr>) else Halt Wild)"

text \<open>The doubling loop of \<open>array_setsize\<close>; \<open>None\<close> means that it is never left.\<close>

partial_function (option) grow_max :: "u32 \<Rightarrow> u32 \<Rightarrow> u32 option" where
  "grow_max num newmax =
     (if num > newmax then grow_max num (if newmax \<noteq> 0 then newmax * 2 else 4) else Some newmax)"

text \<open>\<open>memcpy\<close> and \<open>memmove\<close> of cells; the byte count is computed modulo \<open>2 ^ 32\<close>.\<close>

definition cell_count :: "u32 \<Rightarrow> nat" where
  "cell_count n = unat (n * 4) div 4"

definition copy_cells :: "'a list \<Rightarrow> 'a list \<Rightarrow> nat \<Rightarrow> 'a list run" where
  "copy_cells dst src n =
     (if n \<le> length dst \<and> n \<le> length src then Ok (take n src @ drop n dst) else Halt Wild)"

definition array_setsize :: "'a block_alloc \<Rightarrow> 'a karray \<Rightarrow> u32 \<Rightarrow> (int \<times> 'a karray) run" where
  "array_setsize km a num =
     (if num > arr_max a then
        (case grow_max num (arr_max a) of
           None \<Rightarrow> Halt Spinning
         | Some newmax \<Rightarrow>
             (case km (newmax * 4) of
                None \<Rightarrow> Ok (ENOMEM, a)
              | Some newptr \<Rightarrow>
                  bindR (copy_cells newptr (arr_v a) (cell_count (arr_num a))) (\<lambda>v'.
                    Ok (0, a\<lparr>arr_v := v', arr_max := newmax, arr_num := num\<rparr>))))
      else Ok (0, a\<lparr>arr_num := num\<rparr>))"

definition array_add :: "'a block_alloc \<Rightarrow> 'a karray \<Rightarrow> 'a \<Rightarrow> (int \<times> u32 \<times> 'a karray) run" where
  "array_add km a val =
     (let index = arr_num a in
      bindR (array_setsize km a (index + 1)) (\<lambda>(ret, a').
        if ret \<noteq> 0 then Ok (ret, 0, a')
        else if unat index < length (arr_v a')
        then Ok (0, index, a'\<lparr>arr_v := (arr_v a')[unat index := val]\<rparr>)
        else Halt Wild))"

definition move_cells :: "'a list \<Rightarrow> nat \<Rightarrow> nat \<Rightarrow> nat \<Rightarrow> 'a list run" where
  "move_cells v dst src n =
     (if src + n \<le> length v \<and> dst + n \<le> length v
      then Ok (take dst v @ take n (drop src v) @ drop (dst + n) v) else Halt Wild)"

definition array_remove :: "'a karray \<Rightarrow> u32 \<Rightarrow> 'a karray run" where
  "array_remove a index =
     kassert (arr_num a \<le> arr_max a) (kassert (index < arr_num a)
       (let num_to_move = arr_num a - (index + 1) in
        bindR (move_cells (arr_v a) (unat index) (unat index + 1) (cell_count num_to_move)) (\<lambda>v'.
          Ok (a\<lparr>arr_v := v', arr_num := arr_num a - 1\<rparr>))))"

subsection \<open>Invariant and abstraction\<close>

text \<open>
  Capacities are 0 or 4 times a power of two and stay at most \<open>2 ^ 28\<close> cells (one gigabyte of
  pointers, twice what \<open>kseg0\<close> can address), so no size computation wraps.
\<close>

definition good_max :: "nat \<Rightarrow> bool" where
  "good_max m \<longleftrightarrow> m = 0 \<or> (\<exists>k \<le> 26. m = 2 ^ (k + 2))"

definition array_inv :: "'a karray \<Rightarrow> bool" where
  "array_inv a \<longleftrightarrow> length (arr_v a) = unat (arr_max a) \<and> arr_num a \<le> arr_max a
     \<and> good_max (unat (arr_max a))"

definition array_list :: "'a karray \<Rightarrow> 'a list" where
  "array_list a = take (unat (arr_num a)) (arr_v a)"

lemma good_max_bound: "good_max m \<Longrightarrow> m \<le> 2 ^ 28"
proof -
  have "(2::nat) ^ (k + 2) \<le> 2 ^ 28" if "k \<le> 26" for k
    using that by (intro power_increasing) auto
  then show "good_max m \<Longrightarrow> m \<le> 2 ^ 28" by (auto simp: good_max_def)
qed

lemma array_list_length: "array_inv a \<Longrightarrow> length (array_list a) = unat (arr_num a)"
  by (simp add: array_inv_def array_list_def word_le_nat_alt)

lemma array_list_nth: "array_inv a \<Longrightarrow> i < unat (arr_num a) \<Longrightarrow> array_list a ! i = arr_v a ! i"
  by (simp add: array_list_def)

lemma array_inv_bounds:
  assumes "array_inv a"
  shows "unat (arr_num a) \<le> length (arr_v a)" and "unat (arr_num a) \<le> 2 ^ 28"
  using assms good_max_bound [of "unat (arr_max a)"] by (auto simp: array_inv_def word_le_nat_alt)

lemma cell_count_small: "unat n \<le> 2 ^ 28 \<Longrightarrow> cell_count n = unat n"
  by (simp add: cell_count_def unat_word_ariths)

text \<open>The doubling loop ends at a good capacity that is large enough.\<close>

lemma grow_max_from:
  assumes "k \<le> 26" and "unat num \<le> 2 ^ 28"
  shows "\<exists>m. grow_max num (2 ^ (k + 2)) = Some m \<and> num \<le> m \<and> good_max (unat m)"
  using assms(1)
proof (induction "26 - k" arbitrary: k)
  case 0
  then have "k = 26" by simp
  moreover have "\<not> num > 2 ^ 28" using assms(2) by (simp add: word_less_nat_alt)
  ultimately show ?case
    by (subst grow_max.simps) (auto simp: good_max_def not_less intro!: exI [of _ 26])
next
  case (Suc j)
  have p: "unat ((2::u32) ^ (k + 2)) = 2 ^ (k + 2)" using Suc by (intro unat_pow2) simp
  show ?case
  proof (cases "num > 2 ^ (k + 2)")
    case False
    then show ?thesis
      using Suc.prems p by (subst grow_max.simps) (auto simp: good_max_def not_less)
  next
    case True
    have "(2::u32) ^ (k + 2) \<noteq> 0" using p by (metis power_not_zero unat_0 zero_neq_numeral)
    then have "grow_max num (2 ^ (k + 2)) = grow_max num (2 ^ (Suc k + 2))"
      using True by (subst grow_max.simps) (simp add: mult.commute)
    moreover have "\<exists>m. grow_max num (2 ^ (Suc k + 2)) = Some m \<and> num \<le> m \<and> good_max (unat m)"
      using Suc by (intro Suc.hyps(1)) auto
    ultimately show ?thesis by simp
  qed
qed

lemma grow_max_good:
  assumes "good_max (unat mx)" and "unat num \<le> 2 ^ 28"
  shows "\<exists>m. grow_max num mx = Some m \<and> num \<le> m \<and> good_max (unat m)"
proof (cases "mx = 0")
  case True
  have "grow_max num 0 = (if num > 0 then grow_max num (2 ^ (0 + 2)) else Some 0)"
    by (subst grow_max.simps) simp
  with True assms(2) grow_max_from [of 0 num] show ?thesis
    by (auto simp: good_max_def word_gt_0)
next
  case False
  then have "unat mx \<noteq> 0" by (simp add: unat_eq_0)
  with assms(1) obtain k where k: "k \<le> 26" "unat mx = 2 ^ (k + 2)" by (auto simp: good_max_def)
  have "unat ((2::u32) ^ (k + 2)) = 2 ^ (k + 2)" using k(1) by (intro unat_pow2) simp
  with k(2) have "mx = 2 ^ (k + 2)" by (intro word_eq_of_unat) (simp only:)
  with k(1) assms(2) grow_max_from [of k num] show ?thesis by simp
qed

subsection \<open>Behaviour of the operations\<close>

lemma array_init_inv [simp]: "array_inv array_init" "array_list array_init = []"
  by (simp_all add: array_inv_def array_init_def array_list_def good_max_def)

lemma array_init_num: "array_get_num array_init = 0"
  by (simp add: array_get_num_def array_init_def)

lemma array_get_spec:
  assumes "array_inv a"
  shows "array_get a i =
    (if unat i < length (array_list a) then Ok (array_list a ! unat i) else Halt Assertion)"
  using assms array_inv_bounds(1) [OF assms]
  by (auto simp: array_get_def array_list_length array_list_nth word_less_nat_alt)

lemma array_set_spec:
  assumes "array_inv a" and "unat i < length (array_list a)"
  shows "\<exists>a'. array_set a i x = Ok a' \<and> array_inv a' \<and> array_list a' = (array_list a)[unat i := x]"
  using assms array_inv_bounds(1) [OF assms(1)]
  by (auto simp: array_set_def array_list_length word_less_nat_alt array_inv_def array_list_def
      take_update_swap)

lemma array_setsize_spec:
  assumes inv: "array_inv a" and km: "block_alloc_ok km" and n: "unat num \<le> 2 ^ 28"
  shows "(\<exists>a'. array_setsize km a num = Ok (0, a') \<and> array_inv a' \<and> arr_num a' = num
            \<and> (\<forall>i < min (unat num) (unat (arr_num a)). array_list a' ! i = array_list a ! i))
         \<or> (array_setsize km a num = Ok (ENOMEM, a) \<and> num > arr_max a \<and> (\<exists>z. km z = None))"
proof (cases "num > arr_max a")
  case False
  then have "array_inv (a\<lparr>arr_num := num\<rparr>)" using inv by (simp add: array_inv_def not_less)
  with False show ?thesis using inv
    by (auto simp: array_setsize_def array_list_def array_inv_def)
next
  case True
  from inv have "good_max (unat (arr_max a))" by (simp add: array_inv_def)
  from grow_max_good [OF this n] obtain m
    where m: "grow_max num (arr_max a) = Some m" "num \<le> m" "good_max (unat m)" by blast
  have wide: "unat (m * 4) div 4 = unat m"
    using good_max_bound [OF m(3)] by (simp add: unat_word_ariths)
  show ?thesis
  proof (cases "km (m * 4)")
    case None
    with True m(1) show ?thesis by (auto simp: array_setsize_def)
  next
    case (Some b)
    then have b: "length b = unat m" using km wide by (simp add: block_alloc_ok_def)
    have le: "unat (arr_num a) \<le> unat m"
      using True m(2) inv by (auto simp: array_inv_def word_le_nat_alt word_less_nat_alt)
    define v' where "v' = take (unat (arr_num a)) (arr_v a) @ drop (unat (arr_num a)) b"
    have "copy_cells b (arr_v a) (cell_count (arr_num a)) = Ok v'"
      using b le array_inv_bounds [OF inv] by (simp add: copy_cells_def cell_count_small v'_def)
    then have eq: "array_setsize km a num = Ok (0, a\<lparr>arr_v := v', arr_max := m, arr_num := num\<rparr>)"
      using True m(1) Some by (simp add: array_setsize_def)
    have "length v' = unat m" using b le array_inv_bounds(1) [OF inv] by (simp add: v'_def)
    moreover have "v' ! i = arr_v a ! i" if "i < unat (arr_num a)" for i
      using that array_inv_bounds(1) [OF inv] by (simp add: v'_def nth_append)
    ultimately show ?thesis using eq m(2,3)
      by (auto simp: array_inv_def array_list_def word_le_nat_alt)
  qed
qed

lemma array_add_spec:
  assumes inv: "array_inv a" and km: "block_alloc_ok km" and n: "length (array_list a) < 2 ^ 28"
  shows "(\<exists>a'. array_add km a x = Ok (0, arr_num a, a') \<and> array_inv a'
            \<and> array_list a' = array_list a @ [x])
         \<or> (array_add km a x = Ok (ENOMEM, 0, a) \<and> (\<exists>z. km z = None))"
proof -
  let ?n = "unat (arr_num a)"
  have len: "length (array_list a) = ?n" by (rule array_list_length [OF inv])
  have suc: "unat (arr_num a + 1) = Suc ?n"
    using n len by (simp add: unat_word_ariths)
  then have small: "unat (arr_num a + 1) \<le> 2 ^ 28" using n len by simp
  from array_setsize_spec [OF inv km small] show ?thesis
  proof (elim disjE exE conjE)
    fix a' assume a': "array_setsize km a (arr_num a + 1) = Ok (0, a')" "array_inv a'"
      "arr_num a' = arr_num a + 1"
      "\<forall>i < min (unat (arr_num a + 1)) (unat (arr_num a)). array_list a' ! i = array_list a ! i"
    have lv: "?n < length (arr_v a')"
      using array_inv_bounds(1) [OF a'(2)] a'(3) suc by simp
    let ?b = "a'\<lparr>arr_v := (arr_v a')[?n := x]\<rparr>"
    have "array_add km a x = Ok (0, arr_num a, ?b)"
      using a'(1) lv by (simp add: array_add_def Let_def)
    moreover have "array_inv ?b" using a'(2) by (simp add: array_inv_def)
    moreover have "array_list ?b = array_list a @ [x]"
    proof (rule nth_equalityI)
      show "length (array_list ?b) = length (array_list a @ [x])"
        using array_list_length [OF \<open>array_inv ?b\<close>] a'(3) suc len by simp
      fix i assume "i < length (array_list ?b)"
      then have "i < Suc ?n" using array_list_length [OF \<open>array_inv ?b\<close>] a'(3) suc by simp
      moreover have "arr_v a' ! i = array_list a ! i" if "i < ?n"
        using that a'(4) suc array_list_nth [OF a'(2), of i] a'(3) by simp
      ultimately show "array_list ?b ! i = (array_list a @ [x]) ! i"
        using len a'(3) suc lv by (auto simp: array_list_def nth_append less_Suc_eq)
    qed
    ultimately show ?thesis by blast
  next
    assume "array_setsize km a (arr_num a + 1) = Ok (ENOMEM, a)"
    moreover fix z assume "km z = None"
    ultimately show ?thesis by (auto simp: array_add_def ENOMEM_def)
  qed
qed

lemma array_remove_spec:
  assumes inv: "array_inv a" and i: "unat i < length (array_list a)"
  shows "\<exists>a'. array_remove a i = Ok a' \<and> array_inv a'
          \<and> array_list a' = take (unat i) (array_list a) @ drop (Suc (unat i)) (array_list a)"
proof -
  let ?n = "unat (arr_num a)" and ?i = "unat i"
  have i': "?i < ?n" using i array_list_length [OF inv] by simp
  have b: "?n \<le> length (arr_v a)" "?n \<le> 2 ^ 28" by (rule array_inv_bounds [OF inv])+
  have mv: "unat (arr_num a - (i + 1)) = ?n - Suc ?i"
  proof -
    have "unat (i + 1) = Suc ?i" using i' b(2) by (simp add: unat_word_ariths)
    moreover from this have "i + 1 \<le> arr_num a" using i' by (simp add: word_le_nat_alt)
    ultimately show ?thesis by (simp add: unat_sub)
  qed
  define v' where "v' = take ?i (arr_v a) @ take (?n - Suc ?i) (drop (Suc ?i) (arr_v a))
      @ drop (?i + (?n - Suc ?i)) (arr_v a)"
  have n1: "unat (arr_num a - 1) = ?n - 1"
    using i' by (subst unat_sub) (auto simp: word_le_nat_alt)
  have "array_remove a i = Ok (a\<lparr>arr_v := v', arr_num := arr_num a - 1\<rparr>)"
    using inv i' b mv by (simp add: array_remove_def move_cells_def cell_count_small v'_def
        array_inv_def word_less_nat_alt Let_def)
  moreover have lv: "length v' = length (arr_v a)" using i' b by (simp add: v'_def)
  moreover have "array_inv (a\<lparr>arr_v := v', arr_num := arr_num a - 1\<rparr>)"
    using inv lv n1 by (auto simp: array_inv_def word_le_nat_alt)
  moreover have "take (?n - 1) v' = take ?i (array_list a) @ drop (Suc ?i) (array_list a)"
    using i' b by (simp add: v'_def array_list_def drop_take)
  ultimately show ?thesis using n1 by (auto simp: array_list_def)
qed

subsection \<open>The contract of a pointer array\<close>

text \<open>
  \<open>scan\<close> is the search loop that \<open>find_proc\<close>, \<open>find_exitc\<close>, \<open>proc_remthread\<close> and
  \<open>sys__exit\<close> share: entries are read from index \<open>i\<close> on, at most \<open>n\<close> of them, up to
  the first one that matches.
\<close>

fun scan :: "(u32 \<Rightarrow> 'a run) \<Rightarrow> ('a \<Rightarrow> bool) \<Rightarrow> nat \<Rightarrow> nat \<Rightarrow> (nat \<times> 'a) option run" where
  "scan get p i 0 = Ok None"
| "scan get p i (Suc n) =
     bindR (get (of_nat i)) (\<lambda>x. if p x then Ok (Some (i, x)) else scan get p (Suc i) n)"

fun first_match :: "('a \<Rightarrow> bool) \<Rightarrow> nat \<Rightarrow> 'a list \<Rightarrow> (nat \<times> 'a) option" where
  "first_match p i [] = None"
| "first_match p i (x # xs) = (if p x then Some (i, x) else first_match p (Suc i) xs)"

lemma first_match_find: "map_option snd (first_match p i xs) = find p xs"
  by (induction p i xs rule: first_match.induct) auto

lemma first_match_Some:
  "first_match p i xs = Some (j, x) \<Longrightarrow>
     i \<le> j \<and> j - i < length xs \<and> xs ! (j - i) = x \<and> p x \<and> (\<forall>k < j - i. \<not> p (xs ! k))"
proof (induction p i xs rule: first_match.induct)
  case (2 p i y ys)
  show ?case
  proof (cases "p y")
    case False
    with 2 have "Suc i \<le> j \<and> j - Suc i < length ys \<and> ys ! (j - Suc i) = x \<and> p x
        \<and> (\<forall>k < j - Suc i. \<not> p (ys ! k))" by simp
    moreover from this obtain d where "j = Suc i + d" using le_Suc_ex by blast
    ultimately show ?thesis using False by (auto simp: less_Suc_eq_0_disj nth_Cons')
  qed (use 2 in auto)
qed simp

lemma first_match_remove1:
  "first_match (\<lambda>y. y = x) 0 xs = Some (j, z) \<Longrightarrow> take j xs @ drop (Suc j) xs = remove1 x xs"
proof -
  have "first_match (\<lambda>y. y = x) i xs = Some (j, z) \<Longrightarrow>
      i \<le> j \<and> take (j - i) xs @ drop (Suc (j - i)) xs = remove1 x xs" for i j
  proof (induction "\<lambda>y. y = x" i xs rule: first_match.induct)
    case (2 i y ys)
    show ?case
    proof (cases "y = x")
      case False
      with 2 have IH: "Suc i \<le> j" "take (j - Suc i) ys @ drop (Suc (j - Suc i)) ys = remove1 x ys"
        by auto
      then obtain d where "j = Suc i + d" using le_Suc_ex by blast
      with IH False show ?thesis by simp
    qed (use 2 in auto)
  qed simp
  then show "first_match (\<lambda>y. y = x) 0 xs = Some (j, z) \<Longrightarrow> take j xs @ drop (Suc j) xs = remove1 x xs"
    by fastforce
qed

locale ptr_array =
  fixes inv :: "'r \<Rightarrow> bool" and elems :: "'r \<Rightarrow> 'a list"
    and num :: "'r \<Rightarrow> u32" and get :: "'r \<Rightarrow> u32 \<Rightarrow> 'a run"
    and add :: "'a block_alloc \<Rightarrow> 'r \<Rightarrow> 'a \<Rightarrow> (int \<times> u32 \<times> 'r) run"
    and remove :: "'r \<Rightarrow> u32 \<Rightarrow> 'r run"
  assumes num_elems: "inv a \<Longrightarrow> unat (num a) = length (elems a)"
    and get_elems: "inv a \<Longrightarrow> unat i < length (elems a) \<Longrightarrow> get a i = Ok (elems a ! unat i)"
    and add_elems: "inv a \<Longrightarrow> block_alloc_ok km \<Longrightarrow> length (elems a) < 2 ^ 28 \<Longrightarrow>
      (\<exists>a'. add km a x = Ok (0, num a, a') \<and> inv a' \<and> elems a' = elems a @ [x])
      \<or> (add km a x = Ok (ENOMEM, 0, a) \<and> (\<exists>z. km z = None))"
    and remove_elems: "inv a \<Longrightarrow> unat i < length (elems a) \<Longrightarrow>
      \<exists>a'. remove a i = Ok a' \<and> inv a'
        \<and> elems a' = take (unat i) (elems a) @ drop (Suc (unat i)) (elems a)"
begin

lemma index_word: "inv a \<Longrightarrow> i < length (elems a) \<Longrightarrow> unat (of_nat i :: u32) = i"
  using num_elems [of a] unat_u32_bound [of "num a"] by (intro unat_of_nat_small) simp

lemma scan_drop:
  assumes "inv a"
  shows "scan (get a) p i (length (elems a) - i) = Ok (first_match p i (drop i (elems a)))"
proof (induction "length (elems a) - i" arbitrary: i)
  case 0
  then show ?case by simp
next
  case (Suc n)
  then have i: "i < length (elems a)" by simp
  then have "get a (of_nat i) = Ok (elems a ! i)"
    using get_elems [OF assms] index_word [OF assms] by simp
  moreover have "drop i (elems a) = elems a ! i # drop (Suc i) (elems a)"
    using i by (simp add: Cons_nth_drop_Suc)
  moreover have "length (elems a) - i = Suc (length (elems a) - Suc i)" using i by simp
  moreover have "scan (get a) p (Suc i) (length (elems a) - Suc i)
      = Ok (first_match p (Suc i) (drop (Suc i) (elems a)))"
    using Suc.hyps(2) by (intro Suc.hyps(1)) simp
  ultimately show ?case by simp
qed

lemma scan_finds: "inv a \<Longrightarrow> scan (get a) p 0 (unat (num a)) = Ok (first_match p 0 (elems a))"
  using scan_drop [of a p 0] by (simp add: num_elems)

lemma remove_found:
  assumes "inv a" and "first_match (\<lambda>y. y = x) 0 (elems a) = Some (j, z)"
  shows "\<exists>a'. remove a (of_nat j) = Ok a' \<and> inv a' \<and> elems a' = remove1 x (elems a)"
proof -
  have j: "j < length (elems a)" using first_match_Some [OF assms(2)] by simp
  then have "unat (of_nat j :: u32) = j" by (rule index_word [OF assms(1)])
  then show ?thesis
    using remove_elems [OF assms(1), of "of_nat j"] j first_match_remove1 [OF assms(2)] by simp
qed

end

interpretation karr: ptr_array array_inv array_list array_get_num array_get array_add array_remove
proof
  show "array_inv a \<Longrightarrow> unat (array_get_num a) = length (array_list a)" for a :: "'a karray"
    by (simp add: array_get_num_def array_list_length)
  show "array_inv a \<Longrightarrow> unat i < length (array_list a) \<Longrightarrow> array_get a i = Ok (array_list a ! unat i)"
    for a :: "'a karray" and i by (simp add: array_get_spec)
  show "array_inv a \<Longrightarrow> block_alloc_ok km \<Longrightarrow> length (array_list a) < 2 ^ 28 \<Longrightarrow>
      (\<exists>a'. array_add km a x = Ok (0, array_get_num a, a') \<and> array_inv a' \<and> array_list a' = array_list a @ [x])
      \<or> (array_add km a x = Ok (ENOMEM, 0, a) \<and> (\<exists>z. km z = None))" for a :: "'a karray" and km x
    using array_add_spec [of a km x] by (simp add: array_get_num_def)
  show "array_inv a \<Longrightarrow> unat i < length (array_list a) \<Longrightarrow>
      \<exists>a'. array_remove a i = Ok a' \<and> array_inv a'
        \<and> array_list a' = take (unat i) (array_list a) @ drop (Suc (unat i)) (array_list a)"
    for a :: "'a karray" and i by (rule array_remove_spec)
qed

text \<open>
  C13: adding to a pointer array either fails with \<open>ENOMEM\<close> and leaves it as it was, or returns
  the index at which the new entry is then found with every earlier entry where it was; removing
  at that index gives the old sequence back, and a search for the entry starting from index 0
  returns its first occurrence.
\<close>

theorem array_add_get_remove:
  assumes inv: "array_inv a" and km: "block_alloc_ok km" and len: "length (array_list a) < 2 ^ 28"
  shows "(array_add km a x = Ok (ENOMEM, 0, a) \<and> (\<exists>z. km z = None))
    \<or> (\<exists>a' a''. array_add km a x = Ok (0, array_get_num a, a')
        \<and> array_get a' (array_get_num a) = Ok x
        \<and> (\<forall>i. unat i < length (array_list a) \<longrightarrow> array_get a' i = array_get a i)
        \<and> scan (array_get a') (\<lambda>y. y = x) 0 (unat (array_get_num a'))
            = Ok (first_match (\<lambda>y. y = x) 0 (array_list a @ [x]))
        \<and> array_remove a' (array_get_num a) = Ok a'' \<and> array_inv a''
        \<and> array_list a'' = array_list a)"
proof -
  from karr.add_elems [OF inv km len, of x] consider
      (full) "array_add km a x = Ok (ENOMEM, 0, a)" "\<exists>z. km z = None"
    | (added) a' where "array_add km a x = Ok (0, array_get_num a, a')" "array_inv a'"
        "array_list a' = array_list a @ [x]" by blast
  then show ?thesis
  proof cases
    case full
    then show ?thesis by blast
  next
    case added
    have num: "unat (array_get_num a) = length (array_list a)" by (rule karr.num_elems [OF inv])
    have "array_get a' (array_get_num a) = Ok x"
      using karr.get_elems [OF added(2), of "array_get_num a"] added(3) num by simp
    moreover have "array_get a' i = array_get a i" if "unat i < length (array_list a)" for i
      using that karr.get_elems [OF added(2), of i] karr.get_elems [OF inv, of i] added(3)
      by (simp add: nth_append)
    moreover from karr.remove_elems [OF added(2), of "array_get_num a"] added(3) num
    obtain a'' where "array_remove a' (array_get_num a) = Ok a''" "array_inv a''"
      "array_list a'' = array_list a" by auto
    moreover note karr.scan_finds [OF added(2), of "\<lambda>y. y = x"]
    ultimately show ?thesis using added(1,3) by auto
  qed
qed

theorem array_add_get_remove_witness:
  "\<exists>a' a''. array_add (\<lambda>z. Some (replicate (unat z div 4) 0)) array_init (7::nat) = Ok (0, 0, a')
     \<and> array_get a' 0 = Ok 7 \<and> array_remove a' 0 = Ok a'' \<and> array_list a'' = []"
  using array_add_get_remove [of array_init "\<lambda>z. Some (replicate (unat z div 4) 0)" "7::nat"]
  by (auto simp: block_alloc_ok_def array_init_num)

end
