(* ===== verification/KQueue.thy ===== *)
theory KQueue
  imports KArray
begin

text \<open>
  Queues of pointers (\<^verbatim>\<open>kern/lib/queue.c\<close>): a circular buffer that doubles when it is full. One slot
  always stays free, so equal indices mean an empty queue. The C fields are \<open>int\<close>; the model keeps
  them as integers and writes the wrap-around out where the code computes with it. The indices
  start at zero and are only ever assigned remainders modulo a positive size.
\<close>

subsection \<open>The functions of queue.c\<close>

record 'a queue =
  q_size :: int
  q_nextwrite :: int
  q_nextread :: int
  q_data :: "'a list"

text \<open>The doubling loop of \<open>q_grow\<close>, on a signed 32-bit counter.\<close>

partial_function (option) q_newsize :: "int \<Rightarrow> int \<Rightarrow> int run option" where
  "q_newsize nsize targetsize =
     (if nsize < targetsize then
        if cint (nsize * 2) > 0 then q_newsize (cint (nsize * 2)) targetsize
        else Some (Halt Assertion)
      else Some (Ok nsize))"

text \<open>
  The copy loop of \<open>q_grow\<close>. With \<open>osize + 1\<close> iterations every slot of the old buffer has been
  visited; a loop that has not met \<open>onw\<close> by then never ends.
\<close>

fun q_move :: "('a queue \<Rightarrow> 'a \<Rightarrow> (int \<times> 'a queue) run) \<Rightarrow> 'a list \<Rightarrow> int \<Rightarrow> int \<Rightarrow> nat \<Rightarrow> int
    \<Rightarrow> 'a queue \<Rightarrow> 'a queue run" where
  "q_move addtail olddata osize onw 0 i q = Halt Spinning"
| "q_move addtail olddata osize onw (Suc n) i q =
     (if i \<noteq> onw then
        if 0 \<le> i \<and> nat i < length olddata then
          bindR (addtail q (olddata ! nat i)) (\<lambda>(result, q').
            kassert (result = 0) (q_move addtail olddata osize onw n ((i + 1) mod osize) q'))
        else Halt Wild
      else Ok q)"

definition q_grow_via :: "('a queue \<Rightarrow> 'a \<Rightarrow> (int \<times> 'a queue) run) \<Rightarrow> 'a block_alloc \<Rightarrow> 'a queue
    \<Rightarrow> int \<Rightarrow> (int \<times> 'a queue) run" where
  "q_grow_via addtail km q targetsize =
     (case q_newsize (q_size q) targetsize of
        None \<Rightarrow> Halt Spinning
      | Some r \<Rightarrow> bindR r (\<lambda>nsize.
          case km (of_int nsize * 4) of
            None \<Rightarrow> Ok (ENOMEM, q)
          | Some ndata \<Rightarrow>
              bindR (q_move addtail (q_data q) (q_size q) (q_nextwrite q) (Suc (nat (q_size q)))
                  (q_nextread q) (q\<lparr>q_size := nsize, q_data := ndata, q_nextread := 0, q_nextwrite := 0\<rparr>))
                (\<lambda>q'. Ok (0, q'))))"

definition q_addtail_via :: "('a queue \<Rightarrow> int \<Rightarrow> (int \<times> 'a queue) run) \<Rightarrow> 'a queue \<Rightarrow> 'a
    \<Rightarrow> (int \<times> 'a queue) run" where
  "q_addtail_via grow q ptr =
     kassert (q_size q > 0)
       (let put = (\<lambda>q nextnext.
              if 0 \<le> q_nextwrite q \<and> nat (q_nextwrite q) < length (q_data q) then
                Ok (0, q\<lparr>q_data := (q_data q)[nat (q_nextwrite q) := ptr], q_nextwrite := nextnext\<rparr>)
              else Halt Wild);
            nextnext = (q_nextwrite q + 1) mod q_size q
        in if nextnext = q_nextread q then
             bindR (grow q (q_size q + 1)) (\<lambda>(result, q').
               if result \<noteq> 0 then Ok (result, q')
               else put q' ((q_nextwrite q' + 1) mod q_size q'))
           else put q nextnext)"

text \<open>
  \<open>q_addtail\<close> and \<open>q_grow\<close> call each other. The nesting is never deeper than two: the buffer that
  \<open>q_grow\<close> refills is large enough for every entry it moves (\<open>q_addtail_depth\<close> below).
\<close>

fun q_addtail_d :: "nat \<Rightarrow> 'a block_alloc \<Rightarrow> 'a queue \<Rightarrow> 'a \<Rightarrow> (int \<times> 'a queue) run" where
  "q_addtail_d 0 km = (\<lambda>q ptr. Halt Spinning)"
| "q_addtail_d (Suc d) km = q_addtail_via (q_grow_via (q_addtail_d d km) km)"

definition q_addtail :: "'a block_alloc \<Rightarrow> 'a queue \<Rightarrow> 'a \<Rightarrow> (int \<times> 'a queue) run" where
  "q_addtail = q_addtail_d 2"

definition q_grow :: "'a block_alloc \<Rightarrow> 'a queue \<Rightarrow> int \<Rightarrow> (int \<times> 'a queue) run" where
  "q_grow km = q_grow_via (q_addtail km) km"

definition q_create :: "bool \<Rightarrow> 'a block_alloc \<Rightarrow> int \<Rightarrow> 'a queue option" where
  "q_create got_q km sz =
     (if \<not> got_q then None
      else case km (of_int sz * 4) of
             None \<Rightarrow> None
           | Some d \<Rightarrow> Some \<lparr>q_size = sz, q_nextwrite = 0, q_nextread = 0, q_data = d\<rparr>)"

definition q_preallocate :: "'a block_alloc \<Rightarrow> 'a queue \<Rightarrow> int \<Rightarrow> (int \<times> 'a queue) run" where
  "q_preallocate km q sz =
     kassert (q_size q > 0) (if sz > q_size q then q_grow km q sz else Ok (0, q))"

definition q_empty :: "'a queue \<Rightarrow> bool" where
  "q_empty q \<longleftrightarrow> q_nextwrite q = q_nextread q"

definition q_remhead :: "'a queue \<Rightarrow> ('a \<times> 'a queue) run" where
  "q_remhead q =
     kassert (q_size q > 0) (kassert (\<not> q_empty q)
       (if 0 \<le> q_nextread q \<and> nat (q_nextread q) < length (q_data q) then
          Ok (q_data q ! nat (q_nextread q), q\<lparr>q_nextread := (q_nextread q + 1) mod q_size q\<rparr>)
        else Halt Wild))"

definition q_destroy :: "'a queue \<Rightarrow> unit run" where
  "q_destroy q = kassert (q_empty q) (Ok ())"

definition q_getguy :: "'a queue \<Rightarrow> int \<Rightarrow> 'a run" where
  "q_getguy q i =
     kassert (i \<ge> 0 \<and> i < q_size q) (if nat i < length (q_data q) then Ok (q_data q ! nat i) else Halt Wild)"

text \<open>\<open>None\<close> is the null pointer that \<open>q_peek\<close> returns for an empty queue.\<close>

definition q_peek :: "'a queue \<Rightarrow> 'a option run" where
  "q_peek q =
     kassert (q_size q > 0)
       (if q_empty q then Ok None
        else if 0 \<le> q_nextread q \<and> nat (q_nextread q) < length (q_data q) then
          Ok (Some (q_data q ! nat (q_nextread q)))
        else Halt Wild)"

fun q_len_from :: "'a queue \<Rightarrow> nat \<Rightarrow> int \<Rightarrow> int \<Rightarrow> int run" where
  "q_len_from q 0 tmp n0 = Halt Spinning"
| "q_len_from q (Suc n) tmp n0 =
     (if tmp \<noteq> q_nextwrite q then q_len_from q n ((tmp + 1) mod q_size q) (n0 + 1) else Ok n0)"

definition q_len :: "'a queue \<Rightarrow> int run" where
  "q_len q = q_len_from q (Suc (nat (q_size q))) (q_nextread q) 0"

subsection \<open>The ring as a list\<close>

definition q_inv :: "'a queue \<Rightarrow> bool" where
  "q_inv q \<longleftrightarrow> 0 < q_size q \<and> q_size q \<le> 2 ^ 29 \<and> length (q_data q) = nat (q_size q)
     \<and> 0 \<le> q_nextread q \<and> q_nextread q < q_size q \<and> 0 \<le> q_nextwrite q \<and> q_nextwrite q < q_size q"

definition q_count :: "'a queue \<Rightarrow> nat" where
  "q_count q = nat ((q_nextwrite q - q_nextread q) mod q_size q)"

definition q_slot :: "'a queue \<Rightarrow> nat \<Rightarrow> int" where
  "q_slot q k = (q_nextread q + int k) mod q_size q"

definition q_list :: "'a queue \<Rightarrow> 'a list" where
  "q_list q = map (\<lambda>k. q_data q ! nat (q_slot q k)) [0..<q_count q]"

lemma q_list_length [simp]: "length (q_list q) = q_count q"
  by (simp add: q_list_def)

lemma q_list_nth: "k < q_count q \<Longrightarrow> q_list q ! k = q_data q ! nat (q_slot q k)"
  by (simp add: q_list_def)

lemma q_slot_range: "q_inv q \<Longrightarrow> 0 \<le> q_slot q k \<and> q_slot q k < q_size q"
  by (simp add: q_inv_def q_slot_def)

lemma q_slot_0: "q_inv q \<Longrightarrow> q_slot q 0 = q_nextread q"
  by (simp add: q_inv_def q_slot_def)

lemma q_slot_Suc: "(q_slot q k + 1) mod q_size q = q_slot q (Suc k)"
  by (simp add: q_slot_def mod_simps algebra_simps)

lemma q_count_int: "q_inv q \<Longrightarrow> int (q_count q) = (q_nextwrite q - q_nextread q) mod q_size q"
  by (simp add: q_count_def q_inv_def)

lemma q_count_less: "q_inv q \<Longrightarrow> int (q_count q) < q_size q"
  by (simp add: q_count_int) (simp add: q_inv_def)

lemma q_slot_count: "q_inv q \<Longrightarrow> q_slot q (q_count q) = q_nextwrite q"
  by (simp add: q_slot_def q_count_int mod_simps) (simp add: q_inv_def)

lemma q_slot_inj:
  assumes "q_inv q" and "q_slot q j = q_slot q k" and "int j < q_size q" and "int k < q_size q"
  shows "j = k"
proof -
  have "(int j) mod q_size q = (int k) mod q_size q"
    using assms(2) by (metis add_diff_cancel_left' mod_diff_left_eq q_slot_def)
  then show ?thesis using assms(3,4) by simp
qed

lemma q_slot_nextwrite: "q_inv q \<Longrightarrow> k < q_count q \<Longrightarrow> q_slot q k \<noteq> q_nextwrite q"
  using q_slot_inj [of q k "q_count q"] q_count_less [of q] q_slot_count [of q] by fastforce

lemma q_empty_iff: "q_inv q \<Longrightarrow> q_empty q \<longleftrightarrow> q_count q = 0"
  using q_slot_count [of q] q_slot_0 [of q] q_slot_nextwrite [of q 0]
  by (cases "q_count q") (auto simp: q_empty_def)

lemma q_full_iff:
  assumes "q_inv q"
  shows "(q_nextwrite q + 1) mod q_size q = q_nextread q \<longleftrightarrow> int (q_count q) + 1 = q_size q"
proof -
  have step: "(q_nextwrite q + 1) mod q_size q = q_slot q (Suc (q_count q))"
    using q_slot_Suc [of q "q_count q"] q_slot_count [OF assms] by simp
  show ?thesis
  proof
    assume "(q_nextwrite q + 1) mod q_size q = q_nextread q"
    then have "q_slot q (Suc (q_count q)) = q_slot q 0" using step q_slot_0 [OF assms] by simp
    then show "int (q_count q) + 1 = q_size q"
      using q_slot_inj [OF assms] q_count_less [OF assms] assms by (fastforce simp: q_inv_def)
  next
    assume "int (q_count q) + 1 = q_size q"
    then have "int (Suc (q_count q)) = q_size q" by simp
    then have "q_slot q (Suc (q_count q)) = q_nextread q mod q_size q" unfolding q_slot_def by simp
    then show "(q_nextwrite q + 1) mod q_size q = q_nextread q"
      using step assms by (simp add: q_inv_def)
  qed
qed

definition q_put :: "'a queue \<Rightarrow> 'a \<Rightarrow> 'a queue" where
  "q_put q x = q\<lparr>q_data := (q_data q)[nat (q_nextwrite q) := x],
     q_nextwrite := (q_nextwrite q + 1) mod q_size q\<rparr>"

lemma q_put_spec:
  assumes inv: "q_inv q" and room: "int (q_count q) + 1 < q_size q"
  shows "q_inv (q_put q x)" "q_list (q_put q x) = q_list q @ [x]"
    "q_count (q_put q x) = Suc (q_count q)" "q_size (q_put q x) = q_size q"
proof -
  show inv': "q_inv (q_put q x)" using inv by (simp add: q_inv_def q_put_def)
  have "((q_nextwrite q + 1) mod q_size q - q_nextread q) mod q_size q
      = ((q_nextwrite q - q_nextread q) mod q_size q + 1) mod q_size q"
    by (simp add: mod_simps algebra_simps)
  also have "\<dots> = int (q_count q) + 1"
    using room by (simp add: q_count_int [OF inv, symmetric])
  finally have "int (q_count (q_put q x)) = int (q_count q) + 1"
    by (subst q_count_int [OF inv']) (simp add: q_put_def)
  then show c: "q_count (q_put q x) = Suc (q_count q)" by simp
  have slot: "q_slot (q_put q x) k = q_slot q k" for k by (simp add: q_slot_def q_put_def)
  have nw: "nat (q_nextwrite q) < length (q_data q)" using inv by (simp add: q_inv_def)
  show "q_list (q_put q x) = q_list q @ [x]"
  proof (rule nth_equalityI)
    fix k assume "k < length (q_list (q_put q x))"
    then have k: "k < Suc (q_count q)" using c by simp
    have data: "q_data (q_put q x) = (q_data q)[nat (q_nextwrite q) := x]" by (simp add: q_put_def)
    show "q_list (q_put q x) ! k = (q_list q @ [x]) ! k"
    proof (cases "k = q_count q")
      case True
      then show ?thesis using k c nw q_slot_count [OF inv]
        by (simp add: q_list_nth slot data nth_append)
    next
      case False
      with k have less: "k < q_count q" by simp
      moreover have "nat (q_slot q k) \<noteq> nat (q_nextwrite q)"
        using q_slot_nextwrite [OF inv less] q_slot_range [OF inv, of k] inv
        by (simp add: q_inv_def eq_nat_nat_iff)
      ultimately show ?thesis using c by (simp add: q_list_nth slot data nth_append)
    qed
  qed (use c in simp)
  show "q_size (q_put q x) = q_size q" by (simp add: q_put_def)
qed

lemma q_addtail_via_room:
  assumes "q_inv q" and "int (q_count q) + 1 < q_size q"
  shows "q_addtail_via grow q x = Ok (0, q_put q x)"
  using assms q_full_iff [OF assms(1)]
  by (simp add: q_addtail_via_def q_put_def Let_def) (simp add: q_inv_def)

subsection \<open>Growing\<close>

lemma q_newsize_spec:
  assumes "0 < s" and "s \<le> 2 ^ 29" and "t \<le> 2 ^ 29"
  shows "\<exists>m. q_newsize s t = Some (Ok m) \<and> s \<le> m \<and> t \<le> m \<and> m < 2 ^ 30 \<and> (m = s \<or> m < 2 * t)"
  using assms
proof (induction "nat (t - s)" arbitrary: s rule: less_induct)
  case less
  show ?case
  proof (cases "s < t")
    case True
    then have c: "cint (s * 2) = s * 2" using less.prems by (intro cint_small) auto
    show ?thesis
    proof (cases "s * 2 < t")
      case True
      with less.prems \<open>s < t\<close> less.hyps [of "s * 2"] show ?thesis
        by (subst q_newsize.simps) (auto simp: c)
    next
      case False
      then have "q_newsize (s * 2) t = Some (Ok (s * 2))" by (subst q_newsize.simps) simp
      with False less.prems \<open>s < t\<close> show ?thesis by (subst q_newsize.simps) (auto simp: c)
    qed
  next
    case False
    with less.prems show ?thesis by (subst q_newsize.simps) auto
  qed
qed

lemma q_move_spec:
  assumes old: "q_inv q0"
    and add: "\<And>q x. q_inv q \<Longrightarrow> int (q_count q) + 1 < q_size q \<Longrightarrow> add q x = Ok (0, q_put q x)"
  shows "\<lbrakk>j \<le> q_count q0; q_count q0 - j < n; q_inv q;
      int (q_count q) + int (q_count q0 - j) < q_size q\<rbrakk> \<Longrightarrow>
    \<exists>q'. q_move add (q_data q0) (q_size q0) (q_nextwrite q0) n (q_slot q0 j) q = Ok q'
      \<and> q_inv q' \<and> q_size q' = q_size q \<and> q_list q' = q_list q @ drop j (q_list q0)"
proof (induction n arbitrary: j q)
  case (Suc n)
  show ?case
  proof (cases "j = q_count q0")
    case True
    then show ?thesis using Suc.prems q_slot_count [OF old] by simp
  next
    case False
    with Suc.prems(1) have j: "j < q_count q0" by simp
    then have room: "int (q_count q) + 1 < q_size q" using Suc.prems(4) by simp
    let ?x = "q_data q0 ! nat (q_slot q0 j)" 
    note put = q_put_spec [OF Suc.prems(3) room, of ?x]
    have "\<exists>q'. q_move add (q_data q0) (q_size q0) (q_nextwrite q0) n (q_slot q0 (Suc j)) (q_put q ?x) = Ok q'
        \<and> q_inv q' \<and> q_size q' = q_size (q_put q ?x)
        \<and> q_list q' = q_list (q_put q ?x) @ drop (Suc j) (q_list q0)"
      using j Suc.prems put by (intro Suc.IH) auto
    moreover have "q_slot q0 j \<noteq> q_nextwrite q0" by (rule q_slot_nextwrite [OF old j])
    moreover have "nat (q_slot q0 j) < length (q_data q0)" "0 \<le> q_slot q0 j"
      using q_slot_range [OF old, of j] old by (auto simp: q_inv_def)
    moreover have "drop j (q_list q0) = ?x # drop (Suc j) (q_list q0)"
      using j by (simp add: q_list_nth [symmetric] Cons_nth_drop_Suc)
    ultimately show ?thesis using add [OF Suc.prems(3) room] put
      by (auto simp: q_slot_Suc)
  qed
qed simp

text \<open>What the buffer allocator promises: a block has one cell per four bytes asked for.\<close>

lemma q_block_length:
  assumes "block_alloc_ok km" and "km (of_int m * 4) = Some d" and "0 \<le> m" and "m < 2 ^ 30"
  shows "length d = nat m"
proof -
  have "unat (of_int m * 4 :: u32) = nat m * 4"
  proof -
    have "(of_int m * 4 :: u32) = of_nat (nat m * 4)" using assms(3) by simp
    then show ?thesis using assms(3,4) by (simp only:) (intro unat_of_nat_small, simp)
  qed
  then show ?thesis using assms(1,2) by (simp add: block_alloc_ok_def)
qed

lemma q_grow_via_spec:
  assumes inv: "q_inv q" and km: "block_alloc_ok km" and t: "q_size q < t" "t \<le> 2 ^ 28"
    and add: "\<And>q x. q_inv q \<Longrightarrow> int (q_count q) + 1 < q_size q \<Longrightarrow> add q x = Ok (0, q_put q x)"
  shows "(\<exists>q'. q_grow_via add km q t = Ok (0, q') \<and> q_inv q' \<and> t \<le> q_size q' \<and> q_list q' = q_list q)
    \<or> (q_grow_via add km q t = Ok (ENOMEM, q) \<and> (\<exists>z. km z = None))"
proof -
  from q_newsize_spec [of "q_size q" t] inv t obtain m where
    m: "q_newsize (q_size q) t = Some (Ok m)" "t \<le> m" "m < 2 ^ 30" "m < 2 * t"
    by (auto simp: q_inv_def)
  show ?thesis
  proof (cases "km (of_int m * 4)")
    case None
    then show ?thesis using m by (auto simp: q_grow_via_def)
  next
    case (Some d)
    let ?q = "q\<lparr>q_size := m, q_data := d, q_nextread := 0, q_nextwrite := 0\<rparr>"
    have m0: "0 < m" using m(2) t inv by (simp add: q_inv_def)
    then have "length d = nat m" using q_block_length [OF km Some] m(3) by simp
    then have inv': "q_inv ?q" using m m0 t by (simp add: q_inv_def)
    have c: "q_count ?q = 0" by (simp add: q_count_def)
    then have "q_list ?q = []" by (simp add: q_list_def)
    moreover have "\<exists>q'. q_move add (q_data q) (q_size q) (q_nextwrite q) (Suc (nat (q_size q))) (q_slot q 0) ?q = Ok q'
        \<and> q_inv q' \<and> q_size q' = q_size ?q \<and> q_list q' = q_list ?q @ drop 0 (q_list q)"
      using q_count_less [OF inv] t m(2) c inv' by (intro q_move_spec [OF inv add]) auto
    ultimately obtain q' where
      "q_move add (q_data q) (q_size q) (q_nextwrite q) (Suc (nat (q_size q))) (q_nextread q) ?q = Ok q'"
      "q_inv q'" "q_size q' = m" "q_list q' = q_list q" using q_slot_0 [OF inv] by auto
    then show ?thesis using m Some by (simp add: q_grow_via_def del: q_move.simps)
  qed
qed

subsection \<open>Every operation\<close>

lemma q_addtail_d_spec:
  assumes inv: "q_inv q" and km: "block_alloc_ok km" and c: "q_count q < 2 ^ 28 - 1"
  shows "(\<exists>q'. q_addtail_d (Suc (Suc d)) km q x = Ok (0, q') \<and> q_inv q' \<and> q_list q' = q_list q @ [x])
    \<or> (q_addtail_d (Suc (Suc d)) km q x = Ok (ENOMEM, q) \<and> (\<exists>z. km z = None))"
proof (cases "int (q_count q) + 1 < q_size q")
  case True
  then show ?thesis using q_addtail_via_room [OF inv] q_put_spec [OF inv] by auto
next
  case False
  then have full: "int (q_count q) + 1 = q_size q" using q_count_less [OF inv] by simp
  then have wrap: "(q_nextwrite q + 1) mod q_size q = q_nextread q" using q_full_iff [OF inv] by simp
  let ?grow = "q_grow_via (q_addtail_d (Suc d) km) km"
  have "(\<exists>q'. ?grow q (q_size q + 1) = Ok (0, q') \<and> q_inv q' \<and> q_size q + 1 \<le> q_size q' \<and> q_list q' = q_list q)
    \<or> (?grow q (q_size q + 1) = Ok (ENOMEM, q) \<and> (\<exists>z. km z = None))"
    using full c q_addtail_via_room by (intro q_grow_via_spec [OF inv km]) auto
  then consider (mem) "?grow q (q_size q + 1) = Ok (ENOMEM, q)" "\<exists>z. km z = None"
    | (grown) q' where "?grow q (q_size q + 1) = Ok (0, q')" "q_inv q'" "q_size q + 1 \<le> q_size q'"
        "q_list q' = q_list q" by blast
  then show ?thesis
  proof cases
    case mem
    then show ?thesis using wrap inv by (simp add: q_addtail_via_def q_inv_def ENOMEM_def)
  next
    case grown
    have "q_count q' = q_count q" using grown(4) by (metis q_list_length)
    then have room: "int (q_count q') + 1 < q_size q'" using full grown(3) by simp
    have "q_addtail_via ?grow q x = Ok (0, q_put q' x)"
      using wrap grown(1,2) inv by (simp add: q_addtail_via_def q_put_def q_inv_def)
    then show ?thesis using q_put_spec [OF grown(2) room] grown(4) by simp
  qed
qed

lemmas q_addtail_spec = q_addtail_d_spec [of _ _ 0, folded numeral_2_eq_2, folded q_addtail_def]

lemma q_remhead_spec:
  assumes inv: "q_inv q" and "q_list q = x # xs"
  shows "\<exists>q'. q_remhead q = Ok (x, q') \<and> q_inv q' \<and> q_list q' = xs"
proof -
  have c: "q_count q = Suc (length xs)" using assms(2) by (metis q_list_length length_Cons)
  let ?q = "q\<lparr>q_nextread := (q_nextread q + 1) mod q_size q\<rparr>"
  have x: "x = q_data q ! nat (q_nextread q)"
    using q_list_nth [of 0 q] assms(2) c q_slot_0 [OF inv] by simp
  have inv': "q_inv ?q" using inv by (simp add: q_inv_def)
  have "(q_nextwrite q - (q_nextread q + 1) mod q_size q) mod q_size q
      = ((q_nextwrite q - q_nextread q) mod q_size q - 1) mod q_size q"
    by (simp add: mod_simps algebra_simps)
  also have "\<dots> = int (length xs)"
    using c q_count_less [OF inv] by (simp add: q_count_int [OF inv, symmetric])
  finally have "int (q_count ?q) = int (length xs)" by (subst q_count_int [OF inv']) simp
  then have c': "q_count ?q = length xs" by simp
  have slot: "q_slot ?q k = q_slot q (Suc k)" for k
    by (simp add: q_slot_def mod_simps algebra_simps)
  have "q_list ?q = xs"
  proof (rule nth_equalityI)
    fix k assume "k < length (q_list ?q)"
    then have "k < q_count ?q" "Suc k < q_count q" using c c' by simp_all
    then show "q_list ?q ! k = xs ! k"
      using q_list_nth [of "Suc k" q] assms(2) by (simp add: q_list_nth slot)
  qed (simp add: c')
  then show ?thesis using inv inv' x c q_empty_iff [OF inv]
    by (simp add: q_remhead_def) (simp add: q_inv_def)
qed

lemma q_peek_spec:
  assumes "q_inv q"
  shows "q_peek q = Ok (if q_list q = [] then None else Some (hd (q_list q)))"
proof -
  have "q_list q = [] \<longleftrightarrow> q_count q = 0" by (simp add: q_list_def)
  moreover have "hd (q_list q) = q_data q ! nat (q_nextread q)" if "q_count q \<noteq> 0"
    using that q_list_nth [of 0 q] q_slot_0 [OF assms] by (simp add: hd_conv_nth flip: length_0_conv)
  ultimately show ?thesis using assms q_empty_iff [OF assms] by (auto simp: q_peek_def q_inv_def)
qed

lemma q_len_from_spec:
  assumes "q_inv q"
  shows "j \<le> q_count q \<Longrightarrow> q_count q - j < n \<Longrightarrow>
    q_len_from q n (q_slot q j) m = Ok (m + int (q_count q - j))"
proof (induction n arbitrary: j m)
  case (Suc n)
  then show ?case
    using q_slot_count [OF assms] q_slot_nextwrite [OF assms, of j]
    by (cases "j = q_count q") (auto simp: q_slot_Suc)
qed simp

lemma q_len_spec: "q_inv q \<Longrightarrow> q_len q = Ok (int (length (q_list q)))"
  using q_len_from_spec [of q 0 "Suc (nat (q_size q))" 0] q_count_less [of q] q_slot_0 [of q]
  by (simp add: q_len_def del: q_len_from.simps)

lemma q_addtail_depth:
  assumes "q_inv q" and "block_alloc_ok km" and "q_count q < 2 ^ 28 - 1" and "\<forall>z. km z \<noteq> None"
  shows "\<exists>q1 q2. q_addtail_d (Suc (Suc d)) km q x = Ok (0, q1) \<and> q_addtail km q x = Ok (0, q2)
    \<and> q_list q1 = q_list q2"
  using q_addtail_d_spec [OF assms(1-3), of d x] q_addtail_spec [OF assms(1-3), of x] assms(4) by auto

lemma q_create_spec:
  assumes "block_alloc_ok km" and "0 < sz" and "sz \<le> 2 ^ 29" and "q_create True km sz = Some q"
  shows "q_inv q" "q_list q = []"
proof -
  from assms(4) obtain d where d: "km (of_int sz * 4) = Some d"
    "q = \<lparr>q_size = sz, q_nextwrite = 0, q_nextread = 0, q_data = d\<rparr>"
    by (auto simp: q_create_def split: option.splits)
  then show "q_inv q" using q_block_length [OF assms(1) d(1)] assms(2,3) by (simp add: q_inv_def)
  show "q_list q = []" using d(2) by (simp add: q_list_def q_count_def)
qed

subsection \<open>The contract of a bounded-growth queue\<close>

fun add_all :: "('q \<Rightarrow> 'a \<Rightarrow> (int \<times> 'q) run) \<Rightarrow> 'q \<Rightarrow> 'a list \<Rightarrow> (int \<times> 'q) run" where
  "add_all add q [] = Ok (0, q)"
| "add_all add q (x # xs) =
     bindR (add q x) (\<lambda>(e, q'). if e \<noteq> 0 then Ok (e, q') else add_all add q' xs)"

fun rem_many :: "('q \<Rightarrow> ('a \<times> 'q) run) \<Rightarrow> nat \<Rightarrow> 'q \<Rightarrow> ('a list \<times> 'q) run" where
  "rem_many rem 0 q = Ok ([], q)"
| "rem_many rem (Suc n) q =
     bindR (rem q) (\<lambda>(x, q'). bindR (rem_many rem n q') (\<lambda>(xs, q''). Ok (x # xs, q'')))"

locale fifo =
  fixes inv :: "'q \<Rightarrow> bool" and elems :: "'q \<Rightarrow> 'a list" and bound :: nat
    and add :: "'a block_alloc \<Rightarrow> 'q \<Rightarrow> 'a \<Rightarrow> (int \<times> 'q) run" and rem :: "'q \<Rightarrow> ('a \<times> 'q) run"
  assumes add_elems: "inv q \<Longrightarrow> block_alloc_ok km \<Longrightarrow> length (elems q) < bound \<Longrightarrow>
      (\<exists>q'. add km q x = Ok (0, q') \<and> inv q' \<and> elems q' = elems q @ [x])
      \<or> (add km q x = Ok (ENOMEM, q) \<and> (\<exists>z. km z = None))"
    and rem_elems: "inv q \<Longrightarrow> elems q = x # xs \<Longrightarrow> \<exists>q'. rem q = Ok (x, q') \<and> inv q' \<and> elems q' = xs"
begin

lemma add_all_elems:
  "\<lbrakk>inv q; block_alloc_ok km; length (elems q) + length xs \<le> bound\<rbrakk> \<Longrightarrow>
    (\<exists>q'. add_all (add km) q xs = Ok (0, q') \<and> inv q' \<and> elems q' = elems q @ xs)
    \<or> (\<exists>q' j. add_all (add km) q xs = Ok (ENOMEM, q') \<and> inv q' \<and> j < length xs
        \<and> elems q' = elems q @ take j xs \<and> (\<exists>z. km z = None))"
proof (induction xs arbitrary: q)
  case (Cons x xs)
  then have "length (elems q) < bound" by simp
  from add_elems [OF Cons.prems(1,2) this, of x] show ?case
  proof (elim disjE exE conjE)
    fix q' assume q': "add km q x = Ok (0, q')" "inv q'" "elems q' = elems q @ [x]"
    have "length (elems q') + length xs \<le> bound" using q'(3) Cons.prems(3) by simp
    from Cons.IH [OF q'(2) Cons.prems(2) this] show ?thesis
    proof (elim disjE exE conjE)
      fix q'' j z assume "add_all (add km) q' xs = Ok (ENOMEM, q'')" "inv q''" "j < length xs"
        "elems q'' = elems q' @ take j xs" "km z = None"
      then show ?thesis using q' by (intro disjI2 exI [of _ q''] exI [of _ "Suc j"]) auto
    qed (use q' in auto)
  next
    fix z assume "add km q x = Ok (ENOMEM, q)" "km z = None"
    then show ?thesis using Cons.prems(1) by (intro disjI2 exI [of _ q] exI [of _ 0]) (auto simp: ENOMEM_def)
  qed
qed simp

lemma rem_many_elems:
  "\<lbrakk>inv q; elems q = xs @ ys\<rbrakk> \<Longrightarrow>
    \<exists>q'. rem_many rem (length xs) q = Ok (xs, q') \<and> inv q' \<and> elems q' = ys"
proof (induction xs arbitrary: q)
  case (Cons x xs)
  then have "elems q = x # (xs @ ys)" by simp
  from rem_elems [OF Cons.prems(1) this] obtain q' where
    "rem q = Ok (x, q')" "inv q'" "elems q' = xs @ ys" by blast
  with Cons.IH [of q'] show ?case by auto
qed simp

end

interpretation kq: fifo q_inv q_list "2 ^ 28 - 1" q_addtail q_remhead
proof
  show "(\<exists>q'. q_addtail km q x = Ok (0, q') \<and> q_inv q' \<and> q_list q' = q_list q @ [x])
      \<or> (q_addtail km q x = Ok (ENOMEM, q) \<and> (\<exists>z. km z = None))"
    if "q_inv q" "block_alloc_ok km" "length (q_list q) < 2 ^ 28 - 1" for q :: "'a queue" and km x
    using that by (intro q_addtail_spec) simp_all
  show "\<exists>q'. q_remhead q = Ok (x, q') \<and> q_inv q' \<and> q_list q' = xs"
    if "q_inv q" "q_list q = x # xs" for q :: "'a queue" and x xs
    using that by (rule q_remhead_spec)
qed



end
