(* ===== verification/Spinlock.thy ===== *)
theory Spinlock
  imports Prelude
begin

text \<open>
  Interrupt levels (\<^verbatim>\<open>kern/thread/spl.c\<close>) and spinlocks (\<^verbatim>\<open>kern/thread/spinlock.c\<close>). The first half counts
  how often the interrupt level of the current thread has been raised; the second half runs
  \<open>spinlock_acquire\<close> and \<open>spinlock_release\<close> on any number of processors, one memory access at a
  time and in any order.
\<close>

subsection \<open>Interrupt levels\<close>

text \<open>\<open>irq\<close> records whether interrupts are enabled on the processor of the current thread.\<close>

record spl_state =
  t_curspl :: int
  t_iplhigh_count :: int
  irq :: bool

definition IPL_NONE :: int where "IPL_NONE = 0"
definition IPL_HIGH :: int where "IPL_HIGH = 1"

definition splraise :: "bool \<Rightarrow> spl_state \<Rightarrow> int \<Rightarrow> int \<Rightarrow> spl_state run" where
  "splraise curcpu_exists s oldspl newspl =
     kassert (oldspl = IPL_NONE) (kassert (newspl = IPL_HIGH)
       (if \<not> curcpu_exists then Ok s
        else
          let s = (if t_iplhigh_count s = 0 then s\<lparr>irq := False\<rparr> else s)
          in Ok (s\<lparr>t_iplhigh_count := t_iplhigh_count s + 1\<rparr>)))"

definition spllower :: "bool \<Rightarrow> spl_state \<Rightarrow> int \<Rightarrow> int \<Rightarrow> spl_state run" where
  "spllower curcpu_exists s oldspl newspl =
     kassert (oldspl = IPL_HIGH) (kassert (newspl = IPL_NONE)
       (if \<not> curcpu_exists then Ok s
        else
          let s = s\<lparr>t_iplhigh_count := t_iplhigh_count s - 1\<rparr>
          in Ok (if t_iplhigh_count s = 0 then s\<lparr>irq := True\<rparr> else s)))"

definition splx :: "bool \<Rightarrow> spl_state \<Rightarrow> int \<Rightarrow> (int \<times> spl_state) run" where
  "splx curcpu_exists s spl =
     (if t_curspl s < spl then
        bindR (splraise curcpu_exists s (t_curspl s) spl) (\<lambda>s.
          Ok (t_curspl s, s\<lparr>t_curspl := spl\<rparr>))
      else if t_curspl s > spl then
        let ret = t_curspl s
        in bindR (spllower curcpu_exists (s\<lparr>t_curspl := spl\<rparr>) ret spl) (\<lambda>s. Ok (ret, s))
      else Ok (spl, s))"

definition splhigh :: "bool \<Rightarrow> spl_state \<Rightarrow> (int \<times> spl_state) run" where
  "splhigh e s = splx e s IPL_HIGH"

definition spl0 :: "bool \<Rightarrow> spl_state \<Rightarrow> (int \<times> spl_state) run" where
  "spl0 e s = splx e s IPL_NONE"

text \<open>
  What a thread does to its interrupt level: take or drop a spinlock, or call \<open>splx\<close> with either
  level. \<open>held\<close> counts the spinlocks taken and not yet dropped.
\<close>

datatype ipl_event = TakeLock | DropLock | Splx int

fun ipl_run :: "ipl_event list \<Rightarrow> spl_state \<Rightarrow> spl_state run" where
  "ipl_run [] s = Ok s"
| "ipl_run (TakeLock # es) s = bindR (splraise True s IPL_NONE IPL_HIGH) (ipl_run es)"
| "ipl_run (DropLock # es) s = bindR (spllower True s IPL_HIGH IPL_NONE) (ipl_run es)"
| "ipl_run (Splx l # es) s = bindR (splx True s l) (\<lambda>(_, s). ipl_run es s)"

fun held :: "nat \<Rightarrow> ipl_event list \<Rightarrow> nat option" where
  "held n [] = Some n"
| "held n (TakeLock # es) = held (Suc n) es"
| "held n (DropLock # es) = (if n = 0 then None else held (n - 1) es)"
| "held n (Splx l # es) = (if l = IPL_NONE \<or> l = IPL_HIGH then held n es else None)"

definition ipl_inv :: "nat \<Rightarrow> spl_state \<Rightarrow> bool" where
  "ipl_inv n s \<longleftrightarrow> (t_curspl s = IPL_NONE \<or> t_curspl s = IPL_HIGH)
     \<and> t_iplhigh_count s = int n + (if t_curspl s = IPL_HIGH then 1 else 0)
     \<and> (irq s \<longleftrightarrow> t_iplhigh_count s = 0)"

lemmas ipl_defs = splraise_def spllower_def IPL_NONE_def IPL_HIGH_def ipl_inv_def Let_def

lemma splraise_step:
  assumes "ipl_inv n s"
  shows "\<exists>s'. splraise True s IPL_NONE IPL_HIGH = Ok s' \<and> ipl_inv (Suc n) s' \<and> t_curspl s' = t_curspl s"
  using assms by (cases "t_iplhigh_count s = 0") (simp_all add: ipl_defs split: if_splits)

lemma spllower_step:
  assumes "ipl_inv (Suc n) s"
  shows "\<exists>s'. spllower True s IPL_HIGH IPL_NONE = Ok s' \<and> ipl_inv n s' \<and> t_curspl s' = t_curspl s"
  using assms by (cases "t_iplhigh_count s = 1") (simp_all add: ipl_defs split: if_splits)

lemma splx_step:
  assumes "ipl_inv n s" and "l = IPL_NONE \<or> l = IPL_HIGH"
  shows "\<exists>s'. splx True s l = Ok (t_curspl s, s') \<and> ipl_inv n s' \<and> t_curspl s' = l"
proof (cases "t_curspl s = l")
  case True
  then show ?thesis using assms(1) by (simp add: splx_def)
next
  case False
  show ?thesis
  proof (cases "l = IPL_HIGH")
    case True
    with False assms have "t_curspl s = IPL_NONE" by (auto simp: ipl_inv_def)
    with True assms show ?thesis
      by (cases "t_iplhigh_count s = 0") (simp_all add: splx_def ipl_defs)
  next
    case low: False
    with False assms have "l = IPL_NONE" "t_curspl s = IPL_HIGH" by (auto simp: ipl_inv_def)
    with assms show ?thesis
      by (cases "t_iplhigh_count s = 1") (simp_all add: splx_def ipl_defs)
  qed
qed

lemma ipl_run_inv:
  "ipl_inv n s \<Longrightarrow> held n es = Some m \<Longrightarrow> \<exists>s'. ipl_run es s = Ok s' \<and> ipl_inv m s'"
proof (induction es arbitrary: n s)
  case (Cons e es)
  show ?case
  proof (cases e)
    case TakeLock
    with Cons splraise_step [OF Cons.prems(1)] show ?thesis by auto
  next
    case DropLock
    with Cons.prems(2) obtain k where "n = Suc k" "held k es = Some m" by (cases n) auto
    with Cons DropLock spllower_step [of k s] show ?thesis by auto
  next
    case (Splx l)
    with Cons.prems have l: "l = IPL_NONE \<or> l = IPL_HIGH" by (auto split: if_splits)
    from splx_step [OF Cons.prems(1) l] Cons Splx l show ?thesis by auto
  qed
qed simp

text \<open>
  C8: interrupts are off exactly while the thread holds a spinlock or has raised its level with
  \<open>splx\<close>, however the spinlock operations and the \<open>splx\<close> calls are nested: any sequence in which
  no lock is dropped more often than it was taken runs without an assertion failure, and
  interrupts are enabled at its end iff no spinlock is held and the level is \<open>IPL_NONE\<close>.
\<close>

theorem interrupts_follow_locks:
  assumes "held 0 es = Some n"
  shows "\<exists>s. ipl_run es \<lparr>t_curspl = IPL_NONE, t_iplhigh_count = 0, irq = True\<rparr> = Ok s
    \<and> (irq s \<longleftrightarrow> n = 0 \<and> t_curspl s = IPL_NONE)"
proof -
  have "ipl_inv 0 \<lparr>t_curspl = IPL_NONE, t_iplhigh_count = 0, irq = True\<rparr>" by (simp add: ipl_defs)
  from ipl_run_inv [OF this assms] show ?thesis by (auto simp: ipl_defs split: if_splits)
qed

theorem interrupts_follow_locks_witness:
  "\<exists>s. ipl_run [TakeLock, Splx IPL_HIGH, TakeLock, Splx IPL_NONE, DropLock]
      \<lparr>t_curspl = IPL_NONE, t_iplhigh_count = 0, irq = True\<rparr> = Ok s \<and> \<not> irq s"
  using interrupts_follow_locks [of "[TakeLock, Splx IPL_HIGH, TakeLock, Splx IPL_NONE, DropLock]" 1] by auto

subsection \<open>Spinlocks\<close>

text \<open>Processors are numbers; \<open>lk_holder\<close> is \<open>None\<close> when it is the null pointer.\<close>

record spinlock =
  lk_lock :: u32
  lk_holder :: "nat option"

definition spinlock_init :: spinlock where
  "spinlock_init = \<lparr>lk_lock = 0, lk_holder = None\<rparr>"

definition spinlock_cleanup :: "spinlock \<Rightarrow> unit run" where
  "spinlock_cleanup lk = kassert (lk_holder lk = None) (kassert (lk_lock lk = 0) (Ok ()))"

text \<open>
  The test-and-set of the machine: the old value, and the lock word set to one. When the
  store-conditional instruction fails nothing is stored and the lock is reported as held.
\<close>

definition testandset :: "bool \<Rightarrow> spinlock \<Rightarrow> u32 \<times> spinlock" where
  "testandset stored lk = (if stored then (lk_lock lk, lk\<lparr>lk_lock := 1\<rparr>) else (1, lk))"

text \<open>
  Where a processor is: outside, about to read the lock word, about to test-and-set, about to
  record itself as holder, inside the critical section, or between the two writes of the release.
\<close>

datatype lock_pc = Outside | Reading | TestSet | Recording | Inside | Clearing

record lock_system =
  slk :: spinlock
  pc :: "nat \<Rightarrow> lock_pc"

text \<open>
  One step of processor \<open>c\<close>, each with at most one access to shared memory; \<open>stored\<close> says whether
  a store-conditional of this step succeeds.
\<close>

definition lock_step :: "nat \<Rightarrow> bool \<Rightarrow> lock_system \<Rightarrow> lock_system run" where
  "lock_step c stored s =
     (let at = (\<lambda>p s. s\<lparr>pc := (pc s)(c := p)\<rparr>) in
      case pc s c of
        Outside \<Rightarrow> if lk_holder (slk s) = Some c then Halt Panicked else Ok (at Reading s)
      | Reading \<Rightarrow> if lk_lock (slk s) \<noteq> 0 then Ok s else Ok (at TestSet s)
      | TestSet \<Rightarrow>
          (case testandset stored (slk s) of (old, lk) \<Rightarrow>
             if old \<noteq> 0 then Ok (at Reading (s\<lparr>slk := lk\<rparr>)) else Ok (at Recording (s\<lparr>slk := lk\<rparr>)))
      | Recording \<Rightarrow> Ok (at Inside (s\<lparr>slk := (slk s)\<lparr>lk_holder := Some c\<rparr>\<rparr>))
      | Inside \<Rightarrow> kassert (lk_holder (slk s) = Some c)
                    (Ok (at Clearing (s\<lparr>slk := (slk s)\<lparr>lk_holder := None\<rparr>\<rparr>)))
      | Clearing \<Rightarrow> Ok (at Outside (s\<lparr>slk := (slk s)\<lparr>lk_lock := 0\<rparr>\<rparr>)))"

definition spinlock_do_i_hold :: "spinlock \<Rightarrow> nat \<Rightarrow> bool" where
  "spinlock_do_i_hold lk c \<longleftrightarrow> lk_holder lk = Some c"

definition lock_start :: lock_system where
  "lock_start = \<lparr>slk = spinlock_init, pc = (\<lambda>_. Outside)\<rparr>"

fun lock_run :: "(nat \<times> bool) list \<Rightarrow> lock_system \<Rightarrow> lock_system run" where
  "lock_run [] s = Ok s"
| "lock_run ((c, stored) # cs) s = bindR (lock_step c stored s) (lock_run cs)"

definition owns :: "lock_pc \<Rightarrow> bool" where
  "owns p \<longleftrightarrow> p = Recording \<or> p = Inside \<or> p = Clearing"

definition lock_inv :: "lock_system \<Rightarrow> bool" where
  "lock_inv s \<longleftrightarrow> (\<forall>c d. owns (pc s c) \<longrightarrow> owns (pc s d) \<longrightarrow> c = d)
     \<and> (lk_lock (slk s) \<noteq> 0 \<longleftrightarrow> (\<exists>c. owns (pc s c)))
     \<and> (\<forall>c. lk_holder (slk s) = Some c \<longleftrightarrow> pc s c = Inside)"

lemma lock_step_inv:
  assumes inv: "lock_inv s"
  shows "\<exists>s'. lock_step c stored s = Ok s' \<and> lock_inv s'"
proof -
  have holder: "lk_holder (slk s) = Some d \<longleftrightarrow> pc s d = Inside" for d
    using inv by (simp add: lock_inv_def)
  have uniq: "owns (pc s d) \<Longrightarrow> owns (pc s e) \<Longrightarrow> d = e" for d e
    using inv unfolding lock_inv_def by blast
  have busy: "lk_lock (slk s) \<noteq> 0 \<longleftrightarrow> (\<exists>d. owns (pc s d))" using inv by (simp add: lock_inv_def)
  show ?thesis
  proof (cases "pc s c")
    case Outside
    let ?s = "s\<lparr>pc := (pc s)(c := Reading)\<rparr>"
    have "lock_step c stored s = Ok ?s" using Outside holder [of c] by (simp add: lock_step_def Let_def)
    moreover have "owns (pc ?s d) \<longleftrightarrow> owns (pc s d)" for d using Outside by (simp add: owns_def)
    ultimately show ?thesis using uniq busy holder Outside unfolding lock_inv_def by auto
  next
    case Reading
    show ?thesis
    proof (cases "lk_lock (slk s) = 0")
      case True
      let ?s = "s\<lparr>pc := (pc s)(c := TestSet)\<rparr>"
      have "lock_step c stored s = Ok ?s" using Reading True by (simp add: lock_step_def Let_def)
      moreover have "owns (pc ?s d) \<longleftrightarrow> owns (pc s d)" for d using Reading by (simp add: owns_def)
      ultimately show ?thesis using uniq busy holder Reading unfolding lock_inv_def by auto
    next
      case False
      then show ?thesis using Reading inv by (simp add: lock_step_def Let_def)
    qed
  next
    case TestSet
    consider (failed) "\<not> stored" | (won) "stored" "lk_lock (slk s) = 0" | (lost) "stored" "lk_lock (slk s) \<noteq> 0"
      by blast
    then show ?thesis
    proof cases
      case failed
      let ?s = "s\<lparr>pc := (pc s)(c := Reading)\<rparr>"
      have "lock_step c stored s = Ok ?s" using TestSet failed by (simp add: lock_step_def testandset_def Let_def)
      moreover have "owns (pc ?s d) \<longleftrightarrow> owns (pc s d)" for d using TestSet by (simp add: owns_def)
      moreover have "pc ?s d = Inside \<longleftrightarrow> pc s d = Inside" for d using TestSet by simp
      ultimately show ?thesis using uniq busy holder unfolding lock_inv_def by auto
    next
      case won
      then have none: "\<not> owns (pc s d)" for d using busy by simp
      let ?s = "s\<lparr>slk := (slk s)\<lparr>lk_lock := 1\<rparr>, pc := (pc s)(c := Recording)\<rparr>"
      have "lock_step c stored s = Ok ?s" using TestSet won by (simp add: lock_step_def testandset_def Let_def)
      moreover have "owns (pc ?s d) \<longleftrightarrow> d = c" for d using none by (simp add: owns_def)
      moreover have "pc ?s d = Inside \<longleftrightarrow> pc s d = Inside" for d using TestSet by simp
      ultimately show ?thesis using holder unfolding lock_inv_def by auto
    next
      case lost
      let ?s = "s\<lparr>slk := (slk s)\<lparr>lk_lock := 1\<rparr>, pc := (pc s)(c := Reading)\<rparr>"
      have "lock_step c stored s = Ok ?s" using TestSet lost by (simp add: lock_step_def testandset_def Let_def)
      moreover have "owns (pc ?s d) \<longleftrightarrow> owns (pc s d)" for d using TestSet by (simp add: owns_def)
      moreover have "pc ?s d = Inside \<longleftrightarrow> pc s d = Inside" for d using TestSet by simp
      ultimately show ?thesis using uniq busy holder lost unfolding lock_inv_def by auto
    qed
  next
    case Recording
    let ?s = "s\<lparr>slk := (slk s)\<lparr>lk_holder := Some c\<rparr>, pc := (pc s)(c := Inside)\<rparr>"
    have "lock_step c stored s = Ok ?s" using Recording by (simp add: lock_step_def Let_def)
    moreover have own: "owns (pc ?s d) \<longleftrightarrow> owns (pc s d)" for d using Recording by (simp add: owns_def)
    moreover have "pc s d \<noteq> Inside" if "d \<noteq> c" for d
      using uniq [of d c] that Recording by (auto simp: owns_def)
    ultimately show ?thesis using uniq busy unfolding lock_inv_def by auto
  next
    case Inside
    let ?s = "s\<lparr>slk := (slk s)\<lparr>lk_holder := None\<rparr>, pc := (pc s)(c := Clearing)\<rparr>"
    have "lock_step c stored s = Ok ?s" using Inside holder [of c] by (simp add: lock_step_def Let_def)
    moreover have own: "owns (pc ?s d) \<longleftrightarrow> owns (pc s d)" for d using Inside by (simp add: owns_def)
    moreover have "pc s d \<noteq> Inside" if "d \<noteq> c" for d
      using uniq [of d c] that Inside by (auto simp: owns_def)
    ultimately show ?thesis using uniq busy unfolding lock_inv_def by auto
  next
    case Clearing
    let ?s = "s\<lparr>slk := (slk s)\<lparr>lk_lock := 0\<rparr>, pc := (pc s)(c := Outside)\<rparr>"
    have "lock_step c stored s = Ok ?s" using Clearing by (simp add: lock_step_def Let_def)
    moreover have "\<not> owns (pc ?s d)" for d using uniq [of d c] Clearing by (auto simp: owns_def)
    moreover have "pc ?s d = Inside \<longleftrightarrow> pc s d = Inside" for d using Clearing by simp
    ultimately show ?thesis using holder unfolding lock_inv_def by auto
  qed
qed

lemma lock_run_inv: "lock_inv s \<Longrightarrow> \<exists>s'. lock_run cs s = Ok s' \<and> lock_inv s'"
proof (induction cs arbitrary: s)
  case (Cons a cs)
  then show ?case using lock_step_inv [OF Cons.prems, of "fst a" "snd a"] by (cases a) auto
qed simp

text \<open>
  C4: spinlocks exclude. However many processors contend and however their memory accesses
  interleave, at most one is inside the critical section, it is the recorded holder and nobody
  else is, the lock word is set meanwhile, and neither the deadlock panic of
  \<open>spinlock_acquire\<close> nor the assertion of \<open>spinlock_release\<close> fires.
\<close>

theorem spinlock_mutual_exclusion:
  "\<exists>s. lock_run cs lock_start = Ok s
    \<and> (\<forall>c d. pc s c = Inside \<longrightarrow> pc s d = Inside \<longrightarrow> c = d)
    \<and> (\<forall>c. pc s c = Inside \<longrightarrow> spinlock_do_i_hold (slk s) c \<and> lk_lock (slk s) \<noteq> 0)
    \<and> (\<forall>c. spinlock_do_i_hold (slk s) c \<longrightarrow> pc s c = Inside)"
proof -
  have "lock_inv lock_start" by (simp add: lock_inv_def lock_start_def spinlock_init_def owns_def)
  from lock_run_inv [OF this, of cs] obtain s where s: "lock_run cs lock_start = Ok s" "lock_inv s" by blast
  have own: "owns Inside" by (simp add: owns_def)
  have "c = d" if "pc s c = Inside" "pc s d = Inside" for c d
    using s(2) that own unfolding lock_inv_def by metis
  moreover have "spinlock_do_i_hold (slk s) c \<longleftrightarrow> pc s c = Inside" for c
    using s(2) by (simp add: lock_inv_def spinlock_do_i_hold_def)
  moreover have "lk_lock (slk s) \<noteq> 0" if "pc s c = Inside" for c
    using s(2) that own unfolding lock_inv_def by metis
  ultimately show ?thesis using s(1) by blast
qed

theorem spinlock_mutual_exclusion_witness:
  "\<exists>s. lock_run [(0, True), (1, True), (0, True), (1, True), (0, False), (1, True), (0, True), (1, True), (0, True)] lock_start = Ok s \<and> pc s 1 = Inside \<and> pc s 0 \<noteq> Inside"
proof -
  have "\<exists>s. lock_run [(0, True), (1, True), (0, True), (1, True), (0, False), (1, True), (0, True), (1, True), (0, True)] lock_start = Ok s \<and> pc s 1 = Inside"
    by (simp add: lock_step_def lock_start_def spinlock_init_def testandset_def)
  then show ?thesis
    using spinlock_mutual_exclusion [of "[(0, True), (1, True), (0, True), (1, True), (0, False), (1, True), (0, True), (1, True), (0, True)]"] by (metis One_nat_def run.inject(1) zero_neq_one)
qed

text \<open>
  A processor that already holds the lock and asks for it again panics. The sequential reading of
  \<open>spinlock_acquire\<close> below is what the other components use: on a lock some other processor holds
  it waits, and nothing in a single thread of execution ends the wait.
\<close>

definition spinlock_acquire :: "nat \<Rightarrow> spinlock \<Rightarrow> spinlock run" where
  "spinlock_acquire c lk =
     (if lk_holder lk = Some c then Halt Panicked
      else if lk_lock lk \<noteq> 0 then Halt Spinning
      else Ok \<lparr>lk_lock = 1, lk_holder = Some c\<rparr>)"

definition spinlock_release :: "nat \<Rightarrow> spinlock \<Rightarrow> spinlock run" where
  "spinlock_release c lk = kassert (lk_holder lk = Some c) (Ok \<lparr>lk_lock = 0, lk_holder = None\<rparr>)"

lemma acquire_twice_panics:
  "spinlock_acquire c lk = Ok lk' \<Longrightarrow> spinlock_acquire c lk' = Halt Panicked"
  by (auto simp: spinlock_acquire_def split: if_splits)

lemma acquire_release [simp]:
  "spinlock_acquire c spinlock_init = Ok \<lparr>lk_lock = 1, lk_holder = Some c\<rparr>"
  "spinlock_release c \<lparr>lk_lock = 1, lk_holder = Some c\<rparr> = Ok spinlock_init"
  by (simp_all add: spinlock_acquire_def spinlock_release_def spinlock_init_def)

text \<open>Four steps of one processor alone are the sequential \<open>spinlock_acquire\<close>.\<close>

lemma acquire_is_four_steps:
  assumes "pc s c = Outside" and "lk_lock (slk s) = 0" and "lk_holder (slk s) = None"
  shows "\<exists>s'. lock_run (replicate 4 (c, True)) s = Ok s' \<and> pc s' c = Inside \<and> spinlock_acquire c (slk s) = Ok (slk s')"
  using assms by (simp add: lock_step_def testandset_def spinlock_acquire_def Let_def numeral_eq_Suc)

end
