(* ===== verification/Memory.thy ===== *)
theory Memory
  imports Bswap
begin

text \<open>
  Byte-addressed memory and the block operations of \<^verbatim>\<open>common/libc/string\<close>: \<open>bzero\<close>, \<open>memcpy\<close> and
  \<open>memmove\<close> with their word-at-a-time fast paths. Offsets are taken modulo \<open>2^32\<close>, the way the
  pointer arithmetic of the machine takes them, so the specifications also cover blocks that roll
  over the top of memory.
\<close>

named_theorems block_simps \<open>effects of the block operations\<close>

type_synonym mem = "u32 \<Rightarrow> u8"

subsection \<open>Words in memory\<close>

text \<open>The machine is big-endian: the byte at the lowest address is the most significant one.\<close>

definition load32 :: "mem \<Rightarrow> u32 \<Rightarrow> u32" where
  "load32 m a = push_bit 24 (ucast (m a)) OR push_bit 16 (ucast (m (a + 1)))
     OR push_bit 8 (ucast (m (a + 2))) OR ucast (m (a + 3))"

definition store32 :: "mem \<Rightarrow> u32 \<Rightarrow> u32 \<Rightarrow> mem" where
  "store32 m a w = m(a := byte_of 3 w, a + 1 := byte_of 2 w, a + 2 := byte_of 1 w, a + 3 := byte_of 0 w)"

lemma byte_of_load32:
  "byte_of 3 (load32 m a) = m a" "byte_of 2 (load32 m a) = m (a + 1)"
  "byte_of 1 (load32 m a) = m (a + 2)" "byte_of 0 (load32 m a) = m (a + 3)"
  by (rule bit_word_eqI,
      auto simp: bit_byte_of load32_def bit_or_iff bit_push_bit_iff bit_ucast_iff
           dest: bit_imp_le_length)+

lemma load32_store32: "load32 (store32 m a w) a = w"
proof -
  have ne: "a \<noteq> a + 1" "a \<noteq> a + 2" "a \<noteq> a + 3" "a + 1 \<noteq> a + 2" "a + 1 \<noteq> a + 3" "a + 2 \<noteq> a + 3"
    by simp_all
  have "byte_of k (load32 (store32 m a w) a) = byte_of k w" if "k < 4" for k
  proof -
    from that have "k = 0 \<or> k = 1 \<or> k = 2 \<or> k = 3" by linarith
    then show ?thesis using ne by (auto simp: byte_of_load32 byte_of_load32(3) [unfolded One_nat_def] store32_def)
  qed
  then show ?thesis by (intro word_eq_bytesI [of 4]) (simp_all add: bytes_of_def)
qed

text \<open>Storing a word touches the four bytes at offsets 0 to 3.\<close>

lemma store32_at:
  "store32 m a w x = (if unat (x - a) < 4 then byte_of (3 - unat (x - a)) w else m x)"
proof -
  have off: "x = a + of_nat (unat (x - a))" by simp
  consider "unat (x - a) = 0" | "unat (x - a) = 1" | "unat (x - a) = 2" | "unat (x - a) = 3"
    | "unat (x - a) \<ge> 4" by linarith
  then show ?thesis
  proof cases
    case 5
    then have "x \<noteq> a" "x \<noteq> a + 1" "x \<noteq> a + 2" "x \<noteq> a + 3" by auto
    with 5 show ?thesis by (simp add: store32_def)
  qed (use off in \<open>auto simp: store32_def\<close>)
qed

subsection \<open>Clearing a block\<close>

definition bzero :: "mem \<Rightarrow> u32 \<Rightarrow> u32 \<Rightarrow> mem" where
  "bzero m block len =
     (if block mod 4 = 0 \<and> len mod 4 = 0
      then fold (\<lambda>i m. store32 m (block + 4 * of_nat i) 0) [0..<unat (len div 4)] m
      else fold (\<lambda>i m. m(block + of_nat i := 0)) [0..<unat len] m)"

lemma offset_word:
  fixes a x :: u32
  assumes "4 * i + 4 \<le> 2 ^ 32"
  shows "unat (x - (a + 4 * of_nat i)) < 4 \<longleftrightarrow> unat (x - a) div 4 = i"
proof -
  have i: "unat (4 * of_nat i :: u32) = 4 * i"
    using unat_of_nat_small [of "4 * i", where 'a = 32] assms by simp
  have "x - (a + 4 * of_nat i) = (x - a) - 4 * of_nat i" by simp
  then have "unat (x - (a + 4 * of_nat i)) =
      (if 4 * i \<le> unat (x - a) then unat (x - a) - 4 * i else unat (x - a) + 2 ^ 32 - 4 * i)"
    by (simp only: unat_sub_if' i len_of_numeral_defs) simp
  then show ?thesis using assms by auto
qed

lemma offset_byte:
  fixes a x :: u32
  assumes "i < 2 ^ 32"
  shows "x = a + of_nat i \<longleftrightarrow> unat (x - a) = i"
proof -
  have "x = a + of_nat i \<longleftrightarrow> x - a = of_nat i" by (auto simp: algebra_simps)
  also have "\<dots> \<longleftrightarrow> unat (x - a) = i"
    using unat_of_nat_small [of i, where 'a = 32] assms by (auto simp: word_unat_eq_iff)
  finally show ?thesis .
qed

lemma unat_quarter: "unat (len div 4) = unat (len :: u32) div 4"
  by (simp add: unat_div)

lemma quarter_exact: "(len :: u32) mod 4 = 0 \<Longrightarrow> 4 * (unat len div 4) = unat len"
proof -
  assume "len mod 4 = 0"
  then have "unat (len mod 4) = 0" by simp
  then have "unat len mod 4 = 0" by (simp add: unat_mod)
  then show ?thesis by auto
qed

lemma zero_bytes:
  fixes m :: mem
  shows "n \<le> 2 ^ 32 \<Longrightarrow>
    fold (\<lambda>i m. m(a + of_nat i := 0)) [0..<n] m x = (if unat (x - a) < n then 0 else m x)"
proof (induction n)
  case (Suc n)
  then show ?case using offset_byte [of n x a] by (simp add: less_Suc_eq)
qed simp

lemma zero_words:
  fixes m :: mem
  shows "4 * n \<le> 2 ^ 32 \<Longrightarrow>
    fold (\<lambda>i m. store32 m (a + 4 * of_nat i) 0) [0..<n] m x = (if unat (x - a) < 4 * n then 0 else m x)"
proof (induction n)
  case (Suc n)
  have "unat (x - a) < 4 * Suc n \<longleftrightarrow> unat (x - a) < 4 * n \<or> unat (x - a) div 4 = n" by auto
  then show ?case using Suc offset_word [of n x a] by (simp add: store32_at byte_of_def)
qed simp

lemma bzero_at [block_simps]: "bzero m a len x = (if unat (x - a) < unat len then 0 else m x)"
proof (cases "a mod 4 = 0 \<and> len mod 4 = 0")
  case True
  then have "4 * (unat len div 4) = unat len" by (simp add: quarter_exact)
  with True show ?thesis
    using zero_words [of "unat len div 4" a m x] unat_u32_bound [of len] by (simp add: bzero_def unat_quarter)
next
  case False
  then have "bzero m a len = fold (\<lambda>i m. m(a + of_nat i := 0)) [0..<unat len] m" by (auto simp: bzero_def)
  then show ?thesis using zero_bytes [of "unat len" a m x] unat_u32_bound [of len] by simp
qed

subsection \<open>Copying a block\<close>

definition copy_word :: "u32 \<Rightarrow> u32 \<Rightarrow> nat \<Rightarrow> mem \<Rightarrow> mem" where
  "copy_word d s i m = store32 m (d + 4 * of_nat i) (load32 m (s + 4 * of_nat i))"

definition copy_byte :: "u32 \<Rightarrow> u32 \<Rightarrow> nat \<Rightarrow> mem \<Rightarrow> mem" where
  "copy_byte d s i m = m(d + of_nat i := m (s + of_nat i))"

definition word_aligned :: "u32 \<Rightarrow> u32 \<Rightarrow> u32 \<Rightarrow> bool" where
  "word_aligned dst src len \<longleftrightarrow> dst mod 4 = 0 \<and> src mod 4 = 0 \<and> len mod 4 = 0"

definition memcpy :: "mem \<Rightarrow> u32 \<Rightarrow> u32 \<Rightarrow> u32 \<Rightarrow> mem" where
  "memcpy m dst src len =
     (if word_aligned dst src len then fold (copy_word dst src) [0..<unat (len div 4)] m
      else fold (copy_byte dst src) [0..<unat len] m)"

definition memmove :: "mem \<Rightarrow> u32 \<Rightarrow> u32 \<Rightarrow> u32 \<Rightarrow> mem" where
  "memmove m dst src len =
     (if dst < src then memcpy m dst src len
      else if word_aligned dst src len then fold (copy_word dst src) (rev [0..<unat (len div 4)]) m
      else fold (copy_byte dst src) (rev [0..<unat len]) m)"

text \<open>The memory in which the block at \<open>dst\<close> holds what the block at \<open>src\<close> held.\<close>

definition block_copy :: "mem \<Rightarrow> u32 \<Rightarrow> u32 \<Rightarrow> nat \<Rightarrow> mem" where
  "block_copy m dst src n = (\<lambda>x. if unat (x - dst) < n then m (src + (x - dst)) else m x)"

text \<open>Copying a word moves four bytes at once.\<close>

lemma copy_word_at:
  assumes "4 * i + 4 \<le> 2 ^ 32"
  shows "copy_word d s i m x = (if unat (x - d) div 4 = i then m (s + (x - d)) else m x)"
proof (cases "unat (x - d) div 4 = i")
  case True
  let ?t = "x - (d + 4 * of_nat i)"
  have lt: "unat ?t < 4" using offset_word [OF assms, of x d] True by simp
  have src: "s + (x - d) = s + 4 * of_nat i + ?t" by simp
  have t: "?t = of_nat (unat ?t)" by simp
  consider "unat ?t = 0" | "unat ?t = 1" | "unat ?t = 2" | "unat ?t = 3" using lt by linarith
  then have "byte_of (3 - unat ?t) (load32 m (s + 4 * of_nat i)) = m (s + 4 * of_nat i + ?t)"
  proof cases
    case 1 then have "?t = 0" using t by simp
    with 1 show ?thesis by (simp only: byte_of_load32 diff_zero add_0_right)
  next
    case 2 then have "?t = 1" using t by simp
    with 2 show ?thesis by (simp add: byte_of_load32)
  next
    case 3 then have "?t = 2" using t by simp
    with 3 show ?thesis by (simp add: byte_of_load32 byte_of_load32(3) [unfolded One_nat_def])
  next
    case 4 then have "?t = 3" using t by simp
    with 4 show ?thesis by (simp add: byte_of_load32)
  qed
  then show ?thesis using True lt unfolding copy_word_def store32_at src by simp
next
  case False
  then show ?thesis using offset_word [OF assms, of x d] by (simp add: copy_word_def store32_at)
qed

lemma copy_byte_at:
  assumes "i < 2 ^ 32"
  shows "copy_byte d s i m x = (if unat (x - d) = i then m (s + (x - d)) else m x)"
  using offset_byte [OF assms, of x d] by (auto simp: copy_byte_def)

text \<open>
  One loop lemma for each direction, for chunks of \<open>w\<close> bytes: the copy is exact unless the loop
  overwrites source bytes it has still to read.
\<close>

lemma unat_sub_below: "unat y < unat (e :: u32) \<Longrightarrow> unat y \<le> unat (y - e)"
  using unat_u32_bound [of e] by (simp add: unat_sub_if')

lemma chunk_below_Suc: "0 < w \<Longrightarrow> (y :: nat) < w * Suc n \<longleftrightarrow> y < w * n \<or> y div w = n"
  by (metis div_less_iff_less_mult less_Suc_eq mult.commute)

lemma chunk_eq: "0 < w \<Longrightarrow> (y :: nat) div w = n \<longleftrightarrow> w * n \<le> y \<and> y < w * n + w"
  by (metis add.commute div_nat_eqI dividend_less_times_div mult.commute mult_Suc_right times_div_less_eq_dividend)

lemma unat_add_outside:
  "unat y < k \<Longrightarrow> k + w \<le> unat (e :: u32) \<Longrightarrow> \<not> (k \<le> unat (y + e) \<and> unat (y + e) < k + w)"
  using unat_u32_bound [of e] by (auto simp: unat_plus_if')

lemma copy_forward:
  assumes cp: "\<And>i m x. w * i + w \<le> 2 ^ 32 \<Longrightarrow>
      cp i m x = (if unat (x - d) div w = i then m (s + (x - d)) else m x)"
    and w: "0 < w"
  shows "w * n \<le> 2 ^ 32 \<Longrightarrow> d = s \<or> w * n \<le> unat (d - s) \<Longrightarrow>
    fold cp [0..<n] m = block_copy m d s (w * n)"
proof (induction n)
  case 0
  then show ?case by (simp add: block_copy_def)
next
  case (Suc n)
  show ?case
  proof
    fix x
    let ?y = "x - d"
    have "block_copy m d s (w * n) (s + ?y) = m (s + ?y)" if "unat ?y div w = n"
    proof (cases "d = s")
      case False
      with Suc.prems(2) have "w * Suc n \<le> unat (d - s)" by simp
      moreover have "unat ?y < w * Suc n" "w * n \<le> unat ?y"
        using that w by (simp_all add: chunk_eq)
      ultimately have "w * n \<le> unat (?y - (d - s))" using unat_sub_below [of ?y "d - s"] by linarith
      moreover have "s + ?y - d = ?y - (d - s)" by simp
      ultimately show ?thesis unfolding block_copy_def by (metis linorder_not_less)
    qed (simp add: block_copy_def)
    moreover have "fold cp [0..<n] m = block_copy m d s (w * n)" using Suc by auto
    ultimately show "fold cp [0..<Suc n] m x = block_copy m d s (w * Suc n) x"
      using cp [of n] Suc.prems(1) w chunk_below_Suc [of w "unat ?y" n] by (auto simp: block_copy_def)
  qed
qed

lemma copy_backward:
  assumes cp: "\<And>i m x. w * i + w \<le> 2 ^ 32 \<Longrightarrow>
      cp i m x = (if unat (x - d) div w = i then m (s + (x - d)) else m x)"
    and w: "0 < w"
  shows "w * n \<le> 2 ^ 32 \<Longrightarrow> d = s \<or> w * n \<le> unat (s - d) \<Longrightarrow>
    fold cp (rev [0..<n]) m = block_copy m d s (w * n)"
proof (induction n arbitrary: m)
  case 0
  then show ?case by (simp add: block_copy_def)
next
  case (Suc n)
  show ?case
  proof
    fix x
    let ?y = "x - d"
    have "cp n m (s + ?y) = m (s + ?y)" if "unat ?y < w * n"
    proof (cases "d = s")
      case True
      have "unat ?y div w \<noteq> n" using that w by (metis div_less_iff_less_mult less_irrefl mult.commute)
      with True show ?thesis using cp [of n m] Suc.prems(1) by simp
    next
      case False
      with Suc.prems(2) have "w * Suc n \<le> unat (s - d)" by simp
      then have "unat (?y + (s - d)) div w \<noteq> n"
        using unat_add_outside [of ?y "w * n" w "s - d"] that w by (simp add: chunk_eq)
      moreover have "s + ?y - d = ?y + (s - d)" by simp
      ultimately show ?thesis using cp [of n m "s + ?y"] Suc.prems(1) by (metis add.commute mult_Suc_right)
    qed
    moreover have "fold cp (rev [0..<n]) (cp n m) = block_copy (cp n m) d s (w * n)" using Suc by auto
    ultimately show "fold cp (rev [0..<Suc n]) m x = block_copy m d s (w * Suc n) x"
      using cp [of n m] Suc.prems(1) w chunk_below_Suc [of w "unat ?y" n] by (auto simp: block_copy_def)
  qed
qed

lemma memcpy_copies [block_simps]:
  assumes "dst = src \<or> unat len \<le> unat (dst - src)"
  shows "memcpy m dst src len = block_copy m dst src (unat len)"
proof (cases "word_aligned dst src len")
  case True
  then have q: "4 * (unat len div 4) = unat len" by (simp add: word_aligned_def quarter_exact)
  have "fold (copy_word dst src) [0..<unat len div 4] m = block_copy m dst src (4 * (unat len div 4))"
    using assms unat_u32_bound [of len] q by (intro copy_forward copy_word_at) auto
  with True q show ?thesis by (simp add: memcpy_def unat_quarter)
next
  case False
  have "fold (copy_byte dst src) [0..<unat len] m = block_copy m dst src (1 * unat len)"
    using assms unat_u32_bound [of len] by (intro copy_forward) (auto simp: copy_byte_at)
  with False show ?thesis by (simp add: memcpy_def)
qed

lemma backward_copies:
  assumes "dst = src \<or> unat len \<le> unat (src - dst)"
  shows "(if word_aligned dst src len then fold (copy_word dst src) (rev [0..<unat (len div 4)]) m
      else fold (copy_byte dst src) (rev [0..<unat len]) m) = block_copy m dst src (unat len)"
proof (cases "word_aligned dst src len")
  case True
  then have q: "4 * (unat len div 4) = unat len" by (simp add: word_aligned_def quarter_exact)
  have "fold (copy_word dst src) (rev [0..<unat len div 4]) m = block_copy m dst src (4 * (unat len div 4))"
    using assms unat_u32_bound [of len] q by (intro copy_backward copy_word_at) auto
  with True q show ?thesis by (simp add: unat_quarter)
next
  case False
  have "fold (copy_byte dst src) (rev [0..<unat len]) m = block_copy m dst src (1 * unat len)"
    using assms unat_u32_bound [of len] by (intro copy_backward) (auto simp: copy_byte_at)
  with False show ?thesis by simp
qed

text \<open>
  C14: \<open>memmove\<close> copies correctly whatever the overlap, the alignment and the direction it picks.
  For blocks that do not roll over the top of memory every byte of the destination becomes the
  byte the source held before the call and no other byte changes. \<open>memcpy\<close> does the same whenever
  the destination does not start inside the source block, and \<open>bzero\<close> clears exactly the bytes
  of its block.
\<close>

theorem memmove_handles_overlap:
  assumes "unat dst + unat len \<le> 2 ^ 32" and "unat src + unat len \<le> 2 ^ 32"
  shows "memmove m dst src len = block_copy m dst src (unat len)
    \<and> (dst = src \<or> unat len \<le> unat (dst - src) \<longrightarrow> memcpy m dst src len = block_copy m dst src (unat len))
    \<and> (\<forall>x. bzero m dst len x = (if unat (x - dst) < unat len then 0 else m x))"
proof -
  have "memmove m dst src len = block_copy m dst src (unat len)"
  proof (cases "dst < src")
    case True
    then have "unat len \<le> unat (dst - src)"
      using assms by (simp add: word_less_nat_alt unat_sub_if')
    with True show ?thesis by (simp add: memmove_def memcpy_copies)
  next
    case False
    then have "dst = src \<or> unat len \<le> unat (src - dst)"
      using assms by (auto simp: word_less_nat_alt unat_sub_if' word_unat_eq_iff)
    from backward_copies [OF this] False show ?thesis by (simp add: memmove_def)
  qed
  then show ?thesis by (simp add: memcpy_copies bzero_at)
qed

theorem memmove_handles_overlap_witness:
  "memmove (\<lambda>a. ucast a) 2 1 5 6 = (5 :: u8) \<and> memmove (\<lambda>a. ucast a) 4 0 8 9 = (5 :: u8)"
  using memmove_handles_overlap [of 2 5 1 "\<lambda>a. ucast a"] memmove_handles_overlap [of 4 8 0 "\<lambda>a. ucast a"]
  by (simp add: block_copy_def)

end
