(* ===== verification/CString.thy ===== *)
theory CString
  imports Memory
begin

text \<open>
  The string functions of \<^verbatim>\<open>common/libc/string\<close> and \<open>atoi\<close> over byte memory. Their loops run until
  they meet a zero byte; a loop that meets none does not return, which is the value \<open>None\<close>. The
  null pointer is the address zero.
\<close>

named_theorems cstring_simps \<open>results of the string functions on terminated strings\<close>

subsection \<open>The functions\<close>

partial_function (option) strlen_from :: "mem \<Rightarrow> u32 \<Rightarrow> u32 \<Rightarrow> u32 option" where
  "strlen_from m str ret = (if m (str + ret) \<noteq> 0 then strlen_from m str (ret + 1) else Some ret)"

definition strlen :: "mem \<Rightarrow> u32 \<Rightarrow> u32 option" where
  "strlen m str = strlen_from m str 0"

partial_function (option) strcpy_from :: "u32 \<Rightarrow> u32 \<Rightarrow> u32 \<Rightarrow> mem \<Rightarrow> mem option" where
  "strcpy_from dest src i m =
     (if m (src + i) \<noteq> 0 then strcpy_from dest src (i + 1) (m(dest + i := m (src + i)))
      else Some (m(dest + i := 0)))"

definition strcpy :: "mem \<Rightarrow> u32 \<Rightarrow> u32 \<Rightarrow> (u32 \<times> mem) option" where
  "strcpy m dest src = Option.bind (strcpy_from dest src 0 m) (\<lambda>m. Some (dest, m))"

definition strcat :: "mem \<Rightarrow> u32 \<Rightarrow> u32 \<Rightarrow> (u32 \<times> mem) option" where
  "strcat m dest src =
     Option.bind (strlen m dest) (\<lambda>offset.
       Option.bind (strcpy m (dest + offset) src) (\<lambda>(_, m). Some (dest, m)))"

partial_function (option) strchr_from :: "mem \<Rightarrow> u8 \<Rightarrow> u32 \<Rightarrow> u32 option" where
  "strchr_from m ch s =
     (if m s \<noteq> 0 then (if m s = ch then Some s else strchr_from m ch (s + 1))
      else if m s = ch then Some s else Some 0)"

definition strchr :: "mem \<Rightarrow> u32 \<Rightarrow> int \<Rightarrow> u32 option" where
  "strchr m s ch_arg = strchr_from m (of_int ch_arg) s"

fun strrchr_down :: "mem \<Rightarrow> u32 \<Rightarrow> u8 \<Rightarrow> nat \<Rightarrow> u32" where
  "strrchr_down m s ch 0 = 0"
| "strrchr_down m s ch (Suc i) = (if m (s + of_nat i) = ch then s + of_nat i else strrchr_down m s ch i)"

definition strrchr :: "mem \<Rightarrow> u32 \<Rightarrow> int \<Rightarrow> u32 option" where
  "strrchr m s ch_arg =
     Option.bind (strlen m s) (\<lambda>n. Some (strrchr_down m s (of_int ch_arg) (unat (n + 1))))"

partial_function (option) strcmp_from :: "mem \<Rightarrow> u32 \<Rightarrow> u32 \<Rightarrow> u32 \<Rightarrow> u32 option" where
  "strcmp_from m a b i =
     (if m (a + i) \<noteq> 0 \<and> m (a + i) = m (b + i) then strcmp_from m a b (i + 1) else Some i)"

definition strcmp :: "mem \<Rightarrow> u32 \<Rightarrow> u32 \<Rightarrow> int option" where
  "strcmp m a b =
     Option.bind (strcmp_from m a b 0) (\<lambda>i. Some
       (if m (a + i) > m (b + i) then 1 else if m (a + i) = m (b + i) then 0 else -1))"

text \<open>
  The two scanning loops of \<open>strtok_r\<close>: \<open>want\<close> is whether separators are skipped (the leading
  ones) or stopped at (the end of the word).
\<close>

partial_function (option) scan_seps :: "mem \<Rightarrow> u32 \<Rightarrow> bool \<Rightarrow> u32 \<Rightarrow> u32 option" where
  "scan_seps m seps want p =
     (if m p = 0 then Some p
      else Option.bind (strchr_from m (m p) seps) (\<lambda>r.
        if (r \<noteq> 0) = want then scan_seps m seps want (p + 1) else Some p))"

definition strtok_r :: "mem \<Rightarrow> u32 \<Rightarrow> u32 \<Rightarrow> u32 \<Rightarrow> (u32 \<times> u32 \<times> mem) option" where
  "strtok_r m str seps ctx =
     (let ctx = (if str \<noteq> 0 then str else ctx);
          head = ctx
      in if head = 0 then Some (0, ctx, m)
         else Option.bind (scan_seps m seps True head) (\<lambda>head.
           if m head = 0 then Some (0, 0, m)
           else Option.bind (scan_seps m seps False head) (\<lambda>tail.
             if m tail = 0 then Some (head, 0, m)
             else Some (head, tail + 1, m(tail := 0)))))"

partial_function (option) skip_blanks :: "mem \<Rightarrow> u32 \<Rightarrow> u32 option" where
  "skip_blanks m s = (if m s = 32 \<or> m s = 9 then skip_blanks m (s + 1) else Some s)"

text \<open>\<open>digits\<close> is the address of the constant string of the ten digits.\<close>

partial_function (option) atoi_digits :: "mem \<Rightarrow> u32 \<Rightarrow> u32 \<Rightarrow> u32 \<Rightarrow> u32 option" where
  "atoi_digits m digits val s =
     (if m s = 0 then Some val
      else Option.bind (strchr_from m (m s) digits) (\<lambda>w.
        if w = 0 then Some val
        else atoi_digits m digits (val * 10 + (w - digits)) (s + 1)))"

definition atoi :: "mem \<Rightarrow> u32 \<Rightarrow> u32 \<Rightarrow> int option" where
  "atoi m digits s =
     Option.bind (skip_blanks m s) (\<lambda>s.
       let neg = (m s = 45);
           s = (if m s = 45 \<or> m s = 43 then s + 1 else s)
       in Option.bind (atoi_digits m digits 0 s) (\<lambda>val. Some (sint (if neg then - val else val))))"

subsection \<open>Terminated strings\<close>

fun cstring :: "mem \<Rightarrow> u32 \<Rightarrow> u8 list \<Rightarrow> bool" where
  "cstring m a [] \<longleftrightarrow> m a = 0"
| "cstring m a (x # xs) \<longleftrightarrow> m a = x \<and> x \<noteq> 0 \<and> cstring m (a + 1) xs"

lemma cstring_nth: "cstring m a xs \<Longrightarrow> i < length xs \<Longrightarrow> m (a + of_nat i) = xs ! i"
proof (induction xs arbitrary: a i)
  case (Cons x xs)
  then show ?case by (cases i) (auto simp: add.assoc [symmetric])
qed simp

lemma cstring_end: "cstring m a xs \<Longrightarrow> m (a + of_nat (length xs)) = 0"
  by (induction xs arbitrary: a) (auto simp: add.assoc [symmetric])

lemma cstring_nonzero: "cstring m a xs \<Longrightarrow> 0 \<notin> set xs"
  by (induction xs arbitrary: a) auto

lemma cstring_nth_nonzero: "cstring m a xs \<Longrightarrow> i < length xs \<Longrightarrow> m (a + of_nat i) \<noteq> 0"
  using cstring_nonzero cstring_nth nth_mem by metis

text \<open>A string cannot be as long as the address space: the terminator would be one of its bytes.\<close>

lemma cstring_length: "cstring m a xs \<Longrightarrow> length xs < 2 ^ 32"
proof (rule ccontr)
  assume c: "cstring m a xs" and "\<not> length xs < 2 ^ 32"
  then have "length xs mod 2 ^ 32 < length xs" by (meson less_le_trans linorder_not_less mod_less_divisor zero_less_power zero_less_numeral)
  then have "m (a + of_nat (length xs mod 2 ^ 32)) \<noteq> 0" by (rule cstring_nth_nonzero [OF c])
  moreover have "(of_nat (length xs mod 2 ^ 32) :: u32) = of_nat (length xs)"
    by (simp add: word_unat_eq_iff unsigned_of_nat take_bit_eq_mod)
  ultimately show False using cstring_end [OF c] by simp
qed

lemma cstring_frame:
  "cstring m a xs \<Longrightarrow> (\<And>i. i \<le> length xs \<Longrightarrow> m' (a + of_nat i) = m (a + of_nat i)) \<Longrightarrow> cstring m' a xs"
proof (induction xs arbitrary: a)
  case Nil
  then show ?case using Nil(2) [of 0] by simp
next
  case (Cons x xs)
  have "m' (a + 1 + of_nat i) = m (a + 1 + of_nat i)" if "i \<le> length xs" for i
    using Cons.prems(2) [of "Suc i"] that by (simp add: add.assoc)
  then show ?case using Cons Cons.prems(2) [of 0] by simp
qed

lemma cstring_upd:
  assumes "cstring m a xs" and "\<And>j. j \<le> length xs \<Longrightarrow> p \<noteq> a + of_nat j"
  shows "cstring (m(p := v)) a xs"
proof (rule cstring_frame [OF assms(1)])
  fix j assume "j \<le> length xs"
  then have "p \<noteq> a + of_nat j" by (rule assms(2))
  then show "(m(p := v)) (a + of_nat j) = m (a + of_nat j)" by simp
qed

lemma cstring_drop: "cstring m a xs \<Longrightarrow> i \<le> length xs \<Longrightarrow> cstring m (a + of_nat i) (drop i xs)"
proof (induction xs arbitrary: a i)
  case (Cons x xs)
  then show ?case by (cases i) (auto simp: add.assoc [symmetric])
qed simp

subsection \<open>Scanning and comparing\<close>

lemma strlen_from_spec:
  "cstring m (str + ret) xs \<Longrightarrow> strlen_from m str ret = Some (ret + of_nat (length xs))"
  by (induction xs arbitrary: ret) (simp_all add: strlen_from.simps add.assoc)

lemma strlen_spec [cstring_simps]: "cstring m str xs \<Longrightarrow> strlen m str = Some (of_nat (length xs))"
  using strlen_from_spec [of m str 0 xs] by (simp add: strlen_def)

lemma strchr_from_spec [cstring_simps]:
  "cstring m s xs \<Longrightarrow> strchr_from m ch s =
     Some (if ch \<in> set xs \<or> ch = 0 then s + of_nat (length (takeWhile (\<lambda>x. x \<noteq> ch) xs)) else 0)"
proof (induction xs arbitrary: s)
  case Nil
  then show ?case by (simp add: strchr_from.simps)
next
  case (Cons x xs)
  then show ?case by (simp add: strchr_from.simps add.assoc)
qed

lemma strrchr_down_spec:
  "strrchr_down m s ch n = (if \<exists>i<n. m (s + of_nat i) = ch
     then s + of_nat (GREATEST i. i < n \<and> m (s + of_nat i) = ch) else 0)"
proof (induction n)
  case (Suc n)
  show ?case
  proof (cases "m (s + of_nat n) = ch")
    case True
    then have "(GREATEST i. i < Suc n \<and> m (s + of_nat i) = ch) = n" by (intro Greatest_equality) auto
    with True show ?thesis by auto
  next
    case False
    then have "i < Suc n \<and> m (s + of_nat i) = ch \<longleftrightarrow> i < n \<and> m (s + of_nat i) = ch" for i
      by (auto simp: less_Suc_eq)
    with False Suc show ?thesis by auto
  qed
qed simp

text \<open>
  \<open>strcmp\<close> stops at the first position where the strings differ, which is where their
  lexicographic order is decided.
\<close>

fun order_of :: "u8 list \<Rightarrow> u8 list \<Rightarrow> int" where
  "order_of [] [] = 0"
| "order_of [] (y # ys) = -1"
| "order_of (x # xs) [] = 1"
| "order_of (x # xs) (y # ys) = (if x < y then -1 else if y < x then 1 else order_of xs ys)"

lemma order_of_lexordp:
  "(order_of xs ys = -1 \<longleftrightarrow> ord_class.lexordp xs ys) \<and> (order_of xs ys = 0 \<longleftrightarrow> xs = ys)
     \<and> (order_of xs ys = 1 \<longleftrightarrow> ord_class.lexordp ys xs)"
  by (induction xs ys rule: order_of.induct) auto

lemma strcmp_from_spec:
  "cstring m (a + i) xs \<Longrightarrow> cstring m (b + i) ys \<Longrightarrow>
    \<exists>k. strcmp_from m a b i = Some k
      \<and> order_of xs ys = (if m (a + k) > m (b + k) then 1 else if m (a + k) = m (b + k) then 0 else -1)"
proof (induction xs ys arbitrary: i rule: order_of.induct)
  case (4 x xs y ys)
  show ?case
  proof (cases "x = y")
    case True
    then show ?thesis using 4(1) [of "i + 1"] 4(2-) by (simp add: strcmp_from.simps [of m a b i] add.assoc)
  next
    case False
    then show ?thesis using 4(2-) by (auto simp: strcmp_from.simps)
  qed
qed (auto simp: strcmp_from.simps word_gt_0)

lemma strcmp_spec:
  assumes "cstring m a xs" and "cstring m b ys"
  shows "strcmp m a b = Some (order_of xs ys)"
  using strcmp_from_spec [of m a 0 xs b ys] assms by (auto simp: strcmp_def)

text \<open>
  On terminated strings \<open>strcmp\<close> always returns, and it decides the lexicographic order of the
  two strings as sequences of unsigned bytes: -1, 0 and 1 exactly for smaller, equal and greater.
\<close>

theorem strcmp_is_lexicographic:
  assumes "cstring m a xs" and "cstring m b ys"
  shows "\<exists>r. strcmp m a b = Some r \<and> (r = -1 \<longleftrightarrow> ord_class.lexordp xs ys)
    \<and> (r = 0 \<longleftrightarrow> xs = ys) \<and> (r = 1 \<longleftrightarrow> ord_class.lexordp ys xs)"
  using strcmp_spec [OF assms] order_of_lexordp [of xs ys] by simp

theorem strcmp_is_lexicographic_witness:
  "strcmp ((\<lambda>_. 0)(10 := 97, 11 := 200, 20 := 97, 21 := 98, 22 := 98)) 10 20 = Some 1"
  using strcmp_is_lexicographic [of "(\<lambda>_. 0)(10 := 97, 11 := 200, 20 := 97, 21 := 98, 22 := 98)" 10 "[97, 200]" 20 "[97, 98, 98]"]
  by auto

subsection \<open>Copying and appending\<close>

text \<open>Memory with a list of bytes written at an address.\<close>

fun put :: "mem \<Rightarrow> u32 \<Rightarrow> u8 list \<Rightarrow> mem" where
  "put m a [] = m"
| "put m a (x # xs) = put (m(a := x)) (a + 1) xs"

lemma put_at:
  "length xs \<le> 2 ^ 32 \<Longrightarrow>
    put m a xs x = (if unat (x - a) < length xs then xs ! unat (x - a) else m x)"
proof (induction xs arbitrary: m a)
  case (Cons y ys)
  show ?case
  proof (cases "x = a")
    case True
    have "unat (-1 :: u32) = 2 ^ 32 - 1" by (simp add: unsigned_minus_1_eq_mask mask_eq_exp_minus_1)
    with True Cons show ?thesis by simp
  next
    case False
    then have "1 \<le> unat (x - a)" by (simp add: Suc_le_eq unat_gt_0)
    then have "unat (x - a) = Suc (unat (x - a - 1))" by (simp add: unat_sub_if')
    moreover have "x - a - 1 = x - (a + 1)" by simp
    ultimately have "unat (x - a) = Suc (unat (x - (a + 1)))" by metis
    with False Cons show ?thesis by simp
  qed
qed simp

lemma put_append: "put m a (xs @ ys) = put (put m a xs) (a + of_nat (length xs)) ys"
  by (induction xs arbitrary: m a) (simp_all add: add.assoc)

lemma cstringI:
  "(\<And>i. i < length xs \<Longrightarrow> m (a + of_nat i) = xs ! i) \<Longrightarrow> m (a + of_nat (length xs)) = 0 \<Longrightarrow> 0 \<notin> set xs \<Longrightarrow>
    cstring m a xs"
proof (induction xs arbitrary: a)
  case (Cons x xs)
  have "m (a + 1 + of_nat i) = xs ! i" if "i < length xs" for i
    using Cons.prems(1) [of "Suc i"] that by (simp add: add.assoc)
  then show ?case using Cons Cons.prems(1) [of 0] by (simp add: add.assoc)
qed simp

lemma unat_of_nat_u32: "n < 2 ^ 32 \<Longrightarrow> unat (of_nat n :: u32) = n"
  using unat_of_nat_small [of n, where 'a = 32] by simp

lemma of_nat_u32_eq: "i < 2 ^ 32 \<Longrightarrow> k < 2 ^ 32 \<Longrightarrow> (of_nat i :: u32) = of_nat k \<longleftrightarrow> i = k"
  by (metis unat_of_nat_u32)

lemma cstring_put: "0 \<notin> set xs \<Longrightarrow> length xs < 2 ^ 32 \<Longrightarrow> cstring (put m a (xs @ [0])) a xs"
  by (rule cstringI) (simp_all add: put_at unat_of_nat_u32 nth_append)

definition apart :: "u32 \<Rightarrow> nat \<Rightarrow> u32 \<Rightarrow> nat \<Rightarrow> bool" where
  "apart a n b k \<longleftrightarrow> (\<forall>i\<le>n. \<forall>j\<le>k. a + of_nat i \<noteq> b + of_nat j)"

lemma apartD: "apart a n b k \<Longrightarrow> i \<le> n \<Longrightarrow> j \<le> k \<Longrightarrow> a + of_nat i \<noteq> b + of_nat j"
  by (simp add: apart_def)

lemma apart_step: "apart a (Suc n) b (Suc k) \<Longrightarrow> apart (a + 1) n (b + 1) k"
proof -
  assume a: "apart a (Suc n) b (Suc k)"
  have "a + 1 + of_nat i \<noteq> b + 1 + of_nat j" if "i \<le> n" "j \<le> k" for i j
    using apartD [OF a, of "Suc i" "Suc j"] that by simp
  then show ?thesis by (simp add: apart_def)
qed

lemma apart_below:
  assumes "unat a + n < unat b" and "unat b + k < 2 ^ 32"
  shows "apart a n b k"
  unfolding apart_def
proof (intro allI impI)
  fix i j assume "i \<le> n" "j \<le> k"
  then have "unat (a + of_nat i) = unat a + i" "unat (b + of_nat j) = unat b + j"
    using assms by (simp_all add: unat_plus_if' unat_of_nat_u32)
  with assms(1) \<open>i \<le> n\<close> show "a + of_nat i \<noteq> b + of_nat j" by auto
qed

lemma strcpy_from_spec:
  "cstring m (src + i) xs \<Longrightarrow> apart (dest + i) (length xs) (src + i) (length xs) \<Longrightarrow>
    strcpy_from dest src i m = Some (put m (dest + i) (xs @ [0]))"
proof (induction xs arbitrary: i m)
  case Nil
  then show ?case by (auto simp: strcpy_from.simps fun_eq_iff)
next
  case (Cons x xs)
  let ?m = "m(dest + i := m (src + i))"
  have "dest + i \<noteq> src + (i + 1) + of_nat j" if "j \<le> length xs" for j
    using apartD [OF Cons.prems(2), of 0 "Suc j"] that by (simp add: add.assoc)
  moreover have "cstring m (src + (i + 1)) xs" using Cons.prems(1) by (simp add: add.assoc)
  ultimately have "cstring ?m (src + (i + 1)) xs" by (intro cstring_upd)
  moreover have "apart (dest + (i + 1)) (length xs) (src + (i + 1)) (length xs)"
    using apart_step [of "dest + i" "length xs" "src + i" "length xs"] Cons.prems(2) by (simp add: add.assoc)
  ultimately show ?case using Cons by (simp add: strcpy_from.simps [of dest src i m] add.assoc)
qed

lemma strcpy_spec [cstring_simps]:
  assumes "cstring m src xs" and "apart dest (length xs) src (length xs)"
  shows "strcpy m dest src = Some (dest, put m dest (xs @ [0]))"
  using strcpy_from_spec [of m src 0 xs dest] assms by (simp add: strcpy_def)

lemma apart_offset:
  assumes "apart dest (k + n) src n"
  shows "apart (dest + of_nat k) n src n"
  unfolding apart_def
proof (intro allI impI)
  fix i j assume "i \<le> n" "j \<le> n"
  then show "dest + of_nat k + of_nat i \<noteq> src + of_nat j"
    using apartD [OF assms, of "k + i" j] by (simp add: add.assoc)
qed

lemma put_same:
  "(\<And>i. i < length xs \<Longrightarrow> m (a + of_nat i) = xs ! i) \<Longrightarrow> put m a xs = m"
proof (induction xs arbitrary: a)
  case (Cons x xs)
  have "m (a + 1 + of_nat i) = xs ! i" if "i < length xs" for i
    using Cons.prems [of "Suc i"] that by (simp add: add.assoc)
  moreover have "m(a := x) = m" using Cons.prems [of 0] by auto
  ultimately show ?case using Cons.IH by simp
qed simp

text \<open>
  \<open>strcat\<close> appends. When the source string lies apart from the destination string and the room
  behind it, the call returns the destination, which then holds the concatenation, terminated;
  the source is still intact and no byte outside the destination's \<open>length + 1\<close> bytes changes.
\<close>

theorem strcat_appends:
  assumes d: "cstring m dest ds" and s: "cstring m src xs"
    and "apart dest (length ds + length xs) src (length xs)"
    and fits: "length ds + length xs < 2 ^ 32"
  shows "\<exists>m'. strcat m dest src = Some (dest, m') \<and> cstring m' dest (ds @ xs) \<and> cstring m' src xs
    \<and> (\<forall>x. length ds + length xs < unat (x - dest) \<longrightarrow> m' x = m x)"
proof -
  let ?m = "put m dest ((ds @ xs) @ [0])"
  have "strcpy m (dest + of_nat (length ds)) src
      = Some (dest + of_nat (length ds), put m (dest + of_nat (length ds)) (xs @ [0]))"
    using s assms(3) by (intro strcpy_spec) (simp_all add: apart_offset)
  moreover have "put m (dest + of_nat (length ds)) (xs @ [0]) = ?m"
    using put_same [of ds m dest] cstring_nth [OF d] by (simp add: put_append)
  ultimately have "strcat m dest src = Some (dest, ?m)" using d by (simp add: strcat_def strlen_spec)
  moreover have "cstring ?m dest (ds @ xs)"
    using cstring_nonzero [OF d] cstring_nonzero [OF s] fits by (intro cstring_put) auto
  moreover have out: "?m x = m x" if "length ds + length xs < unat (x - dest)" for x
    using that fits by (simp add: put_at del: append_assoc)
  moreover have "cstring ?m src xs"
  proof (rule cstring_frame [OF s], rule out, rule ccontr)
    fix j assume j: "j \<le> length xs" and "\<not> length ds + length xs < unat (src + of_nat j - dest)"
    then have "dest + of_nat (unat (src + of_nat j - dest)) \<noteq> src + of_nat j"
      by (intro apartD [OF assms(3)]) auto
    then show False by simp
  qed
  ultimately show ?thesis by blast
qed

theorem strcat_appends_witness:
  "\<exists>m'. strcat ((\<lambda>_. 0)(8 := 97, 9 := 98, 40 := 99)) 8 40 = Some (8, m') \<and> cstring m' 8 [97, 98, 99]"
proof -
  have "apart 8 (length [97 :: u8, 98] + length [99 :: u8]) 40 (length [99 :: u8])"
    by (rule apart_below) simp_all
  from strcat_appends [OF _ _ this, of "(\<lambda>_. 0)(8 := 97, 9 := 98, 40 := 99)"] show ?thesis by auto
qed

subsection \<open>Tokens\<close>

text \<open>A string that neither starts at the null address nor rolls over the top of memory.\<close>

definition in_range :: "u32 \<Rightarrow> u8 list \<Rightarrow> bool" where
  "in_range a xs \<longleftrightarrow> 0 < unat a \<and> unat a + length xs < 2 ^ 32"

lemma in_range_nonnull: "in_range a xs \<Longrightarrow> k \<le> length xs \<Longrightarrow> a + of_nat k \<noteq> 0"
proof -
  assume a: "in_range a xs" "k \<le> length xs"
  then have "unat (a + of_nat k) = unat a + k" by (simp add: in_range_def unat_plus_if' unat_of_nat_u32)
  with a(1) show ?thesis by (auto simp: in_range_def)
qed

lemma in_range_drop: "in_range a xs \<Longrightarrow> k \<le> length xs \<Longrightarrow> in_range (a + of_nat k) (drop k xs)"
  by (simp add: in_range_def unat_plus_if' unat_of_nat_u32)

lemma strchr_from_member:
  assumes "cstring m seps ss" and "in_range seps ss" and "c \<noteq> 0"
  shows "\<exists>r. strchr_from m c seps = Some r \<and> (r \<noteq> 0 \<longleftrightarrow> c \<in> set ss)"
  using strchr_from_spec [OF assms(1), of c] in_range_nonnull [OF assms(2) length_takeWhile_le] assms(3)
  by auto

lemma scan_seps_spec:
  assumes ss: "cstring m seps ss" "in_range seps ss"
  shows "cstring m p xs \<Longrightarrow>
    scan_seps m seps want p = Some (p + of_nat (length (takeWhile (\<lambda>x. (x \<in> set ss) = want) xs)))"
proof (induction xs arbitrary: p)
  case Nil
  then show ?case by (simp add: scan_seps.simps)
next
  case (Cons x xs)
  then obtain r where "strchr_from m x seps = Some r" "r \<noteq> 0 \<longleftrightarrow> x \<in> set ss"
    using strchr_from_member [OF ss, of x] by auto
  with Cons show ?case by (auto simp: scan_seps.simps [of m seps want p] add.assoc)
qed

text \<open>What one call takes off a string: the next word and, when a separator ends it, the rest.\<close>

definition next_token :: "u8 set \<Rightarrow> u8 list \<Rightarrow> (u8 list \<times> u8 list option) option" where
  "next_token seps xs =
     (case dropWhile (\<lambda>x. x \<in> seps) xs of
        [] \<Rightarrow> None
      | w \<Rightarrow> Some (takeWhile (\<lambda>x. x \<notin> seps) w,
                   (case dropWhile (\<lambda>x. x \<notin> seps) w of [] \<Rightarrow> None | _ # rest \<Rightarrow> Some rest)))"

definition token_result :: "mem \<Rightarrow> mem \<Rightarrow> u32 \<Rightarrow> u32 \<Rightarrow> (u8 list \<times> u8 list option) option \<Rightarrow> bool" where
  "token_result m m' r ctx t \<longleftrightarrow>
     (case t of None \<Rightarrow> r = 0 \<and> ctx = 0 \<and> m' = m
      | Some (w, rest) \<Rightarrow> r \<noteq> 0 \<and> cstring m' r w \<and>
          (case rest of None \<Rightarrow> ctx = 0 \<and> m' = m
           | Some ys \<Rightarrow> in_range ctx ys \<and> cstring m' ctx ys \<and> (\<exists>p. m' = m(p := 0) \<and> ctx = p + 1)))"

lemma cstring_take:
  assumes "cstring m a xs" and "k < length xs"
  shows "cstring (m(a + of_nat k := 0)) a (take k xs)"
proof (rule cstringI)
  have len: "length xs < 2 ^ 32" using cstring_length [OF assms(1)] .
  have "(a + of_nat i = a + of_nat k) \<longleftrightarrow> i = k" if "i < length xs" for i
    using that assms(2) len of_nat_u32_eq [of i k] by simp
  then show "(m(a + of_nat k := 0)) (a + of_nat i) = take k xs ! i" if "i < length (take k xs)" for i
    using that assms cstring_nth [OF assms(1), of i] by auto
  show "0 \<notin> set (take k xs)" using cstring_nonzero [OF assms(1)] by (meson in_set_takeD)
  show "(m(a + of_nat k := 0)) (a + of_nat (length (take k xs))) = 0" using assms(2) by simp
qed

lemma cstring_after:
  assumes "cstring m a xs" and "k < length xs"
  shows "cstring (m(a + of_nat k := 0)) (a + of_nat (Suc k)) (drop (Suc k) xs)"
proof (rule cstring_frame [OF cstring_drop [OF assms(1)]])
  have len: "length xs < 2 ^ 32" using cstring_length [OF assms(1)] .
  fix j assume "j \<le> length (drop (Suc k) xs)"
  then have "Suc k + j \<le> length xs" using assms(2) by simp
  then have "(of_nat (Suc k + j) :: u32) \<noteq> of_nat k"
    using assms(2) len of_nat_u32_eq [of "Suc k + j" k] by linarith
  moreover have "a + of_nat (Suc k) + of_nat j = a + of_nat (Suc k + j)" by simp
  ultimately have "a + of_nat (Suc k) + of_nat j \<noteq> a + of_nat k" by (metis add_left_cancel)
  then show "(m(a + of_nat k := 0)) (a + of_nat (Suc k) + of_nat j) = m (a + of_nat (Suc k) + of_nat j)"
    by simp
qed (use assms(2) in simp)

text \<open>
  C15: \<open>strtok_r\<close> splits strings. Whether it starts on a string or resumes from its context, one
  call on a terminated string returns exactly the next word as the specification \<open>next_token\<close>
  takes it off the byte list, leaves the context at the rest (null when nothing follows), writes at
  most the one byte that ends the word, and leaves the separator string usable for the next call.
  Resuming from a null context returns null.
\<close>

theorem strtok_r_splits:
  assumes xs: "cstring m p xs" "in_range p xs" and ss: "cstring m seps ss" "in_range seps ss"
    and "apart p (length xs) seps (length ss)"
    and start: "str = p \<or> str = 0 \<and> ctx = p"
  shows "(\<exists>r c m'. strtok_r m str seps ctx = Some (r, c, m') \<and> token_result m m' r c (next_token (set ss) xs)
      \<and> cstring m' seps ss)
    \<and> strtok_r m 0 seps 0 = Some (0, 0, m)"
proof -
  have p: "p \<noteq> 0" using in_range_nonnull [OF xs(2), of 0] by simp
  let ?k = "length (takeWhile (\<lambda>x. x \<in> set ss) xs)"
  let ?w = "dropWhile (\<lambda>x. x \<in> set ss) xs"
  let ?h = "p + of_nat ?k"
  have k: "?k \<le> length xs" by (rule length_takeWhile_le)
  have w: "cstring m ?h ?w" "in_range ?h ?w"
    using cstring_drop [OF xs(1) k] in_range_drop [OF xs(2) k] by (simp_all add: dropWhile_eq_drop)
  let ?n = "length (takeWhile (\<lambda>x. x \<notin> set ss) ?w)"
  let ?t = "?h + of_nat ?n"
  have call: "strtok_r m str seps ctx =
      (if m ?h = 0 then Some (0, 0, m)
       else if m ?t = 0 then Some (?h, 0, m) else Some (?h, ?t + 1, m(?t := 0)))"
    using start p scan_seps_spec [OF ss xs(1), of True] scan_seps_spec [OF ss w(1), of False]
    by (auto simp: strtok_r_def)
  have null: "strtok_r m 0 seps 0 = Some (0, 0, m)" by (simp add: strtok_r_def)
  show ?thesis
  proof (cases "?w = []")
    case True
    then have "next_token (set ss) xs = None" unfolding next_token_def by (simp only: list.case)
    moreover have "m ?h = 0" using w(1) unfolding True by simp
    ultimately show ?thesis using call null ss(1) by (simp add: token_result_def)
  next
    case False
    with w(1) have h: "m ?h \<noteq> 0" "?h \<noteq> 0"
      using in_range_nonnull [OF w(2), of 0] by (cases ?w, auto)+
    have token: "next_token (set ss) xs = Some (take ?n ?w, case drop ?n ?w of [] \<Rightarrow> None | _ # r \<Rightarrow> Some r)"
      using False by (simp add: next_token_def dropWhile_eq_drop [symmetric] takeWhile_eq_take [symmetric] split: list.split)
    show ?thesis
    proof (cases "?n = length ?w")
      case True
      then have "m ?t = 0" using cstring_end [OF w(1)] by metis
      with True call h null token w(1) ss(1) show ?thesis by (simp add: token_result_def)
    next
      case False
      then have n: "?n < length ?w" using length_takeWhile_le le_neq_implies_less by blast
      have "m ?t \<noteq> 0" by (rule cstring_nth_nonzero [OF w(1) n])
      then have run: "strtok_r m str seps ctx = Some (?h, ?t + 1, m(?t := 0))" using call h by simp
      have rest: "drop ?n ?w = ?w ! ?n # drop (Suc ?n) ?w" using n by (simp add: Cons_nth_drop_Suc)
      have "?t \<noteq> seps + of_nat j" if "j \<le> length ss" for j
        using apartD [OF assms(5), of "?k + ?n" j] that n by (simp add: dropWhile_eq_drop add.assoc)
      then have "cstring (m(?t := 0)) seps ss" by (rule cstring_upd [OF ss(1)])
      moreover have "token_result m (m(?t := 0)) ?h (?t + 1) (next_token (set ss) xs)"
      proof -
        have suc: "?h + of_nat (Suc ?n) = ?t + 1" by simp
        have "in_range (?t + 1) (drop (Suc ?n) ?w)" "cstring (m(?t := 0)) (?t + 1) (drop (Suc ?n) ?w)"
          using in_range_drop [OF w(2), of "Suc ?n"] cstring_after [OF w(1) n] n unfolding suc by auto
        then show ?thesis using h cstring_take [OF w(1) n] unfolding token rest token_result_def by simp
      qed
      ultimately show ?thesis using run null by blast
    qed
  qed
qed

theorem strtok_r_splits_witness:
  "\<exists>r c m'. strtok_r ((\<lambda>_. 0)(8 := 32, 9 := 97, 10 := 32, 11 := 98, 40 := 32)) 8 40 0 = Some (r, c, m')
     \<and> r \<noteq> 0 \<and> cstring m' r [97] \<and> cstring m' c [98]"
proof -
  have a: "apart 8 (length [32 :: u8, 97, 32, 98]) 40 (length [32 :: u8])" by (rule apart_below) simp_all
  have tok: "next_token (set [32]) [32, 97, 32, 98] = Some ([97], Some [98])" by (simp add: next_token_def)
  let ?m = "(\<lambda>_. 0)(8 := 32, 9 := 97, 10 := 32, 11 := 98, 40 := 32) :: mem"
  have "cstring ?m 8 [32, 97, 32, 98]" "in_range 8 [32, 97, 32, 98]" "cstring ?m 40 [32]" "in_range 40 [32]"
    by (simp_all add: in_range_def)
  from strtok_r_splits [OF this a, of 8 0] obtain r c m' where
    "strtok_r ?m 8 40 0 = Some (r, c, m')" "token_result ?m m' r c (Some ([97], Some [98]))"
    unfolding tok by blast
  then show ?thesis unfolding token_result_def option.case prod.case by blast
qed

subsection \<open>Decimal numbers\<close>

definition dig :: "nat \<Rightarrow> u8" where
  "dig d = 48 + of_nat d"

definition digit_bytes :: "u8 list" where
  "digit_bytes = map dig [0..<10]"

text \<open>The decimal notation of a number, its value, and the notation of an integer with its sign.\<close>

fun dec :: "nat \<Rightarrow> nat list" where
  "dec n = (if n < 10 then [n] else dec (n div 10) @ [n mod 10])"

declare dec.simps [simp del]

definition decimal :: "int \<Rightarrow> u8 list" where
  "decimal z = (if z < 0 then [45] else []) @ map dig (dec (nat \<bar>z\<bar>))"

lemma dec_small: "d \<in> set (dec n) \<Longrightarrow> d < 10"
proof (induction n rule: dec.induct)
  case (1 n)
  then show ?case by (subst (asm) (2) dec.simps) (auto split: if_splits)
qed

lemma digits_unfold: "digit_bytes = [48, 49, 50, 51, 52, 53, 54, 55, 56, 57]"
  by (simp add: digit_bytes_def dig_def upt_rec numeral_eq_Suc)

lemma takeWhile_until_nth:
  "distinct xs \<Longrightarrow> d < length xs \<Longrightarrow> length (takeWhile (\<lambda>x. x \<noteq> xs ! d) xs) = d"
proof (induction xs arbitrary: d)
  case (Cons x xs)
  then show ?case by (cases d) auto
qed simp

lemma strchr_digit:
  assumes "cstring m digits digit_bytes"
  shows "d < 10 \<Longrightarrow> strchr_from m (dig d) digits = Some (digits + of_nat d)"
    and "c \<noteq> 0 \<Longrightarrow> c \<notin> set digit_bytes \<Longrightarrow> strchr_from m c digits = Some 0"
proof -
  show "strchr_from m (dig d) digits = Some (digits + of_nat d)" if "d < 10"
  proof -
    have "digit_bytes ! d = dig d" using that by (simp add: digit_bytes_def)
    moreover have "distinct digit_bytes" "length digit_bytes = 10" by (simp_all add: digits_unfold)
    ultimately show ?thesis
      using strchr_from_spec [OF assms, of "dig d"] takeWhile_until_nth [of digit_bytes d] that
      by (metis nth_mem)
  qed
  show "strchr_from m c digits = Some 0" if "c \<noteq> 0" "c \<notin> set digit_bytes"
    using strchr_from_spec [OF assms, of c] that by simp
qed

lemma atoi_digits_spec:
  assumes dg: "cstring m digits digit_bytes" "in_range digits digit_bytes"
  shows "cstring m s (map dig ds @ rest) \<Longrightarrow> (\<forall>d\<in>set ds. d < 10) \<Longrightarrow>
    rest = [] \<or> hd rest \<notin> set digit_bytes \<Longrightarrow>
    atoi_digits m digits val s = Some (foldl (\<lambda>v d. v * 10 + of_nat d) val ds)"
proof (induction ds arbitrary: s val)
  case Nil
  then show ?case
    using strchr_digit(2) [OF dg(1), of "hd rest"] by (cases rest) (auto simp: atoi_digits.simps)
next
  case (Cons d ds)
  have "digits + of_nat d \<noteq> 0"
    using Cons.prems(2) by (intro in_range_nonnull [OF dg(2)]) (simp add: digits_unfold)
  with Cons show ?case
    using strchr_digit(1) [OF dg(1), of d] by (auto simp: atoi_digits.simps [of m digits val s])
qed

lemma foldl_digits: "foldl (\<lambda>v d. v * 10 + of_nat d) (of_nat v) ds = (of_nat (foldl (\<lambda>v d. v * 10 + d) v ds) :: u32)"
proof (induction ds arbitrary: v)
  case (Cons d ds)
  then show ?case using Cons [of "v * 10 + d"] by simp
qed simp

lemma foldl_dec: "foldl (\<lambda>v d. v * 10 + d) 0 (dec n) = n"
proof (induction n rule: dec.induct)
  case (1 n)
  then show ?case by (subst dec.simps) auto
qed

lemma skip_blanks_spec:
  "(\<forall>b\<in>set bs. b = 32 \<or> b = 9) \<Longrightarrow> cstring m s (bs @ xs) \<Longrightarrow> xs = [] \<or> hd xs \<noteq> 32 \<and> hd xs \<noteq> 9 \<Longrightarrow>
    skip_blanks m s = Some (s + of_nat (length bs)) \<and> cstring m (s + of_nat (length bs)) xs"
proof (induction bs arbitrary: s)
  case Nil
  then show ?case by (cases xs) (auto simp: skip_blanks.simps)
next
  case (Cons b bs)
  then show ?case by (auto simp: skip_blanks.simps [of m s] add.assoc [symmetric])
qed

text \<open>
  \<open>atoi\<close> reads back what a decimal printer writes. After any blanks and tabs, the decimal notation
  of an integer, followed by nothing or by anything that is not a digit, gives that integer when
  it fits into 32 signed bits; beyond them the result wraps around modulo \<open>2^32\<close>.
\<close>

theorem atoi_reads_decimal:
  assumes "cstring m digits digit_bytes" and "in_range digits digit_bytes"
    and "\<forall>b\<in>set bs. b = 32 \<or> b = 9"
    and "cstring m s (bs @ decimal z @ rest)"
    and "rest = [] \<or> hd rest \<notin> set digit_bytes"
  shows "atoi m digits s = Some (cint z) \<and> (- (2 ^ 31) \<le> z \<and> z < 2 ^ 31 \<longrightarrow> atoi m digits s = Some z)"
proof -
  let ?ds = "dec (nat \<bar>z\<bar>)"
  let ?p = "s + of_nat (length bs)"
  have small: "\<forall>d\<in>set ?ds. d < 10" using dec_small by blast
  have ne: "?ds \<noteq> []" by (subst dec.simps) simp
  then obtain d ds where ds: "?ds = d # ds" by (cases ?ds) auto
  then have d: "dig d \<in> set digit_bytes" using small by (auto simp: digit_bytes_def)
  then have blank: "hd (decimal z @ rest) \<noteq> 32 \<and> hd (decimal z @ rest) \<noteq> 9" and sign: "dig d \<noteq> 45" "dig d \<noteq> 43"
    using ds by (auto simp: decimal_def digits_unfold)
  from blank skip_blanks_spec [OF assms(3,4)] have
    p: "skip_blanks m s = Some ?p" and str: "cstring m ?p (decimal z @ rest)" by auto
  let ?v = "foldl (\<lambda>v d. v * 10 + of_nat d) (0 :: u32) ?ds"
  have v: "?v = of_nat (nat \<bar>z\<bar>)" using foldl_digits [of 0 ?ds] by (simp add: foldl_dec)
  have "atoi m digits s = Some (sint (of_int z :: u32))"
  proof (cases "z < 0")
    case True
    with str have "m ?p = 45" "cstring m (?p + 1) (map dig ?ds @ rest)" by (simp_all add: decimal_def)
    moreover have "- ?v = of_int z" using True v by (simp add: word_of_nat_eq_iff)
    ultimately show ?thesis
      using p atoi_digits_spec [OF assms(1,2) _ small assms(5), of "?p + 1" 0] by (simp add: atoi_def)
  next
    case False
    with str have c: "cstring m ?p (map dig ?ds @ rest)" by (simp add: decimal_def)
    then have "m ?p = dig d" using ds by simp
    moreover have "?v = of_int z" using False v by simp
    ultimately show ?thesis
      using p sign atoi_digits_spec [OF assms(1,2) c small assms(5), of 0] by (simp add: atoi_def)
  qed
  then have "atoi m digits s = Some (cint z)" by (simp add: cint_def signed_of_int)
  then show ?thesis using cint_small by simp
qed

theorem atoi_reads_decimal_witness:
  "atoi (put ((\<lambda>_. 0)(8 := 32, 9 := 45, 10 := 52, 11 := 50, 12 := 59)) 64 digit_bytes) 64 8 = Some (-42)"
proof -
  let ?m = "put ((\<lambda>_. 0)(8 := 32, 9 := 45, 10 := 52, 11 := 50, 12 := 59)) 64 digit_bytes"
  have "cstring ?m 64 digit_bytes" "in_range 64 digit_bytes"
    by (simp_all add: digits_unfold in_range_def)
  moreover have "decimal (-42) = [45, 52, 50]" by (simp add: decimal_def dec.simps dig_def)
  then have "cstring ?m 8 ([32] @ decimal (-42) @ [59])" by (simp add: digits_unfold)
  ultimately show ?thesis
    using atoi_reads_decimal [of ?m 64 "[32]" 8 "-42" "[59]"] by (simp add: digits_unfold cint_small)
qed

end
