(* ===== verification/CopyInOut.thy ===== *)
theory CopyInOut
  imports CString
begin

text \<open>
  Copying between user and kernel memory (\<^verbatim>\<open>kern/vm/copyinout.c\<close>). Memory is the one the processor
  sees while the current process is mapped: user addresses below \<open>USERSPACETOP\<close>, the kernel above.
  \<open>ok a\<close> says whether an access to \<open>a\<close> goes through; an access that does not is a fatal fault, which
  the trap code turns into a call of \<open>copyfail\<close> when \<open>tm_badfaultfunc\<close> is set and into a panic
  otherwise.
\<close>

definition MIPS_KSEG0 :: u32 where [layout_defs]: "MIPS_KSEG0 = 0x80000000"
definition USERSPACETOP :: u32 where [layout_defs]: "USERSPACETOP = MIPS_KSEG0"

record umem_state =
  umem :: mem
  tm_badfaultfunc :: bool

subsection \<open>Checks\<close>

definition copycheck :: "u32 \<Rightarrow> u32 \<Rightarrow> int \<times> u32" where
  "copycheck userptr len =
     (let stoplen = len;
          bot = userptr;
          top = bot + len - 1
      in if top < bot then (EFAULT, stoplen)
         else if bot \<ge> USERSPACETOP then (EFAULT, stoplen)
         else if top \<ge> USERSPACETOP then (0, USERSPACETOP - bot)
         else (0, stoplen))"

subsection \<open>Guarded copying\<close>

text \<open>
  \<open>memcpy\<close> under the protection of \<open>tm_badfaultfunc\<close>: its loops stop at the first access that
  faults, with what was copied before in place.
\<close>

fun copy_until :: "(nat \<Rightarrow> bool) \<Rightarrow> (nat \<Rightarrow> mem \<Rightarrow> mem) \<Rightarrow> nat list \<Rightarrow> mem \<Rightarrow> bool \<times> mem" where
  "copy_until ok cp [] m = (True, m)"
| "copy_until ok cp (i # is) m = (if ok i then copy_until ok cp is (cp i m) else (False, m))"

definition memcpy_guarded :: "(u32 \<Rightarrow> bool) \<Rightarrow> mem \<Rightarrow> u32 \<Rightarrow> u32 \<Rightarrow> u32 \<Rightarrow> bool \<times> mem" where
  "memcpy_guarded ok m dst src len =
     (if word_aligned dst src len
      then copy_until (\<lambda>i. ok (dst + 4 * of_nat i) \<and> ok (src + 4 * of_nat i)) (copy_word dst src) [0..<unat (len div 4)] m
      else copy_until (\<lambda>i. ok (dst + of_nat i) \<and> ok (src + of_nat i)) (copy_byte dst src) [0..<unat len] m)"

text \<open>
  Where a fatal fault takes the thread: to the recovery function, which jumps back to the
  \<open>setjmp\<close> of the interrupted routine, or nowhere.
\<close>

definition copyfail :: "umem_state \<Rightarrow> (int \<times> umem_state) run" where
  "copyfail s = (if tm_badfaultfunc s then Ok (EFAULT, s\<lparr>tm_badfaultfunc := False\<rparr>) else Halt Panicked)"

definition copyin :: "(u32 \<Rightarrow> bool) \<Rightarrow> umem_state \<Rightarrow> u32 \<Rightarrow> u32 \<Rightarrow> u32 \<Rightarrow> (int \<times> umem_state) run" where
  "copyin ok s usersrc dest len =
     (case copycheck usersrc len of (result, stoplen) \<Rightarrow>
        if result \<noteq> 0 then Ok (result, s)
        else if stoplen \<noteq> len then Ok (EFAULT, s)
        else
          let s = s\<lparr>tm_badfaultfunc := True\<rparr> in
          case memcpy_guarded ok (umem s) dest usersrc len of (fine, m) \<Rightarrow>
            if \<not> fine then copyfail (s\<lparr>umem := m\<rparr>)
            else Ok (0, s\<lparr>umem := m, tm_badfaultfunc := False\<rparr>))"

definition copyout :: "(u32 \<Rightarrow> bool) \<Rightarrow> umem_state \<Rightarrow> u32 \<Rightarrow> u32 \<Rightarrow> u32 \<Rightarrow> (int \<times> umem_state) run" where
  "copyout ok s src userdest len =
     (case copycheck userdest len of (result, stoplen) \<Rightarrow>
        if result \<noteq> 0 then Ok (result, s)
        else if stoplen \<noteq> len then Ok (EFAULT, s)
        else
          let s = s\<lparr>tm_badfaultfunc := True\<rparr> in
          case memcpy_guarded ok (umem s) userdest src len of (fine, m) \<Rightarrow>
            if \<not> fine then copyfail (s\<lparr>umem := m\<rparr>)
            else Ok (0, s\<lparr>umem := m, tm_badfaultfunc := False\<rparr>))"

text \<open>
  \<open>copystr\<close> with its index counting down the bytes still allowed: \<open>None\<close> is a fault, the first
  component otherwise the result and the length found.
\<close>

fun copystr_from :: "(u32 \<Rightarrow> bool) \<Rightarrow> u32 \<Rightarrow> u32 \<Rightarrow> nat \<Rightarrow> u32 \<Rightarrow> mem \<Rightarrow> (u32 option) option \<times> mem" where
  "copystr_from ok dest src 0 i m = (Some None, m)"
| "copystr_from ok dest src (Suc n) i m =
     (if \<not> (ok (src + i) \<and> ok (dest + i)) then (None, m)
      else
        let m = m(dest + i := m (src + i)) in
        if m (src + i) = 0 then (Some (Some (i + 1)), m) else copystr_from ok dest src n (i + 1) m)"

definition copystr ::
    "(u32 \<Rightarrow> bool) \<Rightarrow> mem \<Rightarrow> u32 \<Rightarrow> u32 \<Rightarrow> u32 \<Rightarrow> u32 \<Rightarrow> (int \<times> u32 option) option \<times> mem" where
  "copystr ok m dest src maxlen stoplen =
     (case copystr_from ok dest src (unat (min maxlen stoplen)) 0 m of
        (None, m) \<Rightarrow> (None, m)
      | (Some (Some got), m) \<Rightarrow> (Some (0, Some got), m)
      | (Some None, m) \<Rightarrow> (Some (if stoplen < maxlen then EFAULT else ENAMETOOLONG, None), m))"

definition copyinstr :: "(u32 \<Rightarrow> bool) \<Rightarrow> umem_state \<Rightarrow> u32 \<Rightarrow> u32 \<Rightarrow> u32 \<Rightarrow> (int \<times> u32 option \<times> umem_state) run" where
  "copyinstr ok s usersrc dest len =
     (case copycheck usersrc len of (result, stoplen) \<Rightarrow>
        if result \<noteq> 0 then Ok (result, None, s)
        else
          let s = s\<lparr>tm_badfaultfunc := True\<rparr> in
          case copystr ok (umem s) dest usersrc len stoplen of
            (None, m) \<Rightarrow> bindR (copyfail (s\<lparr>umem := m\<rparr>)) (\<lambda>(r, s). Ok (r, None, s))
          | (Some (result, got), m) \<Rightarrow> Ok (result, got, s\<lparr>umem := m, tm_badfaultfunc := False\<rparr>))"

definition copyoutstr :: "(u32 \<Rightarrow> bool) \<Rightarrow> umem_state \<Rightarrow> u32 \<Rightarrow> u32 \<Rightarrow> u32 \<Rightarrow> (int \<times> u32 option \<times> umem_state) run" where
  "copyoutstr ok s src userdest len =
     (case copycheck userdest len of (result, stoplen) \<Rightarrow>
        if result \<noteq> 0 then Ok (result, None, s)
        else
          let s = s\<lparr>tm_badfaultfunc := True\<rparr> in
          case copystr ok (umem s) userdest src len stoplen of
            (None, m) \<Rightarrow> bindR (copyfail (s\<lparr>umem := m\<rparr>)) (\<lambda>(r, s). Ok (r, None, s))
          | (Some (result, got), m) \<Rightarrow> Ok (result, got, s\<lparr>umem := m, tm_badfaultfunc := False\<rparr>))"

subsection \<open>What the checks admit\<close>

lemma copycheck_empty: "copycheck p 0 = (if p = 0 then (0, USERSPACETOP) else (EFAULT, 0))"
proof -
  have "p - 1 < p" if "p \<noteq> 0" using that by (simp add: word_less_nat_alt unat_sub_if' unat_gt_0 Suc_le_eq)
  then show ?thesis by (auto simp: copycheck_def Let_def layout_defs)
qed

lemma copycheck_block:
  assumes "0 < unat len"
  shows "copycheck p len = (if 2 ^ 32 < unat p + unat len \<or> 2 ^ 31 \<le> unat p then (EFAULT, len)
    else (0, if 2 ^ 31 < unat p + unat len then USERSPACETOP - p else len))"
proof -
  have one: "unat (len - 1) = unat len - 1" using assms by (simp add: unat_sub_if')
  have top: "unat (p + len - 1) =
      (if unat p + unat len \<le> 2 ^ 32 then unat p + unat len - 1 else unat p + unat len - 1 - 2 ^ 32)"
    using assms unfolding add_diff_eq [symmetric] unat_plus_if' one by auto
  have ust: "unat USERSPACETOP = 2 ^ 31" by (simp add: layout_defs)
  show ?thesis
    unfolding copycheck_def Let_def word_less_nat_alt word_le_nat_alt ust top
    using assms unat_u32_bound [of p] unat_u32_bound [of len] by simp linarith
qed

lemma copycheck_whole:
  "fst (copycheck p len) = 0 \<and> snd (copycheck p len) = len \<longleftrightarrow> 0 < unat len \<and> unat p + unat len \<le> 2 ^ 31"
proof (cases "unat len = 0")
  case True
  then have "len = 0" by (simp add: unat_eq_zero)
  then show ?thesis by (simp add: copycheck_empty layout_defs EFAULT_def)
next
  case False
  have "USERSPACETOP - p \<noteq> len" if "2 ^ 31 < unat p + unat len" "unat p < 2 ^ 31"
  proof
    assume "USERSPACETOP - p = len"
    then have "unat len = unat USERSPACETOP - unat p" using that by (auto simp: unat_sub_if' layout_defs)
    with that show False by (simp add: layout_defs)
  qed
  with False show ?thesis by (auto simp: copycheck_block EFAULT_def)
qed

subsection \<open>What the copies do\<close>

text \<open>Whether an access goes through is decided page by page, so it is the same within a word.\<close>

definition word_wise :: "(u32 \<Rightarrow> bool) \<Rightarrow> bool" where
  "word_wise ok \<longleftrightarrow> (\<forall>a b. a div 4 = b div 4 \<longrightarrow> ok a = ok b)"

definition accessible :: "(u32 \<Rightarrow> bool) \<Rightarrow> u32 \<Rightarrow> u32 \<Rightarrow> bool" where
  "accessible ok a len \<longleftrightarrow> (\<forall>i<unat len. ok (a + of_nat i))"

lemma copy_until_eq: "copy_until ok cp is m = (list_all ok is, fold cp (takeWhile ok is) m)"
  by (induction "is" arbitrary: m) auto

lemma takeWhile_upt: "\<exists>k\<le>n. takeWhile P [0..<n] = [0..<k] \<and> (list_all P [0..<n] \<longleftrightarrow> k = n)"
proof -
  let ?k = "length (takeWhile P [0..<n])"
  have k: "?k \<le> n" using length_takeWhile_le [of P "[0..<n]"] by simp
  have "takeWhile P [0..<n] = [0..<?k]" using k by (metis takeWhile_eq_take take_upt add_0)
  moreover have "list_all P [0..<n] \<longleftrightarrow> ?k = n"
  proof
    assume "list_all P [0..<n]"
    then have "takeWhile P [0..<n] = [0..<n]" by (metis takeWhile_eq_all_conv list_all_iff)
    then show "?k = n" by (metis length_upt minus_nat.diff_0)
  next
    assume "?k = n"
    with calculation have "takeWhile P [0..<n] = [0..<n]" by simp
    then show "list_all P [0..<n]" by (metis takeWhile_eq_all_conv list_all_iff)
  qed
  ultimately show ?thesis using k by blast
qed

lemma unat_add_of_nat: "unat (a + of_nat i :: u32) = (unat a + i) mod 2 ^ 32"
proof -
  have "a + of_nat i = of_nat (unat a + i)" by simp
  then show ?thesis by (simp only: unsigned_of_nat take_bit_eq_mod len_of_numeral_defs) simp
qed

lemma mod_then_quarter: "((n :: nat) mod 2 ^ 32) div 4 = (n div 4) mod 2 ^ 30"
proof -
  have "n mod (4 * 2 ^ 30) = 4 * (n div 4 mod 2 ^ 30) + n mod 4" by (rule mod_mult2_eq)
  then show ?thesis by simp
qed

lemma aligned_word_index:
  fixes a :: u32
  assumes "a mod 4 = 0"
  shows "(a + of_nat i) div 4 = (a + 4 * of_nat (i div 4)) div 4"
proof -
  obtain q where "unat a = 4 * q" using quarter_exact [OF assms] by metis
  then have "(unat a + i) div 4 = (unat a + 4 * (i div 4)) div 4" by simp
  moreover have "a + 4 * of_nat (i div 4) = a + of_nat (4 * (i div 4))" by simp
  ultimately show ?thesis
    by (intro word_eq_of_unat) (simp only: unat_quarter unat_add_of_nat mod_then_quarter)
qed

lemma word_wise_block:
  assumes "word_wise ok" and "a mod 4 = 0" and "len mod 4 = 0"
  shows "accessible ok a len \<longleftrightarrow> (\<forall>i<unat (len div 4). ok (a + 4 * of_nat i))"
proof
  assume acc: "accessible ok a len"
  show "\<forall>i<unat (len div 4). ok (a + 4 * of_nat i)"
  proof (intro allI impI)
    fix i assume "i < unat (len div 4)"
    then have "4 * i < unat len" using quarter_exact [OF assms(3)] by (simp add: unat_quarter)
    then have "ok (a + of_nat (4 * i))" using acc by (simp only: accessible_def)
    then show "ok (a + 4 * of_nat i)" by simp
  qed
next
  assume words: "\<forall>i<unat (len div 4). ok (a + 4 * of_nat i)"
  show "accessible ok a len"
    unfolding accessible_def
  proof (intro allI impI)
    fix i assume "i < unat len"
    then have "i div 4 < unat (len div 4)" using quarter_exact [OF assms(3)] by (simp add: unat_quarter)
    then show "ok (a + of_nat i)"
      using words assms(1) aligned_word_index [OF assms(2), of i] unfolding word_wise_def by blast
  qed
qed

lemma memcpy_guarded_spec:
  assumes ww: "word_wise ok" and apart: "dst = src \<or> unat len \<le> unat (dst - src)"
  shows "\<exists>n\<le>unat len. memcpy_guarded ok m dst src len = (n = unat len, block_copy m dst src n)
    \<and> (n = unat len \<longleftrightarrow> accessible ok dst len \<and> accessible ok src len)"
proof (cases "word_aligned dst src len")
  case True
  let ?P = "\<lambda>i. ok (dst + 4 * of_nat i) \<and> ok (src + 4 * of_nat i)"
  let ?q = "unat len div 4"
  have al: "dst mod 4 = 0" "src mod 4 = 0" "len mod 4 = 0" using True by (simp_all add: word_aligned_def)
  have q: "4 * ?q = unat len" by (rule quarter_exact [OF al(3)])
  obtain k where k: "k \<le> ?q" "takeWhile ?P [0..<?q] = [0..<k]" "list_all ?P [0..<?q] \<longleftrightarrow> k = ?q"
    using takeWhile_upt [of ?q ?P] by blast
  have "fold (copy_word dst src) [0..<k] m = block_copy m dst src (4 * k)"
    using apart k(1) q unat_u32_bound [of len] by (intro copy_forward copy_word_at) auto
  then have "memcpy_guarded ok m dst src len = (k = ?q, block_copy m dst src (4 * k))"
    using True k by (simp add: memcpy_guarded_def copy_until_eq unat_quarter)
  moreover have "k = ?q \<longleftrightarrow> accessible ok dst len \<and> accessible ok src len"
    using k(3) word_wise_block [OF ww al(1,3)] word_wise_block [OF ww al(2,3)]
    by (auto simp: list_all_iff unat_quarter)
  moreover have "k = ?q \<longleftrightarrow> 4 * k = unat len" using q by auto
  ultimately show ?thesis using k(1) q by (intro exI [of _ "4 * k"]) auto
next
  case False
  let ?P = "\<lambda>i. ok (dst + of_nat i) \<and> ok (src + of_nat i)"
  obtain k where k: "k \<le> unat len" "takeWhile ?P [0..<unat len] = [0..<k]" "list_all ?P [0..<unat len] \<longleftrightarrow> k = unat len"
    using takeWhile_upt [of "unat len" ?P] by blast
  have "fold (copy_byte dst src) [0..<k] m = block_copy m dst src (1 * k)"
    using apart k(1) unat_u32_bound [of len] by (intro copy_forward) (auto simp: copy_byte_at)
  then have "memcpy_guarded ok m dst src len = (k = unat len, block_copy m dst src k)"
    using False k by (simp add: memcpy_guarded_def copy_until_eq)
  moreover have "k = unat len \<longleftrightarrow> accessible ok dst len \<and> accessible ok src len"
    using k(3) by (auto simp: list_all_iff accessible_def)
  ultimately show ?thesis using k(1) by blast
qed

definition user_block :: "u32 \<Rightarrow> u32 \<Rightarrow> bool" where
  "user_block p len \<longleftrightarrow> 0 < unat len \<and> unat p + unat len \<le> unat USERSPACETOP"

definition kernel_block :: "u32 \<Rightarrow> u32 \<Rightarrow> bool" where
  "kernel_block p len \<longleftrightarrow> USERSPACETOP \<le> p \<and> unat p + unat len \<le> 2 ^ 32"

lemma user_kernel_apart:
  assumes "user_block u len" and "kernel_block k len"
  shows "unat len \<le> unat (k - u)" and "unat len \<le> unat (u - k)"
  using assms by (auto simp: user_block_def kernel_block_def word_le_nat_alt unat_sub_if' layout_defs)

text \<open>
  How far a protected copy got: \<open>n\<close> bytes are in place, the result says whether that was all, and
  the recovery function is disarmed again.
\<close>

definition copy_outcome :: "u32 \<Rightarrow> u32 \<Rightarrow> u32 \<Rightarrow> bool \<Rightarrow> umem_state \<Rightarrow> (int \<times> umem_state) run \<Rightarrow> bool" where
  "copy_outcome dst src len can s out \<longleftrightarrow>
     (\<exists>n\<le>unat len. out = Ok (if n = unat len then 0 else EFAULT,
          s\<lparr>umem := block_copy (umem s) dst src n, tm_badfaultfunc := False\<rparr>)
        \<and> (n = unat len \<longleftrightarrow> can))"

lemma copycheck_user:
  obtains r stop where "copycheck u len = (r, stop)" and "user_block u len \<longleftrightarrow> r = 0 \<and> stop = len"
    and "r = 0 \<or> r = EFAULT"
proof -
  obtain r stop where c: "copycheck u len = (r, stop)" by fastforce
  have "user_block u len \<longleftrightarrow> r = 0 \<and> stop = len"
    using copycheck_whole [of u len] c by (simp add: user_block_def layout_defs)
  moreover have "r = 0 \<or> r = EFAULT" using c by (auto simp: copycheck_def Let_def split: if_splits)
  ultimately show ?thesis using c that by blast
qed

lemma copyin_spec:
  assumes "word_wise ok" and "kernel_block k len"
  shows "if user_block u len
    then copy_outcome k u len (accessible ok k len \<and> accessible ok u len) s (copyin ok s u k len)
    else copyin ok s u k len = Ok (EFAULT, s)"
proof -
  obtain r stop where c: "copycheck u len = (r, stop)" and u: "user_block u len \<longleftrightarrow> r = 0 \<and> stop = len"
    and r: "r = 0 \<or> r = EFAULT" by (rule copycheck_user)
  show ?thesis
  proof (cases "user_block u len")
    case True
    have ap: "k = u \<or> unat len \<le> unat (k - u)" using user_kernel_apart [OF True assms(2)] by simp
    from memcpy_guarded_spec [OF assms(1) ap, of "umem s"] obtain n where "n \<le> unat len"
      "memcpy_guarded ok (umem s) k u len = (n = unat len, block_copy (umem s) k u n)"
      "n = unat len \<longleftrightarrow> accessible ok k len \<and> accessible ok u len" by blast
    with True u c show ?thesis
      by (auto simp: copyin_def copy_outcome_def copyfail_def EFAULT_def intro!: exI [of _ n])
  next
    case False
    with u r c show ?thesis by (auto simp: copyin_def)
  qed
qed

lemma copyout_spec:
  assumes "word_wise ok" and "kernel_block k len"
  shows "if user_block u len
    then copy_outcome u k len (accessible ok u len \<and> accessible ok k len) s (copyout ok s k u len)
    else copyout ok s k u len = Ok (EFAULT, s)"
proof -
  obtain r stop where c: "copycheck u len = (r, stop)" and u: "user_block u len \<longleftrightarrow> r = 0 \<and> stop = len"
    and r: "r = 0 \<or> r = EFAULT" by (rule copycheck_user)
  show ?thesis
  proof (cases "user_block u len")
    case True
    have ap: "u = k \<or> unat len \<le> unat (u - k)" using user_kernel_apart [OF True assms(2)] by simp
    from memcpy_guarded_spec [OF assms(1) ap, of "umem s"] obtain n where "n \<le> unat len"
      "memcpy_guarded ok (umem s) u k len = (n = unat len, block_copy (umem s) u k n)"
      "n = unat len \<longleftrightarrow> accessible ok u len \<and> accessible ok k len" by blast
    with True u c show ?thesis
      by (auto simp: copyout_def copy_outcome_def copyfail_def EFAULT_def intro!: exI [of _ n])
  next
    case False
    with u r c show ?thesis by (auto simp: copyout_def)
  qed
qed

text \<open>
  The contract of both directions, for a user block at \<open>u\<close> and a kernel block at \<open>k\<close>: \<open>n\<close> bytes have
  arrived at \<open>dst\<close> and nothing else has changed.
\<close>

definition copy_contract ::
    "(u32 \<Rightarrow> bool) \<Rightarrow> u32 \<Rightarrow> u32 \<Rightarrow> u32 \<Rightarrow> u32 \<Rightarrow> u32 \<Rightarrow> umem_state \<Rightarrow> (int \<times> umem_state) run \<Rightarrow> bool" where
  "copy_contract ok dst src u k len s out \<longleftrightarrow>
     (\<exists>r s' n. out = Ok (r, s') \<and> \<not> tm_badfaultfunc s'
      \<and> umem s' = block_copy (umem s) dst src n \<and> n \<le> unat len
      \<and> (r = 0 \<longleftrightarrow> user_block u len \<and> accessible ok k len \<and> accessible ok u len)
      \<and> (r = 0 \<longrightarrow> n = unat len) \<and> (r \<noteq> 0 \<longrightarrow> r = EFAULT) \<and> (\<not> user_block u len \<longrightarrow> n = 0))"

lemma block_copy_none [simp]: "block_copy m d p 0 = m"
  by (simp add: block_copy_def)

text \<open>
  C16: user copies are confined and exact. For a kernel buffer and any user address and length,
  \<open>copyin\<close> and \<open>copyout\<close> return (they never panic) with 0 exactly when the whole user block lies
  below \<open>USERSPACETOP\<close>, is not empty, and every byte can be accessed; then the block is copied
  exactly. Otherwise the result is \<open>EFAULT\<close>: nothing is touched if the address check fails, and a
  prefix of the destination block is all that has changed after a fault. The fault handler is
  disarmed in every case, so a later kernel fault is not mistaken for a user one.
\<close>

theorem user_copies_are_confined:
  assumes "word_wise ok" and "kernel_block k len" and "\<not> tm_badfaultfunc s"
  shows "copy_contract ok k u u k len s (copyin ok s u k len) \<and> copy_contract ok u k u k len s (copyout ok s k u len)"
  using copyin_spec [OF assms(1,2), of u s] copyout_spec [OF assms(1,2), of u s] assms(3)
  by (cases "user_block u len") (auto simp: copy_outcome_def copy_contract_def EFAULT_def)

theorem user_copies_are_confined_witness:
  "\<exists>s'. copyin (\<lambda>_. True) \<lparr>umem = (\<lambda>a. ucast a), tm_badfaultfunc = False\<rparr> 0x1001 0x80002000 3 = Ok (0, s')
     \<and> umem s' 0x80002002 = 3"
proof -
  let ?s = "\<lparr>umem = (\<lambda>a. ucast a), tm_badfaultfunc = False\<rparr> :: umem_state"
  have "user_block 0x1001 3" "kernel_block 0x80002000 3" "word_wise (\<lambda>_. True)"
    by (simp_all add: user_block_def kernel_block_def layout_defs word_wise_def)
  with user_copies_are_confined [of "\<lambda>_. True" "0x80002000" 3 ?s "0x1001"] show ?thesis
    by (auto simp: accessible_def block_copy_def copy_contract_def)
qed

subsection \<open>Strings\<close>

fun peek :: "mem \<Rightarrow> u32 \<Rightarrow> nat \<Rightarrow> u8 list" where
  "peek m a 0 = []"
| "peek m a (Suc n) = m a # peek m (a + 1) n"

lemma length_peek [simp]: "length (peek m a n) = n"
  by (induction n arbitrary: a) simp_all

lemma nth_peek: "i < n \<Longrightarrow> peek m a n ! i = m (a + of_nat i)"
proof (induction n arbitrary: a i)
  case (Suc n)
  then show ?case by (cases i) (simp_all add: add.assoc)
qed simp

lemma peek_upd: "(\<And>j. j < n \<Longrightarrow> p \<noteq> a + of_nat j) \<Longrightarrow> peek (m(p := v)) a n = peek m a n"
proof (induction n arbitrary: a)
  case (Suc n)
  have "p \<noteq> a + 1 + of_nat j" if "j < n" for j using Suc.prems [of "Suc j"] that by (simp add: add.assoc)
  then show ?case using Suc.IH [of "a + 1"] Suc.prems [of 0] by simp
qed simp

text \<open>Copying at most \<open>n\<close> bytes of a string that can be accessed, to a place apart from it.\<close>

lemma copystr_from_spec:
  "(\<And>j. j < n \<Longrightarrow> ok (src + i + of_nat j) \<and> ok (dest + i + of_nat j)) \<Longrightarrow> apart (dest + i) n (src + i) n \<Longrightarrow>
    copystr_from ok dest src n i m =
      (let w = takeWhile (\<lambda>x. x \<noteq> 0) (peek m (src + i) n)
       in if length w < n then (Some (Some (i + of_nat (length w) + 1)), put m (dest + i) (w @ [0]))
          else (Some None, put m (dest + i) w))"
proof (induction n arbitrary: i m)
  case (Suc n)
  let ?m = "m(dest + i := m (src + i))"
  have ok: "ok (src + i)" "ok (dest + i)" using Suc.prems(1) [of 0] by simp_all
  have okn: "ok (src + (i + 1) + of_nat j) \<and> ok (dest + (i + 1) + of_nat j)" if "j < n" for j
    using Suc.prems(1) [of "Suc j"] that by (simp add: add.assoc)
  have ap: "apart (dest + (i + 1)) n (src + (i + 1)) n"
    using apart_step [OF Suc.prems(2)] by (simp add: add.assoc)
  have ne: "dest + i \<noteq> src + i + of_nat j" if "j < Suc n" for j
    using apartD [OF Suc.prems(2), of 0 j] that by simp
  have here: "?m (src + i) = m (src + i)" using ne [of 0] by simp
  have rest: "peek ?m (src + (i + 1)) n = peek m (src + (i + 1)) n"
  proof (rule peek_upd)
    fix j assume "j < n"
    then show "dest + i \<noteq> src + (i + 1) + of_nat j" using ne [of "Suc j"] by (simp add: add.assoc)
  qed
  show ?case
  proof (cases "m (src + i) = 0")
    case True
    then show ?thesis using ok here by (simp add: Let_def)
  next
    case False
    let ?w = "takeWhile (\<lambda>x. x \<noteq> 0) (peek m (src + (i + 1)) n)"
    have src1: "src + i + 1 = src + (i + 1)" "dest + i + 1 = dest + (i + 1)"
      "i + of_nat (Suc k) + 1 = i + 1 + of_nat k + 1" for k by simp_all
    have "copystr_from ok dest src (Suc n) i m = copystr_from ok dest src n (i + 1) ?m"
      using False ok here by (simp add: Let_def)
    also have "\<dots> = (if length ?w < n then (Some (Some (i + 1 + of_nat (length ?w) + 1)), put ?m (dest + (i + 1)) (?w @ [0]))
        else (Some None, put ?m (dest + (i + 1)) ?w))"
      using Suc.IH [OF okn ap, of ?m] by (simp only: rest Let_def)
    finally show ?thesis using False
      unfolding peek.simps Let_def src1 takeWhile.simps put.simps append.simps length_Cons by (simp add: add.assoc)
  qed
qed simp

text \<open>How many bytes of user space a string copy of at most \<open>len\<close> bytes may touch.\<close>

definition str_room :: "u32 \<Rightarrow> u32 \<Rightarrow> nat" where
  "str_room u len = min (unat len) (unat USERSPACETOP - unat u)"

lemma str_room_check:
  assumes "0 < unat len" and "u < USERSPACETOP" and "unat u + unat len \<le> 2 ^ 32"
  obtains stop where "copycheck u len = (0, stop)" and "unat (min len stop) = str_room u len"
    and "stop < len \<longleftrightarrow> str_room u len < unat len"
proof -
  have u: "unat u < 2 ^ 31" using assms(2) by (simp add: word_less_nat_alt layout_defs)
  show ?thesis
  proof (cases "2 ^ 31 < unat u + unat len")
    case True
    have "unat (USERSPACETOP - u) = 2 ^ 31 - unat u" using u by (simp add: unat_sub_if' layout_defs)
    then show ?thesis using True u assms copycheck_block [OF assms(1), of u]
      by (intro that [of "USERSPACETOP - u"]) (auto simp: str_room_def layout_defs min_def word_less_nat_alt word_le_nat_alt)
  next
    case False
    then show ?thesis using u assms copycheck_block [OF assms(1), of u]
      by (intro that [of len]) (auto simp: str_room_def layout_defs min_def)
  qed
qed

definition str_contract :: "u32 \<Rightarrow> u32 \<Rightarrow> nat \<Rightarrow> u32 \<Rightarrow> umem_state \<Rightarrow> (int \<times> u32 option \<times> umem_state) run \<Rightarrow> bool" where
  "str_contract dst src n len s out \<longleftrightarrow>
     (let w = takeWhile (\<lambda>x. x \<noteq> 0) (peek (umem s) src n) in
      \<exists>s'. \<not> tm_badfaultfunc s' \<and>
        (if length w < n
         then out = Ok (0, Some (of_nat (length w) + 1), s') \<and> cstring (umem s') dst w \<and> umem s' = put (umem s) dst (w @ [0])
         else out = Ok (if n < unat len then EFAULT else ENAMETOOLONG, None, s') \<and> umem s' = put (umem s) dst w))"

lemma copystr_contract:
  assumes n: "n = unat (min len stop)"
    and ok: "\<And>j. j < n \<Longrightarrow> ok (src + of_nat j) \<and> ok (dst + of_nat j)" and ap: "apart dst n src n"
    and stop: "stop < len \<longleftrightarrow> n < unat len"
  shows "let w = takeWhile (\<lambda>x. x \<noteq> 0) (peek m src n) in
    copystr ok m dst src len stop =
      (if length w < n then (Some (0, Some (of_nat (length w) + 1)), put m dst (w @ [0]))
       else (Some (if n < unat len then EFAULT else ENAMETOOLONG, None), put m dst w))
    \<and> (length w < n \<longrightarrow> cstring (put m dst (w @ [0])) dst w)"
proof -
  let ?w = "takeWhile (\<lambda>x. x \<noteq> 0) (peek m src n)"
  have "copystr_from ok dst src n 0 m =
      (if length ?w < n then (Some (Some (of_nat (length ?w) + 1)), put m dst (?w @ [0])) else (Some None, put m dst ?w))"
    using copystr_from_spec [of n ok src 0 dst m] ok ap by (simp add: Let_def)
  moreover have "cstring (put m dst (?w @ [0])) dst ?w" if "length ?w < n"
  proof (rule cstring_put)
    show "0 \<notin> set ?w" by (auto dest: set_takeWhileD)
    show "length ?w < 2 ^ 32" using that n unat_u32_bound [of "min len stop"] by linarith
  qed
  ultimately show ?thesis
    unfolding Let_def copystr_def n [symmetric] stop by (cases "length ?w < n") (simp_all only: if_True if_False option.case prod.case simp_thms)
qed

text \<open>
  String copies stay inside their bounds and report why they stopped. With \<open>n\<close> the bytes between
  the user address and the end of user space, at most \<open>len\<close>: if a terminator occurs within them
  the terminated string is in place and its length with the terminator is reported; if not, the
  result is \<open>EFAULT\<close> when user space ended first and \<open>ENAMETOOLONG\<close> when \<open>len\<close> did.
\<close>

theorem string_copies_report_overrun:
  assumes "0 < unat len" and "u < USERSPACETOP" and "unat u + unat len \<le> 2 ^ 32"
    and "\<And>j. j < str_room u len \<Longrightarrow> ok (u + of_nat j) \<and> ok (k + of_nat j)"
    and "apart k (str_room u len) u (str_room u len)" and "apart u (str_room u len) k (str_room u len)"
  shows "str_contract k u (str_room u len) len s (copyinstr ok s u k len)
    \<and> str_contract u k (str_room u len) len s (copyoutstr ok s k u len)"
proof -
  obtain stop where c: "copycheck u len = (0, stop)" "str_room u len = unat (min len stop)"
    "stop < len \<longleftrightarrow> str_room u len < unat len"
    using str_room_check [OF assms(1-3)] by metis
  have "str_contract k u (str_room u len) len s (copyinstr ok s u k len)"
    using copystr_contract [OF c(2) _ assms(5) c(3), of ok "umem s"] assms(4) c(1)
    by (simp add: str_contract_def copyinstr_def Let_def split: if_splits)
  moreover have "str_contract u k (str_room u len) len s (copyoutstr ok s k u len)"
    using copystr_contract [OF c(2) _ assms(6) c(3), of ok "umem s"] assms(4) c(1)
    by (simp add: str_contract_def copyoutstr_def Let_def split: if_splits)
  ultimately show ?thesis ..
qed

theorem string_copies_report_overrun_witness:
  "\<exists>s'. copyinstr (\<lambda>_. True) \<lparr>umem = (\<lambda>a. if a = 0x7fffffff then 65 else 0), tm_badfaultfunc = False\<rparr>
     0x7fffffff 0x80002000 8 = Ok (EFAULT, None, s')"
proof -
  have room: "str_room 0x7fffffff 8 = 1" by (simp add: str_room_def layout_defs)
  have "apart (0x80002000 :: u32) 1 0x7fffffff 1" "apart (0x7fffffff :: u32) 1 0x80002000 1"
    by (auto simp: apart_def le_Suc_eq)
  then show ?thesis
    using string_copies_report_overrun [of 8 "0x7fffffff" "\<lambda>_. True" "0x80002000"
        "\<lparr>umem = (\<lambda>a. if a = 0x7fffffff then 65 else 0), tm_badfaultfunc = False\<rparr>"]
    by (auto simp: room str_contract_def layout_defs)
qed

end
