(* ===== verification/Coremap.thy ===== *)
theory Coremap
  imports Spinlock CopyInOut
begin

text \<open>
  Physical memory: the boot-time allocator (\<^verbatim>\<open>kern/arch/mips/vm/ram.c\<close>), the coremap
  (\<^verbatim>\<open>kern/vm/coremap.c\<close>) and the kernel page allocator over it (\<open>alloc_kpages\<close> and \<open>free_kpages\<close> of
  \<^verbatim>\<open>kern/vm/vm.c\<close>). \<open>kmem\<close> is memory as the kernel sees it through its direct map; \<open>me\<close> is the
  processor the code runs on.
\<close>

named_theorems core_simps \<open>reading updated coremap states\<close>

subsection \<open>State\<close>

definition PAGE_SIZE :: u32 where [layout_defs]: "PAGE_SIZE = 4096"

definition PADDR_TO_KVADDR :: "paddr \<Rightarrow> vaddr" where
  "PADDR_TO_KVADDR pa = pa + MIPS_KSEG0"

datatype frame_state = FREE | USED
datatype frame_owner = NO | KERNEL | USER

text \<open>A coremap entry; the code never reads or writes its \<open>pvictim\<close> field.\<close>

record coremap =
  pa :: paddr
  state :: frame_state
  owner :: frame_owner
  page_num :: int

record core =
  firstpaddr :: paddr
  lastpaddr :: paddr
  page_start :: paddr
  ref :: int
  after_init :: bool
  stealmem_lock :: spinlock
  coremap_size :: int
  coremaps :: "coremap list"
  paddr_max :: paddr
  freeaddr :: paddr
  pvictim :: paddr
  kmem :: mem

subsection \<open>Memory before the coremap\<close>

definition ram_bootstrap :: "u32 \<Rightarrow> vaddr \<Rightarrow> core \<Rightarrow> core" where
  "ram_bootstrap mainbus_ramsize firstfree s =
     (let ramsize = (if mainbus_ramsize > 508 * 1024 * 1024 then 508 * 1024 * 1024 else mainbus_ramsize)
      in s\<lparr>lastpaddr := ramsize, firstpaddr := firstfree - MIPS_KSEG0\<rparr>)"

definition ram_stealmem :: "u32 \<Rightarrow> core \<Rightarrow> paddr \<times> core" where
  "ram_stealmem npages s =
     (let sz = npages * PAGE_SIZE in
      if firstpaddr s + sz > lastpaddr s then (0, s)
      else (firstpaddr s, s\<lparr>firstpaddr := firstpaddr s + sz\<rparr>))"

definition ram_getsize :: "core \<Rightarrow> paddr \<times> paddr \<times> core" where
  "ram_getsize s = (firstpaddr s, lastpaddr s, s\<lparr>firstpaddr := 0, lastpaddr := 0\<rparr>)"

subsection \<open>The coremap\<close>

definition fresh_frame :: "paddr \<Rightarrow> nat \<Rightarrow> coremap" where
  "fresh_frame start i = \<lparr>pa = start + of_nat i * PAGE_SIZE, state = FREE, owner = NO, page_num = 0\<rparr>"

definition init_coremap :: "paddr \<Rightarrow> core \<Rightarrow> core" where
  "init_coremap start s =
     s\<lparr>page_start := start, coremaps := map (fresh_frame start) [0..<nat (coremap_size s)],
       after_init := True, pvictim := 0\<rparr>"

definition lock_core :: "nat \<Rightarrow> core \<Rightarrow> core run" where
  "lock_core me s = bindR (spinlock_acquire me (stealmem_lock s)) (\<lambda>lk. Ok (s\<lparr>stealmem_lock := lk\<rparr>))"

definition unlock_core :: "nat \<Rightarrow> core \<Rightarrow> core run" where
  "unlock_core me s = bindR (spinlock_release me (stealmem_lock s)) (\<lambda>lk. Ok (s\<lparr>stealmem_lock := lk\<rparr>))"

text \<open>Give one frame back and clear it.\<close>

definition release_frame :: "nat \<Rightarrow> core \<Rightarrow> core" where
  "release_frame i s =
     s\<lparr>coremaps := (coremaps s)[i := (coremaps s ! i)\<lparr>state := FREE, page_num := 0, owner := NO\<rparr>],
       kmem := bzero (kmem s) (PADDR_TO_KVADDR (pa (coremaps s ! i))) PAGE_SIZE\<rparr>"

fun reset_loop :: "nat list \<Rightarrow> core \<Rightarrow> core run" where
  "reset_loop [] s = Ok s"
| "reset_loop (i # is) s =
     (if length (coremaps s) \<le> i then Halt Wild
      else reset_loop is (if owner (coremaps s ! i) = USER then release_frame i s else s))"

definition reset_coremap :: "nat \<Rightarrow> core \<Rightarrow> core run" where
  "reset_coremap me s =
     bindR (lock_core me s) (\<lambda>s. bindR (reset_loop [0..<nat (coremap_size s)] s) (unlock_core me))"

fun free_loop :: "nat list \<Rightarrow> core \<Rightarrow> core run" where
  "free_loop [] s = Ok s"
| "free_loop (i # is) s = (if length (coremaps s) \<le> i then Halt Wild else free_loop is (release_frame i s))"

definition freeppages :: "nat \<Rightarrow> paddr \<Rightarrow> core \<Rightarrow> core run" where
  "freeppages me paddr s =
     (let index = unat ((paddr - page_start s) div PAGE_SIZE) in
      if length (coremaps s) \<le> index then Halt Wild
      else
        let psize = page_num (coremaps s ! index) in
        bindR (lock_core me s) (\<lambda>s.
          bindR (free_loop [index..<index + nat psize] s) (unlock_core me)))"

text \<open>
  The search for \<open>npages\<close> free frames in a row: \<open>Inl (i, rpa)\<close> when frame \<open>i\<close> completes a run that
  starts at the address \<open>rpa\<close>, \<open>Inr rpa\<close> when the loop ends without one.
\<close>

fun find_run :: "int \<Rightarrow> coremap list \<Rightarrow> nat \<Rightarrow> int \<Rightarrow> paddr \<Rightarrow> (nat \<times> paddr) + paddr" where
  "find_run npages [] i current_size rpa = Inr rpa"
| "find_run npages (f # fs) i current_size rpa =
     (if state f = FREE then
        let rpa = (if current_size = 0 then pa f else rpa) in
        if current_size + 1 = npages then Inl (i, rpa)
        else find_run npages fs (Suc i) (current_size + 1) rpa
      else find_run npages fs (Suc i) 0 rpa)"

text \<open>Iteration \<open>j\<close> of the marking loop: frame \<open>i - j\<close> is used, and frame \<open>i\<close> records the whole run.\<close>

definition take_frame :: "nat \<Rightarrow> int \<Rightarrow> frame_owner \<Rightarrow> nat \<Rightarrow> coremap list \<Rightarrow> coremap list" where
  "take_frame i p ow j fs =
     (let fs = fs[i - j := (fs ! (i - j))\<lparr>state := USED\<rparr>]
      in fs[i := (fs ! i)\<lparr>page_num := p, owner := ow\<rparr>])"

definition take_run :: "nat \<Rightarrow> nat \<Rightarrow> frame_owner \<Rightarrow> coremap list \<Rightarrow> coremap list" where
  "take_run i npages ow fs = fold (take_frame i (int npages) ow) [0..<npages] fs"

text \<open>The endless search for the next used frame; every lap takes \<open>coremap_size\<close> steps.\<close>

fun next_used :: "nat \<Rightarrow> core \<Rightarrow> int \<Rightarrow> int run" where
  "next_used 0 s index = Halt Spinning"
| "next_used (Suc fuel) s index =
     (let index = (if index \<ge> coremap_size s then 0 else index) in
      if index < 0 \<or> length (coremaps s) \<le> nat index then Halt Wild
      else if state (coremaps s ! nat index) = USED then Ok index
      else next_used fuel s (index + 1))"

definition find_free_frame :: "nat \<Rightarrow> int \<Rightarrow> frame_owner \<Rightarrow> core \<Rightarrow> (paddr \<times> core) run" where
  "find_free_frame me npages ow s =
     (case find_run npages (take (nat (coremap_size s)) (coremaps s)) 0 0 0 of
        Inl (i, rpa) \<Rightarrow>
          Ok (rpa, s\<lparr>coremaps := take_run i (nat npages) ow (coremaps s),
                     ref := (if ref s = -1 then int i else ref s)\<rparr>)
      | Inr rpa \<Rightarrow>
          if after_init s then
            if ref s < 0 \<or> length (coremaps s) \<le> nat (ref s) then Halt Wild
            else
              let rpa = pa (coremaps s ! nat (ref s));
                  s = s\<lparr>pvictim := rpa\<rparr>;
                  index = ref s
              in bindR (freeppages me rpa s) (\<lambda>s.
                   bindR (next_used (2 * nat (coremap_size s) + 1) s index) (\<lambda>index.
                     Ok (rpa, s\<lparr>ref := index\<rparr>)))
          else Ok (rpa, s))"

definition getppages :: "nat \<Rightarrow> u32 \<Rightarrow> frame_owner \<Rightarrow> core \<Rightarrow> (paddr \<times> core) run" where
  "getppages me npages ow s =
     bindR (lock_core me s) (\<lambda>s.
     bindR (if npages > 0 then find_free_frame me (sint npages) ow s else Ok (0, s)) (\<lambda>(addr, s).
       if npages > 0 \<and> addr \<ge> paddr_max s - 4096 then
         bindR (unlock_core me s) (\<lambda>s. Ok (0, s))
       else
         let (addr, s) = (if addr = 0 \<and> \<not> after_init s then ram_stealmem npages s else (addr, s))
         in bindR (unlock_core me s) (\<lambda>s. Ok (addr, s))))"

subsection \<open>Kernel pages\<close>

definition alloc_kpages :: "nat \<Rightarrow> int \<Rightarrow> core \<Rightarrow> (vaddr \<times> core) run" where
  "alloc_kpages me npages s =
     bindR (getppages me (of_int npages) KERNEL s) (\<lambda>(p, s).
       if p = 0 then Ok (0, s) else Ok (PADDR_TO_KVADDR p, s))"

definition free_kpages :: "nat \<Rightarrow> vaddr \<Rightarrow> core \<Rightarrow> core run" where
  "free_kpages me addr s = freeppages me (addr - 0x80000000) s"

subsection \<open>Searching and taking runs of frames\<close>

definition free_run :: "coremap list \<Rightarrow> nat \<Rightarrow> nat \<Rightarrow> bool" where
  "free_run fs a n \<longleftrightarrow> a + n \<le> length fs \<and> (\<forall>j<n. state (fs ! (a + j)) = FREE)"

definition first_run :: "coremap list \<Rightarrow> nat \<Rightarrow> nat \<Rightarrow> bool" where
  "first_run fs a n \<longleftrightarrow> free_run fs a n \<and> (\<forall>b<a. \<not> free_run fs b n)"

lemma free_runD: "free_run fs a n \<Longrightarrow> a \<le> i \<Longrightarrow> i < a + n \<Longrightarrow> state (fs ! i) = FREE"
  unfolding free_run_def by (metis le_add_diff_inverse nat_add_left_cancel_less)

lemma find_run_spec:
  "fs = drop i gs \<Longrightarrow> c \<le> i \<Longrightarrow> c < n \<Longrightarrow> (\<forall>j. i - c \<le> j \<longrightarrow> j < i \<longrightarrow> state (gs ! j) = FREE) \<Longrightarrow>
    (0 < c \<longrightarrow> rpa = pa (gs ! (i - c))) \<Longrightarrow> (\<forall>b<i - c. \<not> free_run gs b n) \<Longrightarrow>
    (case find_run (int n) fs i (int c) rpa of
       Inl (k, r) \<Rightarrow> (\<exists>a. Suc k = a + n \<and> first_run gs a n \<and> r = pa (gs ! a))
     | Inr r \<Rightarrow> (\<forall>b. \<not> free_run gs b n))"
proof (induction fs arbitrary: i c rpa)
  case Nil
  then have "length gs \<le> i" by simp
  have "\<not> free_run gs b n" for b
  proof (cases "b < i - c")
    case False
    then have "length gs < b + n" using \<open>length gs \<le> i\<close> Nil.prems(2,3) by linarith
    then show ?thesis by (simp add: free_run_def)
  qed (use Nil.prems(6) in blast)
  then show ?case by simp
next
  case (Cons f fs)
  have lt: "i < length gs" using Cons.prems(1) by (metis drop_all linorder_not_less list.simps(3))
  then have "drop i gs = gs ! i # drop (Suc i) gs" by (simp add: Cons_nth_drop_Suc)
  then have f: "f = gs ! i" "fs = drop (Suc i) gs" using Cons.prems(1) by auto
  show ?case
  proof (cases "state f = FREE")
    case True
    have run: "\<forall>j. Suc i - Suc c \<le> j \<longrightarrow> j < Suc i \<longrightarrow> state (gs ! j) = FREE"
      using Cons.prems(4) True f(1) by (auto simp: less_Suc_eq)
    have r: "(if c = 0 then pa f else rpa) = pa (gs ! (i - c))" using Cons.prems(5) f(1) by simp
    show ?thesis
    proof (cases "Suc c = n")
      case n: True
      have "free_run gs (i - c) n"
        using run n lt Cons.prems(2) unfolding free_run_def by auto
      then have "first_run gs (i - c) n" using Cons.prems(6) by (simp add: first_run_def)
      moreover have "Suc i = i - c + n" using n Cons.prems(2) by simp
      ultimately show ?thesis using True n r by (auto simp: Let_def)
    next
      case False
      then have "Suc c < n" using Cons.prems(3) by simp
      from Cons.IH [OF f(2), of "Suc c" "pa (gs ! (i - c))", OF _ this run] Cons.prems(2,6)
      have "case find_run (int n) fs (Suc i) (int (Suc c)) (pa (gs ! (i - c))) of
          Inl (k, r) \<Rightarrow> (\<exists>a. Suc k = a + n \<and> first_run gs a n \<and> r = pa (gs ! a))
        | Inr r \<Rightarrow> (\<forall>b. \<not> free_run gs b n)" by simp
      moreover have "find_run (int n) (f # fs) i (int c) rpa = find_run (int n) fs (Suc i) (int (Suc c)) (pa (gs ! (i - c)))"
        using True False r by (auto simp: Let_def add.commute)
      ultimately show ?thesis by simp
    qed
  next
    case False
    have "\<not> free_run gs b n" if "b < Suc i" for b
    proof (cases "b < i - c")
      case ge: False
      then have "i < b + n" using Cons.prems(2,3) by linarith
      with that False f(1) show ?thesis using free_runD [of gs b n i] by auto
    qed (use Cons.prems(6) in blast)
    with Cons.IH [OF f(2), of 0 rpa] Cons.prems(3) False show ?thesis by simp
  qed
qed

lemma find_run_first:
  assumes "0 < n"
  shows "case find_run (int n) fs 0 0 0 of
       Inl (k, r) \<Rightarrow> (\<exists>a. Suc k = a + n \<and> first_run fs a n \<and> r = pa (fs ! a))
     | Inr r \<Rightarrow> (\<forall>b. \<not> free_run fs b n)"
  using find_run_spec [of fs 0 fs 0 n 0] assms by simp

lemma first_run_unique: "first_run fs a n \<Longrightarrow> first_run fs b n \<Longrightarrow> a = b"
  unfolding first_run_def by (meson linorder_neqE_nat)

text \<open>The frames of a run after \<open>take_run\<close>: all used, the last one carrying the length and the owner.\<close>

definition taken :: "nat \<Rightarrow> nat \<Rightarrow> frame_owner \<Rightarrow> coremap list \<Rightarrow> nat \<Rightarrow> coremap" where
  "taken a n ow fs j =
     (if Suc j = a + n then (fs ! j)\<lparr>state := USED, owner := ow, page_num := int n\<rparr>
      else if a \<le> j \<and> j < a + n then (fs ! j)\<lparr>state := USED\<rparr> else fs ! j)"

lemma take_frame_nth:
  assumes "i < length fs"
  shows "length (take_frame i p ow t fs) = length fs"
    and "j < length fs \<Longrightarrow> take_frame i p ow t fs ! j =
      (if j = i then (if t = 0 then (fs ! i)\<lparr>state := USED, owner := ow, page_num := p\<rparr>
                      else if i = 0 then (fs ! i)\<lparr>state := USED, owner := ow, page_num := p\<rparr>
                      else (fs ! i)\<lparr>owner := ow, page_num := p\<rparr>)
       else if j = i - t then (fs ! j)\<lparr>state := USED\<rparr> else fs ! j)"
  using assms by (auto simp: take_frame_def Let_def nth_list_update)

lemma take_run_prefix:
  assumes "i < length fs" and "t \<le> Suc i"
  shows "length (fold (take_frame i p ow) [0..<t] fs) = length fs
    \<and> (\<forall>j<length fs. fold (take_frame i p ow) [0..<t] fs ! j =
        (if j = i \<and> 0 < t then (fs ! j)\<lparr>state := USED, owner := ow, page_num := p\<rparr>
         else if Suc i - t \<le> j \<and> j \<le> i then (fs ! j)\<lparr>state := USED\<rparr> else fs ! j))"
  using assms(2)
proof (induction t)
  case 0
  then show ?case by auto
next
  case (Suc t)
  let ?gs = "fold (take_frame i p ow) [0..<t] fs"
  have len: "length ?gs = length fs" and IH: "\<And>j. j < length fs \<Longrightarrow> ?gs ! j =
        (if j = i \<and> 0 < t then (fs ! j)\<lparr>state := USED, owner := ow, page_num := p\<rparr>
         else if Suc i - t \<le> j \<and> j \<le> i then (fs ! j)\<lparr>state := USED\<rparr> else fs ! j)"
    using Suc by auto
  have "take_frame i p ow t ?gs ! j =
        (if j = i then (fs ! j)\<lparr>state := USED, owner := ow, page_num := p\<rparr>
         else if Suc i - Suc t \<le> j \<and> j \<le> i then (fs ! j)\<lparr>state := USED\<rparr> else fs ! j)" if "j < length fs" for j
  proof (cases "j = i")
    case True
    then show ?thesis using take_frame_nth(2) [of i ?gs j p ow t] that len assms(1) IH [of i] by (auto simp: le_Suc_eq)
  next
    case False
    have "Suc i - Suc t \<le> j \<and> j \<le> i \<longleftrightarrow> j = i - t \<or> (Suc i - t \<le> j \<and> j \<le> i)"
      using Suc.prems False by auto
    then show ?thesis using take_frame_nth(2) [of i ?gs j p ow t] that len assms(1) IH [OF that] False by auto
  qed
  then show ?case using take_frame_nth(1) [of i ?gs p ow t] len assms(1) by simp
qed

lemma take_run_spec:
  assumes "0 < n" and "a + n \<le> length fs" and "Suc i = a + n"
  shows "length (take_run i n ow fs) = length fs"
    and "j < length fs \<Longrightarrow> take_run i n ow fs ! j = taken a n ow fs j"
  using take_run_prefix [where i = i and fs = fs and t = n and p = "int n" and ow = ow] assms
  by (auto simp: take_run_def taken_def)

subsection \<open>Allocation\<close>

definition frame_ok :: "paddr \<Rightarrow> nat \<Rightarrow> coremap \<Rightarrow> bool" where
  "frame_ok start i f \<longleftrightarrow> pa f = start + of_nat i * PAGE_SIZE \<and> 0 \<le> page_num f
     \<and> (state f = FREE \<longrightarrow> page_num f = 0 \<and> owner f = NO)"

definition core_inv :: "core \<Rightarrow> bool" where
  "core_inv s \<longleftrightarrow> after_init s \<and> coremap_size s = int (length (coremaps s))
     \<and> stealmem_lock s = spinlock_init
     \<and> 0 < unat (page_start s) \<and> unat (page_start s) mod 4096 = 0
     \<and> unat (page_start s) + 4096 * length (coremaps s) < 2 ^ 31
     \<and> (\<forall>i<length (coremaps s). frame_ok (page_start s) i (coremaps s ! i))
     \<and> (ref s = -1 \<or> 0 \<le> ref s \<and> nat (ref s) < length (coremaps s))"

definition frame_addr :: "core \<Rightarrow> nat \<Rightarrow> paddr" where
  "frame_addr s i = page_start s + of_nat i * PAGE_SIZE"

lemma unat_frame_addr:
  assumes "core_inv s" and "i < length (coremaps s)"
  shows "unat (frame_addr s i) = unat (page_start s) + 4096 * i"
proof -
  have bound: "unat (page_start s) + 4096 * i < 2 ^ 32" using assms by (auto simp: core_inv_def)
  have "of_nat i * PAGE_SIZE = (of_nat (4096 * i) :: u32)" by (simp add: layout_defs)
  then show ?thesis
    using bound unat_add_of_nat [of "page_start s" "4096 * i"] by (simp add: frame_addr_def)
qed

lemma frame_addr_nonzero: "core_inv s \<Longrightarrow> i < length (coremaps s) \<Longrightarrow> frame_addr s i \<noteq> 0"
  using unat_frame_addr [of s i] by (auto simp: core_inv_def)

lemma frame_index:
  assumes "core_inv s" and "i < length (coremaps s)"
  shows "unat ((frame_addr s i - page_start s) div PAGE_SIZE) = i"
proof -
  have "unat (of_nat (4096 * i) :: u32) = 4096 * i" using assms by (intro unat_of_nat_u32) (auto simp: core_inv_def)
  then show ?thesis by (simp add: frame_addr_def layout_defs unat_div mult.commute)
qed

lemma core_frame: "core_inv s \<Longrightarrow> i < length (coremaps s) \<Longrightarrow> pa (coremaps s ! i) = frame_addr s i"
  by (simp add: core_inv_def frame_ok_def frame_addr_def)

lemma core_lock:
  assumes "core_inv s"
  shows "lock_core me s = Ok (s\<lparr>stealmem_lock := \<lparr>lk_lock = 1, lk_holder = Some me\<rparr>\<rparr>)"
  using assms by (simp add: lock_core_def core_inv_def)

lemma core_unlock:
  assumes "stealmem_lock s = \<lparr>lk_lock = 1, lk_holder = Some me\<rparr>"
  shows "unlock_core me s = Ok (s\<lparr>stealmem_lock := spinlock_init\<rparr>)"
  using assms by (simp add: unlock_core_def)

lemma taken_frame_ok:
  "frame_ok st j (fs ! j) \<Longrightarrow> 0 < n \<Longrightarrow> frame_ok st j (taken a n ow fs j)"
  by (auto simp: taken_def frame_ok_def)

text \<open>The state after taking the run of \<open>n\<close> frames at \<open>a\<close>.\<close>

definition taking :: "nat \<Rightarrow> nat \<Rightarrow> frame_owner \<Rightarrow> core \<Rightarrow> core" where
  "taking a n ow s =
     s\<lparr>coremaps := map (taken a n ow (coremaps s)) [0..<length (coremaps s)],
       ref := (if ref s = -1 then int (a + n - 1) else ref s)\<rparr>"

lemma taking_inv:
  assumes "core_inv s" and "free_run (coremaps s) a n" and "0 < n"
  shows "core_inv (taking a n ow s)"
  using assms by (auto simp: core_inv_def taking_def free_run_def intro: taken_frame_ok)

lemma find_free_frame_run:
  assumes "coremap_size s = int (length (coremaps s))" and "0 < n" and "first_run (coremaps s) a n"
  shows "find_free_frame me (int n) ow s = Ok (pa (coremaps s ! a), taking a n ow s)"
proof -
  have run: "a + n \<le> length (coremaps s)" "free_run (coremaps s) a n"
    using assms(3) by (simp_all add: first_run_def free_run_def)
  from find_run_first [OF assms(2), of "coremaps s"] run(2) first_run_unique [OF assms(3)]
  have found: "find_run (int n) (coremaps s) 0 0 0 = Inl (a + n - 1, pa (coremaps s ! a))"
    by (auto split: sum.splits)
  have "take_run (a + n - 1) n ow (coremaps s) = map (taken a n ow (coremaps s)) [0..<length (coremaps s)]"
    using take_run_spec [OF assms(2) run(1), where i = "a + n - 1" and ow = ow] assms(2) by (intro nth_equalityI) simp_all
  then show ?thesis using assms(1) found by (simp add: find_free_frame_def taking_def)
qed

lemma getppages_run:
  assumes inv: "core_inv s" and n: "0 < unat n" "unat n < 2 ^ 31" and run: "first_run (coremaps s) a (unat n)"
  shows "getppages me n ow s =
    Ok (if frame_addr s a \<ge> paddr_max s - 4096 then 0 else frame_addr s a, taking a (unat n) ow s)"
proof -
  let ?l = "s\<lparr>stealmem_lock := \<lparr>lk_lock = 1, lk_holder = Some me\<rparr>\<rparr>"
  have lt: "a < length (coremaps s)" using run n(1) by (simp add: first_run_def free_run_def)
  have found: "find_free_frame me (sint n) ow ?l = Ok (frame_addr s a, taking a (unat n) ow ?l)"
    using find_free_frame_run [of ?l "unat n" a me ow] inv n run core_frame [OF inv lt]
    by (simp add: sint_small core_inv_def)
  have rel: "unlock_core me (taking a (unat n) ow ?l) = Ok (taking a (unat n) ow s)"
    using inv by (simp add: core_unlock taking_def core_inv_def)
  have "paddr_max (taking a (unat n) ow ?l) = paddr_max s" "after_init (taking a (unat n) ow ?l)"
    using inv by (simp_all add: taking_def core_inv_def)
  then show ?thesis
    using n(1) found rel core_lock [OF inv] by (simp add: getppages_def unat_gt_0 word_gt_0)
qed

text \<open>When no run is left, the frame to be replaced is freed with the coremap lock already held.\<close>

lemma getppages_exhausted:
  assumes inv: "core_inv s" and n: "0 < unat n" "unat n < 2 ^ 31" and none: "\<And>a. \<not> free_run (coremaps s) a (unat n)"
  shows "getppages me n ow s = Halt (if ref s = -1 then Wild else Panicked)"
proof -
  let ?l = "s\<lparr>stealmem_lock := \<lparr>lk_lock = 1, lk_holder = Some me\<rparr>\<rparr>"
  obtain rpa where miss: "find_run (int (unat n)) (coremaps s) 0 0 0 = Inr rpa"
    using find_run_first [OF n(1), of "coremaps s"] none by (auto simp: first_run_def split: sum.splits)
  have sz: "coremap_size s = int (length (coremaps s))" "after_init s" using inv by (simp_all add: core_inv_def)
  have victim: "freeppages me (frame_addr s (nat (ref s))) (?l\<lparr>pvictim := p\<rparr>) = Halt Panicked"
    if "ref s \<noteq> -1" for p
  proof -
    have "nat (ref s) < length (coremaps s)" using inv that by (auto simp: core_inv_def)
    then show ?thesis
      using frame_index [OF inv, of "nat (ref s)"]
      by (simp add: freeppages_def Let_def lock_core_def spinlock_acquire_def)
  qed
  have "find_free_frame me (sint n) ow ?l = Halt (if ref s = -1 then Wild else Panicked)"
  proof (cases "ref s = -1")
    case True
    then show ?thesis using miss sz n by (simp add: find_free_frame_def sint_small)
  next
    case False
    then have r: "0 \<le> ref s" "nat (ref s) < length (coremaps s)" using inv by (auto simp: core_inv_def)
    with False victim core_frame [OF inv r(2)] miss sz n show ?thesis
      by (simp add: find_free_frame_def sint_small Let_def)
  qed
  then show ?thesis using n(1) core_lock [OF inv] by (simp add: getppages_def unat_gt_0 word_gt_0)
qed

lemma first_run_exists: "free_run fs b n \<Longrightarrow> \<exists>a. first_run fs a n"
  using exists_least_iff [of "\<lambda>a. free_run fs a n"] by (auto simp: first_run_def)

lemma getppages_took_run:
  assumes "core_inv s" and "0 < unat n" and "unat n < 2 ^ 31" and "getppages me n ow s = Ok (p, s')"
  obtains a where "first_run (coremaps s) a (unat n)" and "a + unat n \<le> length (coremaps s)"
    and "s' = taking a (unat n) ow s" and "p \<noteq> 0 \<Longrightarrow> p = frame_addr s a" and "core_inv s'"
proof -
  obtain b where "free_run (coremaps s) b (unat n)" using getppages_exhausted [OF assms(1-3), of me ow] assms(4) by fastforce
  then obtain a where run: "first_run (coremaps s) a (unat n)" using first_run_exists by blast
  then have free: "free_run (coremaps s) a (unat n)" "a + unat n \<le> length (coremaps s)"
    by (auto simp: first_run_def free_run_def)
  have "s' = taking a (unat n) ow s" "p \<noteq> 0 \<Longrightarrow> p = frame_addr s a"
    using getppages_run [OF assms(1-3) run, of me ow] assms(4) by (auto split: if_splits)
  then show ?thesis using that run free taking_inv [OF assms(1) free(1) assms(2)] by blast
qed

text \<open>A machine with three managed frames, the first of them at \<open>0x2000\<close>.\<close>

definition small_core :: core where
  "small_core = init_coremap 0x2000
     \<lparr>firstpaddr = 0, lastpaddr = 0, page_start = 0, ref = -1, after_init = False, stealmem_lock = spinlock_init,
      coremap_size = 3, coremaps = [], paddr_max = 0x8000, freeaddr = 0x2000, pvictim = 0, kmem = (\<lambda>_. 1)\<rparr>"

lemma small_core_frames: "coremaps small_core = map (fresh_frame 0x2000) [0, 1, 2]"
  by (simp add: small_core_def init_coremap_def upt_rec numeral_eq_Suc)

lemma small_core_length: "length (coremaps small_core) = 3"
  by (simp add: small_core_frames)

lemma small_core_inv: "core_inv small_core"
  by (auto simp: core_inv_def small_core_def init_coremap_def frame_ok_def fresh_frame_def)

lemma small_core_run: "free_run (coremaps small_core) 0 3"
  by (auto simp: free_run_def small_core_frames fresh_frame_def less_Suc_eq numeral_eq_Suc)

lemma free_run_shorter: "free_run fs a n \<Longrightarrow> m \<le> n \<Longrightarrow> free_run fs a m"
  by (simp add: free_run_def)

lemma small_core_alloc:
  assumes "0 < unat n" and "unat n \<le> 3"
  shows "getppages me n ow small_core = Ok (0x2000, taking 0 (unat n) ow small_core)"
proof -
  have "first_run (coremaps small_core) 0 (unat n)"
    using free_run_shorter [OF small_core_run assms(2)] by (simp add: first_run_def)
  then show ?thesis using getppages_run [OF small_core_inv assms(1), of 0 me ow] assms(2)
    by (simp add: frame_addr_def small_core_def init_coremap_def)
qed

text \<open>
  C21: the coremap hands out free frames and nothing else. A request for \<open>n\<close> frames finds the first
  run of \<open>n\<close> free frames whenever one exists; exactly these frames become used, every other entry
  is untouched, the invariant is kept, and the address returned is that of the first frame of the
  run, or 0 when the run starts in the last page of memory or beyond.
\<close>

theorem getppages_takes_first_free_run:
  assumes "core_inv s" and "0 < unat n" and "unat n < 2 ^ 31" and "free_run (coremaps s) b (unat n)"
  shows "\<exists>a s'. first_run (coremaps s) a (unat n)
    \<and> getppages me n ow s = Ok (if frame_addr s a \<ge> paddr_max s - 4096 then 0 else frame_addr s a, s')
    \<and> core_inv s' \<and> frame_addr s a \<noteq> 0 \<and> length (coremaps s') = length (coremaps s)
    \<and> (\<forall>j<length (coremaps s). state (coremaps s' ! j) = USED \<longleftrightarrow>
          state (coremaps s ! j) = USED \<or> a \<le> j \<and> j < a + unat n)
    \<and> (\<forall>j<length (coremaps s). \<not> (a \<le> j \<and> j < a + unat n) \<longrightarrow> coremaps s' ! j = coremaps s ! j)"
proof -
  obtain a where run: "first_run (coremaps s) a (unat n)" using first_run_exists [OF assms(4)] by blast
  then have free: "free_run (coremaps s) a (unat n)" by (simp add: first_run_def)
  then have lt: "a < length (coremaps s)" using assms(2) by (simp add: free_run_def)
  let ?s = "taking a (unat n) ow s"
  have "coremaps ?s ! j = taken a (unat n) ow (coremaps s) j" if "j < length (coremaps s)" for j
    using that by (simp add: taking_def)
  moreover have "length (coremaps ?s) = length (coremaps s)" by (simp add: taking_def)
  ultimately show ?thesis
    using run getppages_run [OF assms(1-3) run] taking_inv [OF assms(1) free assms(2)] frame_addr_nonzero [OF assms(1) lt] assms(2)
    by (intro exI [of _ a] exI [of _ ?s]) (auto simp: taken_def)
qed

theorem getppages_takes_first_free_run_witness:
  "\<exists>a s'. first_run (coremaps small_core) a 2 \<and> getppages 0 2 KERNEL small_core = Ok (0x2000, s')
     \<and> state (coremaps s' ! a) = USED"
proof -
  have "unat (2 :: u32) = 2" by simp
  with getppages_takes_first_free_run [OF small_core_inv, of 2 0 0 KERNEL] free_run_shorter [OF small_core_run, of 2]
    small_core_alloc [of 2 0 KERNEL] show ?thesis
    by (auto simp: first_run_def free_run_def)
qed

text \<open>
  C22: when memory is full, allocation stops the machine. If no run of \<open>n\<close> free frames is left,
  \<open>getppages\<close> does not fail: it calls \<open>freeppages\<close> for the victim while still holding the coremap
  lock and panics on the recursive acquisition (or indexes the coremap with -1 if nothing was ever
  allocated). The replacement code behind the call is never reached.
\<close>

theorem getppages_deadlocks_when_full:
  assumes "core_inv s" and "0 < unat n" and "unat n < 2 ^ 31" and "\<forall>a. \<not> free_run (coremaps s) a (unat n)"
  shows "getppages me n ow s = Halt (if ref s = -1 then Wild else Panicked)"
  using getppages_exhausted [OF assms(1-3)] assms(4) by simp

theorem getppages_deadlocks_when_full_witness:
  "getppages 0 1 USER (taking 0 3 KERNEL small_core) = Halt Panicked"
proof -
  let ?s = "taking 0 3 KERNEL small_core"
  have "core_inv ?s" using taking_inv [OF small_core_inv small_core_run] by simp
  moreover have "\<not> free_run (coremaps ?s) a 1" for a
    using small_core_length by (auto simp: free_run_def taking_def taken_def)
  moreover have "ref ?s \<noteq> -1" by (simp add: taking_def small_core_def init_coremap_def)
  ultimately show ?thesis using getppages_deadlocks_when_full [of ?s 1 0 USER] by simp
qed

subsection \<open>Freeing\<close>

lemma release_frame_inv:
  assumes "core_inv s" and "i < length (coremaps s)"
  shows "core_inv (release_frame i s)"
  using assms by (auto simp: core_inv_def release_frame_def frame_ok_def nth_list_update)

lemma freeppages_by_count:
  assumes "core_inv s" and "i < length (coremaps s)"
  shows "page_num (coremaps s ! i) = 0 \<Longrightarrow> freeppages me (frame_addr s i) s = Ok s"
    and "page_num (coremaps s ! i) = 1 \<Longrightarrow> freeppages me (frame_addr s i) s = Ok (release_frame i s)"
  using assms core_lock [OF assms(1), of me] frame_index [OF assms]
  by (simp_all add: freeppages_def Let_def core_unlock release_frame_def core_inv_def)

lemma taking_one_released:
  assumes "core_inv s" and "free_run (coremaps s) a 1"
  shows "coremaps (release_frame a (taking a 1 ow s)) = coremaps s"
proof (rule nth_equalityI)
  fix j assume j: "j < length (coremaps (release_frame a (taking a 1 ow s)))"
  have a: "a < length (coremaps s)" "state (coremaps s ! a) = FREE" using assms(2) by (auto simp: free_run_def)
  then have "page_num (coremaps s ! a) = 0" "owner (coremaps s ! a) = NO" using assms(1) by (auto simp: core_inv_def frame_ok_def)
  with a have same: "(coremaps s ! a)\<lparr>state := FREE, page_num := 0, owner := NO\<rparr> = coremaps s ! a" by simp
  show "coremaps (release_frame a (taking a 1 ow s)) ! j = coremaps s ! j"
    using a j same by (cases "j = a") (auto simp: release_frame_def taking_def taken_def)
qed (simp add: release_frame_def taking_def)

text \<open>
  A single page makes the round trip. A page from \<open>getppages 1\<close> given back with \<open>freeppages\<close>
  leaves the coremap as it was before the allocation, with every byte of the page cleared.
\<close>

theorem page_alloc_free_roundtrip:
  assumes "core_inv s" and "getppages me 1 ow s = Ok (p, s')" and "p \<noteq> 0"
  shows "\<exists>s''. freeppages me p s' = Ok s'' \<and> coremaps s'' = coremaps s \<and> core_inv s''
    \<and> (\<forall>x. unat (x - PADDR_TO_KVADDR p) < 4096 \<longrightarrow> kmem s'' x = 0)"
proof -
  obtain a where run: "first_run (coremaps s) a 1" and s': "s' = taking a 1 ow s"
    and p: "p = frame_addr s a" and inv: "core_inv (taking a 1 ow s)"
    using getppages_took_run [OF assms(1) _ _ assms(2)] assms(3) by auto
  then have free: "free_run (coremaps s) a 1" and lt: "a < length (coremaps s)" by (auto simp: first_run_def free_run_def)
  let ?s = "taking a 1 ow s"
  have entry: "a < length (coremaps ?s)" "page_num (coremaps ?s ! a) = 1" "frame_addr ?s a = frame_addr s a"
    using lt by (simp_all add: taking_def taken_def frame_addr_def)
  have "freeppages me p s' = Ok (release_frame a ?s)"
    using freeppages_by_count(2) [OF inv entry(1,2)] entry(3) s' p by simp
  moreover have "pa (coremaps ?s ! a) = p" using core_frame [OF inv entry(1)] entry(3) p by simp
  then have "kmem (release_frame a ?s) x = 0" if "unat (x - PADDR_TO_KVADDR p) < 4096" for x
    using that by (simp add: release_frame_def bzero_at layout_defs)
  ultimately show ?thesis
    using taking_one_released [OF assms(1) free] release_frame_inv [OF inv entry(1)] by blast
qed

theorem page_alloc_free_roundtrip_witness:
  "\<exists>s''. freeppages 0 0x2000 (taking 0 1 USER small_core) = Ok s'' \<and> coremaps s'' = coremaps small_core
     \<and> kmem s'' 0x80002004 = 0"
proof -
  have "\<exists>s''. freeppages 0 0x2000 (taking 0 1 USER small_core) = Ok s'' \<and> coremaps s'' = coremaps small_core
      \<and> core_inv s'' \<and> (\<forall>x. unat (x - PADDR_TO_KVADDR 0x2000) < 4096 \<longrightarrow> kmem s'' x = 0)"
    using small_core_alloc [of 1 0 USER] by (intro page_alloc_free_roundtrip [OF small_core_inv]) simp_all
  then show ?thesis by (auto simp: PADDR_TO_KVADDR_def layout_defs)
qed

text \<open>
  A block of several pages is never given back. \<open>find_free_frame\<close> stores the length of the block
  in its last frame while \<open>freeppages\<close> reads it from the first, where it is still 0: freeing a block
  of two or more pages changes nothing and its frames stay used.
\<close>

theorem block_free_leaks:
  assumes "core_inv s" and "2 \<le> unat n" and "unat n < 2 ^ 31" and "getppages me n ow s = Ok (p, s')" and "p \<noteq> 0"
  shows "freeppages me p s' = Ok s' \<and>
    (\<exists>a. p = frame_addr s a \<and> (\<forall>j<unat n. state (coremaps s' ! (a + j)) = USED))"
proof -
  have n: "0 < unat n" using assms(2) by simp
  obtain a where run: "first_run (coremaps s) a (unat n)" and lt: "a + unat n \<le> length (coremaps s)"
    and s': "s' = taking a (unat n) ow s" and p: "p = frame_addr s a" and inv: "core_inv (taking a (unat n) ow s)"
    using getppages_took_run [OF assms(1) n assms(3,4)] assms(5) by metis
  then have free: "free_run (coremaps s) a (unat n)" by (simp add: first_run_def)
  let ?s = "taking a (unat n) ow s"
  have "state (coremaps s ! a) = FREE" using free_runD [OF free, of a] n by simp
  then have "page_num (coremaps s ! a) = 0" using assms(1) lt n by (auto simp: core_inv_def frame_ok_def)
  then have entry: "a < length (coremaps ?s)" "page_num (coremaps ?s ! a) = 0" "frame_addr ?s a = frame_addr s a"
    using lt assms(2) by (simp_all add: taking_def taken_def frame_addr_def)
  have "freeppages me p s' = Ok s'" using freeppages_by_count(1) [OF inv entry(1,2)] entry(3) s' p by simp
  moreover have "state (coremaps s' ! (a + j)) = USED" if "j < unat n" for j
    using that lt s' by (simp add: taking_def taken_def)
  ultimately show ?thesis using p by blast
qed

theorem block_free_leaks_witness:
  "freeppages 0 0x2000 (taking 0 2 KERNEL small_core) = Ok (taking 0 2 KERNEL small_core)"
  using block_free_leaks [OF small_core_inv, of 2 0 KERNEL "0x2000"] small_core_alloc [of 2 0 KERNEL] by simp

subsection \<open>The page allocator as an interface\<close>

text \<open>
  What a client of single kernel pages relies on: a page it is given is one that nobody holds,
  giving it back is the only way it stops being held, and no other page is written to.
\<close>

locale page_provider =
  fixes ok :: "'s \<Rightarrow> bool"
    and get :: "'s \<Rightarrow> (u32 \<times> 's) run"
    and put_back :: "u32 \<Rightarrow> 's \<Rightarrow> 's run"
    and pages :: "'s \<Rightarrow> u32 set"
    and view :: "'s \<Rightarrow> mem"
  assumes get_page: "ok s \<Longrightarrow> get s = Ok (p, s') \<Longrightarrow> p \<noteq> 0 \<Longrightarrow>
      ok s' \<and> p \<notin> pages s \<and> pages s' = insert p (pages s) \<and> unat p mod 4096 = 0 \<and> view s' = view s"
    and get_none: "ok s \<Longrightarrow> get s = Ok (0, s') \<Longrightarrow> ok s' \<and> pages s \<subseteq> pages s' \<and> view s' = view s"
    and put_page: "ok s \<Longrightarrow> p \<in> pages s \<Longrightarrow> \<exists>s'. put_back p s = Ok s' \<and> ok s' \<and> pages s' = pages s - {p}
      \<and> (\<forall>x. 4096 \<le> unat (x - p) \<longrightarrow> view s' x = view s x)"
begin

text \<open>A client that collects pages holds distinct ones and can give every one of them back.\<close>

fun collect :: "nat \<Rightarrow> 's \<Rightarrow> (u32 list \<times> 's) run" where
  "collect 0 s = Ok ([], s)"
| "collect (Suc n) s = bindR (get s) (\<lambda>(p, s). if p = 0 then Ok ([], s)
      else bindR (collect n s) (\<lambda>(ps, s). Ok (p # ps, s)))"

fun give_back :: "u32 list \<Rightarrow> 's \<Rightarrow> 's run" where
  "give_back [] s = Ok s"
| "give_back (p # ps) s = bindR (put_back p s) (give_back ps)"

lemma collect_distinct:
  "ok s \<Longrightarrow> collect n s = Ok (ps, s') \<Longrightarrow>
    ok s' \<and> distinct ps \<and> set ps \<inter> pages s = {} \<and> pages s \<union> set ps \<subseteq> pages s'"
proof (induction n arbitrary: s ps)
  case (Suc n)
  then obtain p s1 where g: "get s = Ok (p, s1)" by (auto simp: bindR_eq_Ok)
  show ?case
  proof (cases "p = 0")
    case True
    with Suc.prems g get_none show ?thesis by auto
  next
    case False
    with Suc.prems g obtain qs where "collect n s1 = Ok (qs, s')" "ps = p # qs" by (auto simp: bindR_eq_Ok)
    with Suc.IH [of s1 qs] get_page [OF Suc.prems(1) g False] show ?thesis by auto
  qed
qed simp

lemma give_back_all:
  "ok s \<Longrightarrow> distinct ps \<Longrightarrow> set ps \<subseteq> pages s \<Longrightarrow> \<exists>s'. give_back ps s = Ok s' \<and> ok s' \<and> pages s' = pages s - set ps"
proof (induction ps arbitrary: s)
  case (Cons p ps)
  then obtain s1 where s1: "put_back p s = Ok s1" "ok s1" "pages s1 = pages s - {p}" using put_page [of s p] by auto
  then have "set ps \<subseteq> pages s1" using Cons.prems by auto
  with Cons.IH [OF s1(2)] Cons.prems s1 show ?case by auto
qed simp

lemma collect_give_back:
  assumes "ok s" and "collect n s = Ok (ps, s')"
  shows "\<exists>s''. give_back ps s' = Ok s'' \<and> ok s'' \<and> pages s \<subseteq> pages s''"
  using collect_distinct [OF assms] give_back_all [of s' ps] by auto

end

text \<open>The kernel addresses of the frames that \<open>free_kpages\<close> would give back one at a time.\<close>

definition kpages :: "core \<Rightarrow> vaddr set" where
  "kpages s = {PADDR_TO_KVADDR (frame_addr s i) | i. i < length (coremaps s) \<and> page_num (coremaps s ! i) = 1}"

lemma unat_kvaddr:
  assumes "core_inv s" and "i < length (coremaps s)"
  shows "unat (PADDR_TO_KVADDR (frame_addr s i)) = 2 ^ 31 + unat (page_start s) + 4096 * i"
proof -
  have "unat (page_start s) + 4096 * i < 2 ^ 31" using assms by (auto simp: core_inv_def)
  then show ?thesis using unat_frame_addr [OF assms] by (simp add: PADDR_TO_KVADDR_def layout_defs unat_plus_if')
qed

lemma kvaddr_inj:
  "core_inv s \<Longrightarrow> i < length (coremaps s) \<Longrightarrow> j < length (coremaps s) \<Longrightarrow>
    PADDR_TO_KVADDR (frame_addr s i) = PADDR_TO_KVADDR (frame_addr s j) \<longleftrightarrow> i = j"
  using unat_kvaddr [of s i] unat_kvaddr [of s j] by (metis add_left_cancel mult_cancel1 zero_neq_numeral)

lemma kpages_iff:
  "core_inv s \<Longrightarrow> i < length (coremaps s) \<Longrightarrow>
    PADDR_TO_KVADDR (frame_addr s i) \<in> kpages s \<longleftrightarrow> page_num (coremaps s ! i) = 1"
  unfolding kpages_def using kvaddr_inj [of s i] by blast

lemma kpages_cases:
  assumes "p \<in> kpages s"
  obtains i where "i < length (coremaps s)" and "p = PADDR_TO_KVADDR (frame_addr s i)" and "page_num (coremaps s ! i) = 1"
  using assms by (auto simp: kpages_def)

lemma kpages_change:
  assumes "core_inv s" and "i < length (coremaps s)"
    and same: "page_start s' = page_start s" "length (coremaps s') = length (coremaps s)"
    and rest: "\<And>j. j < length (coremaps s) \<Longrightarrow> j \<noteq> i \<Longrightarrow> page_num (coremaps s' ! j) = page_num (coremaps s ! j)"
  shows "page_num (coremaps s' ! i) = 1 \<Longrightarrow> kpages s' = insert (PADDR_TO_KVADDR (frame_addr s i)) (kpages s)"
    and "page_num (coremaps s' ! i) \<noteq> 1 \<Longrightarrow> kpages s' = kpages s - {PADDR_TO_KVADDR (frame_addr s i)}"
proof -
  have fa: "frame_addr s' = frame_addr s" using same(1) by (simp add: frame_addr_def fun_eq_iff)
  let ?kv = "\<lambda>i. PADDR_TO_KVADDR (frame_addr s i)"
  let ?I = "{j. j < length (coremaps s) \<and> page_num (coremaps s ! j) = 1}"
  have img: "kpages s = ?kv ` ?I" "kpages s' = ?kv ` {j. j < length (coremaps s) \<and> page_num (coremaps s' ! j) = 1}"
    unfolding kpages_def fa same(2) by auto
  have inj: "inj_on ?kv {..<length (coremaps s)}" using kvaddr_inj [OF assms(1)] by (auto simp: inj_on_def)
  show "kpages s' = insert (?kv i) (kpages s)" if one: "page_num (coremaps s' ! i) = 1"
  proof -
    have "j < length (coremaps s) \<and> page_num (coremaps s' ! j) = 1 \<longleftrightarrow> j = i \<or> j \<in> ?I" for j
      using one rest [of j] assms(2) by (cases "j = i") auto
    then have "{j. j < length (coremaps s) \<and> page_num (coremaps s' ! j) = 1} = insert i ?I" by auto
    then show ?thesis unfolding img by simp
  qed
  show "kpages s' = kpages s - {?kv i}" if no: "page_num (coremaps s' ! i) \<noteq> 1"
  proof -
    have "j < length (coremaps s) \<and> page_num (coremaps s' ! j) = 1 \<longleftrightarrow> j \<in> ?I - {i}" for j
      using no rest [of j] assms(2) by (cases "j = i") auto
    then have "{j. j < length (coremaps s) \<and> page_num (coremaps s' ! j) = 1} = ?I - {i}" by auto
    moreover have "?kv ` (?I - {i}) = ?kv ` ?I - ?kv ` {i}"
      by (rule inj_on_image_set_diff [OF inj]) (use assms(2) in auto)
    ultimately show ?thesis unfolding img by simp
  qed
qed

lemma alloc_kpages_one:
  assumes "core_inv s" and "alloc_kpages me 1 s = Ok (p, s')"
  obtains a where "s' = taking a 1 KERNEL s" and "a < length (coremaps s)" and "page_num (coremaps s ! a) = 0"
    and "core_inv s'" and "p \<noteq> 0 \<Longrightarrow> p = PADDR_TO_KVADDR (frame_addr s a)"
proof -
  obtain q where q: "getppages me 1 KERNEL s = Ok (q, s')" "p \<noteq> 0 \<Longrightarrow> q \<noteq> 0 \<and> p = PADDR_TO_KVADDR q"
    using assms(2) by (auto simp: alloc_kpages_def bindR_eq_Ok split: if_splits)
  obtain a where a: "first_run (coremaps s) a 1" "a + 1 \<le> length (coremaps s)" "s' = taking a 1 KERNEL s"
    "q \<noteq> 0 \<Longrightarrow> q = frame_addr s a" "core_inv s'"
    using getppages_took_run [OF assms(1) _ _ q(1)] by auto
  have "state (coremaps s ! a) = FREE" using a(1) by (simp add: first_run_def free_run_def)
  then have "page_num (coremaps s ! a) = 0" using assms(1) a(2) by (auto simp: core_inv_def frame_ok_def)
  then show ?thesis using that a q(2) by simp
qed

lemma kpages_taking:
  assumes "core_inv s" and "a < length (coremaps s)"
  shows "kpages (taking a 1 ow s) = insert (PADDR_TO_KVADDR (frame_addr s a)) (kpages s)"
  using assms by (intro kpages_change(1)) (auto simp: taking_def taken_def)

interpretation kp: page_provider core_inv "alloc_kpages me 1" "free_kpages me" kpages kmem for me
proof
  fix s p s' assume a: "core_inv s" "alloc_kpages me 1 s = Ok (p, s')" "p \<noteq> 0"
  from alloc_kpages_one [OF a(1,2)] a(3) obtain i where i: "s' = taking i 1 KERNEL s" "i < length (coremaps s)"
    "page_num (coremaps s ! i) = 0" "core_inv s'" "p = PADDR_TO_KVADDR (frame_addr s i)" by metis
  have "unat p mod 4096 = 0" using unat_kvaddr [OF a(1) i(2)] a(1) i(5) by (auto simp: core_inv_def)
  moreover have "kmem s' = kmem s" using i(1) by (simp add: taking_def)
  ultimately show "core_inv s' \<and> p \<notin> kpages s \<and> kpages s' = insert p (kpages s) \<and> unat p mod 4096 = 0
      \<and> kmem s' = kmem s"
    using i kpages_iff [OF a(1) i(2)] kpages_taking [OF a(1) i(2)] by simp
next
  fix s s' assume a: "core_inv s" "alloc_kpages me 1 s = Ok (0, s')"
  from alloc_kpages_one [OF a] obtain i where i: "s' = taking i 1 KERNEL s" "i < length (coremaps s)" "core_inv s'" by metis
  moreover have "kmem s' = kmem s" using i(1) by (simp add: taking_def)
  ultimately show "core_inv s' \<and> kpages s \<subseteq> kpages s' \<and> kmem s' = kmem s" using kpages_taking [OF a(1) i(2)] by auto
next
  fix s p assume a: "core_inv s" "p \<in> kpages s"
  from kpages_cases [OF a(2)] obtain i where i: "i < length (coremaps s)" "p = PADDR_TO_KVADDR (frame_addr s i)"
    "page_num (coremaps s ! i) = 1" .
  have "free_kpages me p s = Ok (release_frame i s)"
    using freeppages_by_count(2) [OF a(1) i(1,3), of me] i(2) by (simp add: free_kpages_def PADDR_TO_KVADDR_def layout_defs)
  moreover have "kpages (release_frame i s) = kpages s - {p}"
    unfolding i(2) using a(1) i(1) by (intro kpages_change(2)) (auto simp: release_frame_def)
  moreover have "pa (coremaps s ! i) = frame_addr s i" by (rule core_frame [OF a(1) i(1)])
  then have "kmem (release_frame i s) x = kmem s x" if "4096 \<le> unat (x - p)" for x
    using that i(2) by (simp add: release_frame_def bzero_at layout_defs)
  ultimately show "\<exists>s'. free_kpages me p s = Ok s' \<and> core_inv s' \<and> kpages s' = kpages s - {p}
      \<and> (\<forall>x. 4096 \<le> unat (x - p) \<longrightarrow> kmem s' x = kmem s x)"
    using release_frame_inv [OF a(1) i(1)] by blast
qed

end
