(* ===== verification/Bitmap.thy ===== *)
theory Bitmap
  imports Prelude
begin

text \<open>
  Fixed-size bitmaps (\<^verbatim>\<open>kern/lib/bitmap.c\<close>), the free-block map of the file system. Bits are packed
  eight to a byte, as in the source; the leftover bits of the last byte are kept set so that the
  allocator never hands them out. The contract \<open>bit_allocator\<close> is stated over sets of indices
  and is shared with the page-reference allocator of the kernel heap.
\<close>

subsection \<open>The contract of a bit allocator\<close>

locale bit_allocator =
  fixes inv :: "'s \<Rightarrow> bool" and cap :: "'s \<Rightarrow> nat" and used :: "'s \<Rightarrow> nat set"
    and alloc :: "'s \<Rightarrow> (nat \<times> 's) option run" and release :: "'s \<Rightarrow> nat \<Rightarrow> 's run"
  assumes used_cap: "inv s \<Longrightarrow> used s \<subseteq> {..<cap s}"
    and alloc_full: "inv s \<Longrightarrow> used s = {..<cap s} \<Longrightarrow> alloc s = Ok None"
    and alloc_free: "inv s \<Longrightarrow> used s \<noteq> {..<cap s} \<Longrightarrow>
      \<exists>i s'. alloc s = Ok (Some (i, s')) \<and> inv s' \<and> cap s' = cap s \<and> i < cap s \<and> i \<notin> used s
        \<and> {..<i} \<subseteq> used s \<and> used s' = insert i (used s)"
    and release_used: "inv s \<Longrightarrow> i \<in> used s \<Longrightarrow>
      \<exists>s'. release s i = Ok s' \<and> inv s' \<and> cap s' = cap s \<and> used s' = used s - {i}"
begin

lemma alloc_release:
  assumes "inv s" and "alloc s = Ok (Some (i, s'))"
  shows "\<exists>s''. release s' i = Ok s'' \<and> inv s'' \<and> used s'' = used s"
proof -
  have "used s \<noteq> {..<cap s}" using alloc_full [OF assms(1)] assms(2) by auto
  from alloc_free [OF assms(1) this] assms(2)
  have s': "inv s'" "i \<notin> used s" "used s' = insert i (used s)" by auto
  from release_used [OF s'(1), of i] s' show ?thesis by auto
qed

end

fun alloc_many :: "('s \<Rightarrow> (nat \<times> 's) option run) \<Rightarrow> nat \<Rightarrow> 's \<Rightarrow> (nat list \<times> 's) run" where
  "alloc_many alloc 0 s = Ok ([], s)"
| "alloc_many alloc (Suc n) s =
     bindR (alloc s) (\<lambda>r. case r of
         None \<Rightarrow> Ok ([], s)
       | Some (i, s') \<Rightarrow> bindR (alloc_many alloc n s') (\<lambda>(is, t). Ok (i # is, t)))"

context bit_allocator
begin

lemma alloc_many_spec:
  assumes "inv s"
  shows "\<exists>is t. alloc_many alloc n s = Ok (is, t) \<and> inv t \<and> cap t = cap s \<and> distinct is
    \<and> set is \<inter> used s = {} \<and> used t = used s \<union> set is
    \<and> length is = min n (cap s - card (used s))"
  using assms
proof (induction n arbitrary: s)
  case (Suc n)
  show ?case
  proof (cases "used s = {..<cap s}")
    case True
    with alloc_full [OF Suc.prems] Suc.prems show ?thesis by simp
  next
    case False
    from alloc_free [OF Suc.prems this] obtain i s' where s':
      "alloc s = Ok (Some (i, s'))" "inv s'" "cap s' = cap s" "i < cap s" "i \<notin> used s"
      "used s' = insert i (used s)" by blast
    from Suc.IH [OF s'(2)] obtain "is" t where t:
      "alloc_many alloc n s' = Ok (is, t)" "inv t" "cap t = cap s'" "distinct is"
      "set is \<inter> used s' = {}" "used t = used s' \<union> set is"
      "length is = min n (cap s' - card (used s'))" by blast
    have fin: "finite (used s)" using used_cap [OF Suc.prems] finite_subset by blast
    have "used s \<subset> {..<cap s}" using used_cap [OF Suc.prems] False by blast
    then have "card (used s) < cap s"
      using psubset_card_mono [of "{..<cap s}" "used s"] by simp
    moreover have "card (used s') = Suc (card (used s))" using s'(5,6) fin by simp
    ultimately have "length (i # is) = min (Suc n) (cap s - card (used s))"
      using t(7) s'(3) by simp
    moreover have "alloc_many alloc (Suc n) s = Ok (i # is, t)" using s'(1) t(1) by simp
    moreover have "distinct (i # is)" using t(4,5) s'(6) by auto
    moreover have "set (i # is) \<inter> used s = {}" using t(5) s'(5,6) by auto
    moreover have "used t = used s \<union> set (i # is)" using t(6) s'(6) by auto
    moreover have "cap t = cap s" using t(3) s'(3) by simp
    ultimately show ?thesis using t(2) by (intro exI [of _ "i # is"] exI [of _ t] conjI)
  qed
qed simp

end

subsection \<open>The functions of bitmap.c\<close>

record bitmap =
  nbits :: u32
  bm_v :: "u8 list"

definition bits_words :: "u32 \<Rightarrow> u32" where
  "bits_words n = (n + 8 - 1) div 8"

definition bitmap_create :: "bool \<Rightarrow> bool \<Rightarrow> u32 \<Rightarrow> bitmap option run" where
  "bitmap_create got_b got_v n =
     (let words = bits_words n in
      if \<not> got_b then Ok None
      else if \<not> got_v then Ok None
      else
        let v = replicate (unat words) 0 in
        if words > n div 8 then
          let ix = words - 1; overbits = n - ix * 8 in
          kassert (n div 8 = words - 1) (kassert (overbits > 0 \<and> overbits < 8)
            (Ok (Some \<lparr>nbits = n,
                bm_v = v[unat ix := fold (\<lambda>j w. w OR push_bit j 1) [unat overbits..<8] (v ! unat ix)]\<rparr>)))
        else Ok (Some \<lparr>nbits = n, bm_v = v\<rparr>))"

definition bitmap_getdata :: "bitmap \<Rightarrow> u8 list" where
  "bitmap_getdata b = bm_v b"

text \<open>The inner loop of \<open>bitmap_alloc\<close>: the first clear bit of a byte, from \<open>offset\<close> on.\<close>

fun free_offset :: "u8 \<Rightarrow> nat \<Rightarrow> nat \<Rightarrow> nat option" where
  "free_offset w offset 0 = None"
| "free_offset w offset (Suc k) =
     (if w AND push_bit offset 1 = 0 then Some offset else free_offset w (Suc offset) k)"

text \<open>The outer loop, with \<open>k\<close> bytes left from index \<open>ix\<close>.\<close>

fun bitmap_alloc_from :: "bitmap \<Rightarrow> nat \<Rightarrow> nat \<Rightarrow> (int \<times> u32 \<times> bitmap) run" where
  "bitmap_alloc_from b ix 0 = Ok (ENOSPC, 0, b)"
| "bitmap_alloc_from b ix (Suc k) =
     (if ix < length (bm_v b) then
        if bm_v b ! ix \<noteq> 0xff then
          (case free_offset (bm_v b ! ix) 0 8 of
             Some offset \<Rightarrow>
               let b' = b\<lparr>bm_v := (bm_v b)[ix := bm_v b ! ix OR push_bit offset 1]\<rparr>;
                   index = of_nat ix * 8 + of_nat offset
               in kassert (index < nbits b) (Ok (0, index, b'))
           | None \<Rightarrow> Halt Assertion)
        else bitmap_alloc_from b (Suc ix) k
      else Halt Wild)"

definition bitmap_alloc :: "bitmap \<Rightarrow> (int \<times> u32 \<times> bitmap) run" where
  "bitmap_alloc b = bitmap_alloc_from b 0 (unat (bits_words (nbits b)))"

definition bitmap_translate :: "u32 \<Rightarrow> nat \<times> u8" where
  "bitmap_translate bitno = (unat (bitno div 8), push_bit (unat (bitno mod 8)) 1)"

definition bitmap_mark :: "bitmap \<Rightarrow> u32 \<Rightarrow> bitmap run" where
  "bitmap_mark b index =
     kassert (index < nbits b)
       (case bitmap_translate index of (ix, msk) \<Rightarrow>
          if ix < length (bm_v b) then
            kassert (bm_v b ! ix AND msk = 0)
              (Ok (b\<lparr>bm_v := (bm_v b)[ix := bm_v b ! ix OR msk]\<rparr>))
          else Halt Wild)"

definition bitmap_unmark :: "bitmap \<Rightarrow> u32 \<Rightarrow> bitmap run" where
  "bitmap_unmark b index =
     kassert (index < nbits b)
       (case bitmap_translate index of (ix, msk) \<Rightarrow>
          if ix < length (bm_v b) then
            kassert (bm_v b ! ix AND msk \<noteq> 0)
              (Ok (b\<lparr>bm_v := (bm_v b)[ix := bm_v b ! ix AND NOT msk]\<rparr>))
          else Halt Wild)"

definition bitmap_isset :: "bitmap \<Rightarrow> u32 \<Rightarrow> u8 run" where
  "bitmap_isset b index =
     (case bitmap_translate index of (ix, msk) \<Rightarrow>
        if ix < length (bm_v b) then Ok (bm_v b ! ix AND msk) else Halt Wild)"

subsection \<open>Invariant and abstraction\<close>

definition bm_bit :: "bitmap \<Rightarrow> nat \<Rightarrow> bool" where
  "bm_bit b i \<longleftrightarrow> bit (bm_v b ! (i div 8)) (i mod 8)"

definition bm_cap :: "bitmap \<Rightarrow> nat" where
  "bm_cap b = unat (nbits b)"

definition bm_used :: "bitmap \<Rightarrow> nat set" where
  "bm_used b = {i. i < bm_cap b \<and> bm_bit b i}"

definition bitmap_inv :: "bitmap \<Rightarrow> bool" where
  "bitmap_inv b \<longleftrightarrow> bm_cap b \<le> 2 ^ 32 - 8 \<and> length (bm_v b) = (bm_cap b + 7) div 8
     \<and> (\<forall>i. bm_cap b \<le> i \<and> i < 8 * length (bm_v b) \<longrightarrow> bm_bit b i)"

lemma and_pow_eq_0: "(w::u8) AND 2 ^ n = 0 \<longleftrightarrow> \<not> bit w n"
  using bit_iff_and_push_bit_not_eq_0 [of w n] by simp

lemma bit_or_pow: "n < 8 \<Longrightarrow> bit ((w::u8) OR 2 ^ n) j \<longleftrightarrow> bit w j \<or> j = n"
  by (auto simp: bit_or_iff bit_exp_iff)

lemma bit_and_not_pow: "bit ((w::u8) AND NOT (2 ^ n)) j \<longleftrightarrow> bit w j \<and> j \<noteq> n"
  by (auto simp: bit_and_iff bit_not_iff bit_exp_iff dest: bit_imp_le_length)

lemma all_ones: "(w::u8) = 0xff \<longleftrightarrow> (\<forall>j < 8. bit w j)"
proof -
  have "(0xff::u8) = mask 8" by (simp add: mask_eq_exp_minus_1)
  moreover have "w = mask 8 \<longleftrightarrow> (\<forall>j < 8. bit w j)"
  proof
    assume "\<forall>j < 8. bit w j"
    then show "w = mask 8" by (intro bit_word_eqI) (simp add: bit_mask_iff)
  qed (simp add: bit_mask_iff)
  ultimately show ?thesis by simp
qed

lemma free_offset_spec:
  "free_offset w i k = (if \<forall>j \<in> {i..<i + k}. bit w j then None else Some (LEAST j. i \<le> j \<and> \<not> bit w j))"
proof (induction k arbitrary: i)
  case (Suc k)
  show ?case
  proof (cases "bit w i")
    case True
    then have eq: "(\<lambda>j. i \<le> j \<and> \<not> bit w j) = (\<lambda>j. Suc i \<le> j \<and> \<not> bit w j)"
      by (auto simp: fun_eq_iff Suc_le_eq order_le_less)
    have all: "(\<forall>j \<in> {i..<i + Suc k}. bit w j) \<longleftrightarrow> (\<forall>j \<in> {Suc i..<Suc i + k}. bit w j)"
      using True by (auto simp: Suc_le_eq order_le_less)
    have "free_offset w i (Suc k) = free_offset w (Suc i) k"
      using True by (simp add: and_pow_eq_0)
    then show ?thesis unfolding eq all Suc.IH .
  next
    case False
    then have "(LEAST j. i \<le> j \<and> \<not> bit w j) = i" by (intro Least_equality) auto
    moreover have "free_offset w i (Suc k) = Some i" using False by (simp add: and_pow_eq_0)
    moreover have "\<not> (\<forall>j \<in> {i..<i + Suc k}. bit w j)" using False by (intro notI) force
    ultimately show ?thesis by (simp only: if_False)
  qed
qed simp

lemma bits_words_unat:
  assumes "unat n \<le> 2 ^ 32 - 8"
  shows "unat (bits_words n) = (unat n + 7) div 8"
proof -
  have "n + 8 - 1 = n + 7" by simp
  moreover have "unat (n + 7) = unat n + 7" using assms by (simp add: unat_word_ariths)
  ultimately have "unat (bits_words n) = (unat n + 7) div unat (8::u32)"
    by (simp only: bits_words_def unat_div)
  then show ?thesis by simp
qed

lemma bm_index: "n < 8 \<Longrightarrow> (8 * ix + n) div 8 = ix \<and> (8 * ix + n) mod 8 = (n::nat)"
  by simp

lemma bm_bit_set:
  assumes "ix < length (bm_v b)" and "n < 8"
  shows "bm_bit (b\<lparr>bm_v := (bm_v b)[ix := bm_v b ! ix OR 2 ^ n]\<rparr>) i \<longleftrightarrow> bm_bit b i \<or> i = 8 * ix + n"
proof (cases "i div 8 = ix")
  case True
  then have "i = 8 * ix + i mod 8" using mult_div_mod_eq [of 8 i] by simp
  then have "i mod 8 = n \<longleftrightarrow> i = 8 * ix + n" by linarith
  with True assms show ?thesis by (simp add: bm_bit_def bit_or_pow)
next
  case False
  with assms(2) have "i \<noteq> 8 * ix + n" by auto
  with False show ?thesis by (simp add: bm_bit_def)
qed

lemma bm_bit_clear:
  assumes "ix < length (bm_v b)" and "n < 8"
  shows "bm_bit (b\<lparr>bm_v := (bm_v b)[ix := bm_v b ! ix AND NOT (2 ^ n)]\<rparr>) i
    \<longleftrightarrow> bm_bit b i \<and> i \<noteq> 8 * ix + n"
proof (cases "i div 8 = ix")
  case True
  then have "i = 8 * ix + i mod 8" using mult_div_mod_eq [of 8 i] by simp
  then have "i mod 8 = n \<longleftrightarrow> i = 8 * ix + n" by linarith
  with True assms show ?thesis by (simp add: bm_bit_def bit_and_not_pow)
next
  case False
  with assms(2) have "i \<noteq> 8 * ix + n" by auto
  with False show ?thesis by (simp add: bm_bit_def)
qed

lemma bm_byte_full: "bm_v b ! ix = 0xff \<longleftrightarrow> (\<forall>i \<in> {8 * ix..<8 * ix + 8}. bm_bit b i)"
proof
  assume "bm_v b ! ix = 0xff"
  then have all: "\<forall>j < 8. bit (bm_v b ! ix) j" by (simp only: all_ones)
  show "\<forall>i \<in> {8 * ix..<8 * ix + 8}. bm_bit b i"
  proof
    fix i assume "i \<in> {8 * ix..<8 * ix + 8}"
    then have "i div 8 = ix" "i mod 8 < 8" by auto
    with all show "bm_bit b i" by (simp add: bm_bit_def)
  qed
next
  assume all: "\<forall>i \<in> {8 * ix..<8 * ix + 8}. bm_bit b i"
  have "bit (bm_v b ! ix) j" if "j < 8" for j
    using bspec [OF all, of "8 * ix + j"] that bm_index [OF that, of ix] by (simp add: bm_bit_def)
  then show "bm_v b ! ix = 0xff" by (simp only: all_ones) simp
qed

lemma bitmap_alloc_from_spec:
  assumes inv: "bitmap_inv b" and len: "ix + k = length (bm_v b)" and low: "\<forall>i < 8 * ix. bm_bit b i"
  shows "(bitmap_alloc_from b ix k = Ok (ENOSPC, 0, b) \<and> (\<forall>i < 8 * length (bm_v b). bm_bit b i))
    \<or> (\<exists>i b'. bitmap_alloc_from b ix k = Ok (0, of_nat i, b') \<and> i < bm_cap b \<and> \<not> bm_bit b i
        \<and> (\<forall>j < i. bm_bit b j) \<and> nbits b' = nbits b \<and> length (bm_v b') = length (bm_v b)
        \<and> (\<forall>j. bm_bit b' j \<longleftrightarrow> bm_bit b j \<or> j = i))"
  using len low
proof (induction k arbitrary: ix)
  case 0
  then show ?case by simp
next
  case (Suc k)
  then have ix: "ix < length (bm_v b)" by simp
  show ?case
  proof (cases "bm_v b ! ix = 0xff")
    case True
    then have full: "\<forall>i \<in> {8 * ix..<8 * ix + 8}. bm_bit b i" by (simp only: bm_byte_full)
    have "bm_bit b i" if "i < 8 * Suc ix" for i
      using Suc.prems(2) full that by (cases "i < 8 * ix") auto
    then have "\<forall>i < 8 * Suc ix. bm_bit b i" by blast
    have step: "bitmap_alloc_from b ix (Suc k) = bitmap_alloc_from b (Suc ix) k"
      using ix True by simp
    have pre: "Suc ix + k = length (bm_v b)" using Suc.prems(1) by simp
    show ?thesis
      using Suc.IH [OF pre \<open>\<forall>i < 8 * Suc ix. bm_bit b i\<close>] unfolding step .
  next
    case False
    let ?w = "bm_v b ! ix"
    define off where "off = (LEAST j. \<not> bit ?w j)"
    from False obtain j where j: "j < 8" "\<not> bit ?w j" by (auto simp: all_ones)
    have off: "\<not> bit ?w off" "\<forall>j < off. bit ?w j" "off < 8"
      using j LeastI [of "\<lambda>j. \<not> bit ?w j" j] Least_le [of "\<lambda>j. \<not> bit ?w j" j]
      by (auto simp: off_def dest: not_less_Least)
    have fo: "free_offset ?w 0 8 = Some off"
      using j by (auto simp: free_offset_spec off_def)
    let ?i = "8 * ix + off"
    let ?b = "b\<lparr>bm_v := (bm_v b)[ix := ?w OR 2 ^ off]\<rparr>"
    have nb: "\<not> bm_bit b ?i" using off(1,3) by (simp add: bm_bit_def bm_index)
    have low': "\<forall>j < ?i. bm_bit b j"
    proof (intro allI impI)
      fix j assume "j < ?i"
      show "bm_bit b j"
      proof (cases "j < 8 * ix")
        case True with Suc.prems(2) show ?thesis by simp
      next
        case False
        then have "j = 8 * ix + (j - 8 * ix)" "j - 8 * ix < off" using \<open>j < ?i\<close> by auto
        then have "j div 8 = ix" "j mod 8 < off"
          using bm_index [of "j - 8 * ix" ix] off(3) by auto
        with off(2) show ?thesis by (simp add: bm_bit_def)
      qed
    qed
    have cap: "?i < bm_cap b"
    proof (rule ccontr)
      assume "\<not> ?i < bm_cap b"
      moreover have "?i < 8 * length (bm_v b)" using ix off(3) by linarith
      ultimately show False using inv nb by (auto simp: bitmap_inv_def)
    qed
    then have small: "?i < 2 ^ LENGTH(32)" using inv by (simp add: bitmap_inv_def)
    have idx: "of_nat ix * 8 + of_nat off = (of_nat ?i :: u32)" by simp
    have "(of_nat ?i :: u32) < nbits b"
      using cap unat_of_nat_small [OF small] by (simp only: word_less_nat_alt bm_cap_def)
    then have "bitmap_alloc_from b ix (Suc k) = Ok (0, of_nat ?i, ?b)"
      using ix False fo by (simp only: bitmap_alloc_from.simps if_True if_False option.case Let_def
          idx kassert_True push_bit_of_1 simp_thms)
    moreover have "\<forall>j. bm_bit ?b j \<longleftrightarrow> bm_bit b j \<or> j = ?i"
      using bm_bit_set [OF ix off(3)] by blast
    ultimately show ?thesis using cap nb low'
      by (intro disjI2 exI [of _ ?i] exI [of _ ?b]) simp
  qed
qed

lemma bitmap_inv_update:
  assumes "bitmap_inv b" and "nbits b' = nbits b" and "length (bm_v b') = length (bm_v b)"
    and "\<forall>j \<ge> bm_cap b. bm_bit b j \<longrightarrow> bm_bit b' j"
  shows "bitmap_inv b'"
  using assms by (auto simp: bitmap_inv_def bm_cap_def)

lemma bitmap_alloc_spec:
  assumes "bitmap_inv b"
  shows "(bitmap_alloc b = Ok (ENOSPC, 0, b) \<and> bm_used b = {..<bm_cap b})
    \<or> (\<exists>i b'. bitmap_alloc b = Ok (0, of_nat i, b') \<and> i < bm_cap b \<and> i \<notin> bm_used b
        \<and> {..<i} \<subseteq> bm_used b \<and> bitmap_inv b' \<and> bm_cap b' = bm_cap b
        \<and> bm_used b' = insert i (bm_used b))"
proof -
  have len: "0 + unat (bits_words (nbits b)) = length (bm_v b)"
    using assms bits_words_unat [of "nbits b"] by (simp add: bitmap_inv_def bm_cap_def)
  have "bm_cap b \<le> 8 * length (bm_v b)" using assms by (simp add: bitmap_inv_def)
  moreover have "\<forall>i < 8 * 0. bm_bit b i" by simp
  note bitmap_alloc_from_spec [OF assms len this]
  ultimately consider
      (full) "bitmap_alloc b = Ok (ENOSPC, 0, b)" "\<forall>i < bm_cap b. bm_bit b i"
    | (free) i b' where "bitmap_alloc b = Ok (0, of_nat i, b')" "i < bm_cap b" "\<not> bm_bit b i"
        "\<forall>j < i. bm_bit b j" "nbits b' = nbits b" "length (bm_v b') = length (bm_v b)"
        "\<forall>j. bm_bit b' j \<longleftrightarrow> bm_bit b j \<or> j = i"
    unfolding bitmap_alloc_def by fastforce
  then show ?thesis
  proof cases
    case full
    then show ?thesis by (auto simp: bm_used_def)
  next
    case free
    have "bitmap_inv b'" using bitmap_inv_update [OF assms] free(5-7) by blast
    moreover have "bm_used b' = insert i (bm_used b)"
      using free by (auto simp: bm_used_def bm_cap_def)
    moreover have "{..<i} \<subseteq> bm_used b" using free(2,4) by (auto simp: bm_used_def)
    moreover have "bm_cap b' = bm_cap b" using free(5) by (simp add: bm_cap_def)
    moreover have "i \<notin> bm_used b" using free(3) by (simp add: bm_used_def)
    ultimately show ?thesis using free(1,2) by blast
  qed
qed

lemma bitmap_translate_nat:
  "bitmap_translate i = (unat i div 8, 2 ^ (unat i mod 8))"
  by (simp add: bitmap_translate_def unat_div unat_mod)

lemma bm_byte_in_range:
  assumes "bitmap_inv b" and "i < bm_cap b"
  shows "i div 8 < length (bm_v b)"
  using assms by (auto simp: bitmap_inv_def)

lemma bitmap_isset_spec:
  assumes "bitmap_inv b" and "unat i < bm_cap b"
  shows "\<exists>r. bitmap_isset b i = Ok r \<and> (r \<noteq> 0 \<longleftrightarrow> unat i \<in> bm_used b)"
  using assms bm_byte_in_range [OF assms]
  by (simp add: bitmap_isset_def bitmap_translate_nat and_pow_eq_0 bm_used_def bm_bit_def)

lemma bitmap_mark_spec:
  assumes inv: "bitmap_inv b"
  shows "bitmap_mark b i =
    (if unat i < bm_cap b \<and> unat i \<notin> bm_used b
     then Ok (b\<lparr>bm_v := (bm_v b)[unat i div 8 := bm_v b ! (unat i div 8) OR 2 ^ (unat i mod 8)]\<rparr>)
     else Halt Assertion)"
  using bm_byte_in_range [OF inv, of "unat i"]
  by (auto simp: bitmap_mark_def bitmap_translate_nat and_pow_eq_0 bm_used_def bm_bit_def
      bm_cap_def word_less_nat_alt kassert_def)

lemma bitmap_mark_effect:
  assumes inv: "bitmap_inv b" and i: "unat i < bm_cap b" "unat i \<notin> bm_used b"
  shows "\<exists>b'. bitmap_mark b i = Ok b' \<and> bitmap_inv b' \<and> bm_cap b' = bm_cap b
    \<and> bm_used b' = insert (unat i) (bm_used b)"
proof -
  let ?b = "b\<lparr>bm_v := (bm_v b)[unat i div 8 := bm_v b ! (unat i div 8) OR 2 ^ (unat i mod 8)]\<rparr>"
  have bit: "bm_bit ?b j \<longleftrightarrow> bm_bit b j \<or> j = unat i" for j
    using bm_bit_set [OF bm_byte_in_range [OF inv i(1)], of "unat i mod 8" j] by simp
  have "bitmap_inv ?b" using bit by (intro bitmap_inv_update [OF inv]) auto
  moreover have "bm_used ?b = insert (unat i) (bm_used b)"
    using bit i(1) by (auto simp: bm_used_def bm_cap_def)
  ultimately show ?thesis using bitmap_mark_spec [OF inv, of i] i by (simp add: bm_cap_def)
qed

lemma bitmap_unmark_effect:
  assumes inv: "bitmap_inv b" and i: "unat i \<in> bm_used b"
  shows "\<exists>b'. bitmap_unmark b i = Ok b' \<and> bitmap_inv b' \<and> bm_cap b' = bm_cap b
    \<and> bm_used b' = bm_used b - {unat i}"
proof -
  have cap: "unat i < bm_cap b" and set: "bm_bit b (unat i)" using i by (auto simp: bm_used_def)
  let ?b = "b\<lparr>bm_v := (bm_v b)[unat i div 8 := bm_v b ! (unat i div 8) AND NOT (2 ^ (unat i mod 8))]\<rparr>"
  have bit: "bm_bit ?b j \<longleftrightarrow> bm_bit b j \<and> j \<noteq> unat i" for j
    using bm_bit_clear [OF bm_byte_in_range [OF inv cap], of "unat i mod 8" j] by simp
  have "bitmap_unmark b i = Ok ?b"
    using cap set bm_byte_in_range [OF inv cap]
    by (simp add: bitmap_unmark_def bitmap_translate_nat and_pow_eq_0 bm_bit_def bm_cap_def
        word_less_nat_alt)
  moreover have "bitmap_inv ?b" using bit cap by (intro bitmap_inv_update [OF inv]) auto
  moreover have "bm_used ?b = bm_used b - {unat i}" using bit by (auto simp: bm_used_def bm_cap_def)
  ultimately show ?thesis by (simp add: bm_cap_def)
qed

lemma bitmap_unmark_clear:
  assumes "bitmap_inv b" and "unat i \<notin> bm_used b"
  shows "bitmap_unmark b i = Halt Assertion"
  using assms(2) bm_byte_in_range [OF assms(1), of "unat i"]
  by (auto simp: bitmap_unmark_def bitmap_translate_nat and_pow_eq_0 bm_used_def bm_bit_def
      bm_cap_def word_less_nat_alt kassert_def)

subsection \<open>Creation\<close>

lemma bit_fold_or:
  "bit (fold (\<lambda>j w. w OR 2 ^ j) [a..<c] (w::u8)) n \<longleftrightarrow> bit w n \<or> (a \<le> n \<and> n < c \<and> n < 8)"
proof (induction "c - a" arbitrary: a w)
  case (Suc m)
  then have "a < c" by simp
  then have "[a..<c] = a # [Suc a..<c]" by (rule upt_conv_Cons)
  moreover have "bit (w OR 2 ^ a) n \<longleftrightarrow> bit w n \<or> (n = a \<and> n < 8)"
    by (auto simp: bit_or_iff bit_exp_iff)
  moreover have "m = c - Suc a" using Suc.hyps(2) by simp
  ultimately show ?case using Suc.hyps(1) [of "Suc a" "w OR 2 ^ a"] \<open>a < c\<close>
    by (auto simp: Suc_le_eq order_le_less)
qed auto

lemma round_up_exact: "(n::nat) mod 8 = 0 \<Longrightarrow> (n + 7) div 8 = n div 8"
  by (auto elim!: dvdE simp: mod_eq_0_iff_dvd)

lemma round_up_rest:
  assumes "0 < (n::nat) mod 8"
  shows "(n + 7) div 8 = Suc (n div 8)"
proof -
  from assms obtain r where r: "n mod 8 = Suc r" using gr0_implies_Suc by blast
  then have "r < 8" using mod_less_divisor [of 8 n] by simp
  have "n + 7 = r + 8 * Suc (n div 8)" using mult_div_mod_eq [of 8 n] unfolding r by simp
  then have "(n + 7) div 8 = (r + 8 * Suc (n div 8)) div 8" by (rule arg_cong)
  also have "\<dots> = Suc (n div 8)" using \<open>r < 8\<close> by simp
  finally show ?thesis .
qed

lemma bitmap_create_spec:
  assumes n: "unat n \<le> 2 ^ 32 - 8"
  shows "\<exists>b. bitmap_create True True n = Ok (Some b) \<and> nbits b = n \<and> bitmap_inv b \<and> bm_used b = {}"
proof -
  let ?n = "unat n" and ?w = "bits_words n"
  have w: "unat ?w = (?n + 7) div 8" by (rule bits_words_unat [OF n])
  have nd: "unat (n div 8) = ?n div 8" by (simp add: unat_div)
  show ?thesis
  proof (cases "?w > n div 8")
    case False
    then have d: "(?n + 7) div 8 = ?n div 8" using w nd by (auto simp: word_less_nat_alt)
    let ?b = "\<lparr>nbits = n, bm_v = replicate (unat ?w) 0\<rparr>"
    have "8 * (?n div 8) = ?n" using d by linarith
    then have "bitmap_inv ?b" "bm_used ?b = {}"
      using n w d by (auto simp: bitmap_inv_def bm_cap_def bm_used_def bm_bit_def)
    then show ?thesis using False by (simp add: bitmap_create_def Let_def)
  next
    case True
    let ?r = "?n mod 8"
    have r: "0 < ?r" using True w nd round_up_exact [of ?n] by (auto simp: word_less_nat_alt)
    have wq: "(?n + 7) div 8 = Suc (?n div 8)" using r by (rule round_up_rest)
    have wpos: "1 \<le> ?w" using w wq by (simp add: word_le_nat_alt)
    have ix: "unat (?w - 1) = ?n div 8" using w wq wpos by (simp add: unat_sub)
    then have ixw: "?w - 1 = n div 8" using nd by (intro word_eq_of_unat) simp
    have over: "n - n div 8 * 8 = n mod 8" by (rule minus_div_mult_eq_mod)
    have ru: "unat (n mod 8) = ?r" by (simp add: unat_mod)
    let ?v = "(replicate (unat ?w) 0)[?n div 8 := fold (\<lambda>j w. w OR push_bit j 1) [?r..<8] (0::u8)]"
    let ?b = "\<lparr>nbits = n, bm_v = ?v\<rparr>"
    have lt: "?n div 8 < unat ?w" using w wq by simp
    have create: "bitmap_create True True n = Ok (Some ?b)"
      using True r lt by (simp add: bitmap_create_def Let_def over ixw ru nd word_less_nat_alt)
    have bit: "bm_bit ?b i \<longleftrightarrow> ?n \<le> i \<and> i < 8 * unat ?w" if "i < 8 * unat ?w" for i
    proof -
      have "i div 8 < unat ?w" using that by auto
      show ?thesis
      proof (cases "i div 8 = ?n div 8")
        case True
        then have "?n \<le> i \<longleftrightarrow> ?r \<le> i mod 8"
          using mult_div_mod_eq [of 8 i] mult_div_mod_eq [of 8 ?n] by linarith
        with True lt that show ?thesis by (simp add: bm_bit_def bit_fold_or)
      next
        case False
        with \<open>i div 8 < unat ?w\<close> w wq have "i div 8 < ?n div 8" by simp
        then have "i < ?n" by (metis div_le_mono not_less)
        with False \<open>i div 8 < unat ?w\<close> show ?thesis by (simp add: bm_bit_def)
      qed
    qed
    have "bitmap_inv ?b" using bit n w by (auto simp: bitmap_inv_def bm_cap_def)
    moreover have "bm_used ?b = {}"
    proof -
      have "?n \<le> 8 * unat ?w" using w by simp
      then show ?thesis using bit by (auto simp: bm_used_def bm_cap_def)
    qed
    ultimately show ?thesis using create by simp
  qed
qed

subsection \<open>The bitmap as a bit allocator\<close>

definition bm_alloc :: "bitmap \<Rightarrow> (nat \<times> bitmap) option run" where
  "bm_alloc b = bindR (bitmap_alloc b) (\<lambda>(err, i, b'). Ok (if err = 0 then Some (unat i, b') else None))"

definition bm_release :: "bitmap \<Rightarrow> nat \<Rightarrow> bitmap run" where
  "bm_release b i = bitmap_unmark b (of_nat i)"

lemma bm_used_word: "bitmap_inv b \<Longrightarrow> i < bm_cap b \<Longrightarrow> unat (of_nat i :: u32) = i"
  by (intro unat_of_nat_small) (simp add: bitmap_inv_def)

interpretation bm: bit_allocator bitmap_inv bm_cap bm_used bm_alloc bm_release
proof
  fix b assume inv: "bitmap_inv b"
  show "bm_used b \<subseteq> {..<bm_cap b}" by (auto simp: bm_used_def)
  show "bm_alloc b = Ok None" if "bm_used b = {..<bm_cap b}"
  proof -
    have "bitmap_alloc b = Ok (ENOSPC, 0, b)" using bitmap_alloc_spec [OF inv] unfolding that by blast
    then show ?thesis by (simp add: bm_alloc_def ENOSPC_def)
  qed
  show "\<exists>i s'. bm_alloc b = Ok (Some (i, s')) \<and> bitmap_inv s' \<and> bm_cap s' = bm_cap b
      \<and> i < bm_cap b \<and> i \<notin> bm_used b \<and> {..<i} \<subseteq> bm_used b \<and> bm_used s' = insert i (bm_used b)"
    if "bm_used b \<noteq> {..<bm_cap b}"
  proof -
    from bitmap_alloc_spec [OF inv] that obtain i b' where
      "bitmap_alloc b = Ok (0, of_nat i, b')" "i < bm_cap b" "i \<notin> bm_used b" "{..<i} \<subseteq> bm_used b"
      "bitmap_inv b'" "bm_cap b' = bm_cap b" "bm_used b' = insert i (bm_used b)" by blast
    then show ?thesis using bm_used_word [OF inv, of i]
      by (intro exI [of _ i] exI [of _ b']) (simp add: bm_alloc_def)
  qed
  fix i assume "i \<in> bm_used b"
  then have "unat (of_nat i :: u32) = i" using bm_used_word [OF inv] by (auto simp: bm_used_def)
  with \<open>i \<in> bm_used b\<close> bitmap_unmark_effect [OF inv, of "of_nat i"]
  show "\<exists>s'. bm_release b i = Ok s' \<and> bitmap_inv s' \<and> bm_cap s' = bm_cap b \<and> bm_used s' = bm_used b - {i}"
    by (simp add: bm_release_def)
qed

text \<open>
  C12: a fresh bitmap of \<open>n\<close> bits hands out every index below \<open>n\<close> exactly once and then
  reports \<open>ENOSPC\<close>, whatever the padding of its last byte: \<open>k\<close> allocations return
  \<open>min k n\<close> distinct indices below \<open>n\<close>, and those are then the marked bits.
\<close>

theorem bitmap_hands_out_each_bit_once:
  assumes "unat n \<le> 2 ^ 32 - 8"
  shows "\<exists>b is b'. bitmap_create True True n = Ok (Some b) \<and> alloc_many bm_alloc k b = Ok (is, b')
    \<and> distinct is \<and> length is = min k (unat n) \<and> set is \<subseteq> {..<unat n} \<and> bm_used b' = set is
    \<and> (unat n \<le> k \<longrightarrow> bitmap_alloc b' = Ok (ENOSPC, 0, b'))"
proof -
  from bitmap_create_spec [OF assms] obtain b where
    b: "bitmap_create True True n = Ok (Some b)" "nbits b = n" "bitmap_inv b" "bm_used b = {}" by blast
  have cap: "bm_cap b = unat n" using b(2) by (simp add: bm_cap_def)
  from bm.alloc_many_spec [OF b(3), of k] obtain "is" b' where
    t: "alloc_many bm_alloc k b = Ok (is, b')" "bitmap_inv b'" "bm_cap b' = bm_cap b" "distinct is"
      "bm_used b' = bm_used b \<union> set is" "length is = min k (bm_cap b - card (bm_used b))" by blast
  have sub: "set is \<subseteq> {..<unat n}" using bm.used_cap [OF t(2)] t(3,5) cap by auto
  have len: "length is = min k (unat n)" using t(6) b(4) cap by simp
  have "bitmap_alloc b' = Ok (ENOSPC, 0, b')" if "unat n \<le> k"
  proof -
    have "card (set is) = unat n" using len that distinct_card [OF t(4)] by simp
    then have "set is = {..<unat n}" using sub by (intro card_subset_eq) auto
    then have "bm_used b' = {..<bm_cap b'}" using t(3,5) b(4) cap by simp
    then show ?thesis using bitmap_alloc_spec [OF t(2)] by (metis lessThan_iff)
  qed
  moreover have "bm_used b' = set is" using t(5) b(4) by simp
  ultimately show ?thesis using b(1) t(1,4) sub len
    by (intro exI [of _ b] exI [of _ "is"] exI [of _ b'] conjI impI)
qed

theorem bitmap_hands_out_each_bit_once_witness:
  "\<exists>b is b'. bitmap_create True True 13 = Ok (Some b) \<and> alloc_many bm_alloc 20 b = Ok (is, b')
    \<and> distinct is \<and> length is = 13 \<and> set is \<subseteq> {..<13} \<and> bm_used b' = set is
    \<and> bitmap_alloc b' = Ok (ENOSPC, 0, b')"
  using bitmap_hands_out_each_bit_once [of 13 20] by simp

text \<open>
  Marking, unmarking and testing one bit: the tests agree with the marked set, exactly the
  addressed bit changes, marking a marked bit or unmarking a clear one is an assertion failure,
  and the two operations undo each other on the set.
\<close>

theorem bitmap_mark_unmark:
  assumes "bitmap_inv b" and "unat i < bm_cap b"
  shows "(\<exists>r. bitmap_isset b i = Ok r \<and> (r \<noteq> 0 \<longleftrightarrow> unat i \<in> bm_used b))
    \<and> (unat i \<in> bm_used b \<longrightarrow> bitmap_mark b i = Halt Assertion
        \<and> (\<exists>b'. bitmap_unmark b i = Ok b' \<and> bitmap_inv b' \<and> bm_used b' = bm_used b - {unat i}))
    \<and> (unat i \<notin> bm_used b \<longrightarrow> bitmap_unmark b i = Halt Assertion
        \<and> (\<exists>b' b''. bitmap_mark b i = Ok b' \<and> bm_used b' = insert (unat i) (bm_used b)
            \<and> bitmap_unmark b' i = Ok b'' \<and> bitmap_inv b'' \<and> bm_used b'' = bm_used b))"
proof (intro conjI impI)
  show "\<exists>r. bitmap_isset b i = Ok r \<and> (r \<noteq> 0 \<longleftrightarrow> unat i \<in> bm_used b)"
    by (rule bitmap_isset_spec [OF assms])
  show "bitmap_mark b i = Halt Assertion" if "unat i \<in> bm_used b"
    using that bitmap_mark_spec [OF assms(1), of i] by simp
  show "\<exists>b'. bitmap_unmark b i = Ok b' \<and> bitmap_inv b' \<and> bm_used b' = bm_used b - {unat i}"
    if "unat i \<in> bm_used b" using bitmap_unmark_effect [OF assms(1) that] by blast
  show "bitmap_unmark b i = Halt Assertion" if "unat i \<notin> bm_used b"
    by (rule bitmap_unmark_clear [OF assms(1) that])
  show "\<exists>b' b''. bitmap_mark b i = Ok b' \<and> bm_used b' = insert (unat i) (bm_used b)
      \<and> bitmap_unmark b' i = Ok b'' \<and> bitmap_inv b'' \<and> bm_used b'' = bm_used b"
    if "unat i \<notin> bm_used b"
  proof -
    from bitmap_mark_effect [OF assms(1,2) that] obtain b' where
      b': "bitmap_mark b i = Ok b'" "bitmap_inv b'" "bm_used b' = insert (unat i) (bm_used b)" by blast
    from bitmap_unmark_effect [OF b'(2), of i] b'(3) that show ?thesis
      using b'(1) by auto
  qed
qed

theorem bitmap_mark_unmark_witness:
  "\<exists>b. bitmap_create True True 11 = Ok (Some b) \<and> bitmap_inv b \<and> unat (10::u32) < bm_cap b
    \<and> (\<exists>b' b''. bitmap_mark b 10 = Ok b' \<and> bm_used b' = {10}
         \<and> bitmap_unmark b' 10 = Ok b'' \<and> bm_used b'' = {})"
proof -
  from bitmap_create_spec [of 11] obtain b where
    b: "bitmap_create True True 11 = Ok (Some b)" "nbits b = 11" "bitmap_inv b" "bm_used b = {}" by auto
  have "unat (10::u32) < bm_cap b" using b(2) by (simp add: bm_cap_def)
  with bitmap_mark_unmark [OF b(3), of 10] b show ?thesis by auto
qed

end
