(* ===== verification/PageRefs.thy ===== *)
theory PageRefs
  imports Bitmap
begin

text \<open>
  The in-use bits of kmalloc's page references (\<open>allocpageref\<close> and \<open>freepageref\<close> of
  \<^verbatim>\<open>kern/vm/kmalloc.c\<close>): a fixed bitmap of 32-bit words, a second provider of the bit allocator
  interface.
\<close>

definition NPAGEREFS :: nat where "NPAGEREFS = 256"
definition INUSE_WORDS :: nat where "INUSE_WORDS = NPAGEREFS div 32"

text \<open>The bits of one word from bit \<open>j\<close> on; \<open>k\<close> is the mask \<open>1 << j\<close>, zero after the last bit.\<close>

fun free_bit :: "u32 \<Rightarrow> nat \<Rightarrow> nat \<Rightarrow> nat option" where
  "free_bit w j 0 = None"
| "free_bit w j (Suc n) = (if w AND push_bit j 1 = 0 then Some j else free_bit w (Suc j) n)"

fun allocpageref_from :: "nat \<Rightarrow> u32 list \<Rightarrow> (nat \<times> u32 list) option run" where
  "allocpageref_from i [] = Ok None"
| "allocpageref_from i (w # ws) =
     (if w = 0xffffffff then
        bindR (allocpageref_from (Suc i) ws) (\<lambda>r. Ok (case r of None \<Rightarrow> None | Some (n, ws) \<Rightarrow> Some (n, w # ws)))
      else case free_bit w 0 32 of
          Some j \<Rightarrow> Ok (Some (i * 32 + j, (w OR push_bit j 1) # ws))
        | None \<Rightarrow> Halt Assertion)"

definition allocpageref :: "u32 list \<Rightarrow> (nat \<times> u32 list) option run" where
  "allocpageref inuse = allocpageref_from 0 inuse"

definition freepageref :: "u32 list \<Rightarrow> nat \<Rightarrow> u32 list run" where
  "freepageref inuse j =
     kassert (j < NPAGEREFS)
       (let i = j div 32; k = push_bit (j mod 32) (1 :: u32) in
        kassert (inuse ! i AND k \<noteq> 0) (Ok (inuse[i := inuse ! i AND NOT k])))"

definition inuse_ok :: "u32 list \<Rightarrow> bool" where
  "inuse_ok ws \<longleftrightarrow> length ws = INUSE_WORDS"

definition inuse_set :: "u32 list \<Rightarrow> nat set" where
  "inuse_set ws = {n. n < 32 * length ws \<and> bit (ws ! (n div 32)) (n mod 32)}"

lemma mask_bit_zero: "(w :: u32) AND 2 ^ n = 0 \<longleftrightarrow> \<not> bit w n"
  using bit_iff_and_push_bit_not_eq_0 [of w n] by simp

lemma free_bit_None: "free_bit w j n = None \<longleftrightarrow> (\<forall>i. j \<le> i \<longrightarrow> i < j + n \<longrightarrow> bit w i)"
proof (induction n arbitrary: j)
  case (Suc n)
  have "(\<forall>i. j \<le> i \<longrightarrow> i < j + Suc n \<longrightarrow> bit w i) \<longleftrightarrow> bit w j \<and> (\<forall>i. Suc j \<le> i \<longrightarrow> i < Suc j + n \<longrightarrow> bit w i)"
  proof -
    have "{j..<j + Suc n} = insert j {Suc j..<Suc j + n}" 
      by (rule set_eqI) (simp only: atLeastLessThan_iff insert_iff add_Suc add_Suc_right, arith)
    then have "(\<forall>i\<in>{j..<j + Suc n}. bit w i) \<longleftrightarrow> bit w j \<and> (\<forall>i\<in>{Suc j..<Suc j + n}. bit w i)" by simp
    then show ?thesis by (simp only: Ball_def atLeastLessThan_iff imp_conjL)
  qed
  then show ?case using Suc by (simp add: mask_bit_zero)
qed simp

lemma free_bit_Some: "free_bit w j n = Some k \<Longrightarrow> j \<le> k \<and> k < j + n \<and> \<not> bit w k \<and> (\<forall>i. j \<le> i \<longrightarrow> i < k \<longrightarrow> bit w i)"
proof (induction n arbitrary: j)
  case (Suc n)
  show ?case
  proof (cases "bit w j")
    case True
    then have "free_bit w (Suc j) n = Some k" using Suc.prems by (simp add: mask_bit_zero)
    from Suc.IH [OF this] True show ?thesis by (auto simp: Suc_le_eq) (metis le_neq_implies_less)
  next
    case False
    with Suc.prems show ?thesis by (simp add: mask_bit_zero)
  qed
qed simp

lemma full_word: "(w :: u32) = 0xffffffff \<longleftrightarrow> (\<forall>j<32. bit w j)"
proof -
  have "(0xffffffff :: u32) = mask 32" by (simp add: mask_eq_exp_minus_1)
  moreover have "w = mask 32 \<longleftrightarrow> (\<forall>j<32. bit w j)"
    by (auto simp: bit_mask_iff intro!: bit_word_eqI)
  ultimately show ?thesis by simp
qed

lemma inuse_Cons:
  "n \<in> inuse_set (w # ws) \<longleftrightarrow> (if n < 32 then bit w n else n - 32 \<in> inuse_set ws)"
proof (cases "n < 32")
  case False
  then obtain m where "n = m + 32" by (metis le_add_diff_inverse2 linorder_not_less)
  moreover have "(m + 32) div 32 = Suc (m div 32)" by simp
  ultimately show ?thesis by (simp add: inuse_set_def)
qed (simp add: inuse_set_def)

lemma bit_set_one: "j < 32 \<Longrightarrow> bit ((w :: u32) OR 2 ^ j) n \<longleftrightarrow> bit w n \<or> n = j"
  by (auto simp: bit_or_iff bit_exp_iff)

lemma allocpageref_from_spec:
  "if \<forall>n<32 * length ws. n \<in> inuse_set ws then allocpageref_from i ws = Ok None
   else \<exists>n ws'. allocpageref_from i ws = Ok (Some (32 * i + n, ws')) \<and> n < 32 * length ws \<and> n \<notin> inuse_set ws
     \<and> (\<forall>m<n. m \<in> inuse_set ws) \<and> length ws' = length ws \<and> inuse_set ws' = insert n (inuse_set ws)"
proof (induction ws arbitrary: i)
  case Nil
  then show ?case by simp
next
  case (Cons w ws)
  show ?case
  proof (cases "w = 0xffffffff")
    case full: True
    then have low: "n \<in> inuse_set (w # ws)" if "n < 32" for n using that full_word [of w] by (simp add: inuse_Cons)
    have all: "(\<forall>n<32 * length (w # ws). n \<in> inuse_set (w # ws)) \<longleftrightarrow> (\<forall>n<32 * length ws. n \<in> inuse_set ws)"
    proof
      assume a: "\<forall>n<32 * length (w # ws). n \<in> inuse_set (w # ws)"
      show "\<forall>n<32 * length ws. n \<in> inuse_set ws"
        using a [rule_format, of "_ + 32"] by (auto simp: inuse_Cons)
    qed (use low in \<open>auto simp: inuse_Cons\<close>)
    show ?thesis
    proof (cases "\<forall>n<32 * length ws. n \<in> inuse_set ws")
      case True
      then show ?thesis using Cons [of "Suc i"] full all by simp
    next
      case False
      then obtain n ws' where n: "allocpageref_from (Suc i) ws = Ok (Some (32 * Suc i + n, ws'))" "n < 32 * length ws"
        "n \<notin> inuse_set ws" "\<forall>m<n. m \<in> inuse_set ws" "length ws' = length ws" "inuse_set ws' = insert n (inuse_set ws)"
        using Cons [of "Suc i"] by (simp only: if_False) blast
      have "inuse_set (w # ws') = insert (n + 32) (inuse_set (w # ws))"
      proof (rule set_eqI)
        fix x
        show "x \<in> inuse_set (w # ws') \<longleftrightarrow> x \<in> insert (n + 32) (inuse_set (w # ws))"
          using n(6) full_word [of w] full by (cases "x < 32") (auto simp: inuse_Cons)
      qed
      moreover have "\<forall>m<n + 32. m \<in> inuse_set (w # ws)" using n(4) low by (auto simp: inuse_Cons)
      moreover have "n + 32 \<notin> inuse_set (w # ws)" using n(3) by (simp add: inuse_Cons)
      moreover have "allocpageref_from i (w # ws) = Ok (Some (32 * i + (n + 32), w # ws'))"
        using full n(1) by simp
      ultimately show ?thesis using False all n(2,5) by (auto intro!: exI [of _ "n + 32"])
    qed
  next
    case False
    then obtain j where j: "free_bit w 0 32 = Some j" using full_word [of w] free_bit_None [of w 0 32] by (cases "free_bit w 0 32") auto
    then have js: "j < 32" "\<not> bit w j" "\<forall>m<j. bit w m" using free_bit_Some [OF j] by auto
    have "inuse_set ((w OR 2 ^ j) # ws) = insert j (inuse_set (w # ws))"
    proof (rule set_eqI)
      fix x
      show "x \<in> inuse_set ((w OR 2 ^ j) # ws) \<longleftrightarrow> x \<in> insert j (inuse_set (w # ws))"
        using js(1) by (cases "x < 32") (auto simp: inuse_Cons bit_set_one)
    qed
    moreover have "j \<notin> inuse_set (w # ws)" "\<forall>m<j. m \<in> inuse_set (w # ws)" using js by (auto simp: inuse_Cons)
    moreover have "allocpageref_from i (w # ws) = Ok (Some (32 * i + j, (w OR 2 ^ j) # ws))"
      using False j by simp
    moreover have "\<not> (\<forall>n<32 * length (w # ws). n \<in> inuse_set (w # ws))"
      using calculation(2) js(1) by (auto intro!: exI [of _ j])
    ultimately show ?thesis using js(1) by (auto intro!: exI [of _ j])
  qed
qed

lemma freepageref_spec:
  assumes "inuse_ok ws" and "j \<in> inuse_set ws"
  shows "\<exists>ws'. freepageref ws j = Ok ws' \<and> inuse_ok ws' \<and> inuse_set ws' = inuse_set ws - {j}"
proof -
  let ?i = "j div 32"
  let ?k = "2 ^ (j mod 32) :: u32"
  have len: "length ws = 8" using assms(1) by (simp add: inuse_ok_def INUSE_WORDS_def NPAGEREFS_def)
  have j: "j < 256" "bit (ws ! ?i) (j mod 32)" using assms(2) len by (auto simp: inuse_set_def)
  have run: "freepageref ws j = Ok (ws[?i := ws ! ?i AND NOT ?k])"
    using j mask_bit_zero [of "ws ! ?i" "j mod 32"] by (simp add: freepageref_def NPAGEREFS_def Let_def)
  have clear: "bit (ws ! ?i AND NOT ?k) n \<longleftrightarrow> bit (ws ! ?i) n \<and> n \<noteq> j mod 32" for n
    by (auto simp: bit_and_iff bit_not_iff bit_exp_iff dest: bit_imp_le_length)
  have "n \<in> inuse_set (ws[?i := ws ! ?i AND NOT ?k]) \<longleftrightarrow> n \<in> inuse_set ws - {j}" for n
  proof (cases "n div 32 = ?i")
    case True
    then have "n mod 32 = j mod 32 \<longleftrightarrow> n = j" by (metis div_mult_mod_eq)
    with True clear j len show ?thesis by (auto simp: inuse_set_def nth_list_update)
  next
    case False
    then show ?thesis by (auto simp: inuse_set_def nth_list_update)
  qed
  then have "inuse_set (ws[?i := ws ! ?i AND NOT ?k]) = inuse_set ws - {j}" by (rule set_eqI)
  with run assms(1) show ?thesis by (simp add: inuse_ok_def)
qed

interpretation pr: bit_allocator inuse_ok "\<lambda>ws. 32 * length ws" inuse_set allocpageref freepageref
proof
  fix ws assume ok: "inuse_ok ws"
  show "inuse_set ws \<subseteq> {..<32 * length ws}" by (auto simp: inuse_set_def)
  show "allocpageref ws = Ok None" if "inuse_set ws = {..<32 * length ws}"
    using allocpageref_from_spec [of ws 0] that by (simp add: allocpageref_def)
  show "\<exists>i s'. allocpageref ws = Ok (Some (i, s')) \<and> inuse_ok s' \<and> 32 * length s' = 32 * length ws
      \<and> i < 32 * length ws \<and> i \<notin> inuse_set ws \<and> {..<i} \<subseteq> inuse_set ws \<and> inuse_set s' = insert i (inuse_set ws)"
    if "inuse_set ws \<noteq> {..<32 * length ws}"
  proof -
    have "\<not> (\<forall>n<32 * length ws. n \<in> inuse_set ws)" using that by (auto simp: inuse_set_def)
    with allocpageref_from_spec [of ws 0] obtain n ws' where
      "allocpageref_from 0 ws = Ok (Some (32 * 0 + n, ws'))" "n < 32 * length ws" "n \<notin> inuse_set ws"
      "\<forall>m<n. m \<in> inuse_set ws" "length ws' = length ws" "inuse_set ws' = insert n (inuse_set ws)"
      by (simp only: if_False) blast
    then show ?thesis using ok by (auto simp: allocpageref_def inuse_ok_def)
  qed
next
  fix ws i assume "inuse_ok ws" "i \<in> inuse_set ws"
  from freepageref_spec [OF this] this(1)
  show "\<exists>s'. freepageref ws i = Ok s' \<and> inuse_ok s' \<and> 32 * length s' = 32 * length ws \<and> inuse_set s' = inuse_set ws - {i}"
    by (auto simp: inuse_ok_def)
qed

end
