(* ===== verification/Kmalloc.thy ===== *)
theory Kmalloc
  imports Coremap PageRefs
begin

text \<open>
  The kernel heap (\<^verbatim>\<open>kern/vm/kmalloc.c\<close>): pages cut into blocks of one of eight sizes, a free list in
  the first words of the free blocks of each page, and two linked lists of page references. Page
  references are indices into the array \<open>pagerefs\<close>; the free lists live in kernel memory, which is
  the \<open>kmem\<close> of the physical memory \<open>phys\<close> the pages come from. The consistency checks that
  \<open>SLOW\<close> and \<open>SLOWER\<close> would add are compiled out in the source.
\<close>

subsection \<open>State\<close>

definition PAGE_FRAME :: u32 where [layout_defs]: "PAGE_FRAME = 0xfffff000"

definition NSIZES :: nat where "NSIZES = 8"

definition sizes :: "u32 list" where
  "sizes = [16, 32, 64, 128, 256, 512, 1024, 2048]"

definition LARGEST_SUBPAGE_SIZE :: u32 where "LARGEST_SUBPAGE_SIZE = 2048"

definition INVALID_OFFSET :: u16 where "INVALID_OFFSET = 0xffff"

record pageref =
  next_samesize :: "nat option"
  next_all :: "nat option"
  pageaddr_and_blocktype :: u32
  freelist_offset :: u16
  nfree :: u16

definition PR_PAGEADDR :: "pageref \<Rightarrow> vaddr" where
  "PR_PAGEADDR pr = pageaddr_and_blocktype pr AND PAGE_FRAME"

definition PR_BLOCKTYPE :: "pageref \<Rightarrow> u32" where
  "PR_BLOCKTYPE pr = pageaddr_and_blocktype pr AND NOT PAGE_FRAME"

definition MKPAB :: "vaddr \<Rightarrow> u32 \<Rightarrow> u32" where
  "MKPAB pgaddr blk = (pgaddr AND PAGE_FRAME) OR (blk AND NOT PAGE_FRAME)"

record kheap =
  pagerefs :: "nat \<Rightarrow> pageref"
  pagerefs_inuse :: "u32 list"
  sizebases :: "nat \<Rightarrow> nat option"
  allbase :: "nat option"
  kmalloc_spinlock :: spinlock
  phys :: core

abbreviation hmem :: "kheap \<Rightarrow> mem" where
  "hmem h \<equiv> kmem (phys h)"

definition set_hmem :: "mem \<Rightarrow> kheap \<Rightarrow> kheap" where
  "set_hmem m h = h\<lparr>phys := (phys h)\<lparr>kmem := m\<rparr>\<rparr>"

definition set_ref :: "nat \<Rightarrow> pageref \<Rightarrow> kheap \<Rightarrow> kheap" where
  "set_ref p pr h = h\<lparr>pagerefs := (pagerefs h)(p := pr)\<rparr>"

definition lock_heap :: "nat \<Rightarrow> kheap \<Rightarrow> kheap run" where
  "lock_heap me h = bindR (spinlock_acquire me (kmalloc_spinlock h)) (\<lambda>lk. Ok (h\<lparr>kmalloc_spinlock := lk\<rparr>))"

definition unlock_heap :: "nat \<Rightarrow> kheap \<Rightarrow> kheap run" where
  "unlock_heap me h = bindR (spinlock_release me (kmalloc_spinlock h)) (\<lambda>lk. Ok (h\<lparr>kmalloc_spinlock := lk\<rparr>))"

subsection \<open>Allocation\<close>

fun fill_deadbeef_loop :: "u32 \<Rightarrow> nat list \<Rightarrow> mem \<Rightarrow> mem" where
  "fill_deadbeef_loop ptr [] m = m"
| "fill_deadbeef_loop ptr (i # is) m = fill_deadbeef_loop ptr is (store32 m (ptr + 4 * of_nat i) 0xdeadbeef)"

definition fill_deadbeef :: "mem \<Rightarrow> u32 \<Rightarrow> u32 \<Rightarrow> mem" where
  "fill_deadbeef m ptr len = fill_deadbeef_loop ptr [0..<unat (len div 4)] m"

fun blocktype_from :: "u32 \<Rightarrow> nat \<Rightarrow> u32 list \<Rightarrow> nat run" where
  "blocktype_from sz i [] = Halt Panicked"
| "blocktype_from sz i (k # ks) = (if sz \<le> k then Ok i else blocktype_from sz (Suc i) ks)"

definition blocktype :: "u32 \<Rightarrow> nat run" where
  "blocktype sz = blocktype_from sz 0 sizes"

text \<open>The walk along the pages of one size; a list is at most \<open>NPAGEREFS\<close> long.\<close>

fun find_page :: "nat \<Rightarrow> kheap \<Rightarrow> nat \<Rightarrow> nat option \<Rightarrow> nat option run" where
  "find_page fuel h blk None = Ok None"
| "find_page 0 h blk (Some p) = Halt Spinning"
| "find_page (Suc fuel) h blk (Some p) =
     kassert (PR_BLOCKTYPE (pagerefs h p) = of_nat blk)
       (if nfree (pagerefs h p) > 0 then Ok (Some p)
        else find_page fuel h blk (next_samesize (pagerefs h p)))"

definition doalloc :: "nat \<Rightarrow> nat \<Rightarrow> kheap \<Rightarrow> (vaddr \<times> kheap) run" where
  "doalloc me p h =
     (let pr = pagerefs h p in
      kassert (ucast (freelist_offset pr) < PAGE_SIZE)
        (let prpage = PR_PAGEADDR pr;
             fla = prpage + ucast (freelist_offset pr);
             retptr = fla;
             fl = load32 (hmem h) fla;
             pr = pr\<lparr>nfree := nfree pr - 1\<rparr>
         in bindR
              (if fl \<noteq> 0 then
                 kassert (nfree pr > 0) (kassert (fl - prpage < PAGE_SIZE)
                   (Ok (pr\<lparr>freelist_offset := ucast (fl - prpage)\<rparr>)))
               else kassert (nfree pr = 0) (Ok (pr\<lparr>freelist_offset := INVALID_OFFSET\<rparr>)))
              (\<lambda>pr. bindR (unlock_heap me (set_ref p pr h)) (\<lambda>h. Ok (retptr, h)))))"

fun build_freelist :: "vaddr \<Rightarrow> u32 \<Rightarrow> nat list \<Rightarrow> vaddr \<Rightarrow> mem \<Rightarrow> (vaddr \<times> mem) run" where
  "build_freelist fla sz [] fl m = Ok (fl, m)"
| "build_freelist fla sz (i # is) fl m =
     (let fl = fla + of_nat i * sz;
          m = store32 m fl (fla + of_nat (i - 1) * sz)
      in kassert (fl \<noteq> load32 m fl) (build_freelist fla sz is fl m))"

text \<open>A fresh page \<open>prpage\<close> becomes the page of reference \<open>p\<close> with all its blocks on the free list.\<close>

definition init_page :: "nat \<Rightarrow> nat \<Rightarrow> vaddr \<Rightarrow> kheap \<Rightarrow> kheap run" where
  "init_page p blk prpage h =
     (let sz = sizes ! blk;
          pr = (pagerefs h p)\<lparr>pageaddr_and_blocktype := MKPAB prpage (of_nat blk), nfree := ucast (PAGE_SIZE div sz)\<rparr>
      in bindR (build_freelist prpage sz [1..<unat (nfree pr)] prpage (store32 (hmem h) prpage 0)) (\<lambda>(fl, m).
           let pr = pr\<lparr>freelist_offset := ucast (fl - prpage)\<rparr>
           in kassert (ucast (freelist_offset pr) = (ucast (nfree pr) - 1) * sz)
                (let pr = pr\<lparr>next_samesize := sizebases h blk, next_all := allbase h\<rparr>
                 in Ok ((set_ref p pr (set_hmem m h))
                          \<lparr>sizebases := (sizebases h)(blk := Some p), allbase := Some p\<rparr>))))"

definition subpage_kmalloc :: "nat \<Rightarrow> u32 \<Rightarrow> kheap \<Rightarrow> (vaddr \<times> kheap) run" where
  "subpage_kmalloc me sz h =
     bindR (blocktype sz) (\<lambda>blk.
     bindR (lock_heap me h) (\<lambda>h.
     bindR (find_page NPAGEREFS h blk (sizebases h blk)) (\<lambda>r.
       case r of
         Some p \<Rightarrow> doalloc me p h
       | None \<Rightarrow>
           bindR (unlock_heap me h) (\<lambda>h.
           bindR (alloc_kpages me 1 (phys h)) (\<lambda>(prpage, c).
             let h = h\<lparr>phys := c\<rparr> in
             if prpage = 0 then Ok (0, h)
             else
               bindR (lock_heap me h) (\<lambda>h.
               bindR (allocpageref (pagerefs_inuse h)) (\<lambda>r.
                 case r of
                   None \<Rightarrow>
                     bindR (unlock_heap me h) (\<lambda>h.
                     bindR (free_kpages me prpage (phys h)) (\<lambda>c. Ok (0, h\<lparr>phys := c\<rparr>)))
                 | Some (p, inuse) \<Rightarrow>
                     bindR (init_page p blk prpage (h\<lparr>pagerefs_inuse := inuse\<rparr>)) (doalloc me p))))))))"

subsection \<open>Freeing\<close>

text \<open>
  Removal from a singly linked list through a pointer to the current link: \<open>None\<close> is the base of
  the list, \<open>Some q\<close> the link field of \<open>q\<close>.
\<close>

type_synonym link_list = "nat option \<times> (nat \<Rightarrow> nat option)"

fun read_link :: "link_list \<Rightarrow> nat option \<Rightarrow> nat option" where
  "read_link (base, nxt) None = base"
| "read_link (base, nxt) (Some q) = nxt q"

fun write_link :: "link_list \<Rightarrow> nat option \<Rightarrow> nat option \<Rightarrow> link_list" where
  "write_link (base, nxt) None v = (v, nxt)"
| "write_link (base, nxt) (Some q) v = (base, nxt(q := v))"

fun unlink :: "nat \<Rightarrow> link_list \<Rightarrow> nat option \<Rightarrow> nat \<Rightarrow> link_list run" where
  "unlink 0 l guy pr = (if read_link l guy = None then Ok l else Halt Spinning)"
| "unlink (Suc fuel) l guy pr =
     (case read_link l guy of
        None \<Rightarrow> Ok l
      | Some x \<Rightarrow> if x = pr then Ok (write_link l guy (snd l pr)) else unlink fuel l (Some x) pr)"

definition remove_lists :: "nat \<Rightarrow> nat \<Rightarrow> kheap \<Rightarrow> kheap run" where
  "remove_lists p blk h =
     kassert (blk < NSIZES)
       (bindR (unlink NPAGEREFS (sizebases h blk, \<lambda>q. next_samesize (pagerefs h q)) None p) (\<lambda>(base, nxt).
          let h = h\<lparr>sizebases := (sizebases h)(blk := base),
                    pagerefs := (\<lambda>q. (pagerefs h q)\<lparr>next_samesize := nxt q\<rparr>)\<rparr> in
          bindR (unlink NPAGEREFS (allbase h, \<lambda>q. next_all (pagerefs h q)) None p) (\<lambda>(base, nxt).
            Ok (h\<lparr>allbase := base, pagerefs := (\<lambda>q. (pagerefs h q)\<lparr>next_all := nxt q\<rparr>)\<rparr>))))"

fun find_owner :: "nat \<Rightarrow> kheap \<Rightarrow> vaddr \<Rightarrow> nat option \<Rightarrow> nat option run" where
  "find_owner fuel h ptraddr None = Ok None"
| "find_owner 0 h ptraddr (Some p) = Halt Spinning"
| "find_owner (Suc fuel) h ptraddr (Some p) =
     (let prpage = PR_PAGEADDR (pagerefs h p); blk = unat (PR_BLOCKTYPE (pagerefs h p)) in
      kassert (blk < NSIZES)
        (if ptraddr \<ge> prpage \<and> ptraddr < prpage + PAGE_SIZE then Ok (Some p)
         else find_owner fuel h ptraddr (next_all (pagerefs h p))))"

definition subpage_kfree :: "nat \<Rightarrow> vaddr \<Rightarrow> kheap \<Rightarrow> (int \<times> kheap) run" where
  "subpage_kfree me ptraddr h =
     bindR (lock_heap me h) (\<lambda>h.
     bindR (find_owner NPAGEREFS h ptraddr (allbase h)) (\<lambda>r.
       case r of
         None \<Rightarrow> bindR (unlock_heap me h) (\<lambda>h. Ok (-1, h))
       | Some p \<Rightarrow>
           let pr = pagerefs h p;
               prpage = PR_PAGEADDR pr;
               blk = unat (PR_BLOCKTYPE pr);
               offset = ptraddr - prpage;
               sz = sizes ! blk
           in if offset \<ge> PAGE_SIZE \<or> offset mod sz \<noteq> 0 then Halt Panicked
              else
                let m = fill_deadbeef (hmem h) ptraddr sz;
                    fla = prpage + offset;
                    m = store32 m fla (if freelist_offset pr = INVALID_OFFSET then 0
                                       else prpage + ucast (freelist_offset pr));
                    pr = pr\<lparr>freelist_offset := ucast offset, nfree := nfree pr + 1\<rparr>;
                    h = set_ref p pr (set_hmem m h)
                in kassert (ucast (nfree pr) \<le> PAGE_SIZE div sz)
                     (if ucast (nfree pr) = PAGE_SIZE div sz then
                        bindR (remove_lists p blk h) (\<lambda>h.
                        bindR (freepageref (pagerefs_inuse h) p) (\<lambda>inuse.
                        bindR (unlock_heap me (h\<lparr>pagerefs_inuse := inuse\<rparr>)) (\<lambda>h.
                        bindR (free_kpages me prpage (phys h)) (\<lambda>c. Ok (0, h\<lparr>phys := c\<rparr>)))))
                      else bindR (unlock_heap me h) (\<lambda>h. Ok (0, h)))))"

definition kmalloc :: "nat \<Rightarrow> u32 \<Rightarrow> kheap \<Rightarrow> (vaddr \<times> kheap) run" where
  "kmalloc me sz h =
     (if sz \<ge> LARGEST_SUBPAGE_SIZE then
        let npages = (sz + PAGE_SIZE - 1) div PAGE_SIZE in
        bindR (alloc_kpages me (sint npages) (phys h)) (\<lambda>(address, c).
          let h = h\<lparr>phys := c\<rparr> in if address = 0 then Ok (0, h) else Ok (address, h))
      else subpage_kmalloc me sz h)"

definition kfree :: "nat \<Rightarrow> vaddr \<Rightarrow> kheap \<Rightarrow> kheap run" where
  "kfree me ptr h =
     (if ptr = 0 then Ok h
      else bindR (subpage_kfree me ptr h) (\<lambda>(r, h).
        if r \<noteq> 0 then
          kassert (ptr mod PAGE_SIZE = 0)
            (bindR (free_kpages me ptr (phys h)) (\<lambda>c. Ok (h\<lparr>phys := c\<rparr>)))
        else Ok h))"

end
