(* ===== verification/Kheap.thy ===== *)
theory Kheap
  imports Kmalloc
begin

text \<open>
  Correctness of the kernel heap. A heap represents a list of page references and, for each of
  them, the list of its free blocks; the live blocks are the others. \<open>kmalloc\<close> and \<open>kfree\<close> are shown
  to implement a set of disjoint live blocks whose contents only their users change.
\<close>

subsection \<open>Geometry of pages and blocks\<close>

definition bsize :: "nat \<Rightarrow> nat" where "bsize b = 2 ^ (b + 4)"
definition bcount :: "nat \<Rightarrow> nat" where "bcount b = 2 ^ (8 - b)"

lemma less_8: "(b :: nat) < 8 \<Longrightarrow> b = 0 \<or> b = 1 \<or> b = 2 \<or> b = 3 \<or> b = 4 \<or> b = 5 \<or> b = 6 \<or> b = 7"
  by linarith

lemma bsize_bcount: "b < 8 \<Longrightarrow> bcount b * bsize b = 4096"
  by (simp add: bsize_def bcount_def flip: power_add)

lemma bsize_bounds: "b < 8 \<Longrightarrow> 16 \<le> bsize b \<and> bsize b \<le> 2048 \<and> 16 dvd bsize b"
  by (drule less_8) (auto simp: bsize_def)

lemma bcount_bounds: "b < 8 \<Longrightarrow> 2 \<le> bcount b \<and> bcount b \<le> 256"
  by (drule less_8) (auto simp: bcount_def)

lemma sizes_nth: "b < 8 \<Longrightarrow> sizes ! b = of_nat (bsize b)"
  by (drule less_8) (auto simp: sizes_def bsize_def)

lemma length_sizes: "length sizes = 8"
  by (simp add: sizes_def)

lemma unat_sizes: "b < 8 \<Longrightarrow> unat (sizes ! b) = bsize b"
  by (drule less_8) (auto simp: sizes_def bsize_def)

lemma page_div_size: "b < 8 \<Longrightarrow> PAGE_SIZE div sizes ! b = of_nat (bcount b)"
  by (rule word_eq_of_unat) (drule less_8, auto simp: sizes_def bcount_def layout_defs unat_div)

definition page_at :: "vaddr \<Rightarrow> bool" where
  "page_at P \<longleftrightarrow> 0 < unat P \<and> unat P mod 4096 = 0 \<and> unat P + 4096 < 2 ^ 32"

definition blk :: "vaddr \<Rightarrow> nat \<Rightarrow> nat \<Rightarrow> vaddr" where
  "blk P b k = P + of_nat (k * bsize b)"

definition blocks :: "vaddr \<Rightarrow> nat \<Rightarrow> vaddr set" where
  "blocks P b = blk P b ` {..<bcount b}"

lemma blk_offset_bound: "b < 8 \<Longrightarrow> k < bcount b \<Longrightarrow> k * bsize b + bsize b \<le> 4096"
proof -
  assume b: "b < 8" and "k < bcount b"
  then have "Suc k * bsize b \<le> bcount b * bsize b" by (intro mult_le_mono1) simp
  then show ?thesis using bsize_bcount [OF b] by simp
qed

lemma unat_blk:
  assumes "page_at P" and "b < 8" and "k < bcount b"
  shows "unat (blk P b k) = unat P + k * bsize b"
proof -
  have "k * bsize b < 4096" using blk_offset_bound [OF assms(2,3)] bsize_bounds [OF assms(2)] by linarith
  then show ?thesis using assms(1) unfolding blk_def unat_add_of_nat by (simp add: page_at_def)
qed

lemma blk_inj: "page_at P \<Longrightarrow> b < 8 \<Longrightarrow> j < bcount b \<Longrightarrow> k < bcount b \<Longrightarrow> blk P b j = blk P b k \<longleftrightarrow> j = k"
  using unat_blk [of P b j] unat_blk [of P b k] bsize_bounds [of b]
  by (metis add_left_cancel mult_cancel2 not_one_le_zero numeral_le_iff order_trans one_le_numeral)

lemma blocks_in_page:
  assumes "page_at P" and "b < 8" and "x \<in> blocks P b"
  shows "unat P \<le> unat x" and "unat x + bsize b \<le> unat P + 4096" and "16 dvd unat x" and "0 < unat x"
proof -
  obtain k where k: "k < bcount b" "x = blk P b k" using assms(3) by (auto simp: blocks_def)
  have u: "unat x = unat P + k * bsize b" using unat_blk [OF assms(1,2) k(1)] k(2) by simp
  show "unat P \<le> unat x" using u by simp
  show "unat x + bsize b \<le> unat P + 4096" using u blk_offset_bound [OF assms(2) k(1)] by simp
  have "(16 :: nat) dvd 4096" by simp
  then have "16 dvd unat P" using assms(1) by (metis page_at_def dvd_eq_mod_eq_0 dvd_trans)
  then show "16 dvd unat x" using u bsize_bounds [OF assms(2)] by (simp add: dvd_eq_mod_eq_0 [symmetric])
  show "0 < unat x" using u assms(1) by (simp add: page_at_def)
qed

lemma blocks_apart:
  assumes "page_at P" and "b < 8" and "x \<in> blocks P b" and "y \<in> blocks P b" and "x \<noteq> y"
  shows "unat x + bsize b \<le> unat y \<or> unat y + bsize b \<le> unat x"
proof -
  obtain j k where jk: "j < bcount b" "x = blk P b j" "k < bcount b" "y = blk P b k" using assms(3,4) by (auto simp: blocks_def)
  then have "j < k \<or> k < j" using assms(5) by (metis nat_neq_iff)
  then have "Suc j * bsize b \<le> k * bsize b \<or> Suc k * bsize b \<le> j * bsize b" by (meson Suc_leI mult_le_mono1)
  then show ?thesis using unat_blk [OF assms(1,2)] jk by auto
qed

lemma pages_apart:
  "page_at P \<Longrightarrow> page_at Q \<Longrightarrow> P \<noteq> Q \<Longrightarrow> unat P + 4096 \<le> unat Q \<or> unat Q + 4096 \<le> unat P"
proof -
  assume "page_at P" "page_at Q" "P \<noteq> Q"
  then obtain i j where "unat P = 4096 * i" "unat Q = 4096 * j" "i \<noteq> j"
    by (metis page_at_def dvd_def dvd_eq_mod_eq_0 word_eq_of_unat)
  then show ?thesis by auto
qed

subsection \<open>Memory outside a region\<close>

definition only_changes :: "nat \<Rightarrow> nat \<Rightarrow> mem \<Rightarrow> mem \<Rightarrow> bool" where
  "only_changes a n m m' \<longleftrightarrow> (\<forall>x. \<not> (a \<le> unat x \<and> unat x < a + n) \<longrightarrow> m' x = m x)"

lemma only_changes_refl [simp]: "only_changes a n m m"
  by (simp add: only_changes_def)

lemma only_changes_trans: "only_changes a n m m' \<Longrightarrow> only_changes a n m' m'' \<Longrightarrow> only_changes a n m m''"
  by (simp add: only_changes_def)

lemma only_changes_wider: "only_changes a n m m' \<Longrightarrow> c \<le> a \<Longrightarrow> a + n \<le> c + k \<Longrightarrow> only_changes c k m m'"
  by (auto simp: only_changes_def)

lemma only_changes_load:
  assumes "only_changes a n m m'" and "unat x + 4 \<le> a \<or> a + n \<le> unat x" and "unat x + 4 \<le> 2 ^ 32"
  shows "load32 m' x = load32 m x"
proof -
  have "m' (x + of_nat i) = m (x + of_nat i)" if "i < 4" for i
  proof -
    have "unat (x + of_nat i) = unat x + i" using that assms(3) by (simp add: unat_add_of_nat)
    then show ?thesis using assms(1,2) that by (auto simp: only_changes_def)
  qed
  from this [of 0] this [of 1] this [of 2] this [of 3] show ?thesis by (simp add: load32_def)
qed

lemma store32_changes:
  assumes "unat a + 4 \<le> 2 ^ 32"
  shows "only_changes (unat a) 4 m (store32 m a w)"
  unfolding only_changes_def
proof (intro allI impI)
  fix x :: u32 assume out: "\<not> (unat a \<le> unat x \<and> unat x < unat a + 4)"
  have "unat (x - a) \<ge> 4"
  proof (cases "unat a \<le> unat x")
    case True
    then show ?thesis using out by (simp add: unat_sub_if')
  next
    case False
    then have "unat (x - a) = unat x + 2 ^ 32 - unat a" by (simp add: unat_sub_if')
    then show ?thesis using assms by linarith
  qed
  then show "store32 m a w x = m x" by (simp add: store32_at)
qed

lemma load32_other:
  assumes "16 dvd unat a" and "16 dvd unat x" and "a \<noteq> x"
  shows "load32 (store32 m a w) x = load32 m x"
proof -
  obtain i j where ij: "unat a = 16 * i" "unat x = 16 * j" using assms(1,2) by (auto simp: dvd_def)
  moreover have "unat a \<noteq> unat x" using assms(3) word_eq_of_unat by blast
  ultimately have "i \<noteq> j" by auto
  then have "unat x + 4 \<le> unat a \<or> unat a + 4 \<le> unat x" using ij by auto
  moreover have "unat a + 4 \<le> 2 ^ 32" "unat x + 4 \<le> 2 ^ 32"
    using ij unat_u32_bound [of a] unat_u32_bound [of x] by auto
  ultimately show ?thesis using only_changes_load [OF store32_changes] by blast
qed

subsection \<open>Representation\<close>

text \<open>Free blocks are linked through their first words, the last one holding the null pointer.\<close>

fun linked :: "mem \<Rightarrow> vaddr list \<Rightarrow> bool" where
  "linked m [] \<longleftrightarrow> True"
| "linked m [x] \<longleftrightarrow> load32 m x = 0"
| "linked m (x # y # zs) \<longleftrightarrow> load32 m x = y \<and> linked m (y # zs)"

lemma linked_frame: "linked m xs \<Longrightarrow> (\<And>x. x \<in> set xs \<Longrightarrow> load32 m' x = load32 m x) \<Longrightarrow> linked m' xs"
  by (induction m xs rule: linked.induct) auto

lemma linked_tl: "linked m (x # xs) \<Longrightarrow> linked m xs"
  by (cases xs) auto

definition page :: "kheap \<Rightarrow> nat \<Rightarrow> vaddr" where
  "page h p = PR_PAGEADDR (pagerefs h p)"

definition btype :: "kheap \<Rightarrow> nat \<Rightarrow> nat" where
  "btype h p = unat (PR_BLOCKTYPE (pagerefs h p))"

definition page_free :: "mem \<Rightarrow> vaddr \<Rightarrow> nat \<Rightarrow> pageref \<Rightarrow> vaddr list \<Rightarrow> bool" where
  "page_free m P b pr xs \<longleftrightarrow>
     unat (nfree pr) = length xs \<and> distinct xs \<and> set xs \<subseteq> blocks P b \<and> linked m xs
     \<and> (case xs of [] \<Rightarrow> freelist_offset pr = INVALID_OFFSET
        | x # _ \<Rightarrow> unat (freelist_offset pr) < 4096 \<and> P + ucast (freelist_offset pr) = x)"

fun lchain :: "(nat \<Rightarrow> nat option) \<Rightarrow> nat option \<Rightarrow> nat list \<Rightarrow> bool" where
  "lchain nxt base [] \<longleftrightarrow> base = None"
| "lchain nxt base (x # xs) \<longleftrightarrow> base = Some x \<and> lchain nxt (nxt x) xs"

definition refs_ok :: "kheap \<Rightarrow> nat list \<Rightarrow> bool" where
  "refs_ok h L \<longleftrightarrow> inuse_ok (pagerefs_inuse h) \<and> distinct L \<and> set L = inuse_set (pagerefs_inuse h)
     \<and> lchain (\<lambda>p. next_all (pagerefs h p)) (allbase h) L
     \<and> (\<forall>b<8. lchain (\<lambda>p. next_samesize (pagerefs h p)) (sizebases h b) (filter (\<lambda>p. btype h p = b) L))"

definition pages_ok :: "kheap \<Rightarrow> nat list \<Rightarrow> (nat \<Rightarrow> vaddr list) \<Rightarrow> bool" where
  "pages_ok h L F \<longleftrightarrow> inj_on (page h) (set L)
     \<and> (\<forall>p\<in>set L. page h p \<in> kpages (phys h) \<and> btype h p < 8
          \<and> page_free (hmem h) (page h p) (btype h p) (pagerefs h p) (F p))"

definition heap_rep :: "spinlock \<Rightarrow> kheap \<Rightarrow> nat list \<Rightarrow> (nat \<Rightarrow> vaddr list) \<Rightarrow> bool" where
  "heap_rep lk h L F \<longleftrightarrow> core_inv (phys h) \<and> kmalloc_spinlock h = lk \<and> refs_ok h L \<and> pages_ok h L F"

lemma kpages_page_at:
  assumes "core_inv c" and "P \<in> kpages c"
  shows "page_at P"
proof -
  from kpages_cases [OF assms(2)] obtain i where i: "i < length (coremaps c)" "P = PADDR_TO_KVADDR (frame_addr c i)" .
  have "unat P = 2 ^ 31 + unat (page_start c) + 4096 * i" using unat_kvaddr [OF assms(1) i(1)] i(2) by simp
  moreover have "unat (page_start c) + 4096 * Suc i < 2 ^ 31" "unat (page_start c) mod 4096 = 0"
    using assms(1) i(1) by (auto simp: core_inv_def)
  ultimately show ?thesis by (auto simp: page_at_def)
qed

lemma heap_rep_page:
  assumes "heap_rep lk h L F" and "p \<in> set L"
  shows "page_at (page h p)" and "btype h p < 8" and "page h p \<in> kpages (phys h)"
    and "page_free (hmem h) (page h p) (btype h p) (pagerefs h p) (F p)"
  using assms kpages_page_at by (auto simp: heap_rep_def pages_ok_def)

definition live :: "kheap \<Rightarrow> nat list \<Rightarrow> (nat \<Rightarrow> vaddr list) \<Rightarrow> (vaddr \<times> nat) set" where
  "live h L F = {(x, bsize (btype h p)) | x p. p \<in> set L \<and> x \<in> blocks (page h p) (btype h p) \<and> x \<notin> set (F p)}"

lemma lock_heap_ok: "kmalloc_spinlock h = spinlock_init \<Longrightarrow>
    lock_heap me h = Ok (h\<lparr>kmalloc_spinlock := \<lparr>lk_lock = 1, lk_holder = Some me\<rparr>\<rparr>)"
  by (simp add: lock_heap_def)

lemma unlock_heap_ok: "kmalloc_spinlock h = \<lparr>lk_lock = 1, lk_holder = Some me\<rparr> \<Longrightarrow>
    unlock_heap me h = Ok (h\<lparr>kmalloc_spinlock := spinlock_init\<rparr>)"
  by (simp add: unlock_heap_def)

abbreviation held_by :: "nat \<Rightarrow> spinlock" where
  "held_by me \<equiv> \<lparr>lk_lock = 1, lk_holder = Some me\<rparr>"

lemma heap_rep_lock: "heap_rep lk h L F \<Longrightarrow> heap_rep lk' (h\<lparr>kmalloc_spinlock := lk'\<rparr>) L F"
  by (simp add: heap_rep_def refs_ok_def pages_ok_def page_def btype_def inj_on_def)

lemma page_lock [simp]: "page (h\<lparr>kmalloc_spinlock := lk\<rparr>) = page h" "btype (h\<lparr>kmalloc_spinlock := lk\<rparr>) = btype h"
  by (simp_all add: page_def btype_def fun_eq_iff)

lemma page_inuse [simp]: "page (h\<lparr>pagerefs_inuse := i\<rparr>) = page h" "btype (h\<lparr>pagerefs_inuse := i\<rparr>) = btype h"
  by (simp_all add: page_def btype_def fun_eq_iff)

lemma page_phys [simp]: "page (h\<lparr>phys := c\<rparr>) = page h" "btype (h\<lparr>phys := c\<rparr>) = btype h"
  by (simp_all add: page_def btype_def fun_eq_iff)

lemma live_lock [simp]: "live (h\<lparr>kmalloc_spinlock := lk\<rparr>) L F = live h L F"
  by (simp add: live_def page_def btype_def)

text \<open>Changing only the free-list fields of a reference keeps the lists and the pages.\<close>

lemma set_ref_same:
  assumes "next_all pr = next_all (pagerefs h p)" and "next_samesize pr = next_samesize (pagerefs h p)"
    and "pageaddr_and_blocktype pr = pageaddr_and_blocktype (pagerefs h p)"
  shows "page (set_ref p pr h) = page h" and "btype (set_ref p pr h) = btype h"
    and "refs_ok (set_ref p pr h) L = refs_ok h L"
proof -
  show pg: "page (set_ref p pr h) = page h" and bt: "btype (set_ref p pr h) = btype h"
    using assms(3) by (auto simp: page_def btype_def set_ref_def PR_PAGEADDR_def PR_BLOCKTYPE_def fun_eq_iff)
  have "(\<lambda>q. next_all (pagerefs (set_ref p pr h) q)) = (\<lambda>q. next_all (pagerefs h q))"
    "(\<lambda>q. next_samesize (pagerefs (set_ref p pr h) q)) = (\<lambda>q. next_samesize (pagerefs h q))"
    using assms(1,2) by (auto simp: set_ref_def)
  moreover have "pagerefs_inuse (set_ref p pr h) = pagerefs_inuse h" "sizebases (set_ref p pr h) = sizebases h"
    "allbase (set_ref p pr h) = allbase h" by (simp_all add: set_ref_def)
  ultimately show "refs_ok (set_ref p pr h) L = refs_ok h L" by (simp only: refs_ok_def bt)
qed

subsection \<open>Taking a block off a free list\<close>

text \<open>Offsets inside a page fit into the sixteen bits of \<open>freelist_offset\<close>.\<close>

lemma offset_in_page:
  assumes "page_at P" and "b < 8" and "x \<in> blocks P b"
  shows "unat (x - P) < 4096" and "x - P < PAGE_SIZE" and "P + ucast (ucast (x - P) :: u16) = x"
    and "unat (ucast (x - P) :: u16) = unat (x - P)" and "(x - P) mod sizes ! b = 0"
proof -
  obtain k where k: "k < bcount b" "x = blk P b k" using assms(3) by (auto simp: blocks_def)
  have off: "x - P = of_nat (k * bsize b)" using k(2) by (simp add: blk_def)
  have lt: "k * bsize b < 4096" using blk_offset_bound [OF assms(2) k(1)] bsize_bounds [OF assms(2)] by linarith
  then have u: "unat (x - P) = k * bsize b" unfolding off by (intro unat_of_nat_u32) simp
  show small: "unat (x - P) < 4096" using u lt by simp
  then show "x - P < PAGE_SIZE" by (simp add: word_less_nat_alt layout_defs)
  have "unat (ucast (x - P) :: u16) = unat (x - P) mod 2 ^ 16" by (rule unat_u16_of_u32)
  then show c: "unat (ucast (x - P) :: u16) = unat (x - P)" using small by simp
  have "unat (ucast (ucast (x - P) :: u16) :: u32) = unat (x - P)"
    using c by (simp add: unat_u32_of_u16)
  then have "ucast (ucast (x - P) :: u16) = x - P" by (rule word_eq_of_unat)
  then show "P + ucast (ucast (x - P) :: u16) = x" by simp
  have "unat ((x - P) mod sizes ! b) = 0" using u unat_sizes [OF assms(2)] by (simp add: unat_mod)
  then show "(x - P) mod sizes ! b = 0" by (simp add: unat_eq_zero)
qed

lemma doalloc_spec:
  assumes rep: "heap_rep (held_by me) h L F" and p: "p \<in> set L" and F: "F p = x # xs"
  shows "\<exists>h'. doalloc me p h = Ok (x, h') \<and> heap_rep spinlock_init h' L (F(p := xs))
    \<and> phys h' = phys h \<and> page h' = page h \<and> btype h' = btype h \<and> sizebases h' = sizebases h \<and> pagerefs_inuse h' = pagerefs_inuse h"
proof -
  let ?pr = "pagerefs h p" and ?P = "page h p" and ?b = "btype h p"
  note pg = heap_rep_page [OF rep p]
  have free: "unat (nfree ?pr) = Suc (length xs)" "distinct (x # xs)" "set (x # xs) \<subseteq> blocks ?P ?b"
    "linked (hmem h) (x # xs)" "unat (freelist_offset ?pr) < 4096" "?P + ucast (freelist_offset ?pr) = x"
    using pg(4) F by (auto simp: page_free_def)
  have off: "(ucast (freelist_offset ?pr) :: u32) < PAGE_SIZE"
    using free(5) by (simp add: word_less_nat_alt layout_defs unat_u32_of_u16)
  have nf: "unat (nfree ?pr - 1) = length xs" using free(1) by (simp add: unat_sub_if')
  let ?pr' = "?pr\<lparr>nfree := nfree ?pr - 1,
      freelist_offset := (case xs of [] \<Rightarrow> INVALID_OFFSET | y # _ \<Rightarrow> ucast (y - ?P))\<rparr>"
  let ?h = "set_ref p ?pr' h"
  have run: "doalloc me p h = bindR (unlock_heap me ?h) (\<lambda>h. Ok (x, h))"
  proof (cases xs)
    case Nil
    then have "nfree ?pr - 1 = 0" using nf by (simp add: unat_eq_zero)
    then show ?thesis using Nil free off by (simp add: doalloc_def page_def Let_def)
  next
    case (Cons y ys)
    have y: "y \<in> blocks ?P ?b" using free(3) Cons by simp
    have "y \<noteq> 0" using blocks_in_page(4) [OF pg(1,2) y] by auto
    moreover have "nfree ?pr - 1 > 0" using nf Cons by (simp add: word_gt_0 unat_gt_0 flip: unat_eq_zero)
    moreover have "load32 (hmem h) x = y" using free(4) Cons by simp
    ultimately show ?thesis using Cons free off offset_in_page(2) [OF pg(1,2) y]
      by (simp add: doalloc_def page_def Let_def)
  qed
  have same: "page ?h = page h" "btype ?h = btype h" "refs_ok ?h L = refs_ok h L"
    by (rule set_ref_same; simp)+
  have new: "page_free (hmem ?h) ?P ?b ?pr' xs"
    using nf free linked_tl [OF free(4)] offset_in_page [OF pg(1,2)]
    by (auto simp: page_free_def set_ref_def split: list.split)
  have "pages_ok ?h L (F(p := xs))"
    using rep new same(1,2) by (auto simp: heap_rep_def pages_ok_def set_ref_def)
  then have "heap_rep (held_by me) ?h L (F(p := xs))"
    using rep same(3) by (simp add: heap_rep_def set_ref_def)
  moreover have "unlock_heap me ?h = Ok (?h\<lparr>kmalloc_spinlock := spinlock_init\<rparr>)"
    using rep by (intro unlock_heap_ok) (simp add: heap_rep_def set_ref_def)
  moreover have "phys ?h = phys h" "sizebases ?h = sizebases h" "pagerefs_inuse ?h = pagerefs_inuse h" by (simp_all add: set_ref_def)
  ultimately show ?thesis
    using run same(1,2) heap_rep_lock [of "held_by me" ?h L "F(p := xs)" spinlock_init] by simp
qed

subsection \<open>Looking for a page with room\<close>

lemma blocktype_spec:
  assumes "unat sz \<le> 2048"
  shows "\<exists>b<8. blocktype sz = Ok b \<and> unat sz \<le> bsize b \<and> (\<forall>c<b. bsize c < unat sz)"
proof -
  define b where "b = (LEAST b. unat sz \<le> bsize b)"
  have "unat sz \<le> bsize 7" using assms by (simp add: bsize_def)
  then have b: "unat sz \<le> bsize b" "b \<le> 7" unfolding b_def by (rule LeastI, rule Least_le)
  have small: "bsize c < unat sz" if "c < b" for c using that not_less_Least unfolding b_def by (metis linorder_not_less)
  have run: "blocktype_from sz i (drop i sizes) = Ok b" if "i \<le> b" for i
    using that b(2)
  proof (induction "b - i" arbitrary: i)
    case 0
    then have "i = b" by simp
    then have "drop i sizes = sizes ! b # drop (Suc b) sizes" using b(2) by (simp add: Cons_nth_drop_Suc length_sizes)
    moreover have "sz \<le> sizes ! b" using b unat_sizes [of b] by (simp add: word_le_nat_alt)
    ultimately show ?case using \<open>i = b\<close> by simp
  next
    case (Suc k)
    then have i: "i < b" by simp
    then have "drop i sizes = sizes ! i # drop (Suc i) sizes" using b(2) by (simp add: Cons_nth_drop_Suc length_sizes)
    moreover have "\<not> sz \<le> sizes ! i" using small [OF i] i b(2) unat_sizes [of i] by (simp add: word_le_nat_alt)
    ultimately show ?case using Suc.hyps(1) [of "Suc i"] Suc.hyps(2) i b(2) by simp
  qed
  show ?thesis using run [of 0] b small by (auto simp: blocktype_def)
qed

lemma btype_word: "PR_BLOCKTYPE (pagerefs h p) = of_nat (btype h p)"
  by (simp add: btype_def)

lemma find_page_spec:
  "lchain (\<lambda>p. next_samesize (pagerefs h p)) base ps \<Longrightarrow> length ps \<le> fuel \<Longrightarrow> (\<And>p. p \<in> set ps \<Longrightarrow> btype h p = b) \<Longrightarrow>
    find_page fuel h b base = Ok (find (\<lambda>p. nfree (pagerefs h p) > 0) ps)"
proof (induction ps arbitrary: base fuel)
  case (Cons p ps)
  then obtain f where "fuel = Suc f" by (cases fuel) auto
  with Cons show ?case by (simp add: btype_word)
qed simp

lemma refs_ok_length:
  assumes "refs_ok h L"
  shows "length L \<le> NPAGEREFS"
proof -
  have "set L \<subseteq> {..<256}" using assms by (auto simp: refs_ok_def inuse_set_def inuse_ok_def INUSE_WORDS_def NPAGEREFS_def)
  then have "card (set L) \<le> card {..<256 :: nat}" by (intro card_mono) simp_all
  moreover have "card (set L) = length L" using assms by (metis refs_ok_def distinct_card)
  ultimately show ?thesis by (simp add: NPAGEREFS_def)
qed

lemma find_SomeD: "find P xs = Some x \<Longrightarrow> x \<in> set xs \<and> P x"
  by (induction xs) (auto split: if_splits)

lemma find_page_heap:
  assumes rep: "heap_rep lk h L F" and b: "b < 8"
  shows "(\<exists>p x xs. find_page NPAGEREFS h b (sizebases h b) = Ok (Some p) \<and> p \<in> set L \<and> btype h p = b \<and> F p = x # xs)
    \<or> find_page NPAGEREFS h b (sizebases h b) = Ok None"
proof -
  let ?ps = "filter (\<lambda>p. btype h p = b) L"
  have "lchain (\<lambda>p. next_samesize (pagerefs h p)) (sizebases h b) ?ps"
    using rep b by (simp add: heap_rep_def refs_ok_def)
  moreover have "length ?ps \<le> NPAGEREFS"
    using rep refs_ok_length by (metis heap_rep_def length_filter_le order_trans)
  ultimately have run: "find_page NPAGEREFS h b (sizebases h b) = Ok (find (\<lambda>p. nfree (pagerefs h p) > 0) ?ps)"
    by (intro find_page_spec) auto
  show ?thesis
  proof (cases "find (\<lambda>p. nfree (pagerefs h p) > 0) ?ps")
    case (Some p)
    then have p: "p \<in> set L" "btype h p = b" "nfree (pagerefs h p) > 0"
      using find_SomeD [OF Some] by auto
    then have "F p \<noteq> []" using heap_rep_page(4) [OF rep p(1)] by (auto simp: page_free_def word_gt_0 unat_eq_zero)
    with run Some p show ?thesis by (cases "F p") auto
  qed (use run in simp)
qed

subsection \<open>Preparing a page\<close>

lemma MKPAB_fields:
  assumes "page_at P" and "b < 8" and "pageaddr_and_blocktype pr = MKPAB P (of_nat b)"
  shows "PR_PAGEADDR pr = P" and "PR_BLOCKTYPE pr = of_nat b"
proof -
  have frame: "PAGE_FRAME = NOT (mask 12 :: u32)" by (simp add: layout_defs mask_eq_exp_minus_1)
  have low: "\<not> bit P n" if "n < 12" for n
  proof -
    have "P mod 2 ^ 12 = 0"
      using assms(1) by (intro word_eq_of_unat) (simp add: page_at_def unat_mod)
    then have "take_bit 12 P = 0" by (simp add: take_bit_eq_mod)
    then show ?thesis using that by (metis bit_take_bit_iff bit_0_eq bot_apply bot_bool_def)
  qed
  have "of_nat b mod 2 ^ 12 = (of_nat b :: u32)"
    using assms(2) unat_of_nat_u32 [of b] by (intro word_eq_of_unat) (simp add: unat_mod)
  then have "take_bit 12 (of_nat b) = (of_nat b :: u32)" by (simp add: take_bit_eq_mod)
  then have high: "bit (of_nat b :: u32) n \<Longrightarrow> n < 12" for n by (metis bit_take_bit_iff)
  show "PR_PAGEADDR pr = P"
    unfolding PR_PAGEADDR_def assms(3) MKPAB_def frame
    by (rule bit_word_eqI) (use low high in \<open>auto simp: bit_and_iff bit_or_iff bit_not_iff bit_mask_iff\<close>)
  show "PR_BLOCKTYPE pr = of_nat b"
    unfolding PR_BLOCKTYPE_def assms(3) MKPAB_def frame
    by (rule bit_word_eqI) (use low high in \<open>auto simp: bit_and_iff bit_or_iff bit_not_iff bit_mask_iff\<close>)
qed

text \<open>The list the preparation loop builds: the blocks of the page from the last to the first.\<close>

definition down :: "vaddr \<Rightarrow> nat \<Rightarrow> nat \<Rightarrow> vaddr list" where
  "down P b n = rev (map (blk P b) [0..<n])"

lemma down_Suc [simp]: "down P b (Suc n) = blk P b n # down P b n"
  by (simp add: down_def)

lemma down_0 [simp]: "down P b 0 = []"
  by (simp add: down_def)

lemma down_props:
  assumes "page_at P" and "b < 8" and "n \<le> bcount b"
  shows "set (down P b n) \<subseteq> blocks P b" and "distinct (down P b n)" and "length (down P b n) = n"
proof -
  show "set (down P b n) \<subseteq> blocks P b" using assms(3) by (auto simp: down_def blocks_def)
  have "inj_on (blk P b) (set [0..<n])" using blk_inj [OF assms(1,2)] assms(3) by (auto simp: inj_on_def)
  then show "distinct (down P b n)" by (simp add: down_def distinct_map)
qed (simp add: down_def)

lemma build_freelist_spec:
  assumes P: "page_at P" and b: "b < 8"
  shows "0 < j \<Longrightarrow> j \<le> n \<Longrightarrow> n \<le> bcount b \<Longrightarrow> linked m (down P b j) \<Longrightarrow>
    \<exists>m'. build_freelist P (sizes ! b) [j..<n] (blk P b (j - 1)) m = Ok (blk P b (n - 1), m')
      \<and> linked m' (down P b n) \<and> only_changes (unat P) 4096 m m'"
proof (induction "n - j" arbitrary: j m)
  case 0
  then show ?case by auto
next
  case (Suc k)
  then have j: "j < n" "j < bcount b" by auto
  let ?m = "store32 m (blk P b j) (blk P b (j - 1))"
  have up: "[j..<n] = j # [Suc j..<n]" using j(1) by (simp add: upt_conv_Cons)
  have addr: "P + of_nat i * sizes ! b = blk P b i" for i by (simp add: blk_def sizes_nth [OF b])
  have mem: "blk P b j \<in> blocks P b" using j(2) by (auto simp: blocks_def)
  have other: "load32 ?m x = load32 m x" if x: "x \<in> set (down P b j)" for x
  proof -
    have "x \<in> blocks P b" using x down_props(1) [OF P b, of j] j by auto
    moreover have "x \<noteq> blk P b j" using x j(2) blk_inj [OF P b] by (auto simp: down_def)
    ultimately show ?thesis using load32_other blocks_in_page(3) [OF P b] mem by metis
  qed
  obtain i where i: "j = Suc i" using Suc.prems(1) by (cases j) auto
  then have "linked ?m (down P b (Suc j))"
    using linked_frame [OF Suc.prems(4) other] load32_store32 [of m "blk P b j"] by simp
  moreover have "k = n - Suc j" "0 < Suc j" "Suc j \<le> n" using Suc.hyps(2) by auto
  ultimately obtain m' where
    m': "build_freelist P (sizes ! b) [Suc j..<n] (blk P b (Suc j - 1)) ?m = Ok (blk P b (n - 1), m')"
    "linked m' (down P b n)" "only_changes (unat P) 4096 ?m m'"
    using Suc.hyps(1) [of "Suc j" ?m] Suc.prems(3) by blast
  have "blk P b j \<noteq> blk P b (j - 1)" using blk_inj [OF P b, of j "j - 1"] j i by simp
  then have "build_freelist P (sizes ! b) [j..<n] (blk P b (j - 1)) m = Ok (blk P b (n - 1), m')"
    using m'(1) up addr load32_store32 [of m "blk P b j"] by (simp add: Let_def)
  moreover have "only_changes (unat P) 4096 m ?m"
  proof -
    note in_page = blocks_in_page [OF P b mem]
    have "unat (blk P b j) + 4 \<le> unat P + 4096" "unat P + 4096 \<le> 2 ^ 32" using in_page(2) bsize_bounds [OF b] P by (auto simp: page_at_def)
    then show ?thesis using in_page(1) by (intro only_changes_wider [OF store32_changes]) auto
  qed
  ultimately show ?case using m'(2,3) only_changes_trans by blast
qed

lemma kpages_kmem [simp]: "kpages (c\<lparr>kmem := m\<rparr>) = kpages c"
  by (simp add: kpages_def frame_addr_def)

lemma core_inv_kmem [simp]: "core_inv (c\<lparr>kmem := m\<rparr>) = core_inv c"
  by (simp add: core_inv_def)

lemma lchain_frame: "lchain nxt base xs \<Longrightarrow> (\<And>x. x \<in> set xs \<Longrightarrow> nxt' x = nxt x) \<Longrightarrow> lchain nxt' base xs"
  by (induction xs arbitrary: base) auto

text \<open>Pages that a change of memory stays out of keep their free lists.\<close>

lemma page_free_frame:
  assumes "page_free m P b pr xs" and "page_at P" and "b < 8" and "only_changes a n m m'"
    and "unat P + 4096 \<le> a \<or> a + n \<le> unat P"
  shows "page_free m' P b pr xs"
proof -
  have "load32 m' x = load32 m x" if "x \<in> set xs" for x
  proof (rule only_changes_load [OF assms(4)])
    have x: "x \<in> blocks P b" using assms(1) that by (auto simp: page_free_def)
    note in_page = blocks_in_page [OF assms(2,3) x]
    have "4 \<le> bsize b" using bsize_bounds [OF assms(3)] by linarith
    then show "unat x + 4 \<le> a \<or> a + n \<le> unat x" "unat x + 4 \<le> 2 ^ 32"
      using in_page(1,2) assms(2,5) by (auto simp: page_at_def)
  qed
  then show ?thesis using assms(1) linked_frame unfolding page_free_def by blast
qed

lemma init_page_spec:
  assumes rep: "heap_rep lk (h\<lparr>pagerefs_inuse := old\<rparr>) L F" and b: "b < 8"
    and P: "page_at P" "P \<in> kpages (phys h)" "P \<notin> page h ` set L"
    and p: "p \<notin> set L" "inuse_ok (pagerefs_inuse h)" "inuse_set (pagerefs_inuse h) = insert p (set L)"
  shows "\<exists>h' m. init_page p b P h = Ok h' \<and> heap_rep lk h' (p # L) (F(p := down P b (bcount b)))
    \<and> phys h' = (phys h)\<lparr>kmem := m\<rparr> \<and> only_changes (unat P) 4096 (hmem h) m
    \<and> page h' = (page h)(p := P) \<and> btype h' = (btype h)(p := b)
    \<and> sizebases h' = (sizebases h)(b := Some p) \<and> pagerefs_inuse h' = pagerefs_inuse h"
proof -
  let ?n = "bcount b"
  have n: "2 \<le> ?n" "?n \<le> 256" using bcount_bounds [OF b] by auto
  let ?nf = "ucast (PAGE_SIZE div sizes ! b) :: u16"
  have nf: "unat ?nf = ?n" unfolding page_div_size [OF b] unat_u16_of_u32 using n unat_of_nat_u32 [of ?n] by simp
  let ?m0 = "store32 (hmem h) P 0"
  have blk0: "blk P b 0 = P" by (simp add: blk_def)
  have "linked ?m0 (down P b 1)" using load32_store32 [of "hmem h" P 0] blk0 by (simp add: One_nat_def)
  then obtain m where m: "build_freelist P (sizes ! b) [1..<?n] P ?m0 = Ok (blk P b (?n - 1), m)"
    "linked m (down P b ?n)" "only_changes (unat P) 4096 ?m0 m"
    using build_freelist_spec [OF P(1) b, of 1 ?n ?m0] n blk0 by auto
  have "only_changes (unat P) 4096 (hmem h) ?m0"
    using P(1) by (intro only_changes_wider [OF store32_changes]) (auto simp: page_at_def)
  with m(3) have ch: "only_changes (unat P) 4096 (hmem h) m" using only_changes_trans by blast
  let ?fl = "blk P b (?n - 1)"
  have fl: "?fl \<in> blocks P b" using n by (auto simp: blocks_def)
  note off = offset_in_page [OF P(1) b fl]
  have uoff: "unat (?fl - P) = (?n - 1) * bsize b"
    using unat_blk [OF P(1) b, of "?n - 1"] n by (simp add: unat_sub_if')
  let ?pr = "(pagerefs h p)\<lparr>pageaddr_and_blocktype := MKPAB P (of_nat b), nfree := ?nf,
      freelist_offset := ucast (?fl - P), next_samesize := sizebases h b, next_all := allbase h\<rparr>"
  let ?h = "(set_ref p ?pr (set_hmem m h))\<lparr>sizebases := (sizebases h)(b := Some p), allbase := Some p\<rparr>"
  have check: "(ucast (ucast (?fl - P) :: u16) :: u32) = (ucast ?nf - 1) * sizes ! b"
  proof -
    have "(ucast (ucast (?fl - P) :: u16) :: u32) = ?fl - P" using off(3) by (metis add_diff_cancel_left')
    also have "\<dots> = of_nat (?n - 1) * of_nat (bsize b)" by (simp add: blk_def)
    also have "(of_nat (?n - 1) :: u32) = of_nat ?n - 1" using n by (simp add: of_nat_diff)
    also have "(of_nat ?n :: u32) = ucast ?nf"
      using nf n unat_of_nat_u32 [of ?n] by (intro word_eq_of_unat) (simp add: unat_u32_of_u16)
    finally show ?thesis by (simp add: sizes_nth [OF b])
  qed
  have run: "init_page p b P h = Ok ?h"
    using m(1) check nf n by (simp add: init_page_def Let_def)
  have fields: "PR_PAGEADDR ?pr = P" "PR_BLOCKTYPE ?pr = of_nat b" using MKPAB_fields [OF P(1) b, of ?pr] by simp_all
  have pages: "page ?h = (page h)(p := P)" "btype ?h = (btype h)(p := b)"
    using fields b unat_of_nat_u32 [of b] by (auto simp: page_def btype_def set_ref_def set_hmem_def fun_eq_iff)
  have old: "page (h\<lparr>pagerefs_inuse := old\<rparr>) = page h" "btype (h\<lparr>pagerefs_inuse := old\<rparr>) = btype h"
    by (simp_all add: page_def btype_def fun_eq_iff)
  have eq: "pagerefs ?h q = pagerefs h q" if "q \<in> set L" for q using that p(1) by (auto simp: set_ref_def set_hmem_def)
  have refs: "refs_ok ?h (p # L)"
  proof -
    have r: "distinct L" "lchain (\<lambda>p. next_all (pagerefs h p)) (allbase h) L"
      "\<And>c. c < 8 \<Longrightarrow> lchain (\<lambda>p. next_samesize (pagerefs h p)) (sizebases h c) (filter (\<lambda>p. btype h p = c) L)"
      using rep old by (auto simp: heap_rep_def refs_ok_def)
    have filt: "filter (\<lambda>q. btype ?h q = c) (p # L) = (if c = b then [p] else []) @ filter (\<lambda>q. btype h q = c) L" for c
      using p(1) pages(2) by (auto intro: filter_cong)
    have "lchain (\<lambda>q. next_samesize (pagerefs ?h q)) (sizebases ?h c) (filter (\<lambda>q. btype ?h q = c) (p # L))" if "c < 8" for c
      unfolding filt using lchain_frame [OF r(3) [OF that], of "\<lambda>q. next_samesize (pagerefs ?h q)"] eq
      by (auto simp: set_ref_def set_hmem_def)
    moreover have "lchain (\<lambda>q. next_all (pagerefs ?h q)) (allbase ?h) (p # L)"
      using lchain_frame [OF r(2), of "\<lambda>q. next_all (pagerefs ?h q)"] eq by (auto simp: set_ref_def set_hmem_def)
    ultimately show ?thesis using p r(1) by (simp add: refs_ok_def set_ref_def set_hmem_def)
  qed
  have "pages_ok ?h (p # L) (F(p := down P b ?n))"
  proof -
    have po: "pages_ok (h\<lparr>pagerefs_inuse := old\<rparr>) L F" using rep by (simp add: heap_rep_def)
    have new: "page_free m P b ?pr (down P b ?n)"
    proof -
      obtain k where k: "?n = Suc k" using n by (cases ?n) auto
      have "unat (ucast (?fl - P) :: u16) < 4096" using off(1,4) by simp
      then show ?thesis
        using m(2) nf down_props [OF P(1) b, of ?n] off(3) k unfolding page_free_def by simp
    qed
    have keep: "page_free m (page h q) (btype h q) (pagerefs h q) (F q)" if q: "q \<in> set L" for q
    proof (rule page_free_frame [OF _ _ _ ch])
      show "page_free (hmem h) (page h q) (btype h q) (pagerefs h q) (F q)" "btype h q < 8"
        using po q old by (simp_all add: pages_ok_def)
      show at: "page_at (page h q)" using heap_rep_page(1) [OF rep q] old by simp
      have "page h q \<noteq> P" using P(3) q by auto
      then show "unat (page h q) + 4096 \<le> unat P \<or> unat P + 4096 \<le> unat (page h q)"
        using pages_apart [OF at P(1)] by simp
    qed
    have kp: "kpages (phys ?h) = kpages (phys h)" "hmem ?h = m" by (simp_all add: set_ref_def set_hmem_def)
    have "inj_on (page ?h) (set (p # L))"
      using po p(1) P(3) pages(1) old by (auto simp: pages_ok_def inj_on_def)
    moreover have "page ?h q \<in> kpages (phys ?h) \<and> btype ?h q < 8
        \<and> page_free (hmem ?h) (page ?h q) (btype ?h q) (pagerefs ?h q) ((F(p := down P b ?n)) q)" if q: "q \<in> set (p # L)" for q
    proof (cases "q = p")
      case True
      then show ?thesis using new P(2) b pages kp by (simp add: set_ref_def set_hmem_def)
    next
      case False
      then have "q \<in> set L" using q by simp
      then show ?thesis using keep [of q] po False pages kp eq old by (simp add: pages_ok_def)
    qed
    ultimately show ?thesis by (simp only: pages_ok_def) blast
  qed
  with refs rep have "heap_rep lk ?h (p # L) (F(p := down P b ?n))"
    by (simp add: heap_rep_def set_ref_def set_hmem_def)
  moreover have "phys ?h = (phys h)\<lparr>kmem := m\<rparr>" "sizebases ?h = (sizebases h)(b := Some p)" "pagerefs_inuse ?h = pagerefs_inuse h"
    by (simp_all add: set_ref_def set_hmem_def)
  ultimately show ?thesis using run ch pages by blast
qed

subsection \<open>The abstract heap\<close>

definition disjoint_blocks :: "(vaddr \<times> nat) set \<Rightarrow> bool" where
  "disjoint_blocks B \<longleftrightarrow> (\<forall>(x, n)\<in>B. \<forall>(y, k)\<in>B. (x, n) = (y, k) \<or> unat x + n \<le> unat y \<or> unat y + k \<le> unat x)"

text \<open>\<open>heap_abs h B\<close>: the heap \<open>h\<close> is well-formed and \<open>B\<close> are its live blocks.\<close>

definition heap_abs :: "kheap \<Rightarrow> (vaddr \<times> nat) set \<Rightarrow> bool" where
  "heap_abs h B \<longleftrightarrow> (\<exists>L F. heap_rep spinlock_init h L F \<and> B = live h L F)"

definition kept :: "(vaddr \<times> nat) set \<Rightarrow> kheap \<Rightarrow> kheap \<Rightarrow> bool" where
  "kept B h h' \<longleftrightarrow> (\<forall>(x, n)\<in>B. \<forall>a. unat x \<le> unat a \<longrightarrow> unat a < unat x + n \<longrightarrow> hmem h' a = hmem h a)"

lemma kept_refl: "hmem h' = hmem h \<Longrightarrow> kept B h h'"
  by (simp add: kept_def)

text \<open>Memory below the first managed frame, user addresses and the kernel's own image, is left alone.\<close>

definition low_same :: "kheap \<Rightarrow> kheap \<Rightarrow> bool" where
  "low_same h h' \<longleftrightarrow> page_start (phys h') = page_start (phys h)
     \<and> (\<forall>a. unat a < 2 ^ 31 + unat (page_start (phys h)) \<longrightarrow> hmem h' a = hmem h a)"

lemma low_same_refl: "phys h' = phys h \<Longrightarrow> low_same h h'"
  by (simp add: low_same_def)

lemma low_same_trans: "low_same h h' \<Longrightarrow> low_same h' h'' \<Longrightarrow> low_same h h''"
  by (simp add: low_same_def)

lemma kpage_high:
  assumes "core_inv c" and "P \<in> kpages c"
  shows "2 ^ 31 + unat (page_start c) \<le> unat P"
proof -
  from kpages_cases [OF assms(2)] obtain i where "i < length (coremaps c)" "P = PADDR_TO_KVADDR (frame_addr c i)" .
  then show ?thesis using unat_kvaddr [OF assms(1)] by simp
qed

lemma low_same_changes:
  "only_changes (unat P) n (hmem h) (hmem h') \<Longrightarrow> 2 ^ 31 + unat (page_start (phys h)) \<le> unat P \<Longrightarrow>
    page_start (phys h') = page_start (phys h) \<Longrightarrow> low_same h h'"
  by (auto simp: low_same_def only_changes_def)

lemma page_start_free:
  assumes "free_kpages me P c = Ok c'"
  shows "page_start c' = page_start c"
proof -
  have loop: "free_loop is s = Ok s' \<Longrightarrow> page_start s' = page_start s" for "is" s s'
    by (induction "is" arbitrary: s) (auto simp: release_frame_def split: if_splits)
  obtain i n where "bindR (lock_core me c) (\<lambda>s. bindR (free_loop [i..<i + n] s) (unlock_core me)) = Ok c'"
    using assms unfolding free_kpages_def freeppages_def Let_def by (metis run.distinct(1))
  then obtain s s' where s: "lock_core me c = Ok s" "free_loop [i..<i + n] s = Ok s'" "unlock_core me s' = Ok c'"
    by (auto simp: bindR_eq_Ok)
  have "page_start s = page_start c" "page_start c' = page_start s'"
    using s(1,3) by (auto simp: lock_core_def unlock_core_def bindR_eq_Ok)
  then show ?thesis using loop [OF s(2)] by simp
qed

lemma page_start_alloc:
  assumes "core_inv c" and "alloc_kpages me 1 c = Ok (P, c')"
  shows "page_start c' = page_start c"
proof -
  obtain p where p: "getppages me 1 KERNEL c = Ok (p, c')" using assms(2) by (auto simp: alloc_kpages_def bindR_eq_Ok split: if_splits)
  obtain a where "c' = taking a (unat (1 :: u32)) KERNEL c" by (rule getppages_took_run [OF assms(1) _ _ p]) simp_all
  then show ?thesis by (simp add: taking_def)
qed

lemma live_iff: "(x, n) \<in> live h L F \<longleftrightarrow>
    (\<exists>p\<in>set L. x \<in> blocks (page h p) (btype h p) \<and> x \<notin> set (F p) \<and> n = bsize (btype h p))"
  by (auto simp: live_def)

lemma live_cases:
  assumes "(x, n) \<in> live h L F"
  obtains p where "p \<in> set L" and "x \<in> blocks (page h p) (btype h p)" and "x \<notin> set (F p)" and "n = bsize (btype h p)"
  using assms by (auto simp: live_def)

lemma blocks_of_pages_apart:
  assumes rep: "heap_rep lk h L F" and p: "p \<in> set L" "x \<in> blocks (page h p) (btype h p)"
    and q: "q \<in> set L" "y \<in> blocks (page h q) (btype h q)" and ne: "p \<noteq> q \<or> x \<noteq> y"
  shows "unat x + bsize (btype h p) \<le> unat y \<or> unat y + bsize (btype h q) \<le> unat x"
proof (cases "p = q")
  case True
  then show ?thesis using blocks_apart [OF heap_rep_page(1,2) [OF rep p(1)] p(2), of y] q(2) ne by simp
next
  case False
  then have "page h p \<noteq> page h q" using rep p(1) q(1) by (auto simp: heap_rep_def pages_ok_def inj_on_def)
  then have "unat (page h p) + 4096 \<le> unat (page h q) \<or> unat (page h q) + 4096 \<le> unat (page h p)"
    using pages_apart heap_rep_page(1) [OF rep p(1)] heap_rep_page(1) [OF rep q(1)] by blast
  then show ?thesis
    using blocks_in_page(1,2) [OF heap_rep_page(1,2) [OF rep p(1)] p(2)] blocks_in_page(1,2) [OF heap_rep_page(1,2) [OF rep q(1)] q(2)]
    by linarith
qed

lemma heap_abs_disjoint: "heap_abs h B \<Longrightarrow> disjoint_blocks B"
proof -
  assume "heap_abs h B"
  then obtain L F where rep: "heap_rep spinlock_init h L F" and B: "B = live h L F" by (auto simp: heap_abs_def)
  have "(x, n) = (y, k) \<or> unat x + n \<le> unat y \<or> unat y + k \<le> unat x" if xy: "(x, n) \<in> B" "(y, k) \<in> B" for x n y k
  proof -
    obtain p where p: "p \<in> set L" "x \<in> blocks (page h p) (btype h p)" "n = bsize (btype h p)" using xy(1) B by (auto elim: live_cases)
    obtain q where q: "q \<in> set L" "y \<in> blocks (page h q) (btype h q)" "k = bsize (btype h q)" using xy(2) B by (auto elim: live_cases)
    show ?thesis using blocks_of_pages_apart [OF rep p(1,2) q(1,2)] p(3) q(3) by blast
  qed
  then show ?thesis by (auto simp: disjoint_blocks_def)
qed

text \<open>Taking the first free block of a page makes exactly that block live.\<close>

lemma live_take:
  assumes rep: "heap_rep lk h L F" and p: "p \<in> set L" and F: "F p = x # xs"
    and same: "page h' = page h" "btype h' = btype h"
  shows "live h' L (F(p := xs)) = insert (x, bsize (btype h p)) (live h L F)" and "(x, n) \<notin> live h L F"
proof -
  have x: "x \<in> blocks (page h p) (btype h p)" "x \<notin> set xs"
    using heap_rep_page(4) [OF rep p] F by (auto simp: page_free_def)
  have "(y, k) \<in> live h' L (F(p := xs)) \<longleftrightarrow> (y, k) = (x, bsize (btype h p)) \<or> (y, k) \<in> live h L F" for y k
  proof
    assume "(y, k) \<in> live h' L (F(p := xs))"
    then obtain q where "q \<in> set L" "y \<in> blocks (page h q) (btype h q)" "y \<notin> set ((F(p := xs)) q)" "k = bsize (btype h q)"
      unfolding live_iff same by blast
    then show "(y, k) = (x, bsize (btype h p)) \<or> (y, k) \<in> live h L F"
      using F by (cases "q = p") (auto simp: live_iff)
  next
    assume "(y, k) = (x, bsize (btype h p)) \<or> (y, k) \<in> live h L F"
    then show "(y, k) \<in> live h' L (F(p := xs))"
      using p F x unfolding live_iff same by (auto intro: bexI [of _ p])
  qed
  then show "live h' L (F(p := xs)) = insert (x, bsize (btype h p)) (live h L F)" by auto
  show "(x, n) \<notin> live h L F"
  proof
    assume "(x, n) \<in> live h L F"
    then obtain q where q: "q \<in> set L" "x \<in> blocks (page h q) (btype h q)" "x \<notin> set (F q)" by (auto elim: live_cases)
    then have "p \<noteq> q" using F by auto
    from blocks_of_pages_apart [OF rep p x(1) q(1,2)] this show False
      using bsize_bounds heap_rep_page(2) [OF rep p] heap_rep_page(2) [OF rep q(1)] by fastforce
  qed
qed

lemma live_in_pages:
  assumes "heap_rep lk h L F" and "(x, n) \<in> live h L F"
  obtains p where "p \<in> set L" and "unat (page h p) \<le> unat x" and "unat x + n \<le> unat (page h p) + 4096"
  using live_cases [OF assms(2)] blocks_in_page(1,2) [OF heap_rep_page(1,2) [OF assms(1)]] by metis

lemma kept_outside:
  assumes rep: "heap_rep lk h L F" and ch: "only_changes (unat P) 4096 (hmem h) (hmem h')"
    and P: "page_at P" "P \<notin> page h ` set L"
  shows "kept (live h L F) h h'"
  unfolding kept_def
proof (clarify)
  fix x n and a :: u32 assume xn: "(x, n) \<in> live h L F" and a: "unat x \<le> unat a" "unat a < unat x + n"
  obtain p where p: "p \<in> set L" "unat (page h p) \<le> unat x" "unat x + n \<le> unat (page h p) + 4096"
    using live_in_pages [OF rep xn] .
  have "page h p \<noteq> P" using P(2) p(1) by auto
  then have "unat (page h p) + 4096 \<le> unat P \<or> unat P + 4096 \<le> unat (page h p)"
    using pages_apart [OF heap_rep_page(1) [OF rep p(1)] P(1)] by simp
  then show "hmem h' a = hmem h a" using ch a p(2,3) by (auto simp: only_changes_def)
qed

subsection \<open>Allocating\<close>

text \<open>Physical memory may change as long as it keeps the heap's pages and what is in them.\<close>

lemma heap_rep_phys:
  assumes rep: "heap_rep lk h L F" and c: "core_inv c" "page h ` set L \<subseteq> kpages c"
    and ch: "only_changes (unat P) 4096 (hmem h) (kmem c)" and P: "page_at P" "P \<notin> page h ` set L"
  shows "heap_rep lk (h\<lparr>phys := c\<rparr>) L F"
proof -
  have same: "page (h\<lparr>phys := c\<rparr>) = page h" "btype (h\<lparr>phys := c\<rparr>) = btype h" "refs_ok (h\<lparr>phys := c\<rparr>) L = refs_ok h L"
    by (simp_all add: page_def btype_def refs_ok_def fun_eq_iff)
  have "page_free (kmem c) (page h q) (btype h q) (pagerefs h q) (F q)" if q: "q \<in> set L" for q
  proof (rule page_free_frame [OF _ _ _ ch])
    note pg = heap_rep_page [OF rep q]
    show "page_free (hmem h) (page h q) (btype h q) (pagerefs h q) (F q)" "page_at (page h q)" "btype h q < 8"
      using pg by simp_all
    have "page h q \<noteq> P" using P(2) q by auto
    then show "unat (page h q) + 4096 \<le> unat P \<or> unat P + 4096 \<le> unat (page h q)"
      using pages_apart [OF pg(1) P(1)] by simp
  qed
  then show ?thesis using rep c same by (auto simp: heap_rep_def pages_ok_def)
qed

lemma heap_rep_phys_grow:
  assumes rep: "heap_rep lk h L F" and c: "core_inv c" "kpages (phys h) \<subseteq> kpages c" "kmem c = hmem h"
  shows "heap_rep lk (h\<lparr>phys := c\<rparr>) L F"
  using assms by (auto simp: heap_rep_def pages_ok_def page_def btype_def refs_ok_def inj_on_def)

definition alloc_result :: "u32 \<Rightarrow> (vaddr \<times> nat) set \<Rightarrow> kheap \<Rightarrow> vaddr \<Rightarrow> kheap \<Rightarrow> bool" where
  "alloc_result sz B h ptr h' \<longleftrightarrow> kept B h h' \<and> low_same h h' \<and>
     (if ptr = 0 then heap_abs h' B
      else \<exists>n. unat sz \<le> n \<and> 16 dvd unat ptr \<and> (\<forall>k. (ptr, k) \<notin> B) \<and> heap_abs h' (insert (ptr, n) B))"

lemma doalloc_result:
  assumes rep: "heap_rep (held_by me) h L F" and p: "p \<in> set L" "unat sz \<le> bsize (btype h p)" and F: "F p = x # xs"
    and B: "B = live h L F" and kept: "kept B h0 h" "low_same h0 h"
  shows "\<exists>h'. doalloc me p h = Ok (x, h') \<and> alloc_result sz B h0 x h' \<and> x \<noteq> 0
    \<and> phys h' = phys h \<and> sizebases h' = sizebases h \<and> pagerefs_inuse h' = pagerefs_inuse h"
proof -
  obtain h' where h': "doalloc me p h = Ok (x, h')" "heap_rep spinlock_init h' L (F(p := xs))"
    "phys h' = phys h" "page h' = page h" "btype h' = btype h" "sizebases h' = sizebases h" "pagerefs_inuse h' = pagerefs_inuse h"
    using doalloc_spec [OF rep p(1) F] by blast
  have x: "x \<in> blocks (page h p) (btype h p)" using heap_rep_page(4) [OF rep p(1)] F by (auto simp: page_free_def)
  have "x \<noteq> 0" "16 dvd unat x" using blocks_in_page(3,4) [OF heap_rep_page(1,2) [OF rep p(1)] x] by auto
  moreover have "heap_abs h' (insert (x, bsize (btype h p)) B)" "\<forall>k. (x, k) \<notin> B"
    using live_take [OF rep p(1) F h'(4,5)] h'(2) B by (auto simp: heap_abs_def)
  moreover have "kept B h0 h'" "low_same h0 h'" using kept h'(3) by (simp_all add: kept_def low_same_def)
  ultimately show ?thesis using h'(1,3,6,7) p(2) unfolding alloc_result_def by auto
qed

lemma subpage_kmalloc_new_page:
  assumes rep: "heap_rep spinlock_init h L F" and b: "b < 8" "unat sz \<le> bsize b"
    and P: "alloc_kpages me 1 (phys h) = Ok (P, c)" "P \<noteq> 0" and B: "B = live h L F"
    and inuse: "allocpageref (pagerefs_inuse h) = Ok (Some (p, inuse))"
  shows "\<exists>ptr h'. bindR (init_page p b P ((h\<lparr>phys := c\<rparr>)\<lparr>kmalloc_spinlock := held_by me, pagerefs_inuse := inuse\<rparr>)) (doalloc me p)
      = Ok (ptr, h') \<and> alloc_result sz B h ptr h' \<and> ptr \<noteq> 0
      \<and> (\<exists>m. phys h' = c\<lparr>kmem := m\<rparr>) \<and> sizebases h' = (sizebases h)(b := Some p) \<and> pagerefs_inuse h' = inuse
      \<and> only_changes (unat P) 4096 (hmem h) (hmem h')"
proof -
  have inv: "core_inv (phys h)" "inuse_ok (pagerefs_inuse h)" "set L = inuse_set (pagerefs_inuse h)"
    using rep by (auto simp: heap_rep_def refs_ok_def)
  from kp.get_page [OF inv(1) P] have c: "core_inv c" "P \<notin> kpages (phys h)" "kpages c = insert P (kpages (phys h))" "kmem c = hmem h"
    by auto
  have at: "page_at P" using kpages_page_at [OF c(1)] c(3) by simp
  have new: "P \<notin> page h ` set L" using c(2) heap_rep_page(3) [OF rep] by auto
  have "inuse_set (pagerefs_inuse h) \<noteq> {..<32 * length (pagerefs_inuse h)}"
    using pr.alloc_full [OF inv(2)] inuse by auto
  from pr.alloc_free [OF inv(2) this] inuse have
    p: "p \<notin> set L" "inuse_ok inuse" "inuse_set inuse = insert p (set L)" using inv(3) by auto
  let ?h = "(h\<lparr>phys := c\<rparr>)\<lparr>kmalloc_spinlock := held_by me, pagerefs_inuse := inuse\<rparr>"
  have rep1: "heap_rep (held_by me) (?h\<lparr>pagerefs_inuse := pagerefs_inuse h\<rparr>) L F"
    using heap_rep_lock [OF heap_rep_phys_grow [OF rep c(1) _ c(4)], of "held_by me"] c(3) by auto
  have pg: "page ?h = page h" "btype ?h = btype h" by (simp_all add: page_def btype_def fun_eq_iff)
  obtain h' m where h': "init_page p b P ?h = Ok h'" "heap_rep (held_by me) h' (p # L) (F(p := down P b (bcount b)))"
    "phys h' = (phys ?h)\<lparr>kmem := m\<rparr>" "only_changes (unat P) 4096 (hmem ?h) m"
    "page h' = (page ?h)(p := P)" "btype h' = (btype ?h)(p := b)" "sizebases h' = (sizebases ?h)(b := Some p)"
    "pagerefs_inuse h' = pagerefs_inuse ?h"
    using init_page_spec [OF rep1 b(1) at, of p] c(3) new p pg by auto
  obtain k where k: "bcount b = Suc k" using bcount_bounds [OF b(1)] by (cases "bcount b") auto
  have blocks_all: "set (down P b (bcount b)) = blocks P b" by (auto simp: down_def blocks_def)
  have "live h' (p # L) (F(p := down P b (bcount b))) = B"
  proof -
    have "(y, n) \<in> live h' (p # L) (F(p := down P b (bcount b))) \<longleftrightarrow> (y, n) \<in> live h L F" for y n
      unfolding live_iff h'(5,6) pg using p(1) blocks_all by auto
    then show ?thesis unfolding B by auto
  qed
  moreover have ch: "only_changes (unat P) 4096 (hmem h) (hmem h')" using h'(3,4) c(4) by simp
  moreover have "kept B h h'" unfolding B by (rule kept_outside [OF rep ch at new])
  moreover have "low_same h h'"
    using kpage_high [OF c(1), of P] c(3) page_start_alloc [OF inv(1) P(1)] h'(3) by (intro low_same_changes [OF ch]) simp_all
  moreover have "btype h' p = b" using h'(6) by simp
  ultimately show ?thesis
    using doalloc_result [OF h'(2), of p sz "blk P b k" "down P b k" B h] b(2) k h'(1,3,7,8) by auto
qed

lemma outside_page:
  assumes "page_at P" and "\<not> (unat P \<le> unat x \<and> unat x < unat P + 4096)"
  shows "4096 \<le> unat (x - P)"
  using assms unat_u32_bound [of x] by (auto simp: page_at_def unat_sub_if')

lemma free_kpages_spec:
  assumes "core_inv c" and "P \<in> kpages c"
  obtains c' where "free_kpages me P c = Ok c'" and "core_inv c'" and "kpages c' = kpages c - {P}"
    and "only_changes (unat P) 4096 (kmem c) (kmem c')"
proof -
  have at: "page_at P" by (rule kpages_page_at [OF assms])
  from kp.put_page [OF assms, of me] obtain c' where c': "free_kpages me P c = Ok c'" "core_inv c'" "kpages c' = kpages c - {P}"
    "\<forall>x. 4096 \<le> unat (x - P) \<longrightarrow> kmem c' x = kmem c x" by blast
  have "only_changes (unat P) 4096 (kmem c) (kmem c')"
    using c'(4) outside_page [OF at] by (auto simp: only_changes_def)
  then show ?thesis using that c' by blast
qed

lemma alloc_kpages_halts:
  assumes "core_inv c" and "alloc_kpages me 1 c = Halt x"
  shows "\<not> free_run (coremaps c) a 1"
proof
  assume "free_run (coremaps c) a 1"
  then obtain b where "first_run (coremaps c) b 1" using first_run_exists by blast
  then show False using getppages_run [OF assms(1), of 1 b me KERNEL] assms(2) by (simp add: alloc_kpages_def split: if_splits)
qed

lemma subpage_kmalloc_no_ref:
  assumes rep: "heap_rep spinlock_init h L F" and P: "alloc_kpages me 1 (phys h) = Ok (P, c)" "P \<noteq> 0"
  shows "\<exists>c'. free_kpages me P c = Ok c' \<and> heap_rep spinlock_init (h\<lparr>phys := c'\<rparr>) L F
    \<and> kept (live h L F) h (h\<lparr>phys := c'\<rparr>) \<and> low_same h (h\<lparr>phys := c'\<rparr>)"
proof -
  have inv: "core_inv (phys h)" using rep by (simp add: heap_rep_def)
  from kp.get_page [OF inv P] have c: "core_inv c" "P \<notin> kpages (phys h)" "kpages c = insert P (kpages (phys h))" "kmem c = hmem h"
    by auto
  obtain c' where c': "free_kpages me P c = Ok c'" "core_inv c'" "kpages c' = kpages c - {P}"
    "only_changes (unat P) 4096 (kmem c) (kmem c')"
    using free_kpages_spec [OF c(1), of P me] c(3) by blast
  have at: "page_at P" using kpages_page_at [OF c(1)] c(3) by simp
  have new: "P \<notin> page h ` set L" using c(2) heap_rep_page(3) [OF rep] by auto
  have ch: "only_changes (unat P) 4096 (hmem h) (kmem c')" using c'(4) c(4) by simp
  have "low_same h (h\<lparr>phys := c'\<rparr>)"
    using kpage_high [OF c(1), of P] c(3) page_start_alloc [OF inv P(1)] page_start_free [OF c'(1)] ch
    by (intro low_same_changes [of P 4096]) simp_all
  moreover have "page h ` set L \<subseteq> kpages c'" using heap_rep_page(3) [OF rep] c'(3) c(2,3) by auto
  ultimately show ?thesis
    using c'(1) heap_rep_phys [OF rep c'(2) _ ch at new] kept_outside [OF rep _ at new, of "h\<lparr>phys := c'\<rparr>"] ch by auto
qed

lemma live_phys [simp]: "live (h\<lparr>phys := c\<rparr>) L F = live h L F"
  by (simp add: live_def page_def btype_def)

lemma subpage_kmalloc_spec:
  assumes abs: "heap_abs h B" and sz: "unat sz \<le> 2048"
  shows "case subpage_kmalloc me sz h of
      Ok (ptr, h') \<Rightarrow> alloc_result sz B h ptr h'
    | Halt _ \<Rightarrow> (\<forall>a. \<not> free_run (coremaps (phys h)) a 1)"
proof -
  obtain L F where rep: "heap_rep spinlock_init h L F" and B: "B = live h L F" using abs by (auto simp: heap_abs_def)
  obtain b where b: "b < 8" "blocktype sz = Ok b" "unat sz \<le> bsize b" using blocktype_spec [OF sz] by blast
  let ?h = "h\<lparr>kmalloc_spinlock := held_by me\<rparr>"
  have lk: "lock_heap me h = Ok ?h" using rep by (intro lock_heap_ok) (simp add: heap_rep_def)
  have rep1: "heap_rep (held_by me) ?h L F" by (rule heap_rep_lock [OF rep])
  from find_page_heap [OF rep1 b(1)] show ?thesis
  proof
    assume "\<exists>p x xs. find_page NPAGEREFS ?h b (sizebases ?h b) = Ok (Some p) \<and> p \<in> set L \<and> btype ?h p = b \<and> F p = x # xs"
    then obtain p x xs where p: "find_page NPAGEREFS ?h b (sizebases ?h b) = Ok (Some p)" "p \<in> set L" "btype ?h p = b" "F p = x # xs" by blast
    have "\<exists>h'. doalloc me p ?h = Ok (x, h') \<and> alloc_result sz B h x h'"
      using doalloc_result [OF rep1 p(2) _ p(4), of sz B h] p(3) b(3) B by (auto simp: kept_refl low_same_refl)
    then show ?thesis using lk b(2) p(1) by (auto simp: subpage_kmalloc_def)
  next
    assume none: "find_page NPAGEREFS ?h b (sizebases ?h b) = Ok None"
    have unlk: "unlock_heap me ?h = Ok h"
    proof -
      have "?h\<lparr>kmalloc_spinlock := spinlock_init\<rparr> = h" using rep by (simp add: heap_rep_def)
      then show ?thesis using unlock_heap_ok [of ?h me] by simp
    qed
    have inv: "core_inv (phys h)" "inuse_ok (pagerefs_inuse h)" using rep by (auto simp: heap_rep_def refs_ok_def)
    show ?thesis
    proof (cases "alloc_kpages me 1 (phys h)")
      case (Halt x)
      then show ?thesis using lk b(2) none unlk alloc_kpages_halts [OF inv(1) Halt] by (simp add: subpage_kmalloc_def)
    next
      case (Ok r)
      obtain P c where P: "alloc_kpages me 1 (phys h) = Ok (P, c)" using Ok by (cases r) auto
      let ?hc = "h\<lparr>phys := c\<rparr>"
      show ?thesis
      proof (cases "P = 0")
        case True
        have "core_inv c" "kpages (phys h) \<subseteq> kpages c" "kmem c = hmem h" using kp.get_none [OF inv(1)] P True by auto
        then have "heap_abs ?hc B" "kept B h ?hc" "low_same h ?hc"
          using heap_rep_phys_grow [OF rep] B page_start_alloc [OF inv(1) P] by (auto simp: heap_abs_def kept_def low_same_def)
        then show ?thesis using lk b(2) none unlk P True by (simp add: subpage_kmalloc_def alloc_result_def)
      next
        case P0: False
        have lk2: "lock_heap me ?hc = Ok (?hc\<lparr>kmalloc_spinlock := held_by me\<rparr>)"
          using rep by (intro lock_heap_ok) (simp add: heap_rep_def)
        have run: "subpage_kmalloc me sz h =
            bindR (allocpageref (pagerefs_inuse h)) (\<lambda>r.
               case r of None \<Rightarrow> bindR (free_kpages me P c) (\<lambda>c. Ok (0, h\<lparr>phys := c\<rparr>))
               | Some (p, inuse) \<Rightarrow> bindR (init_page p b P (?hc\<lparr>kmalloc_spinlock := held_by me, pagerefs_inuse := inuse\<rparr>)) (doalloc me p))"
        proof -
          have un: "unlock_heap me (?hc\<lparr>kmalloc_spinlock := held_by me\<rparr>) = Ok ?hc"
            using rep unlock_heap_ok [of "?hc\<lparr>kmalloc_spinlock := held_by me\<rparr>" me] by (simp add: heap_rep_def)
          show ?thesis using lk b(2) none unlk P P0 lk2 un
            by (simp add: subpage_kmalloc_def cong: option.case_cong)
        qed
        show ?thesis
        proof (cases "inuse_set (pagerefs_inuse h) = {..<32 * length (pagerefs_inuse h)}")
          case True
          obtain c' where c': "free_kpages me P c = Ok c'" "heap_rep spinlock_init (h\<lparr>phys := c'\<rparr>) L F"
            "kept (live h L F) h (h\<lparr>phys := c'\<rparr>)" "low_same h (h\<lparr>phys := c'\<rparr>)"
            using subpage_kmalloc_no_ref [OF rep P P0] by blast
          then have "alloc_result sz B h 0 (h\<lparr>phys := c'\<rparr>)"
            using B by (auto simp: alloc_result_def heap_abs_def)
          then show ?thesis unfolding run using pr.alloc_full [OF inv(2) True] c'(1) by simp
        next
          case False
          then obtain p inuse where p: "allocpageref (pagerefs_inuse h) = Ok (Some (p, inuse))"
            using pr.alloc_free [OF inv(2)] by blast
          show ?thesis unfolding run using p subpage_kmalloc_new_page [OF rep b(1,3) P P0 B p] by auto
        qed
      qed
    qed
  qed
qed

subsection \<open>Putting a block on a free list\<close>

lemma fill_deadbeef_loop_changes:
  "(\<And>i. i \<in> set is \<Longrightarrow> i < n) \<Longrightarrow> unat a + 4 * n \<le> 2 ^ 32 \<Longrightarrow>
    only_changes (unat a) (4 * n) m (fill_deadbeef_loop a is m)"
proof (induction "is" arbitrary: m)
  case (Cons i "is")
  have i: "i < n" using Cons.prems(1) by simp
  have addr: "a + 4 * of_nat i = a + of_nat (4 * i)" by simp
  have u: "unat (a + of_nat (4 * i)) = unat a + 4 * i" using i Cons.prems(2) unfolding unat_add_of_nat by simp
  have "only_changes (unat a) (4 * n) m (store32 m (a + of_nat (4 * i)) 0xdeadbeef)"
    using u i Cons.prems(2) by (intro only_changes_wider [OF store32_changes]) auto
  moreover have "only_changes (unat a) (4 * n) m' (fill_deadbeef_loop a is m')" for m'
    using Cons.prems by (intro Cons.IH) auto
  ultimately show ?case unfolding fill_deadbeef_loop.simps addr by (rule only_changes_trans)
qed simp

lemma bsize_words: "b < 8 \<Longrightarrow> 4 * (bsize b div 4) = bsize b"
  by (drule less_8) (auto simp: bsize_def)

lemma fill_deadbeef_changes:
  assumes "b < 8" and "unat a + bsize b \<le> 2 ^ 32"
  shows "only_changes (unat a) (bsize b) m (fill_deadbeef m a (sizes ! b))"
proof -
  have "only_changes (unat a) (4 * (bsize b div 4)) m (fill_deadbeef_loop a [0..<bsize b div 4] m)"
    using assms bsize_words [OF assms(1)] by (intro fill_deadbeef_loop_changes) auto
  then show ?thesis using bsize_words [OF assms(1)] unat_sizes [OF assms(1)] by (simp add: fill_deadbeef_def unat_quarter)
qed

text \<open>The memory after a block has been cleared and linked in front of the free list.\<close>

definition link_block :: "mem \<Rightarrow> vaddr \<Rightarrow> nat \<Rightarrow> pageref \<Rightarrow> vaddr \<Rightarrow> mem" where
  "link_block m P b pr x =
     store32 (fill_deadbeef m x (sizes ! b)) x
       (if freelist_offset pr = INVALID_OFFSET then 0 else P + ucast (freelist_offset pr))"

lemma link_block_changes:
  assumes "page_at P" and "b < 8" and "x \<in> blocks P b"
  shows "only_changes (unat x) (bsize b) m (link_block m P b pr x)"
proof -
  have fit: "unat x + bsize b \<le> 2 ^ 32" "4 \<le> bsize b"
    using blocks_in_page(2) [OF assms] assms(1) bsize_bounds [OF assms(2)] by (auto simp: page_at_def)
  have "only_changes (unat x) (bsize b) m' (store32 m' x w)" for m' w
    using fit by (intro only_changes_wider [OF store32_changes]) auto
  then show ?thesis unfolding link_block_def
    using fill_deadbeef_changes [OF assms(2) fit(1), of m] by (rule only_changes_trans [rotated])
qed

lemma link_block_free:
  assumes P: "page_at P" and b: "b < 8" and free: "page_free m P b pr xs"
    and x: "x \<in> blocks P b" "x \<notin> set xs"
    and pr': "pr' = pr\<lparr>freelist_offset := ucast (x - P), nfree := nfree pr + 1\<rparr>"
  shows "page_free (link_block m P b pr x) P b pr' (x # xs)" and "Suc (length xs) \<le> bcount b"
proof -
  let ?m = "link_block m P b pr x"
  have xs: "unat (nfree pr) = length xs" "distinct xs" "set xs \<subseteq> blocks P b" "linked m xs"
    using free by (auto simp: page_free_def)
  have "card (set (x # xs)) \<le> card (blocks P b)"
    using x(1) xs(3) by (intro card_mono) (auto simp: blocks_def)
  moreover have "card (set (x # xs)) = Suc (length xs)" using xs(2) x(2) by (simp add: distinct_card)
  moreover have "card (blocks P b) \<le> bcount b" unfolding blocks_def using card_image_le [of "{..<bcount b}" "blk P b"] by simp
  ultimately show len: "Suc (length xs) \<le> bcount b" by linarith
  have "length xs < 256" using len bcount_bounds [OF b] by linarith
  then have nf: "unat (nfree pr + 1) = Suc (length xs)" using xs(1) by (simp add: unat_plus_if')
  have "load32 ?m y = load32 m y" if "y \<in> set xs" for y
  proof (rule only_changes_load [OF link_block_changes [OF P b x(1)]])
    have y: "y \<in> blocks P b" "y \<noteq> x" using that xs(3) x(2) by auto
    have "4 \<le> bsize b" using bsize_bounds [OF b] by linarith
    then show "unat y + 4 \<le> unat x \<or> unat x + bsize b \<le> unat y" "unat y + 4 \<le> 2 ^ 32"
      using blocks_apart [OF P b x(1) y(1)] y(2) blocks_in_page(2) [OF P b y(1)] P by (auto simp: page_at_def)
  qed
  then have tail: "linked ?m xs" using xs(4) linked_frame by blast
  have hd: "load32 ?m x = (case xs of [] \<Rightarrow> 0 | y # _ \<Rightarrow> y)"
  proof (cases xs)
    case Nil
    then show ?thesis using free load32_store32 by (simp add: link_block_def page_free_def)
  next
    case (Cons y ys)
    then have "unat (freelist_offset pr) < 4096" "P + ucast (freelist_offset pr) = y" using free by (auto simp: page_free_def)
    moreover have "unat INVALID_OFFSET = 65535" by (simp add: INVALID_OFFSET_def)
    ultimately have "freelist_offset pr \<noteq> INVALID_OFFSET" "P + ucast (freelist_offset pr) = y" by auto
    then show ?thesis using Cons load32_store32 by (simp add: link_block_def)
  qed
  have "linked ?m (x # xs)" using tail hd by (cases xs) auto
  then show "page_free ?m P b pr' (x # xs)"
    using nf xs x offset_in_page(1,3,4) [OF P b x(1)] unfolding page_free_def pr' by simp
qed

subsection \<open>Finding and removing a page reference\<close>

definition in_page :: "kheap \<Rightarrow> vaddr \<Rightarrow> nat \<Rightarrow> bool" where
  "in_page h a p \<longleftrightarrow> a \<ge> page h p \<and> a < page h p + PAGE_SIZE"

lemma find_owner_spec:
  "lchain (\<lambda>p. next_all (pagerefs h p)) base ps \<Longrightarrow> length ps \<le> fuel \<Longrightarrow> (\<And>p. p \<in> set ps \<Longrightarrow> btype h p < 8) \<Longrightarrow>
    find_owner fuel h a base = Ok (find (in_page h a) ps)"
proof (induction ps arbitrary: base fuel)
  case (Cons p ps)
  then obtain f where "fuel = Suc f" by (cases fuel) auto
  moreover have "btype h p < NSIZES" using Cons.prems(3) by (simp add: NSIZES_def)
  ultimately show ?case using Cons by (simp add: in_page_def page_def btype_def Let_def)
qed simp

lemma in_page_iff: "page_at (page h p) \<Longrightarrow> in_page h a p \<longleftrightarrow> unat (page h p) \<le> unat a \<and> unat a < unat (page h p) + 4096"
  by (simp add: in_page_def word_le_nat_alt word_less_nat_alt layout_defs page_at_def unat_plus_if')

lemma find_owner_heap:
  assumes rep: "heap_rep lk h L F"
  shows "p \<in> set L \<Longrightarrow> x \<in> blocks (page h p) (btype h p) \<Longrightarrow> find_owner NPAGEREFS h x (allbase h) = Ok (Some p)"
    and "(\<And>p. p \<in> set L \<Longrightarrow> \<not> in_page h x p) \<Longrightarrow> find_owner NPAGEREFS h x (allbase h) = Ok None"
proof -
  have chain: "lchain (\<lambda>p. next_all (pagerefs h p)) (allbase h) L" "length L \<le> NPAGEREFS"
    using rep refs_ok_length by (auto simp: heap_rep_def refs_ok_def)
  have run: "find_owner NPAGEREFS h x (allbase h) = Ok (find (in_page h x) L)"
    using heap_rep_page(2) [OF rep] by (intro find_owner_spec [OF chain]) auto
  show "find_owner NPAGEREFS h x (allbase h) = Ok (Some p)" if p: "p \<in> set L" and x: "x \<in> blocks (page h p) (btype h p)"
  proof -
    note pg = heap_rep_page [OF rep p]
    have "0 < bsize (btype h p)" using bsize_bounds [OF pg(2)] by linarith
    then have inp: "in_page h x p" using in_page_iff [OF pg(1)] blocks_in_page(1,2) [OF pg(1,2) x] by auto
    have uniq: "q = p" if q: "q \<in> set L" "in_page h x q" for q
    proof (rule ccontr)
      assume "q \<noteq> p"
      then have "page h q \<noteq> page h p" using rep p q(1) by (auto simp: heap_rep_def pages_ok_def inj_on_def)
      then show False
        using pages_apart [OF heap_rep_page(1) [OF rep q(1)] pg(1)] inp q(2)
          in_page_iff [OF pg(1)] in_page_iff [OF heap_rep_page(1) [OF rep q(1)]] by auto
    qed
    obtain q where "find (in_page h x) L = Some q" using p inp by (cases "find (in_page h x) L") (auto simp: find_None_iff)
    with find_SomeD [OF this] uniq run show ?thesis by auto
  qed
  show "find_owner NPAGEREFS h x (allbase h) = Ok None" if "\<And>p. p \<in> set L \<Longrightarrow> \<not> in_page h x p"
    using run that by (simp add: find_None_iff [THEN iffD2])
qed

lemma lchain_bypass:
  "lchain nxt base (zs @ z # y # ys) \<Longrightarrow> distinct (zs @ z # y # ys) \<Longrightarrow> lchain (nxt(z := nxt y)) base (zs @ z # ys)"
proof (induction zs arbitrary: base)
  case Nil
  then show ?case by (auto intro: lchain_frame)
qed simp

lemma lchain_read:
  "lchain nxt base (zs @ y # ys) \<Longrightarrow> read_link (base, nxt) (if zs = [] then None else Some (last zs)) = Some y"
proof (induction zs arbitrary: base)
  case (Cons z zs)
  then show ?case by (cases zs) auto
qed simp

lemma unlink_from:
  "lchain nxt base (zs @ ys) \<Longrightarrow> distinct (zs @ ys) \<Longrightarrow> p \<in> set ys \<Longrightarrow> length ys \<le> fuel \<Longrightarrow>
    guy = (if zs = [] then None else Some (last zs)) \<Longrightarrow>
    \<exists>base' nxt'. unlink fuel (base, nxt) guy p = Ok (base', nxt') \<and> lchain nxt' base' (zs @ remove1 p ys)
      \<and> (\<forall>q. q \<notin> set (zs @ ys) \<longrightarrow> nxt' q = nxt q)"
proof (induction ys arbitrary: zs fuel guy)
  case (Cons y ys)
  obtain f where f: "fuel = Suc f" using Cons.prems(4) by (cases fuel) auto
  have rd: "read_link (base, nxt) guy = Some y" using lchain_read [OF Cons.prems(1)] Cons.prems(5) by simp
  show ?case
  proof (cases "y = p")
    case True
    show ?thesis
    proof (cases zs rule: rev_cases)
      case Nil
      then show ?thesis using True f rd Cons.prems by simp
    next
      case (snoc ws z)
      have "lchain (nxt(z := nxt y)) base (ws @ z # ys)"
        using lchain_bypass [of nxt base ws z y ys] Cons.prems(1,2) snoc by simp
      then show ?thesis using True f rd snoc Cons.prems(5) by simp
    qed
  next
    case False
    have "\<exists>base' nxt'. unlink f (base, nxt) (Some y) p = Ok (base', nxt') \<and> lchain nxt' base' ((zs @ [y]) @ remove1 p ys)
        \<and> (\<forall>q. q \<notin> set ((zs @ [y]) @ ys) \<longrightarrow> nxt' q = nxt q)"
      using Cons.prems False f by (intro Cons.IH) auto
    then show ?thesis using False f rd by simp
  qed
qed simp

lemma unlink_spec:
  assumes "lchain nxt base ps" and "distinct ps" and "p \<in> set ps" and "length ps \<le> fuel"
  obtains base' nxt' where "unlink fuel (base, nxt) None p = Ok (base', nxt')" and "lchain nxt' base' (remove1 p ps)"
    and "\<And>q. q \<notin> set ps \<Longrightarrow> nxt' q = nxt q"
  using unlink_from [of nxt base "[]" ps p fuel None] assms by auto

text \<open>A whole page leaves the two lists.\<close>

lemma remove_lists_spec:
  assumes rep: "heap_rep lk h L F" and p: "p \<in> set L"
  shows "\<exists>h'. remove_lists p (btype h p) h = Ok h'
    \<and> lchain (\<lambda>q. next_all (pagerefs h' q)) (allbase h') (remove1 p L)
    \<and> (\<forall>b<8. lchain (\<lambda>q. next_samesize (pagerefs h' q)) (sizebases h' b) (filter (\<lambda>q. btype h q = b) (remove1 p L)))
    \<and> page h' = page h \<and> btype h' = btype h \<and> phys h' = phys h \<and> pagerefs_inuse h' = pagerefs_inuse h
    \<and> kmalloc_spinlock h' = kmalloc_spinlock h
    \<and> (\<forall>q. freelist_offset (pagerefs h' q) = freelist_offset (pagerefs h q) \<and> nfree (pagerefs h' q) = nfree (pagerefs h q))"
proof -
  let ?b = "btype h p"
  let ?ps = "filter (\<lambda>q. btype h q = ?b) L"
  have r: "distinct L" "lchain (\<lambda>q. next_all (pagerefs h q)) (allbase h) L"
    "\<And>b. b < 8 \<Longrightarrow> lchain (\<lambda>q. next_samesize (pagerefs h q)) (sizebases h b) (filter (\<lambda>q. btype h q = b) L)"
    and len: "length L \<le> NPAGEREFS"
    using rep refs_ok_length by (auto simp: heap_rep_def refs_ok_def)
  have b: "?b < 8" by (rule heap_rep_page(2) [OF rep p])
  have ps: "distinct ?ps" "p \<in> set ?ps" "length ?ps \<le> NPAGEREFS"
    using r(1) p len order_trans [OF length_filter_le] by auto
  obtain base nxt where u1: "unlink NPAGEREFS (sizebases h ?b, \<lambda>q. next_samesize (pagerefs h q)) None p = Ok (base, nxt)"
    "lchain nxt base (remove1 p ?ps)" "\<And>q. q \<notin> set ?ps \<Longrightarrow> nxt q = next_samesize (pagerefs h q)"
    by (rule unlink_spec [OF r(3) [OF b] ps]) blast
  obtain base2 nxt2 where u2: "unlink NPAGEREFS (allbase h, \<lambda>q. next_all (pagerefs h q)) None p = Ok (base2, nxt2)"
    "lchain nxt2 base2 (remove1 p L)"
    using unlink_spec [OF r(2,1) p len] by metis
  let ?h = "h\<lparr>sizebases := (sizebases h)(?b := base),
      pagerefs := (\<lambda>q. (pagerefs h q)\<lparr>next_samesize := nxt q, next_all := nxt2 q\<rparr>), allbase := base2\<rparr>"
  have run: "remove_lists p ?b h = Ok ?h" using b u1(1) u2(1) by (simp add: remove_lists_def NSIZES_def Let_def)
  have "lchain nxt (((sizebases h)(?b := base)) c) (filter (\<lambda>q. btype h q = c) (remove1 p L))" if c: "c < 8" for c
  proof (cases "c = ?b")
    case True
    then show ?thesis using u1(2) by (simp add: filter_remove1)
  next
    case False
    then have "p \<notin> set (filter (\<lambda>q. btype h q = c) L)" by auto
    then have "filter (\<lambda>q. btype h q = c) (remove1 p L) = filter (\<lambda>q. btype h q = c) L"
      by (metis filter_remove1 remove1_idem)
    moreover have "nxt q = next_samesize (pagerefs h q)" if "q \<in> set (filter (\<lambda>q. btype h q = c) L)" for q
      using u1(3) [of q] that False by auto
    ultimately show ?thesis using lchain_frame [OF r(3) [OF c], of nxt] False by simp
  qed
  then show ?thesis using run u2(2)
    by (intro exI [of _ ?h]) (simp add: page_def btype_def PR_PAGEADDR_def PR_BLOCKTYPE_def fun_eq_iff)
qed

subsection \<open>Freeing\<close>

text \<open>The heap with block \<open>x\<close> of page \<open>p\<close> put back.\<close>

definition returned :: "nat \<Rightarrow> vaddr \<Rightarrow> kheap \<Rightarrow> kheap" where
  "returned p x h =
     set_ref p ((pagerefs h p)\<lparr>freelist_offset := ucast (x - page h p), nfree := nfree (pagerefs h p) + 1\<rparr>)
       (set_hmem (link_block (hmem h) (page h p) (btype h p) (pagerefs h p) x) h)"

lemma returned_simps:
  "page (returned p x h) = page h" "btype (returned p x h) = btype h" "refs_ok (returned p x h) L = refs_ok h L"
  "hmem (returned p x h) = link_block (hmem h) (page h p) (btype h p) (pagerefs h p) x"
  "kpages (phys (returned p x h)) = kpages (phys h)" "core_inv (phys (returned p x h)) = core_inv (phys h)"
  "kmalloc_spinlock (returned p x h) = kmalloc_spinlock h" "pagerefs_inuse (returned p x h) = pagerefs_inuse h"
proof -
  have h: "page (set_hmem m h) = page h" "btype (set_hmem m h) = btype h" "refs_ok (set_hmem m h) L = refs_ok h L"
    "pagerefs (set_hmem m h) = pagerefs h" for m
    by (simp_all add: page_def btype_def refs_ok_def set_hmem_def fun_eq_iff)
  show "page (returned p x h) = page h" "btype (returned p x h) = btype h" "refs_ok (returned p x h) L = refs_ok h L"
    unfolding returned_def by (subst set_ref_same; simp add: h)+
qed (simp_all add: returned_def set_ref_def set_hmem_def)

lemma returned_rep:
  assumes rep: "heap_rep lk h L F" and p: "p \<in> set L" and x: "x \<in> blocks (page h p) (btype h p)" "x \<notin> set (F p)"
  shows "heap_rep lk (returned p x h) L (F(p := x # F p))"
    and "live (returned p x h) L (F(p := x # F p)) = live h L F - {(x, bsize (btype h p))}"
    and "kept (live h L F - {(x, bsize (btype h p))}) h (returned p x h)"
    and "low_same h (returned p x h)"
    and "Suc (length (F p)) \<le> bcount (btype h p)"
proof -
  let ?h = "returned p x h" and ?b = "btype h p"
  note pg = heap_rep_page [OF rep p]
  note lb = link_block_free [OF pg(1,2,4) x refl]
  note ch = link_block_changes [OF pg(1,2) x(1), of "hmem h" "pagerefs h p"]
  show "Suc (length (F p)) \<le> bcount ?b" by (rule lb(2))
  have refp: "pagerefs ?h q = (if q = p then (pagerefs h p)\<lparr>freelist_offset := ucast (x - page h p), nfree := nfree (pagerefs h p) + 1\<rparr>
      else pagerefs h q)" for q by (simp add: returned_def set_ref_def set_hmem_def)
  have keep: "page_free (hmem ?h) (page h q) (btype h q) (pagerefs h q) (F q)" if q: "q \<in> set L" "q \<noteq> p" for q
  proof (rule page_free_frame [OF heap_rep_page(4,1,2) [OF rep q(1)]])
    show "only_changes (unat x) (bsize ?b) (hmem h) (hmem ?h)" using ch by (simp add: returned_simps)
    have "page h q \<noteq> page h p" using rep p q by (auto simp: heap_rep_def pages_ok_def inj_on_def)
    then show "unat (page h q) + 4096 \<le> unat x \<or> unat x + bsize ?b \<le> unat (page h q)"
      using pages_apart [OF heap_rep_page(1) [OF rep q(1)] pg(1)] blocks_in_page(1,2) [OF pg(1,2) x(1)] by linarith
  qed
  have "pages_ok ?h L (F(p := x # F p))"
    using rep lb(1) keep refp by (auto simp: heap_rep_def pages_ok_def returned_simps)
  then show "heap_rep lk ?h L (F(p := x # F p))" using rep by (simp add: heap_rep_def returned_simps)
  have other: "\<not> (q \<noteq> p \<and> x \<in> blocks (page h q) (btype h q))" if "q \<in> set L" for q
    using blocks_of_pages_apart [OF rep p x(1) that, of x] bsize_bounds pg(2) heap_rep_page(2) [OF rep that] by fastforce
  have "(y, k) \<in> live ?h L (F(p := x # F p)) \<longleftrightarrow> (y, k) \<in> live h L F \<and> (y, k) \<noteq> (x, bsize ?b)" for y k
  proof
    assume "(y, k) \<in> live ?h L (F(p := x # F p))"
    then obtain q where q: "q \<in> set L" "y \<in> blocks (page h q) (btype h q)" "y \<notin> set ((F(p := x # F p)) q)" "k = bsize (btype h q)"
      unfolding live_iff returned_simps by blast
    then show "(y, k) \<in> live h L F \<and> (y, k) \<noteq> (x, bsize ?b)"
      using other [OF q(1)] by (cases "q = p") (auto simp: live_iff)
  next
    assume "(y, k) \<in> live h L F \<and> (y, k) \<noteq> (x, bsize ?b)"
    then obtain q where q: "q \<in> set L" "y \<in> blocks (page h q) (btype h q)" "y \<notin> set (F q)" "k = bsize (btype h q)"
      "(y, k) \<noteq> (x, bsize ?b)" unfolding live_iff by blast
    then have "y \<notin> set ((F(p := x # F p)) q)" by (cases "q = p") auto
    with q show "(y, k) \<in> live ?h L (F(p := x # F p))" unfolding live_iff returned_simps by blast
  qed
  then show "live ?h L (F(p := x # F p)) = live h L F - {(x, bsize ?b)}" by auto
  have "hmem ?h a = hmem h a"
    if y: "(y, k) \<in> live h L F" "(y, k) \<noteq> (x, bsize ?b)" and a: "unat y \<le> unat a" "unat a < unat y + k" for y k and a :: u32
  proof -
    obtain q where q: "q \<in> set L" "y \<in> blocks (page h q) (btype h q)" "k = bsize (btype h q)" using y(1) by (auto elim: live_cases)
    then have "p \<noteq> q \<or> x \<noteq> y" using y(2) by auto
    then have "unat x + bsize ?b \<le> unat y \<or> unat y + k \<le> unat x" using blocks_of_pages_apart [OF rep p x(1) q(1,2)] q(3) by simp
    then show ?thesis using ch a by (auto simp: only_changes_def returned_simps)
  qed
  then show "kept (live h L F - {(x, bsize ?b)}) h ?h" unfolding kept_def by blast
  have "core_inv (phys h)" using rep by (simp add: heap_rep_def)
  then have "2 ^ 31 + unat (page_start (phys h)) \<le> unat x"
    using kpage_high [OF _ pg(3)] blocks_in_page(1) [OF pg(1,2) x(1)] by force
  then show "low_same h ?h"
    using ch by (intro low_same_changes [of x "bsize ?b"]) (simp_all add: returned_simps returned_def set_ref_def set_hmem_def)
qed

text \<open>A page all of whose blocks are free is taken out of the heap and given back.\<close>

lemma give_page_back:
  assumes rep: "heap_rep (held_by me) h L F" and p: "p \<in> set L" and full: "set (F p) = blocks (page h p) (btype h p)"
    and P: "P = page h p"
  shows "\<exists>h'. bindR (remove_lists p (btype h p) h) (\<lambda>h.
      bindR (freepageref (pagerefs_inuse h) p) (\<lambda>inuse.
      bindR (unlock_heap me (h\<lparr>pagerefs_inuse := inuse\<rparr>)) (\<lambda>h'.
      bindR (free_kpages me P (phys h')) (\<lambda>c. Ok (0, h'\<lparr>phys := c\<rparr>))))) = Ok (0 :: int, h')
    \<and> heap_rep spinlock_init h' (remove1 p L) F \<and> live h' (remove1 p L) F = live h L F \<and> kept (live h L F) h h'
    \<and> low_same h h'"
proof -
  note pg = heap_rep_page [OF rep p]
  from remove_lists_spec [OF rep p] obtain h1 where h1: "remove_lists p (btype h p) h = Ok h1"
    "lchain (\<lambda>q. next_all (pagerefs h1 q)) (allbase h1) (remove1 p L)"
    "\<forall>b<8. lchain (\<lambda>q. next_samesize (pagerefs h1 q)) (sizebases h1 b) (filter (\<lambda>q. btype h q = b) (remove1 p L))"
    "page h1 = page h" "btype h1 = btype h" "phys h1 = phys h" "pagerefs_inuse h1 = pagerefs_inuse h"
    "kmalloc_spinlock h1 = kmalloc_spinlock h"
    "\<forall>q. freelist_offset (pagerefs h1 q) = freelist_offset (pagerefs h q) \<and> nfree (pagerefs h1 q) = nfree (pagerefs h q)" by blast
  have refs: "inuse_ok (pagerefs_inuse h)" "set L = inuse_set (pagerefs_inuse h)" "distinct L"
    using rep by (auto simp: heap_rep_def refs_ok_def)
  obtain inuse where iu: "freepageref (pagerefs_inuse h1) p = Ok inuse" "inuse_ok inuse" "inuse_set inuse = set L - {p}"
    using pr.release_used [OF refs(1), of p] p refs(2) h1(7) by auto
  let ?h2 = "h1\<lparr>pagerefs_inuse := inuse, kmalloc_spinlock := spinlock_init\<rparr>"
  have unlk: "unlock_heap me (h1\<lparr>pagerefs_inuse := inuse\<rparr>) = Ok ?h2"
    using rep h1(8) unlock_heap_ok [of "h1\<lparr>pagerefs_inuse := inuse\<rparr>" me] by (simp add: heap_rep_def)
  have same: "page ?h2 = page h" "btype ?h2 = btype h" "phys ?h2 = phys h" using h1(4,5,6) by simp_all
  have frees: "page_free m Q b (pagerefs ?h2 q) xs = page_free m Q b (pagerefs h q) xs" for m Q b q xs
    using h1(9) by (simp add: page_free_def split: list.split)
  have rep2: "heap_rep spinlock_init ?h2 (remove1 p L) F"
  proof -
    have "refs_ok ?h2 (remove1 p L)" using h1(2,3) iu(2,3) refs same(2) by (simp add: refs_ok_def set_remove1_eq)
    moreover have "pages_ok ?h2 (remove1 p L) F"
      using rep same frees refs(3) by (auto simp: heap_rep_def pages_ok_def set_remove1_eq inj_on_def)
    ultimately show ?thesis using rep same(3) by (simp add: heap_rep_def)
  qed
  obtain c where c: "free_kpages me (page h p) (phys h) = Ok c" "core_inv c" "kpages c = kpages (phys h) - {page h p}"
    "only_changes (unat (page h p)) 4096 (hmem h) (kmem c)"
    using free_kpages_spec [of "phys h" "page h p" me] rep pg(3) by (auto simp: heap_rep_def)
  have out: "page h p \<notin> page h ` set (remove1 p L)"
    using rep p refs(3) by (auto simp: heap_rep_def pages_ok_def inj_on_def set_remove1_eq)
  have sub: "page ?h2 ` set (remove1 p L) \<subseteq> kpages c"
  proof (rule image_subsetI)
    fix q assume q: "q \<in> set (remove1 p L)"
    then have "page h q \<noteq> page h p" using out by (metis image_eqI)
    moreover have "q \<in> set L" using q by (meson notin_set_remove1)
    ultimately show "page ?h2 q \<in> kpages c" using heap_rep_page(3) [OF rep, of q] c(3) same(1) by simp
  qed
  have live: "live h (remove1 p L) F = live h L F"
  proof -
    have "(y, k) \<in> live h (remove1 p L) F \<longleftrightarrow> (y, k) \<in> live h L F" for y k
      unfolding live_iff using full refs(3) by (auto simp: set_remove1_eq)
    then show ?thesis by auto
  qed
  have livest: "live (?h2\<lparr>phys := c\<rparr>) (remove1 p L) F = live h L F"
    using same live by (simp add: live_def page_def btype_def fun_eq_iff)
  have "heap_rep spinlock_init (?h2\<lparr>phys := c\<rparr>) (remove1 p L) F"
    using heap_rep_phys [OF rep2 c(2) sub _ pg(1)] c(4) same out by simp
  moreover have "low_same h (?h2\<lparr>phys := c\<rparr>)"
    using kpage_high [OF _ pg(3)] rep page_start_free [OF c(1)] c(4) by (intro low_same_changes [of "page h p" 4096]) (simp_all add: heap_rep_def)
  moreover have "kept (live h L F) h (?h2\<lparr>phys := c\<rparr>)"
  proof -
    have "live ?h2 (remove1 p L) F = live h L F" using same live by (simp add: live_def)
    moreover have "kept (live ?h2 (remove1 p L) F) ?h2 (?h2\<lparr>phys := c\<rparr>)"
      by (rule kept_outside [OF rep2 _ pg(1)]) (use c(4) same out in simp_all)
    ultimately show ?thesis using same(3) by (simp add: kept_def)
  qed
  ultimately show ?thesis using h1(1) iu(1) unlk c(1) same(3) livest P by auto
qed

lemma kept_trans: "kept B h h' \<Longrightarrow> kept B h' h'' \<Longrightarrow> kept B h h''"
  unfolding kept_def by fastforce

lemma subpage_kfree_spec:
  assumes abs: "heap_abs h B" and x: "(x, n) \<in> B"
  shows "\<exists>h'. subpage_kfree me x h = Ok (0, h') \<and> heap_abs h' (B - {(x, n)}) \<and> kept (B - {(x, n)}) h h' \<and> low_same h h'"
proof -
  obtain L F where rep: "heap_rep spinlock_init h L F" and B: "B = live h L F" using abs by (auto simp: heap_abs_def)
  let ?h = "h\<lparr>kmalloc_spinlock := held_by me\<rparr>"
  have lk: "lock_heap me h = Ok ?h" using rep by (intro lock_heap_ok) (simp add: heap_rep_def)
  have rep1: "heap_rep (held_by me) ?h L F" by (rule heap_rep_lock [OF rep])
  have lv: "live ?h L F = B" using B by simp
  obtain p where p: "p \<in> set L" "x \<in> blocks (page ?h p) (btype ?h p)" "x \<notin> set (F p)" and n: "n = bsize (btype ?h p)"
    using x B by (auto elim: live_cases)
  note pg = heap_rep_page [OF rep1 p(1)] and ret = returned_rep [OF rep1 p]
  let ?r = "returned p x ?h" and ?P = "page ?h p" and ?b = "btype ?h p"
  have owner: "find_owner NPAGEREFS ?h x (allbase ?h) = Ok (Some p)" by (rule find_owner_heap(1) [OF rep1 p(1,2)])
  note off = offset_in_page [OF pg(1,2) p(2)]
  have cnt: "unat (nfree (pagerefs ?h p)) = length (F p)" using pg(4) by (simp add: page_free_def)
  have bc: "bcount ?b \<le> 256" using bcount_bounds [OF pg(2)] by simp
  have nf: "unat (ucast (nfree (pagerefs ?h p) + 1) :: u32) = Suc (length (F p))" "unat (PAGE_SIZE div sizes ! ?b) = bcount ?b"
  proof -
    have "unat (nfree (pagerefs ?h p) + 1) = Suc (length (F p))" using cnt ret(5) bc by (simp add: unat_plus_if')
    then show "unat (ucast (nfree (pagerefs ?h p) + 1) :: u32) = Suc (length (F p))" by (simp add: unat_u32_of_u16)
    show "unat (PAGE_SIZE div sizes ! ?b) = bcount ?b" unfolding page_div_size [OF pg(2)] using bc by (intro unat_of_nat_u32) simp
  qed
  let ?last = "bindR (remove_lists p ?b ?r) (\<lambda>h.
      bindR (freepageref (pagerefs_inuse h) p) (\<lambda>inuse.
      bindR (unlock_heap me (h\<lparr>pagerefs_inuse := inuse\<rparr>)) (\<lambda>h.
      bindR (free_kpages me ?P (phys h)) (\<lambda>c. Ok (0 :: int, h\<lparr>phys := c\<rparr>)))))"
  have run: "subpage_kfree me x h =
      (if Suc (length (F p)) = bcount ?b then ?last else bindR (unlock_heap me ?r) (\<lambda>h. Ok (0, h)))"
  proof -
    have le: "ucast (nfree (pagerefs ?h p) + 1) \<le> PAGE_SIZE div sizes ! ?b" using nf ret(5) by (simp add: word_le_nat_alt)
    have eq: "ucast (nfree (pagerefs ?h p) + 1) = PAGE_SIZE div sizes ! ?b \<longleftrightarrow> Suc (length (F p)) = bcount ?b"
      using nf by (auto simp: word_unat_eq_iff)
    have addr: "?P + (x - ?P) = x" and inside: "\<not> (x - ?P \<ge> PAGE_SIZE \<or> (x - ?P) mod sizes ! ?b \<noteq> 0)"
      using off(2,5) by auto
    show ?thesis
      unfolding subpage_kfree_def lk bindR.simps owner option.case Let_def
      using inside le eq addr by (simp add: returned_def link_block_def page_def btype_def)
  qed
  show ?thesis
  proof (cases "Suc (length (F p)) = bcount ?b")
    case True
    have "set (x # F p) = blocks (page ?r p) (btype ?r p)"
    proof (rule card_subset_eq)
      show "finite (blocks (page ?r p) (btype ?r p))" by (simp add: blocks_def)
      show "set (x # F p) \<subseteq> blocks (page ?r p) (btype ?r p)" using p(2) pg(4) by (auto simp: page_free_def returned_simps)
      have "card (set (x # F p)) = Suc (length (F p))" using p(3) pg(4) by (simp add: page_free_def distinct_card)
      moreover have "card (blocks ?P ?b) = bcount ?b"
        using blk_inj [OF pg(1,2)] by (simp add: blocks_def card_image inj_on_def)
      ultimately show "card (set (x # F p)) = card (blocks (page ?r p) (btype ?r p))" using True by (simp add: returned_simps)
    qed
    then obtain h' where h': "?last = Ok (0, h')" "heap_rep spinlock_init h' (remove1 p L) (F(p := x # F p))"
      "live h' (remove1 p L) (F(p := x # F p)) = live ?r L (F(p := x # F p))" "kept (live ?r L (F(p := x # F p))) ?r h'"
      "low_same ?r h'"
      using give_page_back [OF ret(1) p(1), of ?P] by (auto simp: returned_simps)
    have "low_same h h'" using low_same_trans [OF ret(4) h'(5)] by (simp add: low_same_def)
    moreover have "kept (B - {(x, n)}) h h'"
      using kept_trans [OF ret(3)] h'(4) ret(2) lv n by (simp add: kept_def)
    ultimately show ?thesis using run True h'(1-3) ret(2) lv n by (auto simp: heap_abs_def)
  next
    case False
    let ?h' = "?r\<lparr>kmalloc_spinlock := spinlock_init\<rparr>"
    have "unlock_heap me ?r = Ok ?h'" by (rule unlock_heap_ok) (simp add: returned_simps)
    moreover have "heap_abs ?h' (B - {(x, n)})"
      using heap_rep_lock [OF ret(1), of spinlock_init] ret(2) lv n by (auto simp: heap_abs_def)
    moreover have "kept (B - {(x, n)}) h ?h'" using ret(3) lv n by (simp add: kept_def)
    moreover have "low_same h ?h'" using ret(4) by (simp add: low_same_def)
    ultimately show ?thesis using run False by simp
  qed
qed

subsection \<open>The heap as an interface\<close>

text \<open>
  What the kernel relies on when it allocates: blocks that are live at the same time do not overlap,
  a new block is none of the live ones, and a live block can be given back.
\<close>

locale block_heap =
  fixes rep :: "'h \<Rightarrow> (vaddr \<times> nat) set \<Rightarrow> bool"
    and alloc :: "u32 \<Rightarrow> 'h \<Rightarrow> (vaddr \<times> 'h) run"
    and free :: "vaddr \<Rightarrow> 'h \<Rightarrow> 'h run"
    and small :: "u32 \<Rightarrow> bool"
  assumes rep_disjoint: "rep h B \<Longrightarrow> disjoint_blocks B"
    and alloc_none: "rep h B \<Longrightarrow> small sz \<Longrightarrow> alloc sz h = Ok (0, h') \<Longrightarrow> rep h' B"
    and alloc_some: "rep h B \<Longrightarrow> small sz \<Longrightarrow> alloc sz h = Ok (p, h') \<Longrightarrow> p \<noteq> 0 \<Longrightarrow>
      \<exists>n\<ge>unat sz. (\<forall>k. (p, k) \<notin> B) \<and> rep h' (insert (p, n) B)"
    and free_block: "rep h B \<Longrightarrow> (p, n) \<in> B \<Longrightarrow> \<exists>h'. free p h = Ok h' \<and> rep h' (B - {(p, n)})"

text \<open>A client that asks for a list of blocks, stopping at the first failure, and gives them all back.\<close>

fun alloc_all :: "(u32 \<Rightarrow> 'h \<Rightarrow> (vaddr \<times> 'h) run) \<Rightarrow> u32 list \<Rightarrow> 'h \<Rightarrow> (vaddr list \<times> 'h) run" where
  "alloc_all alloc [] h = Ok ([], h)"
| "alloc_all alloc (sz # szs) h = bindR (alloc sz h) (\<lambda>(p, h). if p = 0 then Ok ([], h)
      else bindR (alloc_all alloc szs h) (\<lambda>(ps, h). Ok (p # ps, h)))"

fun free_all :: "(vaddr \<Rightarrow> 'h \<Rightarrow> 'h run) \<Rightarrow> vaddr list \<Rightarrow> 'h \<Rightarrow> 'h run" where
  "free_all free [] h = Ok h"
| "free_all free (p # ps) h = bindR (free p h) (free_all free ps)"

context block_heap
begin

lemma alloc_all_spec:
  "rep h B \<Longrightarrow> (\<And>sz. sz \<in> set szs \<Longrightarrow> small sz) \<Longrightarrow> alloc_all alloc szs h = Ok (ps, h') \<Longrightarrow>
    \<exists>ns. length ns = length ps \<and> length ps \<le> length szs \<and> (\<forall>i<length ps. unat (szs ! i) \<le> ns ! i) \<and> distinct ps
      \<and> (\<forall>p\<in>set ps. \<forall>k. (p, k) \<notin> B) \<and> rep h' (B \<union> set (zip ps ns))"
proof (induction szs arbitrary: h B ps)
  case (Cons sz szs)
  obtain p h1 where a: "alloc sz h = Ok (p, h1)" using Cons.prems(3) by (auto simp: bindR_eq_Ok)
  have small: "small sz" using Cons.prems(2) by simp
  show ?case
  proof (cases "p = 0")
    case True
    then show ?thesis using Cons.prems(3) a alloc_none [OF Cons.prems(1) small] by (auto intro: exI [of _ "[]"])
  next
    case False
    then obtain qs where qs: "alloc_all alloc szs h1 = Ok (qs, h')" "ps = p # qs" using Cons.prems(3) a by (auto simp: bindR_eq_Ok)
    obtain n where n: "n \<ge> unat sz" "\<forall>k. (p, k) \<notin> B" "rep h1 (insert (p, n) B)"
      using alloc_some [OF Cons.prems(1) small a False] by blast
    obtain ns where ns: "length ns = length qs" "length qs \<le> length szs" "\<forall>i<length qs. unat (szs ! i) \<le> ns ! i"
      "distinct qs" "\<forall>q\<in>set qs. \<forall>k. (q, k) \<notin> insert (p, n) B" "rep h' (insert (p, n) B \<union> set (zip qs ns))"
      using Cons.IH [OF n(3) _ qs(1)] Cons.prems(2) by auto
    have "\<forall>i<length (p # qs). unat ((sz # szs) ! i) \<le> (n # ns) ! i" using n(1) ns(3) by (auto simp: less_Suc_eq_0_disj)
    moreover have "p \<notin> set qs" using ns(5) by blast
    ultimately show ?thesis using qs(2) ns n(2) by (intro exI [of _ "n # ns"]) auto
  qed
qed auto

lemma free_all_spec:
  "rep h (B \<union> set (zip ps ns)) \<Longrightarrow> length ns = length ps \<Longrightarrow> distinct ps \<Longrightarrow> (\<forall>p\<in>set ps. \<forall>k. (p, k) \<notin> B) \<Longrightarrow>
    \<exists>h'. free_all free ps h = Ok h' \<and> rep h' B"
proof (induction ps arbitrary: h ns)
  case (Cons p ps)
  obtain n ms where ns: "ns = n # ms" using Cons.prems(2) by (cases ns) auto
  have "(p, n) \<in> B \<union> set (zip (p # ps) ns)" using ns by simp
  from free_block [OF Cons.prems(1) this] obtain h1 where h1: "free p h = Ok h1" "rep h1 (B \<union> set (zip (p # ps) ns) - {(p, n)})" by blast
  have "B \<union> set (zip (p # ps) ns) - {(p, n)} = B \<union> set (zip ps ms)"
    using Cons.prems(3,4) ns by (auto dest: set_zip_leftD)
  then show ?case using Cons.IH [of h1 ms] h1 Cons.prems ns by auto
qed simp

lemma alloc_free_all:
  assumes "rep h B" and "\<And>sz. sz \<in> set szs \<Longrightarrow> small sz" and "alloc_all alloc szs h = Ok (ps, h')"
  shows "\<exists>ns. length ns = length ps \<and> (\<forall>i<length ps. unat (szs ! i) \<le> ns ! i) \<and> disjoint_blocks (B \<union> set (zip ps ns))
    \<and> (\<forall>p\<in>set ps. \<forall>k. (p, k) \<notin> B) \<and> distinct ps \<and> (\<exists>h''. free_all free ps h' = Ok h'' \<and> rep h'' B)"
  using alloc_all_spec [OF assms] free_all_spec rep_disjoint by blast

end

lemma kmalloc_small: "unat sz < 2048 \<Longrightarrow> kmalloc me sz h = subpage_kmalloc me sz h"
  by (simp add: kmalloc_def LARGEST_SUBPAGE_SIZE_def word_le_nat_alt)

lemma live_nonnull:
  assumes "heap_abs h B" and "(x, n) \<in> B"
  shows "x \<noteq> 0"
proof -
  obtain L F where rep: "heap_rep spinlock_init h L F" and B: "B = live h L F" using assms(1) by (auto simp: heap_abs_def)
  obtain p where p: "p \<in> set L" "x \<in> blocks (page h p) (btype h p)" using assms(2) B by (auto elim: live_cases)
  then show ?thesis using blocks_in_page(4) [OF heap_rep_page(1,2) [OF rep p(1)] p(2)] by auto
qed

lemma kfree_spec:
  assumes "heap_abs h B" and "(x, n) \<in> B"
  shows "\<exists>h'. kfree me x h = Ok h' \<and> heap_abs h' (B - {(x, n)}) \<and> kept (B - {(x, n)}) h h' \<and> low_same h h'"
  using subpage_kfree_spec [OF assms, of me] live_nonnull [OF assms] by (auto simp: kfree_def)

interpretation kh: block_heap heap_abs "kmalloc me" "kfree me" "\<lambda>sz. unat sz < 2048" for me
proof
  fix h B assume abs: "heap_abs h B"
  show "disjoint_blocks B" by (rule heap_abs_disjoint [OF abs])
  have res: "alloc_result sz B h p h'" if "unat sz < 2048" "kmalloc me sz h = Ok (p, h')" for sz p h'
    using subpage_kmalloc_spec [OF abs, of sz me] that by (simp add: kmalloc_small)
  show "heap_abs h' B" if "unat sz < 2048" "kmalloc me sz h = Ok (0, h')" for sz h'
    using res [OF that] by (simp add: alloc_result_def)
  show "\<exists>n\<ge>unat sz. (\<forall>k. (p, k) \<notin> B) \<and> heap_abs h' (insert (p, n) B)"
    if "unat sz < 2048" "kmalloc me sz h = Ok (p, h')" "p \<noteq> 0" for sz p h'
    using res [OF that(1,2)] that(3) by (auto simp: alloc_result_def)
  show "\<exists>h'. kfree me p h = Ok h' \<and> heap_abs h' (B - {(p, n)})" if "(p, n) \<in> B" for p n
    using kfree_spec [OF abs that] by blast
qed

subsection \<open>Properties\<close>

text \<open>The heap at boot, before the first allocation, on a machine with three pages.\<close>

definition boot_heap :: kheap where
  "boot_heap = \<lparr>pagerefs = (\<lambda>_. \<lparr>next_samesize = None, next_all = None, pageaddr_and_blocktype = 0, freelist_offset = 0, nfree = 0\<rparr>),
     pagerefs_inuse = replicate 8 0, sizebases = (\<lambda>_. None), allbase = None, kmalloc_spinlock = spinlock_init, phys = small_core\<rparr>"

lemma boot_inuse: "inuse_set (pagerefs_inuse boot_heap) = {}" "length (pagerefs_inuse boot_heap) = 8"
  by (auto simp: inuse_set_def boot_heap_def)

lemma boot_heap_abs: "heap_abs boot_heap {}"
proof -
  have "heap_rep spinlock_init boot_heap [] (\<lambda>_. [])"
    using small_core_inv boot_inuse by (simp add: heap_rep_def refs_ok_def pages_ok_def boot_heap_def inuse_ok_def INUSE_WORDS_def NPAGEREFS_def)
  moreover have "live boot_heap [] (\<lambda>_. []) = {}" by (simp add: live_def)
  ultimately show ?thesis unfolding heap_abs_def by metis
qed

lemma boot_heap_room: "free_run (coremaps (phys boot_heap)) 0 1"
  using free_run_shorter [OF small_core_run, of 1] by (simp add: boot_heap_def)

text \<open>The first block of a size class comes from a new page.\<close>

lemma kmalloc_new_page:
  assumes abs: "heap_abs h B" and sz: "unat sz < 2048" "blocktype sz = Ok b" and none: "sizebases h b = None"
    and P: "alloc_kpages me 1 (phys h) = Ok (P, c)" "P \<noteq> 0"
    and room: "inuse_set (pagerefs_inuse h) \<noteq> {..<32 * length (pagerefs_inuse h)}"
  obtains x n h' p m where "kmalloc me sz h = Ok (x, h')" and "x \<noteq> 0" and "unat sz \<le> n" and "heap_abs h' (insert (x, n) B)"
    and "phys h' = c\<lparr>kmem := m\<rparr>" and "sizebases h' = (sizebases h)(b := Some p)"
    and "inuse_set (pagerefs_inuse h') = insert p (inuse_set (pagerefs_inuse h))" and "length (pagerefs_inuse h') = length (pagerefs_inuse h)"
proof -
  obtain L F where rep: "heap_rep spinlock_init h L F" "B = live h L F" using abs by (auto simp: heap_abs_def)
  have inv: "inuse_ok (pagerefs_inuse h)" using rep(1) by (simp add: heap_rep_def refs_ok_def)
  from pr.alloc_free [OF inv room] obtain p inuse where iu: "allocpageref (pagerefs_inuse h) = Ok (Some (p, inuse))"
    "inuse_ok inuse" "inuse_set inuse = insert p (inuse_set (pagerefs_inuse h))" by blast
  have len: "length inuse = length (pagerefs_inuse h)" using iu(2) inv by (simp add: inuse_ok_def)
  have b: "b < 8" "unat sz \<le> bsize b" using blocktype_spec [of sz] sz by auto
  have locks: "lock_heap me h = Ok (h\<lparr>kmalloc_spinlock := held_by me\<rparr>)" "unlock_heap me (h\<lparr>kmalloc_spinlock := held_by me\<rparr>) = Ok h"
    if "kmalloc_spinlock h = spinlock_init" for h
    using that by (simp_all add: lock_heap_ok unlock_heap_ok)
  have "kmalloc me sz h = bindR (init_page p b P ((h\<lparr>phys := c\<rparr>)\<lparr>kmalloc_spinlock := held_by me, pagerefs_inuse := inuse\<rparr>)) (doalloc me p)"
  proof -
    have "kmalloc_spinlock h = spinlock_init" using rep(1) by (simp add: heap_rep_def)
    then show ?thesis using P iu(1) none sz by (simp add: kmalloc_small subpage_kmalloc_def locks)
  qed
  moreover obtain x h' where x: "bindR (init_page p b P ((h\<lparr>phys := c\<rparr>)\<lparr>kmalloc_spinlock := held_by me, pagerefs_inuse := inuse\<rparr>)) (doalloc me p) = Ok (x, h')"
    "alloc_result sz B h x h'" "x \<noteq> 0" "\<exists>m. phys h' = c\<lparr>kmem := m\<rparr>" "sizebases h' = (sizebases h)(b := Some p)" "pagerefs_inuse h' = inuse"
    using subpage_kmalloc_new_page [OF rep(1) b P rep(2) iu(1)] by auto
  ultimately show ?thesis using that [of x h' _ _ p] iu(3) len by (auto simp: alloc_result_def)
qed

lemma boot_alloc_kpages: "alloc_kpages 0 1 (phys boot_heap) = Ok (0x80002000, taking 0 1 KERNEL small_core)"
  using small_core_alloc [of 1 0 KERNEL] by (simp add: boot_heap_def alloc_kpages_def PADDR_TO_KVADDR_def layout_defs)

lemma boot_kmalloc:
  obtains x n h where "kmalloc 0 100 boot_heap = Ok (x, h)" and "heap_abs h {(x, n)}"
proof (rule kmalloc_new_page [OF boot_heap_abs _ _ _ boot_alloc_kpages])
  show "unat (100 :: u32) < 2048" "blocktype 100 = Ok 3" "sizebases boot_heap 3 = None" "0x80002000 \<noteq> (0 :: u32)"
    by (simp_all add: blocktype_def sizes_def boot_heap_def)
  show "inuse_set (pagerefs_inuse boot_heap) \<noteq> {..<32 * length (pagerefs_inuse boot_heap)}"
    unfolding boot_inuse by (metis empty_iff lessThan_iff zero_less_numeral mult_pos_pos)
qed (use that in blast)



text \<open>
  C19: \<open>kfree\<close> of a live block always returns, makes exactly that block free and leaves the contents
  of every other live block alone, also when it was the last block of its page and the page goes
  back to the coremap.
\<close>

theorem kfree_frees_exactly_its_block:
  assumes "heap_abs h B" and "(x, n) \<in> B"
  shows "\<exists>h'. kfree me x h = Ok h' \<and> heap_abs h' (B - {(x, n)}) \<and> kept (B - {(x, n)}) h h'"
  using kfree_spec [OF assms] by blast

theorem kfree_frees_exactly_its_block_witness:
  "\<exists>x h h'. kmalloc 0 100 boot_heap = Ok (x, h) \<and> kfree 0 x h = Ok h' \<and> heap_abs h' {}"
proof -
  obtain x n h where x: "kmalloc 0 100 boot_heap = Ok (x, h)" "heap_abs h {(x, n)}" by (rule boot_kmalloc)
  from kfree_frees_exactly_its_block [OF x(2), of x n 0] x(1) show ?thesis by auto
qed

subsection \<open>Large blocks\<close>

lemma run_not_held:
  assumes "core_inv c" and "free_run (coremaps c) a n" and "P \<in> kpages c" and "0 < n"
  shows "P \<in> kpages (taking a n ow c)"
    and "unat P + 4096 \<le> unat (PADDR_TO_KVADDR (frame_addr c a)) \<or> unat (PADDR_TO_KVADDR (frame_addr c a)) + 4096 * n \<le> unat P"
proof -
  from kpages_cases [OF assms(3)] obtain i where i: "i < length (coremaps c)" "P = PADDR_TO_KVADDR (frame_addr c i)"
    "page_num (coremaps c ! i) = 1" .
  have "state (coremaps c ! i) \<noteq> FREE" using assms(1) i(1,3) by (auto simp: core_inv_def frame_ok_def)
  then have out: "i < a \<or> a + n \<le> i" using free_runD [OF assms(2), of i] by force
  then have "coremaps (taking a n ow c) ! i = coremaps c ! i" using i(1) assms(4) by (auto simp: taking_def taken_def)
  then show "P \<in> kpages (taking a n ow c)"
    using i by (auto simp: kpages_def frame_addr_def taking_def)
  have "a < length (coremaps c)" using assms(2,4) by (simp add: free_run_def)
  then show "unat P + 4096 \<le> unat (PADDR_TO_KVADDR (frame_addr c a)) \<or> unat (PADDR_TO_KVADDR (frame_addr c a)) + 4096 * n \<le> unat P"
    using unat_kvaddr [OF assms(1) i(1)] unat_kvaddr [OF assms(1), of a] i(2) out by auto
qed

text \<open>The number of pages for a large block: enough for the block, and not negative as an \<open>int\<close>.\<close>

lemma large_pages:
  assumes "2048 \<le> unat sz" and "unat sz + 4095 < 2 ^ 32"
  obtains n :: u32 where "(sz + PAGE_SIZE - 1) div PAGE_SIZE = n" and "0 < unat n" and "unat n < 2 ^ 31"
    and "unat sz \<le> 4096 * unat n" and "of_int (sint n) = n"
proof
  let ?n = "(sz + PAGE_SIZE - 1) div PAGE_SIZE"
  have "sz + PAGE_SIZE - 1 = sz + 4095" by (simp add: layout_defs)
  then have n: "unat ?n = (unat sz + 4095) div 4096" using assms(2) by (simp add: unat_div layout_defs unat_plus_if')
  show "0 < unat ?n" "unat ?n < 2 ^ 31" unfolding n using assms by simp_all
  show "unat sz \<le> 4096 * unat ?n" unfolding n by simp
qed simp_all

lemma alloc_kpages_took_run:
  assumes "core_inv c" and "0 < unat n" "unat n < 2 ^ 31" "of_int (sint n) = (n :: u32)"
    and "alloc_kpages me (sint n) c = Ok (P, c')" and "P \<noteq> 0"
  obtains a where "free_run (coremaps c) a (unat n)" and "c' = taking a (unat n) KERNEL c"
    and "P = PADDR_TO_KVADDR (frame_addr c a)" and "core_inv c'"
proof -
  obtain q where q: "getppages me n KERNEL c = Ok (q, c')" "q \<noteq> 0 \<and> P = PADDR_TO_KVADDR q"
    using assms(4-6) by (auto simp: alloc_kpages_def bindR_eq_Ok split: if_splits)
  from getppages_took_run [OF assms(1-3) q(1)] q(2) that show ?thesis unfolding first_run_def by metis
qed

text \<open>
  \<open>kmalloc\<close> of 2048 bytes or more takes whole pages of its own. A non-null result is aligned to a
  page, the memory asked for overlaps no live block of the heap, and the heap keeps its live blocks
  and their contents.
\<close>

theorem kmalloc_large_is_disjoint:
  assumes "heap_abs h B" and "2048 \<le> unat sz" and "unat sz + 4095 < 2 ^ 32" and "kmalloc me sz h = Ok (p, h')" and "p \<noteq> 0"
  shows "heap_abs h' B \<and> kept B h h' \<and> 4096 dvd unat p \<and> (\<forall>(x, k)\<in>B. unat x + k \<le> unat p \<or> unat p + unat sz \<le> unat x)"
proof -
  obtain L F where rep: "heap_rep spinlock_init h L F" and B: "B = live h L F" using assms(1) by (auto simp: heap_abs_def)
  then have inv: "core_inv (phys h)" by (simp add: heap_rep_def)
  obtain n where n: "(sz + PAGE_SIZE - 1) div PAGE_SIZE = n" "0 < unat n" "unat n < 2 ^ 31" "unat sz \<le> 4096 * unat n"
    "of_int (sint n) = n" using large_pages [OF assms(2,3)] .
  have "sz \<ge> LARGEST_SUBPAGE_SIZE" using assms(2) by (simp add: LARGEST_SUBPAGE_SIZE_def word_le_nat_alt)
  then obtain c' where c': "alloc_kpages me (sint n) (phys h) = Ok (p, c')" "h' = h\<lparr>phys := c'\<rparr>"
    using assms(4,5) n(1) by (auto simp: kmalloc_def Let_def bindR_eq_Ok split: if_splits)
  from alloc_kpages_took_run [OF inv n(2,3,5) c'(1) assms(5)] obtain a where
    a: "free_run (coremaps (phys h)) a (unat n)" "c' = taking a (unat n) KERNEL (phys h)"
      "p = PADDR_TO_KVADDR (frame_addr (phys h) a)" "core_inv c'" .
  note held = run_not_held [OF inv a(1) _ n(2)]
  have "kmem c' = hmem h" using a(2) by (simp add: taking_def)
  then have "heap_rep spinlock_init h' L F" "kept B h h'"
    using heap_rep_phys_grow [OF rep a(4)] held(1) c'(2) a(2) by (auto simp: kept_def)
  moreover have "a < length (coremaps (phys h))" using a(1) n(2) by (simp add: free_run_def)
  then have "4096 dvd unat p" using unat_kvaddr [OF inv, of a] inv a(3) by (auto simp: core_inv_def mod_eq_0_iff_dvd)
  moreover have "unat x + k \<le> unat p \<or> unat p + unat sz \<le> unat x" if "(x, k) \<in> B" for x k
  proof -
    have "(x, k) \<in> live h L F" using that B by simp
    from live_cases [OF this] obtain q where q: "q \<in> set L" "x \<in> blocks (page h q) (btype h q)" "k = bsize (btype h q)"
      by blast
    note pg = heap_rep_page [OF rep q(1)]
    show ?thesis using held(2) [OF pg(3)] blocks_in_page(1,2) [OF pg(1,2) q(2)] q(3) a(3) n(4) by auto
  qed
  ultimately show ?thesis using B c'(2) by (auto simp: heap_abs_def)
qed

theorem kmalloc_large_is_disjoint_witness:
  "\<exists>h'. kmalloc 0 5000 boot_heap = Ok (0x80002000, h') \<and> heap_abs h' {}"
proof -
  have "alloc_kpages 0 2 (phys boot_heap) = Ok (0x80002000, taking 0 2 KERNEL small_core)"
    using small_core_alloc [of 2 0 KERNEL] by (simp add: boot_heap_def alloc_kpages_def PADDR_TO_KVADDR_def layout_defs)
  then have run: "kmalloc 0 5000 boot_heap = Ok (0x80002000, boot_heap\<lparr>phys := taking 0 2 KERNEL small_core\<rparr>)"
    by (simp add: kmalloc_def LARGEST_SUBPAGE_SIZE_def layout_defs)
  from kmalloc_large_is_disjoint [OF boot_heap_abs _ _ run] run show ?thesis by simp
qed

text \<open>
  C20: allocation and freeing round trip. After any sequence of \<open>kmalloc\<close> calls for less than 2048
  bytes, the pointers returned are distinct and point to pairwise disjoint blocks of the sizes
  asked for, disjoint from the blocks live before; calling \<open>kfree\<close> once for each of them succeeds
  every time and leaves exactly the blocks that were live before.
\<close>

theorem kmalloc_kfree_all:
  assumes "heap_abs h B" and "\<And>sz. sz \<in> set szs \<Longrightarrow> unat sz < 2048" and "alloc_all (kmalloc me) szs h = Ok (ps, h')"
  shows "\<exists>ns. length ns = length ps \<and> (\<forall>i<length ps. unat (szs ! i) \<le> ns ! i)
    \<and> disjoint_blocks (B \<union> set (zip ps ns)) \<and> (\<forall>p\<in>set ps. \<forall>k. (p, k) \<notin> B) \<and> distinct ps
    \<and> (\<exists>h''. free_all (kfree me) ps h' = Ok h'' \<and> heap_abs h'' B)"
  by (rule kh.alloc_free_all [OF assms])

theorem kmalloc_kfree_all_witness:
  "\<exists>x h h''. alloc_all (kmalloc 0) [100] boot_heap = Ok ([x], h) \<and> free_all (kfree 0) [x] h = Ok h'' \<and> heap_abs h'' {}"
proof -
  obtain x n h where x: "kmalloc 0 100 boot_heap = Ok (x, h)" "heap_abs h {(x, n)}" by (rule boot_kmalloc)
  have run: "alloc_all (kmalloc 0) [100] boot_heap = Ok ([x], h)" using live_nonnull [OF x(2)] x(1) by simp
  have "unat sz < 2048" if "sz \<in> set [100 :: u32]" for sz using that by simp
  from kmalloc_kfree_all [OF boot_heap_abs this run] run show ?thesis by blast
qed

end
