(* ===== verification/Uio.thy ===== *)
theory Uio
  imports CopyInOut
begin

text \<open>
  Scatter/gather descriptors (\<^verbatim>\<open>kern/lib/uio.c\<close>, \<^verbatim>\<open>kern/include/uio.h\<close>). The array \<open>uio_iov\<close> points to is the
  list of the descriptors from the current one on; \<open>uio_iovcnt\<close> is the count the code keeps beside
  it. Address spaces are numbers, \<open>None\<close> the null pointer.
\<close>

datatype uio_dir = UIO_READ | UIO_WRITE
datatype uio_seg = UIO_USERISPACE | UIO_USERSPACE | UIO_SYSSPACE

record iovec =
  iov_base :: u32
  iov_len :: u32

record uio =
  uio_iov :: "iovec list"
  uio_iovcnt :: u32
  uio_offset :: u64
  uio_resid :: u32
  uio_segflg :: uio_seg
  uio_rw :: uio_dir
  uio_space :: "nat option"

subsection \<open>Operations\<close>

text \<open>The transfer of one chunk, the \<open>switch\<close> of \<open>uiomove\<close>.\<close>

definition uio_switch :: "(u32 \<Rightarrow> bool) \<Rightarrow> uio \<Rightarrow> umem_state \<Rightarrow> u32 \<Rightarrow> u32 \<Rightarrow> u32 \<Rightarrow> (int \<times> umem_state) run" where
  "uio_switch ok u s ptr base n =
     (case uio_segflg u of
        UIO_SYSSPACE \<Rightarrow>
          if uio_rw u = UIO_READ then Ok (0, s\<lparr>umem := memmove (umem s) base ptr n\<rparr>)
          else Ok (0, s\<lparr>umem := memmove (umem s) ptr base n\<rparr>)
      | _ \<Rightarrow> if uio_rw u = UIO_READ then copyout ok s ptr base n else copyin ok s base ptr n)"

definition uio_advance :: "uio \<Rightarrow> iovec \<Rightarrow> iovec list \<Rightarrow> u32 \<Rightarrow> uio" where
  "uio_advance u iov iovs n =
     u\<lparr>uio_iov := iov\<lparr>iov_base := iov_base iov + n, iov_len := iov_len iov - n\<rparr> # iovs,
       uio_resid := uio_resid u - n, uio_offset := uio_offset u + ucast n\<rparr>"

function (sequential) uiomove_loop ::
    "(u32 \<Rightarrow> bool) \<Rightarrow> umem_state \<Rightarrow> u32 \<Rightarrow> u32 \<Rightarrow> uio \<Rightarrow> (int \<times> umem_state \<times> uio) run" where
  "uiomove_loop ok s ptr n u =
     (if \<not> (n > 0 \<and> uio_resid u > 0) then Ok (0, s, u)
      else case uio_iov u of
        [] \<Rightarrow> Halt Wild
      | iov # iovs \<Rightarrow>
          let amt = (if iov_len iov > n then n else iov_len iov) in
          if amt = 0 then
            let u = u\<lparr>uio_iov := iovs, uio_iovcnt := uio_iovcnt u - 1\<rparr> in
            if uio_iovcnt u = 0 then Halt Panicked else uiomove_loop ok s ptr n u
          else case uio_switch ok u s ptr (iov_base iov) amt of
            Halt h \<Rightarrow> Halt h
          | Ok (result, s) \<Rightarrow>
              if result \<noteq> 0 then Ok (result, s, u)
              else uiomove_loop ok s (ptr + amt) (n - amt) (uio_advance u iov iovs amt))"
  by pat_completeness auto

lemma unat_sub_le: "b \<le> a \<Longrightarrow> unat (a - b) = unat a - unat (b :: u32)"
  by (simp add: unat_sub_if' word_le_nat_alt)

lemma unat_shrinks: "0 < b \<Longrightarrow> b \<le> a \<Longrightarrow> unat (a - b :: u32) < unat a"
  by (simp add: unat_sub_le word_less_nat_alt word_le_nat_alt)

termination uiomove_loop
  by (relation "measures [\<lambda>(ok, s, ptr, n, u). length (uio_iov u), \<lambda>(ok, s, ptr, n, u). unat n]")
     (auto simp: uio_advance_def word_gt_0 unat_gt_0 intro!: unat_shrinks split: if_splits)

definition uiomove :: "(u32 \<Rightarrow> bool) \<Rightarrow> nat option \<Rightarrow> umem_state \<Rightarrow> u32 \<Rightarrow> u32 \<Rightarrow> uio \<Rightarrow> (int \<times> umem_state \<times> uio) run" where
  "uiomove ok curas s ptr n u =
     kassert (if uio_segflg u = UIO_SYSSPACE then uio_space u = None else uio_space u = curas)
       (uiomove_loop ok s ptr n u)"

text \<open>\<open>zeros\<close> is the address of the static buffer of sixteen zero bytes.\<close>

function (sequential) uiomovezeros_loop ::
    "(u32 \<Rightarrow> bool) \<Rightarrow> nat option \<Rightarrow> u32 \<Rightarrow> umem_state \<Rightarrow> u32 \<Rightarrow> uio \<Rightarrow> (int \<times> umem_state \<times> uio) run" where
  "uiomovezeros_loop ok curas zeros s n u =
     (if \<not> n > 0 then Ok (0, s, u)
      else
        let amt = (if 16 > n then n else 16) in
        case uiomove ok curas s zeros amt u of
          Halt h \<Rightarrow> Halt h
        | Ok (result, s, u) \<Rightarrow>
            if result \<noteq> 0 then Ok (result, s, u) else uiomovezeros_loop ok curas zeros s (n - amt) u)"
  by pat_completeness auto

termination uiomovezeros_loop
  by (relation "measure (\<lambda>(ok, curas, zeros, s, n, u). unat n)")
     (auto simp: word_gt_0 unat_gt_0 intro!: unat_shrinks split: if_splits)

definition uiomovezeros ::
    "(u32 \<Rightarrow> bool) \<Rightarrow> nat option \<Rightarrow> u32 \<Rightarrow> umem_state \<Rightarrow> u32 \<Rightarrow> uio \<Rightarrow> (int \<times> umem_state \<times> uio) run" where
  "uiomovezeros ok curas zeros s n u = kassert (uio_rw u = UIO_READ) (uiomovezeros_loop ok curas zeros s n u)"

definition uio_kinit :: "u32 \<Rightarrow> u32 \<Rightarrow> u64 \<Rightarrow> uio_dir \<Rightarrow> uio" where
  "uio_kinit kbuf len pos rw =
     \<lparr>uio_iov = [\<lparr>iov_base = kbuf, iov_len = len\<rparr>], uio_iovcnt = 1, uio_offset = pos, uio_resid = len,
      uio_segflg = UIO_SYSSPACE, uio_rw = rw, uio_space = None\<rparr>"

declare uiomove_loop.simps [simp del] uiomovezeros_loop.simps [simp del]

subsection \<open>Accounting\<close>

definition iov_total :: "iovec list \<Rightarrow> nat" where
  "iov_total iovs = sum_list (map (\<lambda>v. unat (iov_len v)) iovs)"

text \<open>What \<^verbatim>\<open>uio.h\<close> asks of the caller: the count is right and the buffers hold what is left to move.\<close>

definition uio_ok :: "uio \<Rightarrow> bool" where
  "uio_ok u \<longleftrightarrow> length (uio_iov u) < 2 ^ 32 \<and> uio_iovcnt u = of_nat (length (uio_iov u))
     \<and> unat (uio_resid u) \<le> iov_total (uio_iov u)"

text \<open>What it promises: \<open>k\<close> bytes later, the descriptor has moved on by \<open>k\<close> and kept its kind.\<close>

definition uio_moved :: "nat \<Rightarrow> uio \<Rightarrow> uio \<Rightarrow> bool" where
  "uio_moved k u u' \<longleftrightarrow> uio_ok u' \<and> unat (uio_resid u) = unat (uio_resid u') + k
     \<and> uio_offset u' = uio_offset u + of_nat k
     \<and> iov_total (uio_iov u) = iov_total (uio_iov u') + k
     \<and> uio_segflg u' = uio_segflg u \<and> uio_rw u' = uio_rw u \<and> uio_space u' = uio_space u"

lemma uio_moved_0: "uio_ok u \<Longrightarrow> uio_moved 0 u u"
  by (simp add: uio_moved_def)

lemma uio_moved_trans: "uio_moved j u v \<Longrightarrow> uio_moved k v w \<Longrightarrow> uio_moved (j + k) u w"
  by (simp add: uio_moved_def)

lemma copies_return:
  "\<exists>r s'. copyin ok s u k n = Ok (r, s') \<and> (r = 0 \<or> r = EFAULT)"
  "\<exists>r s'. copyout ok s k u n = Ok (r, s') \<and> (r = 0 \<or> r = EFAULT)"
proof -
  obtain r stop where c: "copycheck u n = (r, stop)" "r = 0 \<or> r = EFAULT" by (rule copycheck_user [of u n])
  obtain f m where i: "memcpy_guarded ok (umem s) k u n = (f, m)" by fastforce
  obtain g m' where o: "memcpy_guarded ok (umem s) u k n = (g, m')" by fastforce
  show "\<exists>r s'. copyin ok s u k n = Ok (r, s') \<and> (r = 0 \<or> r = EFAULT)"
    using c i by (auto simp: copyin_def copyfail_def Let_def)
  show "\<exists>r s'. copyout ok s k u n = Ok (r, s') \<and> (r = 0 \<or> r = EFAULT)"
    using c o by (auto simp: copyout_def copyfail_def Let_def)
qed

lemma uio_switch_returns: "\<exists>r s'. uio_switch ok u s ptr base n = Ok (r, s') \<and> (r = 0 \<or> r = EFAULT)"
  using copies_return(1) [of ok s base ptr n] copies_return(2) [of ok s ptr base n]
  by (auto simp: uio_switch_def split: uio_seg.split)

lemma uio_advance_moved:
  assumes "uio_ok u" and "uio_iov u = iov # iovs" and "k \<le> iov_len iov" and "k \<le> uio_resid u"
  shows "uio_moved (unat k) u (uio_advance u iov iovs k)"
  using assms by (simp add: uio_moved_def uio_ok_def uio_advance_def iov_total_def unat_sub_le word_le_nat_alt) linarith

definition transfer_contract :: "u32 \<Rightarrow> uio \<Rightarrow> (int \<times> umem_state \<times> uio) run \<Rightarrow> bool" where
  "transfer_contract n u out \<longleftrightarrow>
     (\<exists>k r s' u'. out = Ok (r, s', u') \<and> uio_moved k u u'
        \<and> (r = 0 \<and> k = unat n \<or> r = EFAULT \<and> k < unat n \<and> uio_segflg u \<noteq> UIO_SYSSPACE))"

lemma uio_skip_empty:
  assumes "uio_ok u" and "uio_iov u = iov # iovs" and "iov_len iov = 0" and "uio_resid u \<noteq> 0"
  shows "uio_moved 0 u (u\<lparr>uio_iov := iovs, uio_iovcnt := uio_iovcnt u - 1\<rparr>) \<and> uio_iovcnt u - 1 \<noteq> 0"
proof -
  have "0 < unat (uio_resid u)" using assms(4) by (simp add: unat_gt_0)
  then have "iovs \<noteq> []" using assms(1-3) by (auto simp: uio_ok_def iov_total_def)
  then have "0 < length iovs" "length iovs < 2 ^ 32" using assms(1,2) by (auto simp: uio_ok_def)
  then have "(of_nat (length iovs) :: u32) \<noteq> 0" using of_nat_u32_eq [of "length iovs" 0] by simp
  then show ?thesis using assms by (simp add: uio_moved_def uio_ok_def iov_total_def)
qed

lemma uiomove_loop_contract:
  "uio_ok u \<Longrightarrow> n \<le> uio_resid u \<Longrightarrow> transfer_contract n u (uiomove_loop ok s ptr n u)"
proof (induction ok s ptr n u rule: uiomove_loop.induct)
  case (1 ok s ptr n u)
  show ?case
  proof (cases "n = 0")
    case True
    then show ?thesis using uio_moved_0 [OF "1.prems"(1)] by (simp add: uiomove_loop.simps transfer_contract_def)
  next
    case False
    then have go: "n > 0 \<and> uio_resid u > 0"
      using "1.prems"(2) by (metis word_gt_0 word_le_0_iff)
    have "0 < unat (uio_resid u)" using go by (simp add: unat_gt_0 word_gt_0)
    then obtain iov iovs where iov: "uio_iov u = iov # iovs"
      using "1.prems"(1) by (cases "uio_iov u") (auto simp: uio_ok_def iov_total_def)
    define amt where "amt = (if iov_len iov > n then n else iov_len iov)"
    show ?thesis
    proof (cases "amt = 0")
      case True
      let ?u = "u\<lparr>uio_iov := iovs, uio_iovcnt := uio_iovcnt u - 1\<rparr>"
      have "iov_len iov = 0" using True False by (simp add: amt_def split: if_splits)
      with uio_skip_empty [OF "1.prems"(1) iov] go have
        skip: "uio_moved 0 u ?u" "uio_iovcnt ?u \<noteq> 0" by (auto simp: word_gt_0)
      then have "transfer_contract n ?u (uiomove_loop ok s ptr n ?u)"
        using "1.IH"(1) [OF _ iov amt_def True] go "1.prems" by (simp add: uio_moved_def)
      moreover have "uiomove_loop ok s ptr n u = uiomove_loop ok s ptr n ?u"
        using go iov True skip(2) by (subst uiomove_loop.simps) (simp add: amt_def Let_def)
      ultimately show ?thesis
        using uio_moved_trans [OF skip(1)] unfolding transfer_contract_def by fastforce
    next
      case nz: False
      obtain r s' where sw: "uio_switch ok u s ptr (iov_base iov) amt = Ok (r, s')" "r = 0 \<or> r = EFAULT"
        using uio_switch_returns by blast
      have le: "amt \<le> n" "amt \<le> iov_len iov" by (auto simp: amt_def)
      show ?thesis
      proof (cases "r = 0")
        case True
        let ?u = "uio_advance u iov iovs amt"
        have mv: "uio_moved (unat amt) u ?u"
          using uio_advance_moved [OF "1.prems"(1) iov le(2)] le(1) "1.prems"(2) by simp
        have run: "uiomove_loop ok s ptr n u = uiomove_loop ok s' (ptr + amt) (n - amt) ?u"
          using go iov nz sw True by (subst uiomove_loop.simps) (simp add: amt_def Let_def)
        have "unat (n - amt) \<le> unat (uio_resid u) - unat amt"
          using le(1) "1.prems"(2) by (simp add: unat_sub_le word_le_nat_alt)
        then have "n - amt \<le> uio_resid ?u" using mv by (simp add: uio_moved_def word_le_nat_alt)
        then have "transfer_contract (n - amt) ?u (uiomove_loop ok s' (ptr + amt) (n - amt) ?u)"
          using "1.IH"(2) [OF _ iov amt_def nz sw(1)] go True mv by (simp add: uio_moved_def)
        moreover have "unat n = unat amt + unat (n - amt)" using le(1) by (simp add: unat_sub_le word_le_nat_alt)
        moreover have "uio_segflg ?u = uio_segflg u" by (simp add: uio_advance_def)
        ultimately show ?thesis
          using uio_moved_trans [OF mv] unfolding transfer_contract_def run by fastforce
      next
        case err: False
        then have "uio_segflg u \<noteq> UIO_SYSSPACE" using sw by (auto simp: uio_switch_def split: if_splits)
        then show ?thesis
          using go iov nz sw err uio_moved_0 [OF "1.prems"(1)]
          by (subst uiomove_loop.simps) (auto simp: amt_def Let_def transfer_contract_def unat_gt_0 word_gt_0)
      qed
    qed
  qed
qed

lemma transfer_contract_split:
  assumes "uio_moved k u v" and "transfer_contract m v out" and "unat n = k + unat m"
  shows "transfer_contract n u out"
proof -
  have "uio_segflg v = uio_segflg u" using assms(1) by (simp add: uio_moved_def)
  then show ?thesis using uio_moved_trans [OF assms(1)] assms(2,3) unfolding transfer_contract_def by fastforce
qed

lemma uiomovezeros_loop_contract:
  "uio_ok u \<Longrightarrow> n \<le> uio_resid u \<Longrightarrow>
    (if uio_segflg u = UIO_SYSSPACE then uio_space u = None else uio_space u = curas) \<Longrightarrow>
    transfer_contract n u (uiomovezeros_loop ok curas zeros s n u)"
proof (induction ok curas zeros s n u rule: uiomovezeros_loop.induct)
  case (1 ok curas zeros s n u)
  show ?case
  proof (cases "n = 0")
    case True
    then show ?thesis using uio_moved_0 [OF "1.prems"(1)] by (simp add: uiomovezeros_loop.simps transfer_contract_def)
  next
    case False
    then have pos: "n > 0" by (simp add: word_gt_0)
    define amt where "amt = (if 16 > n then n else (16 :: u32))"
    have le: "amt \<le> n" "0 < amt" using pos by (auto simp: amt_def)
    have "transfer_contract amt u (uiomove ok curas s zeros amt u)"
      using uiomove_loop_contract [OF "1.prems"(1), of amt] le "1.prems"(2,3) by (simp add: uiomove_def)
    then obtain k r s' u' where mv: "uiomove ok curas s zeros amt u = Ok (r, s', u')" "uio_moved k u u'"
      "r = 0 \<and> k = unat amt \<or> r = EFAULT \<and> k < unat amt \<and> uio_segflg u \<noteq> UIO_SYSSPACE"
      unfolding transfer_contract_def by blast
    have sum: "unat n = unat amt + unat (n - amt)" using le(1) by (simp add: unat_sub_le word_le_nat_alt)
    show ?thesis
    proof (cases "r = 0")
      case True
      have k: "k = unat amt" using mv(3) True by (auto simp: EFAULT_def)
      have run: "uiomovezeros_loop ok curas zeros s n u = uiomovezeros_loop ok curas zeros s' (n - amt) u'"
        using pos mv(1) True by (subst uiomovezeros_loop.simps) (simp add: amt_def Let_def)
      have "uio_ok u'" "n - amt \<le> uio_resid u'"
        using mv(2) k sum "1.prems"(2) by (simp_all add: uio_moved_def word_le_nat_alt)
      moreover have "if uio_segflg u' = UIO_SYSSPACE then uio_space u' = None else uio_space u' = curas"
        using mv(2) "1.prems"(3) by (simp add: uio_moved_def)
      ultimately have "transfer_contract (n - amt) u' (uiomovezeros_loop ok curas zeros s' (n - amt) u')"
        using "1.IH" [OF _ amt_def mv(1)] pos True by simp
      then show ?thesis unfolding run by (rule transfer_contract_split [OF mv(2)]) (simp add: k sum)
    next
      case err: False
      have run: "uiomovezeros_loop ok curas zeros s n u = Ok (r, s', u')"
        using pos mv(1) err by (subst uiomovezeros_loop.simps) (simp add: amt_def Let_def)
      have "r = EFAULT" "k < unat n" "uio_segflg u \<noteq> UIO_SYSSPACE" using mv(3) err sum by auto
      with mv(2) show ?thesis unfolding run transfer_contract_def by blast
    qed
  qed
qed

text \<open>
  C17: descriptors keep their books. On a descriptor set up the way \<^verbatim>\<open>uio.h\<close> prescribes, \<open>uiomove\<close> and
  \<open>uiomovezeros\<close> of at most \<open>uio_resid\<close> bytes terminate without running out of buffers, and for
  some \<open>k\<close> the remaining count has gone down by \<open>k\<close>, the offset up by \<open>k\<close> and the room in the
  buffers down by \<open>k\<close>, with the descriptor still well-formed for the next call; \<open>k\<close> is all that
  was asked for unless a user copy failed with \<open>EFAULT\<close>.
\<close>

theorem uiomove_accounts_bytes:
  assumes "uio_ok u" and "n \<le> uio_resid u"
    and "if uio_segflg u = UIO_SYSSPACE then uio_space u = None else uio_space u = curas"
  shows "transfer_contract n u (uiomove ok curas s ptr n u)
    \<and> (uio_rw u = UIO_READ \<longrightarrow> transfer_contract n u (uiomovezeros ok curas zeros s n u))"
  using uiomove_loop_contract [OF assms(1,2), of ok s ptr] uiomovezeros_loop_contract [OF assms, of ok zeros s] assms(3)
  by (simp add: uiomove_def uiomovezeros_def)

theorem uiomove_accounts_bytes_witness:
  "transfer_contract 5
     \<lparr>uio_iov = [\<lparr>iov_base = 0x80001000, iov_len = 3\<rparr>, \<lparr>iov_base = 0x80002000, iov_len = 4\<rparr>], uio_iovcnt = 2,
      uio_offset = 0, uio_resid = 6, uio_segflg = UIO_SYSSPACE, uio_rw = UIO_READ, uio_space = None\<rparr>
     (uiomove (\<lambda>_. True) None \<lparr>umem = (\<lambda>_. 0), tm_badfaultfunc = False\<rparr> 0x80003000 5
       \<lparr>uio_iov = [\<lparr>iov_base = 0x80001000, iov_len = 3\<rparr>, \<lparr>iov_base = 0x80002000, iov_len = 4\<rparr>], uio_iovcnt = 2,
        uio_offset = 0, uio_resid = 6, uio_segflg = UIO_SYSSPACE, uio_rw = UIO_READ, uio_space = None\<rparr>)"
  using uiomove_accounts_bytes
    [of "\<lparr>uio_iov = [\<lparr>iov_base = 0x80001000, iov_len = 3\<rparr>, \<lparr>iov_base = 0x80002000, iov_len = 4\<rparr>], uio_iovcnt = 2,
        uio_offset = 0, uio_resid = 6, uio_segflg = UIO_SYSSPACE, uio_rw = UIO_READ, uio_space = None\<rparr>" 5 None]
  by (simp add: uio_ok_def iov_total_def)

subsection \<open>Kernel buffers\<close>

text \<open>A transfer through a descriptor made by \<open>uio_kinit\<close> is one \<open>memmove\<close>.\<close>

lemma uiomove_loop_0 [simp]: "uiomove_loop ok s ptr 0 u = Ok (0, s, u)"
  by (simp add: uiomove_loop.simps)

lemma uiomove_kernel:
  assumes "n \<le> len" and "0 < n"
  shows "uiomove ok curas s ptr n (uio_kinit kbuf len pos rw) =
    Ok (0, s\<lparr>umem := (if rw = UIO_READ then memmove (umem s) kbuf ptr n else memmove (umem s) ptr kbuf n)\<rparr>,
        uio_advance (uio_kinit kbuf len pos rw) \<lparr>iov_base = kbuf, iov_len = len\<rparr> [] n)"
proof -
  have len: "0 < len" using assms by (simp add: order_less_le_trans)
  have amt: "(if n < len then n else len) = n" using assms(1) by auto
  show ?thesis using assms len amt
    by (auto simp: uiomove_def uiomove_loop.simps [of ok s ptr] uio_kinit_def uio_switch_def word_gt_0 Let_def)
qed

end
