(* ===== verification/AddrSpace.thy ===== *)
theory AddrSpace
  imports Kheap CString Uio
begin

text \<open>
  The virtual memory system below the fault handler: duplicated strings and lock allocation on the
  kernel heap (\<^verbatim>\<open>kern/lib/misc.c\<close>), statistics (\<^verbatim>\<open>kern/vm/uw-vmstats.c\<close>), the TLB
  (\<^verbatim>\<open>kern/arch/mips/include/tlb.h\<close>), page tables (\<^verbatim>\<open>kern/vm/pt.c\<close>), the swap file
  (\<^verbatim>\<open>kern/vm/swapfile.c\<close>), address spaces (\<^verbatim>\<open>kern/vm/addrspace.c\<close>) and \<open>vm_bootstrap\<close>
  (\<^verbatim>\<open>kern/vm/vm.c\<close>). Address space structures live in a store indexed by their kernel address; the
  page tables they point to are lists, \<open>None\<close> the null pointer. Files are reached through the
  parameters \<open>vop_read\<close>, \<open>vop_write\<close> and \<open>vfs_open\<close>.
\<close>

subsection \<open>Strings and locks on the heap\<close>

definition kstrdup :: "nat \<Rightarrow> vaddr \<Rightarrow> kheap \<Rightarrow> (vaddr \<times> kheap) run" where
  "kstrdup me s h =
     (case strlen (hmem h) s of
        None \<Rightarrow> Halt Spinning
      | Some n \<Rightarrow>
          bindR (kmalloc me (n + 1) h) (\<lambda>(z, h).
            if z = 0 then Ok (0, h)
            else case strcpy (hmem h) z s of
                None \<Rightarrow> Halt Spinning
              | Some (_, m) \<Rightarrow> Ok (z, set_hmem m h)))"

text \<open>The allocations of \<open>wchan_create\<close> and \<open>lock_create\<close>; what the new structures do is elsewhere.\<close>

definition wchan_alloc :: "nat \<Rightarrow> kheap \<Rightarrow> (vaddr \<times> kheap) run" where
  "wchan_alloc me h = kmalloc me 40 h"

definition lock_alloc :: "nat \<Rightarrow> vaddr \<Rightarrow> kheap \<Rightarrow> (vaddr \<times> kheap) run" where
  "lock_alloc me name h =
     bindR (kmalloc me 20 h) (\<lambda>(lock, h).
       if lock = 0 then Ok (0, h)
       else bindR (kstrdup me name h) (\<lambda>(lk_name, h).
         if lk_name = 0 then bindR (kfree me lock h) (\<lambda>h. Ok (0, h))
         else bindR (wchan_alloc me h) (\<lambda>(lk_wchan, h).
           if lk_wchan = 0 then
             bindR (kfree me lk_name h) (\<lambda>h. bindR (kfree me lock h) (\<lambda>h. Ok (0, h)))
           else Ok (lock, h))))"

subsection \<open>State\<close>

definition NUM_TLB :: nat where "NUM_TLB = 64"
definition TLBLO_DIRTY :: u32 where [layout_defs]: "TLBLO_DIRTY = 0x400"
definition TLBLO_VALID :: u32 where [layout_defs]: "TLBLO_VALID = 0x200"

definition TLBHI_INVALID :: "nat \<Rightarrow> u32" where
  "TLBHI_INVALID entryno = push_bit 12 (0x80000 + of_nat entryno)"

definition TLBLO_INVALID :: u32 where "TLBLO_INVALID = 0"

definition VMSTAT_COUNT :: nat where "VMSTAT_COUNT = 10"
definition STACKPAGES :: nat where "STACKPAGES = 12"
definition USERSTACK :: vaddr where [layout_defs]: "USERSTACK = USERSPACETOP"

record pte =
  pfn :: paddr
  valid :: int
  dirty :: int
  pref :: int
  sw :: int

record addrspace =
  as_vbase1 :: vaddr
  as_npages1 :: csize
  as_flag1 :: u32
  as_vbase2 :: vaddr
  as_npages2 :: csize
  as_flag2 :: u32
  vn :: vaddr
  offset1 :: u64
  offset2 :: u64
  filesz1 :: csize
  filesz2 :: csize
  is_exec1 :: u32
  is_exec2 :: u32
  pt1 :: "pte list option"
  pt2 :: "pte list option"
  pt3 :: "pte list option"

text \<open>
  \<open>curproc\<close> tells whether there is a current process and \<open>p_addrspace\<close> is its address space.
  \<open>stats_lock\<close> is null until \<open>vmstats_init\<close>; between calls of the statistics functions it is free.
\<close>

record vm =
  heap :: kheap
  tlb :: "(u32 \<times> u32) list"
  next_victim :: u32
  spl :: spl_state
  stats_lock :: vaddr
  stats_counts :: "u32 list"
  swapfile :: vaddr
  swap_num :: int
  swap_partition :: "bool list"
  spaces :: "vaddr \<Rightarrow> addrspace option"
  curproc :: bool
  p_addrspace :: vaddr

abbreviation vcore :: "vm \<Rightarrow> core" where
  "vcore s \<equiv> phys (heap s)"

abbreviation vmem :: "vm \<Rightarrow> mem" where
  "vmem s \<equiv> kmem (vcore s)"

definition set_core :: "core \<Rightarrow> vm \<Rightarrow> vm" where
  "set_core c s = s\<lparr>heap := (heap s)\<lparr>phys := c\<rparr>\<rparr>"

definition set_vmem :: "mem \<Rightarrow> vm \<Rightarrow> vm" where
  "set_vmem m s = set_core ((vcore s)\<lparr>kmem := m\<rparr>) s"

definition vm_splhigh :: "vm \<Rightarrow> (int \<times> vm) run" where
  "vm_splhigh s = bindR (splhigh True (spl s)) (\<lambda>(old, l). Ok (old, s\<lparr>spl := l\<rparr>))"

definition vm_splx :: "int \<Rightarrow> vm \<Rightarrow> vm run" where
  "vm_splx old s = bindR (splx True (spl s) old) (\<lambda>(_, l). Ok (s\<lparr>spl := l\<rparr>))"

subsection \<open>Statistics\<close>

definition vmstats_inc_raw :: "nat \<Rightarrow> vm \<Rightarrow> vm run" where
  "vmstats_inc_raw index s =
     kassert (index < VMSTAT_COUNT)
       (Ok (s\<lparr>stats_counts := (stats_counts s)[index := stats_counts s ! index + 1]\<rparr>))"

definition vmstats_inc :: "nat \<Rightarrow> vm \<Rightarrow> vm run" where
  "vmstats_inc index s = kassert (stats_lock s \<noteq> 0) (vmstats_inc_raw index s)"

definition vmstats_init_raw :: "vm \<Rightarrow> vm" where
  "vmstats_init_raw s = s\<lparr>stats_counts := replicate VMSTAT_COUNT 0\<rparr>"

definition vmstats_init :: "nat \<Rightarrow> vaddr \<Rightarrow> vm \<Rightarrow> vm run" where
  "vmstats_init me name s =
     kassert (stats_lock s = 0)
       (bindR (lock_alloc me name (heap s)) (\<lambda>(lk, h).
          kassert (lk \<noteq> 0) (Ok (vmstats_init_raw (s\<lparr>heap := h, stats_lock := lk\<rparr>)))))"

text \<open>The three warnings \<open>vmstats_print\<close> may add to the figures; C \<open>int\<close> sums wrap like the words.\<close>

definition vmstats_print :: "vm \<Rightarrow> (bool \<times> bool \<times> bool) run" where
  "vmstats_print s =
     kassert (stats_lock s \<noteq> 0)
       (let c = (\<lambda>i. stats_counts s ! i) in
        Ok (c 0 \<noteq> c 1 + c 2, c 0 \<noteq> c 6 + c 5 + c 4, c 6 \<noteq> c 7 + c 8))"

subsection \<open>Page tables\<close>

definition pte_create :: "paddr \<Rightarrow> int \<Rightarrow> int \<Rightarrow> pte" where
  "pte_create p v d = \<lparr>pfn = p, valid = v, dirty = d, pref = 0, sw = -1\<rparr>"

definition pt_of :: "nat \<Rightarrow> addrspace \<Rightarrow> pte list option" where
  "pt_of segment a = (if segment = 1 then pt1 a else if segment = 2 then pt2 a else pt3 a)"

definition set_pt :: "nat \<Rightarrow> pte list \<Rightarrow> addrspace \<Rightarrow> addrspace" where
  "set_pt segment pt a =
     (if segment = 1 then a\<lparr>pt1 := Some pt\<rparr> else if segment = 2 then a\<lparr>pt2 := Some pt\<rparr> else a\<lparr>pt3 := Some pt\<rparr>)"

fun find_pte_from :: "pte list \<Rightarrow> paddr \<Rightarrow> nat \<Rightarrow> nat run" where
  "find_pte_from [] p i = Halt Wild"
| "find_pte_from (e # es) p i = (if pfn e = p then Ok i else find_pte_from es p (Suc i))"

definition find_pte :: "addrspace \<Rightarrow> paddr \<Rightarrow> nat \<Rightarrow> nat run" where
  "find_pte a p segment = (case pt_of segment a of None \<Rightarrow> Ok 0 | Some pt \<Rightarrow> find_pte_from pt p 0)"

text \<open>Access to entry \<open>i\<close> of a page table of the address space at \<open>as\<close>.\<close>

definition get_pte :: "nat \<Rightarrow> nat \<Rightarrow> vaddr \<Rightarrow> vm \<Rightarrow> pte run" where
  "get_pte segment i as s =
     (case spaces s as of
        None \<Rightarrow> Halt Wild
      | Some a \<Rightarrow> (case pt_of segment a of
            None \<Rightarrow> Halt Wild
          | Some pt \<Rightarrow> if i < length pt then Ok (pt ! i) else Halt Wild))"

definition set_pte :: "nat \<Rightarrow> nat \<Rightarrow> pte \<Rightarrow> vaddr \<Rightarrow> vm \<Rightarrow> vm" where
  "set_pte segment i e as s =
     (case spaces s as of
        None \<Rightarrow> s
      | Some a \<Rightarrow> (case pt_of segment a of
            None \<Rightarrow> s
          | Some pt \<Rightarrow> s\<lparr>spaces := (spaces s)(as \<mapsto> set_pt segment (pt[i := e]) a)\<rparr>))"

subsection \<open>The swap file\<close>

text \<open>
  \<open>raw\<close> is the \<open>struct uio\<close> as the stack holds it: the functions below leave its \<open>uio_iovcnt\<close> and
  \<open>uio_offset\<close> unset.
\<close>

definition MAX_SIZE :: int where "MAX_SIZE = 9 * 1024 * 1024"

definition swap_initialize ::
    "(vaddr \<Rightarrow> int \<Rightarrow> kheap \<Rightarrow> (int \<times> vaddr \<times> kheap) run) \<Rightarrow> nat \<Rightarrow> vaddr \<Rightarrow> vaddr \<Rightarrow> vm \<Rightarrow> vm run" where
  "swap_initialize vfs_open me lit_swapfile lit_swapLock s =
     bindR (kstrdup me lit_swapfile (heap s)) (\<lambda>(filename, h).
     bindR (vfs_open filename (O_RDWR + O_CREAT + O_TRUNC) h) (\<lambda>(ret, v, h).
     bindR (kfree me filename h) (\<lambda>h.
     bindR (lock_alloc me lit_swapLock h) (\<lambda>(_, h).
       let num = MAX_SIZE div 4096 in
       bindR (kmalloc me (of_int num) h) (\<lambda>(p, h).
         if p = 0 then Halt Wild
         else Ok (s\<lparr>heap := h, swapfile := (if ret = 0 then v else swapfile s), swap_num := num,
                    swap_partition := replicate (nat num) False\<rparr>))))))"

definition swap_uio :: "uio \<Rightarrow> vaddr \<Rightarrow> uio" where
  "swap_uio raw base =
     raw\<lparr>uio_iov := [\<lparr>iov_base = base, iov_len = PAGE_SIZE\<rparr>], uio_resid := PAGE_SIZE,
         uio_rw := UIO_WRITE, uio_segflg := UIO_USERSPACE, uio_space := None\<rparr>"

type_synonym vop = "vaddr \<Rightarrow> uio \<Rightarrow> mem \<Rightarrow> (int \<times> uio \<times> mem) run"

definition read_from_swap :: "vop \<Rightarrow> uio \<Rightarrow> paddr \<Rightarrow> int \<Rightarrow> vm \<Rightarrow> vm run" where
  "read_from_swap vop_read raw p index s =
     bindR (vop_read (swapfile s) (swap_uio raw (PADDR_TO_KVADDR (p * PAGE_SIZE))) (vmem s)) (\<lambda>(_, _, m).
       if index < 0 \<or> length (swap_partition s) \<le> nat index then Halt Wild
       else vmstats_inc 8 ((set_vmem m s)\<lparr>swap_partition := (swap_partition s)[nat index := False]\<rparr>))"

fun free_slot :: "bool list \<Rightarrow> nat \<Rightarrow> nat option" where
  "free_slot [] i = None"
| "free_slot (b # bs) i = (if \<not> b then Some i else free_slot bs (Suc i))"

definition write_to_swap :: "vop \<Rightarrow> uio \<Rightarrow> vm \<Rightarrow> (int \<times> vm) run" where
  "write_to_swap vop_write raw s =
     (case free_slot (swap_partition s) 0 of
        None \<Rightarrow> bindR (vmstats_inc 9 s) (\<lambda>s. Ok (swap_num s, s))
      | Some i \<Rightarrow>
          bindR (vop_write (swapfile s) (swap_uio raw (PADDR_TO_KVADDR (of_nat i * PAGE_SIZE))) (vmem s)) (\<lambda>(result, _, m).
            if result < 0 then Halt Panicked
            else
              let s = (set_vmem m s)\<lparr>swap_partition := (swap_partition s)[i := True]\<rparr>
              in bindR (vmstats_inc 9 s) (\<lambda>s. Ok (int i, s))))"

subsection \<open>Address spaces\<close>

text \<open>\<open>raw\<close> is the structure as \<open>kmalloc\<close> returns it; the fields not set here keep its values.\<close>

definition as_create :: "nat \<Rightarrow> addrspace \<Rightarrow> vm \<Rightarrow> (vaddr \<times> vm) run" where
  "as_create me raw s =
     bindR (kmalloc me 80 (heap s)) (\<lambda>(as, h).
       if as = 0 then Ok (0, s\<lparr>heap := h\<rparr>)
       else
         bindR (kmalloc me (of_nat STACKPAGES * 20) h) (\<lambda>(pt, h).
           if pt = 0 then Halt Wild
           else
             let a = raw\<lparr>as_vbase1 := 0, as_npages1 := 0, as_vbase2 := 0, as_npages2 := 0, pt1 := None, pt2 := None,
                         pt3 := Some (replicate STACKPAGES (pte_create 0 0 0))\<rparr>
             in Ok (as, s\<lparr>heap := h, spaces := (spaces s)(as \<mapsto> a)\<rparr>)))"

definition as_destroy :: "nat \<Rightarrow> vaddr \<Rightarrow> vm \<Rightarrow> vm run" where
  "as_destroy me as s =
     bindR (kfree me as (heap s)) (\<lambda>h. Ok (s\<lparr>heap := h, spaces := (spaces s)(as := None)\<rparr>))"

definition as_prepare_load :: "vaddr \<Rightarrow> vm \<Rightarrow> int \<times> vm" where
  "as_prepare_load as s = (0, s)"

definition as_complete_load :: "vaddr \<Rightarrow> vm \<Rightarrow> int \<times> vm" where
  "as_complete_load as s = (0, s)"

definition as_define_stack :: "vaddr \<Rightarrow> int \<times> vaddr" where
  "as_define_stack as = (0, USERSTACK)"

definition as_copy :: "nat \<Rightarrow> addrspace \<Rightarrow> vaddr \<Rightarrow> vm \<Rightarrow> (int \<times> vaddr option \<times> vm) run" where
  "as_copy me raw old s =
     bindR (as_create me raw s) (\<lambda>(new, s).
       if new = 0 then Ok (ENOMEM, None, s)
       else case (spaces s old, spaces s new) of
           (Some o', Some n) \<Rightarrow>
             let n = n\<lparr>as_vbase1 := as_vbase1 o', as_npages1 := as_npages1 o',
                       as_vbase2 := as_vbase2 o', as_npages2 := as_npages2 o'\<rparr>;
                 (r, s) = as_prepare_load new (s\<lparr>spaces := (spaces s)(new \<mapsto> n)\<rparr>)
             in if r \<noteq> 0 then bindR (as_destroy me new s) (\<lambda>s. Ok (ENOMEM, None, s))
                else Ok (0, Some new, s)
         | _ \<Rightarrow> Halt Wild)"

definition as_activate :: "vm \<Rightarrow> vm run" where
  "as_activate s =
     (if \<not> curproc s \<or> p_addrspace s = 0 then Ok s
      else
        bindR (vm_splhigh s) (\<lambda>(old, s).
        bindR (vmstats_inc 3 s) (\<lambda>s.
          vm_splx old (s\<lparr>tlb := map (\<lambda>i. (TLBHI_INVALID i, TLBLO_INVALID)) [0..<NUM_TLB]\<rparr>))))"

definition as_deactivate :: "vm \<Rightarrow> vm" where
  "as_deactivate s = s"

text \<open>A page table for \<open>npages\<close> pages in whole pages of its own.\<close>

definition make_pt :: "nat \<Rightarrow> csize \<Rightarrow> kheap \<Rightarrow> (pte list option \<times> kheap) run" where
  "make_pt me npages h =
     (let pnum = (if (npages * 20) mod PAGE_SIZE \<noteq> 0 then npages * 20 div PAGE_SIZE + 1 else npages * 20 div PAGE_SIZE)
      in bindR (alloc_kpages me (sint pnum) (phys h)) (\<lambda>(pt, c).
           let h = h\<lparr>phys := c\<rparr> in
           if pt = 0 then if npages = 0 then Ok (None, h) else Halt Wild
           else Ok (Some (replicate (unat npages) (pte_create 0 0 0)), h)))"

definition as_define_region ::
    "nat \<Rightarrow> vaddr \<Rightarrow> vaddr \<Rightarrow> csize \<Rightarrow> u32 \<Rightarrow> u32 \<Rightarrow> u32 \<Rightarrow> vm \<Rightarrow> (int \<times> vm) run" where
  "as_define_region me as va sz readable writeable executable s =
     (let sz = sz + (va AND NOT PAGE_FRAME);
          va = va AND PAGE_FRAME;
          sz = (sz + PAGE_SIZE - 1) AND PAGE_FRAME;
          npages = sz div PAGE_SIZE;
          flags = readable OR writeable OR executable
      in case spaces s as of
           None \<Rightarrow> Halt Wild
         | Some a \<Rightarrow>
             if as_vbase1 a = 0 then
               bindR (make_pt me npages (heap s)) (\<lambda>(pt, h).
                 Ok (0, s\<lparr>heap := h, spaces := (spaces s)(as \<mapsto>
                   a\<lparr>as_vbase1 := va, as_npages1 := npages, as_flag1 := flags, pt1 := pt\<rparr>)\<rparr>))
             else if as_vbase2 a = 0 then
               bindR (make_pt me npages (heap s)) (\<lambda>(pt, h).
                 Ok (0, s\<lparr>heap := h, spaces := (spaces s)(as \<mapsto>
                   a\<lparr>as_vbase2 := va, as_npages2 := npages, as_flag2 := flags, pt2 := pt\<rparr>)\<rparr>))
             else Ok (EUNIMP, s))"

subsection \<open>Starting the virtual memory system\<close>

text \<open>The coremap takes the first pages of free memory, and the frames start behind it.\<close>

definition coremap_bootstrap :: "core \<Rightarrow> core" where
  "coremap_bootstrap c =
     (let (lo, hi, c) = ram_getsize c;
          page_num = (hi - lo) div PAGE_SIZE;
          bytes = page_num * 20;
          free = (if bytes mod PAGE_SIZE \<noteq> 0 then lo + (PAGE_SIZE + (bytes AND 0xfffff000)) else lo + (bytes AND 0xfffff000))
      in init_coremap free (c\<lparr>freeaddr := free, paddr_max := hi, coremap_size := sint page_num\<rparr>))"

definition vm_bootstrap ::
    "(vaddr \<Rightarrow> int \<Rightarrow> kheap \<Rightarrow> (int \<times> vaddr \<times> kheap) run) \<Rightarrow> nat \<Rightarrow> vaddr \<Rightarrow> vaddr \<Rightarrow> vaddr \<Rightarrow> vm \<Rightarrow> vm run" where
  "vm_bootstrap vfs_open me lit_StatsLock lit_swapfile lit_swapLock s =
     bindR (vm_splhigh s) (\<lambda>(old, s).
     bindR (vmstats_init me lit_StatsLock s) (\<lambda>s.
     bindR (swap_initialize vfs_open me lit_swapfile lit_swapLock (set_core (coremap_bootstrap (vcore s)) s))
       (vm_splx old)))"

end
