(* ===== verification/VmFault.thy ===== *)
theory VmFault
  imports AddrSpace
begin

text \<open>
  The page fault handler (\<open>vm_fault\<close> and \<open>load_segment\<close> of \<^verbatim>\<open>kern/vm/vm.c\<close>). The source repeats the same
  code for the two segments and the stack; here it is written once, with the segment number (3 for
  the stack) as a parameter. \<open>vop_read\<close> and \<open>vop_write\<close> are the operations of the vnodes involved and
  \<open>raw\<close> the uninitialised descriptor of the swap file operations.
\<close>

subsection \<open>Model\<close>

definition VM_FAULT_READ :: int where "VM_FAULT_READ = 0"
definition VM_FAULT_WRITE :: int where "VM_FAULT_WRITE = 1"
definition VM_FAULT_READONLY :: int where "VM_FAULT_READONLY = 2"

definition PF_R :: u32 where "PF_R = 4"
definition PF_W :: u32 where "PF_W = 2"
definition PF_X :: u32 where "PF_X = 1"

definition load_segment :: "vop \<Rightarrow> vaddr \<Rightarrow> u64 \<Rightarrow> vaddr \<Rightarrow> csize \<Rightarrow> csize \<Rightarrow> vm \<Rightarrow> (int \<times> vm) run" where
  "load_segment vop_read v off va memsize filesize s =
     (let filesize = (if filesize > memsize then memsize else filesize);
          u = \<lparr>uio_iov = [\<lparr>iov_base = va, iov_len = memsize\<rparr>], uio_iovcnt = 1, uio_offset = off, uio_resid = filesize,
               uio_segflg = UIO_SYSSPACE, uio_rw = UIO_READ, uio_space = None\<rparr>
      in bindR (vop_read v u (vmem s)) (\<lambda>(result, u, m).
           let s = set_vmem m s in
           if result \<noteq> 0 then Ok (result, s)
           else if uio_resid u \<noteq> 0 then Ok (ENOEXEC, s)
           else Ok (0, s)))"

definition tlb_get_rr_victim :: "vm \<Rightarrow> u32 \<times> vm" where
  "tlb_get_rr_victim s = (next_victim s, s\<lparr>next_victim := (next_victim s + 1) mod of_nat NUM_TLB\<rparr>)"

definition tlb_write :: "u32 \<Rightarrow> u32 \<Rightarrow> nat \<Rightarrow> vm \<Rightarrow> vm" where
  "tlb_write ehi elo i s = s\<lparr>tlb := (tlb s)[i := (ehi, elo)]\<rparr>"

text \<open>Bringing a swapped page back in, and throwing out the victim the coremap chose for it.\<close>

definition swap_in :: "vop \<Rightarrow> vop \<Rightarrow> uio \<Rightarrow> nat \<Rightarrow> nat \<Rightarrow> pte \<Rightarrow> vaddr \<Rightarrow> vm \<Rightarrow> vm run" where
  "swap_in vop_read vop_write raw seg vpn entry as s =
     bindR (read_from_swap vop_read raw (pfn entry) (sw entry) s) (\<lambda>s.
     bindR (if pvictim (vcore s) \<noteq> 0 then
              case spaces s as of
                None \<Rightarrow> Halt Wild
              | Some a \<Rightarrow>
                  bindR (find_pte a (pvictim (vcore s)) seg) (\<lambda>i.
                    let s = set_core ((vcore s)\<lparr>pvictim := 0\<rparr>) s in
                    bindR (get_pte seg i as s) (\<lambda>e.
                      let s = set_pte seg i (e\<lparr>valid := 0, dirty := 0, pref := 0\<rparr>) as s in
                      bindR (write_to_swap vop_write raw s) (\<lambda>(k, s).
                      bindR (get_pte seg i as s) (\<lambda>e. Ok (set_pte seg i (e\<lparr>sw := k\<rparr>) as s)))))
            else Ok s) (\<lambda>s.
     bindR (get_pte seg vpn as s) (\<lambda>e. Ok (set_pte seg vpn (e\<lparr>sw := -1\<rparr>) as s))))"

text \<open>
  The frame of the page: \<open>Inl\<close> the error to return, \<open>Inr (paddr, load)\<close> the frame and whether it
  has to be filled.
\<close>

definition fault_frame ::
    "vop \<Rightarrow> vop \<Rightarrow> uio \<Rightarrow> nat \<Rightarrow> nat \<Rightarrow> u32 \<Rightarrow> int \<Rightarrow> nat \<Rightarrow> vaddr \<Rightarrow> vm \<Rightarrow> ((int + paddr \<times> bool) \<times> vm) run" where
  "fault_frame vop_read vop_write raw me seg flag faulttype vpn as s =
     bindR (get_pte seg vpn as s) (\<lambda>entry.
       if valid entry = 0 then
         bindR (getppages me 1 USER (vcore s)) (\<lambda>(paddr, c).
           let s = set_core c s in
           bindR (if sw entry \<noteq> -1 then swap_in vop_read vop_write raw seg vpn entry as s else Ok s) (\<lambda>s.
             if paddr = 0 then Ok (Inl ENOMEM, s)
             else
               bindR (get_pte seg vpn as s) (\<lambda>e.
                 Ok (Inr (paddr, True),
                     set_pte seg vpn (e\<lparr>pfn := paddr, valid := 1, dirty := (if flag AND 2 \<noteq> 0 then 1 else 0)\<rparr>) as s))))
       else if seg \<noteq> 3 \<and> dirty entry = 0 \<and> faulttype = VM_FAULT_WRITE then Ok (Inl EPERM, s)
       else Ok (Inr (pfn entry, seg = 3), s))"

text \<open>Filling the frame from the executable or with zeros.\<close>

definition fill_from ::
    "vop \<Rightarrow> nat \<Rightarrow> vaddr \<Rightarrow> u64 \<Rightarrow> csize \<Rightarrow> vaddr \<Rightarrow> nat \<Rightarrow> vaddr \<Rightarrow> paddr \<Rightarrow> vaddr \<Rightarrow> vm \<Rightarrow> (int \<times> vm) run" where
  "fill_from vop_read seg vbase offset filesz v vpn faultaddress paddr as s =
     bindR (get_pte seg vpn as s) (\<lambda>e.
       let d = dirty e;
           s = set_pte seg vpn (e\<lparr>dirty := 1\<rparr>) as s;
           off = ucast faultaddress - ucast vbase + offset;
           index = unat (filesz div PAGE_SIZE);
           r = filesz mod PAGE_SIZE
       in bindR
            (if index > vpn then
               bindR (vmstats_inc 7 s) (load_segment vop_read v off (PADDR_TO_KVADDR paddr) PAGE_SIZE PAGE_SIZE)
             else if index = vpn \<and> r \<noteq> 0 then
               bindR (vmstats_inc 7 s) (load_segment vop_read v off (PADDR_TO_KVADDR paddr) PAGE_SIZE r)
             else
               bindR (vmstats_inc 5 s) (\<lambda>s. Ok (0, set_vmem (bzero (vmem s) (PADDR_TO_KVADDR paddr) PAGE_SIZE) s)))
            (\<lambda>(result, s).
               bindR (get_pte seg vpn as s) (\<lambda>e. Ok (result, set_pte seg vpn (e\<lparr>dirty := d\<rparr>) as s))))"

definition fill_frame :: "vop \<Rightarrow> nat \<Rightarrow> nat \<Rightarrow> vaddr \<Rightarrow> paddr \<Rightarrow> vaddr \<Rightarrow> vm \<Rightarrow> (int \<times> vm) run" where
  "fill_frame vop_read seg vpn faultaddress paddr as s =
     (case spaces s as of
        None \<Rightarrow> Halt Wild
      | Some a \<Rightarrow>
          if seg = 1 then fill_from vop_read 1 (as_vbase1 a) (offset1 a) (filesz1 a) (vn a) vpn faultaddress paddr as s
          else if seg = 2 then fill_from vop_read 2 (as_vbase2 a) (offset2 a) (filesz2 a) (vn a) vpn faultaddress paddr as s
          else bindR (vmstats_inc 5 s) (\<lambda>s. Ok (0, set_vmem (bzero (vmem s) (PADDR_TO_KVADDR paddr) PAGE_SIZE) s)))"

text \<open>The scan of the TLB: the first entry that is not valid, or one that maps the address already.\<close>

fun tlb_scan :: "u32 \<Rightarrow> (u32 \<times> u32) list \<Rightarrow> nat \<Rightarrow> (bool \<times> nat) option" where
  "tlb_scan faultaddress [] i = None"
| "tlb_scan faultaddress ((ehi, elo) # es) i =
     (if elo AND TLBLO_VALID \<noteq> 0 then
        if ehi = faultaddress then Some (True, i) else tlb_scan faultaddress es (Suc i)
      else Some (False, i))"

definition fill_tlb :: "vop \<Rightarrow> nat \<Rightarrow> u32 \<Rightarrow> nat \<Rightarrow> vaddr \<Rightarrow> paddr \<Rightarrow> bool \<Rightarrow> nat \<Rightarrow> vaddr \<Rightarrow> int \<Rightarrow> vm \<Rightarrow> (int \<times> vm) run" where
  "fill_tlb vop_read seg flag vpn faultaddress paddr load i as old s =
     (let elo = (if flag AND 2 = 0 then paddr OR TLBLO_VALID else paddr OR TLBLO_DIRTY OR TLBLO_VALID)
      in if load then
           bindR (fill_frame vop_read seg vpn faultaddress paddr as
                    (tlb_write faultaddress (paddr OR TLBLO_DIRTY OR TLBLO_VALID) i s)) (\<lambda>(result, s).
             if result \<noteq> 0 then Ok (result, s)
             else bindR (vm_splx old (tlb_write faultaddress elo i s)) (\<lambda>s. Ok (0, s)))
         else
           bindR (vmstats_inc 4 s) (\<lambda>s.
             bindR (vm_splx old (tlb_write faultaddress elo i s)) (\<lambda>s. Ok (0, s))))"

definition fault_tlb :: "vop \<Rightarrow> nat \<Rightarrow> u32 \<Rightarrow> nat \<Rightarrow> vaddr \<Rightarrow> paddr \<Rightarrow> bool \<Rightarrow> vaddr \<Rightarrow> vm \<Rightarrow> (int \<times> vm) run" where
  "fault_tlb vop_read seg flag vpn faultaddress paddr load as s =
     kassert (paddr \<noteq> 0) (kassert (paddr AND PAGE_FRAME = paddr)
       (bindR (vm_splhigh s) (\<lambda>(old, s).
          case tlb_scan faultaddress (tlb s) 0 of
            Some (True, _) \<Rightarrow> bindR (vmstats_inc 4 s) (\<lambda>s. Ok (0, s))
          | Some (False, i) \<Rightarrow>
              bindR (vmstats_inc 0 s) (\<lambda>s. bindR (vmstats_inc 1 s) (\<lambda>s.
                fill_tlb vop_read seg flag vpn faultaddress paddr load i as old s))
          | None \<Rightarrow>
              bindR (vmstats_inc 0 s) (\<lambda>s. bindR (vmstats_inc 2 s) (\<lambda>s.
                let (victim, s) = tlb_get_rr_victim s
                in fill_tlb vop_read seg flag vpn faultaddress paddr load (unat victim) as old s)))))"

text \<open>The segment of an address: its number, its base and its flags.\<close>

definition fault_segment :: "addrspace \<Rightarrow> vaddr \<Rightarrow> (nat \<times> vaddr \<times> u32) option" where
  "fault_segment a fa =
     (let stackbase = USERSTACK - of_nat STACKPAGES * PAGE_SIZE in
      if fa \<ge> as_vbase1 a \<and> fa < as_vbase1 a + as_npages1 a * PAGE_SIZE then Some (1, as_vbase1 a, as_flag1 a)
      else if fa \<ge> as_vbase2 a \<and> fa < as_vbase2 a + as_npages2 a * PAGE_SIZE then Some (2, as_vbase2 a, as_flag2 a)
      else if fa \<ge> stackbase \<and> fa < USERSTACK then Some (3, stackbase, PF_R OR PF_W)
      else None)"

definition vm_fault :: "vop \<Rightarrow> vop \<Rightarrow> uio \<Rightarrow> nat \<Rightarrow> int \<Rightarrow> vaddr \<Rightarrow> vm \<Rightarrow> (int \<times> vm) run" where
  "vm_fault vop_read vop_write raw me faulttype faultaddress s =
     (let faultaddress = faultaddress AND PAGE_FRAME in
      if faulttype \<noteq> VM_FAULT_READ \<and> faulttype \<noteq> VM_FAULT_WRITE then Ok (EINVAL, s)
      else if \<not> curproc s then Ok (EFAULT, s)
      else if p_addrspace s = 0 then Ok (EFAULT, s)
      else
        let as = p_addrspace s in
        case spaces s as of
          None \<Rightarrow> Halt Wild
        | Some a \<Rightarrow>
            kassert (as_vbase1 a \<noteq> 0) (kassert (as_npages1 a \<noteq> 0)
            (kassert (as_vbase2 a \<noteq> 0) (kassert (as_npages2 a \<noteq> 0)
            (kassert (as_vbase1 a AND PAGE_FRAME = as_vbase1 a) (kassert (as_vbase2 a AND PAGE_FRAME = as_vbase2 a)
              (case fault_segment a faultaddress of
                 None \<Rightarrow> Ok (EFAULT, s)
               | Some (seg, vbase, flag) \<Rightarrow>
                   let vpn = unat ((faultaddress - vbase) div PAGE_SIZE) in
                   bindR (fault_frame vop_read vop_write raw me seg flag faulttype vpn as s) (\<lambda>(r, s).
                     case r of
                       Inl err \<Rightarrow> Ok (err, s)
                     | Inr (paddr, load) \<Rightarrow> fault_tlb vop_read seg flag vpn faultaddress paddr load as s))))))))"

end
