(* ===== verification/VmSafe.thy ===== *)
theory VmSafe
  imports VmFault
begin

text \<open>
  Correctness of the page fault handler: frames of different pages are different and are none of the
  kernel heap's, the TLB maps every address at most once and only as the page tables say, and a
  fault fills and maps exactly its own page.
\<close>

subsection \<open>Invariant\<close>

definition heap_pages :: "kheap \<Rightarrow> vaddr set" where
  "heap_pages h = page h ` inuse_set (pagerefs_inuse h)"

definition SEGS :: "nat set" where "SEGS = {1, 2, 3}"

text \<open>Page \<open>i\<close> of segment \<open>seg\<close> of the address space at \<open>as\<close> is in the frame \<open>p\<close>.\<close>

definition resident :: "vm \<Rightarrow> vaddr \<Rightarrow> nat \<Rightarrow> nat \<Rightarrow> paddr \<Rightarrow> bool" where
  "resident s as seg i p \<longleftrightarrow> seg \<in> SEGS \<and> (\<exists>e. get_pte seg i as s = Ok e \<and> valid e \<noteq> 0 \<and> pfn e = p)"

definition entries_ok :: "vm \<Rightarrow> bool" where
  "entries_ok s \<longleftrightarrow>
     (\<forall>as seg i e. seg \<in> SEGS \<longrightarrow> get_pte seg i as s = Ok e \<longrightarrow> sw e = -1)
     \<and> (\<forall>as seg i p. resident s as seg i p \<longrightarrow>
           PADDR_TO_KVADDR p \<in> kpages (vcore s) \<and> PADDR_TO_KVADDR p \<notin> heap_pages (heap s))
     \<and> (\<forall>as seg i as' seg' i' p. resident s as seg i p \<longrightarrow> resident s as' seg' i' p \<longrightarrow>
           as = as' \<and> seg = seg' \<and> i = i')"

definition tlb_valid :: "(u32 \<times> u32) list \<Rightarrow> nat \<Rightarrow> bool" where
  "tlb_valid t i \<longleftrightarrow> i < length t \<and> snd (t ! i) AND TLBLO_VALID \<noteq> 0"

text \<open>The valid entries come first, and no two of them are for the same address.\<close>

definition tlb_ok :: "(u32 \<times> u32) list \<Rightarrow> bool" where
  "tlb_ok t \<longleftrightarrow> length t = NUM_TLB
     \<and> (\<forall>i j. i < j \<longrightarrow> tlb_valid t j \<longrightarrow> tlb_valid t i)
     \<and> (\<forall>i j. tlb_valid t i \<longrightarrow> tlb_valid t j \<longrightarrow> fst (t ! i) = fst (t ! j) \<longrightarrow> i = j)"

definition elo_of :: "u32 \<Rightarrow> paddr \<Rightarrow> u32" where
  "elo_of flag p = (if flag AND 2 = 0 then p OR TLBLO_VALID else p OR TLBLO_DIRTY OR TLBLO_VALID)"

text \<open>A valid entry is for a resident page of the current address space, writable iff its segment is.\<close>

definition maps :: "vm \<Rightarrow> addrspace \<Rightarrow> u32 \<Rightarrow> u32 \<Rightarrow> bool" where
  "maps s a ehi elo \<longleftrightarrow>
     (\<exists>seg vbase flag p. fault_segment a ehi = Some (seg, vbase, flag) \<and> ehi AND PAGE_FRAME = ehi
        \<and> resident s (p_addrspace s) seg (unat ((ehi - vbase) div PAGE_SIZE)) p \<and> elo = elo_of flag p)"

text \<open>Address space \<open>a\<close> has its regions and page tables in place.\<close>

definition space_ok :: "addrspace \<Rightarrow> bool" where
  "space_ok a \<longleftrightarrow> as_vbase1 a \<noteq> 0 \<and> as_npages1 a \<noteq> 0 \<and> as_vbase2 a \<noteq> 0 \<and> as_npages2 a \<noteq> 0
     \<and> as_vbase1 a AND PAGE_FRAME = as_vbase1 a \<and> as_vbase2 a AND PAGE_FRAME = as_vbase2 a
     \<and> unat (as_vbase1 a) + 4096 * unat (as_npages1 a) < 2 ^ 32
     \<and> unat (as_vbase2 a) + 4096 * unat (as_npages2 a) < 2 ^ 32
     \<and> (\<exists>l1 l2 l3. pt1 a = Some l1 \<and> pt2 a = Some l2 \<and> pt3 a = Some l3
          \<and> length l1 = unat (as_npages1 a) \<and> length l2 = unat (as_npages2 a) \<and> length l3 = STACKPAGES)"

definition spl_low :: spl_state where "spl_low = \<lparr>t_curspl = 0, t_iplhigh_count = 0, irq = True\<rparr>"
definition spl_high :: spl_state where "spl_high = \<lparr>t_curspl = 1, t_iplhigh_count = 1, irq = False\<rparr>"

definition vm_ok :: "(vaddr \<times> nat) set \<Rightarrow> vm \<Rightarrow> bool" where
  "vm_ok B s \<longleftrightarrow> heap_abs (heap s) B \<and> entries_ok s \<and> tlb_ok (tlb s)
     \<and> curproc s \<and> p_addrspace s \<noteq> 0
     \<and> (\<exists>a. spaces s (p_addrspace s) = Some a \<and> space_ok a
          \<and> (\<forall>i. tlb_valid (tlb s) i \<longrightarrow> maps s a (fst (tlb s ! i)) (snd (tlb s ! i))))
     \<and> stats_lock s \<noteq> 0 \<and> unat (next_victim s) < NUM_TLB \<and> spl s \<in> {spl_low, spl_high}"

text \<open>What reading a file into kernel memory does when it succeeds in full.\<close>

definition reads_fully :: "vop \<Rightarrow> bool" where
  "reads_fully rd \<longleftrightarrow>
     (\<forall>v va len n off m. n \<le> len \<longrightarrow>
        (\<exists>u' m'. rd v \<lparr>uio_iov = [\<lparr>iov_base = va, iov_len = len\<rparr>], uio_iovcnt = 1, uio_offset = off, uio_resid = n,
                       uio_segflg = UIO_SYSSPACE, uio_rw = UIO_READ, uio_space = None\<rparr> m = Ok (0, u', m')
           \<and> uio_resid u' = 0 \<and> (\<forall>x. unat len \<le> unat (x - va) \<longrightarrow> m' x = m x)))"

subsection \<open>Steps that keep the page tables\<close>

text \<open>From \<open>s\<close> to \<open>s'\<close> only the frame \<open>p\<close>, the TLB, the statistics and the interrupt level change.\<close>

definition touched :: "paddr \<Rightarrow> vm \<Rightarrow> vm \<Rightarrow> bool" where
  "touched p s s' \<longleftrightarrow> spaces s' = spaces s \<and> curproc s' = curproc s \<and> p_addrspace s' = p_addrspace s
     \<and> stats_lock s' = stats_lock s \<and> (\<exists>m. heap s' = set_hmem m (heap s))
     \<and> only_changes (unat (PADDR_TO_KVADDR p)) 4096 (vmem s) (vmem s')"

lemma set_hmem_same [simp]: "set_hmem (kmem (phys h)) h = h"
  by (simp add: set_hmem_def)

lemma set_hmem_twice [simp]: "set_hmem m (set_hmem m' h) = set_hmem m h"
  by (simp add: set_hmem_def)

lemma touched_refl [simp]: "touched p s s"
  by (auto simp: touched_def intro: exI [of _ "vmem s"])

lemma touched_trans: "touched p s s' \<Longrightarrow> touched p s' s'' \<Longrightarrow> touched p s s''"
  by (auto simp: touched_def intro: only_changes_trans)

lemma touched_fields [simp]:
  "touched p s (s\<lparr>tlb := t\<rparr>)" "touched p s (s\<lparr>next_victim := nv\<rparr>)" "touched p s (s\<lparr>spl := l\<rparr>)" "touched p s (s\<lparr>stats_counts := c\<rparr>)"
  by (auto simp: touched_def intro: exI [of _ "vmem s"])

lemma touched_memory:
  "only_changes (unat (PADDR_TO_KVADDR p)) 4096 (vmem s) m \<Longrightarrow> touched p s (set_vmem m s)"
  by (auto simp: touched_def set_vmem_def set_core_def set_hmem_def)

lemma vmstats_inc_ok:
  assumes "stats_lock s \<noteq> 0" and "i < 10"
  obtains c where "vmstats_inc i s = Ok (s\<lparr>stats_counts := c\<rparr>)"
  using assms by (simp add: vmstats_inc_def vmstats_inc_raw_def VMSTAT_COUNT_def)

lemma spl_steps:
  "spl s \<in> {spl_low, spl_high} \<Longrightarrow> vm_splhigh s = Ok (t_curspl (spl s), s\<lparr>spl := spl_high\<rparr>)"
  "spl s = spl_high \<Longrightarrow> l \<in> {spl_low, spl_high} \<Longrightarrow> vm_splx (t_curspl l) s = Ok (s\<lparr>spl := l\<rparr>)"
  by (auto simp: vm_splhigh_def vm_splx_def splhigh_def splx_def splraise_def spllower_def spl_low_def spl_high_def
      IPL_NONE_def IPL_HIGH_def Let_def)

lemma get_pte_touched: "touched p s s' \<Longrightarrow> get_pte seg i as s' = get_pte seg i as s"
  by (simp add: touched_def get_pte_def)

lemma resident_touched: "touched p s s' \<Longrightarrow> resident s' as seg i q = resident s as seg i q"
  by (simp add: resident_def get_pte_touched)

lemma kpages_set_hmem [simp]: "kpages (phys (set_hmem m h)) = kpages (phys h)"
  by (simp add: set_hmem_def)

lemma heap_pages_phys [simp]: "heap_pages (set_hmem m h) = heap_pages h" "heap_pages (h\<lparr>phys := c\<rparr>) = heap_pages h"
  by (simp_all add: heap_pages_def set_hmem_def)

lemma heap_abs_page_write:
  assumes "heap_abs h B" and "P \<in> kpages (phys h)" and "P \<notin> heap_pages h" and "only_changes (unat P) 4096 (hmem h) m"
  shows "heap_abs (set_hmem m h) B" and "kept B h (set_hmem m h)"
proof -
  obtain L F where rep: "heap_rep spinlock_init h L F" and B: "B = live h L F" using assms(1) by (auto simp: heap_abs_def)
  have L: "page h ` set L = heap_pages h" using rep by (simp add: heap_rep_def refs_ok_def heap_pages_def)
  have inv: "core_inv (phys h)" using rep by (simp add: heap_rep_def)
  have at: "page_at P" by (rule kpages_page_at [OF inv assms(2)])
  have "page h ` set L \<subseteq> kpages (phys h)" using rep by (auto simp: heap_rep_def pages_ok_def)
  then have "heap_rep spinlock_init (h\<lparr>phys := (phys h)\<lparr>kmem := m\<rparr>\<rparr>) L F"
    using assms(3,4) at inv L by (intro heap_rep_phys [OF rep]) auto
  then show "heap_abs (set_hmem m h) B" using B by (auto simp: heap_abs_def set_hmem_def)
  show "kept B h (set_hmem m h)"
    unfolding B using assms(3,4) at L by (intro kept_outside [OF rep]) (auto simp: set_hmem_def)
qed

lemma vm_ok_step:
  assumes ok: "vm_ok B s" and res: "resident s as seg i p" and t: "touched p s s'"
    and a: "spaces s (p_addrspace s) = Some a"
    and tlb: "tlb_ok (tlb s')" "\<And>j. tlb_valid (tlb s') j \<Longrightarrow> maps s a (fst (tlb s' ! j)) (snd (tlb s' ! j))"
    and rest: "unat (next_victim s') < NUM_TLB" "spl s' \<in> {spl_low, spl_high}"
  shows "vm_ok B s'" and "kept B (heap s) (heap s')"
proof -
  obtain m where m: "heap s' = set_hmem m (heap s)" and ch: "only_changes (unat (PADDR_TO_KVADDR p)) 4096 (vmem s) (vmem s')"
    using t by (auto simp: touched_def)
  have P: "PADDR_TO_KVADDR p \<in> kpages (vcore s)" "PADDR_TO_KVADDR p \<notin> heap_pages (heap s)"
    using ok res by (auto simp: vm_ok_def entries_ok_def)
  have mm: "vmem s' = m" using m by (simp add: set_hmem_def)
  have h: "heap_abs (heap s') B" "kept B (heap s) (heap s')"
    using heap_abs_page_write [OF _ P, of B m] ok ch mm m by (auto simp: vm_ok_def)
  then show "kept B (heap s) (heap s')" by simp
  have same: "spaces s' = spaces s" "curproc s' = curproc s" "p_addrspace s' = p_addrspace s" "stats_lock s' = stats_lock s"
    using t by (auto simp: touched_def)
  have "entries_ok s' = entries_ok s"
    using m by (simp add: entries_ok_def resident_touched [OF t] get_pte_touched [OF t])
  moreover have "maps s' a ehi elo = maps s a ehi elo" for ehi elo
    using same by (simp add: maps_def resident_touched [OF t])
  ultimately show "vm_ok B s'" using ok h(1) same a tlb rest by (auto simp: vm_ok_def)
qed

subsection \<open>The TLB\<close>

lemma tlb_scan_spec:
  "(case tlb_scan fa es k of
      None \<Rightarrow> (\<forall>j<length es. tlb_valid es j \<and> fst (es ! j) \<noteq> fa)
    | Some (hit, i) \<Rightarrow> \<exists>n<length es. i = k + n \<and> (\<forall>j<n. tlb_valid es j \<and> fst (es ! j) \<noteq> fa)
        \<and> (if hit then tlb_valid es n \<and> fst (es ! n) = fa else \<not> tlb_valid es n))"
proof (induction fa es k rule: tlb_scan.induct)
  case (2 fa ehi elo es k)
  have shift: "tlb_valid ((ehi, elo) # es) (Suc j) = tlb_valid es j" for j by (simp add: tlb_valid_def)
  show ?case
  proof (cases "elo AND TLBLO_VALID \<noteq> 0 \<and> ehi \<noteq> fa")
    case True
    then have v0: "tlb_valid ((ehi, elo) # es) 0" by (simp add: tlb_valid_def)
    have all: "(\<forall>j<Suc n. tlb_valid ((ehi, elo) # es) j \<and> fst (((ehi, elo) # es) ! j) \<noteq> fa) \<longleftrightarrow>
        (\<forall>j<n. tlb_valid es j \<and> fst (es ! j) \<noteq> fa)" for n
      using v0 True by (auto simp: less_Suc_eq_0_disj shift)
    from True "2.IH" show ?thesis
      by (auto simp: shift all [of "length es", simplified] split: option.splits if_splits)
        (metis all nth_Cons_Suc shift Suc_less_eq add_Suc_right)+
  next
    case False
    then show ?thesis by (auto simp: tlb_valid_def)
  qed
qed simp

lemma or_and_self: "(p OR w) AND w = (w :: u32)"
  by (auto simp: bit_eq_iff bit_simps)

lemma elo_valid: "elo_of flag p AND TLBLO_VALID \<noteq> 0" "(p OR TLBLO_DIRTY OR TLBLO_VALID) AND TLBLO_VALID \<noteq> 0"
proof -
  have "(q OR TLBLO_VALID) AND TLBLO_VALID \<noteq> 0" for q by (simp add: or_and_self) (simp add: TLBLO_VALID_def)
  then show "elo_of flag p AND TLBLO_VALID \<noteq> 0" "(p OR TLBLO_DIRTY OR TLBLO_VALID) AND TLBLO_VALID \<noteq> 0"
    unfolding elo_of_def by (auto simp: or.assoc [symmetric])
qed

lemma tlb_update:
  assumes ok: "tlb_ok t" and i: "i < NUM_TLB" and before: "\<And>j. j < i \<Longrightarrow> tlb_valid t j"
    and other: "\<And>j. tlb_valid t j \<Longrightarrow> j \<noteq> i \<Longrightarrow> fst (t ! j) \<noteq> fa" and elo: "elo AND TLBLO_VALID \<noteq> 0"
  shows "tlb_ok (t[i := (fa, elo)])"
    and "tlb_valid (t[i := (fa, elo)]) j \<longleftrightarrow> j = i \<or> tlb_valid t j"
proof -
  have len: "length t = NUM_TLB" using ok by (simp add: tlb_ok_def)
  show v: "tlb_valid (t[i := (fa, elo)]) j \<longleftrightarrow> j = i \<or> tlb_valid t j" for j
    using len i elo by (auto simp: tlb_valid_def nth_list_update)
  have at: "t[i := (fa, elo)] ! j = (if j = i then (fa, elo) else t ! j)" if "j < NUM_TLB" for j
    using that len by (simp add: nth_list_update)
  have lt: "tlb_valid t j \<Longrightarrow> j < NUM_TLB" for j using len by (simp add: tlb_valid_def)
  have "\<forall>k j. k < j \<longrightarrow> tlb_valid (t[i := (fa, elo)]) j \<longrightarrow> tlb_valid (t[i := (fa, elo)]) k"
    using ok before unfolding v tlb_ok_def by blast
  moreover have "k = j" if "tlb_valid (t[i := (fa, elo)]) k" "tlb_valid (t[i := (fa, elo)]) j"
      "fst (t[i := (fa, elo)] ! k) = fst (t[i := (fa, elo)] ! j)" for k j
  proof -
    have "k < NUM_TLB" "j < NUM_TLB" using that(1,2) i lt unfolding v by auto
    then have "(if k = i then fa else fst (t ! k)) = (if j = i then fa else fst (t ! j))"
      using that(3) at [of k] at [of j] by auto
    then show ?thesis
      using that(1,2) other [of k] other [of j] ok unfolding v tlb_ok_def by (auto split: if_splits)
  qed
  ultimately show "tlb_ok (t[i := (fa, elo)])" using len by (auto simp: tlb_ok_def)
qed

subsection \<open>Filling a frame\<close>

text \<open>Steps that also leave the TLB and the interrupt level alone.\<close>

definition filled :: "paddr \<Rightarrow> vm \<Rightarrow> vm \<Rightarrow> bool" where
  "filled p s s' \<longleftrightarrow> touched p s s' \<and> tlb s' = tlb s \<and> next_victim s' = next_victim s \<and> spl s' = spl s"

lemma filled_refl [simp]: "filled p s s"
  by (simp add: filled_def)

lemma filled_trans: "filled p s s' \<Longrightarrow> filled p s' s'' \<Longrightarrow> filled p s s''"
  by (auto simp: filled_def intro: touched_trans)

lemma filled_stats: "filled p s (s\<lparr>stats_counts := c\<rparr>)"
  by (simp add: filled_def)

lemma filled_memory: "only_changes (unat (PADDR_TO_KVADDR p)) 4096 (vmem s) m \<Longrightarrow> filled p s (set_vmem m s)"
  using touched_memory [of p s m] by (simp add: filled_def) (simp add: set_vmem_def set_core_def)

lemma filled_counted:
  assumes "only_changes (unat (PADDR_TO_KVADDR p)) 4096 (vmem s) m"
  shows "filled p s (set_vmem m (s\<lparr>stats_counts := c\<rparr>))"
  by (rule filled_trans [OF filled_stats filled_memory]) (simp add: assms)

lemma page_only_changes:
  assumes "page_at P" and "\<And>x. 4096 \<le> unat (x - P) \<Longrightarrow> m' x = m x"
  shows "only_changes (unat P) 4096 m m'"
  using assms outside_page by (auto simp: only_changes_def)

lemma zero_frame:
  assumes "page_at (PADDR_TO_KVADDR p)" and "stats_lock s \<noteq> 0"
  shows "\<exists>s'. bindR (vmstats_inc 5 s) (\<lambda>s. Ok (0 :: int, set_vmem (bzero (vmem s) (PADDR_TO_KVADDR p) PAGE_SIZE) s)) = Ok (0, s')
    \<and> filled p s s' \<and> (\<forall>x. unat (x - PADDR_TO_KVADDR p) < 4096 \<longrightarrow> vmem s' x = 0)"
proof -
  obtain c where c: "vmstats_inc 5 s = Ok (s\<lparr>stats_counts := c\<rparr>)" using vmstats_inc_ok [OF assms(2), of 5] by auto
  let ?m = "bzero (vmem s) (PADDR_TO_KVADDR p) PAGE_SIZE"
  have "only_changes (unat (PADDR_TO_KVADDR p)) 4096 (vmem s) ?m"
    by (rule page_only_changes [OF assms(1)]) (simp add: bzero_at layout_defs)
  then have "filled p s (set_vmem ?m (s\<lparr>stats_counts := c\<rparr>))" by (rule filled_counted)
  moreover have "vmem (set_vmem ?m (s\<lparr>stats_counts := c\<rparr>)) = ?m" by (simp add: set_vmem_def set_core_def)
  ultimately show ?thesis using c by (simp add: bzero_at layout_defs)
qed

lemma load_frame:
  assumes rd: "reads_fully rd" and "page_at (PADDR_TO_KVADDR p)" and "stats_lock s \<noteq> 0" and "n \<le> PAGE_SIZE"
  shows "\<exists>s'. bindR (vmstats_inc 7 s) (load_segment rd v off (PADDR_TO_KVADDR p) PAGE_SIZE n) = Ok (0, s') \<and> filled p s s'"
proof -
  obtain c where c: "vmstats_inc 7 s = Ok (s\<lparr>stats_counts := c\<rparr>)" using vmstats_inc_ok [OF assms(3), of 7] by auto
  from rd assms(4) obtain u' m' where r: "rd v \<lparr>uio_iov = [\<lparr>iov_base = PADDR_TO_KVADDR p, iov_len = PAGE_SIZE\<rparr>], uio_iovcnt = 1,
       uio_offset = off, uio_resid = n, uio_segflg = UIO_SYSSPACE, uio_rw = UIO_READ, uio_space = None\<rparr> (vmem s) = Ok (0, u', m')"
    "uio_resid u' = 0" "\<forall>x. unat PAGE_SIZE \<le> unat (x - PADDR_TO_KVADDR p) \<longrightarrow> m' x = vmem s x"
    unfolding reads_fully_def by metis
  have "only_changes (unat (PADDR_TO_KVADDR p)) 4096 (vmem s) m'"
    using r(3) by (intro page_only_changes [OF assms(2)]) (simp add: layout_defs)
  then have "filled p s (set_vmem m' (s\<lparr>stats_counts := c\<rparr>))" by (rule filled_counted)
  moreover have "\<not> n > PAGE_SIZE" using assms(4) by simp
  ultimately show ?thesis using c r by (simp add: load_segment_def Let_def)
qed

lemma pt_update_same: "pt1 a = p \<Longrightarrow> a\<lparr>pt1 := p\<rparr> = a" "pt2 a = p \<Longrightarrow> a\<lparr>pt2 := p\<rparr> = a" "pt3 a = p \<Longrightarrow> a\<lparr>pt3 := p\<rparr> = a"
  by (cases a, simp)+

lemma set_pt_undo:
  assumes "pt_of seg a = Some pt"
  shows "set_pt seg pt (set_pt seg l a) = a"
proof -
  have "set_pt seg pt (set_pt seg l a) = set_pt seg pt a"
    unfolding set_pt_def by (cases "seg = 1"; cases "seg = 2") simp_all
  moreover have "set_pt seg pt a = a"
    using assms unfolding set_pt_def pt_of_def by (cases "seg = 1"; cases "seg = 2") (simp_all only: if_True if_False simp_thms pt_update_same)
  ultimately show ?thesis by simp
qed

lemma get_set_pte:
  assumes "get_pte seg i as s = Ok e"
  shows "get_pte seg i as (set_pte seg i e' as s) = Ok e'"
    and "spaces s' = spaces (set_pte seg i e' as s) \<Longrightarrow> spaces (set_pte seg i e as s') = spaces s"
proof -
  obtain a pt where a: "spaces s as = Some a" "pt_of seg a = Some pt" "i < length pt" "e = pt ! i"
    using assms by (auto simp: get_pte_def split: option.splits if_splits)
  have pt: "pt_of seg (set_pt seg l b) = Some l" for l b by (simp add: pt_of_def set_pt_def)
  note undo = set_pt_undo [OF a(2)]
  show "get_pte seg i as (set_pte seg i e' as s) = Ok e'" using a by (simp add: get_pte_def set_pte_def pt)
  show "spaces (set_pte seg i e as s') = spaces s" if "spaces s' = spaces (set_pte seg i e' as s)"
  proof -
    have "spaces s' = (spaces s)(as \<mapsto> set_pt seg (pt[i := e']) a)" using that a by (simp add: set_pte_def)
    then have "spaces (set_pte seg i e as s') = (spaces s)(as \<mapsto> a)" using a(4) by (simp add: set_pte_def pt undo)
    then show ?thesis using a(1) by (simp add: fun_upd_idem)
  qed
qed

lemma set_pte_fields [simp]:
  "heap (set_pte seg i e as s) = heap s" "tlb (set_pte seg i e as s) = tlb s" "spl (set_pte seg i e as s) = spl s"
  "next_victim (set_pte seg i e as s) = next_victim s" "stats_lock (set_pte seg i e as s) = stats_lock s"
  "curproc (set_pte seg i e as s) = curproc s" "p_addrspace (set_pte seg i e as s) = p_addrspace s"
  by (simp_all add: set_pte_def split: option.splits)

lemma fill_from_ok:
  assumes rd: "reads_fully rd" and at: "page_at (PADDR_TO_KVADDR p)" and lk: "stats_lock s \<noteq> 0"
    and e: "get_pte seg vpn as s = Ok e"
  shows "\<exists>s'. fill_from rd seg vbase off filesz v vpn fa p as s = Ok (0, s') \<and> filled p s s'"
proof -
  let ?s = "set_pte seg vpn (e\<lparr>dirty := 1\<rparr>) as s"
  define inner where "inner = (if unat (filesz div PAGE_SIZE) > vpn then
       bindR (vmstats_inc 7 ?s) (load_segment rd v (ucast fa - ucast vbase + off) (PADDR_TO_KVADDR p) PAGE_SIZE PAGE_SIZE)
     else if unat (filesz div PAGE_SIZE) = vpn \<and> filesz mod PAGE_SIZE \<noteq> 0 then
       bindR (vmstats_inc 7 ?s) (load_segment rd v (ucast fa - ucast vbase + off) (PADDR_TO_KVADDR p) PAGE_SIZE (filesz mod PAGE_SIZE))
     else bindR (vmstats_inc 5 ?s) (\<lambda>s. Ok (0, set_vmem (bzero (vmem s) (PADDR_TO_KVADDR p) PAGE_SIZE) s)))"
  have lk': "stats_lock ?s \<noteq> 0" using lk by simp
  have "filesz mod PAGE_SIZE \<le> PAGE_SIZE" by (simp add: word_le_nat_alt unat_mod layout_defs order_less_imp_le)
  note load = load_frame [OF rd at lk' this] load_frame [OF rd at lk' order_refl]
  consider "unat (filesz div PAGE_SIZE) > vpn" | "\<not> unat (filesz div PAGE_SIZE) > vpn" "unat (filesz div PAGE_SIZE) = vpn \<and> filesz mod PAGE_SIZE \<noteq> 0"
    | "\<not> unat (filesz div PAGE_SIZE) > vpn" "\<not> (unat (filesz div PAGE_SIZE) = vpn \<and> filesz mod PAGE_SIZE \<noteq> 0)" by argo
  then have "\<exists>s2. inner = Ok (0, s2) \<and> filled p ?s s2"
  proof cases
    case 1
    show ?thesis unfolding inner_def if_P [OF 1] by (rule load(2))
  next
    case 2
    show ?thesis unfolding inner_def if_not_P [OF 2(1)] if_P [OF 2(2)] by (rule load(1))
  next
    case 3
    show ?thesis unfolding inner_def if_not_P [OF 3(1)] if_not_P [OF 3(2)] using zero_frame [OF at lk'] by blast
  qed
  then obtain s2 where s2: "inner = Ok (0, s2)" "filled p ?s s2" by blast
  let ?s' = "set_pte seg vpn e as s2"
  have sp: "spaces s2 = spaces ?s" using s2(2) by (simp add: filled_def touched_def)
  have "get_pte seg vpn as s2 = Ok (e\<lparr>dirty := 1\<rparr>)"
    using get_set_pte(1) [OF e, of "e\<lparr>dirty := 1\<rparr>"] sp by (simp add: get_pte_def)
  moreover have "e\<lparr>dirty := 1, dirty := dirty e\<rparr> = e" by simp
  ultimately have "fill_from rd seg vbase off filesz v vpn fa p as s = Ok (0, ?s')"
    using e s2(1) by (simp add: fill_from_def inner_def [symmetric])
  moreover have "spaces ?s' = spaces s" by (rule get_set_pte(2) [OF e sp])
  then have "filled p s ?s'" using s2(2) by (auto simp: filled_def touched_def)
  ultimately show ?thesis by blast
qed

lemma fill_frame_ok:
  assumes rd: "reads_fully rd" and at: "page_at (PADDR_TO_KVADDR p)" and lk: "stats_lock s \<noteq> 0"
    and e: "get_pte seg vpn as s = Ok e"
  shows "\<exists>s'. fill_frame rd seg vpn fa p as s = Ok (0, s') \<and> filled p s s'
    \<and> (seg \<noteq> 1 \<longrightarrow> seg \<noteq> 2 \<longrightarrow> (\<forall>x. unat (x - PADDR_TO_KVADDR p) < 4096 \<longrightarrow> vmem s' x = 0))"
proof -
  obtain a where a: "spaces s as = Some a" using e by (auto simp: get_pte_def split: option.splits)
  show ?thesis
  proof (cases "seg = 1 \<or> seg = 2")
    case True
    then show ?thesis using a fill_from_ok [OF rd at lk e] by (auto simp: fill_frame_def)
  next
    case False
    then show ?thesis using a zero_frame [OF at lk] by (auto simp: fill_frame_def)
  qed
qed

text \<open>Entering a resident page into slot \<open>i\<close> of the TLB.\<close>

lemma fill_tlb_ok:
  assumes rd: "reads_fully rd" and at: "page_at (PADDR_TO_KVADDR p)" and lk: "stats_lock s \<noteq> 0"
    and e: "get_pte seg vpn as s = Ok e" and sp: "spl s = spl_high" "l \<in> {spl_low, spl_high}"
  shows "\<exists>s'. fill_tlb rd seg flag vpn fa p load i as (t_curspl l) s = Ok (0, s') \<and> touched p s s'
    \<and> tlb s' = (tlb s)[i := (fa, elo_of flag p)] \<and> next_victim s' = next_victim s \<and> spl s' = l
    \<and> (load \<and> seg \<noteq> 1 \<and> seg \<noteq> 2 \<longrightarrow> (\<forall>x. unat (x - PADDR_TO_KVADDR p) < 4096 \<longrightarrow> vmem s' x = 0))
    \<and> (\<not> load \<longrightarrow> vmem s' = vmem s)"
proof (cases load)
  case True
  let ?s = "tlb_write fa (p OR TLBLO_DIRTY OR TLBLO_VALID) i s"
  have t1: "touched p s ?s" by (simp add: tlb_write_def)
  have "stats_lock ?s \<noteq> 0" "get_pte seg vpn as ?s = Ok e" using lk e get_pte_touched [OF t1] by (simp_all add: tlb_write_def)
  from fill_frame_ok [OF rd at this] obtain s2 where s2: "fill_frame rd seg vpn fa p as ?s = Ok (0, s2)" "filled p ?s s2"
    "seg \<noteq> 1 \<longrightarrow> seg \<noteq> 2 \<longrightarrow> (\<forall>x. unat (x - PADDR_TO_KVADDR p) < 4096 \<longrightarrow> vmem s2 x = 0)" by blast
  let ?t = "tlb_write fa (elo_of flag p) i s2"
  have h: "spl ?t = spl_high" using s2(2) sp(1) by (simp add: filled_def tlb_write_def)
  define s' where "s' = ?t\<lparr>spl := l\<rparr>"
  have run: "fill_tlb rd seg flag vpn fa p load i as (t_curspl l) s = Ok (0, s')"
    using True s2(1) spl_steps(2) [OF h sp(2)] by (simp add: fill_tlb_def elo_of_def s'_def)
  have t3: "touched p s2 s'" unfolding s'_def by (rule touched_trans [of _ _ ?t]) (simp_all add: tlb_write_def)
  have t2: "touched p ?s s2" using s2(2) by (simp only: filled_def)
  have t: "touched p s s'" by (rule touched_trans [OF t1 touched_trans [OF t2 t3]])
  have "tlb s' = (tlb s)[i := (fa, elo_of flag p)]" "next_victim s' = next_victim s" "vmem s' = vmem s2" "spl s' = l"
    using s2(2) by (simp_all add: filled_def tlb_write_def s'_def)
  then show ?thesis using True s2(3) run t by (intro exI [of _ s']) auto
next
  case False
  obtain c where c: "vmstats_inc 4 s = Ok (s\<lparr>stats_counts := c\<rparr>)" using vmstats_inc_ok [OF lk, of 4] by auto
  let ?t = "tlb_write fa (elo_of flag p) i (s\<lparr>stats_counts := c\<rparr>)"
  have h: "spl ?t = spl_high" using sp(1) by (simp add: tlb_write_def)
  define s' where "s' = ?t\<lparr>spl := l\<rparr>"
  have run: "fill_tlb rd seg flag vpn fa p load i as (t_curspl l) s = Ok (0, s')"
    using False c spl_steps(2) [OF h sp(2)] by (simp add: fill_tlb_def elo_of_def s'_def)
  have "touched p (s\<lparr>stats_counts := c\<rparr>) s'"
    unfolding s'_def by (rule touched_trans [of _ _ ?t]) (simp_all add: tlb_write_def)
  then have t: "touched p s s'" using touched_trans [OF touched_fields(4)] by blast
  have "tlb s' = (tlb s)[i := (fa, elo_of flag p)]" "next_victim s' = next_victim s" "vmem s' = vmem s" "spl s' = l"
    by (simp_all add: tlb_write_def s'_def)
  then show ?thesis using False run t by (intro exI [of _ s']) auto
qed

subsection \<open>Mapping a resident page\<close>

lemma PADDR_inject: "PADDR_TO_KVADDR p = PADDR_TO_KVADDR q \<longleftrightarrow> p = q"
  by (simp add: PADDR_TO_KVADDR_def)

lemma page_frame_iff: "p AND PAGE_FRAME = p \<longleftrightarrow> 4096 dvd unat (p :: u32)"
proof -
  have "p AND PAGE_FRAME = p \<longleftrightarrow> take_bit 12 p = 0"
  proof -
    have "bit PAGE_FRAME n \<longleftrightarrow> 12 \<le> n \<and> n < 32" for n
    proof (cases "n < 32")
      case True
      have "\<forall>n<32. bit (0xfffff000 :: u32) n \<longleftrightarrow> 12 \<le> n" by code_simp
      then show ?thesis using True by (simp add: layout_defs)
    next
      case False
      then show ?thesis using bit_imp_le_length [of PAGE_FRAME n] by auto
    qed
    then show ?thesis by (auto simp: bit_eq_iff bit_simps)
  qed
  also have "\<dots> \<longleftrightarrow> 4096 dvd unat p"
    by (simp add: take_bit_eq_mod word_unat_eq_iff unat_mod mod_eq_0_iff_dvd unat_eq_zero [symmetric])
  finally show ?thesis .
qed

lemma kpage_frame:
  assumes "core_inv c" and "PADDR_TO_KVADDR p \<in> kpages c"
  shows "p \<noteq> 0" and "p AND PAGE_FRAME = p"
proof -
  from kpages_cases [OF assms(2)] obtain i where i: "i < length (coremaps c)" "p = frame_addr c i"
    by (auto simp: PADDR_inject)
  then show "p \<noteq> 0" using frame_addr_nonzero [OF assms(1)] by simp
  show "p AND PAGE_FRAME = p"
    unfolding page_frame_iff i(2) unat_frame_addr [OF assms(1) i(1)] using assms(1) by (auto simp: core_inv_def)
qed

lemma vm_ok_frame:
  assumes "vm_ok B s" and "resident s as seg i p"
  shows "p \<noteq> 0" and "p AND PAGE_FRAME = p" and "page_at (PADDR_TO_KVADDR p)"
    and "\<exists>e. get_pte seg i as s = Ok e"
proof -
  have "core_inv (vcore s)" using assms(1) by (auto simp: vm_ok_def heap_abs_def heap_rep_def)
  moreover have "PADDR_TO_KVADDR p \<in> kpages (vcore s)" using assms by (auto simp: vm_ok_def entries_ok_def)
  ultimately show "p \<noteq> 0" "p AND PAGE_FRAME = p" "page_at (PADDR_TO_KVADDR p)"
    using kpage_frame kpages_page_at by blast+
  show "\<exists>e. get_pte seg i as s = Ok e" using assms(2) by (auto simp: resident_def)
qed

lemma resident_unique: "resident s as seg i p \<Longrightarrow> resident s as seg i q \<Longrightarrow> p = q"
  by (auto simp: resident_def)

text \<open>The result of entering page \<open>fa\<close> into the TLB, whether it was there already or not.\<close>

definition mapped :: "(vaddr \<times> nat) set \<Rightarrow> u32 \<Rightarrow> u32 \<Rightarrow> paddr \<Rightarrow> vm \<Rightarrow> vm \<Rightarrow> bool" where
  "mapped B fa flag p s s' \<longleftrightarrow> vm_ok B s' \<and> kept B (heap s) (heap s') \<and> touched p s s'
     \<and> (fa, elo_of flag p) \<in> set (tlb s')"

definition tlb_hit :: "u32 \<Rightarrow> vm \<Rightarrow> bool" where
  "tlb_hit fa s \<longleftrightarrow> (\<exists>i. tlb_valid (tlb s) i \<and> fst (tlb s ! i) = fa)"

lemma mapped_update:
  assumes ok: "vm_ok B s" and a: "spaces s (p_addrspace s) = Some a"
    and fs: "fault_segment a fa = Some (seg, vbase, flag)" "fa AND PAGE_FRAME = fa"
    and res: "resident s (p_addrspace s) seg (unat ((fa - vbase) div PAGE_SIZE)) p"
    and i: "i < NUM_TLB" "\<And>j. j < i \<Longrightarrow> tlb_valid (tlb s) j" and miss: "\<not> tlb_hit fa s"
    and s': "touched p s s'" "tlb s' = (tlb s)[i := (fa, elo_of flag p)]" "unat (next_victim s') < NUM_TLB"
      "spl s' \<in> {spl_low, spl_high}"
  shows "mapped B fa flag p s s'"
proof -
  have t: "tlb_ok (tlb s)" using ok by (simp add: vm_ok_def)
  have other: "\<And>j. tlb_valid (tlb s) j \<Longrightarrow> j \<noteq> i \<Longrightarrow> fst (tlb s ! j) \<noteq> fa" using miss by (auto simp: tlb_hit_def)
  note upd = tlb_update [OF t i other elo_valid(1) [of flag p]]
  have len: "length (tlb s) = NUM_TLB" using t by (simp add: tlb_ok_def)
  have m: "maps s a (fst (tlb s' ! j)) (snd (tlb s' ! j))" if "tlb_valid (tlb s') j" for j
  proof (cases "j = i")
    case True
    have "maps s a fa (elo_of flag p)" using fs res unfolding maps_def by blast
    then show ?thesis using True s'(2) i(1) len by simp
  next
    case False
    then have "tlb_valid (tlb s) j" using that upd(2) s'(2) by simp
    then show ?thesis using ok a s'(2) False by (auto simp: vm_ok_def)
  qed
  have "tlb_ok (tlb s')" using upd(1) s'(2) by simp
  then have "vm_ok B s'" "kept B (heap s) (heap s')" using m s'(3,4) by (auto intro: vm_ok_step [OF ok res s'(1) a])
  moreover have "(fa, elo_of flag p) \<in> set (tlb s')"
    using i(1) len s'(2) set_update_memI [of i "tlb s" "(fa, elo_of flag p)"] by simp
  ultimately show ?thesis using s'(1) by (simp add: mapped_def)
qed

lemma counted_twice:
  assumes "stats_lock s \<noteq> 0" and "i < 10" and "j < 10"
  obtains c where "\<And>f. bindR (vmstats_inc i s) (\<lambda>s. bindR (vmstats_inc j s) f) = f (s\<lparr>stats_counts := c\<rparr>)"
proof -
  obtain c where c: "vmstats_inc i s = Ok (s\<lparr>stats_counts := c\<rparr>)" using vmstats_inc_ok [OF assms(1,2)] .
  have "stats_lock (s\<lparr>stats_counts := c\<rparr>) \<noteq> 0" using assms(1) by simp
  then obtain d where "vmstats_inc j (s\<lparr>stats_counts := c\<rparr>) = Ok (s\<lparr>stats_counts := c, stats_counts := d\<rparr>)"
    using vmstats_inc_ok [OF _ assms(3)] by blast
  then show ?thesis using that [of d] c by simp
qed

lemma vm_ok_spl: "vm_ok B s \<Longrightarrow> spl s \<in> {spl_low, spl_high}"
  by (simp add: vm_ok_def)

lemma next_victim_bound: "unat ((v + 1) mod of_nat NUM_TLB :: u32) < NUM_TLB"
  by (simp add: NUM_TLB_def unat_mod)

text \<open>Slot \<open>i\<close> of a TLB in which the page is missing; \<open>s1\<close> is the state after the counters.\<close>

lemma fill_slot:
  assumes rd: "reads_fully rd" and ok: "vm_ok B s" and a: "spaces s (p_addrspace s) = Some a"
    and fs: "fault_segment a fa = Some (seg, vbase, flag)" "fa AND PAGE_FRAME = fa"
    and res: "resident s (p_addrspace s) seg vpn p" "vpn = unat ((fa - vbase) div PAGE_SIZE)"
    and i: "i < NUM_TLB" "\<And>j. j < i \<Longrightarrow> tlb_valid (tlb s) j" and miss: "\<not> tlb_hit fa s"
    and s1: "touched p s s1" "tlb s1 = tlb s" "spl s1 = spl_high" "unat (next_victim s1) < NUM_TLB" "vmem s1 = vmem s"
  shows "\<exists>s'. fill_tlb rd seg flag vpn fa p load i (p_addrspace s) (t_curspl (spl s)) s1 = Ok (0, s') \<and> mapped B fa flag p s s'
    \<and> spl s' = spl s \<and> (load \<and> seg = 3 \<longrightarrow> (\<forall>x. unat (x - PADDR_TO_KVADDR p) < 4096 \<longrightarrow> vmem s' x = 0))
    \<and> (\<not> load \<longrightarrow> vmem s' = vmem s)"
proof -
  note fr = vm_ok_frame [OF ok res(1)]
  obtain e where e: "get_pte seg vpn (p_addrspace s) s1 = Ok e" using fr(4) get_pte_touched [OF s1(1)] by auto
  have lk: "stats_lock s1 \<noteq> 0" using ok s1(1) by (auto simp: touched_def vm_ok_def)
  from fill_tlb_ok [OF rd fr(3) lk e s1(3) vm_ok_spl [OF ok], of flag fa load i] obtain s' where
    s': "fill_tlb rd seg flag vpn fa p load i (p_addrspace s) (t_curspl (spl s)) s1 = Ok (0, s')" "touched p s1 s'"
      "tlb s' = (tlb s1)[i := (fa, elo_of flag p)]" "next_victim s' = next_victim s1" "spl s' = spl s"
      "load \<and> seg \<noteq> 1 \<and> seg \<noteq> 2 \<longrightarrow> (\<forall>x. unat (x - PADDR_TO_KVADDR p) < 4096 \<longrightarrow> vmem s' x = 0)"
      "\<not> load \<longrightarrow> vmem s' = vmem s1" by blast
  have "mapped B fa flag p s s'"
  proof (rule mapped_update [OF ok a fs])
    show "touched p s s'" by (rule touched_trans [OF s1(1) s'(2)])
  qed (use res i miss s' s1 vm_ok_spl [OF ok] in auto)
  moreover have "load \<and> seg = 3 \<longrightarrow> (\<forall>x. unat (x - PADDR_TO_KVADDR p) < 4096 \<longrightarrow> vmem s' x = 0)" using s'(6) by force
  ultimately show ?thesis using s'(1,5,7) s1(5) by (intro exI [of _ s'] conjI) simp_all
qed

lemma fault_tlb_ok:
  assumes rd: "reads_fully rd" and ok: "vm_ok B s" and a: "spaces s (p_addrspace s) = Some a"
    and fs: "fault_segment a fa = Some (seg, vbase, flag)" "fa AND PAGE_FRAME = fa"
    and res: "resident s (p_addrspace s) seg vpn p" "vpn = unat ((fa - vbase) div PAGE_SIZE)"
  shows "\<exists>s'. fault_tlb rd seg flag vpn fa p load (p_addrspace s) s = Ok (0, s') \<and> mapped B fa flag p s s'
    \<and> spl s' = (if tlb_hit fa s then spl_high else spl s)
    \<and> (load \<and> seg = 3 \<and> \<not> tlb_hit fa s \<longrightarrow> (\<forall>x. unat (x - PADDR_TO_KVADDR p) < 4096 \<longrightarrow> vmem s' x = 0))
    \<and> (\<not> load \<longrightarrow> vmem s' = vmem s)"
proof -
  let ?s = "s\<lparr>spl := spl_high\<rparr>" and ?as = "p_addrspace s"
  note fr = vm_ok_frame [OF ok res(1)]
  have lk: "stats_lock ?s \<noteq> 0" and nv: "unat (next_victim s) < NUM_TLB" and len: "length (tlb s) = NUM_TLB"
    using ok by (simp_all add: vm_ok_def tlb_ok_def)
  have run: "fault_tlb rd seg flag vpn fa p load ?as s =
      (case tlb_scan fa (tlb s) 0 of
         Some (True, _) \<Rightarrow> bindR (vmstats_inc 4 ?s) (\<lambda>s. Ok (0, s))
       | Some (False, i) \<Rightarrow> bindR (vmstats_inc 0 ?s) (\<lambda>s1. bindR (vmstats_inc 1 s1) (\<lambda>s1.
           fill_tlb rd seg flag vpn fa p load i ?as (t_curspl (spl s)) s1))
       | None \<Rightarrow> bindR (vmstats_inc 0 ?s) (\<lambda>s1. bindR (vmstats_inc 2 s1) (\<lambda>s1.
           let (victim, s1) = tlb_get_rr_victim s1
           in fill_tlb rd seg flag vpn fa p load (unat victim) ?as (t_curspl (spl s)) s1)))"
    unfolding fault_tlb_def spl_steps(1) [OF vm_ok_spl [OF ok]] using fr(1,2) by simp
  note scan = tlb_scan_spec [where fa = fa and es = "tlb s" and k = 0]
  show ?thesis
  proof (cases "tlb_scan fa (tlb s) 0")
    case None
    then have all: "\<forall>j<NUM_TLB. tlb_valid (tlb s) j \<and> fst (tlb s ! j) \<noteq> fa" using scan len by simp
    then have miss: "\<not> tlb_hit fa s" using len by (auto simp: tlb_hit_def tlb_valid_def)
    obtain c where c: "\<And>f :: vm \<Rightarrow> (int \<times> vm) run. bindR (vmstats_inc 0 ?s) (\<lambda>s. bindR (vmstats_inc 2 s) f) = f (?s\<lparr>stats_counts := c\<rparr>)"
      using counted_twice [OF lk, of 0 2] by auto
    let ?s1 = "?s\<lparr>stats_counts := c, next_victim := (next_victim s + 1) mod of_nat NUM_TLB\<rparr>"
    have t: "touched p s ?s1"
      by (rule touched_trans [OF touched_fields(3) touched_trans [OF touched_fields(4) touched_fields(2)]])
    have "fault_tlb rd seg flag vpn fa p load ?as s = fill_tlb rd seg flag vpn fa p load (unat (next_victim s)) ?as (t_curspl (spl s)) ?s1"
      unfolding run None option.case c by (simp add: tlb_get_rr_victim_def)
    with fill_slot [OF rd ok a fs res nv _ miss t, of load] all nv next_victim_bound miss show ?thesis by simp
  next
    case (Some r)
    obtain hit i where r: "r = (hit, i)" by fastforce
    with Some scan len have i: "i < NUM_TLB" "\<And>j. j < i \<Longrightarrow> tlb_valid (tlb s) j \<and> fst (tlb s ! j) \<noteq> fa"
      "if hit then tlb_valid (tlb s) i \<and> fst (tlb s ! i) = fa else \<not> tlb_valid (tlb s) i" by auto
    show ?thesis
    proof (cases hit)
      case True
      obtain c where c: "vmstats_inc 4 ?s = Ok (?s\<lparr>stats_counts := c\<rparr>)" using vmstats_inc_ok [OF lk, of 4] by auto
      define s' where "s' = ?s\<lparr>stats_counts := c\<rparr>"
      have hit: "tlb_hit fa s" "tlb_valid (tlb s) i" "fst (tlb s ! i) = fa" using i(3) True by (auto simp: tlb_hit_def)
      have t: "touched p s s'" unfolding s'_def by (rule touched_trans [OF touched_fields(3,4)])
      have same: "tlb s' = tlb s" "next_victim s' = next_victim s" "vmem s' = vmem s" "spl s' = spl_high" by (simp_all add: s'_def)
      obtain q where q: "resident s ?as seg vpn q" "snd (tlb s ! i) = elo_of flag q"
        using ok a hit(2,3) fs(1) res(2) by (auto simp: vm_ok_def maps_def)
      then have "tlb s ! i = (fa, elo_of flag p)" using hit(3) resident_unique [OF res(1)] by (metis prod.collapse)
      then have "(fa, elo_of flag p) \<in> set (tlb s')" using i(1) len same(1) by (metis nth_mem)
      moreover have "tlb_ok (tlb s')" "\<And>j. tlb_valid (tlb s') j \<Longrightarrow> maps s a (fst (tlb s' ! j)) (snd (tlb s' ! j))"
        "unat (next_victim s') < NUM_TLB" "spl s' \<in> {spl_low, spl_high}" using ok a nv same by (auto simp: vm_ok_def)
      then have "vm_ok B s'" "kept B (heap s) (heap s')" by (auto intro: vm_ok_step [OF ok res(1) t a])
      ultimately have "mapped B fa flag p s s'" using t by (simp add: mapped_def)
      moreover have "fault_tlb rd seg flag vpn fa p load ?as s = Ok (0, s')" unfolding run using Some r True c by (simp add: s'_def)
      ultimately show ?thesis using hit(1) same by (intro exI [of _ s']) simp
    next
      case False
      have "tlb_ok (tlb s)" using ok by (simp add: vm_ok_def)
      then have miss: "\<not> tlb_hit fa s" using i(2,3) False unfolding tlb_hit_def tlb_ok_def by (metis linorder_neqE_nat)
      obtain c where c: "\<And>f :: vm \<Rightarrow> (int \<times> vm) run. bindR (vmstats_inc 0 ?s) (\<lambda>s. bindR (vmstats_inc 1 s) f) = f (?s\<lparr>stats_counts := c\<rparr>)"
        using counted_twice [OF lk, of 0 1] by auto
      have t: "touched p s (?s\<lparr>stats_counts := c\<rparr>)" by (rule touched_trans [OF touched_fields(3,4)])
      from fill_slot [OF rd ok a fs res i(1) _ miss t, of load] i(2) nv show ?thesis
        unfolding run using Some r False miss by (simp add: c [unfolded One_nat_def])
    qed
  qed
qed

subsection \<open>Giving a page a frame\<close>

lemma getppages_one:
  assumes "core_inv c" and "getppages me 1 ow c = Ok (p, c')"
  shows "core_inv c'" and "kpages c \<subseteq> kpages c'" and "kmem c' = kmem c"
    and "p \<noteq> 0 \<Longrightarrow> PADDR_TO_KVADDR p \<in> kpages c' - kpages c"
proof -
  obtain a where a: "first_run (coremaps c) a 1" "a + 1 \<le> length (coremaps c)" "c' = taking a 1 ow c"
    "p \<noteq> 0 \<Longrightarrow> p = frame_addr c a" "core_inv c'"
    using getppages_took_run [OF assms(1) _ _ assms(2)] by auto
  have lt: "a < length (coremaps c)" using a(2) by simp
  show "core_inv c'" "kpages c \<subseteq> kpages c'" "kmem c' = kmem c"
    using a(5) kpages_taking [OF assms(1) lt, of ow] a(3) by (auto simp: taking_def)
  have "state (coremaps c ! a) = FREE" using a(1) by (simp add: first_run_def free_run_def)
  then have "page_num (coremaps c ! a) = 0" using assms(1) lt by (auto simp: core_inv_def frame_ok_def)
  then show "PADDR_TO_KVADDR p \<in> kpages c' - kpages c" if "p \<noteq> 0"
    using kpages_taking [OF assms(1) lt, of ow] kpages_iff [OF assms(1) lt] a(3) a(4) [OF that] by simp
qed

lemma pt_of_set_pt: "seg \<in> SEGS \<Longrightarrow> seg' \<in> SEGS \<Longrightarrow> pt_of seg' (set_pt seg l a) = (if seg' = seg then Some l else pt_of seg' a)"
  by (auto simp: SEGS_def pt_of_def set_pt_def)

lemma get_pte_set_pte:
  assumes "get_pte seg i as s = Ok e0" and "seg \<in> SEGS" and "seg' \<in> SEGS"
  shows "get_pte seg' i' as' (set_pte seg i e as s) = (if as' = as \<and> seg' = seg \<and> i' = i then Ok e else get_pte seg' i' as' s)"
proof -
  obtain a pt where a: "spaces s as = Some a" "pt_of seg a = Some pt" "i < length pt"
    using assms(1) by (auto simp: get_pte_def split: option.splits if_splits)
  then show ?thesis
    using pt_of_set_pt [OF assms(2,3), of "pt[i := e]" a] by (auto simp: get_pte_def set_pte_def nth_list_update)
qed

lemma set_pt_region [simp]:
  "as_vbase1 (set_pt seg l a) = as_vbase1 a" "as_npages1 (set_pt seg l a) = as_npages1 a" "as_flag1 (set_pt seg l a) = as_flag1 a"
  "as_vbase2 (set_pt seg l a) = as_vbase2 a" "as_npages2 (set_pt seg l a) = as_npages2 a" "as_flag2 (set_pt seg l a) = as_flag2 a"
  by (simp_all add: set_pt_def)

lemma space_ok_set_pt:
  assumes "space_ok a" and "pt_of seg a = Some pt" and "length l = length pt" and "seg \<in> SEGS"
  shows "space_ok (set_pt seg l a)"
proof -
  obtain l1 l2 l3 where pts: "pt1 a = Some l1" "pt2 a = Some l2" "pt3 a = Some l3" "length l1 = unat (as_npages1 a)"
    "length l2 = unat (as_npages2 a)" "length l3 = STACKPAGES" using assms(1) by (auto simp: space_ok_def)
  have "\<exists>l1 l2 l3. pt1 (set_pt seg l a) = Some l1 \<and> pt2 (set_pt seg l a) = Some l2 \<and> pt3 (set_pt seg l a) = Some l3
      \<and> length l1 = unat (as_npages1 a) \<and> length l2 = unat (as_npages2 a) \<and> length l3 = STACKPAGES"
    using assms(2-4) pts by (auto simp: SEGS_def set_pt_def pt_of_def)
  then show ?thesis using assms(1) unfolding space_ok_def by simp
qed

lemma fault_segment_set_pt [simp]: "fault_segment (set_pt seg l a) fa = fault_segment a fa"
  by (simp add: fault_segment_def cong: if_cong)

lemma heap_abs_grow:
  assumes "heap_abs h B" and "core_inv c" and "kpages (phys h) \<subseteq> kpages c" and "kmem c = hmem h"
  shows "heap_abs (h\<lparr>phys := c\<rparr>) B" and "kept B h (h\<lparr>phys := c\<rparr>)"
proof -
  obtain L F where rep: "heap_rep spinlock_init h L F" "B = live h L F" using assms(1) by (auto simp: heap_abs_def)
  have "heap_rep spinlock_init (h\<lparr>phys := c\<rparr>) L F" by (rule heap_rep_phys_grow [OF rep(1) assms(2-4)])
  moreover have "live (h\<lparr>phys := c\<rparr>) L F = B" using rep(2) by simp
  ultimately show "heap_abs (h\<lparr>phys := c\<rparr>) B" unfolding heap_abs_def by metis
  show "kept B h (h\<lparr>phys := c\<rparr>)" using assms(4) by (simp add: kept_def)
qed

lemma heap_pages_held: "heap_abs h B \<Longrightarrow> heap_pages h \<subseteq> kpages (phys h)"
  by (auto simp: heap_abs_def heap_rep_def refs_ok_def pages_ok_def heap_pages_def)

lemma set_core_fields [simp]:
  "tlb (set_core c s) = tlb s" "spl (set_core c s) = spl s" "next_victim (set_core c s) = next_victim s"
  "stats_lock (set_core c s) = stats_lock s" "curproc (set_core c s) = curproc s" "p_addrspace (set_core c s) = p_addrspace s"
  "spaces (set_core c s) = spaces s" "heap (set_core c s) = (heap s)\<lparr>phys := c\<rparr>"
  by (simp_all add: set_core_def)

lemma set_core_pte [simp]: "get_pte seg i as (set_core c s) = get_pte seg i as s" "resident (set_core c s) as seg i p = resident s as seg i p"
  by (simp_all add: get_pte_def resident_def)

lemma vm_ok_more_memory:
  assumes ok: "vm_ok B s" and c: "core_inv c" "kpages (vcore s) \<subseteq> kpages c" "kmem c = vmem s"
  shows "vm_ok B (set_core c s)"
proof -
  have "heap_abs ((heap s)\<lparr>phys := c\<rparr>) B" using ok c by (intro heap_abs_grow(1)) (auto simp: vm_ok_def)
  moreover have "entries_ok (set_core c s)" using ok c(2) by (auto simp: vm_ok_def entries_ok_def)
  ultimately show ?thesis using ok by (auto simp: vm_ok_def maps_def)
qed

lemma new_page:
  assumes ok: "vm_ok B s" and e: "get_pte seg vpn (p_addrspace s) s = Ok e" "valid e = 0" "sw e = -1" and seg: "seg \<in> SEGS"
    and P: "PADDR_TO_KVADDR p \<in> kpages (vcore s)" "PADDR_TO_KVADDR p \<notin> heap_pages (heap s)"
      "\<And>as seg i. \<not> resident s as seg i p"
  shows "vm_ok B (set_pte seg vpn (e\<lparr>pfn := p, valid := 1, dirty := d\<rparr>) (p_addrspace s) s)" (is "vm_ok B ?s")
    and "resident (set_pte seg vpn (e\<lparr>pfn := p, valid := 1, dirty := d\<rparr>) (p_addrspace s) s) (p_addrspace s) seg vpn p"
proof -
  let ?e = "e\<lparr>pfn := p, valid := 1, dirty := d\<rparr>" and ?as = "p_addrspace s"
  note get = get_pte_set_pte [OF e(1) seg, where e = ?e]
  have res: "resident ?s as' seg' i' q \<longleftrightarrow> (if as' = ?as \<and> seg' = seg \<and> i' = vpn then q = p else resident s as' seg' i' q)"
    for as' seg' i' q using get [of seg'] seg by (auto simp: resident_def)
  show "resident ?s ?as seg vpn p" by (simp add: res)
  have "sw e' = -1" if "seg' \<in> SEGS" "get_pte seg' i' as' ?s = Ok e'" for seg' i' as' e'
    using that get [OF that(1)] e(3) ok by (auto simp: vm_ok_def entries_ok_def split: if_splits)
  moreover have "PADDR_TO_KVADDR q \<in> kpages (vcore s) \<and> PADDR_TO_KVADDR q \<notin> heap_pages (heap s)"
    if "resident ?s as' seg' i' q" for as' seg' i' q
    using that P(1,2) ok unfolding res vm_ok_def entries_ok_def by (auto split: if_splits)
  moreover have "as' = as'' \<and> seg' = seg'' \<and> i' = i''" if "resident ?s as' seg' i' q" "resident ?s as'' seg'' i'' q" for as' seg' i' as'' seg'' i'' q
    using that P(3) ok unfolding res vm_ok_def entries_ok_def by (auto split: if_splits)
  ultimately have ent: "entries_ok ?s" unfolding entries_ok_def by simp
  obtain a where a: "spaces s ?as = Some a" "space_ok a" "\<And>i. tlb_valid (tlb s) i \<Longrightarrow> maps s a (fst (tlb s ! i)) (snd (tlb s ! i))"
    using ok by (auto simp: vm_ok_def)
  obtain pt where pt: "pt_of seg a = Some pt" "vpn < length pt"
    using e(1) a(1) by (auto simp: get_pte_def split: option.splits if_splits)
  let ?a = "set_pt seg (pt[vpn := ?e]) a"
  have a': "spaces ?s ?as = Some ?a" using a(1) pt by (simp add: set_pte_def)
  have "\<not> resident s ?as seg vpn q" for q using e by (auto simp: resident_def)
  then have "maps ?s ?a ehi elo" if "maps s a ehi elo" for ehi elo
    using that unfolding maps_def res by (auto split: if_splits) metis
  moreover have "space_ok ?a" by (rule space_ok_set_pt [OF a(2) pt(1) _ seg]) simp
  ultimately show "vm_ok B ?s" using ok ent a(3) a' unfolding vm_ok_def by simp
qed

subsection \<open>The fault handler\<close>

lemma region_page:
  assumes "vb \<le> fa" and "fa < vb + n * PAGE_SIZE" and "unat vb + 4096 * unat n < 2 ^ 32"
  shows "unat ((fa - vb) div PAGE_SIZE) < unat n"
proof -
  have "unat (n * PAGE_SIZE) = 4096 * unat n"
    using assms(3) by (simp add: layout_defs unat_word_ariths(2) mult.commute)
  then have "unat (vb + n * PAGE_SIZE) = unat vb + 4096 * unat n" using assms(3) by (simp add: unat_plus_if')
  then have "unat (fa - vb) < 4096 * unat n" using assms(1,2) by (simp add: word_less_nat_alt word_le_nat_alt unat_sub_if')
  then show ?thesis by (simp add: layout_defs unat_div less_mult_imp_div_less mult.commute)
qed

lemma fault_segment_entry:
  assumes "space_ok a" and "spaces s as = Some a" and "fault_segment a fa = Some (seg, vbase, flag)"
  shows "seg \<in> SEGS" and "\<exists>e. get_pte seg (unat ((fa - vbase) div PAGE_SIZE)) as s = Ok e"
proof -
  obtain l1 l2 l3 where pts: "pt1 a = Some l1" "pt2 a = Some l2" "pt3 a = Some l3" "length l1 = unat (as_npages1 a)"
    "length l2 = unat (as_npages2 a)" "length l3 = STACKPAGES" using assms(1) by (auto simp: space_ok_def)
  let ?sb = "USERSTACK - of_nat STACKPAGES * PAGE_SIZE"
  consider "seg = 1" "vbase = as_vbase1 a" "vbase \<le> fa" "fa < vbase + as_npages1 a * PAGE_SIZE"
    | "seg = 2" "vbase = as_vbase2 a" "vbase \<le> fa" "fa < vbase + as_npages2 a * PAGE_SIZE"
    | "seg = 3" "vbase = ?sb" "vbase \<le> fa" "fa < USERSTACK"
    using assms(3) by (auto simp: fault_segment_def Let_def split: if_splits)
  then have "seg \<in> SEGS \<and> (\<exists>pt. pt_of seg a = Some pt \<and> unat ((fa - vbase) div PAGE_SIZE) < length pt)"
  proof cases
    case 1
    then show ?thesis using pts region_page [OF 1(3,4)] assms(1) by (simp add: SEGS_def pt_of_def space_ok_def)
  next
    case 2
    then show ?thesis using pts region_page [OF 2(3,4)] assms(1) by (simp add: SEGS_def pt_of_def space_ok_def)
  next
    case 3
    have "fa < ?sb + 12 * PAGE_SIZE" using 3(4) by (simp add: layout_defs STACKPAGES_def)
    then have "unat ((fa - vbase) div PAGE_SIZE) < unat (12 :: u32)"
      unfolding 3(2) using 3(2,3) by (intro region_page) (simp_all add: layout_defs STACKPAGES_def)
    then show ?thesis using pts 3(1) by (simp add: SEGS_def pt_of_def STACKPAGES_def)
  qed
  then show "seg \<in> SEGS" "\<exists>e. get_pte seg (unat ((fa - vbase) div PAGE_SIZE)) as s = Ok e"
    using assms(2) by (auto simp: get_pte_def)
qed

lemma vm_fault_run:
  assumes ok: "vm_ok B s" and a: "spaces s (p_addrspace s) = Some a"
  shows "vm_fault rd wr raw me ft va s =
    (if ft \<noteq> VM_FAULT_READ \<and> ft \<noteq> VM_FAULT_WRITE then Ok (EINVAL, s)
     else case fault_segment a (va AND PAGE_FRAME) of
         None \<Rightarrow> Ok (EFAULT, s)
       | Some (seg, vbase, flag) \<Rightarrow>
           bindR (fault_frame rd wr raw me seg flag ft (unat (((va AND PAGE_FRAME) - vbase) div PAGE_SIZE)) (p_addrspace s) s) (\<lambda>(r, s').
             case r of
               Inl err \<Rightarrow> Ok (err, s')
             | Inr (paddr, load) \<Rightarrow>
                 fault_tlb rd seg flag (unat (((va AND PAGE_FRAME) - vbase) div PAGE_SIZE)) (va AND PAGE_FRAME) paddr load (p_addrspace s) s'))"
proof -
  have "curproc s" "p_addrspace s \<noteq> 0" "space_ok a" using ok a by (auto simp: vm_ok_def)
  then show ?thesis using a by (simp add: vm_fault_def space_ok_def Let_def cong: option.case_cong)
qed

lemma getppages_halts:
  assumes "core_inv c" and "getppages me 1 ow c = Halt x"
  shows "\<not> free_run (coremaps c) a 1"
proof
  assume "free_run (coremaps c) a 1"
  then obtain b where "first_run (coremaps c) b 1" using first_run_exists by blast
  then show False using getppages_run [OF assms(1), of 1 b me ow] assms(2) by simp
qed

definition same_view :: "vm \<Rightarrow> vm \<Rightarrow> bool" where
  "same_view s s' \<longleftrightarrow> vmem s' = vmem s \<and> tlb s' = tlb s \<and> spl s' = spl s \<and> p_addrspace s' = p_addrspace s
     \<and> map_option fault_segment (spaces s' (p_addrspace s)) = map_option fault_segment (spaces s (p_addrspace s))"

lemma fault_frame_ok:
  assumes ok: "vm_ok B s" and a: "spaces s (p_addrspace s) = Some a"
    and fs: "fault_segment a fa = Some (seg, vbase, flag)" and vpn: "vpn = unat ((fa - vbase) div PAGE_SIZE)"
  shows "case fault_frame rd wr raw me seg flag ft vpn (p_addrspace s) s of
      Ok (r, s') \<Rightarrow> vm_ok B s' \<and> same_view s s' \<and>
        (case r of
           Inl err \<Rightarrow> err = EPERM \<or> err = ENOMEM
         | Inr (p, load) \<Rightarrow> resident s' (p_addrspace s) seg vpn p
             \<and> ((\<exists>q. resident s (p_addrspace s) seg vpn q) \<longrightarrow> s' = s \<and> load = (seg = 3)))
    | Halt _ \<Rightarrow> (\<forall>k. \<not> free_run (coremaps (vcore s)) k 1)"
proof -
  have sp: "space_ok a" using ok a by (auto simp: vm_ok_def)
  note seg = fault_segment_entry(1) [OF sp a fs]
  obtain e where e: "get_pte seg vpn (p_addrspace s) s = Ok e" using fault_segment_entry(2) [OF sp a fs] vpn by blast
  have sw: "sw e = -1" using ok seg e by (auto simp: vm_ok_def entries_ok_def)
  show ?thesis
  proof (cases "valid e = 0")
    case False
    then have "resident s (p_addrspace s) seg vpn (pfn e)" using seg e by (auto simp: resident_def)
    then show ?thesis using e False ok by (auto simp: fault_frame_def same_view_def)
  next
    case True
    then have none: "\<not> resident s (p_addrspace s) seg vpn q" for q using e by (auto simp: resident_def)
    have inv: "core_inv (vcore s)" using ok by (auto simp: vm_ok_def heap_abs_def heap_rep_def)
    show ?thesis
    proof (cases "getppages me 1 USER (vcore s)")
      case (Halt x)
      then show ?thesis using e True getppages_halts [OF inv Halt] by (simp add: fault_frame_def)
    next
      case (Ok r)
      obtain p c where r: "r = (p, c)" by fastforce
      note g = getppages_one [OF inv Ok [unfolded r]]
      have ok1: "vm_ok B (set_core c s)" by (rule vm_ok_more_memory [OF ok g(1-3)])
      have view1: "same_view s (set_core c s)" using g(3) by (simp add: same_view_def)
      show ?thesis
      proof (cases "p = 0")
        case p0: True
        then show ?thesis using e True sw Ok r ok1 view1 by (simp add: fault_frame_def)
      next
        case p0: False
        let ?e = "e\<lparr>pfn := p, valid := 1, dirty := if flag AND 2 \<noteq> 0 then 1 else 0\<rparr>" and ?as = "p_addrspace s"
        let ?s = "set_pte seg vpn ?e ?as (set_core c s)"
        have P: "PADDR_TO_KVADDR p \<in> kpages c" "PADDR_TO_KVADDR p \<notin> kpages (vcore s)" using g(4) [OF p0] by auto
        have hp: "PADDR_TO_KVADDR p \<notin> heap_pages (heap s)" using ok heap_pages_held P(2) by (auto simp: vm_ok_def)
        have nores: "\<not> resident s as' seg' i' p" for as' seg' i' using ok P(2) by (auto simp: vm_ok_def entries_ok_def)
        have new: "vm_ok B ?s" "resident ?s ?as seg vpn p"
          using new_page [OF ok1, of seg vpn e p "if flag AND 2 \<noteq> 0 then 1 else 0"] e True sw seg P hp nores by simp_all
        have view: "same_view s ?s"
        proof -
          obtain pt where "pt_of seg a = Some pt" using e a by (auto simp: get_pte_def split: option.splits)
          then have "spaces ?s ?as = Some (set_pt seg (pt[vpn := ?e]) a)" using a by (simp add: set_pte_def)
          then show ?thesis using g(3) a by (simp add: same_view_def fun_eq_iff)
        qed
        have run: "fault_frame rd wr raw me seg flag ft vpn ?as s = Ok (Inr (p, True), ?s)"
          using e True sw Ok r p0 by (simp add: fault_frame_def)
        show ?thesis unfolding run run.case prod.case sum.case using new view none by blast
      qed
    qed
  qed
qed


subsection \<open>A process with two one-page segments\<close>

definition example_space :: addrspace where
  "example_space = \<lparr>as_vbase1 = 0x400000, as_npages1 = 1, as_flag1 = 5, as_vbase2 = 0x10000000, as_npages2 = 1, as_flag2 = 6,
     vn = 0, offset1 = 0, offset2 = 0, filesz1 = 4096, filesz2 = 0, is_exec1 = 1, is_exec2 = 0,
     pt1 = Some [pte_create 0 0 0], pt2 = Some [pte_create 0 0 0], pt3 = Some (replicate STACKPAGES (pte_create 0 0 0))\<rparr>"

definition example_vm :: vm where
  "example_vm = \<lparr>heap = boot_heap, tlb = map (\<lambda>i. (TLBHI_INVALID i, TLBLO_INVALID)) [0..<NUM_TLB], next_victim = 0,
     spl = spl_low, stats_lock = 0x80001000, stats_counts = replicate VMSTAT_COUNT 0, swapfile = 0, swap_num = 0,
     swap_partition = [], spaces = [0x80001100 \<mapsto> example_space], curproc = True, p_addrspace = 0x80001100\<rparr>"

definition zero_reader :: vop where
  "zero_reader v u m = (case uio_iov u of [] \<Rightarrow> Halt Wild | iov # _ \<Rightarrow> Ok (0, u\<lparr>uio_resid := 0\<rparr>, bzero m (iov_base iov) (iov_len iov)))"

lemma zero_reader_reads: "reads_fully zero_reader"
  by (simp add: reads_fully_def zero_reader_def bzero_at)

lemma example_entry: "get_pte seg i as example_vm = Ok e \<Longrightarrow> e = pte_create 0 0 0"
  by (auto simp: get_pte_def example_vm_def example_space_def pt_of_def split: if_splits)

lemma example_tlb: "\<not> tlb_valid (tlb example_vm) i"
  by (simp add: tlb_valid_def example_vm_def TLBLO_INVALID_def)

lemma example_ok: "vm_ok {} example_vm"
proof -
  have "\<not> resident example_vm as seg i p" for as seg i p
    using example_entry [of seg i as] by (auto simp: resident_def pte_create_def)
  moreover have "sw e = -1" if "get_pte seg i as example_vm = Ok e" for seg i as e
    using example_entry [OF that] by (simp add: pte_create_def)
  ultimately have "entries_ok example_vm" by (simp add: entries_ok_def)
  moreover have "tlb_ok (tlb example_vm)" using example_tlb by (simp add: tlb_ok_def) (simp add: example_vm_def)
  moreover have "space_ok example_space" by (simp add: space_ok_def example_space_def layout_defs)
  ultimately show ?thesis
    using example_tlb boot_heap_abs unfolding vm_ok_def by (simp add: example_vm_def NUM_TLB_def)
qed


text \<open>
  C24: a page of the stack does not survive leaving the TLB. When a stack page is resident but not in
  the TLB (after every switch of address spaces, and whenever its slot was reused), the next access
  makes \<open>vm_fault\<close> return 0 with the whole page overwritten with zeros.
\<close>

theorem stack_refill_erases:
  assumes "reads_fully rd" and "vm_ok B s" and "spaces s (p_addrspace s) = Some a" and "fa = va AND PAGE_FRAME"
    and "fault_segment a fa = Some (3, vbase, flag)"
    and "resident s (p_addrspace s) 3 (unat ((fa - vbase) div PAGE_SIZE)) p" and "\<not> tlb_hit fa s"
    and "ft = VM_FAULT_READ \<or> ft = VM_FAULT_WRITE"
  shows "\<exists>s'. vm_fault rd wr raw me ft va s = Ok (0, s') \<and> (\<forall>x. unat (x - PADDR_TO_KVADDR p) < 4096 \<longrightarrow> vmem s' x = 0)"
proof -
  let ?as = "p_addrspace s" and ?vpn = "unat ((fa - vbase) div PAGE_SIZE)"
  have al: "fa AND PAGE_FRAME = fa" using assms(4) by (simp add: and.assoc)
  obtain e where e: "get_pte 3 ?vpn ?as s = Ok e" "valid e \<noteq> 0" "pfn e = p" using assms(6) by (auto simp: resident_def)
  then have "fault_frame rd wr raw me 3 flag ft ?vpn ?as s = Ok (Inr (p, True), s)" by (simp add: fault_frame_def)
  moreover obtain s' where "fault_tlb rd 3 flag ?vpn fa p True ?as s = Ok (0, s')" "\<forall>x. unat (x - PADDR_TO_KVADDR p) < 4096 \<longrightarrow> vmem s' x = 0"
    using fault_tlb_ok [OF assms(1,2,3,5) al assms(6) refl, of True] assms(7) by auto
  moreover have "\<not> (ft \<noteq> VM_FAULT_READ \<and> ft \<noteq> VM_FAULT_WRITE)" using assms(8) by blast
  ultimately show ?thesis
    unfolding vm_fault_run [OF assms(2,3)] assms(4) [symmetric] by (auto simp: assms(5))
qed

text \<open>The process of the example with its top stack page in the first frame.\<close>

definition example_stack :: vm where
  "example_stack = set_pte 3 11 \<lparr>pfn = 0x2000, valid = 1, dirty = 1, pref = 0, sw = -1\<rparr> 0x80001100
     (set_core (taking 0 1 USER small_core) example_vm)"

lemma example_stack_ok: "vm_ok {} example_stack" "resident example_stack 0x80001100 3 11 0x2000"
proof -
  let ?c = "taking 0 1 USER small_core"
  have g: "getppages 0 1 USER (vcore example_vm) = Ok (0x2000, ?c)"
    using small_core_alloc [of 1 0 USER] by (simp add: example_vm_def boot_heap_def)
  have inv: "core_inv (vcore example_vm)" using small_core_inv by (simp add: example_vm_def boot_heap_def)
  note one = getppages_one [OF inv g]
  let ?s = "set_core ?c example_vm"
  have ok: "vm_ok {} ?s" by (rule vm_ok_more_memory [OF example_ok one(1-3)])
  have e: "get_pte 3 11 (p_addrspace ?s) ?s = Ok (pte_create 0 0 0)"
    by (simp add: get_pte_def) (simp add: example_vm_def example_space_def pt_of_def STACKPAGES_def)
  have "heap_pages (heap example_vm) = {}" using boot_inuse by (simp add: heap_pages_def example_vm_def)
  moreover have "\<not> resident example_vm as seg i p" for as seg i p
    using example_entry [of seg i as] by (auto simp: resident_def pte_create_def)
  ultimately show "vm_ok {} example_stack" "resident example_stack 0x80001100 3 11 0x2000"
    using new_page [OF ok e, of "0x2000" 1] one(4) unfolding example_stack_def
    by (simp_all add: pte_create_def SEGS_def) (simp_all add: example_vm_def)
qed

theorem stack_refill_erases_witness:
  "\<exists>s'. vm_fault zero_reader zero_reader (uio_kinit 0 0 0 UIO_WRITE) 0 VM_FAULT_READ 0x7ffffff0 example_stack = Ok (0, s') \<and> vmem s' 0x80002ff0 = 0
     \<and> vmem example_stack 0x80002ff0 = 1"
proof -
  let ?a = "set_pt 3 ((replicate STACKPAGES (pte_create 0 0 0))[11 := \<lparr>pfn = 0x2000, valid = 1, dirty = 1, pref = 0, sw = -1\<rparr>]) example_space"
  have st: "p_addrspace example_stack = 0x80001100" "tlb example_stack = tlb example_vm" "vmem example_stack 0x80002ff0 = 1"
    by (simp_all add: example_stack_def) (simp_all add: example_vm_def taking_def small_core_def init_coremap_def)
  have a: "spaces example_stack (p_addrspace example_stack) = Some ?a"
    unfolding st(1) by (simp add: example_stack_def set_pte_def) (simp add: example_vm_def example_space_def pt_of_def)
  have fa: "(0x7ffff000 :: u32) = 0x7ffffff0 AND PAGE_FRAME" by (simp add: layout_defs)
  have fs: "fault_segment ?a 0x7ffff000 = Some (3, 0x7fff4000, PF_R OR PF_W)"
    unfolding fault_segment_set_pt by (simp add: fault_segment_def example_space_def layout_defs STACKPAGES_def)
  have res: "resident example_stack (p_addrspace example_stack) 3 (unat ((0x7ffff000 - 0x7fff4000 :: u32) div PAGE_SIZE)) 0x2000"
    using example_stack_ok(2) unfolding st(1) by (simp add: layout_defs)
  have miss: "\<not> tlb_hit 0x7ffff000 example_stack" using example_tlb by (simp add: tlb_hit_def st(2))
  from stack_refill_erases [OF zero_reader_reads example_stack_ok(1) a fa fs res miss, of VM_FAULT_READ zero_reader "uio_kinit 0 0 0 UIO_WRITE" 0] st(3)
  show ?thesis by (auto simp: PADDR_TO_KVADDR_def layout_defs)
qed

end
