(* ===== verification/VmBoot.thy ===== *)
theory VmBoot
  imports VmSafe
begin

text \<open>
  What the virtual memory system starts from: the coremap \<open>vm_bootstrap\<close> sets up, the regions
  \<open>as_define_region\<close> adds to an address space, and what \<open>as_copy\<close> hands to a child process.
\<close>

subsection \<open>The coremap after boot\<close>

lemma mask_page: "unat (x AND 0xfffff000 :: u32) = unat x - unat x mod 4096"
proof -
  have "(0xfffff000 :: u32) = NOT (mask 12)" by (simp add: mask_eq_exp_minus_1)
  then have "x AND 0xfffff000 = x - take_bit 12 x"
  proof -
    have "(x AND NOT (mask 12)) AND take_bit 12 x = 0" by (auto simp: bit_eq_iff bit_simps)
    then have "(x AND NOT (mask 12)) + take_bit 12 x = (x AND NOT (mask 12)) OR take_bit 12 x" by (rule disjunctive_add_eq_or)
    also have "\<dots> = x" by (auto simp: bit_eq_iff bit_simps)
    finally show ?thesis using \<open>0xfffff000 = NOT (mask 12)\<close> by (simp add: algebra_simps)
  qed
  moreover have "unat (take_bit 12 x) = unat x mod 4096" by (simp add: take_bit_eq_mod unat_mod)
  ultimately show ?thesis by (simp add: unat_sub_if')
qed

lemma page_num_20:
  assumes "unat n \<le> 2 ^ 17"
  shows "unat (n * 20 :: u32) = 20 * unat n"
  using assms by (simp add: unat_word_ariths(2) mult.commute)

text \<open>The frames start behind the coremap: \<open>free\<close> is the first page boundary after its entries.\<close>

lemma coremap_end:
  assumes "4096 dvd unat lo" and "unat lo + 20 * unat n + 4096 < 2 ^ 32" and "unat n \<le> 2 ^ 17"
  defines "free \<equiv> (if n * 20 mod PAGE_SIZE \<noteq> 0 then lo + (PAGE_SIZE + (n * 20 AND 0xfffff000)) else lo + (n * 20 AND 0xfffff000))"
  shows "unat lo + 20 * unat n \<le> unat free" and "unat free < unat lo + 20 * unat n + 4096" and "4096 dvd unat free"
proof -
  let ?b = "20 * unat n"
  have b: "unat (n * 20) = ?b" by (rule page_num_20 [OF assms(3)])
  have m: "unat (n * 20 AND 0xfffff000) = ?b - ?b mod 4096" by (simp add: mask_page b)
  have z: "n * 20 mod PAGE_SIZE \<noteq> 0 \<longleftrightarrow> ?b mod 4096 \<noteq> 0"
    by (simp add: word_unat_eq_iff unat_mod b layout_defs)
  have le: "?b - ?b mod 4096 \<le> ?b" by simp
  have f: "unat free = unat lo + (if ?b mod 4096 \<noteq> 0 then 4096 + (?b - ?b mod 4096) else ?b)"
  proof (cases "?b mod 4096 \<noteq> 0")
    case True
    then have "unat (PAGE_SIZE + (n * 20 AND 0xfffff000)) = 4096 + (?b - ?b mod 4096)"
      using assms(2) m le by (simp add: unat_plus_if' layout_defs)
    then show ?thesis using True z assms(2) le by (simp add: free_def unat_plus_if')
  next
    case False
    then show ?thesis using z m assms(2) by (simp add: free_def unat_plus_if')
  qed
  have "?b mod 4096 < 4096" by simp
  then show "unat lo + ?b \<le> unat free" "unat free < unat lo + ?b + 4096" unfolding f by auto
  have "4096 dvd ?b - ?b mod 4096" by (rule dvd_minus_mod)
  then have "4096 dvd 4096 + (?b - ?b mod 4096)" by (rule dvd_add [OF dvd_refl])
  then show "4096 dvd unat free" unfolding f using assms(1) by (cases "?b mod 4096 = 0") (simp_all only: if_False if_True dvd_add mod_eq_0_iff_dvd simp_thms)
qed

lemma getppages_guard:
  assumes "core_inv s" and "getppages me 1 ow s = Ok (p, s')" and "p \<noteq> 0" and "4096 \<le> unat (paddr_max s)"
  shows "unat (page_start s) \<le> unat p" and "unat p + 4096 < unat (paddr_max s)"
proof -
  obtain a where a: "first_run (coremaps s) a 1" "a + 1 \<le> length (coremaps s)" "p = frame_addr s a"
    using getppages_took_run [OF assms(1) _ _ assms(2)] assms(3) by auto
  have lt: "a < length (coremaps s)" using a(2) by simp
  show "unat (page_start s) \<le> unat p" using unat_frame_addr [OF assms(1) lt] a(3) by simp
  have "\<not> frame_addr s a \<ge> paddr_max s - 4096"
    using getppages_run [OF assms(1), of 1 a me ow] a(1) assms(2,3) by (auto split: if_splits)
  then show "unat p + 4096 < unat (paddr_max s)"
    using a(3) assms(4) by (simp add: word_le_nat_alt unat_sub_if')
qed

text \<open>
  C25: \<open>vm_bootstrap\<close> leaves a coremap that satisfies the allocator's invariant, with every frame free.
  The coremap's own entries lie below the first frame, and in every later state (the same first
  frame and the same end of memory) a frame that \<open>getppages\<close> returns for a request of one page lies
  between the coremap and the end of memory.
\<close>

theorem coremap_bootstrap_in_bounds:
  assumes "0 < unat (firstpaddr c)" and "4096 dvd unat (firstpaddr c)" and "unat (firstpaddr c) \<le> unat (lastpaddr c)"
    and "4096 \<le> unat (lastpaddr c)" and "unat (lastpaddr c) \<le> 508 * 1024 * 1024" and "stealmem_lock c = spinlock_init" and "ref c = -1"
  shows "core_inv (coremap_bootstrap c) \<and> (\<forall>f\<in>set (coremaps (coremap_bootstrap c)). state f = FREE)
    \<and> unat (firstpaddr c) + 20 * length (coremaps (coremap_bootstrap c)) \<le> unat (page_start (coremap_bootstrap c))
    \<and> (\<forall>s me ow p s'. core_inv s \<longrightarrow> page_start s = page_start (coremap_bootstrap c) \<longrightarrow> paddr_max s = paddr_max (coremap_bootstrap c)
         \<longrightarrow> getppages me 1 ow s = Ok (p, s') \<longrightarrow> p \<noteq> 0
         \<longrightarrow> unat (page_start s) \<le> unat p \<and> unat p + 4096 \<le> unat (lastpaddr c))"
proof -
  let ?lo = "firstpaddr c" and ?hi = "lastpaddr c" and ?c = "coremap_bootstrap c"
  define n where "n = (?hi - ?lo) div PAGE_SIZE"
  have un: "unat n = (unat ?hi - unat ?lo) div 4096" using assms(3) by (simp add: n_def unat_div layout_defs unat_sub_if')
  then have small: "unat n \<le> 2 ^ 17" and span: "4096 * unat n \<le> unat ?hi - unat ?lo" using assms(5) by auto
  define free where "free = (if n * 20 mod PAGE_SIZE \<noteq> 0 then ?lo + (PAGE_SIZE + (n * 20 AND 0xfffff000)) else ?lo + (n * 20 AND 0xfffff000))"
  have "unat ?lo + 20 * unat n + 4096 < 2 ^ 32" using small assms(3,5) by auto
  note fr = coremap_end [OF assms(2) this small, folded free_def]
  have boot: "?c = init_coremap free (c\<lparr>firstpaddr := 0, lastpaddr := 0, freeaddr := free, paddr_max := ?hi, coremap_size := sint n\<rparr>)"
    by (simp add: coremap_bootstrap_def ram_getsize_def n_def free_def Let_def)
  have sn: "sint n = int (unat n)" using small by (intro sint_small) simp
  have maps: "coremaps ?c = map (fresh_frame free) [0..<unat n]" "page_start ?c = free" "paddr_max ?c = ?hi"
    by (simp_all add: boot init_coremap_def sn)
  have "after_init ?c \<and> coremap_size ?c = int (length (coremaps ?c)) \<and> stealmem_lock ?c = spinlock_init \<and> ref ?c = -1"
    using assms(6,7) sn by (simp add: boot init_coremap_def)
  moreover have "0 < unat free" "unat free mod 4096 = 0" "unat free + 4096 * unat n < 2 ^ 31"
    using fr assms(1,3,5) small span by auto
  moreover have "\<forall>i<unat n. frame_ok free i (map (fresh_frame free) [0..<unat n] ! i)" by (simp add: frame_ok_def fresh_frame_def)
  ultimately have inv: "core_inv ?c" unfolding core_inv_def maps by simp
  have "\<forall>f\<in>set (coremaps ?c). state f = FREE" unfolding maps by (auto simp: fresh_frame_def)
  moreover have "unat (page_start s) \<le> unat p \<and> unat p + 4096 \<le> unat ?hi"
    if "core_inv s" "paddr_max s = paddr_max ?c" "getppages me 1 ow s = Ok (p, s')" "p \<noteq> 0" for s me ow p s'
    using getppages_guard [OF that(1,3,4)] that(2) assms(4) maps(3) by simp
  moreover have "unat ?lo + 20 * length (coremaps ?c) \<le> unat (page_start ?c)" using fr(1) maps(1,2) by simp
  ultimately show ?thesis using inv by blast
qed

theorem coremap_bootstrap_in_bounds_witness:
  "core_inv (coremap_bootstrap (small_core\<lparr>firstpaddr := 0x2000, lastpaddr := 0x8000\<rparr>))"
  using coremap_bootstrap_in_bounds [of "small_core\<lparr>firstpaddr := 0x2000, lastpaddr := 0x8000\<rparr>"]
  by (simp add: small_core_def init_coremap_def)

text \<open>
  The guard looks only at the first frame of a block: with two frames taken, a block of four pages
  ends one page behind the end of memory.
\<close>

definition six_pages :: core where
  "six_pages = coremap_bootstrap
     \<lparr>firstpaddr = 0x2000, lastpaddr = 0x8000, page_start = 0, ref = -1, after_init = False, stealmem_lock = spinlock_init,
      coremap_size = 0, coremaps = [], paddr_max = 0, freeaddr = 0, pvictim = 0, kmem = (\<lambda>_. 1)\<rparr>"

lemmas alloc_defs = getppages_def lock_core_def unlock_core_def find_free_frame_def take_run_def take_frame_def fresh_frame_def

lemma block_past_memory:
  "\<exists>s s'. getppages 0 2 KERNEL six_pages = Ok (0x3000, s) \<and> getppages 0 4 KERNEL s = Ok (0x5000, s')
    \<and> 0x5000 + 4 * PAGE_SIZE > paddr_max s"
proof -
  have upt: "[0..<6] = [0, 1, 2, 3, 4, 5 :: nat]" "[0..<4] = [0, 1, 2, 3 :: nat]" "[0..<2] = [0, 1 :: nat]" by code_simp+
  show ?thesis
    by (simp add: six_pages_def coremap_bootstrap_def ram_getsize_def init_coremap_def layout_defs alloc_defs upt)
qed

subsection \<open>Copying an address space\<close>

lemma as_copy_result:
  assumes "as_copy me raw old s = Ok (0, Some new, s')" and "spaces s old = Some o'" and "old \<noteq> new"
  obtains n where "spaces s' new = Some n" and "new \<noteq> 0" and "pt1 n = None" and "pt2 n = None"
    and "as_vbase1 n = as_vbase1 o'" and "as_npages1 n = as_npages1 o'" and "as_vbase2 n = as_vbase2 o'" and "as_npages2 n = as_npages2 o'"
proof -
  obtain x s1 where c: "as_create me raw s = Ok (x, s1)" "x = new" "x \<noteq> 0"
    using assms(1) by (auto simp: as_copy_def as_prepare_load_def bindR_eq_Ok ENOMEM_def split: if_splits option.splits)
  then obtain n where n: "spaces s1 = (spaces s)(new \<mapsto> n)" "pt1 n = None" "pt2 n = None"
    by (auto simp: as_create_def bindR_eq_Ok Let_def split: if_splits)
  then have "spaces s1 old = Some o'" "spaces s1 new = Some n" using assms(2,3) by simp_all
  then have "s' = s1\<lparr>spaces := (spaces s1)(new \<mapsto> n\<lparr>as_vbase1 := as_vbase1 o', as_npages1 := as_npages1 o',
      as_vbase2 := as_vbase2 o', as_npages2 := as_npages2 o'\<rparr>)\<rparr>"
    using assms(1) c by (simp add: as_copy_def as_prepare_load_def)
  then show ?thesis using that n(2,3) c(2,3) by simp
qed

text \<open>
  \<open>as_copy\<close> does not copy. The new address space has the regions of the old one but no page tables
  (and none of the data); the first access of the child process to its code or data makes
  \<open>vm_fault\<close> follow a null page table.
\<close>

theorem as_copy_child_faults:
  assumes "as_copy me raw old s = Ok (0, Some new, s')" and "spaces s old = Some o'" and "old \<noteq> new" and "space_ok o'"
    and "fault_segment o' (va AND PAGE_FRAME) = Some (seg, vbase, flag)" and "seg \<noteq> 3" and "ft = VM_FAULT_READ \<or> ft = VM_FAULT_WRITE"
  shows "vm_fault rd wr raw' me ft va (s'\<lparr>curproc := True, p_addrspace := new\<rparr>) = Halt Wild"
proof -
  obtain n where n: "spaces s' new = Some n" "new \<noteq> 0" "pt1 n = None" "pt2 n = None"
    "as_vbase1 n = as_vbase1 o'" "as_npages1 n = as_npages1 o'" "as_vbase2 n = as_vbase2 o'" "as_npages2 n = as_npages2 o'"
    using as_copy_result [OF assms(1-3)] .
  obtain flag' where fs: "fault_segment n (va AND PAGE_FRAME) = Some (seg, vbase, flag')" and seg: "seg = 1 \<or> seg = 2"
    using assms(5,6) n(5-8) by (auto simp: fault_segment_def Let_def split: if_splits)
  have "pt_of seg n = None" using seg n(3,4) by (auto simp: pt_of_def)
  then have frame: "fault_frame rd wr raw' me seg flag' ft vpn new (s'\<lparr>curproc := True, p_addrspace := new\<rparr>) = Halt Wild" for vpn
    using n(1) by (simp add: fault_frame_def get_pte_def)
  have ft: "\<not> (ft \<noteq> VM_FAULT_READ \<and> ft \<noteq> VM_FAULT_WRITE)" using assms(7) by blast
  show ?thesis
    unfolding vm_fault_def Let_def if_not_P [OF ft] using n assms(4) fs frame by (simp add: space_ok_def)
qed

text \<open>A copy of the process of the example: two new pages of the heap for its structures.\<close>

lemma second_page: "alloc_kpages 0 1 ((taking 0 1 KERNEL small_core)\<lparr>kmem := m\<rparr>) = Ok (0x80003000, taking 1 1 KERNEL ((taking 0 1 KERNEL small_core)\<lparr>kmem := m\<rparr>))"
proof -
  let ?c = "(taking 0 1 KERNEL small_core)\<lparr>kmem := m\<rparr>"
  have inv: "core_inv ?c" using taking_inv [OF small_core_inv free_run_shorter [OF small_core_run, of 1]] by simp
  have "first_run (coremaps ?c) 1 1" "frame_addr ?c 1 = 0x3000" "paddr_max ?c = 0x8000"
    by (auto simp: first_run_def free_run_def frame_addr_def taking_def taken_def small_core_def init_coremap_def fresh_frame_def layout_defs)
  then show ?thesis using getppages_run [OF inv, of 1 1 0 KERNEL] by (simp add: alloc_kpages_def PADDR_TO_KVADDR_def layout_defs)
qed

lemma live_above_start:
  assumes "heap_abs h B" and "(x, n) \<in> B"
  shows "2 ^ 31 + unat (page_start (phys h)) \<le> unat x"
proof -
  obtain L F where rep: "heap_rep spinlock_init h L F" and B: "B = live h L F" using assms(1) by (auto simp: heap_abs_def)
  obtain p where p: "p \<in> set L" "unat (page h p) \<le> unat x" using live_in_pages [OF rep assms(2) [unfolded B]] by blast
  have inv: "core_inv (phys h)" using rep by (simp add: heap_rep_def)
  from kpages_cases [OF heap_rep_page(3) [OF rep p(1)]] obtain i where "i < length (coremaps (phys h))"
    "page h p = PADDR_TO_KVADDR (frame_addr (phys h) i)" .
  then have "2 ^ 31 + unat (page_start (phys h)) \<le> unat (page h p)" using unat_kvaddr [OF inv] by simp
  then show ?thesis using p(2) by linarith
qed

lemma example_copy:
  obtains new s' where "as_copy 0 example_space 0x80001100 example_vm = Ok (0, Some new, s')" and "new \<noteq> 0x80001100"
proof -
  have bt: "blocktype 80 = Ok 3" "blocktype 240 = Ok 4" by (simp_all add: blocktype_def sizes_def)
  have sb: "sizebases boot_heap k = None" for k by (simp add: boot_heap_def)
  have few: "A \<noteq> {..<32 * n}" if "card A < 256" "n = 8" for A :: "nat set" and n using that by auto
  have "\<exists>x n h p m. kmalloc 0 80 boot_heap = Ok (x, h) \<and> x \<noteq> 0 \<and> heap_abs h {(x, n)} \<and> phys h = (taking 0 1 KERNEL small_core)\<lparr>kmem := m\<rparr>
      \<and> sizebases h 4 = None \<and> inuse_set (pagerefs_inuse h) = {p} \<and> length (pagerefs_inuse h) = 8"
  proof (rule kmalloc_new_page [OF boot_heap_abs _ bt(1) _ boot_alloc_kpages])
    show "inuse_set (pagerefs_inuse boot_heap) \<noteq> {..<32 * length (pagerefs_inuse boot_heap)}"
      using few [of "{}"] boot_inuse by simp
  qed (auto simp: boot_inuse sb)
  then obtain x n h p m where x: "kmalloc 0 80 boot_heap = Ok (x, h)" "x \<noteq> 0" "heap_abs h {(x, n)}" "phys h = (taking 0 1 KERNEL small_core)\<lparr>kmem := m\<rparr>"
    "sizebases h 4 = None" "inuse_set (pagerefs_inuse h) = {p}" "length (pagerefs_inuse h) = 8" by blast
  have "\<exists>y h2. kmalloc 0 240 h = Ok (y, h2) \<and> y \<noteq> 0"
  proof (rule kmalloc_new_page [OF x(3) _ bt(2) x(5) second_page [of m, folded x(4)]])
    show "inuse_set (pagerefs_inuse h) \<noteq> {..<32 * length (pagerefs_inuse h)}" using few [of "{p}"] x(6,7) by simp
  qed auto
  then obtain y h2 where y: "kmalloc 0 240 h = Ok (y, h2)" "y \<noteq> 0" by blast
  have "page_start (phys h) = 0x2000" using x(4) by (simp add: taking_def small_core_def init_coremap_def)
  then have "2 ^ 31 + 0x2000 \<le> unat x" using live_above_start [OF x(3)] by simp
  then have ne: "x \<noteq> 0x80001100" by auto
  have "\<exists>s'. as_copy 0 example_space 0x80001100 example_vm = Ok (0, Some x, s')"
    using x(1,2) y ne by (simp add: as_copy_def as_create_def example_vm_def STACKPAGES_def as_prepare_load_def Let_def)
  then show ?thesis using that ne by blast
qed

theorem as_copy_child_faults_witness:
  "\<exists>new s'. as_copy 0 example_space 0x80001100 example_vm = Ok (0, Some new, s')
     \<and> vm_fault zero_reader zero_reader (uio_kinit 0 0 0 UIO_WRITE) 0 VM_FAULT_READ 0x400000 (s'\<lparr>curproc := True, p_addrspace := new\<rparr>) = Halt Wild"
proof -
  obtain new s' where c: "as_copy 0 example_space 0x80001100 example_vm = Ok (0, Some new, s')" "new \<noteq> 0x80001100"
    by (rule example_copy)
  have a: "spaces example_vm 0x80001100 = Some example_space" "space_ok example_space"
    using example_ok by (auto simp: vm_ok_def example_vm_def)
  have fs: "fault_segment example_space (0x400000 AND PAGE_FRAME) = Some (1, 0x400000, 5)"
    by (simp add: fault_segment_def example_space_def layout_defs)
  from as_copy_child_faults [OF c(1) a(1) c(2) [symmetric] a(2) fs, of VM_FAULT_READ] c(1) show ?thesis by auto
qed

end
