(* ===== verification/Kroom.thy ===== *)
theory Kroom
  imports AddrSpace
begin

text \<open>
  Progress of the kernel allocator: as long as a frame and a page reference are left, \<open>kmalloc\<close> of a
  small block does not fail. The operations that allocate several blocks in a row (\<open>kstrdup\<close>,
  \<open>lock_create\<close>) then succeed from a heap with that many frames, and a client may write into the
  blocks it owns.
\<close>

subsection \<open>Room\<close>

definition spare :: "core \<Rightarrow> nat set" where
  "spare c = {i. i < length (coremaps c) \<and> state (coremaps c ! i) = FREE}"

text \<open>\<open>getppages\<close> gives up on a frame that starts in the last page below \<open>paddr_max\<close>.\<close>

definition roomy :: "nat \<Rightarrow> kheap \<Rightarrow> bool" where
  "roomy k h \<longleftrightarrow> k \<le> card (spare (phys h)) \<and> card (inuse_set (pagerefs_inuse h)) + k \<le> 32 * length (pagerefs_inuse h)
     \<and> (\<forall>i<length (coremaps (phys h)). frame_addr (phys h) i < paddr_max (phys h) - 4096)"

lemma roomy_mono: "roomy k h \<Longrightarrow> j \<le> k \<Longrightarrow> roomy j h"
  by (auto simp: roomy_def)

lemma spare_finite [simp]: "finite (spare c)"
  by (simp add: spare_def)

lemma spare_iff: "free_run (coremaps c) i 1 \<longleftrightarrow> i \<in> spare c"
  by (auto simp: free_run_def spare_def)

lemma spare_kmem [simp]: "spare (c\<lparr>kmem := m\<rparr>) = spare c"
  by (simp add: spare_def)

lemma spare_taking: "a \<in> spare c \<Longrightarrow> spare (taking a 1 ow c) = spare c - {a}"
  by (auto simp: spare_def taking_def taken_def split: if_splits)

lemma taking_frames [simp]:
  "frame_addr (taking a n ow c) = frame_addr c" "paddr_max (taking a n ow c) = paddr_max c"
  "length (coremaps (taking a n ow c)) = length (coremaps c)"
  by (simp_all add: taking_def frame_addr_def fun_eq_iff)

lemma alloc_kpages_roomy:
  assumes "roomy (Suc k) h" and "core_inv (phys h)"
  obtains P c a where "alloc_kpages me 1 (phys h) = Ok (P, c)" and "P \<noteq> 0" and "a \<in> spare (phys h)" and "c = taking a 1 KERNEL (phys h)"
proof -
  have "spare (phys h) \<noteq> {}" using assms(1) by (auto simp: roomy_def)
  then obtain b where "free_run (coremaps (phys h)) b 1" using spare_iff by blast
  then obtain a where a: "first_run (coremaps (phys h)) a 1" using first_run_exists by blast
  then have s: "a \<in> spare (phys h)" using spare_iff by (auto simp: first_run_def)
  then have lt: "a < length (coremaps (phys h))" by (simp add: spare_def)
  then have small: "\<not> frame_addr (phys h) a \<ge> paddr_max (phys h) - 4096" using assms(1) by (auto simp: roomy_def)
  have g: "getppages me 1 KERNEL (phys h) = Ok (frame_addr (phys h) a, taking a 1 KERNEL (phys h))"
    using getppages_run [OF assms(2), of 1 a me KERNEL] a small by simp
  have f: "frame_addr (phys h) a \<noteq> 0" using unat_frame_addr [OF assms(2) lt] assms(2) by (auto simp: core_inv_def)
  show ?thesis
  proof (rule that [OF _ _ s refl])
    show "alloc_kpages me 1 (phys h) = Ok (PADDR_TO_KVADDR (frame_addr (phys h) a), taking a 1 KERNEL (phys h))"
      using g f by (simp add: alloc_kpages_def)
    show "PADDR_TO_KVADDR (frame_addr (phys h) a) \<noteq> 0"
      using unat_kvaddr [OF assms(2) lt] by (auto simp: unat_eq_zero [symmetric])
  qed
qed


text \<open>Small requests are served while a frame and a page reference are left, and use at most one of each.\<close>

lemma kmalloc_progress:
  assumes abs: "heap_abs h B" and sz: "unat sz < 2048" and room: "roomy (Suc k) h"
  shows "\<exists>x h'. kmalloc me sz h = Ok (x, h') \<and> x \<noteq> 0 \<and> roomy k h'"
proof -
  obtain L F where rep: "heap_rep spinlock_init h L F" and B: "B = live h L F" using abs by (auto simp: heap_abs_def)
  obtain b where b: "b < 8" "blocktype sz = Ok b" "unat sz \<le> bsize b" using blocktype_spec [of sz] sz by auto
  let ?h = "h\<lparr>kmalloc_spinlock := held_by me\<rparr>"
  have free: "kmalloc_spinlock h = spinlock_init" using rep by (simp add: heap_rep_def)
  have locks: "lock_heap me h' = Ok (h'\<lparr>kmalloc_spinlock := held_by me\<rparr>)" "unlock_heap me (h'\<lparr>kmalloc_spinlock := held_by me\<rparr>) = Ok h'"
    if "kmalloc_spinlock h' = spinlock_init" for h'
    using that by (simp_all add: lock_heap_ok unlock_heap_ok)
  have rep1: "heap_rep (held_by me) ?h L F" by (rule heap_rep_lock [OF rep])
  from find_page_heap [OF rep1 b(1)] show ?thesis
  proof
    assume "\<exists>p x xs. find_page NPAGEREFS ?h b (sizebases ?h b) = Ok (Some p) \<and> p \<in> set L \<and> btype ?h p = b \<and> F p = x # xs"
    then obtain p x xs where p: "find_page NPAGEREFS ?h b (sizebases ?h b) = Ok (Some p)" "p \<in> set L" "btype ?h p = b" "F p = x # xs" by blast
    obtain h' where h': "doalloc me p ?h = Ok (x, h')" "x \<noteq> 0" "phys h' = phys h" "pagerefs_inuse h' = pagerefs_inuse h"
      using doalloc_result [OF rep1 p(2) _ p(4), of sz B h] p(3) b(3) B by (auto simp: kept_refl low_same_refl)
    have "roomy k h'" using room h'(3,4) by (simp add: roomy_def)
    then show ?thesis using h' locks(1) [OF free] b(2) p(1) sz by (auto simp: subpage_kmalloc_def kmalloc_small)
  next
    assume none: "find_page NPAGEREFS ?h b (sizebases ?h b) = Ok None"
    have inv: "core_inv (phys h)" "inuse_ok (pagerefs_inuse h)" using rep by (auto simp: heap_rep_def refs_ok_def)
    obtain P c a where P: "alloc_kpages me 1 (phys h) = Ok (P, c)" "P \<noteq> 0" and a: "a \<in> spare (phys h)" "c = taking a 1 KERNEL (phys h)"
      by (rule alloc_kpages_roomy [OF room inv(1)])
    have "inuse_set (pagerefs_inuse h) \<noteq> {..<32 * length (pagerefs_inuse h)}" using room by (auto simp: roomy_def)
    from pr.alloc_free [OF inv(2) this] obtain p inuse where iu: "allocpageref (pagerefs_inuse h) = Ok (Some (p, inuse))"
      "inuse_set inuse = insert p (inuse_set (pagerefs_inuse h))" "32 * length inuse = 32 * length (pagerefs_inuse h)" by blast
    obtain x h' where x: "bindR (init_page p b P ((h\<lparr>phys := c\<rparr>)\<lparr>kmalloc_spinlock := held_by me, pagerefs_inuse := inuse\<rparr>)) (doalloc me p) = Ok (x, h')"
      "x \<noteq> 0" "\<exists>m. phys h' = c\<lparr>kmem := m\<rparr>" "pagerefs_inuse h' = inuse"
      using subpage_kmalloc_new_page [OF rep b(1,3) P B iu(1)] by blast
    obtain m where m: "phys h' = c\<lparr>kmem := m\<rparr>" using x(3) by blast
    have frames: "length (coremaps (phys h')) = length (coremaps (phys h))" "frame_addr (phys h') = frame_addr (phys h)"
      "paddr_max (phys h') = paddr_max (phys h)" unfolding m a(2) by (simp_all add: frame_addr_def fun_eq_iff taking_def)
    have "card (spare (phys h')) = card (spare (phys h)) - 1" unfolding m spare_kmem a(2) spare_taking [OF a(1)] using a(1) by simp
    moreover have "card (inuse_set inuse) \<le> Suc (card (inuse_set (pagerefs_inuse h)))" unfolding iu(2) by (rule card_insert_le_m1) simp_all
    ultimately have "roomy k h'" using room iu(3) x(4) frames by (auto simp: roomy_def)
    moreover have "kmalloc me sz h = Ok (x, h')"
      using x(1) P iu(1) none b(2) sz locks(1) [OF free] locks [of "h\<lparr>phys := c\<rparr>"] locks(2) [OF free] free
      by (simp add: kmalloc_small subpage_kmalloc_def)
    ultimately show ?thesis using x(2) by blast
  qed
qed

text \<open>The owner of a block may write to it.\<close>

lemma heap_abs_write:
  assumes abs: "heap_abs h B" and x: "(x, n) \<in> B" and ch: "only_changes (unat x) n (hmem h) m"
  shows "heap_abs (set_hmem m h) B"
proof -
  obtain L F where rep: "heap_rep spinlock_init h L F" and B: "B = live h L F" using abs by (auto simp: heap_abs_def)
  obtain p where p: "p \<in> set L" "x \<in> blocks (page h p) (btype h p)" "x \<notin> set (F p)" "n = bsize (btype h p)"
    using x B by (auto elim: live_cases)
  have same: "page (set_hmem m h) = page h" "btype (set_hmem m h) = btype h" "refs_ok (set_hmem m h) L = refs_ok h L"
    "pagerefs (set_hmem m h) = pagerefs h" "kpages (phys (set_hmem m h)) = kpages (phys h)" "hmem (set_hmem m h) = m"
    by (simp_all add: page_def btype_def refs_ok_def set_hmem_def fun_eq_iff)
  have "page_free m (page h q) (btype h q) (pagerefs h q) (F q)" if q: "q \<in> set L" for q
  proof -
    note pg = heap_rep_page [OF rep q]
    have "load32 m y = load32 (hmem h) y" if y: "y \<in> set (F q)" for y
    proof (rule only_changes_load [OF ch])
      have yb: "y \<in> blocks (page h q) (btype h q)" using pg(4) y by (auto simp: page_free_def)
      have four: "4 \<le> bsize (btype h q)" using bsize_bounds [OF pg(2)] by linarith
      have "x \<noteq> y \<or> p \<noteq> q" using p(3) y by auto
      then have "unat x + n \<le> unat y \<or> unat y + bsize (btype h q) \<le> unat x"
        using blocks_of_pages_apart [OF rep p(1,2) q yb] p(4) by auto
      then show "unat y + 4 \<le> unat x \<or> unat x + n \<le> unat y" using four by linarith
      show "unat y + 4 \<le> 2 ^ 32" using blocks_in_page(2) [OF pg(1,2) yb] pg(1) four by (simp add: page_at_def)
    qed
    then show ?thesis using pg(4) linked_frame unfolding page_free_def by blast
  qed
  then have "heap_rep spinlock_init (set_hmem m h) L F"
    using rep same by (auto simp: heap_rep_def pages_ok_def set_hmem_def core_inv_def)
  moreover have "live (set_hmem m h) L F = B" using B same by (simp add: live_def)
  ultimately show ?thesis by (auto simp: heap_abs_def)
qed

lemma roomy_set_hmem [simp]: "roomy k (set_hmem m h) = roomy k h"
  by (simp add: roomy_def set_hmem_def frame_addr_def)

lemma hmem_set_hmem [simp]: "hmem (set_hmem m h) = m"
  by (simp add: set_hmem_def)

lemma kept_subset: "kept B h h' \<Longrightarrow> A \<subseteq> B \<Longrightarrow> kept A h h'"
  by (fastforce simp: kept_def)

lemma live_high:
  assumes "heap_abs h B" and "(x, n) \<in> B"
  shows "2 ^ 31 + unat (page_start (phys h)) \<le> unat x" and "unat x + n \<le> 2 ^ 32"
proof -
  obtain L F where rep: "heap_rep spinlock_init h L F" and B: "B = live h L F" using assms(1) by (auto simp: heap_abs_def)
  obtain p where p: "p \<in> set L" "unat (page h p) \<le> unat x" "unat x + n \<le> unat (page h p) + 4096"
    using live_in_pages [OF rep assms(2) [unfolded B]] by blast
  have "2 ^ 31 + unat (page_start (phys h)) \<le> unat (page h p)"
    using rep by (intro kpage_high heap_rep_page(3) [OF rep p(1)]) (simp add: heap_rep_def)
  then show "2 ^ 31 + unat (page_start (phys h)) \<le> unat x" using p(2) by linarith
  have "unat (page h p) + 4096 \<le> 2 ^ 32" using heap_rep_page(1) [OF rep p(1)] by (simp add: page_at_def)
  then show "unat x + n \<le> 2 ^ 32" using p(3) by linarith
qed

lemma fresh_apart:
  assumes "heap_abs h (insert (x, n) B)" and "\<forall>k. (x, k) \<notin> B" and "(y, k) \<in> B"
  shows "unat x + n \<le> unat y \<or> unat y + k \<le> unat x"
  using heap_abs_disjoint [OF assms(1)] assms(2,3) unfolding disjoint_blocks_def by fastforce

lemma kept_write:
  assumes "heap_abs h (insert (x, n) B)" and "\<forall>k. (x, k) \<notin> B" and "only_changes (unat x) n (hmem h) m"
  shows "kept B h (set_hmem m h)" and "low_same h (set_hmem m h)"
proof -
  show "kept B h (set_hmem m h)"
    using fresh_apart [OF assms(1,2)] assms(3) by (fastforce simp: kept_def only_changes_def set_hmem_def)
  show "low_same h (set_hmem m h)"
    using live_high(1) [OF assms(1), of x n] assms(3) by (intro low_same_changes [of x n]) (simp_all add: set_hmem_def)
qed

subsection \<open>Growing heaps\<close>

text \<open>What any number of allocations do: more live blocks, the old ones and low memory as they were.\<close>

definition grown :: "kheap \<Rightarrow> (vaddr \<times> nat) set \<Rightarrow> kheap \<Rightarrow> (vaddr \<times> nat) set \<Rightarrow> bool" where
  "grown h B h' B' \<longleftrightarrow> heap_abs h' B' \<and> B \<subseteq> B' \<and> kept B h h' \<and> low_same h h'"

lemma grown_refl: "heap_abs h B \<Longrightarrow> grown h B h B"
  by (simp add: grown_def kept_refl low_same_refl)

lemma grown_trans: "grown h B h' B' \<Longrightarrow> grown h' B' h'' B'' \<Longrightarrow> grown h B h'' B''"
  unfolding grown_def by (metis kept_subset kept_trans low_same_trans order_trans)

lemma grown_abs: "grown h B h' B' \<Longrightarrow> heap_abs h' B'"
  by (simp add: grown_def)

lemma grown_member: "grown h B h' B' \<Longrightarrow> (x, n) \<in> B \<Longrightarrow> (x, n) \<in> B'"
  by (auto simp: grown_def)

text \<open>The outcome of an allocation: nothing new, or one fresh block with its address returned.\<close>

definition allocated :: "nat \<Rightarrow> kheap \<Rightarrow> (vaddr \<times> nat) set \<Rightarrow> vaddr \<Rightarrow> kheap \<Rightarrow> bool" where
  "allocated sz h B p h' \<longleftrightarrow> (if p = 0 then grown h B h' B
     else \<exists>n. sz \<le> n \<and> (\<forall>k. (p, k) \<notin> B) \<and> grown h B h' (insert (p, n) B))"

lemma kmalloc_allocated:
  assumes "heap_abs h B" and "unat sz < 2048" and "kmalloc me sz h = Ok (p, h')"
  shows "allocated (unat sz) h B p h'"
proof -
  have "alloc_result sz B h p h'" using subpage_kmalloc_spec [OF assms(1), of sz me] assms(2,3) by (simp add: kmalloc_small)
  then show ?thesis by (auto simp: alloc_result_def allocated_def grown_def split: if_splits)
qed

lemma grown_free:
  assumes "grown h B h' (insert (p, n) B')" and "B \<subseteq> B'" and "\<forall>k. (p, k) \<notin> B'" and "kfree me p h' = Ok h''"
  shows "grown h B h'' B'"
proof -
  have abs: "heap_abs h' (insert (p, n) B')" using assms(1) by (simp add: grown_def)
  obtain h1 where h1: "kfree me p h' = Ok h1" "heap_abs h1 (insert (p, n) B' - {(p, n)})" "kept (insert (p, n) B' - {(p, n)}) h' h1" "low_same h' h1"
    using kfree_spec [OF abs, of p n] by blast
  have eq: "insert (p, n) B' - {(p, n)} = B'" using assms(3) by auto
  have "kept B h h1" using assms(1) h1(3) assms(2) unfolding grown_def eq by (metis kept_subset kept_trans)
  then show ?thesis using h1 assms(1,2,4) unfolding eq by (auto simp: grown_def intro: low_same_trans)
qed

subsection \<open>Strings\<close>

text \<open>A string that allocations leave alone: below the managed frames, or inside a live block.\<close>

definition kstring :: "kheap \<Rightarrow> (vaddr \<times> nat) set \<Rightarrow> vaddr \<Rightarrow> u8 list \<Rightarrow> bool" where
  "kstring h B a xs \<longleftrightarrow> cstring (hmem h) a xs \<and> length xs < 2047 \<and>
     (unat a + length xs < 2 ^ 31 + unat (page_start (phys h)) \<and> unat a + length xs < 2 ^ 32
      \<or> (\<exists>x n. (x, n) \<in> B \<and> unat x \<le> unat a \<and> unat a + length xs < unat x + n \<and> unat x + n \<le> 2 ^ 32))"

lemma cstring_cong: "cstring m a xs \<Longrightarrow> (\<And>i. i \<le> length xs \<Longrightarrow> m' (a + of_nat i) = m (a + of_nat i)) \<Longrightarrow> cstring m' a xs"
proof (induction xs arbitrary: a)
  case Nil
  from Nil.prems(2) [of 0] Nil.prems(1) show ?case by simp
next
  case (Cons x xs)
  have "m' (a + 1 + of_nat i) = m (a + 1 + of_nat i)" if "i \<le> length xs" for i
    using Cons.prems(2) [of "Suc i"] that by (simp add: add.assoc)
  then show ?case using Cons.IH [of "a + 1"] Cons.prems(1) Cons.prems(2) [of 0] by simp
qed

lemma kstring_kept:
  assumes "kstring h B a xs" and "kept B h h'" and "low_same h h'"
  shows "kstring h' B a xs"
proof -
  have bound: "unat a + length xs < 2 ^ 32" using assms(1) by (auto simp: kstring_def)
  have "hmem h' (a + of_nat i) = hmem h (a + of_nat i)" if "i \<le> length xs" for i
  proof -
    have u: "unat (a + of_nat i) = unat a + i" using bound that by (simp add: unat_add_of_nat)
    from assms(1) consider "unat a + length xs < 2 ^ 31 + unat (page_start (phys h))"
      | x n where "(x, n) \<in> B" "unat x \<le> unat a" "unat a + length xs < unat x + n"
      unfolding kstring_def by blast
    then show ?thesis
    proof cases
      case 1
      then show ?thesis using assms(3) u that by (auto simp: low_same_def)
    next
      case (2 x n)
      then show ?thesis using assms(2) u that unfolding kept_def by fastforce
    qed
  qed
  then have "cstring (hmem h') a xs" using assms(1) cstring_cong by (auto simp: kstring_def)
  then show ?thesis using assms by (auto simp: kstring_def low_same_def)
qed

lemma kstring_grown: "kstring h B a xs \<Longrightarrow> grown h B h' B' \<Longrightarrow> kstring h' B' a xs"
  using kstring_kept [of h B a xs h'] by (auto simp: grown_def kstring_def)

lemma put_only_changes:
  assumes "length xs \<le> n" and "unat a + n \<le> 2 ^ 32"
  shows "only_changes (unat a) n m (put m a xs)"
proof -
  have "unat a \<le> unat x \<and> unat x < unat a + n" if "unat (x - a) < length xs" for x
    using that assms unat_sub_if' [of x a] by (auto split: if_splits)
  then show ?thesis using assms by (auto simp: only_changes_def put_at)
qed

lemma apart_ranges:
  assumes "unat z + n < 2 ^ 32" and "unat s + k < 2 ^ 32" and "unat z + n < unat s \<or> unat s + k < unat z"
  shows "apart z n s k"
  unfolding apart_def
proof (intro allI impI)
  fix i j assume "i \<le> n" "j \<le> k"
  then have "unat (z + of_nat i) = unat z + i" "unat (s + of_nat j) = unat s + j"
    using assms unat_add_of_nat [of z i] unat_add_of_nat [of s j] by simp_all
  then have "unat (z + of_nat i) \<noteq> unat (s + of_nat j)" using assms(3) \<open>i \<le> n\<close> \<open>j \<le> k\<close> by linarith
  then show "z + of_nat i \<noteq> s + of_nat j" by auto
qed

lemma kstring_apart:
  assumes "kstring h B a xs" and "heap_abs h (insert (z, n) B)" and "\<forall>k. (z, k) \<notin> B" and "length xs < n"
  shows "apart z (length xs) a (length xs)"
proof (rule apart_ranges)
  note z = live_high [OF assms(2), of z n]
  show "unat z + length xs < 2 ^ 32" using z assms(4) by simp
  show "unat a + length xs < 2 ^ 32" using assms(1) by (auto simp: kstring_def)
  from assms(1) consider "unat a + length xs < 2 ^ 31 + unat (page_start (phys h))"
    | x k where "(x, k) \<in> B" "unat x \<le> unat a" "unat a + length xs < unat x + k"
    unfolding kstring_def by blast
  then show "unat z + length xs < unat a \<or> unat a + length xs < unat z"
  proof cases
    case 1
    then show ?thesis using z by simp
  next
    case (2 x k)
    then show ?thesis using fresh_apart [OF assms(2,3) 2(1)] assms(4) by linarith
  qed
qed

lemma kstring_word: "length xs < 2047 \<Longrightarrow> unat (of_nat (length xs) + 1 :: u32) = Suc (length xs)"
  by (simp add: unat_of_nat_u32 unat_plus_if')

lemma kstrdup_copies:
  assumes "kstring h1 B s xs" and "heap_abs h1 (insert (z, n) B)" and "\<forall>k. (z, k) \<notin> B" and "length xs < n"
  shows "strcpy (hmem h1) z s = Some (z, put (hmem h1) z (xs @ [0]))"
    and "grown h1 B (set_hmem (put (hmem h1) z (xs @ [0])) h1) (insert (z, n) B)"
    and "cstring (put (hmem h1) z (xs @ [0])) z xs"
proof -
  have cs: "cstring (hmem h1) s xs" "length xs < 2047" using assms(1) by (auto simp: kstring_def)
  show "strcpy (hmem h1) z s = Some (z, put (hmem h1) z (xs @ [0]))"
    using strcpy_spec [OF cs(1) kstring_apart [OF assms]] .
  have ch: "only_changes (unat z) n (hmem h1) (put (hmem h1) z (xs @ [0]))"
    using assms(4) live_high(2) [OF assms(2)] by (intro put_only_changes) auto
  show "grown h1 B (set_hmem (put (hmem h1) z (xs @ [0])) h1) (insert (z, n) B)"
    using heap_abs_write [OF assms(2) _ ch] kept_write [OF assms(2,3) ch] by (auto simp: grown_def)
  show "cstring (put (hmem h1) z (xs @ [0])) z xs" using cstring_nonzero [OF cs(1)] cs(2) by (intro cstring_put) auto
qed

lemma kstrdup_allocated:
  assumes "heap_abs h B" and "kstring h B s xs" and "kstrdup me s h = Ok (z, h')"
  shows "allocated (Suc (length xs)) h B z h'" and "z \<noteq> 0 \<Longrightarrow> cstring (hmem h') z xs"
proof -
  have len: "length xs < 2047" "strlen (hmem h) s = Some (of_nat (length xs))"
    using assms(2) strlen_spec by (auto simp: kstring_def)
  obtain p h1 where p: "kmalloc me (of_nat (length xs) + 1) h = Ok (p, h1)"
    "(if p = 0 then Ok (0, h1) else case strcpy (hmem h1) p s of None \<Rightarrow> Halt Spinning | Some (_, m) \<Rightarrow> Ok (p, set_hmem m h1)) = Ok (z, h')"
    using assms(3) len(2) by (auto simp: kstrdup_def bindR_eq_Ok)
  have al: "allocated (Suc (length xs)) h B p h1"
    using kmalloc_allocated [OF assms(1) _ p(1)] kstring_word [OF len(1)] len(1) by simp
  have "allocated (Suc (length xs)) h B z h' \<and> (z \<noteq> 0 \<longrightarrow> cstring (hmem h') z xs)"
  proof (cases "p = 0")
    case True
    then show ?thesis using p(2) al by simp
  next
    case False
    then obtain n where n: "Suc (length xs) \<le> n" "\<forall>k. (p, k) \<notin> B" "grown h B h1 (insert (p, n) B)"
      using al by (auto simp: allocated_def)
    have ks: "kstring h1 B s xs" using n(3) by (intro kstring_kept [OF assms(2)]) (simp_all add: grown_def)
    have lt: "length xs < n" using n(1) by simp
    note copies = kstrdup_copies [OF ks grown_abs [OF n(3)] n(2) lt]
    have "z = p" "h' = set_hmem (put (hmem h1) p (xs @ [0])) h1" using p(2) False copies(1) n(1) by auto
    moreover have "grown h B (set_hmem (put (hmem h1) p (xs @ [0])) h1) (insert (p, n) B)"
      using n(3) copies(2) by (auto simp: grown_def intro: kept_trans low_same_trans)
    ultimately show ?thesis using copies(3) n False by (auto simp: allocated_def)
  qed
  then show "allocated (Suc (length xs)) h B z h'" "z \<noteq> 0 \<Longrightarrow> cstring (hmem h') z xs" by auto
qed


lemma kstrdup_progress:
  assumes "heap_abs h B" and "kstring h B s xs" and "roomy (Suc k) h"
  shows "\<exists>z h'. kstrdup me s h = Ok (z, h') \<and> z \<noteq> 0 \<and> roomy k h'"
proof -
  have len: "length xs < 2047" "strlen (hmem h) s = Some (of_nat (length xs))"
    using assms(2) strlen_spec by (auto simp: kstring_def)
  have small: "unat (of_nat (length xs) + 1 :: u32) < 2048" using kstring_word [OF len(1)] len(1) by simp
  obtain p h1 where p: "kmalloc me (of_nat (length xs) + 1) h = Ok (p, h1)" "p \<noteq> 0" "roomy k h1"
    using kmalloc_progress [OF assms(1) small assms(3)] by blast
  obtain n where n: "Suc (length xs) \<le> n" "\<forall>k. (p, k) \<notin> B" "grown h B h1 (insert (p, n) B)"
    using kmalloc_allocated [OF assms(1) small p(1)] kstring_word [OF len(1)] p(2) by (auto simp: allocated_def)
  have ks: "kstring h1 B s xs" using n(3) by (intro kstring_kept [OF assms(2)]) (simp_all add: grown_def)
  have lt: "length xs < n" using n(1) by simp
  show ?thesis using p len(2) kstrdup_copies(1) [OF ks grown_abs [OF n(3)] n(2) lt] by (simp add: kstrdup_def)
qed

text \<open>
  Locks and condition variables are a structure, a copy of the name and a wait channel; when one is
  missing the others are given back.
\<close>

definition named_alloc :: "u32 \<Rightarrow> nat \<Rightarrow> vaddr \<Rightarrow> kheap \<Rightarrow> (vaddr \<times> kheap) run" where
  "named_alloc sz me name h =
     bindR (kmalloc me sz h) (\<lambda>(p, h).
       if p = 0 then Ok (0, h)
       else bindR (kstrdup me name h) (\<lambda>(z, h).
         if z = 0 then bindR (kfree me p h) (\<lambda>h. Ok (0, h))
         else bindR (wchan_alloc me h) (\<lambda>(w, h).
           if w = 0 then bindR (kfree me z h) (\<lambda>h. bindR (kfree me p h) (\<lambda>h. Ok (0, h)))
           else Ok (p, h))))"

lemma lock_alloc_named: "lock_alloc = named_alloc 20"
  by (simp add: fun_eq_iff lock_alloc_def named_alloc_def)

lemma named_alloc_allocated:
  assumes "heap_abs h B" and "kstring h B name xs" and "unat sz < 2048" and "named_alloc sz me name h = Ok (p, h')"
  shows "\<exists>B'. grown h B h' B' \<and> (p \<noteq> 0 \<longrightarrow> (\<forall>k. (p, k) \<notin> B) \<and> (\<exists>n\<ge>unat sz. (p, n) \<in> B'))"
proof -
  obtain q h1 where q: "kmalloc me sz h = Ok (q, h1)" using assms(4) by (auto simp: named_alloc_def bindR_eq_Ok)
  note al = kmalloc_allocated [OF assms(1,3) q]
  show ?thesis
  proof (cases "q = 0")
    case True
    then show ?thesis using assms(4) q al by (auto simp: named_alloc_def allocated_def)
  next
    case q0: False
    then obtain n where n: "unat sz \<le> n" "\<forall>k. (q, k) \<notin> B" "grown h B h1 (insert (q, n) B)" using al by (auto simp: allocated_def)
    obtain z h2 where z: "kstrdup me name h1 = Ok (z, h2)" using assms(4) q q0 by (auto simp: named_alloc_def bindR_eq_Ok)
    note az = kstrdup_allocated(1) [OF grown_abs [OF n(3)] kstring_grown [OF assms(2) n(3)] z]
    show ?thesis
    proof (cases "z = 0")
      case True
      then have "grown h B h2 (insert (q, n) B)" using az grown_trans [OF n(3)] by (simp add: allocated_def)
      moreover have "p = 0" "kfree me q h2 = Ok h'" using assms(4) q q0 z True by (auto simp: named_alloc_def bindR_eq_Ok)
      ultimately show ?thesis using grown_free [of h B h2 q n B me h'] n(2) by auto
    next
      case z0: False
      then obtain i where i: "\<forall>k. (z, k) \<notin> insert (q, n) B" "grown h1 (insert (q, n) B) h2 (insert (z, i) (insert (q, n) B))"
        using az by (auto simp: allocated_def)
      have g2: "grown h B h2 (insert (z, i) (insert (q, n) B))" by (rule grown_trans [OF n(3) i(2)])
      obtain w h3 where w: "kmalloc me 40 h2 = Ok (w, h3)" using assms(4) q q0 z z0 by (auto simp: named_alloc_def wchan_alloc_def bindR_eq_Ok)
      have aw: "allocated 40 h2 (insert (z, i) (insert (q, n) B)) w h3"
        using kmalloc_allocated [OF grown_abs [OF g2] _ w] by simp
      show ?thesis
      proof (cases "w = 0")
        case True
        then have g3: "grown h B h3 (insert (z, i) (insert (q, n) B))" using aw grown_trans [OF g2] by (simp add: allocated_def)
        obtain h4 where h4: "p = 0" "kfree me z h3 = Ok h4" "kfree me q h4 = Ok h'"
          using assms(4) q q0 z z0 w True by (auto simp: named_alloc_def wchan_alloc_def bindR_eq_Ok)
        have "grown h B h4 (insert (q, n) B)" by (rule grown_free [OF g3 _ i(1) h4(2)]) auto
        then have "grown h B h' B" by (rule grown_free [OF _ _ n(2) h4(3)]) auto
        then show ?thesis using h4(1) by auto
      next
        case False
        then obtain j where "grown h2 (insert (z, i) (insert (q, n) B)) h3 (insert (w, j) (insert (z, i) (insert (q, n) B)))"
          using aw by (auto simp: allocated_def)
        from grown_trans [OF g2 this] show ?thesis
          using assms(4) q q0 z z0 w False n(1,2) by (auto simp: named_alloc_def wchan_alloc_def)
      qed
    qed
  qed
qed

lemma named_alloc_progress:
  assumes "heap_abs h B" and "kstring h B name xs" and "unat sz < 2048" and "roomy (3 + k) h"
  shows "\<exists>p h'. named_alloc sz me name h = Ok (p, h') \<and> p \<noteq> 0 \<and> roomy k h'"
proof -
  have room: "roomy (Suc (Suc (Suc k))) h" using assms(4) by (simp add: numeral_3_eq_3)
  obtain q h1 where q: "kmalloc me sz h = Ok (q, h1)" "q \<noteq> 0" "roomy (Suc (Suc k)) h1"
    using kmalloc_progress [OF assms(1,3) room] by blast
  obtain n where n: "grown h B h1 (insert (q, n) B)" using kmalloc_allocated [OF assms(1,3) q(1)] q(2) by (auto simp: allocated_def)
  note ks = kstring_grown [OF assms(2) n]
  obtain z h2 where z: "kstrdup me name h1 = Ok (z, h2)" "z \<noteq> 0" "roomy (Suc k) h2"
    using kstrdup_progress [OF grown_abs [OF n] ks q(3)] by blast
  obtain i where i: "grown h1 (insert (q, n) B) h2 (insert (z, i) (insert (q, n) B))"
    using kstrdup_allocated(1) [OF grown_abs [OF n] ks z(1)] z(2) by (auto simp: allocated_def)
  obtain w h3 where "kmalloc me 40 h2 = Ok (w, h3)" "w \<noteq> 0" "roomy k h3"
    using kmalloc_progress [OF grown_abs [OF i] _ z(3), of 40 me] by auto
  then show ?thesis using q z by (simp add: named_alloc_def wchan_alloc_def)
qed

definition cv_alloc :: "nat \<Rightarrow> vaddr \<Rightarrow> kheap \<Rightarrow> (vaddr \<times> kheap) run" where
  "cv_alloc me name h =
     bindR (kmalloc me 8 h) (\<lambda>(cv, h).
       if cv = 0 then Ok (0, h)
       else bindR (kstrdup me name h) (\<lambda>(cv_name, h).
         if cv_name = 0 then bindR (kfree me cv h) (\<lambda>h. Ok (0, h))
         else bindR (wchan_alloc me h) (\<lambda>(cv_wchan, h).
           if cv_wchan = 0 then bindR (kfree me cv_name h) (\<lambda>h. bindR (kfree me cv h) (\<lambda>h. Ok (0, h)))
           else Ok (cv, h))))"

lemma cv_alloc_named: "cv_alloc = named_alloc 8"
  by (simp add: fun_eq_iff cv_alloc_def named_alloc_def)

subsection \<open>A machine with sixty-four frames\<close>

definition wide_core :: core where
  "wide_core = init_coremap 0x2000
     \<lparr>firstpaddr = 0, lastpaddr = 0, page_start = 0, ref = -1, after_init = False, stealmem_lock = spinlock_init,
      coremap_size = 64, coremaps = [], paddr_max = 0x100000, freeaddr = 0x2000, pvictim = 0, kmem = (\<lambda>_. 0)\<rparr>"

definition wide_heap :: kheap where
  "wide_heap = boot_heap\<lparr>phys := wide_core\<rparr>"

lemma wide_core_inv: "core_inv wide_core"
  by (auto simp: core_inv_def wide_core_def init_coremap_def frame_ok_def fresh_frame_def)

lemma wide_heap_abs: "heap_abs wide_heap {}"
proof -
  have "heap_rep spinlock_init wide_heap [] (\<lambda>_. [])"
    using wide_core_inv boot_inuse by (simp add: heap_rep_def refs_ok_def pages_ok_def wide_heap_def boot_heap_def inuse_ok_def INUSE_WORDS_def NPAGEREFS_def)
  moreover have "live wide_heap [] (\<lambda>_. []) = {}" by (simp add: live_def)
  ultimately show ?thesis unfolding heap_abs_def by metis
qed

lemma wide_heap_roomy: "roomy 64 wide_heap"
proof -
  have len: "length (coremaps wide_core) = 64" by (simp add: wide_core_def init_coremap_def)
  have "spare wide_core = {..<64}" by (auto simp: spare_def wide_core_def init_coremap_def fresh_frame_def)
  moreover have "frame_addr wide_core i < paddr_max wide_core - 4096" if "i < 64" for i
  proof -
    have "unat (frame_addr wide_core i) = unat (page_start wide_core) + 4096 * i"
      using unat_frame_addr [OF wide_core_inv] len that by simp
    then show ?thesis using that by (simp add: word_less_nat_alt wide_core_def init_coremap_def)
  qed
  ultimately show ?thesis using boot_inuse len by (simp add: roomy_def wide_heap_def)
qed

text \<open>Its memory is all zeros: every low address holds the empty string.\<close>

lemma wide_heap_string: "unat a < 2 ^ 31 + 0x2000 \<Longrightarrow> kstring wide_heap B a []"
  by (simp add: kstring_def wide_heap_def wide_core_def init_coremap_def)

end
