(* ===== verification/FileCalls.thy ===== *)
theory FileCalls
  imports VmSafe Kroom
begin

text \<open>
  The file system calls (\<^verbatim>\<open>kern/syscall/filesystem.c\<close>). \<open>vfs_open\<close>, \<open>vfs_close\<close> and the vnode operations
  are parameters, collected in the record \<open>vfs\<close>; so are the values that the code takes from
  uninitialised variables. The descriptor table holds pointers; the \<open>struct fd\<close>s they point to are kept
  in a store, since processes may share them. A pointer without an entry in the store was left there
  by \<open>kmalloc\<close> (\<open>proc_create\<close> does not clear the table) or points to a freed block.
\<close>

subsection \<open>State\<close>

definition MAX_fd_table :: nat where "MAX_fd_table = 64"

definition STDIN_FILENO :: int where [layout_defs]: "STDIN_FILENO = 0"
definition STDOUT_FILENO :: int where [layout_defs]: "STDOUT_FILENO = 1"
definition STDERR_FILENO :: int where [layout_defs]: "STDERR_FILENO = 2"

record fd =
  file_flag :: int
  filename :: vaddr
  fd_file :: vaddr
  fd_lock :: vaddr
  offset :: u64
  buflen :: u32

record fproc =
  vmst :: vm
  fds :: "vaddr \<rightharpoonup> fd"
  fd_table :: "vaddr list"
  open_num :: int
  errno :: int

record vfs =
  vfs_open :: "vaddr \<Rightarrow> int \<Rightarrow> u32 \<Rightarrow> kheap \<Rightarrow> (int \<times> vaddr \<times> kheap) run"
  vfs_close :: "vaddr \<Rightarrow> kheap \<Rightarrow> kheap run"
  vop_read :: "vaddr \<Rightarrow> uio \<Rightarrow> kheap \<Rightarrow> (int \<times> uio \<times> kheap) run"
  vop_write :: "vaddr \<Rightarrow> uio \<Rightarrow> kheap \<Rightarrow> (int \<times> uio \<times> kheap) run"

abbreviation fheap :: "fproc \<Rightarrow> kheap" where
  "fheap s \<equiv> heap (vmst s)"

definition set_fheap :: "kheap \<Rightarrow> fproc \<Rightarrow> fproc" where
  "set_fheap h s = s\<lparr>vmst := (vmst s)\<lparr>heap := h\<rparr>\<rparr>"

definition fail :: "int \<Rightarrow> fproc \<Rightarrow> (int \<times> fproc) run" where
  "fail e s = Ok (-1, s\<lparr>errno := e\<rparr>)"

subsection \<open>Helpers\<close>

definition create_fd :: "nat \<Rightarrow> int \<Rightarrow> vaddr \<Rightarrow> vaddr \<Rightarrow> fproc \<Rightarrow> (vaddr \<times> fproc) run" where
  "create_fd me flag name v s =
     bindR (kmalloc me 32 (fheap s)) (\<lambda>(p, h).
       if p = 0 then Halt Wild
       else bindR (lock_alloc me name h) (\<lambda>(lk, h).
         kassert (v \<noteq> 0)
           (Ok (p, (set_fheap h s)\<lparr>fds := (fds s)(p \<mapsto>
              \<lparr>file_flag = flag, filename = name, fd_file = v, fd_lock = lk, offset = 0, buflen = 0\<rparr>)\<rparr>))))"

definition add_fd :: "vaddr \<Rightarrow> nat \<Rightarrow> fproc \<Rightarrow> fproc" where
  "add_fd f file_handle s = s\<lparr>fd_table := (fd_table s)[file_handle := f]\<rparr>"

definition valid_address_check :: "addrspace \<Rightarrow> vaddr \<Rightarrow> bool" where
  "valid_address_check as addr \<longleftrightarrow>
     addr < USERSTACK \<and>
     (as_vbase1 as \<le> addr \<and> addr < as_vbase1 as + as_npages1 as * PAGE_SIZE
      \<or> as_vbase2 as \<le> addr \<and> addr < as_vbase2 as + as_npages2 as * PAGE_SIZE
      \<or> USERSTACK - of_nat STACKPAGES * PAGE_SIZE \<le> addr)"

text \<open>The test of a user pointer against the current address space.\<close>

definition with_buffer :: "vaddr \<Rightarrow> fproc \<Rightarrow> (int \<times> fproc) run \<Rightarrow> (int \<times> fproc) run" where
  "with_buffer buf s k =
     (if buf = 0 then fail EFAULT s
      else case spaces (vmst s) (p_addrspace (vmst s)) of
          None \<Rightarrow> Halt Wild
        | Some as \<Rightarrow> if \<not> valid_address_check as buf then fail EFAULT s else k)"

subsection \<open>Opening and closing\<close>

definition sys_close :: "vfs \<Rightarrow> nat \<Rightarrow> int \<Rightarrow> fproc \<Rightarrow> (int \<times> fproc) run" where
  "sys_close fs me fd s =
     (if fd < 0 \<or> fd \<ge> int MAX_fd_table then fail EBADF s
      else
        let p = fd_table s ! nat fd in
        if p = 0 then fail EBADF s
        else case fds s p of
            None \<Rightarrow> Halt Wild
          | Some f \<Rightarrow>
              bindR (vfs_close fs (fd_file f) (fheap s)) (\<lambda>h.
              bindR (kfree me p h) (\<lambda>h.
                Ok (0, (set_fheap h s)\<lparr>fds := (fds s)(p := None), fd_table := (fd_table s)[nat fd := 0]\<rparr>))))"

text \<open>The search for an empty slot has no bound; behind the table it reads other memory.\<close>

fun find_slot :: "vaddr list \<Rightarrow> nat \<Rightarrow> nat run" where
  "find_slot [] i = Halt Wild"
| "find_slot (x # xs) i = (if x = 0 then Ok i else find_slot xs (Suc i))"

text \<open>C's remainder, with the sign of the dividend.\<close>

definition crem :: "int \<Rightarrow> int \<Rightarrow> int" where
  "crem a b = sgn a * (\<bar>a\<bar> mod \<bar>b\<bar>)"

definition install_fd :: "nat \<Rightarrow> int \<Rightarrow> vaddr \<Rightarrow> vaddr \<Rightarrow> fproc \<Rightarrow> (int \<times> fproc) run" where
  "install_fd me flag name v s =
     bindR (find_slot (drop 3 (fd_table s)) 3) (\<lambda>file_handle.
     bindR (create_fd me flag name v s) (\<lambda>(f, s).
       Ok (int file_handle, add_fd f file_handle s)))"

text \<open>\<open>raw_vnode\<close> is the uninitialised \<open>new_file\<close>.\<close>

definition sys_open :: "vfs \<Rightarrow> vaddr \<Rightarrow> nat \<Rightarrow> vaddr \<Rightarrow> int \<Rightarrow> u32 \<Rightarrow> fproc \<Rightarrow> (int \<times> fproc) run" where
  "sys_open fs raw_vnode me name flag mode s =
     with_buffer name s
       (if flag > 94 \<or> crem flag 4 = 3 \<or> flag AND O_APPEND \<noteq> 0 then fail EINVAL s
        else if open_num s < int MAX_fd_table then
          bindR (vfs_open fs name flag mode (fheap s)) (\<lambda>(ret, new_file, h).
            let s = (set_fheap h s)\<lparr>open_num := open_num s + 1\<rparr> in
            if ret = 0 then
              if flag AND O_CREAT \<noteq> 0 \<and> flag AND O_EXCL \<noteq> 0 then fail EEXIST s
              else install_fd me flag name new_file s
            else if flag AND NOT O_CREAT \<noteq> 0 then fail ENOENT s
            else install_fd me flag name raw_vnode s)
        else fail EMFILE s)"

subsection \<open>Reading and writing\<close>

text \<open>The console: \<open>con\<close> is the string literal \<open>con:\<close>, opened and read or written through a fresh vnode.\<close>

definition console ::
    "vfs \<Rightarrow> vaddr \<Rightarrow> nat \<Rightarrow> vaddr \<Rightarrow> int \<Rightarrow> (vaddr \<Rightarrow> uio \<Rightarrow> kheap \<Rightarrow> (int \<times> uio \<times> kheap) run) \<Rightarrow> uio \<Rightarrow> fproc
      \<Rightarrow> (int \<times> uio \<times> fproc) run" where
  "console fs raw_vnode me con flag oper u s =
     bindR (kstrdup me con (fheap s)) (\<lambda>(name, h).
     bindR (vfs_open fs name flag 0 h) (\<lambda>(ret, v, h).
     bindR (kfree me name h) (\<lambda>h.
     bindR (oper (if ret = 0 then v else raw_vnode) u h) (\<lambda>(result, u, h).
       Ok (result, u, set_fheap h s)))))"

definition user_uio :: "uio \<Rightarrow> vaddr \<Rightarrow> u32 \<Rightarrow> uio_dir \<Rightarrow> fproc \<Rightarrow> uio" where
  "user_uio raw buf n rw s =
     raw\<lparr>uio_iov := [\<lparr>iov_base = buf, iov_len = n\<rparr>], uio_resid := n, uio_segflg := UIO_USERSPACE, uio_rw := rw,
         uio_space := Some (unat (p_addrspace (vmst s)))\<rparr>"

text \<open>
  \<open>sys_read\<close>: for descriptor 0 the offset is read through the uninitialised pointer \<open>tmp\<close>, giving
  \<open>raw_off\<close> if that address can be read at all. Every call creates an address space it never uses.
\<close>

definition read_vnode ::
    "vfs \<Rightarrow> vaddr \<Rightarrow> uio \<Rightarrow> addrspace \<Rightarrow> vaddr \<Rightarrow> nat \<Rightarrow> int \<Rightarrow> vaddr \<Rightarrow> u32 \<Rightarrow> vaddr \<Rightarrow> u64 \<Rightarrow> fproc \<Rightarrow> (int \<times> fproc) run" where
  "read_vnode fs raw_vnode raw raw_as con me fd buf n v off s =
     bindR (as_create me raw_as (vmst s)) (\<lambda>(_, m).
       let s = s\<lparr>vmst := m\<rparr>;
           u = (user_uio raw buf n UIO_READ s)\<lparr>uio_iovcnt := 1, uio_offset := off\<rparr>
       in bindR (if fd = STDIN_FILENO then console fs raw_vnode me con O_RDONLY (vop_read fs) u s
                 else bindR (vop_read fs v u (fheap s)) (\<lambda>(r, u, h). Ok (r, u, set_fheap h s)))
            (\<lambda>(result, u, s). if result < 0 then fail EIO s else Ok (sint (n - uio_resid u), s)))"

definition sys_read ::
    "vfs \<Rightarrow> vaddr \<Rightarrow> u64 option \<Rightarrow> uio \<Rightarrow> addrspace \<Rightarrow> vaddr \<Rightarrow> nat \<Rightarrow> int \<Rightarrow> vaddr \<Rightarrow> u32 \<Rightarrow> fproc \<Rightarrow> (int \<times> fproc) run" where
  "sys_read fs raw_vnode raw_off raw raw_as con me fd buf n s =
     with_buffer buf s
       (if fd < 0 \<or> fd \<ge> int MAX_fd_table then fail EBADF s
        else if fd = STDOUT_FILENO \<or> fd = STDERR_FILENO then fail EIO s
        else if fd = STDIN_FILENO then
          (case raw_off of
             None \<Rightarrow> Halt Wild
           | Some off \<Rightarrow> read_vnode fs raw_vnode raw raw_as con me fd buf n 0 off s)
        else if fd_table s ! nat fd = 0 then fail EBADF s
        else case fds s (fd_table s ! nat fd) of
            None \<Rightarrow> Halt Wild
          | Some f \<Rightarrow>
              if file_flag f AND O_WRONLY \<noteq> 0 then fail EBADF s
              else read_vnode fs raw_vnode raw raw_as con me fd buf n (fd_file f) (offset f) s)"

text \<open>\<open>sys_write\<close> leaves \<open>uio_iovcnt\<close>, and for the console also \<open>uio_offset\<close>, unset.\<close>

definition write_console ::
    "vfs \<Rightarrow> vaddr \<Rightarrow> uio \<Rightarrow> addrspace \<Rightarrow> vaddr \<Rightarrow> nat \<Rightarrow> vaddr \<Rightarrow> u32 \<Rightarrow> fproc \<Rightarrow> (int \<times> fproc) run" where
  "write_console fs raw_vnode raw raw_as con me buf n s =
     bindR (as_create me raw_as (vmst s)) (\<lambda>(_, m).
       let s = s\<lparr>vmst := m\<rparr> in
       bindR (console fs raw_vnode me con O_WRONLY (vop_write fs) (user_uio raw buf n UIO_WRITE s) s) (\<lambda>(result, u, s).
         if result < 0 then fail EIO s else Ok (sint (n - uio_resid u), s)))"

definition write_vnode ::
    "vfs \<Rightarrow> uio \<Rightarrow> addrspace \<Rightarrow> nat \<Rightarrow> vaddr \<Rightarrow> fd \<Rightarrow> vaddr \<Rightarrow> u32 \<Rightarrow> fproc \<Rightarrow> (int \<times> fproc) run" where
  "write_vnode fs raw raw_as me p f buf n s =
     bindR (as_create me raw_as (vmst s)) (\<lambda>(_, m).
       let s = s\<lparr>vmst := m\<rparr> in
       bindR (vop_write fs (fd_file f) ((user_uio raw buf n UIO_WRITE s)\<lparr>uio_offset := offset f\<rparr>) (fheap s)) (\<lambda>(_, u, h).
         let s = set_fheap h s in
         if uio_resid u \<noteq> 0 then fail ENOSPC s
         else
           let f = f\<lparr>offset := offset f + ucast (n - uio_resid u), buflen := buflen f + (n - uio_resid u)\<rparr>
           in Ok (sint (n - uio_resid u), s\<lparr>fds := (fds s)(p \<mapsto> f)\<rparr>)))"

definition sys_write ::
    "vfs \<Rightarrow> vaddr \<Rightarrow> uio \<Rightarrow> addrspace \<Rightarrow> vaddr \<Rightarrow> nat \<Rightarrow> int \<Rightarrow> vaddr \<Rightarrow> u32 \<Rightarrow> fproc \<Rightarrow> (int \<times> fproc) run" where
  "sys_write fs raw_vnode raw raw_as con me fd buf n s =
     with_buffer buf s
       (if fd < 0 \<or> fd \<ge> int MAX_fd_table then fail EBADF s
        else if fd = STDIN_FILENO then fail EIO s
        else if fd = STDOUT_FILENO \<or> fd = STDERR_FILENO then write_console fs raw_vnode raw raw_as con me buf n s
        else if fd_table s ! nat fd = 0 then fail EBADF s
        else case fds s (fd_table s ! nat fd) of
            None \<Rightarrow> Halt Wild
          | Some f \<Rightarrow>
              if file_flag f AND O_ACCMODE \<noteq> O_WRONLY \<and> file_flag f AND O_ACCMODE \<noteq> O_RDWR then fail EBADF s
              else write_vnode fs raw raw_as me (fd_table s ! nat fd) f buf n s)"

subsection \<open>Descriptors\<close>

lemma find_slot_found:
  "find_slot xs k = Ok i \<Longrightarrow> \<exists>n<length xs. i = k + n \<and> xs ! n = 0 \<and> (\<forall>j<n. xs ! j \<noteq> 0)"
proof (induction xs arbitrary: k)
  case (Cons x xs)
  show ?case
  proof (cases "x = 0")
    case True
    then show ?thesis using Cons.prems by (intro exI [of _ 0]) simp
  next
    case False
    then obtain n where "n < length xs" "i = Suc k + n" "xs ! n = 0" "\<forall>j<n. xs ! j \<noteq> 0"
      using Cons.IH [of "Suc k"] Cons.prems by auto
    then show ?thesis using False by (intro exI [of _ "Suc n"]) (auto simp: less_Suc_eq_0_disj)
  qed
qed simp

lemma find_slot_full: "(\<forall>x\<in>set xs. x \<noteq> 0) \<Longrightarrow> find_slot xs k = Halt Wild"
  by (induction xs arbitrary: k) auto

lemma with_buffer_Ok:
  "with_buffer buf s k = Ok (r, s') \<Longrightarrow> r \<noteq> -1 \<Longrightarrow> k = Ok (r, s')"
  by (auto simp: with_buffer_def fail_def split: if_splits option.splits)

lemma fail_result: "fail e s = Ok (r, s') \<Longrightarrow> r = -1"
  by (simp add: fail_def)

lemma install_fd_result:
  assumes "install_fd me flag name v s = Ok (r, s')" and "length (fd_table s) = MAX_fd_table"
  shows "3 \<le> r \<and> r < int MAX_fd_table \<and> fd_table s ! nat r = 0 \<and> (\<forall>j. 3 \<le> j \<longrightarrow> j < nat r \<longrightarrow> fd_table s ! j \<noteq> 0)
    \<and> (\<exists>p f. fd_table s' = (fd_table s)[nat r := p] \<and> p \<noteq> 0 \<and> fds s' = (fds s)(p \<mapsto> f) \<and> file_flag f = flag \<and> offset f = 0 \<and> fd_file f = v)
    \<and> v \<noteq> 0 \<and> open_num s' = open_num s"
proof -
  obtain h f s1 where h: "find_slot (drop 3 (fd_table s)) 3 = Ok h" "create_fd me flag name v s = Ok (f, s1)" "r = int h" "s' = add_fd f h s1"
    using assms(1) by (auto simp: install_fd_def bindR_eq_Ok)
  then obtain n where n: "n < length (fd_table s) - 3" "h = 3 + n" "fd_table s ! (3 + n) = 0" "\<forall>j<n. fd_table s ! (3 + j) \<noteq> 0"
    using find_slot_found [OF h(1)] by auto
  obtain x where f: "fds s1 = (fds s)(f \<mapsto> x)" "file_flag x = flag" "offset x = 0" "fd_file x = v" "f \<noteq> 0"
    "fd_table s1 = fd_table s" "open_num s1 = open_num s" "v \<noteq> 0"
    using h(2) by (auto simp: create_fd_def bindR_eq_Ok kassert_eq_Ok set_fheap_def split: if_splits)
  have r: "nat r = 3 + n" "3 \<le> r" "r < int MAX_fd_table" using h(3) n(1,2) assms(2) by auto
  have "fd_table s ! j \<noteq> 0" if "3 \<le> j" "j < nat r" for j
    using n(4) [rule_format, of "j - 3"] that r by simp
  moreover have "fd_table s' = (fd_table s)[nat r := f]" "fds s' = (fds s)(f \<mapsto> x)" "open_num s' = open_num s"
    using h(4) n(2) r(1) f by (simp_all add: add_fd_def)
  ultimately show ?thesis using r n(3) f by auto
qed

text \<open>What a call of \<open>sys_open\<close> that returns a descriptor has done.\<close>

lemma sys_open_result:
  assumes "sys_open fs raw_vnode me name flag mode s = Ok (r, s')" and "0 \<le> r" and "length (fd_table s) = MAX_fd_table"
  shows "3 \<le> r \<and> r < int MAX_fd_table \<and> fd_table s ! nat r = 0 \<and> (\<forall>j. 3 \<le> j \<longrightarrow> j < nat r \<longrightarrow> fd_table s ! j \<noteq> 0)
    \<and> (\<exists>p f. fd_table s' = (fd_table s)[nat r := p] \<and> p \<noteq> 0 \<and> fds s' = (fds s)(p \<mapsto> f) \<and> file_flag f = flag \<and> offset f = 0 \<and> fd_file f \<noteq> 0)
    \<and> open_num s < int MAX_fd_table \<and> open_num s' = open_num s + 1"
proof -
  have "(if flag > 94 \<or> crem flag 4 = 3 \<or> flag AND O_APPEND \<noteq> 0 then fail EINVAL s
      else if open_num s < int MAX_fd_table then
        bindR (vfs_open fs name flag mode (fheap s)) (\<lambda>(ret, new_file, h).
          let s = (set_fheap h s)\<lparr>open_num := open_num s + 1\<rparr> in
          if ret = 0 then
            if flag AND O_CREAT \<noteq> 0 \<and> flag AND O_EXCL \<noteq> 0 then fail EEXIST s
            else install_fd me flag name new_file s
          else if flag AND NOT O_CREAT \<noteq> 0 then fail ENOENT s
          else install_fd me flag name raw_vnode s)
      else fail EMFILE s) = Ok (r, s')"
    using with_buffer_Ok [OF assms(1) [unfolded sys_open_def]] assms(2) by simp
  then obtain h v where "open_num s < int MAX_fd_table" "install_fd me flag name v ((set_fheap h s)\<lparr>open_num := open_num s + 1\<rparr>) = Ok (r, s')"
    using assms(2) by (auto simp: bindR_eq_Ok Let_def fail_def split: if_splits)
  note inst = install_fd_result [OF this(2)]
  have same: "fd_table ((set_fheap h s)\<lparr>open_num := open_num s + 1\<rparr>) = fd_table s" by (simp add: set_fheap_def)
  have "fds ((set_fheap h s)\<lparr>open_num := open_num s + 1\<rparr>) = fds s" by (simp add: set_fheap_def)
  then show ?thesis using inst assms(3) same \<open>open_num s < int MAX_fd_table\<close> by auto
qed

text \<open>
  Opening gives the lowest free descriptor from 3 on, and closing it restores the descriptor table.
  No other slot changes. The count of open files is not restored: \<open>sys_close\<close> never decrements it.
\<close>

theorem open_close_roundtrip:
  assumes "length (fd_table s) = MAX_fd_table" and "sys_open fs raw_vnode me name flag mode s = Ok (r, s1)" and "0 \<le> r"
    and "sys_close fs me r s1 = Ok (q, s2)"
  shows "3 \<le> r \<and> r < int MAX_fd_table \<and> fd_table s ! nat r = 0 \<and> (\<forall>j. 3 \<le> j \<longrightarrow> j < nat r \<longrightarrow> fd_table s ! j \<noteq> 0)
    \<and> (\<forall>j. j \<noteq> nat r \<longrightarrow> fd_table s1 ! j = fd_table s ! j) \<and> fd_table s1 ! nat r \<noteq> 0
    \<and> q = 0 \<and> fd_table s2 = fd_table s \<and> open_num s2 = open_num s + 1"
proof -
  note o = sys_open_result [OF assms(2,3,1)]
  then obtain p f where f: "fd_table s1 = (fd_table s)[nat r := p]" "p \<noteq> 0" "fds s1 = (fds s)(p \<mapsto> f)" by blast
  have lt: "nat r < length (fd_table s)" using o assms(1) by auto
  then have sl: "fd_table s1 ! nat r = p" using f by simp
  obtain h where "q = 0" "fd_table s2 = (fd_table s1)[nat r := 0]" "open_num s2 = open_num s1"
    using assms(4) o sl f by (auto simp: sys_close_def bindR_eq_Ok set_fheap_def)
  moreover have "(fd_table s)[nat r := 0] = fd_table s" using o lt by (metis list_update_id)
  ultimately show ?thesis using o f sl by (auto simp: nth_list_update)
qed

text \<open>A file system whose files all exist, and a process with one open file on it.\<close>

definition any_fs :: vfs where
  "any_fs = \<lparr>vfs_open = (\<lambda>name flag mode h. Ok (0, 0x80001400, h)), vfs_close = (\<lambda>v h. Ok h),
     vop_read = (\<lambda>v u h. Ok (0, u, h)), vop_write = (\<lambda>v u h. Ok (0, u\<lparr>uio_resid := 0\<rparr>, h))\<rparr>"

definition file_proc :: fproc where
  "file_proc = \<lparr>vmst = example_vm\<lparr>heap := wide_heap\<rparr>, fds = Map.empty, fd_table = replicate 64 0, open_num = 0, errno = 0\<rparr>"

lemma example_buffer: "valid_address_check example_space 0x400000"
  by (simp add: valid_address_check_def example_space_def layout_defs)

lemma file_proc_buffer:
  "spaces (vmst s) (p_addrspace (vmst s)) = Some example_space \<Longrightarrow> with_buffer 0x400000 s k = k"
  "spaces (vmst file_proc) (p_addrspace (vmst file_proc)) = Some example_space"
  using example_buffer by (simp add: with_buffer_def) (simp add: file_proc_def example_vm_def)

lemma file_proc_open:
  obtains s p f n B where "sys_open any_fs 0 0 0x400000 0 0 file_proc = Ok (3, s)" and "fd_table s = (replicate 64 0)[3 := p]" and "p \<noteq> 0" and "fds s p = Some f"
    and "heap_abs (fheap s) B" and "(p, n) \<in> B"
proof -
  have room: "roomy (Suc 63) wide_heap" using wide_heap_roomy by simp
  obtain p h1 where p: "kmalloc 0 32 wide_heap = Ok (p, h1)" "p \<noteq> 0" "roomy (3 + 60) h1"
    using kmalloc_progress [OF wide_heap_abs _ room, of 32 0] by auto
  obtain n where n: "grown wide_heap {} h1 {(p, n)}" using kmalloc_allocated [OF wide_heap_abs _ p(1)] p(2) by (auto simp: allocated_def)
  have ks: "kstring h1 {(p, n)} 0x400000 []" by (rule kstring_grown [OF wide_heap_string n]) simp
  obtain lk h2 where lk1: "named_alloc 20 0 0x400000 h1 = Ok (lk, h2)"
    using named_alloc_progress [OF grown_abs [OF n] ks _ p(3), of 20 0] by auto
  obtain B where B: "grown h1 {(p, n)} h2 B" using named_alloc_allocated [OF grown_abs [OF n] ks _ lk1] by auto
  have lk: "lock_alloc 0 0x400000 h1 = Ok (lk, h2)" "heap_abs h2 B" "(p, n) \<in> B"
    using lk1 B by (auto simp: lock_alloc_named grown_def)
  have slot: "find_slot (drop 3 (fd_table file_proc)) 3 = Ok 3" by (simp add: file_proc_def numeral_eq_Suc)
  let ?f = "\<lparr>file_flag = 0, filename = 0x400000, fd_file = 0x80001400, fd_lock = lk, offset = 0, buflen = 0\<rparr>"
  let ?s = "file_proc\<lparr>open_num := 1\<rparr>"
  have h0: "fheap file_proc = wide_heap" "fheap ?s = wide_heap" by (simp_all add: file_proc_def)
  let ?r = "add_fd p 3 ((set_fheap h2 ?s)\<lparr>fds := (fds ?s)(p \<mapsto> ?f)\<rparr>)"
  have "install_fd 0 0 0x400000 0x80001400 ?s = Ok (3, ?r)"
    using p(1,2) lk(1) slot h0 by (simp add: install_fd_def create_fd_def set_fheap_def)
  moreover have "(set_fheap (fheap file_proc) file_proc)\<lparr>open_num := open_num file_proc + 1\<rparr> = ?s"
    by (simp add: set_fheap_def file_proc_def)
  ultimately have "sys_open any_fs 0 0 0x400000 0 0 file_proc = Ok (3, ?r)"
    unfolding sys_open_def file_proc_buffer(1) [OF file_proc_buffer(2)]
    by (simp add: any_fs_def crem_def) (simp add: file_proc_def MAX_fd_table_def)
  moreover have "fd_table ?r = (replicate 64 0)[3 := p]"
    by (simp add: add_fd_def set_fheap_def file_proc_def)
  moreover have "fheap ?r = h2" by (simp add: add_fd_def set_fheap_def)
  moreover have "fds ?r p = Some ?f" by (simp add: add_fd_def)
  ultimately show ?thesis using that [of ?r p ?f B n] p(2) lk(2,3) by simp
qed

theorem open_close_roundtrip_witness:
  "\<exists>s1 s2. sys_open any_fs 0 0 0x400000 0 0 file_proc = Ok (3, s1) \<and> sys_close any_fs 0 3 s1 = Ok (0, s2)
     \<and> fd_table s2 = fd_table file_proc \<and> open_num s2 = 1"
proof -
  obtain s1 p f n B where s1: "sys_open any_fs 0 0 0x400000 0 0 file_proc = Ok (3, s1)" "fd_table s1 = (replicate 64 0)[3 := p]"
    "p \<noteq> 0" "fds s1 p = Some f" "heap_abs (fheap s1) B" "(p, n) \<in> B" by (rule file_proc_open)
  obtain h where "kfree 0 p (fheap s1) = Ok h" using kfree_spec [OF s1(5,6)] by blast
  then obtain q s2 where s2: "sys_close any_fs 0 3 s1 = Ok (q, s2)"
    using s1(2-4) by (simp add: sys_close_def MAX_fd_table_def any_fs_def)
  have len: "length (fd_table file_proc) = MAX_fd_table" "open_num file_proc = 0" by (simp_all add: file_proc_def MAX_fd_table_def)
  from open_close_roundtrip [OF len(1) s1(1) _ s2] show ?thesis using s1(1) s2 len(2) by auto
qed

text \<open>
  The search for a free slot is not bounded by the table. With all sixty-one slots from 3 on in use
  and \<open>open_num\<close> still below 64, an \<open>open\<close> of an existing file reads beyond the descriptor table.
\<close>

theorem open_overruns_table:
  assumes "length (fd_table s) = MAX_fd_table" and "\<And>j. 3 \<le> j \<Longrightarrow> j < MAX_fd_table \<Longrightarrow> fd_table s ! j \<noteq> 0"
    and "open_num s < int MAX_fd_table" and "name \<noteq> 0" and "spaces (vmst s) (p_addrspace (vmst s)) = Some as"
    and "valid_address_check as name" and "flag \<in> {O_RDONLY, O_WRONLY, O_RDWR}"
    and "vfs_open fs name flag mode (fheap s) = Ok (0, v, h)"
  shows "sys_open fs raw_vnode me name flag mode s = Halt Wild"
proof -
  have full: "\<forall>x\<in>set (drop 3 (fd_table s)). x \<noteq> 0"
    using assms(1,2) by (auto simp: in_set_conv_nth)
  have "install_fd me flag name v s' = Halt Wild" if "fd_table s' = fd_table s" for s'
    using find_slot_full [OF full, of 3] that by (simp add: install_fd_def)
  moreover have "flag AND O_CREAT = 0" "flag AND O_APPEND = 0" "crem flag 4 \<noteq> 3" "\<not> flag > 94"
    using assms(7) by (auto simp: layout_defs O_RDWR_def O_CREAT_def crem_def)
  ultimately show ?thesis using assms(3-6,8) by (simp add: sys_open_def with_buffer_def set_fheap_def)
qed

theorem open_overruns_table_witness:
  "sys_open any_fs 0 0 0x400000 0 0 (file_proc\<lparr>fd_table := replicate 64 1, open_num := 61\<rparr>) = Halt Wild"
proof (rule open_overruns_table)
  show "valid_address_check example_space 0x400000" by (rule example_buffer)
qed (auto simp: file_proc_def any_fs_def MAX_fd_table_def example_vm_def O_RDONLY_def)

subsection \<open>A lifetime of calls\<close>

record fenv =
  env_fs :: vfs
  env_vnode :: vaddr
  env_off :: "u64 option"
  env_uio :: uio
  env_as :: addrspace
  env_con :: vaddr
  env_cpu :: nat

datatype fcall = Open vaddr int u32 | Close int | Read int vaddr u32 | Write int vaddr u32

fun file_call :: "fenv \<Rightarrow> fcall \<Rightarrow> fproc \<Rightarrow> (int \<times> fproc) run" where
  "file_call E (Open name flag mode) s = sys_open (env_fs E) (env_vnode E) (env_cpu E) name flag mode s"
| "file_call E (Close fd) s = sys_close (env_fs E) (env_cpu E) fd s"
| "file_call E (Read fd buf n) s = sys_read (env_fs E) (env_vnode E) (env_off E) (env_uio E) (env_as E) (env_con E) (env_cpu E) fd buf n s"
| "file_call E (Write fd buf n) s = sys_write (env_fs E) (env_vnode E) (env_uio E) (env_as E) (env_con E) (env_cpu E) fd buf n s"

fun file_run :: "fenv \<Rightarrow> fcall list \<Rightarrow> fproc \<Rightarrow> (int list \<times> fproc) run" where
  "file_run E [] s = Ok ([], s)"
| "file_run E (c # cs) s = bindR (file_call E c s) (\<lambda>(r, s). bindR (file_run E cs s) (\<lambda>(rs, s). Ok (r # rs, s)))"

fun opened :: "fcall \<times> int \<Rightarrow> bool" where
  "opened (Open name flag mode, r) \<longleftrightarrow> 0 \<le> r"
| "opened (c, r) \<longleftrightarrow> False"

definition keeps_count :: "fproc \<Rightarrow> fproc \<Rightarrow> bool" where
  "keeps_count s s' \<longleftrightarrow> open_num s' = open_num s \<and> length (fd_table s') = length (fd_table s)"

lemma keeps_count_refl [simp]: "keeps_count s s"
  by (simp add: keeps_count_def)

lemma fail_keeps [simp]: "fail e s = Ok (r, s') \<Longrightarrow> keeps_count s s'"
  by (auto simp: fail_def keeps_count_def)

lemma with_buffer_keeps:
  assumes "with_buffer buf s k = Ok (r, s')" and "\<And>r s'. k = Ok (r, s') \<Longrightarrow> keeps_count s s'"
  shows "keeps_count s s'"
  using assms by (auto simp: with_buffer_def split: if_splits option.splits)

lemma console_keeps: "console fs rv me con flag oper u s = Ok (r, u', s') \<Longrightarrow> keeps_count s s'"
  by (auto simp: console_def bindR_eq_Ok keeps_count_def set_fheap_def)

lemma sys_close_keeps: "sys_close fs me fd s = Ok (r, s') \<Longrightarrow> keeps_count s s'"
  by (auto simp: sys_close_def Let_def bindR_eq_Ok keeps_count_def set_fheap_def fail_def split: if_splits option.splits)

lemma keeps_count_trans: "keeps_count s s' \<Longrightarrow> keeps_count s' s'' \<Longrightarrow> keeps_count s s''"
  by (simp add: keeps_count_def)

lemma keeps_count_vmst [simp]:
  "keeps_count (s\<lparr>vmst := m\<rparr>) s' \<longleftrightarrow> keeps_count s s'" "keeps_count (set_fheap h s) s' \<longleftrightarrow> keeps_count s s'"
  "keeps_count s (s'\<lparr>vmst := m\<rparr>) \<longleftrightarrow> keeps_count s s'" "keeps_count s (set_fheap h s') \<longleftrightarrow> keeps_count s s'"
  by (simp_all add: keeps_count_def set_fheap_def)

lemma read_vnode_keeps: "read_vnode fs rv ru ra con me fd buf n v off s = Ok (r, s') \<Longrightarrow> keeps_count s s'"
  unfolding read_vnode_def Let_def bindR_eq_Ok case_prod_beta
  by (auto split: if_splits simp: bindR_eq_Ok intro: keeps_count_trans dest!: console_keeps fail_keeps)

lemma write_console_keeps: "write_console fs rv ru ra con me buf n s = Ok (r, s') \<Longrightarrow> keeps_count s s'"
  unfolding write_console_def Let_def bindR_eq_Ok case_prod_beta
  by (auto split: if_splits intro: keeps_count_trans dest!: console_keeps fail_keeps)

lemma write_vnode_keeps: "write_vnode fs ru ra me p f buf n s = Ok (r, s') \<Longrightarrow> keeps_count s s'"
  unfolding write_vnode_def Let_def bindR_eq_Ok case_prod_beta
  by (auto split: if_splits simp: keeps_count_def fail_def set_fheap_def)

lemmas file_keeps = fail_keeps read_vnode_keeps write_console_keeps write_vnode_keeps

lemma sys_read_keeps: "sys_read fs rv ro ru ra con me fd buf n s = Ok (r, s') \<Longrightarrow> keeps_count s s'"
  unfolding sys_read_def
  by (erule with_buffer_keeps) (auto split: if_splits option.splits dest: file_keeps)

lemma sys_write_keeps: "sys_write fs rv ru ra con me fd buf n s = Ok (r, s') \<Longrightarrow> keeps_count s s'"
  unfolding sys_write_def
  by (erule with_buffer_keeps) (auto split: if_splits option.splits dest: file_keeps)

lemma install_fd_keeps: "install_fd me flag name v s = Ok (r, s') \<Longrightarrow> keeps_count s s'"
  by (auto simp: install_fd_def create_fd_def add_fd_def bindR_eq_Ok kassert_eq_Ok keeps_count_def set_fheap_def split: if_splits)

text \<open>Every call of \<open>sys_open\<close> that gets as far as \<open>vfs_open\<close> counts, whether it succeeds or not.\<close>

lemma sys_open_counts:
  assumes "sys_open fs rv me name flag mode s = Ok (r, s')"
  shows "length (fd_table s') = length (fd_table s)
    \<and> (keeps_count s s' \<and> r = -1 \<or> open_num s < int MAX_fd_table \<and> open_num s' = open_num s + 1)"
proof -
  have inst: "length (fd_table s') = length (fd_table s) \<and> open_num s' = open_num s + 1"
    if "install_fd me flag name v ((set_fheap h s)\<lparr>open_num := open_num s + 1\<rparr>) = Ok (r, s')" for v h
    using install_fd_keeps [OF that] by (simp add: keeps_count_def set_fheap_def)
  have err: "length (fd_table s') = length (fd_table s) \<and> open_num s' = open_num s + 1"
    if "fail e ((set_fheap h s)\<lparr>open_num := open_num s + 1\<rparr>) = Ok (r, s')" for e h
    using that by (auto simp: fail_def set_fheap_def)
  have bad: "keeps_count s s' \<and> r = -1" if "fail e s = Ok (r, s')" for e
    using that by (auto simp: fail_def keeps_count_def)
  have "length (fd_table s') = length (fd_table s)" if "keeps_count s s'" using that by (simp add: keeps_count_def)
  moreover have "keeps_count s s' \<and> r = -1 \<or>
      open_num s < int MAX_fd_table \<and> length (fd_table s') = length (fd_table s) \<and> open_num s' = open_num s + 1"
    using assms unfolding sys_open_def with_buffer_def
    by (auto simp: bindR_eq_Ok Let_def split: if_splits option.splits dest: inst err bad)
  ultimately show ?thesis by blast
qed

lemma file_call_counts:
  assumes "file_call E c s = Ok (r, s')" and "open_num s \<le> int MAX_fd_table"
  shows "open_num s' \<le> int MAX_fd_table \<and> length (fd_table s') = length (fd_table s)
    \<and> open_num s + (if opened (c, r) then 1 else 0) \<le> open_num s'"
proof (cases c)
  case (Open name flag mode)
  then show ?thesis using assms sys_open_counts [of "env_fs E" "env_vnode E" "env_cpu E" name flag mode s r s']
    by (auto simp: keeps_count_def)
next
  case (Close fd)
  then show ?thesis using assms sys_close_keeps [of "env_fs E" "env_cpu E" fd s r s'] by (simp add: keeps_count_def)
next
  case (Read fd buf n)
  then have "keeps_count s s'" using assms by (auto dest: sys_read_keeps)
  then show ?thesis using assms Read by (simp add: keeps_count_def)
next
  case (Write fd buf n)
  then have "keeps_count s s'" using assms by (auto dest: sys_write_keeps)
  then show ?thesis using assms Write by (simp add: keeps_count_def)
qed

lemma file_run_counts:
  "file_run E cs s = Ok (rs, s') \<Longrightarrow> open_num s \<le> int MAX_fd_table \<Longrightarrow>
     open_num s' \<le> int MAX_fd_table \<and> length rs = length cs \<and> open_num s + int (length (filter opened (zip cs rs))) \<le> open_num s'"
proof (induction cs arbitrary: s rs)
  case (Cons c cs)
  then obtain r s1 qs where c: "file_call E c s = Ok (r, s1)" "file_run E cs s1 = Ok (qs, s')" "rs = r # qs"
    by (auto simp: bindR_eq_Ok)
  note one = file_call_counts [OF c(1) Cons.prems(2)]
  note rest = Cons.IH [OF c(2)]
  then show ?case using one c(3) by auto
qed simp

text \<open>
  C26: a process can open at most 64 files in its whole life, however many it closes: in any sequence of
  file system calls at most \<open>64 - open_num\<close> of the \<open>open\<close> calls succeed, because the count that limits
  them only ever grows.
\<close>

theorem at_most_64_opens:
  assumes "file_run E cs s = Ok (rs, s')" and "0 \<le> open_num s" and "open_num s \<le> int MAX_fd_table"
  shows "int (length (filter opened (zip cs rs))) \<le> int MAX_fd_table - open_num s"
  using file_run_counts [OF assms(1,3)] by linarith

theorem at_most_64_opens_witness:
  "\<exists>rs s'. file_run \<lparr>env_fs = any_fs, env_vnode = 0, env_off = None, env_uio = uio_kinit 0 0 0 UIO_WRITE, env_as = example_space, env_con = 0, env_cpu = 0\<rparr>
       [Close 5, Open 0x400000 0 0] (file_proc\<lparr>open_num := 64\<rparr>) = Ok (rs, s')
     \<and> length (filter opened (zip [Close 5, Open 0x400000 0 0] rs)) = 0"
proof -
  let ?E = "\<lparr>env_fs = any_fs, env_vnode = 0, env_off = None, env_uio = uio_kinit 0 0 0 UIO_WRITE, env_as = example_space, env_con = 0, env_cpu = 0\<rparr>"
  let ?s = "file_proc\<lparr>open_num := 64\<rparr>"
  have c: "sys_close any_fs 0 5 ?s = fail EBADF ?s" by (simp add: sys_close_def file_proc_def MAX_fd_table_def)
  have o: "sys_open any_fs 0 0 0x400000 0 0 (?s\<lparr>errno := EBADF\<rparr>) = fail EMFILE (?s\<lparr>errno := EBADF\<rparr>)"
    unfolding sys_open_def using file_proc_buffer by (simp add: crem_def MAX_fd_table_def)
  obtain rs s' where run: "file_run ?E [Close 5, Open 0x400000 0 0] ?s = Ok (rs, s')" using c o by (simp add: fail_def)
  from at_most_64_opens [OF run] run show ?thesis by (auto simp: MAX_fd_table_def)
qed

end
