(* ===== verification/Threadlist.thy ===== *)
theory Threadlist
  imports Prelude
begin

text \<open>
  Thread lists (\<^verbatim>\<open>kern/thread/threadlist.c\<close>): doubly linked lists with a bookend node at each end,
  threaded through the \<open>t_listnode\<close> of the threads. The nodes live in an explicit store, so the
  pointer assignments and their aliasing are those of the code. The store is shown to represent
  disjoint sequences of threads, one per list.
\<close>

subsection \<open>The node store\<close>

text \<open>
  The lists of the kernel: the run queue and the zombies of each processor, the sleepers of each
  wait channel, and the lists that \<open>wchan_wakeall\<close> and \<open>thread_consider_migration\<close> keep on their
  stack. Threads, processors and channels are named by numbers. A node is the head or the tail
  bookend of a list, or the node inside a thread; a pointer to a node is \<open>None\<close> when it is null.
\<close>

datatype listid = RunQueue nat | Zombies nat | Sleepers nat | OnStack nat

datatype tlnode = HeadNode listid | TailNode listid | ThreadNode nat

record tlstore =
  tln_prev :: "tlnode \<Rightarrow> tlnode option"
  tln_next :: "tlnode \<Rightarrow> tlnode option"
  tln_self :: "tlnode \<Rightarrow> nat option"
  tl_count :: "listid \<Rightarrow> u32"

definition set_prev :: "tlnode \<Rightarrow> tlnode option \<Rightarrow> tlstore \<Rightarrow> tlstore" where
  "set_prev n p h = h\<lparr>tln_prev := (tln_prev h)(n := p)\<rparr>"

definition set_next :: "tlnode \<Rightarrow> tlnode option \<Rightarrow> tlstore \<Rightarrow> tlstore" where
  "set_next n p h = h\<lparr>tln_next := (tln_next h)(n := p)\<rparr>"

definition deref :: "tlnode option \<Rightarrow> (tlnode \<Rightarrow> 'a run) \<Rightarrow> 'a run" where
  "deref p k = (case p of None \<Rightarrow> Halt Wild | Some n \<Rightarrow> k n)"

subsection \<open>The functions of threadlist.c\<close>

definition threadlistnode_init :: "tlstore \<Rightarrow> nat \<Rightarrow> tlstore" where
  "threadlistnode_init h t =
     (let h = set_prev (ThreadNode t) None (set_next (ThreadNode t) None h)
      in h\<lparr>tln_self := (tln_self h)(ThreadNode t := Some t)\<rparr>)"

definition threadlistnode_cleanup :: "tlstore \<Rightarrow> nat \<Rightarrow> unit run" where
  "threadlistnode_cleanup h t =
     kassert (tln_next h (ThreadNode t) = None) (kassert (tln_prev h (ThreadNode t) = None)
       (kassert (tln_self h (ThreadNode t) \<noteq> None) (Ok ())))"

definition threadlist_init :: "tlstore \<Rightarrow> listid \<Rightarrow> tlstore" where
  "threadlist_init h l =
     (let h = set_next (HeadNode l) (Some (TailNode l)) h;
          h = set_prev (HeadNode l) None h;
          h = set_next (TailNode l) None h;
          h = set_prev (TailNode l) (Some (HeadNode l)) h
      in h\<lparr>tln_self := (tln_self h)(HeadNode l := None, TailNode l := None),
           tl_count := (tl_count h)(l := 0)\<rparr>)"

definition threadlist_isempty :: "tlstore \<Rightarrow> listid \<Rightarrow> bool" where
  "threadlist_isempty h l \<longleftrightarrow> tl_count h l = 0"

definition threadlist_cleanup :: "tlstore \<Rightarrow> listid \<Rightarrow> unit run" where
  "threadlist_cleanup h l = kassert (threadlist_isempty h l) (kassert (tl_count h l = 0) (Ok ()))"

definition threadlist_insertafternode :: "tlstore \<Rightarrow> tlnode \<Rightarrow> nat \<Rightarrow> tlstore run" where
  "threadlist_insertafternode h onlist t =
     (let addee = ThreadNode t;
          h = set_prev addee (Some onlist) h;
          h = set_next addee (tln_next h onlist) h
      in deref (tln_prev h addee) (\<lambda>p.
           let h = set_next p (Some addee) h
           in deref (tln_next h addee) (\<lambda>n. Ok (set_prev n (Some addee) h))))"

definition threadlist_insertbeforenode :: "tlstore \<Rightarrow> nat \<Rightarrow> tlnode \<Rightarrow> tlstore run" where
  "threadlist_insertbeforenode h t onlist =
     (let addee = ThreadNode t;
          h = set_prev addee (tln_prev h onlist) h;
          h = set_next addee (Some onlist) h
      in deref (tln_prev h addee) (\<lambda>p.
           let h = set_next p (Some addee) h
           in deref (tln_next h addee) (\<lambda>n. Ok (set_prev n (Some addee) h))))"

definition threadlist_removenode :: "tlstore \<Rightarrow> tlnode \<Rightarrow> tlstore run" where
  "threadlist_removenode h tln =
     deref (tln_prev h tln) (\<lambda>p.
       let h = set_next p (tln_next h tln) h
       in deref (tln_next h tln) (\<lambda>n.
            let h = set_prev n (tln_prev h tln) h;
                h = set_prev tln None h
            in Ok (set_next tln None h)))"

definition count_add :: "listid \<Rightarrow> u32 \<Rightarrow> tlstore \<Rightarrow> tlstore" where
  "count_add l d h = h\<lparr>tl_count := (tl_count h)(l := tl_count h l + d)\<rparr>"

definition threadlist_addhead :: "tlstore \<Rightarrow> listid \<Rightarrow> nat \<Rightarrow> tlstore run" where
  "threadlist_addhead h l t =
     bindR (threadlist_insertafternode h (HeadNode l) t) (\<lambda>h. Ok (count_add l 1 h))"

definition threadlist_addtail :: "tlstore \<Rightarrow> listid \<Rightarrow> nat \<Rightarrow> tlstore run" where
  "threadlist_addtail h l t =
     bindR (threadlist_insertbeforenode h t (TailNode l)) (\<lambda>h. Ok (count_add l 1 h))"

definition threadlist_remhead :: "tlstore \<Rightarrow> listid \<Rightarrow> (nat option \<times> tlstore) run" where
  "threadlist_remhead h l =
     deref (tln_next h (HeadNode l)) (\<lambda>tln.
       if tln_next h tln = None then Ok (None, h)
       else bindR (threadlist_removenode h tln) (\<lambda>h. Ok (tln_self h tln, count_add l (- 1) h)))"

definition threadlist_remtail :: "tlstore \<Rightarrow> listid \<Rightarrow> (nat option \<times> tlstore) run" where
  "threadlist_remtail h l =
     deref (tln_prev h (TailNode l)) (\<lambda>tln.
       if tln_prev h tln = None then Ok (None, h)
       else bindR (threadlist_removenode h tln) (\<lambda>h. Ok (tln_self h tln, count_add l (- 1) h)))"

definition threadlist_insertafter :: "tlstore \<Rightarrow> listid \<Rightarrow> nat \<Rightarrow> nat \<Rightarrow> tlstore run" where
  "threadlist_insertafter h l onlist addee =
     bindR (threadlist_insertafternode h (ThreadNode onlist) addee) (\<lambda>h. Ok (count_add l 1 h))"

definition threadlist_insertbefore :: "tlstore \<Rightarrow> listid \<Rightarrow> nat \<Rightarrow> nat \<Rightarrow> tlstore run" where
  "threadlist_insertbefore h l addee onlist =
     bindR (threadlist_insertbeforenode h addee (ThreadNode onlist)) (\<lambda>h. Ok (count_add l 1 h))"

definition threadlist_remove :: "tlstore \<Rightarrow> listid \<Rightarrow> nat \<Rightarrow> tlstore run" where
  "threadlist_remove h l t =
     bindR (threadlist_removenode h (ThreadNode t)) (\<lambda>h. Ok (count_add l (- 1) h))"

text \<open>
  The loop header of \<open>THREADLIST_FORALL\<close> (\<^verbatim>\<open>kern/include/threadlist.h\<close>): the threads for which the
  body runs, in order. The variable is a thread pointer, so the test reads
  \<open>itervar->t_listnode\<close> through it; \<open>None\<close> is the null pointer.
\<close>

fun forall_from :: "tlstore \<Rightarrow> nat \<Rightarrow> nat option \<Rightarrow> nat list run" where
  "forall_from h 0 itervar = Halt Spinning"
| "forall_from h (Suc n) itervar =
     (case itervar of
        None \<Rightarrow> Halt Wild
      | Some t \<Rightarrow>
          (case tln_next h (ThreadNode t) of
             None \<Rightarrow> Ok []
           | Some nd \<Rightarrow> bindR (forall_from h n (tln_self h nd)) (\<lambda>ts. Ok (t # ts))))"

definition threadlist_forall :: "tlstore \<Rightarrow> nat \<Rightarrow> listid \<Rightarrow> nat list run" where
  "threadlist_forall h n l = deref (tln_next h (HeadNode l)) (\<lambda>nd. forall_from h n (tln_self h nd))"

subsection \<open>Chains of nodes\<close>

definition link :: "tlstore \<Rightarrow> tlnode \<Rightarrow> tlnode \<Rightarrow> bool" where
  "link h a b \<longleftrightarrow> tln_next h a = Some b \<and> tln_prev h b = Some a"

definition chain :: "tlstore \<Rightarrow> tlnode list \<Rightarrow> bool" where
  "chain h ns \<longleftrightarrow> successively (link h) ns \<and> distinct ns"

definition bookended :: "listid \<Rightarrow> nat list \<Rightarrow> tlnode list" where
  "bookended l ts = HeadNode l # map ThreadNode ts @ [TailNode l]"

definition tl_rep :: "tlstore \<Rightarrow> listid \<Rightarrow> nat list \<Rightarrow> bool" where
  "tl_rep h l ts \<longleftrightarrow> chain h (bookended l ts)
     \<and> tln_prev h (HeadNode l) = None \<and> tln_next h (TailNode l) = None
     \<and> tln_self h (HeadNode l) = None \<and> tln_self h (TailNode l) = None
     \<and> (\<forall>t \<in> set ts. tln_self h (ThreadNode t) = Some t)
     \<and> tl_count h l = of_nat (length ts) \<and> length ts < 2 ^ 32"

lemma chain_Nil [simp]: "chain h []"
  by (simp add: chain_def)

lemma chain_mid: "chain h (xs @ a # b # ys) \<Longrightarrow> link h a b"
  by (simp add: chain_def successively_append_iff)

lemma link_unique: "link h a b \<Longrightarrow> link h a c \<Longrightarrow> b = c" "link h b a \<Longrightarrow> link h c a \<Longrightarrow> b = c"
  by (auto simp: link_def)

text \<open>Two stores with the same links between the nodes of a chain agree on the chain.\<close>

lemma chain_mono:
  assumes "chain h ns" and "\<And>a b. a \<in> set ns \<Longrightarrow> b \<in> set ns \<Longrightarrow> link h a b \<Longrightarrow> link h' a b"
  shows "chain h' ns"
  using assms unfolding chain_def by (auto intro: successively_mono)

text \<open>Linking a new node between two neighbours, and taking a node out.\<close>

lemma chain_insert:
  assumes ch: "chain h (xs @ a # b # ys)" and t: "t \<notin> set (xs @ a # b # ys)"
    and new: "link h' a t" "link h' t b"
    and frame: "\<And>n. n \<noteq> a \<Longrightarrow> n \<noteq> t \<Longrightarrow> tln_next h' n = tln_next h n"
      "\<And>n. n \<noteq> b \<Longrightarrow> n \<noteq> t \<Longrightarrow> tln_prev h' n = tln_prev h n"
  shows "chain h' (xs @ a # t # b # ys)"
proof -
  have ab: "link h a b" by (rule chain_mid [OF ch])
  have d: "distinct (xs @ a # b # ys)" using ch by (simp add: chain_def)
  have keep: "link h' c e" if "link h c e" "c \<noteq> a" "c \<noteq> t" "e \<noteq> b" "e \<noteq> t" for c e
    using that frame by (simp add: link_def)
  have "successively (link h) (xs @ [a])" "successively (link h) (b # ys)"
    using ch by (auto simp: chain_def successively_append_iff)
  moreover have "successively (link h') (xs @ [a])"
    using \<open>successively (link h) (xs @ [a])\<close>
  proof (rule successively_mono)
    fix c e assume "c \<in> set (xs @ [a])" "e \<in> set (xs @ [a])" "link h c e"
    moreover have "c \<noteq> a" using calculation link_unique(1) [OF ab] d by auto
    ultimately show "link h' c e" using d t by (intro keep) auto
  qed
  moreover have "successively (link h') (b # ys)"
    using \<open>successively (link h) (b # ys)\<close>
  proof (rule successively_mono)
    fix c e assume "c \<in> set (b # ys)" "e \<in> set (b # ys)" "link h c e"
    moreover have "e \<noteq> b" using calculation link_unique(2) [OF ab] d by auto
    ultimately show "link h' c e" using d t by (intro keep) auto
  qed
  ultimately show ?thesis using new d t
    by (auto simp: chain_def successively_append_iff successively_Cons)
qed

lemma chain_delete:
  assumes ch: "chain h (xs @ a # t # b # ys)" and new: "link h' a b"
    and frame: "\<And>n. n \<noteq> a \<Longrightarrow> n \<noteq> t \<Longrightarrow> tln_next h' n = tln_next h n"
      "\<And>n. n \<noteq> b \<Longrightarrow> n \<noteq> t \<Longrightarrow> tln_prev h' n = tln_prev h n"
  shows "chain h' (xs @ a # b # ys)"
proof -
  have at: "link h a t" by (rule chain_mid [OF ch])
  have tb: "link h t b" using chain_mid [of h "xs @ [a]"] ch by simp
  have d: "distinct (xs @ a # t # b # ys)" using ch by (simp add: chain_def)
  have keep: "link h' c e" if "link h c e" "c \<noteq> a" "c \<noteq> t" "e \<noteq> b" "e \<noteq> t" for c e
    using that frame by (simp add: link_def)
  have "successively (link h) (xs @ [a])" "successively (link h) (b # ys)"
    using ch by (auto simp: chain_def successively_append_iff successively_Cons)
  moreover have "successively (link h') (xs @ [a])"
    using \<open>successively (link h) (xs @ [a])\<close>
  proof (rule successively_mono)
    fix c e assume "c \<in> set (xs @ [a])" "e \<in> set (xs @ [a])" "link h c e"
    moreover have "c \<noteq> a" using calculation link_unique(1) [OF at] d by auto
    ultimately show "link h' c e" using d by (intro keep) auto
  qed
  moreover have "successively (link h') (b # ys)"
    using \<open>successively (link h) (b # ys)\<close>
  proof (rule successively_mono)
    fix c e assume "c \<in> set (b # ys)" "e \<in> set (b # ys)" "link h c e"
    moreover have "e \<noteq> b" using calculation link_unique(2) [OF tb] d by auto
    ultimately show "link h' c e" using d by (intro keep) auto
  qed
  ultimately show ?thesis using new d
    by (auto simp: chain_def successively_append_iff successively_Cons)
qed

text \<open>
  \<open>same_but h h' A B\<close>: the two stores differ at most in the next pointers of \<open>A\<close> and the previous
  pointers of \<open>B\<close>.
\<close>

definition same_but :: "tlstore \<Rightarrow> tlstore \<Rightarrow> tlnode set \<Rightarrow> tlnode set \<Rightarrow> bool" where
  "same_but h h' A B \<longleftrightarrow> (\<forall>n. n \<notin> A \<longrightarrow> tln_next h' n = tln_next h n)
     \<and> (\<forall>n. n \<notin> B \<longrightarrow> tln_prev h' n = tln_prev h n)
     \<and> tln_self h' = tln_self h \<and> tl_count h' = tl_count h"

lemmas store_defs = set_prev_def set_next_def deref_def Let_def same_but_def link_def

lemma insertafternode_spec:
  assumes "chain h (xs @ a # b # ys)" and "ThreadNode t \<notin> set (xs @ a # b # ys)"
  shows "\<exists>h'. threadlist_insertafternode h a t = Ok h' \<and> chain h' (xs @ a # ThreadNode t # b # ys)
    \<and> same_but h h' {a, ThreadNode t} {b, ThreadNode t}"
proof -
  have ab: "link h a b" by (rule chain_mid [OF assms(1)])
  have ne: "a \<noteq> ThreadNode t" "b \<noteq> ThreadNode t" using assms(2) by auto
  from ab ne obtain h' where h': "threadlist_insertafternode h a t = Ok h'"
    "link h' a (ThreadNode t)" "link h' (ThreadNode t) b"
    "same_but h h' {a, ThreadNode t} {b, ThreadNode t}"
    by (simp add: threadlist_insertafternode_def store_defs)
  then have "chain h' (xs @ a # ThreadNode t # b # ys)"
    by (intro chain_insert [OF assms]) (auto simp: same_but_def)
  with h' show ?thesis by blast
qed

lemma insertbeforenode_spec:
  assumes "chain h (xs @ a # b # ys)" and "ThreadNode t \<notin> set (xs @ a # b # ys)"
  shows "\<exists>h'. threadlist_insertbeforenode h t b = Ok h' \<and> chain h' (xs @ a # ThreadNode t # b # ys)
    \<and> same_but h h' {a, ThreadNode t} {b, ThreadNode t}"
proof -
  have ab: "link h a b" by (rule chain_mid [OF assms(1)])
  have ne: "a \<noteq> ThreadNode t" "b \<noteq> ThreadNode t" using assms(2) by auto
  from ab ne obtain h' where h': "threadlist_insertbeforenode h t b = Ok h'"
    "link h' a (ThreadNode t)" "link h' (ThreadNode t) b"
    "same_but h h' {a, ThreadNode t} {b, ThreadNode t}"
    by (simp add: threadlist_insertbeforenode_def store_defs)
  then have "chain h' (xs @ a # ThreadNode t # b # ys)"
    by (intro chain_insert [OF assms]) (auto simp: same_but_def)
  with h' show ?thesis by blast
qed

lemma removenode_spec:
  assumes "chain h (xs @ a # n # b # ys)"
  shows "\<exists>h'. threadlist_removenode h n = Ok h' \<and> chain h' (xs @ a # b # ys)
    \<and> same_but h h' {a, n} {b, n} \<and> tln_next h' n = None \<and> tln_prev h' n = None"
proof -
  have an: "link h a n" by (rule chain_mid [OF assms])
  have nb: "link h n b" using chain_mid [of h "xs @ [a]"] assms by simp
  have ne: "a \<noteq> n" "b \<noteq> n" "a \<noteq> b" using assms by (auto simp: chain_def)
  from an nb ne obtain h' where h': "threadlist_removenode h n = Ok h'" "link h' a b"
    "same_but h h' {a, n} {b, n}" "tln_next h' n = None" "tln_prev h' n = None"
    by (simp add: threadlist_removenode_def store_defs)
  then have "chain h' (xs @ a # b # ys)"
    by (intro chain_delete [OF assms]) (auto simp: same_but_def)
  with h' show ?thesis by blast
qed

subsection \<open>All the lists of the kernel\<close>

text \<open>
  \<open>Ls\<close> are the initialised lists and \<open>Ts\<close> the initialised threads. \<open>L\<close> gives the sequence of
  threads on each list; a thread is on at most one list, and the node of a thread on none has null
  pointers.
\<close>

definition tl_store :: "listid set \<Rightarrow> nat set \<Rightarrow> tlstore \<Rightarrow> (listid \<Rightarrow> nat list) \<Rightarrow> bool" where
  "tl_store Ls Ts h L \<longleftrightarrow> (\<forall>l \<in> Ls. tl_rep h l (L l) \<and> set (L l) \<subseteq> Ts)
     \<and> (\<forall>l \<in> Ls. \<forall>l' \<in> Ls. l \<noteq> l' \<longrightarrow> set (L l) \<inter> set (L l') = {})
     \<and> (\<forall>t \<in> Ts. tln_self h (ThreadNode t) = Some t)
     \<and> (\<forall>t \<in> Ts. (\<forall>l \<in> Ls. t \<notin> set (L l)) \<longrightarrow>
          tln_prev h (ThreadNode t) = None \<and> tln_next h (ThreadNode t) = None)"

definition off_lists :: "listid set \<Rightarrow> (listid \<Rightarrow> nat list) \<Rightarrow> nat \<Rightarrow> bool" where
  "off_lists Ls L t \<longleftrightarrow> (\<forall>l \<in> Ls. t \<notin> set (L l))"

lemma set_bookended: "set (bookended l ts) = {HeadNode l, TailNode l} \<union> ThreadNode ` set ts"
  by (auto simp: bookended_def)

lemma tl_store_repD: "tl_store Ls Ts h L \<Longrightarrow> l \<in> Ls \<Longrightarrow> tl_rep h l (L l)"
  by (simp add: tl_store_def)

lemma tl_store_subset: "tl_store Ls Ts h L \<Longrightarrow> l \<in> Ls \<Longrightarrow> set (L l) \<subseteq> Ts"
  by (simp add: tl_store_def)

lemma tl_store_disjoint:
  "tl_store Ls Ts h L \<Longrightarrow> l \<in> Ls \<Longrightarrow> l' \<in> Ls \<Longrightarrow> l' \<noteq> l \<Longrightarrow> set (L l) \<inter> set (L l') = {}"
  unfolding tl_store_def by blast

lemma tl_rep_frame:
  assumes "tl_rep h l ts" and "\<And>n. n \<in> set (bookended l ts) \<Longrightarrow>
      tln_next h' n = tln_next h n \<and> tln_prev h' n = tln_prev h n"
    and "tln_self h' = tln_self h" and "tl_count h' l = tl_count h l"
  shows "tl_rep h' l ts"
proof -
  have "chain h' (bookended l ts)"
    using assms(1,2) by (auto simp: tl_rep_def link_def intro: chain_mono)
  moreover have "HeadNode l \<in> set (bookended l ts)" "TailNode l \<in> set (bookended l ts)"
    by (simp_all add: set_bookended)
  ultimately show ?thesis using assms by (simp add: tl_rep_def)
qed

lemma tl_store_update:
  assumes st: "tl_store Ls Ts h L" and l: "l \<in> Ls" and ch: "chain h' (bookended l ts')"
    and ends: "tln_prev h' (HeadNode l) = None" "tln_next h' (TailNode l) = None"
    and self: "tln_self h' = tln_self h"
    and cnt: "tl_count h' = (tl_count h)(l := of_nat (length ts'))" "length ts' < 2 ^ 32"
    and nodes: "\<And>n. n \<notin> set (bookended l (L l)) \<Longrightarrow> n \<notin> set (bookended l ts') \<Longrightarrow>
      tln_next h' n = tln_next h n \<and> tln_prev h' n = tln_prev h n"
    and ts': "set ts' \<subseteq> Ts" "\<forall>l' \<in> Ls. l' \<noteq> l \<longrightarrow> set ts' \<inter> set (L l') = {}"
    and off: "\<And>t. t \<in> set (L l) \<Longrightarrow> t \<notin> set ts' \<Longrightarrow>
      tln_prev h' (ThreadNode t) = None \<and> tln_next h' (ThreadNode t) = None"
  shows "tl_store Ls Ts h' (L(l := ts'))"
proof -
  have rep: "tl_rep h l (L l)" using st l by (simp add: tl_store_def)
  have "tl_rep h' l ts'"
    using ch ends self cnt rep ts'(1) st by (auto simp: tl_rep_def tl_store_def)
  moreover have "tl_rep h' l' (L l')" if "l' \<in> Ls" "l' \<noteq> l" for l'
  proof (rule tl_rep_frame)
    show "tl_rep h l' (L l')" using st that by (simp add: tl_store_def)
    have dis: "set (L l') \<inter> set (L l) = {}" "set (L l') \<inter> set ts' = {}"
      using st ts'(2) l that by (auto simp: tl_store_def)
    show "tln_next h' n = tln_next h n \<and> tln_prev h' n = tln_prev h n"
      if "n \<in> set (bookended l' (L l'))" for n
      using that dis \<open>l' \<noteq> l\<close> by (intro nodes) (auto simp: set_bookended)
  qed (use self cnt that in simp_all)
  moreover have "tln_prev h' (ThreadNode t) = None \<and> tln_next h' (ThreadNode t) = None"
    if "t \<in> Ts" "\<forall>l'\<in>Ls. t \<notin> set ((L(l := ts')) l')" for t
  proof (cases "t \<in> set (L l)")
    case True
    then show ?thesis using off that(2) l by auto
  next
    case False
    then have "t \<notin> set ts'" "\<forall>l'\<in>Ls. t \<notin> set (L l')" using that(2) l by (auto split: if_splits)
    then have "tln_next h' (ThreadNode t) = tln_next h (ThreadNode t)
        \<and> tln_prev h' (ThreadNode t) = tln_prev h (ThreadNode t)"
      using False by (intro nodes) (auto simp: set_bookended)
    with st that(1) \<open>\<forall>l'\<in>Ls. t \<notin> set (L l')\<close> show ?thesis by (simp add: tl_store_def)
  qed
  ultimately show ?thesis
    using st ts' l self unfolding tl_store_def by (auto split: if_splits)
qed

definition before :: "listid \<Rightarrow> nat list \<Rightarrow> tlnode" where
  "before l us = (if us = [] then HeadNode l else ThreadNode (last us))"

definition after :: "listid \<Rightarrow> nat list \<Rightarrow> tlnode" where
  "after l vs = (if vs = [] then TailNode l else ThreadNode (hd vs))"

lemma bookended_split:
  obtains xs ys where "bookended l (us @ vs) = xs @ before l us # after l vs # ys"
    and "\<And>t. bookended l (us @ t # vs) = xs @ before l us # ThreadNode t # after l vs # ys"
proof -
  have "\<exists>xs. HeadNode l # map ThreadNode us = xs @ [before l us]"
    by (cases us rule: rev_cases) (auto simp: before_def)
  moreover have "\<exists>ys. map ThreadNode vs @ [TailNode l] = after l vs # ys"
    by (cases vs) (auto simp: after_def)
  ultimately obtain xs ys where e: "HeadNode l # map ThreadNode us = xs @ [before l us]"
    "map ThreadNode vs @ [TailNode l] = after l vs # ys" by blast
  have "bookended l (us @ vs) = (HeadNode l # map ThreadNode us) @ (map ThreadNode vs @ [TailNode l])"
    "bookended l (us @ t # vs)
      = (HeadNode l # map ThreadNode us) @ ThreadNode t # (map ThreadNode vs @ [TailNode l])" for t
    by (simp_all add: bookended_def)
  then have "bookended l (us @ vs) = xs @ before l us # after l vs # ys"
    "bookended l (us @ t # vs) = xs @ before l us # ThreadNode t # after l vs # ys" for t
    by (simp_all only: e append_assoc append_Cons append_Nil)
  with that show ?thesis by blast
qed

lemma bookend_ends: "before l us \<noteq> TailNode l" "after l vs \<noteq> HeadNode l"
  by (auto simp: before_def after_def)

lemma tl_insert_store:
  assumes st: "tl_store Ls Ts h L" and l: "l \<in> Ls" and t: "t \<in> Ts" "off_lists Ls L t"
    and L: "L l = us @ vs" and len: "Suc (length (L l)) < 2 ^ 32"
    and ch: "chain h' (bookended l (us @ t # vs))"
    and same: "same_but h h' {before l us, ThreadNode t} {after l vs, ThreadNode t}"
  shows "tl_store Ls Ts (count_add l 1 h') (L(l := us @ t # vs))"
proof (rule tl_store_update [OF st l])
  note rep = tl_store_repD [OF st l]
  show "chain (count_add l 1 h') (bookended l (us @ t # vs))"
    using ch by (rule chain_mono) (simp add: link_def count_add_def)
  show "tln_prev (count_add l 1 h') (HeadNode l) = None" "tln_next (count_add l 1 h') (TailNode l) = None"
    using same rep bookend_ends [of l us] bookend_ends(2) [of l vs]
    by (auto simp: same_but_def count_add_def tl_rep_def)
  show "tl_count (count_add l 1 h') = (tl_count h)(l := of_nat (length (us @ t # vs)))"
    using same rep L by (simp add: same_but_def count_add_def tl_rep_def add.commute)
  show "length (us @ t # vs) < 2 ^ 32" using len L by simp
  have mem: "before l us \<in> set (bookended l (L l))" "after l vs \<in> set (bookended l (L l))"
    unfolding L by (auto simp: before_def after_def set_bookended)
  show "tln_next (count_add l 1 h') n = tln_next h n \<and> tln_prev (count_add l 1 h') n = tln_prev h n"
    if "n \<notin> set (bookended l (L l))" "n \<notin> set (bookended l (us @ t # vs))" for n
  proof -
    have "n \<noteq> before l us" "n \<noteq> after l vs" using that mem by auto
    moreover have "n \<noteq> ThreadNode t" using that(2) by (auto simp: set_bookended)
    ultimately show ?thesis using same by (simp add: same_but_def count_add_def)
  qed
  show "set (us @ t # vs) \<subseteq> Ts" using tl_store_subset [OF st l] L t by auto
  show "\<forall>l' \<in> Ls. l' \<noteq> l \<longrightarrow> set (us @ t # vs) \<inter> set (L l') = {}"
    using tl_store_disjoint [OF st l] L t(2) by (auto simp: off_lists_def)
qed (use same L in \<open>auto simp: same_but_def count_add_def\<close>)

lemma tl_delete_store:
  assumes st: "tl_store Ls Ts h L" and l: "l \<in> Ls" and L: "L l = us @ t # vs"
    and ch: "chain h' (bookended l (us @ vs))"
    and same: "same_but h h' {before l us, ThreadNode t} {after l vs, ThreadNode t}"
    and gone: "tln_next h' (ThreadNode t) = None" "tln_prev h' (ThreadNode t) = None"
  shows "tl_store Ls Ts (count_add l (- 1) h') (L(l := us @ vs))"
proof (rule tl_store_update [OF st l])
  note rep = tl_store_repD [OF st l]
  show "chain (count_add l (- 1) h') (bookended l (us @ vs))"
    using ch by (rule chain_mono) (simp add: link_def count_add_def)
  show "tln_prev (count_add l (- 1) h') (HeadNode l) = None"
    "tln_next (count_add l (- 1) h') (TailNode l) = None"
    using same rep bookend_ends [of l us] bookend_ends(2) [of l vs]
    by (auto simp: same_but_def count_add_def tl_rep_def)
  show "tl_count (count_add l (- 1) h') = (tl_count h)(l := of_nat (length (us @ vs)))"
    using same rep L by (simp add: same_but_def count_add_def tl_rep_def)
  show "length (us @ vs) < 2 ^ 32" using rep L by (simp add: tl_rep_def)
  have mem: "before l us \<in> set (bookended l (L l))" "after l vs \<in> set (bookended l (L l))"
    "ThreadNode t \<in> set (bookended l (L l))"
    unfolding L by (auto simp: before_def after_def set_bookended)
  show "tln_next (count_add l (- 1) h') n = tln_next h n \<and> tln_prev (count_add l (- 1) h') n = tln_prev h n"
    if "n \<notin> set (bookended l (L l))" "n \<notin> set (bookended l (us @ vs))" for n
  proof -
    have "n \<noteq> before l us" "n \<noteq> after l vs" "n \<noteq> ThreadNode t" using that(1) mem by auto
    then show ?thesis using same by (simp add: same_but_def count_add_def)
  qed
  show "set (us @ vs) \<subseteq> Ts" using tl_store_subset [OF st l] L by auto
  show "\<forall>l' \<in> Ls. l' \<noteq> l \<longrightarrow> set (us @ vs) \<inter> set (L l') = {}"
    using tl_store_disjoint [OF st l] L by auto
qed (use same L gone in \<open>auto simp: same_but_def count_add_def\<close>)

subsection \<open>Every operation on the sequences\<close>

lemma tl_insert_after_before:
  assumes st: "tl_store Ls Ts h L" "l \<in> Ls" "t \<in> Ts" "off_lists Ls L t" "L l = us @ vs"
    "Suc (length (L l)) < 2 ^ 32"
  shows "\<exists>h'. bindR (threadlist_insertafternode h (before l us) t) (\<lambda>h. Ok (count_add l 1 h)) = Ok h'
      \<and> tl_store Ls Ts h' (L(l := us @ t # vs))"
    and "\<exists>h'. bindR (threadlist_insertbeforenode h t (after l vs)) (\<lambda>h. Ok (count_add l 1 h)) = Ok h'
      \<and> tl_store Ls Ts h' (L(l := us @ t # vs))"
proof -
  obtain xs ys where b: "bookended l (us @ vs) = xs @ before l us # after l vs # ys"
    "\<And>t. bookended l (us @ t # vs) = xs @ before l us # ThreadNode t # after l vs # ys"
    by (rule bookended_split [of l us vs]) blast
  have ch: "chain h (xs @ before l us # after l vs # ys)"
    using tl_store_repD [OF st(1,2)] st(5) b(1) by (simp add: tl_rep_def)
  have new: "ThreadNode t \<notin> set (xs @ before l us # after l vs # ys)"
    using st(2,4,5) unfolding b(1) [symmetric] by (auto simp: set_bookended off_lists_def)
  from insertafternode_spec [OF ch new] tl_insert_store [OF st]
  show "\<exists>h'. bindR (threadlist_insertafternode h (before l us) t) (\<lambda>h. Ok (count_add l 1 h)) = Ok h'
      \<and> tl_store Ls Ts h' (L(l := us @ t # vs))" unfolding b(2) by auto
  from insertbeforenode_spec [OF ch new] tl_insert_store [OF st]
  show "\<exists>h'. bindR (threadlist_insertbeforenode h t (after l vs)) (\<lambda>h. Ok (count_add l 1 h)) = Ok h'
      \<and> tl_store Ls Ts h' (L(l := us @ t # vs))" unfolding b(2) by auto
qed

lemma tl_remove_node:
  assumes st: "tl_store Ls Ts h L" "l \<in> Ls" "L l = us @ t # vs"
  shows "\<exists>h'. threadlist_removenode h (ThreadNode t) = Ok h' \<and> tln_self h' = tln_self h
    \<and> tl_store Ls Ts (count_add l (- 1) h') (L(l := us @ vs))"
proof -
  obtain xs ys where b: "bookended l (us @ vs) = xs @ before l us # after l vs # ys"
    "\<And>t. bookended l (us @ t # vs) = xs @ before l us # ThreadNode t # after l vs # ys"
    by (rule bookended_split [of l us vs]) blast
  have "chain h (xs @ before l us # ThreadNode t # after l vs # ys)"
    using tl_store_repD [OF st(1,2)] st(3) b(2) by (simp add: tl_rep_def)
  from removenode_spec [OF this] obtain h' where
    h': "threadlist_removenode h (ThreadNode t) = Ok h'" "chain h' (bookended l (us @ vs))"
      "same_but h h' {before l us, ThreadNode t} {after l vs, ThreadNode t}"
      "tln_next h' (ThreadNode t) = None" "tln_prev h' (ThreadNode t) = None"
    unfolding b(1) by blast
  from tl_delete_store [OF st h'(2-5)] h'(1,3) show ?thesis by (auto simp: same_but_def)
qed

lemma tl_first:
  assumes "tl_store Ls Ts h L" and "l \<in> Ls"
  shows "tln_next h (HeadNode l) = Some (after l (L l))"
    and "tln_prev h (TailNode l) = Some (before l (L l))"
proof -
  have ch: "chain h (bookended l (L l))" and ends: "tln_next h (TailNode l) = None"
    using tl_store_repD [OF assms] by (auto simp: tl_rep_def)
  show "tln_next h (HeadNode l) = Some (after l (L l))"
    using ch by (cases "L l") (auto simp: bookended_def after_def chain_def link_def)
  show "tln_prev h (TailNode l) = Some (before l (L l))"
    using ch by (cases "L l" rule: rev_cases)
      (auto simp: bookended_def before_def chain_def link_def successively_append_iff successively_Cons)
qed

lemma tl_inner:
  assumes "tl_store Ls Ts h L" and "l \<in> Ls" and "t \<in> set (L l)"
  shows "tln_next h (ThreadNode t) \<noteq> None" "tln_prev h (ThreadNode t) \<noteq> None"
    "tln_self h (ThreadNode t) = Some t"
proof -
  from assms(3) obtain us vs where L: "L l = us @ t # vs" by (meson split_list)
  obtain xs ys where b: "bookended l (us @ t # vs) = xs @ before l us # ThreadNode t # after l vs # ys"
    by (rule bookended_split [of l us vs]) blast
  have ch: "chain h (xs @ before l us # ThreadNode t # after l vs # ys)"
    using tl_store_repD [OF assms(1,2)] L b by (simp add: tl_rep_def)
  from chain_mid [OF ch] show "tln_prev h (ThreadNode t) \<noteq> None" by (simp add: link_def)
  from chain_mid [of h "xs @ [before l us]"] ch show "tln_next h (ThreadNode t) \<noteq> None"
    by (simp add: link_def)
  show "tln_self h (ThreadNode t) = Some t"
    using tl_store_repD [OF assms(1,2)] assms(3) by (simp add: tl_rep_def)
qed

lemma threadlist_addtail_spec:
  assumes "tl_store Ls Ts h L" "l \<in> Ls" "t \<in> Ts" "off_lists Ls L t" "Suc (length (L l)) < 2 ^ 32"
  shows "\<exists>h'. threadlist_addtail h l t = Ok h' \<and> tl_store Ls Ts h' (L(l := L l @ [t]))"
  using tl_insert_after_before(2) [OF assms(1-4), of "L l" "[]"] assms(5)
  by (simp add: threadlist_addtail_def after_def)

lemma threadlist_addhead_spec:
  assumes "tl_store Ls Ts h L" "l \<in> Ls" "t \<in> Ts" "off_lists Ls L t" "Suc (length (L l)) < 2 ^ 32"
  shows "\<exists>h'. threadlist_addhead h l t = Ok h' \<and> tl_store Ls Ts h' (L(l := t # L l))"
  using tl_insert_after_before(1) [OF assms(1-4), of "[]" "L l"] assms(5)
  by (simp add: threadlist_addhead_def before_def)

lemma threadlist_insertafter_spec:
  assumes "tl_store Ls Ts h L" "l \<in> Ls" "t \<in> Ts" "off_lists Ls L t" "Suc (length (L l)) < 2 ^ 32"
    and "L l = us @ x # vs"
  shows "\<exists>h'. threadlist_insertafter h l x t = Ok h' \<and> tl_store Ls Ts h' (L(l := us @ x # t # vs))"
  using tl_insert_after_before(1) [OF assms(1-4), of "us @ [x]" vs] assms(5,6)
  by (simp add: threadlist_insertafter_def before_def)

lemma threadlist_insertbefore_spec:
  assumes "tl_store Ls Ts h L" "l \<in> Ls" "t \<in> Ts" "off_lists Ls L t" "Suc (length (L l)) < 2 ^ 32"
    and "L l = us @ x # vs"
  shows "\<exists>h'. threadlist_insertbefore h l t x = Ok h' \<and> tl_store Ls Ts h' (L(l := us @ t # x # vs))"
  using tl_insert_after_before(2) [OF assms(1-4), of us "x # vs"] assms(5,6)
  by (simp add: threadlist_insertbefore_def after_def)

lemma threadlist_remove_spec:
  assumes "tl_store Ls Ts h L" "l \<in> Ls" "L l = us @ t # vs"
  shows "\<exists>h'. threadlist_remove h l t = Ok h' \<and> tl_store Ls Ts h' (L(l := us @ vs))"
  using tl_remove_node [OF assms] by (auto simp: threadlist_remove_def)

lemma threadlist_remhead_spec:
  assumes "tl_store Ls Ts h L" "l \<in> Ls"
  shows "L l = [] \<Longrightarrow> threadlist_remhead h l = Ok (None, h)"
    and "L l = t # ts \<Longrightarrow> \<exists>h'. threadlist_remhead h l = Ok (Some t, h') \<and> tl_store Ls Ts h' (L(l := ts))"
proof -
  show "threadlist_remhead h l = Ok (None, h)" if "L l = []"
    using that tl_first(1) [OF assms] tl_store_repD [OF assms]
    by (simp add: threadlist_remhead_def deref_def after_def tl_rep_def)
  assume L: "L l = t # ts"
  from tl_remove_node [OF assms, of "[]" t ts] L obtain h' where
    "threadlist_removenode h (ThreadNode t) = Ok h'" "tln_self h' = tln_self h"
    "tl_store Ls Ts (count_add l (- 1) h') (L(l := ts))" by auto
  then show "\<exists>h'. threadlist_remhead h l = Ok (Some t, h') \<and> tl_store Ls Ts h' (L(l := ts))"
    using L tl_first(1) [OF assms] tl_inner [OF assms, of t]
    by (simp add: threadlist_remhead_def deref_def after_def)
qed

lemma threadlist_remtail_spec:
  assumes "tl_store Ls Ts h L" "l \<in> Ls"
  shows "L l = [] \<Longrightarrow> threadlist_remtail h l = Ok (None, h)"
    and "L l = ts @ [t] \<Longrightarrow> \<exists>h'. threadlist_remtail h l = Ok (Some t, h') \<and> tl_store Ls Ts h' (L(l := ts))"
proof -
  show "threadlist_remtail h l = Ok (None, h)" if "L l = []"
    using that tl_first(2) [OF assms] tl_store_repD [OF assms]
    by (simp add: threadlist_remtail_def deref_def before_def tl_rep_def)
  assume L: "L l = ts @ [t]"
  from tl_remove_node [OF assms, of ts t "[]"] L obtain h' where
    "threadlist_removenode h (ThreadNode t) = Ok h'" "tln_self h' = tln_self h"
    "tl_store Ls Ts (count_add l (- 1) h') (L(l := ts))" by auto
  then show "\<exists>h'. threadlist_remtail h l = Ok (Some t, h') \<and> tl_store Ls Ts h' (L(l := ts))"
    using L tl_first(2) [OF assms] tl_inner [OF assms, of t]
    by (simp add: threadlist_remtail_def deref_def before_def)
qed

lemma threadlist_isempty_spec:
  assumes "tl_store Ls Ts h L" "l \<in> Ls"
  shows "threadlist_isempty h l \<longleftrightarrow> L l = []"
proof -
  have "tl_count h l = of_nat (length (L l))" "length (L l) < 2 ^ LENGTH(32)"
    using tl_store_repD [OF assms] by (auto simp: tl_rep_def)
  then have "unat (tl_count h l) = length (L l)" by (simp only: unat_of_nat_small)
  then show ?thesis by (simp add: threadlist_isempty_def word_unat_eq_iff)
qed

lemma threadlist_init_spec:
  assumes st: "tl_store Ls Ts h L" and l: "l \<notin> Ls"
  shows "tl_store (insert l Ls) Ts (threadlist_init h l) (L(l := []))"
proof -
  let ?h = "threadlist_init h l"
  have nodes: "tln_next ?h n = tln_next h n" "tln_prev ?h n = tln_prev h n" "tln_self ?h n = tln_self h n"
    if "n \<noteq> HeadNode l" "n \<noteq> TailNode l" for n
    using that by (simp_all add: threadlist_init_def store_defs)
  have new: "tl_rep ?h l []"
    by (simp add: threadlist_init_def store_defs tl_rep_def chain_def bookended_def)
  have old: "tl_rep ?h l' (L l')" if "l' \<in> Ls" for l'
  proof -
    have ne: "l' \<noteq> l" using that l by blast
    have eq: "tln_next ?h n = tln_next h n \<and> tln_prev ?h n = tln_prev h n"
      if "n \<in> set (bookended l' (L l'))" for n using that ne nodes by (auto simp: set_bookended)
    have "chain ?h (bookended l' (L l'))"
      using tl_store_repD [OF st that] eq by (auto simp: tl_rep_def link_def intro: chain_mono)
    moreover have "tl_count ?h l' = tl_count h l'" using ne by (simp add: threadlist_init_def store_defs)
    ultimately show ?thesis using tl_store_repD [OF st that] ne by (simp add: tl_rep_def nodes)
  qed
  show ?thesis
    using st l new old unfolding tl_store_def by (auto simp: nodes)
qed

lemma threadlistnode_init_spec:
  assumes st: "tl_store Ls Ts h L" and t: "t \<notin> Ts"
  shows "tl_store Ls (insert t Ts) (threadlistnode_init h t) L"
proof -
  let ?h = "threadlistnode_init h t"
  have nodes: "tln_next ?h n = tln_next h n" "tln_prev ?h n = tln_prev h n" "tln_self ?h n = tln_self h n"
    if "n \<noteq> ThreadNode t" for n
    using that by (simp_all add: threadlistnode_init_def store_defs)
  have own: "tln_next ?h (ThreadNode t) = None" "tln_prev ?h (ThreadNode t) = None"
    "tln_self ?h (ThreadNode t) = Some t" "tl_count ?h = tl_count h"
    by (simp_all add: threadlistnode_init_def store_defs)
  have "tl_rep ?h l (L l)" if "l \<in> Ls" for l
  proof -
    have "t \<notin> set (L l)" using tl_store_subset [OF st that] t by blast
    then have eq: "tln_next ?h n = tln_next h n \<and> tln_prev ?h n = tln_prev h n \<and> tln_self ?h n = tln_self h n"
      if "n \<in> set (bookended l (L l))" for n
    proof -
      have "n \<noteq> ThreadNode t" using that \<open>t \<notin> set (L l)\<close> by (auto simp: set_bookended)
      then show ?thesis by (simp add: nodes)
    qed
    then have "chain ?h (bookended l (L l))"
      using tl_store_repD [OF st that] by (auto simp: tl_rep_def link_def intro: chain_mono)
    moreover have "tln_self ?h (ThreadNode x) = Some x" if "x \<in> set (L l)" for x
      using that tl_store_repD [OF st \<open>l \<in> Ls\<close>] eq [of "ThreadNode x"]
      by (simp add: tl_rep_def set_bookended)
    ultimately show ?thesis using tl_store_repD [OF st that] own(4) by (simp add: tl_rep_def nodes)
  qed
  then show ?thesis using st t own unfolding tl_store_def
    by (auto simp: nodes) (metis nodes tlnode.inject(3))+
qed

text \<open>
  The loop header of \<open>THREADLIST_FORALL\<close> runs off every list: past the last thread it reads the
  \<open>tln_self\<close> of the tail bookend, which is null, and then dereferences it.
\<close>

lemma forall_from_wild:
  assumes "tl_store Ls Ts h L" and "l \<in> Ls"
  shows "L l = us @ vs \<Longrightarrow> length vs < n \<Longrightarrow> forall_from h n (tln_self h (after l vs)) = Halt Wild"
proof (induction vs arbitrary: us n)
  case Nil
  then show ?case using tl_store_repD [OF assms] by (cases n) (auto simp: after_def tl_rep_def)
next
  case (Cons t vs)
  then obtain m where n: "n = Suc m" by (cases n) auto
  have t: "tln_self h (ThreadNode t) = Some t" using tl_inner(3) [OF assms, of t] Cons.prems by simp
  obtain xs ys where b: "bookended l (us @ t # vs) = xs @ before l us # ThreadNode t # after l vs # ys"
    by (rule bookended_split [of l us vs]) blast
  have "chain h (xs @ before l us # ThreadNode t # after l vs # ys)"
    using tl_store_repD [OF assms] Cons.prems(1) b by (simp add: tl_rep_def)
  then have "tln_next h (ThreadNode t) = Some (after l vs)"
    using chain_mid [of h "xs @ [before l us]"] by (simp add: link_def)
  moreover have "forall_from h m (tln_self h (after l vs)) = Halt Wild"
    using Cons.prems n by (intro Cons.IH [of "us @ [t]"]) auto
  ultimately show ?case using t n by (simp add: after_def)
qed

lemma threadlist_forall_wild:
  assumes "tl_store Ls Ts h L" and "l \<in> Ls" and "length (L l) < n"
  shows "threadlist_forall h n l = Halt Wild"
  using forall_from_wild [OF assms(1,2), of "[]" "L l"] tl_first(1) [OF assms(1,2)] assms(3)
  by (simp add: threadlist_forall_def deref_def)

subsection \<open>The contract of the thread lists\<close>

text \<open>
  The loop \<open>while ((t = remhead(a)) != NULL) addtail(b, t)\<close> of \<open>wchan_wakeall\<close> and
  \<open>thread_consider_migration\<close>, with at most \<open>n\<close> rounds.
\<close>

fun move_all :: "('h \<Rightarrow> listid \<Rightarrow> (nat option \<times> 'h) run) \<Rightarrow> ('h \<Rightarrow> listid \<Rightarrow> nat \<Rightarrow> 'h run) \<Rightarrow> nat \<Rightarrow> 'h
    \<Rightarrow> listid \<Rightarrow> listid \<Rightarrow> 'h run" where
  "move_all remhead addtail 0 h a b = Halt Spinning"
| "move_all remhead addtail (Suc n) h a b =
     bindR (remhead h a) (\<lambda>(r, h'). case r of
         None \<Rightarrow> Ok h'
       | Some t \<Rightarrow> bindR (addtail h' b t) (\<lambda>h''. move_all remhead addtail n h'' a b))"

locale thread_lists =
  fixes inv :: "listid set \<Rightarrow> nat set \<Rightarrow> 'h \<Rightarrow> (listid \<Rightarrow> nat list) \<Rightarrow> bool"
    and remhead remtail :: "'h \<Rightarrow> listid \<Rightarrow> (nat option \<times> 'h) run"
    and addhead addtail :: "'h \<Rightarrow> listid \<Rightarrow> nat \<Rightarrow> 'h run"
    and isempty :: "'h \<Rightarrow> listid \<Rightarrow> bool"
  assumes dist: "inv Ls Ts h L \<Longrightarrow> l \<in> Ls \<Longrightarrow> distinct (L l) \<and> set (L l) \<subseteq> Ts"
    and disj: "inv Ls Ts h L \<Longrightarrow> l \<in> Ls \<Longrightarrow> l' \<in> Ls \<Longrightarrow> l' \<noteq> l \<Longrightarrow> set (L l) \<inter> set (L l') = {}"
    and addtail_seq: "\<lbrakk>inv Ls Ts h L; l \<in> Ls; t \<in> Ts; off_lists Ls L t; Suc (length (L l)) < 2 ^ 32\<rbrakk> \<Longrightarrow>
      \<exists>h'. addtail h l t = Ok h' \<and> inv Ls Ts h' (L(l := L l @ [t]))"
    and addhead_seq: "\<lbrakk>inv Ls Ts h L; l \<in> Ls; t \<in> Ts; off_lists Ls L t; Suc (length (L l)) < 2 ^ 32\<rbrakk> \<Longrightarrow>
      \<exists>h'. addhead h l t = Ok h' \<and> inv Ls Ts h' (L(l := t # L l))"
    and remhead_nil: "inv Ls Ts h L \<Longrightarrow> l \<in> Ls \<Longrightarrow> L l = [] \<Longrightarrow> remhead h l = Ok (None, h)"
    and remhead_cons: "inv Ls Ts h L \<Longrightarrow> l \<in> Ls \<Longrightarrow> L l = t # ts \<Longrightarrow>
      \<exists>h'. remhead h l = Ok (Some t, h') \<and> inv Ls Ts h' (L(l := ts))"
    and remtail_nil: "inv Ls Ts h L \<Longrightarrow> l \<in> Ls \<Longrightarrow> L l = [] \<Longrightarrow> remtail h l = Ok (None, h)"
    and remtail_snoc: "inv Ls Ts h L \<Longrightarrow> l \<in> Ls \<Longrightarrow> L l = ts @ [t] \<Longrightarrow>
      \<exists>h'. remtail h l = Ok (Some t, h') \<and> inv Ls Ts h' (L(l := ts))"
    and isempty_seq: "inv Ls Ts h L \<Longrightarrow> l \<in> Ls \<Longrightarrow> isempty h l \<longleftrightarrow> L l = []"
begin

lemma off_after_rem:
  assumes "inv Ls Ts h L" and "l \<in> Ls" and "L l = t # ts"
  shows "off_lists Ls (L(l := ts)) t" "t \<in> Ts"
  using dist [OF assms(1,2)] disj [OF assms(1,2)] assms(3) by (fastforce simp: off_lists_def)+

lemma move_all_seq:
  "\<lbrakk>inv Ls Ts h L; a \<in> Ls; b \<in> Ls; a \<noteq> b; length (L a) < n; length (L a) + length (L b) < 2 ^ 32\<rbrakk> \<Longrightarrow>
    \<exists>h'. move_all remhead addtail n h a b = Ok h' \<and> inv Ls Ts h' (L(a := [], b := L b @ L a))"
proof (induction n arbitrary: h L)
  case (Suc n)
  show ?case
  proof (cases "L a")
    case Nil
    then have eq: "L(a := [], b := L b @ L a) = L" by auto
    show ?thesis unfolding eq using remhead_nil [OF Suc.prems(1,2) Nil] Suc.prems(1) by simp
  next
    case (Cons t ts)
    from remhead_cons [OF Suc.prems(1,2) Cons] obtain h1 where
      h1: "remhead h a = Ok (Some t, h1)" "inv Ls Ts h1 (L(a := ts))" by blast
    note off = off_after_rem [OF Suc.prems(1,2) Cons]
    have b: "(L(a := ts)) b = L b" using Suc.prems(4) by simp
    then have "Suc (length ((L(a := ts)) b)) < 2 ^ 32" using Suc.prems(6) Cons by simp
    from addtail_seq [OF h1(2) Suc.prems(3) off(2,1) this] obtain h2 where
      h2: "addtail h1 b t = Ok h2" "inv Ls Ts h2 (L(a := ts, b := L b @ [t]))"
      unfolding b by blast
    let ?M = "L(a := ts, b := L b @ [t])"
    have len: "length (?M a) < n" "length (?M a) + length (?M b) < 2 ^ 32"
      using Suc.prems(4-6) Cons by simp_all
    have eq: "?M(a := [], b := ?M b @ ?M a) = L(a := [], b := L b @ L a)"
      using Cons Suc.prems(4) by auto
    from Suc.IH [OF h2(2) Suc.prems(2-4) len] have "\<exists>h'. move_all remhead addtail n h2 a b = Ok h'
        \<and> inv Ls Ts h' (L(a := [], b := L b @ L a))" unfolding eq .
    moreover have "move_all remhead addtail (Suc n) h a b = move_all remhead addtail n h2 a b"
      using h1(1) h2(1) by simp
    ultimately show ?thesis by (simp only:)
  qed
qed simp

end

interpretation tls: thread_lists tl_store threadlist_remhead threadlist_remtail threadlist_addhead
  threadlist_addtail threadlist_isempty
proof
  show "distinct (L l) \<and> set (L l) \<subseteq> Ts" if "tl_store Ls Ts h L" "l \<in> Ls" for Ls Ts h L l
    using tl_store_repD [OF that] tl_store_subset [OF that]
    by (auto simp: tl_rep_def chain_def bookended_def distinct_map)
qed (rule tl_store_disjoint threadlist_addtail_spec threadlist_addhead_spec threadlist_remhead_spec
      threadlist_remtail_spec threadlist_isempty_spec; assumption)+

text \<open>
  C9: the pointer operations on thread lists implement operations on sequences. Whatever the
  lists, inserting a thread that is on none of them at either end or next to a member, and
  removing a member or an end, changes exactly that list's sequence, keeps every other list, and
  leaves a removed thread's node with null pointers; the count is the length.
\<close>

theorem threadlist_refines_sequences:
  assumes st: "tl_store Ls Ts h L" and l: "l \<in> Ls" and t: "t \<in> Ts" "off_lists Ls L t"
    and len: "Suc (length (L l)) < 2 ^ 32"
  shows "(\<exists>h'. threadlist_addhead h l t = Ok h' \<and> tl_store Ls Ts h' (L(l := t # L l)))
    \<and> (\<exists>h'. threadlist_addtail h l t = Ok h' \<and> tl_store Ls Ts h' (L(l := L l @ [t])))
    \<and> (\<forall>us x vs. L l = us @ x # vs \<longrightarrow>
        (\<exists>h'. threadlist_insertafter h l x t = Ok h' \<and> tl_store Ls Ts h' (L(l := us @ x # t # vs)))
        \<and> (\<exists>h'. threadlist_insertbefore h l t x = Ok h' \<and> tl_store Ls Ts h' (L(l := us @ t # x # vs)))
        \<and> (\<exists>h'. threadlist_remove h l x = Ok h' \<and> tl_store Ls Ts h' (L(l := us @ vs))
            \<and> threadlistnode_cleanup h' x = Ok ()))
    \<and> (L l = [] \<longrightarrow> threadlist_remhead h l = Ok (None, h) \<and> threadlist_remtail h l = Ok (None, h)
        \<and> threadlist_cleanup h l = Ok ())
    \<and> (L l \<noteq> [] \<longrightarrow> threadlist_cleanup h l = Halt Assertion
        \<and> (\<exists>h'. threadlist_remhead h l = Ok (Some (hd (L l)), h') \<and> tl_store Ls Ts h' (L(l := tl (L l))))
        \<and> (\<exists>h'. threadlist_remtail h l = Ok (Some (last (L l)), h') \<and> tl_store Ls Ts h' (L(l := butlast (L l)))))"
proof (intro conjI allI impI)
  show "\<exists>h'. threadlist_addhead h l t = Ok h' \<and> tl_store Ls Ts h' (L(l := t # L l))"
    by (rule threadlist_addhead_spec [OF st l t len])
  show "\<exists>h'. threadlist_addtail h l t = Ok h' \<and> tl_store Ls Ts h' (L(l := L l @ [t]))"
    by (rule threadlist_addtail_spec [OF st l t len])
  fix us x vs assume L: "L l = us @ x # vs"
  show "\<exists>h'. threadlist_insertafter h l x t = Ok h' \<and> tl_store Ls Ts h' (L(l := us @ x # t # vs))"
    by (rule threadlist_insertafter_spec [OF st l t len L])
  show "\<exists>h'. threadlist_insertbefore h l t x = Ok h' \<and> tl_store Ls Ts h' (L(l := us @ t # x # vs))"
    by (rule threadlist_insertbefore_spec [OF st l t len L])
  from threadlist_remove_spec [OF st l L] obtain h' where
    h': "threadlist_remove h l x = Ok h'" "tl_store Ls Ts h' (L(l := us @ vs))" by blast
  have x: "x \<in> Ts" using tl_store_subset [OF st l] L by auto
  moreover have "off_lists Ls (L(l := us @ vs)) x"
    using tls.dist [OF st l] tl_store_disjoint [OF st l] L by (auto simp: off_lists_def)
  ultimately have "threadlistnode_cleanup h' x = Ok ()"
    using h'(2) by (auto simp: tl_store_def off_lists_def threadlistnode_cleanup_def kassert_def)
  with h' show "\<exists>h'. threadlist_remove h l x = Ok h' \<and> tl_store Ls Ts h' (L(l := us @ vs))
      \<and> threadlistnode_cleanup h' x = Ok ()" by blast
next
  assume L: "L l = []"
  show "threadlist_remhead h l = Ok (None, h)" "threadlist_remtail h l = Ok (None, h)"
    using threadlist_remhead_spec(1) [OF st l L] threadlist_remtail_spec(1) [OF st l L] by simp_all
  show "threadlist_cleanup h l = Ok ()"
    using threadlist_isempty_spec [OF st l] L by (simp add: threadlist_cleanup_def threadlist_isempty_def)
next
  assume L: "L l \<noteq> []"
  then show "threadlist_cleanup h l = Halt Assertion"
    using threadlist_isempty_spec [OF st l] by (simp add: threadlist_cleanup_def)
  show "\<exists>h'. threadlist_remhead h l = Ok (Some (hd (L l)), h') \<and> tl_store Ls Ts h' (L(l := tl (L l)))"
    using L by (intro threadlist_remhead_spec(2) [OF st l]) simp
  show "\<exists>h'. threadlist_remtail h l = Ok (Some (last (L l)), h') \<and> tl_store Ls Ts h' (L(l := butlast (L l)))"
    using L by (intro threadlist_remtail_spec(2) [OF st l]) simp
qed

definition boot_store :: tlstore where
  "boot_store = threadlist_init (threadlistnode_init (threadlistnode_init
     \<lparr>tln_prev = \<lambda>_. None, tln_next = \<lambda>_. None, tln_self = \<lambda>_. None, tl_count = \<lambda>_. 0\<rparr> 1) 2) (RunQueue 0)"

lemma boot_store_inv: "tl_store {RunQueue 0} {1, 2} boot_store ((\<lambda>_. [])(RunQueue 0 := []))"
proof -
  have "tl_store {} {} \<lparr>tln_prev = \<lambda>_. None, tln_next = \<lambda>_. None, tln_self = \<lambda>_. None, tl_count = \<lambda>_. 0\<rparr> (\<lambda>_. [])"
    by (simp add: tl_store_def)
  from threadlistnode_init_spec [OF this, of 1] have one:
    "tl_store {} {1} (threadlistnode_init \<lparr>tln_prev = \<lambda>_. None, tln_next = \<lambda>_. None, tln_self = \<lambda>_. None,
      tl_count = \<lambda>_. 0\<rparr> 1) (\<lambda>_. [])" by simp
  from threadlistnode_init_spec [OF one, of 2] have
    "tl_store {} {2, 1} (threadlistnode_init (threadlistnode_init \<lparr>tln_prev = \<lambda>_. None, tln_next = \<lambda>_. None,
      tln_self = \<lambda>_. None, tl_count = \<lambda>_. 0\<rparr> 1) 2) (\<lambda>_. [])" by simp
  from threadlist_init_spec [OF this, of "RunQueue 0"] show ?thesis
    unfolding boot_store_def by (simp only: insert_commute) simp
qed

theorem threadlist_refines_sequences_witness:
  "\<exists>h'. threadlist_addtail boot_store (RunQueue 0) 1 = Ok h' \<and> tl_store {RunQueue 0} {1, 2} h' ((\<lambda>_. [])(RunQueue 0 := [1]))
     \<and> threadlist_remhead boot_store (RunQueue 0) = Ok (None, boot_store)"
  using threadlist_refines_sequences [OF boot_store_inv, of "RunQueue 0" 1] by (simp add: off_lists_def)

end
