(* ===== verification/Sched.thy ===== *)
theory Sched
  imports Threadlist Spinlock
begin

text \<open>
  Threads, processors and wait channels (\<^verbatim>\<open>kern/thread/thread.c\<close>). Every routine is executed from the
  point where it takes its spinlocks to the point where it releases them, on the thread-list store
  of \<open>Threadlist\<close> and the locks of \<open>Spinlock\<close>; a processor with an empty run queue stays in the
  idle loop until an event finds it a thread. The machine context of a thread and the interrupt
  levels are not part of this state.
\<close>

subsection \<open>State\<close>

datatype tstate = S_RUN | S_READY | S_SLEEP | S_ZOMBIE

text \<open>\<open>t_stack\<close> is the words of the kernel stack, \<open>None\<close> for the boot thread's null pointer.\<close>

record thread =
  t_state :: tstate
  t_stack :: "u32 list option"
  t_cpu :: nat
  t_proc :: "nat option"
  t_in_interrupt :: bool

type_synonym shootdown = "nat \<times> vaddr"

record cpu =
  c_curthread :: nat
  c_isidle :: bool
  c_ipi_pending :: u32
  c_shootdown :: "shootdown list"
  c_numshootdown :: int

record sched =
  thr :: "nat \<Rightarrow> thread"
  cpus :: "nat \<Rightarrow> cpu"
  lists :: tlstore
  rq_lock :: "nat \<Rightarrow> spinlock"
  wc_lock :: "nat \<Rightarrow> spinlock"
  ipi_lock :: "nat \<Rightarrow> spinlock"

definition set_thread :: "nat \<Rightarrow> (thread \<Rightarrow> thread) \<Rightarrow> sched \<Rightarrow> sched" where
  "set_thread t f s = s\<lparr>thr := (thr s)(t := f (thr s t))\<rparr>"

definition set_cpu :: "nat \<Rightarrow> (cpu \<Rightarrow> cpu) \<Rightarrow> sched \<Rightarrow> sched" where
  "set_cpu c f s = s\<lparr>cpus := (cpus s)(c := f (cpus s c))\<rparr>"

definition acquire_rq :: "nat \<Rightarrow> nat \<Rightarrow> sched \<Rightarrow> sched run" where
  "acquire_rq me c s =
     bindR (spinlock_acquire me (rq_lock s c)) (\<lambda>lk. Ok (s\<lparr>rq_lock := (rq_lock s)(c := lk)\<rparr>))"

definition release_rq :: "nat \<Rightarrow> nat \<Rightarrow> sched \<Rightarrow> sched run" where
  "release_rq me c s =
     bindR (spinlock_release me (rq_lock s c)) (\<lambda>lk. Ok (s\<lparr>rq_lock := (rq_lock s)(c := lk)\<rparr>))"

definition acquire_ipi :: "nat \<Rightarrow> nat \<Rightarrow> sched \<Rightarrow> sched run" where
  "acquire_ipi me c s =
     bindR (spinlock_acquire me (ipi_lock s c)) (\<lambda>lk. Ok (s\<lparr>ipi_lock := (ipi_lock s)(c := lk)\<rparr>))"

definition release_ipi :: "nat \<Rightarrow> nat \<Rightarrow> sched \<Rightarrow> sched run" where
  "release_ipi me c s =
     bindR (spinlock_release me (ipi_lock s c)) (\<lambda>lk. Ok (s\<lparr>ipi_lock := (ipi_lock s)(c := lk)\<rparr>))"

subsection \<open>Interprocessor interrupts\<close>

definition IPI_PANIC :: int where "IPI_PANIC = 0"
definition IPI_OFFLINE :: int where "IPI_OFFLINE = 1"
definition IPI_UNIDLE :: int where "IPI_UNIDLE = 2"
definition IPI_TLBSHOOTDOWN :: int where "IPI_TLBSHOOTDOWN = 3"
definition TLBSHOOTDOWN_MAX :: int where "TLBSHOOTDOWN_MAX = 16"
definition TLBSHOOTDOWN_ALL :: int where "TLBSHOOTDOWN_ALL = - 1"

definition post_ipi :: "int \<Rightarrow> cpu \<Rightarrow> cpu" where
  "post_ipi code c = c\<lparr>c_ipi_pending := c_ipi_pending c OR push_bit (nat code) 1\<rparr>"

definition ipi_send :: "nat \<Rightarrow> nat \<Rightarrow> int \<Rightarrow> sched \<Rightarrow> sched run" where
  "ipi_send me target code s =
     kassert (code \<ge> 0 \<and> code < 32)
       (bindR (acquire_ipi me target s) (\<lambda>s. release_ipi me target (set_cpu target (post_ipi code) s)))"

fun ipi_broadcast_to :: "nat \<Rightarrow> int \<Rightarrow> nat list \<Rightarrow> sched \<Rightarrow> sched run" where
  "ipi_broadcast_to me code [] s = Ok s"
| "ipi_broadcast_to me code (c # cs) s =
     bindR (if c \<noteq> me then ipi_send me c code s else Ok s) (ipi_broadcast_to me code cs)"

definition ipi_broadcast :: "nat \<Rightarrow> nat \<Rightarrow> int \<Rightarrow> sched \<Rightarrow> sched run" where
  "ipi_broadcast me numcpus code s = ipi_broadcast_to me code [0..<numcpus] s"

text \<open>
  The body of \<open>ipi_tlbshootdown\<close> on the target: a write of \<open>c_shootdown[n]\<close> outside the array of
  \<open>TLBSHOOTDOWN_MAX\<close> entries is \<open>Wild\<close>.
\<close>

definition add_shootdown :: "shootdown \<Rightarrow> cpu \<Rightarrow> cpu run" where
  "add_shootdown mapping c =
     (let n = c_numshootdown c in
      if n = TLBSHOOTDOWN_MAX then Ok (c\<lparr>c_numshootdown := TLBSHOOTDOWN_ALL\<rparr>)
      else if 0 \<le> n \<and> nat n < length (c_shootdown c) then
        Ok (c\<lparr>c_shootdown := (c_shootdown c)[nat n := mapping], c_numshootdown := n + 1\<rparr>)
      else Halt Wild)"

definition ipi_tlbshootdown :: "nat \<Rightarrow> nat \<Rightarrow> shootdown \<Rightarrow> sched \<Rightarrow> sched run" where
  "ipi_tlbshootdown me target mapping s =
     bindR (acquire_ipi me target s) (\<lambda>s.
       bindR (add_shootdown mapping (cpus s target)) (\<lambda>c.
         release_ipi me target (set_cpu target (\<lambda>_. post_ipi IPI_TLBSHOOTDOWN c) s)))"

text \<open>
  What \<open>interprocessor_interrupt\<close> does for the pending bits: stop the processor, or call
  \<open>vm_tlbshootdown_all\<close> or \<open>vm_tlbshootdown\<close> for each recorded mapping.
\<close>

datatype ipi_action = CpuHalt | ShootAll | ShootEach "shootdown list"

definition interprocessor_interrupt :: "nat \<Rightarrow> sched \<Rightarrow> (ipi_action list \<times> sched) run" where
  "interprocessor_interrupt me s =
     bindR (acquire_ipi me me s) (\<lambda>s.
       let c = cpus s me; bits = c_ipi_pending c in
       if bit bits (nat IPI_PANIC) then Ok ([CpuHalt], s)
       else if bit bits (nat IPI_OFFLINE) then
         bindR (acquire_rq me me s) (\<lambda>s. bindR (release_rq me me s) (\<lambda>s. Ok ([CpuHalt], s)))
       else
         let acts = (if bit bits (nat IPI_TLBSHOOTDOWN) then
               if c_numshootdown c = TLBSHOOTDOWN_ALL then [ShootAll]
               else [ShootEach (take (nat (c_numshootdown c)) (c_shootdown c))] else []);
             c = (if bit bits (nat IPI_TLBSHOOTDOWN) then c\<lparr>c_numshootdown := 0\<rparr> else c)
         in bindR (release_ipi me me (set_cpu me (\<lambda>_. c\<lparr>c_ipi_pending := 0\<rparr>) s)) (\<lambda>s. Ok (acts, s)))"

subsection \<open>Creating and destroying threads\<close>

definition THREAD_STACK_MAGIC :: u32 where "THREAD_STACK_MAGIC = 0xbaadf00d"

definition thread_checkstack_init :: "u32 list \<Rightarrow> u32 list" where
  "thread_checkstack_init st =
     st[0 := THREAD_STACK_MAGIC, 1 := THREAD_STACK_MAGIC, 2 := THREAD_STACK_MAGIC, 3 := THREAD_STACK_MAGIC]"

definition thread_checkstack :: "thread \<Rightarrow> unit run" where
  "thread_checkstack th =
     (case t_stack th of
        None \<Rightarrow> Ok ()
      | Some st \<Rightarrow> kassert (take 4 st = replicate 4 THREAD_STACK_MAGIC) (Ok ()))"

text \<open>
  \<open>t\<close> is the address of the new structure; the booleans say whether the two allocations succeed.
\<close>

definition thread_create :: "bool \<Rightarrow> bool \<Rightarrow> nat \<Rightarrow> sched \<Rightarrow> sched option" where
  "thread_create got_thread got_name t s =
     (if \<not> got_thread then None
      else if \<not> got_name then None
      else Some (s\<lparr>thr := (thr s)(t := \<lparr>t_state = S_READY, t_stack = None, t_cpu = 0, t_proc = None,
                     t_in_interrupt = False\<rparr>),
                   lists := threadlistnode_init (lists s) t\<rparr>))"

definition thread_destroy :: "nat \<Rightarrow> nat \<Rightarrow> sched \<Rightarrow> unit run" where
  "thread_destroy me t s =
     kassert (t \<noteq> c_curthread (cpus s me)) (kassert (t_state (thr s t) \<noteq> S_RUN)
       (kassert (t_proc (thr s t) = None) (threadlistnode_cleanup (lists s) t)))"

text \<open>The loop of \<open>exorcise\<close>, at most \<open>n\<close> rounds.\<close>

fun exorcise_loop :: "nat \<Rightarrow> nat \<Rightarrow> sched \<Rightarrow> sched run" where
  "exorcise_loop 0 me s = Halt Spinning"
| "exorcise_loop (Suc n) me s =
     bindR (threadlist_remhead (lists s) (Zombies me)) (\<lambda>(r, h).
       let s = s\<lparr>lists := h\<rparr> in
       case r of
         None \<Rightarrow> Ok s
       | Some z \<Rightarrow>
           kassert (z \<noteq> c_curthread (cpus s me)) (kassert (t_state (thr s z) = S_ZOMBIE)
             (bindR (thread_destroy me z s) (\<lambda>_. exorcise_loop n me s))))"

definition exorcise :: "nat \<Rightarrow> sched \<Rightarrow> sched run" where
  "exorcise me s = exorcise_loop (Suc (unat (tl_count (lists s) (Zombies me)))) me s"

subsection \<open>Run queues and context switches\<close>

definition thread_make_runnable :: "nat \<Rightarrow> nat \<Rightarrow> bool \<Rightarrow> sched \<Rightarrow> sched run" where
  "thread_make_runnable me target already_have_lock s =
     (let targetcpu = t_cpu (thr s target) in
      bindR (if already_have_lock then kassert (spinlock_do_i_hold (rq_lock s targetcpu) me) (Ok s)
             else acquire_rq me targetcpu s) (\<lambda>s.
      let isidle = c_isidle (cpus s targetcpu) in
      bindR (threadlist_addtail (lists s) (RunQueue targetcpu) target) (\<lambda>h.
      bindR (if isidle then ipi_send me targetcpu IPI_UNIDLE (s\<lparr>lists := h\<rparr>) else Ok (s\<lparr>lists := h\<rparr>)) (\<lambda>s.
      if already_have_lock then Ok s else release_rq me targetcpu s))))"

definition wchan_lock :: "nat \<Rightarrow> nat \<Rightarrow> sched \<Rightarrow> sched run" where
  "wchan_lock me wc s =
     bindR (spinlock_acquire me (wc_lock s wc)) (\<lambda>lk. Ok (s\<lparr>wc_lock := (wc_lock s)(wc := lk)\<rparr>))"

definition wchan_unlock :: "nat \<Rightarrow> nat \<Rightarrow> sched \<Rightarrow> sched run" where
  "wchan_unlock me wc s =
     bindR (spinlock_release me (wc_lock s wc)) (\<lambda>lk. Ok (s\<lparr>wc_lock := (wc_lock s)(wc := lk)\<rparr>))"

text \<open>The \<open>switch\<close> statement of \<open>thread_switch\<close>: put the current thread in the right place.\<close>

definition thread_place :: "nat \<Rightarrow> nat \<Rightarrow> tstate \<Rightarrow> nat \<Rightarrow> sched \<Rightarrow> sched run" where
  "thread_place me cur newstate wc s =
     (case newstate of
        S_RUN \<Rightarrow> Halt Panicked
      | S_READY \<Rightarrow> thread_make_runnable me cur True s
      | S_SLEEP \<Rightarrow>
          bindR (threadlist_addtail (lists s) (Sleepers wc) cur) (\<lambda>h. wchan_unlock me wc (s\<lparr>lists := h\<rparr>))
      | S_ZOMBIE \<Rightarrow>
          bindR (threadlist_addtail (lists s) (Zombies me) cur) (\<lambda>h. Ok (s\<lparr>lists := h\<rparr>)))"

text \<open>
  The tail of \<open>thread_switch\<close> as the chosen thread executes it, which is also the beginning of
  \<open>thread_startup\<close> for a new one.
\<close>

definition thread_resume :: "nat \<Rightarrow> nat \<Rightarrow> sched \<Rightarrow> sched run" where
  "thread_resume me cur s =
     bindR (release_rq me me (set_thread cur (\<lambda>th. th\<lparr>t_state := S_RUN\<rparr>) s)) (exorcise me)"

text \<open>
  One round of the idle loop, with the run queue locked: take the next thread and switch to it, or
  unlock the queue and call \<open>cpu_idle\<close>.
\<close>

definition thread_next :: "nat \<Rightarrow> sched \<Rightarrow> sched run" where
  "thread_next me s =
     bindR (threadlist_remhead (lists s) (RunQueue me)) (\<lambda>(r, h).
       let s = s\<lparr>lists := h\<rparr> in
       case r of
         None \<Rightarrow> release_rq me me s
       | Some t \<Rightarrow> thread_resume me t (set_cpu me (\<lambda>c. c\<lparr>c_isidle := False, c_curthread := t\<rparr>) s))"

definition thread_switch :: "nat \<Rightarrow> tstate \<Rightarrow> nat \<Rightarrow> sched \<Rightarrow> sched run" where
  "thread_switch me newstate wc s =
     (if c_isidle (cpus s me) then Ok s
      else
        let cur = c_curthread (cpus s me) in
        bindR (thread_checkstack (thr s cur)) (\<lambda>_.
        bindR (acquire_rq me me s) (\<lambda>s.
          if newstate = S_READY \<and> threadlist_isempty (lists s) (RunQueue me) then release_rq me me s
          else bindR (thread_place me cur newstate wc s) (\<lambda>s.
            thread_next me (set_cpu me (\<lambda>c. c\<lparr>c_isidle := True\<rparr>)
              (set_thread cur (\<lambda>th. th\<lparr>t_state := newstate\<rparr>) s))))))"

text \<open>\<open>cpu_idle\<close> has returned: the queue is locked again and the loop goes on.\<close>

definition thread_unidle :: "nat \<Rightarrow> sched \<Rightarrow> sched run" where
  "thread_unidle me s = bindR (acquire_rq me me s) (thread_next me)"

definition thread_yield :: "nat \<Rightarrow> sched \<Rightarrow> sched run" where
  "thread_yield me s = thread_switch me S_READY 0 s"

text \<open>
  \<open>proc_remthread\<close>, which \<open>thread_exit\<close> calls first, detaches the thread: here its effect on
  \<open>t_proc\<close>, the process side is in \<open>Proc\<close>.
\<close>

definition thread_exit :: "nat \<Rightarrow> sched \<Rightarrow> sched run" where
  "thread_exit me s =
     (let cur = c_curthread (cpus s me);
          s = set_thread cur (\<lambda>th. th\<lparr>t_proc := None\<rparr>) s
      in kassert (t_proc (thr s cur) = None)
           (bindR (thread_checkstack (thr s cur)) (\<lambda>_. thread_switch me S_ZOMBIE 0 s)))"

text \<open>
  \<open>stack\<close> is the block \<open>kmalloc\<close> returns for the stack and \<open>added\<close> the result of
  \<open>proc_addthread\<close>, which on success sets \<open>t_proc\<close>.
\<close>

definition thread_fork :: "nat \<Rightarrow> bool \<Rightarrow> bool \<Rightarrow> u32 list option \<Rightarrow> int \<Rightarrow> nat \<Rightarrow> nat option \<Rightarrow> sched
    \<Rightarrow> (int \<times> sched) run" where
  "thread_fork me got_thread got_name stack added t proc s =
     (case thread_create got_thread got_name t s of
        None \<Rightarrow> Ok (ENOMEM, s)
      | Some s1 \<Rightarrow>
          (case stack of
             None \<Rightarrow> bindR (thread_destroy me t s1) (\<lambda>_. Ok (ENOMEM, s1))
           | Some st \<Rightarrow>
               let s2 = set_thread t (\<lambda>th. th\<lparr>t_stack := Some (thread_checkstack_init st),
                          t_cpu := t_cpu (thr s1 (c_curthread (cpus s1 me)))\<rparr>) s1;
                   p = (case proc of None \<Rightarrow> t_proc (thr s2 (c_curthread (cpus s2 me))) | Some p \<Rightarrow> Some p)
               in if added \<noteq> 0 then bindR (thread_destroy me t s2) (\<lambda>_. Ok (added, s2))
                  else bindR (thread_make_runnable me t False (set_thread t (\<lambda>th. th\<lparr>t_proc := p\<rparr>) s2))
                         (\<lambda>s3. Ok (0, s3))))"

subsection \<open>Wait channels\<close>

definition wchan_sleep :: "nat \<Rightarrow> nat \<Rightarrow> sched \<Rightarrow> sched run" where
  "wchan_sleep me wc s =
     kassert (\<not> t_in_interrupt (thr s (c_curthread (cpus s me)))) (thread_switch me S_SLEEP wc s)"

definition wchan_wakeone :: "nat \<Rightarrow> nat \<Rightarrow> sched \<Rightarrow> sched run" where
  "wchan_wakeone me wc s =
     bindR (wchan_lock me wc s) (\<lambda>s.
     bindR (threadlist_remhead (lists s) (Sleepers wc)) (\<lambda>(target, h).
     bindR (wchan_unlock me wc (s\<lparr>lists := h\<rparr>)) (\<lambda>s.
     case target of None \<Rightarrow> Ok s | Some t \<Rightarrow> thread_make_runnable me t False s)))"

fun wake_loop :: "nat \<Rightarrow> nat \<Rightarrow> listid \<Rightarrow> sched \<Rightarrow> sched run" where
  "wake_loop 0 me l s = Halt Spinning"
| "wake_loop (Suc n) me l s =
     bindR (threadlist_remhead (lists s) l) (\<lambda>(target, h).
       let s = s\<lparr>lists := h\<rparr> in
       case target of
         None \<Rightarrow> Ok s
       | Some t \<Rightarrow> bindR (thread_make_runnable me t False s) (wake_loop n me l))"

definition wchan_wakeall :: "nat \<Rightarrow> nat \<Rightarrow> sched \<Rightarrow> sched run" where
  "wchan_wakeall me wc s =
     (let l = OnStack me; s = s\<lparr>lists := threadlist_init (lists s) l\<rparr> in
      bindR (wchan_lock me wc s) (\<lambda>s.
      bindR (move_all threadlist_remhead threadlist_addtail
               (Suc (unat (tl_count (lists s) (Sleepers wc)))) (lists s) (Sleepers wc) l) (\<lambda>h.
      bindR (wchan_unlock me wc (s\<lparr>lists := h\<rparr>)) (\<lambda>s.
      bindR (wake_loop (Suc (unat (tl_count (lists s) l))) me l s) (\<lambda>s.
      bindR (threadlist_cleanup (lists s) l) (\<lambda>_. Ok s))))))"

definition wchan_isempty :: "nat \<Rightarrow> nat \<Rightarrow> sched \<Rightarrow> (bool \<times> sched) run" where
  "wchan_isempty me wc s =
     bindR (wchan_lock me wc s) (\<lambda>s.
       let ret = threadlist_isempty (lists s) (Sleepers wc)
       in bindR (wchan_unlock me wc s) (\<lambda>s. Ok (ret, s)))"

definition wchan_destroy :: "nat \<Rightarrow> sched \<Rightarrow> unit run" where
  "wchan_destroy wc s =
     bindR (spinlock_cleanup (wc_lock s wc)) (\<lambda>_. threadlist_cleanup (lists s) (Sleepers wc))"

subsection \<open>The scheduler invariant\<close>

text \<open>
  \<open>n\<close> processors, the lists \<open>Ls\<close>, the live threads \<open>Ts\<close> and the sequences \<open>L\<close>. A thread on a list
  is in the state that list calls for; a processor that is not idle runs a live thread that is on
  no list; and every live thread on no list is the current thread of a busy processor, or one of
  the threads \<open>F\<close> that have just been taken off a list (none between two routines).
\<close>

definition stack_ok :: "thread \<Rightarrow> bool" where
  "stack_ok th \<longleftrightarrow> thread_checkstack th = Ok ()"

primrec fits :: "listid \<Rightarrow> thread \<Rightarrow> bool" where
  "fits (RunQueue c) th \<longleftrightarrow> t_cpu th = c \<and> (t_state th = S_READY \<or> t_state th = S_SLEEP)"
| "fits (Sleepers w) th \<longleftrightarrow> t_state th = S_SLEEP"
| "fits (Zombies c) th \<longleftrightarrow> t_state th = S_ZOMBIE \<and> t_proc th = None"
| "fits (OnStack c) th \<longleftrightarrow> t_state th = S_SLEEP"

definition busy :: "nat \<Rightarrow> sched \<Rightarrow> nat \<Rightarrow> nat \<Rightarrow> bool" where
  "busy n s c t \<longleftrightarrow> c < n \<and> \<not> c_isidle (cpus s c) \<and> c_curthread (cpus s c) = t"

definition sched_inv :: "nat \<Rightarrow> listid set \<Rightarrow> nat set \<Rightarrow> nat set \<Rightarrow> (listid \<Rightarrow> nat list) \<Rightarrow> sched \<Rightarrow> bool" where
  "sched_inv n Ls Ts F L s \<longleftrightarrow> tl_store Ls Ts (lists s) L \<and> finite Ts \<and> card Ts < 2 ^ 32
     \<and> (\<forall>c < n. RunQueue c \<in> Ls \<and> Zombies c \<in> Ls)
     \<and> (\<forall>t \<in> Ts. t_cpu (thr s t) < n \<and> stack_ok (thr s t))
     \<and> (\<forall>l \<in> Ls. \<forall>t \<in> set (L l). fits l (thr s t))
     \<and> (\<forall>c t. busy n s c t \<longrightarrow> t \<in> Ts \<and> off_lists Ls L t \<and> t_state (thr s t) = S_RUN \<and> t_cpu (thr s t) = c)
     \<and> (\<forall>t \<in> Ts. off_lists Ls L t \<longrightarrow> t \<in> F \<or> (\<exists>c. busy n s c t))"

definition rq_held :: "nat \<Rightarrow> nat \<Rightarrow> spinlock" where
  "rq_held me = (\<lambda>_. spinlock_init)(me := \<lparr>lk_lock = 1, lk_holder = Some me\<rparr>)"

definition locks_free :: "sched \<Rightarrow> bool" where
  "locks_free s \<longleftrightarrow> rq_lock s = (\<lambda>_. spinlock_init) \<and> wc_lock s = (\<lambda>_. spinlock_init)
     \<and> ipi_lock s = (\<lambda>_. spinlock_init)"

definition my_queue_locked :: "nat \<Rightarrow> sched \<Rightarrow> bool" where
  "my_queue_locked me s \<longleftrightarrow> rq_lock s = rq_held me \<and> wc_lock s = (\<lambda>_. spinlock_init)
     \<and> ipi_lock s = (\<lambda>_. spinlock_init)"

lemma acquire_rq_free:
  "rq_lock s = (\<lambda>_. spinlock_init) \<Longrightarrow> acquire_rq me c s
     = Ok (s\<lparr>rq_lock := (\<lambda>_. spinlock_init)(c := \<lparr>lk_lock = 1, lk_holder = Some me\<rparr>)\<rparr>)"
  by (simp add: acquire_rq_def)

lemma release_rq_held:
  "rq_lock s = (\<lambda>_. spinlock_init)(c := \<lparr>lk_lock = 1, lk_holder = Some me\<rparr>) \<Longrightarrow>
     release_rq me c s = Ok (s\<lparr>rq_lock := \<lambda>_. spinlock_init\<rparr>)"
  by (simp add: release_rq_def fun_upd_idem_iff)

lemma wchan_lock_free:
  "wc_lock s = (\<lambda>_. spinlock_init) \<Longrightarrow> wchan_lock me w s
     = Ok (s\<lparr>wc_lock := (\<lambda>_. spinlock_init)(w := \<lparr>lk_lock = 1, lk_holder = Some me\<rparr>)\<rparr>)"
  by (simp add: wchan_lock_def)

lemma wchan_unlock_held:
  "wc_lock s = (\<lambda>_. spinlock_init)(w := \<lparr>lk_lock = 1, lk_holder = Some me\<rparr>) \<Longrightarrow>
     wchan_unlock me w s = Ok (s\<lparr>wc_lock := \<lambda>_. spinlock_init\<rparr>)"
  by (simp add: wchan_unlock_def fun_upd_idem_iff)

lemma ipi_send_free:
  assumes "ipi_lock s = (\<lambda>_. spinlock_init)" and "0 \<le> code" and "code < 32"
  shows "ipi_send me c code s = Ok (set_cpu c (post_ipi code) s)"
  using assms
  by (simp add: ipi_send_def acquire_ipi_def release_ipi_def set_cpu_def fun_upd_idem_iff)

text \<open>The invariant depends on the lists, the threads, and who runs where.\<close>

lemma sched_inv_cong:
  assumes "lists s' = lists s" and "thr s' = thr s" and "\<And>c t. busy n s' c t \<longleftrightarrow> busy n s c t"
  shows "sched_inv n Ls Ts F L s' \<longleftrightarrow> sched_inv n Ls Ts F L s"
  using assms by (simp add: sched_inv_def)

lemma busy_post_ipi: "busy n (set_cpu c (post_ipi code) s) d t \<longleftrightarrow> busy n s d t"
  by (simp add: busy_def set_cpu_def post_ipi_def)

lemma sched_length:
  assumes inv: "sched_inv n Ls Ts F L s" and t: "t \<in> Ts" "off_lists Ls L t" and l: "l \<in> Ls"
  shows "Suc (length (L l)) < 2 ^ 32"
proof -
  have st: "tl_store Ls Ts (lists s) L" and fin: "finite Ts" "card Ts < 2 ^ 32"
    using inv by (auto simp: sched_inv_def)
  note d = tls.dist [OF st l]
  have "t \<notin> set (L l)" using t(2) l by (simp add: off_lists_def)
  then have "set (L l) \<subset> Ts" using d t(1) by auto
  then have "card (set (L l)) < card Ts" by (rule psubset_card_mono [OF fin(1)])
  then have "length (L l) < card Ts" using d by (simp add: distinct_card)
  then show ?thesis using fin(2) by simp
qed

lemma sched_inv_busyD:
  "sched_inv n Ls Ts F L s \<Longrightarrow> busy n s c t \<Longrightarrow>
    t \<in> Ts \<and> off_lists Ls L t \<and> t_state (thr s t) = S_RUN \<and> t_cpu (thr s t) = c"
  unfolding sched_inv_def by blast

lemma sched_queued_not_busy:
  "sched_inv n Ls Ts F L s \<Longrightarrow> l \<in> Ls \<Longrightarrow> t \<in> set (L l) \<Longrightarrow> \<not> busy n s c t"
  using sched_inv_busyD unfolding off_lists_def by blast

lemma off_lists_upd:
  "l \<in> Ls \<Longrightarrow> off_lists Ls (L(l := ts)) x \<longleftrightarrow> (\<forall>l' \<in> Ls - {l}. x \<notin> set (L l')) \<and> x \<notin> set ts"
  by (auto simp: off_lists_def)

lemma off_lists_split:
  "l \<in> Ls \<Longrightarrow> off_lists Ls L x \<longleftrightarrow> (\<forall>l' \<in> Ls - {l}. x \<notin> set (L l')) \<and> x \<notin> set (L l)"
  by (auto simp: off_lists_def)

text \<open>A thread on no list is appended to one, and if it was running its processor becomes idle.\<close>

lemma sched_enqueue:
  assumes inv: "sched_inv n Ls Ts F L s" and t: "t \<in> Ts" "off_lists Ls L t" and l: "l \<in> Ls"
    and h: "tl_store Ls Ts h (L(l := L l @ [t]))"
    and others: "\<And>x. x \<noteq> t \<Longrightarrow> thr s' x = thr s x"
    and mine: "fits l (thr s' t)" "t_cpu (thr s' t) < n" "stack_ok (thr s' t)"
    and idle: "\<And>c x. busy n s' c x \<longleftrightarrow> busy n s c x \<and> x \<noteq> t" and lists': "lists s' = h"
  shows "sched_inv n Ls Ts (F - {t}) (L(l := L l @ [t])) s'"
proof -
  have off: "off_lists Ls (L(l := L l @ [t])) x \<longleftrightarrow> off_lists Ls L x \<and> x \<noteq> t" for x
    using l t(2) by (auto simp: off_lists_def)
  have "fits l' (thr s' x)" if "l' \<in> Ls" "x \<in> set ((L(l := L l @ [t])) l')" for l' x
  proof (cases "x = t")
    case True
    then have "l' = l" using that t(2) by (auto simp: off_lists_def split: if_splits)
    then show ?thesis using mine(1) True by simp
  next
    case False
    then have "x \<in> set (L l')" using that(2) by (auto split: if_splits)
    then show ?thesis using inv that(1) others [OF False] by (simp add: sched_inv_def)
  qed
  moreover have "t_cpu (thr s' x) < n \<and> stack_ok (thr s' x)" if "x \<in> Ts" for x
    using inv that mine(2,3) others [of x] by (cases "x = t") (auto simp: sched_inv_def)
  moreover have "x \<in> Ts \<and> off_lists Ls (L(l := L l @ [t])) x \<and> t_state (thr s' x) = S_RUN \<and> t_cpu (thr s' x) = c"
    if "busy n s' c x" for c x
    using that inv others [of x] unfolding idle off by (auto simp: sched_inv_def)
  moreover have "x \<in> F - {t} \<or> (\<exists>c. busy n s' c x)" if "x \<in> Ts" "off_lists Ls (L(l := L l @ [t])) x" for x
    using that inv unfolding idle off by (auto simp: sched_inv_def)
  ultimately show ?thesis using inv h unfolding sched_inv_def lists' by blast
qed

lemma sched_dequeue:
  assumes inv: "sched_inv n Ls Ts F L s" and l: "l \<in> Ls" and L: "L l = t # ts"
    and h: "tl_store Ls Ts h (L(l := ts))"
  shows "sched_inv n Ls Ts (insert t F) (L(l := ts)) (s\<lparr>lists := h\<rparr>)"
proof -
  have st: "tl_store Ls Ts (lists s) L" using inv by (simp add: sched_inv_def)
  note off_t = tls.off_after_rem [OF st l L]
  have off: "off_lists Ls (L(l := ts)) x \<longleftrightarrow> off_lists Ls L x \<or> x = t" for x
    using off_t(1) unfolding off_lists_upd [OF l] off_lists_split [OF l, of L] L by auto
  have b: "busy n (s\<lparr>lists := h\<rparr>) c x \<longleftrightarrow> busy n s c x" for c x by (simp add: busy_def)
  have "fits l' (thr s x)" if "l' \<in> Ls" "x \<in> set ((L(l := ts)) l')" for l' x
    using inv that L by (auto simp: sched_inv_def split: if_splits)
  moreover have "x \<noteq> t" if "busy n s c x" for c x
    using sched_queued_not_busy [OF inv l, of t] that L by auto
  moreover have "x \<in> insert t F \<or> (\<exists>c. busy n s c x)" if "x \<in> Ts" "off_lists Ls L x \<or> x = t" for x
    using inv that by (auto simp: sched_inv_def)
  ultimately show ?thesis using inv h unfolding sched_inv_def off b by simp
qed

lemma sched_run_thread:
  assumes inv: "sched_inv n Ls Ts F L s" and t: "t \<in> Ts" "off_lists Ls L t" "t_cpu (thr s t) = me"
    and me: "me < n" "c_isidle (cpus s me)"
  shows "sched_inv n Ls Ts (F - {t}) L
    (set_thread t (\<lambda>th. th\<lparr>t_state := S_RUN\<rparr>) (set_cpu me (\<lambda>c. c\<lparr>c_isidle := False, c_curthread := t\<rparr>) s))"
    (is "sched_inv n Ls Ts (F - {t}) L ?s")
proof -
  have b: "busy n ?s c x \<longleftrightarrow> (if c = me then x = t else busy n s c x)" for c x
    using me by (auto simp: busy_def set_thread_def set_cpu_def)
  have th: "thr ?s = (thr s)(t := (thr s t)\<lparr>t_state := S_RUN\<rparr>)" "lists ?s = lists s"
    by (simp_all add: set_thread_def set_cpu_def)
  have "fits l (thr ?s x)" if "l \<in> Ls" "x \<in> set (L l)" for l x
  proof -
    have "x \<noteq> t" using t(2) that by (auto simp: off_lists_def)
    then show ?thesis using inv that by (simp add: sched_inv_def th)
  qed
  moreover have "stack_ok (thr s t)" "t_cpu (thr s t) < n" using inv t(1) by (auto simp: sched_inv_def)
  then have "t_cpu (thr ?s x) < n \<and> stack_ok (thr ?s x)" if "x \<in> Ts" for x
    using inv that by (auto simp: sched_inv_def th stack_ok_def thread_checkstack_def)
  moreover have "x \<in> Ts \<and> off_lists Ls L x \<and> t_state (thr ?s x) = S_RUN \<and> t_cpu (thr ?s x) = c"
    if "busy n ?s c x" for c x
    using that inv t unfolding b by (auto simp: sched_inv_def th split: if_splits)
  moreover have "x \<in> F - {t} \<or> (\<exists>c. busy n ?s c x)" if "x \<in> Ts" "off_lists Ls L x" for x
  proof (cases "x = t")
    case True
    then show ?thesis using b by auto
  next
    case False
    have "x \<in> F \<or> (\<exists>c. busy n s c x)" using inv that by (simp add: sched_inv_def)
    then show ?thesis
    proof
      assume "\<exists>c. busy n s c x"
      then obtain c where c: "busy n s c x" by blast
      with me(2) have "c \<noteq> me" by (auto simp: busy_def)
      with c b show ?thesis by metis
    qed (use False in simp)
  qed
  ultimately show ?thesis using inv unfolding sched_inv_def th(2) by auto
qed

lemma sched_inv_storeD: "sched_inv n Ls Ts F L s \<Longrightarrow> tl_store Ls Ts (lists s) L"
  by (simp add: sched_inv_def)

lemma sched_inv_listsD: "sched_inv n Ls Ts F L s \<Longrightarrow> c < n \<Longrightarrow> RunQueue c \<in> Ls \<and> Zombies c \<in> Ls"
  by (simp add: sched_inv_def)

lemma sched_inv_fitsD: "sched_inv n Ls Ts F L s \<Longrightarrow> l \<in> Ls \<Longrightarrow> t \<in> set (L l) \<Longrightarrow> fits l (thr s t)"
  by (simp add: sched_inv_def)

text \<open>\<open>thread_make_runnable\<close> puts a thread at the end of the run queue of its own processor.\<close>

lemma make_runnable_spec:
  assumes inv: "sched_inv n Ls Ts F L s" and t: "t \<in> Ts" "off_lists Ls L t"
    and ready: "t_state (thr s t) = S_READY \<or> t_state (thr s t) = S_SLEEP"
    and free: "locks_free s" and nb: "\<And>c. \<not> busy n s c t"
  shows "\<exists>s'. thread_make_runnable me t False s = Ok s' \<and> locks_free s'
    \<and> sched_inv n Ls Ts (F - {t}) (L(RunQueue (t_cpu (thr s t)) := L (RunQueue (t_cpu (thr s t))) @ [t])) s'
    \<and> thr s' = thr s \<and> (\<forall>c x. busy n s' c x \<longleftrightarrow> busy n s c x)"
proof -
  let ?c = "t_cpu (thr s t)"
  have c: "?c < n" and st: "stack_ok (thr s t)" using inv t(1) by (auto simp: sched_inv_def)
  have l: "RunQueue ?c \<in> Ls" using sched_inv_listsD [OF inv c] by blast
  from tls.addtail_seq [OF sched_inv_storeD [OF inv] l t sched_length [OF inv t l]] obtain h where
    h: "threadlist_addtail (lists s) (RunQueue ?c) t = Ok h"
      "tl_store Ls Ts h (L(RunQueue ?c := L (RunQueue ?c) @ [t]))" by blast
  let ?s = "if c_isidle (cpus s ?c) then set_cpu ?c (post_ipi IPI_UNIDLE) (s\<lparr>lists := h\<rparr>) else s\<lparr>lists := h\<rparr>"
  have run: "thread_make_runnable me t False s = Ok ?s"
    using h(1) free
    by (auto simp: thread_make_runnable_def locks_free_def acquire_rq_free release_rq_held ipi_send_free
        IPI_UNIDLE_def set_cpu_def Let_def)
  have b: "busy n ?s d x \<longleftrightarrow> busy n s d x" for d x
    by (simp add: busy_def set_cpu_def post_ipi_def)
  have "sched_inv n Ls Ts (F - {t}) (L(RunQueue ?c := L (RunQueue ?c) @ [t])) ?s"
  proof (rule sched_enqueue [OF inv t l h(2)])
    show "thr ?s x = thr s x" for x by (simp add: set_cpu_def)
    show "fits (RunQueue ?c) (thr ?s t)" using ready by (simp add: set_cpu_def)
    show "t_cpu (thr ?s t) < n" "stack_ok (thr ?s t)" using c st by (simp_all add: set_cpu_def)
    show "busy n ?s d x \<longleftrightarrow> busy n s d x \<and> x \<noteq> t" for d x using b nb by blast
    show "lists ?s = h" by (simp add: set_cpu_def)
  qed
  moreover have "locks_free ?s" using free by (simp add: locks_free_def set_cpu_def)
  moreover have "thr ?s = thr s" by (simp add: set_cpu_def)
  ultimately show ?thesis using run b by blast
qed

lemma node_cleanup_off:
  "tl_store Ls Ts h L \<Longrightarrow> t \<in> Ts \<Longrightarrow> off_lists Ls L t \<Longrightarrow> threadlistnode_cleanup h t = Ok ()"
  unfolding tl_store_def off_lists_def by (simp add: threadlistnode_cleanup_def)

lemma tl_store_drop: "tl_store Ls Ts h L \<Longrightarrow> off_lists Ls L z \<Longrightarrow> tl_store Ls (Ts - {z}) h L"
  unfolding tl_store_def off_lists_def by blast

text \<open>A thread that is neither queued nor running is freed.\<close>

lemma sched_free_thread:
  assumes inv: "sched_inv n Ls Ts (insert z F) L s" and z: "off_lists Ls L z" "\<And>c. \<not> busy n s c z"
  shows "sched_inv n Ls (Ts - {z}) F L s"
proof -
  have "tl_store Ls (Ts - {z}) (lists s) L" by (rule tl_store_drop [OF sched_inv_storeD [OF inv] z(1)])
  moreover have "finite (Ts - {z})" using inv by (simp add: sched_inv_def)
  moreover have "card (Ts - {z}) < 2 ^ 32"
    using inv card_Diff1_le [of Ts z] by (simp add: sched_inv_def)
  moreover have "t \<in> Ts - {z}" if "busy n s c t" for c t
    using sched_inv_busyD [OF inv that] that z(2) by blast
  moreover have "t \<in> F \<or> (\<exists>c. busy n s c t)" if "t \<in> Ts - {z}" "off_lists Ls L t" for t
    using inv that unfolding sched_inv_def by auto
  ultimately show ?thesis using inv unfolding sched_inv_def by auto
qed

lemma exorcise_loop_spec:
  "\<lbrakk>sched_inv n Ls Ts F L s; me < n; \<not> c_isidle (cpus s me); length (L (Zombies me)) < k\<rbrakk> \<Longrightarrow>
    \<exists>h. exorcise_loop k me s = Ok (s\<lparr>lists := h\<rparr>)
      \<and> sched_inv n Ls (Ts - set (L (Zombies me))) F (L(Zombies me := [])) (s\<lparr>lists := h\<rparr>)"
proof (induction k arbitrary: s Ts L)
  case (Suc k)
  have l: "Zombies me \<in> Ls" using sched_inv_listsD [OF Suc.prems(1,2)] by blast
  note st = sched_inv_storeD [OF Suc.prems(1)]
  show ?case
  proof (cases "L (Zombies me)")
    case Nil
    then have "L(Zombies me := []) = L" by auto
    with Nil Suc.prems(1) tls.remhead_nil [OF st l Nil] show ?thesis
      by (intro exI [of _ "lists s"]) simp
  next
    case (Cons z zs)
    from tls.remhead_cons [OF st l Cons] obtain h where
      h: "threadlist_remhead (lists s) (Zombies me) = Ok (Some z, h)" "tl_store Ls Ts h (L(Zombies me := zs))"
      by blast
    let ?s = "s\<lparr>lists := h\<rparr>" and ?L = "L(Zombies me := zs)"
    have b: "busy n ?s c x \<longleftrightarrow> busy n s c x" for c x by (simp add: busy_def)
    have cur: "busy n s me (c_curthread (cpus s me))" using Suc.prems(2,3) by (simp add: busy_def)
    have nb: "\<not> busy n s c z" for c
      by (rule sched_queued_not_busy [OF Suc.prems(1) l]) (simp add: Cons)
    have zcur: "z \<noteq> c_curthread (cpus s me)" using cur nb by metis
    have fit: "t_state (thr s z) = S_ZOMBIE" "t_proc (thr s z) = None"
      using sched_inv_fitsD [OF Suc.prems(1) l, of z] Cons by simp_all
    note off = tls.off_after_rem [OF st l Cons]
    have inv1: "sched_inv n Ls (Ts - {z}) F ?L ?s"
      by (rule sched_free_thread [OF sched_dequeue [OF Suc.prems(1) l Cons h(2)] off(1)]) (simp add: b nb)
    have "thread_destroy me z ?s = Ok ()"
      using zcur fit node_cleanup_off [OF h(2) off(2,1)] by (simp add: thread_destroy_def)
    then have loop: "exorcise_loop (Suc k) me s = exorcise_loop k me ?s"
      using h(1) zcur fit by simp
    have "\<exists>h'. exorcise_loop k me ?s = Ok (?s\<lparr>lists := h'\<rparr>)
        \<and> sched_inv n Ls (Ts - {z} - set (?L (Zombies me))) F (?L(Zombies me := [])) (?s\<lparr>lists := h'\<rparr>)"
      by (rule Suc.IH [OF inv1 Suc.prems(2)]) (use Suc.prems(3,4) Cons in simp_all)
    moreover have "Ts - {z} - set (?L (Zombies me)) = Ts - set (L (Zombies me))" using Cons by auto
    moreover have "?L(Zombies me := []) = L(Zombies me := [])" by simp
    moreover have "?s\<lparr>lists := h'\<rparr> = s\<lparr>lists := h'\<rparr>" for h' by simp
    ultimately have "\<exists>h. exorcise_loop k me ?s = Ok (s\<lparr>lists := h\<rparr>)
        \<and> sched_inv n Ls (Ts - set (L (Zombies me))) F (L(Zombies me := [])) (s\<lparr>lists := h\<rparr>)" by metis
    then show ?thesis unfolding loop by blast
  qed
qed simp

lemma tl_store_count:
  assumes "tl_store Ls Ts h L" and "l \<in> Ls"
  shows "unat (tl_count h l) = length (L l)"
proof -
  have "tl_count h l = of_nat (length (L l))" "length (L l) < 2 ^ LENGTH(32)"
    using tl_store_repD [OF assms] by (auto simp: tl_rep_def)
  then show ?thesis by (simp only: unat_of_nat_small)
qed

lemma exorcise_spec:
  assumes "sched_inv n Ls Ts F L s" and "me < n" and "\<not> c_isidle (cpus s me)"
  shows "\<exists>h. exorcise me s = Ok (s\<lparr>lists := h\<rparr>)
    \<and> sched_inv n Ls (Ts - set (L (Zombies me))) F (L(Zombies me := [])) (s\<lparr>lists := h\<rparr>)"
proof -
  have "unat (tl_count (lists s) (Zombies me)) = length (L (Zombies me))"
    by (rule tl_store_count [OF sched_inv_storeD [OF assms(1)]])
      (use sched_inv_listsD [OF assms(1,2)] in blast)
  then show ?thesis unfolding exorcise_def by (intro exorcise_loop_spec [OF assms]) simp
qed

text \<open>
  One round of the idle loop: either the queue was empty and the processor idles with its queue
  unlocked, or the oldest thread of the queue runs and the zombies of the processor are gone.
\<close>

lemma thread_next_spec:
  assumes inv: "sched_inv n Ls Ts {} L s" and me: "me < n" "c_isidle (cpus s me)"
    and locked: "my_queue_locked me s"
  shows "(L (RunQueue me) = [] \<longrightarrow> thread_next me s = Ok (s\<lparr>rq_lock := \<lambda>_. spinlock_init\<rparr>))
    \<and> (\<forall>t ts. L (RunQueue me) = t # ts \<longrightarrow>
        (\<exists>s'. thread_next me s = Ok s' \<and> locks_free s' \<and> busy n s' me t
           \<and> (\<forall>c x. c \<noteq> me \<longrightarrow> (busy n s' c x \<longleftrightarrow> busy n s c x))
           \<and> sched_inv n Ls (Ts - set (L (Zombies me))) {} (L(RunQueue me := ts, Zombies me := [])) s'))"
proof (intro conjI allI impI)
  have l: "RunQueue me \<in> Ls" using sched_inv_listsD [OF inv me(1)] by blast
  note st = sched_inv_storeD [OF inv]
  have rq: "rq_lock s = (\<lambda>_. spinlock_init)(me := \<lparr>lk_lock = 1, lk_holder = Some me\<rparr>)"
    using locked by (simp add: my_queue_locked_def rq_held_def)
  {
    assume "L (RunQueue me) = []"
    then show "thread_next me s = Ok (s\<lparr>rq_lock := \<lambda>_. spinlock_init\<rparr>)"
      using tls.remhead_nil [OF st l] rq by (simp add: thread_next_def release_rq_held)
  }
  fix t ts assume L: "L (RunQueue me) = t # ts"
  from tls.remhead_cons [OF st l L] obtain h where
    h: "threadlist_remhead (lists s) (RunQueue me) = Ok (Some t, h)" "tl_store Ls Ts h (L(RunQueue me := ts))"
    by blast
  let ?s1 = "s\<lparr>lists := h\<rparr>"
  let ?s2 = "set_thread t (\<lambda>th. th\<lparr>t_state := S_RUN\<rparr>) (set_cpu me (\<lambda>c. c\<lparr>c_isidle := False, c_curthread := t\<rparr>) ?s1)"
  let ?s3 = "?s2\<lparr>rq_lock := \<lambda>_. spinlock_init\<rparr>" and ?L = "L(RunQueue me := ts)"
  note off = tls.off_after_rem [OF st l L]
  have "t_cpu (thr s t) = me" using sched_inv_fitsD [OF inv l, of t] L by simp
  then have "sched_inv n Ls Ts ({t} - {t}) ?L ?s2"
    using sched_dequeue [OF inv l L h(2)] off me by (intro sched_run_thread) simp_all
  then have inv3: "sched_inv n Ls Ts {} ?L ?s3"
    by (subst sched_inv_cong [of _ ?s2]) (simp_all add: busy_def)
  have "\<not> c_isidle (cpus ?s3 me)" by (simp add: set_thread_def set_cpu_def)
  from exorcise_spec [OF inv3 me(1) this] obtain h' where
    h': "exorcise me ?s3 = Ok (?s3\<lparr>lists := h'\<rparr>)"
      "sched_inv n Ls (Ts - set (?L (Zombies me))) {} (?L(Zombies me := [])) (?s3\<lparr>lists := h'\<rparr>)" by blast
  have "release_rq me me ?s2 = Ok ?s3"
    using rq by (intro release_rq_held) (simp add: set_thread_def set_cpu_def)
  then have "thread_next me s = Ok (?s3\<lparr>lists := h'\<rparr>)"
    using h(1) h'(1) by (simp add: thread_next_def thread_resume_def)
  moreover have "busy n (?s3\<lparr>lists := h'\<rparr>) me t"
    "\<forall>c x. c \<noteq> me \<longrightarrow> (busy n (?s3\<lparr>lists := h'\<rparr>) c x \<longleftrightarrow> busy n s c x)"
    using me(1) by (simp_all add: busy_def set_thread_def set_cpu_def)
  moreover have "locks_free (?s3\<lparr>lists := h'\<rparr>)"
    using locked by (simp add: locks_free_def my_queue_locked_def set_thread_def set_cpu_def)
  ultimately show "\<exists>s'. thread_next me s = Ok s' \<and> locks_free s' \<and> busy n s' me t
      \<and> (\<forall>c x. c \<noteq> me \<longrightarrow> (busy n s' c x \<longleftrightarrow> busy n s c x))
      \<and> sched_inv n Ls (Ts - set (L (Zombies me))) {} (L(RunQueue me := ts, Zombies me := [])) s'"
    using h'(2) by (intro exI [of _ "?s3\<lparr>lists := h'\<rparr>"]) simp
qed

lemma thread_unidle_spec:
  assumes inv: "sched_inv n Ls Ts {} L s" and me: "me < n" "c_isidle (cpus s me)" and free: "locks_free s"
  shows "(L (RunQueue me) = [] \<longrightarrow> thread_unidle me s = Ok s)
    \<and> (\<forall>t ts. L (RunQueue me) = t # ts \<longrightarrow>
        (\<exists>s'. thread_unidle me s = Ok s' \<and> locks_free s' \<and> busy n s' me t
           \<and> (\<forall>c x. c \<noteq> me \<longrightarrow> (busy n s' c x \<longleftrightarrow> busy n s c x))
           \<and> sched_inv n Ls (Ts - set (L (Zombies me))) {} (L(RunQueue me := ts, Zombies me := [])) s'))"
proof -
  let ?s = "s\<lparr>rq_lock := rq_held me\<rparr>"
  have acq: "acquire_rq me me s = Ok ?s"
    using free by (simp add: locks_free_def acquire_rq_free rq_held_def)
  have "sched_inv n Ls Ts {} L ?s" using inv by (subst sched_inv_cong [of _ s]) (simp_all add: busy_def)
  moreover have "my_queue_locked me ?s" using free by (simp add: my_queue_locked_def locks_free_def)
  moreover have "c_isidle (cpus ?s me)" using me(2) by simp
  ultimately have spec: "(L (RunQueue me) = [] \<longrightarrow> thread_next me ?s = Ok (?s\<lparr>rq_lock := \<lambda>_. spinlock_init\<rparr>))
    \<and> (\<forall>t ts. L (RunQueue me) = t # ts \<longrightarrow>
        (\<exists>s'. thread_next me ?s = Ok s' \<and> locks_free s' \<and> busy n s' me t
           \<and> (\<forall>c x. c \<noteq> me \<longrightarrow> (busy n s' c x \<longleftrightarrow> busy n ?s c x))
           \<and> sched_inv n Ls (Ts - set (L (Zombies me))) {} (L(RunQueue me := ts, Zombies me := [])) s'))"
    using me(1) by (intro thread_next_spec)
  have "?s\<lparr>rq_lock := \<lambda>_. spinlock_init\<rparr> = s" using free by (simp add: locks_free_def)
  moreover have "busy n ?s c x \<longleftrightarrow> busy n s c x" for c x by (simp add: busy_def)
  moreover have "thread_unidle me s = thread_next me ?s" using acq by (simp add: thread_unidle_def)
  ultimately show ?thesis using spec by simp
qed

text \<open>
  The outcome of giving up the processor: with an empty run queue it is idle, otherwise the oldest
  queued thread runs on it and its zombies have been freed.
\<close>

definition switched :: "nat \<Rightarrow> listid set \<Rightarrow> nat set \<Rightarrow> (listid \<Rightarrow> nat list) \<Rightarrow> nat \<Rightarrow> sched \<Rightarrow> bool" where
  "switched n Ls Ts L me s \<longleftrightarrow> locks_free s
     \<and> (L (RunQueue me) = [] \<longrightarrow> c_isidle (cpus s me) \<and> sched_inv n Ls Ts {} L s)
     \<and> (\<forall>t ts. L (RunQueue me) = t # ts \<longrightarrow> busy n s me t
          \<and> sched_inv n Ls (Ts - set (L (Zombies me))) {} (L(RunQueue me := ts, Zombies me := [])) s)"

lemma thread_next_switched:
  assumes inv: "sched_inv n Ls Ts {} L s" and me: "me < n" "c_isidle (cpus s me)"
    and locked: "my_queue_locked me s"
  shows "\<exists>s'. thread_next me s = Ok s' \<and> switched n Ls Ts L me s'"
proof (cases "L (RunQueue me)")
  case Nil
  let ?s = "s\<lparr>rq_lock := \<lambda>_. spinlock_init\<rparr>"
  have "thread_next me s = Ok ?s" using thread_next_spec [OF assms] Nil by blast
  moreover have "sched_inv n Ls Ts {} L ?s" using inv by (subst sched_inv_cong [of _ s]) (simp_all add: busy_def)
  ultimately show ?thesis using Nil me(2) locked
    by (simp add: switched_def locks_free_def my_queue_locked_def)
next
  case (Cons t ts)
  with thread_next_spec [OF assms] obtain s' where "thread_next me s = Ok s'" "locks_free s'" "busy n s' me t"
    "sched_inv n Ls (Ts - set (L (Zombies me))) {} (L(RunQueue me := ts, Zombies me := [])) s'" by blast
  then show ?thesis using Cons by (intro exI [of _ s']) (simp add: switched_def)
qed

lemma switch_from:
  assumes inv: "sched_inv n Ls Ts {} L s" and cur: "busy n s me cur" and l: "l \<in> Ls"
    and h: "tl_store Ls Ts h (L(l := L l @ [cur]))"
    and fit: "fits l ((thr s cur)\<lparr>t_state := st\<rparr>)"
    and s1: "lists s1 = h" "thr s1 = thr s" "cpus s1 = cpus s" "my_queue_locked me s1"
  shows "\<exists>s'. thread_next me (set_cpu me (\<lambda>c. c\<lparr>c_isidle := True\<rparr>) (set_thread cur (\<lambda>th. th\<lparr>t_state := st\<rparr>) s1))
      = Ok s' \<and> switched n Ls Ts (L(l := L l @ [cur])) me s'"
proof (rule thread_next_switched)
  let ?s = "set_cpu me (\<lambda>c. c\<lparr>c_isidle := True\<rparr>) (set_thread cur (\<lambda>th. th\<lparr>t_state := st\<rparr>) s1)"
  note c = sched_inv_busyD [OF inv cur]
  show "me < n" using cur by (simp add: busy_def)
  show "c_isidle (cpus ?s me)" by (simp add: set_cpu_def)
  show "my_queue_locked me ?s" using s1(4) by (simp add: my_queue_locked_def set_cpu_def set_thread_def)
  have "busy n ?s d x \<longleftrightarrow> busy n s d x \<and> x \<noteq> cur" for d x
  proof (cases "d = me")
    case True
    then show ?thesis using cur by (auto simp: busy_def set_cpu_def)
  next
    case False
    have "busy n ?s d x \<longleftrightarrow> busy n s d x" using False s1(3) by (simp add: busy_def set_cpu_def set_thread_def)
    moreover have "x \<noteq> cur" if "busy n s d x" using sched_inv_busyD [OF inv that] c False by auto
    ultimately show ?thesis by blast
  qed
  moreover have "stack_ok ((thr s cur)\<lparr>t_state := st\<rparr>)" "t_cpu (thr s cur) < n"
    using inv c by (auto simp: sched_inv_def stack_ok_def thread_checkstack_def)
  ultimately have "sched_inv n Ls Ts ({} - {cur}) (L(l := L l @ [cur])) ?s"
    using c fit s1 by (intro sched_enqueue [OF inv _ _ l h]) (simp_all add: set_cpu_def set_thread_def)
  then show "sched_inv n Ls Ts {} (L(l := L l @ [cur])) ?s" by simp
qed

lemma thread_switch_start:
  assumes inv: "sched_inv n Ls Ts {} L s" and cur: "busy n s me cur" and rq: "rq_lock s = (\<lambda>_. spinlock_init)"
  shows "thread_switch me st wc s =
    (if st = S_READY \<and> L (RunQueue me) = [] then Ok s
     else bindR (thread_place me cur st wc (s\<lparr>rq_lock := rq_held me\<rparr>)) (\<lambda>s.
       thread_next me (set_cpu me (\<lambda>c. c\<lparr>c_isidle := True\<rparr>) (set_thread cur (\<lambda>th. th\<lparr>t_state := st\<rparr>) s))))"
proof -
  have me: "me < n" "\<not> c_isidle (cpus s me)" "c_curthread (cpus s me) = cur" using cur by (simp_all add: busy_def)
  have "thread_checkstack (thr s cur) = Ok ()"
    using inv sched_inv_busyD [OF inv cur] by (auto simp: sched_inv_def stack_ok_def)
  moreover have "threadlist_isempty (lists s) (RunQueue me) \<longleftrightarrow> L (RunQueue me) = []"
    using tls.isempty_seq [OF sched_inv_storeD [OF inv]] sched_inv_listsD [OF inv me(1)] by blast
  moreover have "acquire_rq me me s = Ok (s\<lparr>rq_lock := rq_held me\<rparr>)"
    using acquire_rq_free [OF rq] by (simp add: rq_held_def)
  moreover have "release_rq me me (s\<lparr>rq_lock := rq_held me\<rparr>) = Ok s"
    using rq by (subst release_rq_held) (simp_all add: rq_held_def)
  ultimately show ?thesis using me by (simp add: thread_switch_def)
qed

lemma addtail_current:
  assumes "sched_inv n Ls Ts F L s" and "busy n s me cur" and "l \<in> Ls"
  shows "\<exists>h. threadlist_addtail (lists s) l cur = Ok h \<and> tl_store Ls Ts h (L(l := L l @ [cur]))"
  using sched_inv_busyD [OF assms(1,2)] sched_length [OF assms(1)] assms(3)
  by (intro tls.addtail_seq [OF sched_inv_storeD [OF assms(1)]]) blast+

text \<open>Yielding: the current thread goes to the end of its run queue and the head runs.\<close>

lemma thread_yield_spec:
  assumes inv: "sched_inv n Ls Ts {} L s" and cur: "busy n s me cur" and free: "locks_free s"
  shows "if L (RunQueue me) = [] then thread_yield me s = Ok s
    else \<exists>s'. thread_yield me s = Ok s' \<and> switched n Ls Ts (L(RunQueue me := L (RunQueue me) @ [cur])) me s'"
proof (cases "L (RunQueue me) = []")
  case True
  then show ?thesis using thread_switch_start [OF inv cur] free by (simp add: thread_yield_def locks_free_def)
next
  case False
  have me: "me < n" "\<not> c_isidle (cpus s me)" using cur by (auto simp: busy_def)
  have l: "RunQueue me \<in> Ls" using sched_inv_listsD [OF inv me(1)] by blast
  have cpu: "t_cpu (thr s cur) = me" using sched_inv_busyD [OF inv cur] by blast
  from addtail_current [OF inv cur l] obtain h where
    h: "threadlist_addtail (lists s) (RunQueue me) cur = Ok h" "tl_store Ls Ts h (L(RunQueue me := L (RunQueue me) @ [cur]))"
    by blast
  let ?s = "s\<lparr>rq_lock := rq_held me, lists := h\<rparr>"
  have "thread_place me cur S_READY 0 (s\<lparr>rq_lock := rq_held me\<rparr>) = Ok ?s"
    using h(1) cpu me(2)
    by (simp add: thread_place_def thread_make_runnable_def spinlock_do_i_hold_def rq_held_def)
  moreover have "\<exists>s'. thread_next me (set_cpu me (\<lambda>c. c\<lparr>c_isidle := True\<rparr>)
      (set_thread cur (\<lambda>th. th\<lparr>t_state := S_READY\<rparr>) ?s)) = Ok s'
      \<and> switched n Ls Ts (L(RunQueue me := L (RunQueue me) @ [cur])) me s'"
    using free cpu by (intro switch_from [OF inv cur l h(2)]) (simp_all add: my_queue_locked_def locks_free_def)
  ultimately show ?thesis
    using thread_switch_start [OF inv cur, of S_READY 0] free False
    by (simp add: thread_yield_def locks_free_def)
qed

text \<open>Going to sleep: lock the channel, queue on it, unlock it, give up the processor.\<close>

definition sleep_on :: "nat \<Rightarrow> nat \<Rightarrow> sched \<Rightarrow> sched run" where
  "sleep_on me wc s = bindR (wchan_lock me wc s) (wchan_sleep me wc)"

lemma sleep_on_spec:
  assumes inv: "sched_inv n Ls Ts {} L s" and cur: "busy n s me cur" and free: "locks_free s"
    and l: "Sleepers w \<in> Ls" and ctx: "\<not> t_in_interrupt (thr s cur)"
  shows "\<exists>s'. sleep_on me w s = Ok s' \<and> switched n Ls Ts (L(Sleepers w := L (Sleepers w) @ [cur])) me s'"
proof -
  let ?w = "s\<lparr>wc_lock := (\<lambda>_. spinlock_init)(w := \<lparr>lk_lock = 1, lk_holder = Some me\<rparr>)\<rparr>"
  have lock: "wchan_lock me w s = Ok ?w" using free by (simp add: wchan_lock_free locks_free_def)
  have inv': "sched_inv n Ls Ts {} L ?w" using inv by (subst sched_inv_cong [of _ s]) (simp_all add: busy_def)
  have cur': "busy n ?w me cur" using cur by (simp add: busy_def)
  from addtail_current [OF inv' cur' l] obtain h where
    h: "threadlist_addtail (lists s) (Sleepers w) cur = Ok h" "tl_store Ls Ts h (L(Sleepers w := L (Sleepers w) @ [cur]))"
    by auto
  let ?s = "s\<lparr>rq_lock := rq_held me, lists := h, wc_lock := \<lambda>_. spinlock_init\<rparr>"
  have "thread_place me cur S_SLEEP w (?w\<lparr>rq_lock := rq_held me\<rparr>) = Ok ?s"
    using h(1) by (simp add: thread_place_def wchan_unlock_held)
  moreover have "\<exists>s'. thread_next me (set_cpu me (\<lambda>c. c\<lparr>c_isidle := True\<rparr>)
      (set_thread cur (\<lambda>th. th\<lparr>t_state := S_SLEEP\<rparr>) ?s)) = Ok s'
      \<and> switched n Ls Ts (L(Sleepers w := L (Sleepers w) @ [cur])) me s'"
    using free by (intro switch_from [OF inv cur l h(2)]) (simp_all add: my_queue_locked_def locks_free_def)
  moreover have "c_curthread (cpus s me) = cur" using cur by (simp add: busy_def)
  ultimately show ?thesis
    using thread_switch_start [OF inv' cur', of S_SLEEP w] free lock ctx
    by (simp add: sleep_on_def wchan_sleep_def locks_free_def)
qed

text \<open>Exiting: the thread joins the zombies of its processor.\<close>

lemma thread_exit_spec:
  assumes inv: "sched_inv n Ls Ts {} L s" and cur: "busy n s me cur" and free: "locks_free s"
  shows "\<exists>s'. thread_exit me s = Ok s' \<and> switched n Ls Ts (L(Zombies me := L (Zombies me) @ [cur])) me s'"
proof -
  let ?s = "set_thread cur (\<lambda>th. th\<lparr>t_proc := None\<rparr>) s"
  have me: "me < n" "c_curthread (cpus s me) = cur" using cur by (auto simp: busy_def)
  have l: "Zombies me \<in> Ls" using sched_inv_listsD [OF inv me(1)] by blast
  note c = sched_inv_busyD [OF inv cur]
  have b: "busy n ?s d x \<longleftrightarrow> busy n s d x" for d x by (simp add: busy_def set_thread_def)
  have "fits k (thr ?s x)" if "k \<in> Ls" "x \<in> set (L k)" for k x
  proof -
    have "x \<noteq> cur" using c that unfolding off_lists_def by blast
    then show ?thesis using sched_inv_fitsD [OF inv that] by (simp add: set_thread_def)
  qed
  moreover have "t_cpu (thr ?s x) = t_cpu (thr s x)" "t_state (thr ?s x) = t_state (thr s x)"
    "stack_ok (thr ?s x) = stack_ok (thr s x)" for x
    by (simp_all add: set_thread_def stack_ok_def thread_checkstack_def)
  moreover have "lists ?s = lists s" by (simp add: set_thread_def)
  ultimately have inv': "sched_inv n Ls Ts {} L ?s" using inv unfolding sched_inv_def b by simp
  have cur': "busy n ?s me cur" using cur b by simp
  from addtail_current [OF inv cur l] obtain h where
    h: "threadlist_addtail (lists s) (Zombies me) cur = Ok h" "tl_store Ls Ts h (L(Zombies me := L (Zombies me) @ [cur]))"
    by blast
  let ?s1 = "?s\<lparr>rq_lock := rq_held me, lists := h\<rparr>"
  have "thread_place me cur S_ZOMBIE 0 (?s\<lparr>rq_lock := rq_held me\<rparr>) = Ok ?s1"
    using h(1) by (simp add: thread_place_def set_thread_def)
  moreover have "\<exists>s'. thread_next me (set_cpu me (\<lambda>c. c\<lparr>c_isidle := True\<rparr>)
      (set_thread cur (\<lambda>th. th\<lparr>t_state := S_ZOMBIE\<rparr>) ?s1)) = Ok s'
      \<and> switched n Ls Ts (L(Zombies me := L (Zombies me) @ [cur])) me s'"
    using free by (intro switch_from [OF inv' cur' l h(2)])
      (simp_all add: my_queue_locked_def locks_free_def set_thread_def)
  moreover have "thread_checkstack (thr ?s cur) = Ok ()"
    using inv' c unfolding sched_inv_def stack_ok_def by blast
  moreover have "t_proc (thr ?s cur) = None" by (simp add: set_thread_def)
  moreover have "rq_lock ?s = (\<lambda>_. spinlock_init)" using free by (simp add: locks_free_def set_thread_def)
  ultimately show ?thesis
    using thread_switch_start [OF inv' cur', of S_ZOMBIE 0] me(2) by (simp add: thread_exit_def)
qed

text \<open>Waking: sleepers move to the run queues of the processors they belong to, oldest first.\<close>

definition enqueue_ready :: "(nat \<Rightarrow> thread) \<Rightarrow> nat \<Rightarrow> (listid \<Rightarrow> nat list) \<Rightarrow> listid \<Rightarrow> nat list" where
  "enqueue_ready th t L = L(RunQueue (t_cpu (th t)) := L (RunQueue (t_cpu (th t))) @ [t])"

lemma make_runnable_enqueues:
  assumes "sched_inv n Ls Ts {t} L s" and "t \<in> Ts" "off_lists Ls L t" and "t_state (thr s t) = S_SLEEP"
    and "locks_free s" and "\<And>c. \<not> busy n s c t"
  shows "\<exists>s'. thread_make_runnable me t False s = Ok s' \<and> locks_free s' \<and> thr s' = thr s
    \<and> (\<forall>c x. busy n s' c x \<longleftrightarrow> busy n s c x) \<and> sched_inv n Ls Ts {} (enqueue_ready (thr s) t L) s'"
  using make_runnable_spec [OF assms(1-3) _ assms(5,6), of me] assms(4)
  by (simp add: enqueue_ready_def) blast

lemma wchan_wakeone_spec:
  assumes inv: "sched_inv n Ls Ts {} L s" and free: "locks_free s" and l: "Sleepers w \<in> Ls"
  shows "(L (Sleepers w) = [] \<longrightarrow> wchan_wakeone me w s = Ok s)
    \<and> (\<forall>t ts. L (Sleepers w) = t # ts \<longrightarrow> (\<exists>s'. wchan_wakeone me w s = Ok s' \<and> locks_free s'
         \<and> (\<forall>c x. busy n s' c x \<longleftrightarrow> busy n s c x)
         \<and> sched_inv n Ls Ts {} (enqueue_ready (thr s) t (L(Sleepers w := ts))) s'))"
proof (intro conjI allI impI)
  note st = sched_inv_storeD [OF inv]
  let ?w = "s\<lparr>wc_lock := (\<lambda>_. spinlock_init)(w := \<lparr>lk_lock = 1, lk_holder = Some me\<rparr>)\<rparr>"
  have lock: "wchan_lock me w s = Ok ?w" using free by (simp add: wchan_lock_free locks_free_def)
  have wc: "wc_lock s = (\<lambda>_. spinlock_init)" using free by (simp add: locks_free_def)
  {
    assume "L (Sleepers w) = []"
    then show "wchan_wakeone me w s = Ok s"
      using tls.remhead_nil [OF st l] lock wc by (simp add: wchan_wakeone_def wchan_unlock_held)
  }
  fix t ts assume L: "L (Sleepers w) = t # ts"
  from tls.remhead_cons [OF st l L] obtain h where
    h: "threadlist_remhead (lists s) (Sleepers w) = Ok (Some t, h)" "tl_store Ls Ts h (L(Sleepers w := ts))" by blast
  let ?s = "s\<lparr>lists := h\<rparr>"
  have "?w\<lparr>lists := h, wc_lock := \<lambda>_. spinlock_init\<rparr> = ?s" using wc by simp
  then have start: "wchan_wakeone me w s = thread_make_runnable me t False ?s"
    using lock h(1) by (simp add: wchan_wakeone_def wchan_unlock_held)
  note off = tls.off_after_rem [OF st l L]
  have nb: "\<not> busy n ?s c t" for c
    using sched_queued_not_busy [OF inv l, of t c] L by (simp add: busy_def)
  have "t_state (thr ?s t) = S_SLEEP" using sched_inv_fitsD [OF inv l, of t] L by simp
  from make_runnable_enqueues [OF sched_dequeue [OF inv l L h(2)] off(2,1) this _ nb, of me] free
  show "\<exists>s'. wchan_wakeone me w s = Ok s' \<and> locks_free s' \<and> (\<forall>c x. busy n s' c x \<longleftrightarrow> busy n s c x)
      \<and> sched_inv n Ls Ts {} (enqueue_ready (thr s) t (L(Sleepers w := ts))) s'"
    unfolding start by (auto simp: locks_free_def busy_def)
qed

lemma sched_add_list:
  assumes inv: "sched_inv n Ls Ts F L s" and l: "l \<notin> Ls"
  shows "sched_inv n (insert l Ls) Ts F (L(l := [])) (s\<lparr>lists := threadlist_init (lists s) l\<rparr>)"
    (is "sched_inv n _ Ts F ?L ?s")
proof -
  have "tl_store (insert l Ls) Ts (lists ?s) ?L"
    using threadlist_init_spec [OF sched_inv_storeD [OF inv] l] by simp
  moreover have "off_lists (insert l Ls) ?L t \<longleftrightarrow> off_lists Ls L t" for t
    using l by (auto simp: off_lists_def)
  moreover have "busy n ?s c t \<longleftrightarrow> busy n s c t" for c t by (simp add: busy_def)
  moreover have "fits k (thr s t)" if "k \<in> insert l Ls" "t \<in> set (?L k)" for k t
    using inv that l by (auto simp: sched_inv_def split: if_splits)
  ultimately show ?thesis using inv unfolding sched_inv_def by simp
qed

lemma sched_remove_list:
  assumes inv: "sched_inv n (insert l Ls) Ts F L s" and l: "L l = []" "l \<notin> Ls" "\<And>c. l \<noteq> RunQueue c" "\<And>c. l \<noteq> Zombies c"
  shows "sched_inv n Ls Ts F L s"
proof -
  have off: "off_lists (insert l Ls) L t \<longleftrightarrow> off_lists Ls L t" for t using l(1) by (simp add: off_lists_def)
  have "tl_store Ls Ts (lists s) L"
    using sched_inv_storeD [OF inv] l(1) unfolding tl_store_def by simp
  moreover have "\<forall>c < n. RunQueue c \<in> Ls \<and> Zombies c \<in> Ls"
    using inv l(3,4) unfolding sched_inv_def by blast
  ultimately show ?thesis using inv unfolding sched_inv_def off by simp
qed

lemma sched_move_all:
  assumes inv: "sched_inv n Ls Ts F L s" and l: "a \<in> Ls" "b \<in> Ls" "a \<noteq> b"
    and h: "tl_store Ls Ts h (L(a := [], b := L b @ L a))"
    and fit: "\<And>t. t \<in> set (L a) \<Longrightarrow> fits b (thr s t)"
  shows "sched_inv n Ls Ts F (L(a := [], b := L b @ L a)) (s\<lparr>lists := h\<rparr>)"
proof -
  let ?L = "L(a := [], b := L b @ L a)"
  have off: "off_lists Ls ?L t \<longleftrightarrow> off_lists Ls L t" for t
  proof -
    have "off_lists Ls ?L t \<longleftrightarrow> (\<forall>l \<in> Ls - {a, b}. t \<notin> set (L l)) \<and> t \<notin> set (L a) \<and> t \<notin> set (L b)"
      using l by (auto simp: off_lists_def)
    also have "\<dots> \<longleftrightarrow> off_lists Ls L t" using l by (auto simp: off_lists_def)
    finally show ?thesis .
  qed
  have b: "busy n (s\<lparr>lists := h\<rparr>) c t \<longleftrightarrow> busy n s c t" for c t by (simp add: busy_def)
  have "fits k (thr s t)" if "k \<in> Ls" "t \<in> set (?L k)" for k t
    using inv that fit l by (auto simp: sched_inv_def split: if_splits)
  then show ?thesis using inv h unfolding sched_inv_def off b by simp
qed

fun enqueue_all :: "(nat \<Rightarrow> thread) \<Rightarrow> nat list \<Rightarrow> (listid \<Rightarrow> nat list) \<Rightarrow> listid \<Rightarrow> nat list" where
  "enqueue_all th [] L = L"
| "enqueue_all th (t # ts) L = enqueue_all th ts (enqueue_ready th t L)"

lemma enqueue_all_other: "(\<And>c. l \<noteq> RunQueue c) \<Longrightarrow> enqueue_all th ts L l = L l"
  by (induction ts arbitrary: L) (simp_all add: enqueue_ready_def)

lemma enqueue_all_queue:
  "enqueue_all th ts L (RunQueue c) = L (RunQueue c) @ filter (\<lambda>t. t_cpu (th t) = c) ts"
  by (induction ts arbitrary: L) (simp_all add: enqueue_ready_def)

lemma wake_loop_spec:
  "\<lbrakk>sched_inv n Ls Ts {} L s; locks_free s; OnStack i \<in> Ls; length (L (OnStack i)) < k\<rbrakk> \<Longrightarrow>
    \<exists>s'. wake_loop k me (OnStack i) s = Ok s' \<and> locks_free s' \<and> (\<forall>c x. busy n s' c x \<longleftrightarrow> busy n s c x)
      \<and> sched_inv n Ls Ts {} (enqueue_all (thr s) (L (OnStack i)) (L(OnStack i := []))) s'"
proof (induction k arbitrary: L s)
  case (Suc k)
  note inv = Suc.prems(1) and l = Suc.prems(3)
  note st = sched_inv_storeD [OF inv]
  show ?case
  proof (cases "L (OnStack i)")
    case Nil
    then have "L(OnStack i := []) = L" by auto
    moreover have "wake_loop (Suc k) me (OnStack i) s = Ok s" using tls.remhead_nil [OF st l Nil] by simp
    ultimately show ?thesis using Nil inv Suc.prems(2) by (metis enqueue_all.simps(1))
  next
    case (Cons t ts)
    from tls.remhead_cons [OF st l Cons] obtain h where
      h: "threadlist_remhead (lists s) (OnStack i) = Ok (Some t, h)" "tl_store Ls Ts h (L(OnStack i := ts))" by blast
    let ?s = "s\<lparr>lists := h\<rparr>"
    note off = tls.off_after_rem [OF st l Cons]
    have nb: "\<not> busy n ?s c t" for c
      using sched_queued_not_busy [OF inv l, of t c] Cons by (simp add: busy_def)
    have slp: "t_state (thr ?s t) = S_SLEEP" using sched_inv_fitsD [OF inv l, of t] Cons by simp
    have "locks_free ?s" using Suc.prems(2) by (simp add: locks_free_def)
    from make_runnable_enqueues [OF sched_dequeue [OF inv l Cons h(2)] off(2,1) slp this nb, of me]
    obtain s1 where s1: "thread_make_runnable me t False ?s = Ok s1" "locks_free s1" "thr s1 = thr s"
      "\<forall>c x. busy n s1 c x \<longleftrightarrow> busy n s c x"
      "sched_inv n Ls Ts {} (enqueue_ready (thr s) t (L(OnStack i := ts))) s1" by (auto simp: busy_def)
    let ?L = "enqueue_ready (thr s) t (L(OnStack i := ts))"
    have stk: "?L (OnStack i) = ts" by (simp add: enqueue_ready_def)
    have "?L(OnStack i := []) = enqueue_ready (thr s) t (L(OnStack i := []))"
      by (auto simp: enqueue_ready_def)
    then have eq: "enqueue_all (thr s1) (?L (OnStack i)) (?L(OnStack i := []))
        = enqueue_all (thr s) (L (OnStack i)) (L(OnStack i := []))" using Cons s1(3) stk by simp
    have "length (?L (OnStack i)) < k" using stk Suc.prems(4) Cons by simp
    from Suc.IH [OF s1(5,2) l this] have "\<exists>s'. wake_loop k me (OnStack i) s1 = Ok s' \<and> locks_free s'
        \<and> (\<forall>c x. busy n s' c x \<longleftrightarrow> busy n s c x)
        \<and> sched_inv n Ls Ts {} (enqueue_all (thr s) (L (OnStack i)) (L(OnStack i := []))) s'"
      unfolding eq using s1(4) by blast
    moreover have "wake_loop (Suc k) me (OnStack i) s = wake_loop k me (OnStack i) s1"
      using h(1) s1(1) by simp
    ultimately show ?thesis by metis
  qed
qed simp

lemma wchan_wakeall_spec:
  assumes inv: "sched_inv n Ls Ts {} L s" and free: "locks_free s" and w: "Sleepers w \<in> Ls"
    and stack: "OnStack me \<notin> Ls"
  shows "\<exists>s'. wchan_wakeall me w s = Ok s' \<and> locks_free s' \<and> (\<forall>c x. busy n s' c x \<longleftrightarrow> busy n s c x)
    \<and> sched_inv n Ls Ts {} (enqueue_all (thr s) (L (Sleepers w)) (L(OnStack me := [], Sleepers w := []))) s'"
proof -
  let ?l = "OnStack me" and ?a = "Sleepers w"
  let ?Ls = "insert ?l Ls" and ?L1 = "L(?l := [])" and ?s1 = "s\<lparr>lists := threadlist_init (lists s) ?l\<rparr>"
  have inv1: "sched_inv n ?Ls Ts {} ?L1 ?s1" by (rule sched_add_list [OF inv stack])
  note st1 = sched_inv_storeD [OF inv1]
  have wc: "wc_lock s = (\<lambda>_. spinlock_init)" using free by (simp add: locks_free_def)
  have lock: "wchan_lock me w ?s1 = Ok (?s1\<lparr>wc_lock := (\<lambda>_. spinlock_init)(w := \<lparr>lk_lock = 1, lk_holder = Some me\<rparr>)\<rparr>)"
    using wc by (intro wchan_lock_free) simp
  have cnt: "unat (tl_count (lists ?s1) ?a) = length (L ?a)"
    using tl_store_count [OF st1, of ?a] w by simp
  have "length (L ?a) < 2 ^ 32" using tl_store_repD [OF sched_inv_storeD [OF inv] w] by (simp add: tl_rep_def)
  then obtain h where h: "move_all threadlist_remhead threadlist_addtail (Suc (unat (tl_count (lists ?s1) ?a)))
      (lists ?s1) ?a ?l = Ok h" "tl_store ?Ls Ts h (?L1(?a := [], ?l := ?L1 ?l @ ?L1 ?a))"
    using tls.move_all_seq [OF st1, of ?a ?l "Suc (length (L ?a))"] w unfolding cnt by auto
  let ?L2 = "?L1(?a := [], ?l := ?L1 ?l @ ?L1 ?a)" and ?s2 = "?s1\<lparr>lists := h\<rparr>"
  have "fits ?l (thr ?s1 t)" if "t \<in> set (?L1 ?a)" for t
    using sched_inv_fitsD [OF inv w, of t] that by simp
  then have inv2: "sched_inv n ?Ls Ts {} ?L2 ?s2" using w by (intro sched_move_all [OF inv1 _ _ _ h(2)]) auto
  have L2: "?L2 ?l = L ?a" by simp
  have free2: "locks_free ?s2" using free by (simp add: locks_free_def)
  have unlock: "?s1\<lparr>wc_lock := (\<lambda>_. spinlock_init)(w := \<lparr>lk_lock = 1, lk_holder = Some me\<rparr>), lists := h,
      wc_lock := \<lambda>_. spinlock_init\<rparr> = ?s2" using wc by simp
  have "unat (tl_count (lists ?s2) ?l) = length (L ?a)"
    using tl_store_count [OF sched_inv_storeD [OF inv2], of ?l] by simp
  then have "length (?L2 ?l) < Suc (unat (tl_count (lists ?s2) ?l))" using L2 by simp
  from wake_loop_spec [OF inv2 free2 insertI1 this] obtain s3 where
    s3: "wake_loop (Suc (unat (tl_count (lists ?s2) ?l))) me ?l ?s2 = Ok s3" "locks_free s3"
      "\<forall>c x. busy n s3 c x \<longleftrightarrow> busy n ?s2 c x"
      "sched_inv n ?Ls Ts {} (enqueue_all (thr ?s2) (?L2 ?l) (?L2(?l := []))) s3" by blast
  have b: "busy n ?s2 c x \<longleftrightarrow> busy n s c x" for c x by (simp add: busy_def)
  let ?L3 = "enqueue_all (thr s) (L ?a) (L(?l := [], ?a := []))"
  have "?L2(?l := []) = L(?l := [], ?a := [])" by auto
  then have L3: "enqueue_all (thr ?s2) (?L2 ?l) (?L2(?l := [])) = ?L3" using L2 by simp
  have empty: "?L3 ?l = []" by (simp add: enqueue_all_other)
  have "threadlist_cleanup (lists s3) ?l = Ok ()"
    using tls.isempty_seq [OF sched_inv_storeD [OF s3(4)], of ?l] empty unfolding L3
    by (simp add: threadlist_cleanup_def threadlist_isempty_def)
  then have "wchan_wakeall me w s = Ok s3"
    using lock h(1) s3(1) unlock
    by (simp add: wchan_wakeall_def wchan_unlock_held Let_def del: wake_loop.simps move_all.simps)
  moreover have "sched_inv n Ls Ts {} ?L3 s3"
    using s3(4) empty stack unfolding L3 by (rule sched_remove_list) simp_all
  ultimately show ?thesis using s3(2,3) unfolding b by blast
qed

text \<open>A new thread starts on the run queue of its creator's processor.\<close>

lemma thread_fork_spec:
  assumes inv: "sched_inv n Ls Ts {} L s" and cur: "busy n s me cur" and free: "locks_free s"
    and t: "t \<notin> Ts" "card Ts < 2 ^ 32 - 1" and st: "4 \<le> length stk"
  shows "\<exists>s'. thread_fork me True True (Some stk) 0 t p s = Ok (0, s') \<and> locks_free s'
    \<and> (\<forall>c x. busy n s' c x \<longleftrightarrow> busy n s c x)
    \<and> sched_inv n Ls (insert t Ts) {} (L(RunQueue me := L (RunQueue me) @ [t])) s'"
proof -
  have me: "me < n" "c_curthread (cpus s me) = cur" using cur by (auto simp: busy_def)
  note c = sched_inv_busyD [OF inv cur]
  have ne: "cur \<noteq> t" using c t(1) by auto
  define pr where "pr = (case p of None \<Rightarrow> t_proc (thr s cur) | Some p \<Rightarrow> Some p)"
  define th where "th = \<lparr>t_state = S_READY, t_stack = Some (thread_checkstack_init stk), t_cpu = me,
    t_proc = pr, t_in_interrupt = False\<rparr>"
  let ?s = "s\<lparr>lists := threadlistnode_init (lists s) t, thr := (thr s)(t := th)\<rparr>"
  have fork: "thread_fork me True True (Some stk) 0 t p s = bindR (thread_make_runnable me t False ?s) (\<lambda>s. Ok (0, s))"
    using me(2) c ne
    by (simp add: thread_fork_def thread_create_def set_thread_def th_def pr_def split: option.split)
  have off: "off_lists Ls L t"
    using t(1) tl_store_subset [OF sched_inv_storeD [OF inv]] by (auto simp: off_lists_def)
  have b: "busy n ?s d x \<longleftrightarrow> busy n s d x" for d x by (simp add: busy_def)
  have nb: "\<not> busy n s d t" for d using sched_inv_busyD [OF inv, of d t] t(1) by blast
  have ok: "stack_ok th"
  proof -
    from st obtain w0 w1 w2 w3 ws where "stk = w0 # w1 # w2 # w3 # ws"
      by (auto simp: numeral_eq_Suc Suc_le_length_iff)
    then show ?thesis by (simp add: stack_ok_def th_def thread_checkstack_def thread_checkstack_init_def
        numeral_eq_Suc)
  qed
  have inv': "sched_inv n Ls (insert t Ts) {t} L ?s"
  proof -
    have "tl_store Ls (insert t Ts) (lists ?s) L"
      using threadlistnode_init_spec [OF sched_inv_storeD [OF inv] t(1)] by simp
    moreover have "fits l (thr ?s x)" if "l \<in> Ls" "x \<in> set (L l)" for l x
      using sched_inv_fitsD [OF inv that] that off by (auto simp: off_lists_def)
    moreover have "t_cpu (thr ?s x) < n \<and> stack_ok (thr ?s x)" if "x \<in> insert t Ts" for x
      using inv that ok me(1) by (auto simp: sched_inv_def th_def)
    moreover have "x \<in> insert t Ts \<and> off_lists Ls L x \<and> t_state (thr ?s x) = S_RUN \<and> t_cpu (thr ?s x) = d"
      if "busy n s d x" for d x using sched_inv_busyD [OF inv that] t(1) by auto
    moreover have "finite (insert t Ts)" "card (insert t Ts) < 2 ^ 32"
      using inv t by (auto simp: sched_inv_def)
    moreover have "x \<in> {t} \<or> (\<exists>d. busy n s d x)" if "x \<in> insert t Ts" "off_lists Ls L x" for x
      using inv that by (auto simp: sched_inv_def)
    ultimately show ?thesis using inv unfolding sched_inv_def b by blast
  qed
  have "t_state (thr ?s t) = S_READY \<or> t_state (thr ?s t) = S_SLEEP" by (simp add: th_def)
  from make_runnable_spec [OF inv' _ off this, of me] free nb b obtain s' where
    "thread_make_runnable me t False ?s = Ok s'" "locks_free s'"
    "sched_inv n Ls (insert t Ts) ({t} - {t}) (L(RunQueue me := L (RunQueue me) @ [t])) s'"
    "\<forall>c x. busy n s' c x \<longleftrightarrow> busy n s c x"
    by (auto simp: locks_free_def th_def)
  then show ?thesis unfolding fork by simp
qed

subsection \<open>Properties\<close>

text \<open>
  C3: the scheduler over the real list store is a scheduler over sequences. On a busy processor,
  yielding appends the current thread to its run queue and runs the head (or does nothing when the
  queue is empty); sleeping appends it to the channel, exiting to the processor's zombies, and in
  both cases the next queued thread runs or the processor idles; waking one moves the longest
  sleeper to the run queue of its own processor, waking all moves every sleeper there in order. No
  assertion fails, no spinlock is left held, and every other list is as before.
\<close>

theorem scheduler_refines_sequences:
  assumes inv: "sched_inv n Ls Ts {} L s" and cur: "busy n s me cur" and free: "locks_free s"
    and w: "Sleepers w \<in> Ls" "OnStack me \<notin> Ls" and ctx: "\<not> t_in_interrupt (thr s cur)"
  shows "(L (RunQueue me) = [] \<longrightarrow> thread_yield me s = Ok s)
    \<and> (L (RunQueue me) \<noteq> [] \<longrightarrow> (\<exists>s'. thread_yield me s = Ok s'
         \<and> switched n Ls Ts (L(RunQueue me := L (RunQueue me) @ [cur])) me s'))
    \<and> (\<exists>s'. sleep_on me w s = Ok s' \<and> switched n Ls Ts (L(Sleepers w := L (Sleepers w) @ [cur])) me s')
    \<and> (\<exists>s'. thread_exit me s = Ok s' \<and> switched n Ls Ts (L(Zombies me := L (Zombies me) @ [cur])) me s')
    \<and> (L (Sleepers w) = [] \<longrightarrow> wchan_wakeone me w s = Ok s)
    \<and> (\<forall>t ts. L (Sleepers w) = t # ts \<longrightarrow> (\<exists>s'. wchan_wakeone me w s = Ok s' \<and> locks_free s'
         \<and> sched_inv n Ls Ts {} (enqueue_ready (thr s) t (L(Sleepers w := ts))) s'))
    \<and> (\<exists>s'. wchan_wakeall me w s = Ok s' \<and> locks_free s'
         \<and> sched_inv n Ls Ts {} (enqueue_all (thr s) (L (Sleepers w)) (L(OnStack me := [], Sleepers w := []))) s')"
proof (intro conjI)
  show "L (RunQueue me) = [] \<longrightarrow> thread_yield me s = Ok s"
    "L (RunQueue me) \<noteq> [] \<longrightarrow> (\<exists>s'. thread_yield me s = Ok s'
         \<and> switched n Ls Ts (L(RunQueue me := L (RunQueue me) @ [cur])) me s')"
    using thread_yield_spec [OF inv cur free] by (auto split: if_splits)
  show "\<exists>s'. sleep_on me w s = Ok s' \<and> switched n Ls Ts (L(Sleepers w := L (Sleepers w) @ [cur])) me s'"
    by (rule sleep_on_spec [OF inv cur free w(1) ctx])
  show "\<exists>s'. thread_exit me s = Ok s' \<and> switched n Ls Ts (L(Zombies me := L (Zombies me) @ [cur])) me s'"
    by (rule thread_exit_spec [OF inv cur free])
  show "L (Sleepers w) = [] \<longrightarrow> wchan_wakeone me w s = Ok s"
    "\<forall>t ts. L (Sleepers w) = t # ts \<longrightarrow> (\<exists>s'. wchan_wakeone me w s = Ok s' \<and> locks_free s'
         \<and> sched_inv n Ls Ts {} (enqueue_ready (thr s) t (L(Sleepers w := ts))) s')"
    using wchan_wakeone_spec [OF inv free w(1), of me] by blast+
  show "\<exists>s'. wchan_wakeall me w s = Ok s' \<and> locks_free s'
      \<and> sched_inv n Ls Ts {} (enqueue_all (thr s) (L (Sleepers w)) (L(OnStack me := [], Sleepers w := []))) s'"
    using wchan_wakeall_spec [OF inv free w] by blast
qed

text \<open>A machine with one processor that runs thread 1 while thread 2 waits in its run queue.\<close>

definition boot_thread :: thread where
  "boot_thread = \<lparr>t_state = S_RUN, t_stack = None, t_cpu = 0, t_proc = None, t_in_interrupt = False\<rparr>"

definition boot_lists :: tlstore where
  "boot_lists = threadlist_init (threadlist_init (threadlist_init (threadlistnode_init (threadlistnode_init
     \<lparr>tln_prev = \<lambda>_. None, tln_next = \<lambda>_. None, tln_self = \<lambda>_. None, tl_count = \<lambda>_. 0\<rparr> 1) 2)
       (RunQueue 0)) (Zombies 0)) (Sleepers 0)"

definition boot_sched :: "tlstore \<Rightarrow> sched" where
  "boot_sched h = \<lparr>thr = (\<lambda>_. boot_thread)(2 := boot_thread\<lparr>t_state := S_READY\<rparr>),
     cpus = (\<lambda>_. \<lparr>c_curthread = 1, c_isidle = False, c_ipi_pending = 0, c_shootdown = [], c_numshootdown = 0\<rparr>),
     lists = h, rq_lock = (\<lambda>_. spinlock_init), wc_lock = (\<lambda>_. spinlock_init), ipi_lock = (\<lambda>_. spinlock_init)\<rparr>"

lemma boot_lists_inv: "tl_store {Sleepers 0, Zombies 0, RunQueue 0} {2, 1} boot_lists (\<lambda>_. [])"
proof -
  let ?h = "\<lparr>tln_prev = \<lambda>_. None, tln_next = \<lambda>_. None, tln_self = \<lambda>_. None, tl_count = \<lambda>_. 0\<rparr>"
  have "tl_store {} {} ?h (\<lambda>_. [])" by (simp add: tl_store_def)
  from threadlistnode_init_spec [OF this, of 1] have 1: "tl_store {} {1} (threadlistnode_init ?h 1) (\<lambda>_. [])" by simp
  from threadlistnode_init_spec [OF 1, of 2]
  have 2: "tl_store {} {2, 1} (threadlistnode_init (threadlistnode_init ?h 1) 2) (\<lambda>_. [])" by simp
  have nil: "(\<lambda>_. [])(l := []) = (\<lambda>_. [])" for l :: listid by auto
  note a = threadlist_init_spec [OF 2, of "RunQueue 0", unfolded nil, simplified]
  note b = threadlist_init_spec [OF a, of "Zombies 0", unfolded nil, simplified]
  note c = threadlist_init_spec [OF b, of "Sleepers 0", unfolded nil, simplified]
  from c show ?thesis by (simp add: boot_lists_def)
qed

lemma boot_sched_inv:
  "\<exists>h. threadlist_addtail boot_lists (RunQueue 0) 2 = Ok h
    \<and> sched_inv 1 {Sleepers 0, Zombies 0, RunQueue 0} {2, 1} {} ((\<lambda>_. [])(RunQueue 0 := [2])) (boot_sched h)"
proof -
  let ?Ls = "{Sleepers 0, Zombies 0, RunQueue 0}" and ?L = "(\<lambda>_. [])(RunQueue 0 := [2::nat])"
  from tls.addtail_seq [OF boot_lists_inv, of "RunQueue 0" 2] obtain h where
    h: "threadlist_addtail boot_lists (RunQueue 0) 2 = Ok h" "tl_store ?Ls {2, 1} h ?L"
    by (auto simp: off_lists_def)
  have b: "busy 1 (boot_sched h) c t \<longleftrightarrow> c = 0 \<and> t = 1" for c t by (auto simp: busy_def boot_sched_def)
  have "sched_inv 1 ?Ls {2, 1} {} ?L (boot_sched h)"
    unfolding sched_inv_def b using h(2)
    by (auto simp: boot_sched_def boot_thread_def stack_ok_def thread_checkstack_def off_lists_def)
  with h(1) show ?thesis by blast
qed

theorem scheduler_refines_sequences_witness:
  "\<exists>s s'. locks_free s \<and> busy 1 s 0 1 \<and> thread_yield 0 s = Ok s' \<and> busy 1 s' 0 2"
proof -
  from boot_sched_inv obtain h where
    inv: "sched_inv 1 {Sleepers 0, Zombies 0, RunQueue 0} {2, 1} {} ((\<lambda>_. [])(RunQueue 0 := [2])) (boot_sched h)"
    by blast
  have b: "busy 1 (boot_sched h) 0 1" by (simp add: busy_def boot_sched_def)
  have f: "locks_free (boot_sched h)" by (simp add: locks_free_def boot_sched_def)
  have "\<not> t_in_interrupt (thr (boot_sched h) 1)" by (simp add: boot_sched_def boot_thread_def)
  from scheduler_refines_sequences [OF inv b f _ _ this, of 0] obtain s' where
    "thread_yield 0 (boot_sched h) = Ok s'"
    "switched 1 {Sleepers 0, Zombies 0, RunQueue 0} {2, 1} ((\<lambda>_. [])(RunQueue 0 := [2, 1])) 0 s'" by auto
  then show ?thesis using b f by (auto simp: switched_def)
qed

fun add_shootdowns :: "shootdown list \<Rightarrow> cpu \<Rightarrow> cpu run" where
  "add_shootdowns [] c = Ok c"
| "add_shootdowns (m # ms) c = bindR (add_shootdown m c) (add_shootdowns ms)"

lemma add_shootdowns_room:
  "\<lbrakk>length (c_shootdown c) = 16; c_numshootdown c = int k; k + length ms \<le> 16\<rbrakk> \<Longrightarrow>
    \<exists>c'. add_shootdowns ms c = Ok c' \<and> length (c_shootdown c') = 16
      \<and> c_numshootdown c' = int (k + length ms)
      \<and> take (k + length ms) (c_shootdown c') = take k (c_shootdown c) @ ms"
proof (induction ms arbitrary: c k)
  case (Cons m ms)
  let ?c = "c\<lparr>c_shootdown := (c_shootdown c)[k := m], c_numshootdown := int k + 1\<rparr>"
  have k: "k < 16" using Cons.prems(3) by simp
  then have "add_shootdown m c = Ok ?c"
    using Cons.prems by (simp add: add_shootdown_def TLBSHOOTDOWN_MAX_def)
  moreover have "take (Suc k) (c_shootdown ?c) = take k (c_shootdown c) @ [m]"
    using k Cons.prems(1) by (simp add: take_Suc_conv_app_nth)
  moreover have "\<exists>c'. add_shootdowns ms ?c = Ok c' \<and> length (c_shootdown c') = 16
      \<and> c_numshootdown c' = int (Suc k + length ms)
      \<and> take (Suc k + length ms) (c_shootdown c') = take (Suc k) (c_shootdown ?c) @ ms"
    using Cons.prems by (intro Cons.IH) simp_all
  ultimately show ?case by auto
qed simp

lemma add_shootdowns_append: "add_shootdowns (xs @ ys) c = bindR (add_shootdowns xs c) (add_shootdowns ys)"
proof (induction xs arbitrary: c)
  case (Cons x xs)
  then show ?case by (cases "add_shootdown x c") simp_all
qed simp

text \<open>
  C10: the mappings posted to a processor before it takes the interrupt. Up to \<open>TLBSHOOTDOWN_MAX\<close>
  of them are recorded in order; one more asks for a full flush; but a further one writes
  \<open>c_shootdown[-1]\<close>, because \<open>ipi_tlbshootdown\<close> does not recognise the full-flush mark it set.
\<close>

theorem shootdowns_recorded_until_overflow:
  assumes "length (c_shootdown c) = 16" and "c_numshootdown c = 0"
  shows "(length ms \<le> 16 \<longrightarrow> (\<exists>c'. add_shootdowns ms c = Ok c' \<and> c_numshootdown c' = int (length ms)
           \<and> take (length ms) (c_shootdown c') = ms))
    \<and> (length ms = 17 \<longrightarrow> (\<exists>c'. add_shootdowns ms c = Ok c' \<and> c_numshootdown c' = TLBSHOOTDOWN_ALL))
    \<and> (17 < length ms \<longrightarrow> add_shootdowns ms c = Halt Wild)"
proof (intro conjI impI)
  show "\<exists>c'. add_shootdowns ms c = Ok c' \<and> c_numshootdown c' = int (length ms)
      \<and> take (length ms) (c_shootdown c') = ms" if "length ms \<le> 16"
    using add_shootdowns_room [of c 0 ms] assms that by auto
  have full: "\<exists>c'. add_shootdowns (take 17 ms) c = Ok c' \<and> c_numshootdown c' = TLBSHOOTDOWN_ALL"
    if "17 \<le> length ms"
  proof -
    have "take 17 ms = take 16 ms @ [ms ! 16]" using that take_Suc_conv_app_nth [of 16 ms] by simp
    moreover have len: "length (take 16 ms) = 16" using that by simp
    obtain c' where "add_shootdowns (take 16 ms) c = Ok c'" "c_numshootdown c' = 16"
      using add_shootdowns_room [of c 0 "take 16 ms", unfolded len] assms by auto
    ultimately show ?thesis
      by (simp add: add_shootdowns_append add_shootdown_def TLBSHOOTDOWN_MAX_def)
  qed
  then show "\<exists>c'. add_shootdowns ms c = Ok c' \<and> c_numshootdown c' = TLBSHOOTDOWN_ALL" if "length ms = 17"
    using that by simp
  assume long: "17 < length ms"
  then obtain m ms' where "drop 17 ms = m # ms'" by (cases "drop 17 ms") auto
  then have "ms = take 17 ms @ m # ms'" by (metis append_take_drop_id)
  moreover obtain c' where "add_shootdowns (take 17 ms) c = Ok c'" "c_numshootdown c' = TLBSHOOTDOWN_ALL"
    using full long by auto
  moreover from this have "add_shootdown m c' = Halt Wild"
    by (simp add: add_shootdown_def TLBSHOOTDOWN_ALL_def TLBSHOOTDOWN_MAX_def)
  ultimately show "add_shootdowns ms c = Halt Wild" by (metis add_shootdowns.simps(2) add_shootdowns_append bindR.simps)
qed

theorem shootdowns_recorded_until_overflow_witness:
  "add_shootdowns (replicate 18 (0, 4096)) \<lparr>c_curthread = 1, c_isidle = False, c_ipi_pending = 0,
     c_shootdown = replicate 16 (0, 0), c_numshootdown = 0\<rparr> = Halt Wild"
  using shootdowns_recorded_until_overflow [of "\<lparr>c_curthread = 1, c_isidle = False, c_ipi_pending = 0,
     c_shootdown = replicate 16 (0, 0), c_numshootdown = 0\<rparr>" "replicate 18 (0, 4096)"] by simp

end
