(* ===== verification/Trapframe.thy ===== *)
theory Trapframe
  imports Prelude
begin

text \<open>
  The trapframe (\<^verbatim>\<open>kern/arch/mips/include/trapframe.h\<close>) and its way through \<open>fork\<close>: \<open>sys_fork\<close>
  (\<^verbatim>\<open>kern/syscall/procops.c\<close>) copies the parent's to the heap field by field, and
  \<open>enter_forked_process\<close> (\<^verbatim>\<open>kern/arch/mips/syscall/syscall.c\<close>) builds the child's from it.
\<close>

record trapframe =
  tf_vaddr :: u32
  tf_status :: u32
  tf_cause :: u32
  tf_lo :: u32
  tf_hi :: u32
  tf_ra :: u32
  tf_at :: u32
  tf_v0 :: u32
  tf_v1 :: u32
  tf_a0 :: u32
  tf_a1 :: u32
  tf_a2 :: u32
  tf_a3 :: u32
  tf_t0 :: u32
  tf_t1 :: u32
  tf_t2 :: u32
  tf_t3 :: u32
  tf_t4 :: u32
  tf_t5 :: u32
  tf_t6 :: u32
  tf_t7 :: u32
  tf_s0 :: u32
  tf_s1 :: u32
  tf_s2 :: u32
  tf_s3 :: u32
  tf_s4 :: u32
  tf_s5 :: u32
  tf_s6 :: u32
  tf_s7 :: u32
  tf_t8 :: u32
  tf_t9 :: u32
  tf_k0 :: u32
  tf_k1 :: u32
  tf_gp :: u32
  tf_sp :: u32
  tf_s8 :: u32
  tf_epc :: u32

definition fork_frame :: "trapframe \<Rightarrow> trapframe" where
  "fork_frame tf =
     \<lparr>tf_vaddr = tf_vaddr tf, tf_status = tf_status tf, tf_cause = tf_cause tf, tf_lo = tf_lo tf,
      tf_hi = tf_hi tf, tf_ra = tf_ra tf, tf_at = tf_at tf, tf_v0 = tf_v0 tf, tf_v1 = tf_v1 tf, tf_a0 = tf_a0 tf,
      tf_a1 = tf_a1 tf, tf_a2 = tf_a2 tf, tf_a3 = tf_a3 tf, tf_t0 = tf_t0 tf, tf_t1 = tf_t1 tf, tf_t2 = tf_t2 tf,
      tf_t3 = tf_t3 tf, tf_t4 = tf_t4 tf, tf_t5 = tf_t5 tf, tf_t6 = tf_t6 tf, tf_t7 = tf_t7 tf, tf_s0 = tf_s0 tf,
      tf_s1 = tf_s1 tf, tf_s2 = tf_s2 tf, tf_s3 = tf_s3 tf, tf_s4 = tf_s4 tf, tf_s5 = tf_s5 tf, tf_s6 = tf_s6 tf,
      tf_s7 = tf_s7 tf, tf_t8 = tf_t8 tf, tf_t9 = tf_t9 tf, tf_k0 = tf_k0 tf, tf_k1 = tf_k1 tf, tf_gp = tf_gp tf,
      tf_sp = tf_sp tf, tf_s8 = tf_s8 tf, tf_epc = tf_epc tf\<rparr>"

definition child_frame :: "trapframe \<Rightarrow> trapframe" where
  "child_frame ptf =
     \<lparr>tf_vaddr = tf_vaddr ptf, tf_status = tf_status ptf, tf_cause = tf_cause ptf, tf_lo = tf_lo ptf,
      tf_hi = tf_hi ptf, tf_ra = tf_ra ptf, tf_at = tf_at ptf, tf_v0 = 0, tf_v1 = tf_v1 ptf, tf_a0 = tf_a0 ptf,
      tf_a1 = tf_a1 ptf, tf_a2 = tf_a2 ptf, tf_a3 = 0, tf_t0 = tf_t0 ptf, tf_t1 = tf_t1 ptf, tf_t2 = tf_t2 ptf,
      tf_t3 = tf_t3 ptf, tf_t4 = tf_t4 ptf, tf_t5 = tf_t5 ptf, tf_t6 = tf_t6 ptf, tf_t7 = tf_t7 ptf,
      tf_s0 = tf_s0 ptf, tf_s1 = tf_s1 ptf, tf_s2 = tf_s2 ptf, tf_s3 = tf_s3 ptf, tf_s4 = tf_s4 ptf,
      tf_s5 = tf_s5 ptf, tf_s6 = tf_s6 ptf, tf_s7 = tf_s7 ptf, tf_t8 = tf_t8 ptf, tf_t9 = tf_t9 ptf,
      tf_k0 = tf_k0 ptf, tf_k1 = tf_k1 ptf, tf_gp = tf_gp ptf, tf_sp = tf_sp ptf, tf_s8 = tf_s8 ptf,
      tf_epc = tf_epc ptf + 4\<rparr>"

lemma fork_frame_copies: "fork_frame tf = tf"
  by (simp add: fork_frame_def)

lemma child_frame_changes: "child_frame tf = tf\<lparr>tf_v0 := 0, tf_a3 := 0, tf_epc := tf_epc tf + 4\<rparr>"
  by (cases tf) (simp add: child_frame_def)

end
