(* ===== verification/Procs.thy ===== *)
theory Procs
  imports FileCalls KArray Sched Trapframe
begin

text \<open>
  Processes (\<^verbatim>\<open>kern/proc/proc.c\<close>, \<^verbatim>\<open>kern/include/proc.h\<close>): the process structures, the table of running
  processes and the table of exit codes. Structures live in stores indexed by their kernel address,
  which comes from \<open>kmalloc\<close>; the two tables are arrays of such addresses. What \<open>kmalloc\<close> leaves in a
  new structure, the blocks the arrays grow into and the addresses of string literals are parameters,
  collected in the record \<open>penv\<close>. \<open>starts\<close> holds the two arguments with which a new thread will enter
  \<open>enter_forked_process\<close>.
\<close>

subsection \<open>State\<close>

definition PID_MIN :: int where "PID_MIN = 2"
definition PID_MAX :: int where "PID_MAX = 32767"

record proc =
  p_name :: vaddr
  p_lock :: spinlock
  p_threads :: "nat karray"
  p_as :: vaddr
  p_cwd :: vaddr
  p_pid :: int
  p_cv :: vaddr
  p_lk :: vaddr
  p_table :: vaddr
  p_open :: int

record exitc =
  x_pid :: int
  exitcode :: int

record psys =
  pvm :: vm
  pfds :: "vaddr \<rightharpoonup> fd"
  tables :: "vaddr \<rightharpoonup> vaddr list"
  procs :: "vaddr \<rightharpoonup> proc"
  exitcs :: "vaddr \<rightharpoonup> exitc"
  procarr :: "vaddr karray option"
  codes :: "vaddr karray option"
  kproc :: vaddr
  curp :: vaddr
  vrefs :: "vaddr \<Rightarrow> int"
  psch :: sched
  perrno :: int
  frames :: "vaddr \<rightharpoonup> trapframe"
  starts :: "nat \<rightharpoonup> vaddr \<times> vaddr"

record penv =
  e_cpu :: nat
  e_cv_name :: vaddr
  e_lk_name :: vaddr
  e_block :: "vaddr block_alloc"
  e_tblock :: "nat block_alloc"
  e_proc :: proc
  e_table :: "vaddr list"

abbreviation pheap :: "psys \<Rightarrow> kheap" where
  "pheap s \<equiv> heap (pvm s)"

definition set_pheap :: "kheap \<Rightarrow> psys \<Rightarrow> psys" where
  "set_pheap h s = s\<lparr>pvm := (pvm s)\<lparr>heap := h\<rparr>\<rparr>"

definition set_proc :: "vaddr \<Rightarrow> (proc \<Rightarrow> proc) \<Rightarrow> psys \<Rightarrow> psys" where
  "set_proc p f s = s\<lparr>procs := (procs s)(p := map_option f (procs s p))\<rparr>"

definition with_proc :: "vaddr \<Rightarrow> psys \<Rightarrow> (proc \<Rightarrow> 'a run) \<Rightarrow> 'a run" where
  "with_proc p s k = (case procs s p of None \<Rightarrow> Halt Wild | Some pr \<Rightarrow> k pr)"

subsection \<open>Looking up process ids\<close>

fun find_pid :: "vaddr karray \<Rightarrow> (vaddr \<rightharpoonup> int) \<Rightarrow> int \<Rightarrow> nat \<Rightarrow> nat \<Rightarrow> vaddr run" where
  "find_pid a pid_of pid i 0 = Ok 0"
| "find_pid a pid_of pid i (Suc n) =
     bindR (array_get a (of_nat i)) (\<lambda>temp.
       if temp = 0 then find_pid a pid_of pid (Suc i) n
       else case pid_of temp of
           None \<Rightarrow> Halt Wild
         | Some q \<Rightarrow> if q = pid then Ok temp else find_pid a pid_of pid (Suc i) n)"

definition find_proc :: "int \<Rightarrow> psys \<Rightarrow> vaddr run" where
  "find_proc pid s =
     (case procarr s of
        None \<Rightarrow> Halt Wild
      | Some a \<Rightarrow> find_pid a (\<lambda>p. map_option p_pid (procs s p)) pid 0 (nat (sint (array_get_num a))))"

definition find_exitc :: "int \<Rightarrow> psys \<Rightarrow> vaddr run" where
  "find_exitc pid s =
     (case codes s of
        None \<Rightarrow> Halt Wild
      | Some a \<Rightarrow> find_pid a (\<lambda>p. map_option x_pid (exitcs s p)) pid 0 (nat (sint (array_get_num a))))"

text \<open>The loop that looks for an unused process id.\<close>

fun pick_pid :: "psys \<Rightarrow> int list \<Rightarrow> int option run" where
  "pick_pid s [] = Ok None"
| "pick_pid s (curid # ids) = bindR (find_proc curid s) (\<lambda>p. if p = 0 then Ok (Some curid) else pick_pid s ids)"

subsection \<open>Creating processes\<close>

text \<open>
  Entering a new process into both tables; the results of the array operations are not looked at.
  The exit-code array is created on first use.
\<close>

definition register :: "penv \<Rightarrow> vaddr \<Rightarrow> int \<Rightarrow> psys \<Rightarrow> psys run" where
  "register E p pid s =
     (case procarr s of
        None \<Rightarrow> Halt Wild
      | Some a \<Rightarrow>
          bindR (array_add (e_block E) a p) (\<lambda>(_, _, a).
          bindR (kmalloc (e_cpu E) 8 (pheap s)) (\<lambda>(c, h).
            if c = 0 then Halt Wild
            else case codes s of
                None \<Rightarrow> Halt Wild
              | Some cs \<Rightarrow>
                  bindR (array_add (e_block E) cs c) (\<lambda>(_, _, cs).
                    Ok ((set_pheap h s)\<lparr>procarr := Some a, codes := Some cs,
                          exitcs := (exitcs s)(c \<mapsto> \<lparr>x_pid = pid, exitcode = -1\<rparr>)\<rparr>)))))"

definition create_codes :: "penv \<Rightarrow> psys \<Rightarrow> psys run" where
  "create_codes E s =
     (case codes s of
        Some _ \<Rightarrow> Ok s
      | None \<Rightarrow> bindR (kmalloc (e_cpu E) 12 (pheap s)) (\<lambda>(a, h).
          if a = 0 then Halt Wild else Ok ((set_pheap h s)\<lparr>codes := Some array_init\<rparr>)))"

definition set_pid :: "int option \<Rightarrow> proc \<Rightarrow> proc" where
  "set_pid pid pr = (case pid of None \<Rightarrow> pr | Some i \<Rightarrow> pr\<lparr>p_pid := i\<rparr>)"

definition proc_create :: "penv \<Rightarrow> vaddr \<Rightarrow> psys \<Rightarrow> (vaddr \<times> psys) run" where
  "proc_create E name s =
     bindR (kmalloc (e_cpu E) 52 (pheap s)) (\<lambda>(p, h).
       if p = 0 then Ok (0, set_pheap h s)
       else bindR (kstrdup (e_cpu E) name h) (\<lambda>(nm, h).
         if nm = 0 then bindR (kfree (e_cpu E) p h) (\<lambda>h. Ok (0, set_pheap h s))
         else
           let s = set_pheap h s in
           bindR (pick_pid s [PID_MIN..PID_MAX]) (\<lambda>pid.
           let pr = set_pid pid ((e_proc E)\<lparr>p_name := nm, p_threads := array_init, p_lock := spinlock_init, p_as := 0, p_cwd := 0\<rparr>) in
           bindR (create_codes E s) (\<lambda>s.
           bindR (register E p (p_pid pr) s) (\<lambda>s.
           bindR (cv_alloc (e_cpu E) (e_cv_name E) (pheap s)) (\<lambda>(cv, h).
           bindR (lock_alloc (e_cpu E) (e_lk_name E) h) (\<lambda>(lk, h).
           bindR (kmalloc (e_cpu E) 256 h) (\<lambda>(t, h).
             Ok (p, (set_pheap h s)\<lparr>
               procs := (procs s)(p \<mapsto> pr\<lparr>p_cv := cv, p_lk := lk, p_open := 0, p_table := t\<rparr>),
               tables := (if t = 0 then tables s else (tables s)(t \<mapsto> e_table E))\<rparr>)))))))))"

text \<open>\<open>proc_bootstrap\<close>; \<open>procarray_create\<close> allocates the empty array.\<close>

definition proc_bootstrap :: "penv \<Rightarrow> vaddr \<Rightarrow> psys \<Rightarrow> psys run" where
  "proc_bootstrap E name s =
     bindR (kmalloc (e_cpu E) 12 (pheap s)) (\<lambda>(a, h).
       let s = (set_pheap h s)\<lparr>procarr := (if a = 0 then None else Some array_init)\<rparr> in
       bindR (proc_create E name s) (\<lambda>(p, s). if p = 0 then Halt Panicked else Ok (s\<lparr>kproc := p\<rparr>)))"

definition proc_create_runprogram :: "penv \<Rightarrow> vaddr \<Rightarrow> psys \<Rightarrow> (vaddr \<times> psys) run" where
  "proc_create_runprogram E name s =
     bindR (proc_create E name s) (\<lambda>(p, s).
       if p = 0 then Ok (0, s)
       else with_proc (curp s) s (\<lambda>cur.
         bindR (spinlock_acquire (e_cpu E) (p_lock cur)) (\<lambda>lk.
         let s = set_proc p (\<lambda>pr. pr\<lparr>p_as := 0\<rparr>) s;
             s = (if p_cwd cur \<noteq> 0 then
                    (set_proc p (\<lambda>pr. pr\<lparr>p_cwd := p_cwd cur\<rparr>) s)\<lparr>vrefs := (vrefs s)(p_cwd cur := vrefs s (p_cwd cur) + 1)\<rparr>
                  else s)
         in bindR (spinlock_release (e_cpu E) lk) (\<lambda>lk. Ok (p, set_proc (curp s) (\<lambda>pr. pr\<lparr>p_lock := lk\<rparr>) s)))))"

subsection \<open>Threads and address spaces of a process\<close>

definition proc_addthread :: "penv \<Rightarrow> vaddr \<Rightarrow> nat \<Rightarrow> psys \<Rightarrow> (int \<times> psys) run" where
  "proc_addthread E p t s =
     kassert (t_proc (thr (psch s) t) = None) (with_proc p s (\<lambda>pr.
       bindR (spinlock_acquire (e_cpu E) (p_lock pr)) (\<lambda>lk.
       bindR (array_add (e_tblock E) (p_threads pr) t) (\<lambda>(result, _, ts).
       bindR (spinlock_release (e_cpu E) lk) (\<lambda>lk.
         let s = set_proc p (\<lambda>pr. pr\<lparr>p_threads := ts, p_lock := lk\<rparr>) s in
         if result \<noteq> 0 then Ok (result, s)
         else Ok (0, s\<lparr>psch := set_thread t (\<lambda>th. th\<lparr>t_proc := Some (unat p)\<rparr>) (psch s)\<rparr>))))))"

definition proc_remthread :: "penv \<Rightarrow> nat \<Rightarrow> psys \<Rightarrow> psys run" where
  "proc_remthread E t s =
     (case t_proc (thr (psch s) t) of
        None \<Rightarrow> Halt Assertion
      | Some q \<Rightarrow>
          let p = of_nat q in
          with_proc p s (\<lambda>pr.
            bindR (spinlock_acquire (e_cpu E) (p_lock pr)) (\<lambda>lk.
            bindR (scan (array_get (p_threads pr)) (\<lambda>x. x = t) 0 (unat (array_get_num (p_threads pr)))) (\<lambda>found.
              case found of
                None \<Rightarrow> bindR (spinlock_release (e_cpu E) lk) (\<lambda>_. Halt Panicked)
              | Some (i, _) \<Rightarrow>
                  bindR (array_remove (p_threads pr) (of_nat i)) (\<lambda>ts.
                  bindR (spinlock_release (e_cpu E) lk) (\<lambda>lk.
                    let s = set_proc p (\<lambda>pr. pr\<lparr>p_threads := ts, p_lock := lk\<rparr>) s
                    in Ok (s\<lparr>psch := set_thread t (\<lambda>th. th\<lparr>t_proc := None\<rparr>) (psch s)\<rparr>)))))))"

text \<open>\<open>curp\<close> is 0 when the current thread has no process.\<close>

definition curproc_getas :: "penv \<Rightarrow> psys \<Rightarrow> (vaddr \<times> psys) run" where
  "curproc_getas E s =
     (if curp s = 0 then Ok (0, s)
      else with_proc (curp s) s (\<lambda>pr.
        bindR (spinlock_acquire (e_cpu E) (p_lock pr)) (\<lambda>lk.
        bindR (spinlock_release (e_cpu E) lk) (\<lambda>lk.
          Ok (p_as pr, set_proc (curp s) (\<lambda>pr. pr\<lparr>p_lock := lk\<rparr>) s)))))"

definition curproc_setas :: "penv \<Rightarrow> vaddr \<Rightarrow> psys \<Rightarrow> (vaddr \<times> psys) run" where
  "curproc_setas E newas s =
     with_proc (curp s) s (\<lambda>pr.
       bindR (spinlock_acquire (e_cpu E) (p_lock pr)) (\<lambda>lk.
       bindR (spinlock_release (e_cpu E) lk) (\<lambda>lk.
         Ok (p_as pr, set_proc (curp s) (\<lambda>pr. pr\<lparr>p_as := newas, p_lock := lk\<rparr>) s))))"

text \<open>
  \<open>proc_destroy\<close>. \<open>reclaim\<close> is the effect of \<open>VOP_DECREF\<close> on the last reference; \<open>flds\<close> gives the name and
  the wait channel a lock or a condition variable points to, \<open>idle\<close> whether such a channel is unlocked
  and empty and, for a lock, its spinlock free, as \<open>cv_destroy\<close> and \<open>lock_destroy\<close> require.
\<close>

definition free_named :: "nat \<Rightarrow> (vaddr \<Rightarrow> vaddr \<times> vaddr) \<Rightarrow> (vaddr \<Rightarrow> bool) \<Rightarrow> vaddr \<Rightarrow> kheap \<Rightarrow> kheap run" where
  "free_named me flds idle x h =
     kassert (x \<noteq> 0) (kassert (idle x)
       (bindR (kfree me (snd (flds x)) h) (\<lambda>h.
        bindR (kfree me (fst (flds x)) h) (\<lambda>h. kfree me x h))))"

definition proc_destroy ::
    "penv \<Rightarrow> (vaddr \<Rightarrow> vaddr \<times> vaddr) \<Rightarrow> (vaddr \<Rightarrow> bool) \<Rightarrow> (vaddr \<Rightarrow> psys \<Rightarrow> psys run) \<Rightarrow> vaddr \<Rightarrow> psys \<Rightarrow> psys run" where
  "proc_destroy E flds idle reclaim p s =
     kassert (p \<noteq> 0) (kassert (p \<noteq> kproc s) (with_proc p s (\<lambda>pr.
       bindR (if p_cwd pr \<noteq> 0 then
                kassert (vrefs s (p_cwd pr) > 0)
                  (bindR (if vrefs s (p_cwd pr) > 1
                          then Ok (s\<lparr>vrefs := (vrefs s)(p_cwd pr := vrefs s (p_cwd pr) - 1)\<rparr>)
                          else reclaim (p_cwd pr) s) (\<lambda>s.
                   Ok (set_proc p (\<lambda>pr. pr\<lparr>p_cwd := 0\<rparr>) s)))
              else Ok s) (\<lambda>s.
       bindR (if p_as pr \<noteq> 0 then
                bindR (curproc_setas E 0 (s\<lparr>pvm := as_deactivate (pvm s)\<rparr>)) (\<lambda>(as, s).
                bindR (as_destroy (e_cpu E) as (pvm s)) (\<lambda>m. Ok (s\<lparr>pvm := m\<rparr>)))
              else Ok s) (\<lambda>s.
       bindR (array_cleanup (p_threads pr)) (\<lambda>_.
       bindR (spinlock_cleanup (p_lock pr)) (\<lambda>_.
       bindR (free_named (e_cpu E) flds idle (p_cv pr) (pheap s)) (\<lambda>h.
       bindR (free_named (e_cpu E) flds idle (p_lk pr) h) (\<lambda>h.
       bindR (kfree (e_cpu E) (p_name pr) h) (\<lambda>h.
       bindR (kfree (e_cpu E) p h) (\<lambda>h.
         Ok ((set_pheap h s)\<lparr>procs := (procs s)(p := None)\<rparr>))))))))))))"

subsection \<open>The process table\<close>

text \<open>
  The process ids in the table, in order; the table's pointers are distinct live structures whose ids
  are distinct and in range, and every structure of either store is a live block of the heap.
\<close>

definition table :: "psys \<Rightarrow> vaddr list" where
  "table s = (case procarr s of None \<Rightarrow> [] | Some a \<Rightarrow> array_list a)"

definition pid_at :: "psys \<Rightarrow> vaddr \<Rightarrow> int" where
  "pid_at s p = (case procs s p of None \<Rightarrow> 0 | Some pr \<Rightarrow> p_pid pr)"

definition pids :: "psys \<Rightarrow> int list" where
  "pids s = map (pid_at s) (table s)"

definition arrays_ok :: "psys \<Rightarrow> bool" where
  "arrays_ok s \<longleftrightarrow> (\<exists>a. procarr s = Some a \<and> array_inv a) \<and> (\<forall>c. codes s = Some c \<longrightarrow> array_inv c \<and> 0 \<notin> set (array_list c) \<and> set (array_list c) \<subseteq> dom (exitcs s))"

definition procs_ok :: "(vaddr \<times> nat) set \<Rightarrow> psys \<Rightarrow> bool" where
  "procs_ok B s \<longleftrightarrow> arrays_ok s \<and> heap_abs (pheap s) B \<and> dom (procs s) \<union> dom (exitcs s) \<subseteq> fst ` B
     \<and> 0 \<notin> set (table s) \<and> set (table s) \<subseteq> dom (procs s) \<and> distinct (pids s) \<and> set (pids s) \<subseteq> {PID_MIN..PID_MAX}"

definition table_ok :: "psys \<Rightarrow> bool" where
  "table_ok s \<longleftrightarrow> arrays_ok s \<and> 0 \<notin> set (table s) \<and> set (table s) \<subseteq> dom (procs s) \<and> distinct (pids s)"

lemma procs_ok_table: "procs_ok B s \<Longrightarrow> table_ok s"
  by (simp add: procs_ok_def table_ok_def)

lemma array_num_int:
  assumes "array_inv a"
  shows "nat (sint (array_get_num a)) = length (array_list a)"
proof -
  have "unat (arr_num a) < 2 ^ 31" using array_inv_bounds(2) [OF assms] by simp
  then show ?thesis using array_list_length [OF assms] by (simp add: array_get_num_def sint_small)
qed

lemma find_pid_from:
  assumes "array_inv a" and "\<And>x. x \<in> set (array_list a) \<Longrightarrow> x \<noteq> 0 \<and> pid_of x \<noteq> None"
  shows "i + n = length (array_list a) \<Longrightarrow> find_pid a pid_of pid i n =
    Ok (case find (\<lambda>x. pid_of x = Some pid) (drop i (array_list a)) of None \<Rightarrow> 0 | Some x \<Rightarrow> x)"
proof (induction n arbitrary: i)
  case (Suc n)
  then have i: "i < length (array_list a)" by simp
  let ?x = "array_list a ! i"
  have get: "array_get a (of_nat i) = Ok ?x"
    using karr.get_elems [OF assms(1)] karr.index_word [OF assms(1) i] i by simp
  obtain q where q: "?x \<noteq> 0" "pid_of ?x = Some q" using assms(2) [of ?x] i by auto
  have "drop i (array_list a) = ?x # drop (Suc i) (array_list a)" using i by (simp add: Cons_nth_drop_Suc)
  then show ?case using get q Suc.IH [of "Suc i"] Suc.prems by simp
qed simp

lemma find_pid_spec:
  assumes "array_inv a" and "\<And>x. x \<in> set (array_list a) \<Longrightarrow> x \<noteq> 0 \<and> pid_of x \<noteq> None"
  shows "find_pid a pid_of pid 0 (nat (sint (array_get_num a))) =
    Ok (case find (\<lambda>x. pid_of x = Some pid) (array_list a) of None \<Rightarrow> 0 | Some x \<Rightarrow> x)"
  using find_pid_from [OF assms, where i = 0] array_num_int [OF assms(1)] by simp

lemma find_proc_spec:
  assumes "table_ok s"
  shows "find_proc pid s = Ok (case find (\<lambda>p. pid_at s p = pid) (table s) of None \<Rightarrow> 0 | Some p \<Rightarrow> p)"
proof -
  obtain a where a: "procarr s = Some a" "array_inv a" "table s = array_list a"
    using assms by (auto simp: table_ok_def arrays_ok_def table_def)
  have mem: "x \<noteq> 0 \<and> map_option p_pid (procs s x) \<noteq> None" if "x \<in> set (array_list a)" for x
    using assms that a(3) by (auto simp: table_ok_def)
  have "find (\<lambda>x. map_option p_pid (procs s x) = Some pid) (array_list a) = find (\<lambda>p. pid_at s p = pid) (array_list a)"
  proof (rule find_cong [OF refl])
    fix x assume "x \<in> set (array_list a)"
    then obtain pr where "procs s x = Some pr" using mem [of x] by auto
    then show "(map_option p_pid (procs s x) = Some pid) = (pid_at s x = pid)" by (simp add: pid_at_def)
  qed
  then show ?thesis using find_pid_spec [OF a(2), of "\<lambda>p. map_option p_pid (procs s p)" pid] mem a(1,3) by (simp add: find_proc_def)
qed

lemma find_proc_null:
  assumes "table_ok s"
  shows "find_proc pid s = Ok 0 \<longleftrightarrow> pid \<notin> set (pids s)"
proof (cases "find (\<lambda>p. pid_at s p = pid) (table s)")
  case None
  then have "pid \<notin> set (pids s)" by (auto simp: pids_def find_None_iff)
  then show ?thesis using None by (simp add: find_proc_spec [OF assms])
next
  case (Some p)
  then have "p \<in> set (table s)" "pid_at s p = pid" by (auto simp: find_Some_iff)
  moreover from this have "p \<noteq> 0" using assms by (auto simp: table_ok_def)
  ultimately show ?thesis using Some by (auto simp: find_proc_spec [OF assms] pids_def)
qed

lemma find_proc_found:
  assumes "table_ok s" and "p \<in> set (table s)"
  shows "find_proc (pid_at s p) s = Ok p"
proof -
  have inj: "inj_on (pid_at s) (set (table s))" using assms(1) by (simp add: table_ok_def pids_def distinct_map)
  obtain q where q: "find (\<lambda>q. pid_at s q = pid_at s p) (table s) = Some q"
    using assms(2) by (cases "find (\<lambda>q. pid_at s q = pid_at s p) (table s)") (auto simp: find_None_iff)
  then have "q \<in> set (table s)" "pid_at s q = pid_at s p" by (auto simp: find_Some_iff)
  then have "q = p" using inj assms(2) by (simp add: inj_on_def)
  then show ?thesis using q by (simp add: find_proc_spec [OF assms(1)])
qed

lemma pick_pid_spec:
  assumes "table_ok s"
  shows "pick_pid s ids = Ok (find (\<lambda>i. i \<notin> set (pids s)) ids)"
proof (induction ids)
  case (Cons i ids)
  obtain p where p: "find_proc i s = Ok p" using find_proc_spec [OF assms] by blast
  then have "p = 0 \<longleftrightarrow> i \<notin> set (pids s)" using find_proc_null [OF assms, of i] by simp
  then show ?case using p Cons.IH by simp
qed simp

text \<open>With fewer processes than ids there is a free one, and the smallest is taken.\<close>

lemma pick_pid_free:
  assumes "procs_ok B s" and "length (pids s) < 32766"
  obtains pid where "pick_pid s [PID_MIN..PID_MAX] = Ok (Some pid)" and "pid \<in> {PID_MIN..PID_MAX}" and "pid \<notin> set (pids s)"
    and "\<And>i. PID_MIN \<le> i \<Longrightarrow> i < pid \<Longrightarrow> i \<in> set (pids s)"
proof -
  have "\<not> {PID_MIN..PID_MAX} \<subseteq> set (pids s)"
  proof
    assume "{PID_MIN..PID_MAX} \<subseteq> set (pids s)"
    then have "card {PID_MIN..PID_MAX} \<le> card (set (pids s))" by (intro card_mono) simp_all
    then show False using assms(2) card_length [of "pids s"] by (simp add: PID_MIN_def PID_MAX_def)
  qed
  then obtain j where "j \<in> {PID_MIN..PID_MAX}" "j \<notin> set (pids s)" by blast
  then have "j \<in> set [PID_MIN..PID_MAX]" "j \<notin> set (pids s)" by simp_all
  then obtain pid where pid: "find (\<lambda>i. i \<notin> set (pids s)) [PID_MIN..PID_MAX] = Some pid"
    by (cases "find (\<lambda>i. i \<notin> set (pids s)) [PID_MIN..PID_MAX]") (auto simp: find_None_iff)
  then obtain n where n: "n < length [PID_MIN..PID_MAX]" "pid = [PID_MIN..PID_MAX] ! n" "pid \<notin> set (pids s)"
    "\<And>j. j < n \<Longrightarrow> [PID_MIN..PID_MAX] ! j \<in> set (pids s)"
    by (auto simp: find_Some_iff)
  have val: "pid = PID_MIN + int n" "n < nat (PID_MAX - PID_MIN + 1)" using n(1,2) by (simp_all add: nth_upto)
  have "i \<in> set (pids s)" if "PID_MIN \<le> i" "i < pid" for i
    using n(4) [of "nat (i - PID_MIN)"] that val by (simp add: nth_upto)
  moreover have "pid \<in> {PID_MIN..PID_MAX}" using n(1,2) nth_mem by fastforce
  ultimately show ?thesis using that pid n(3) by (simp add: pick_pid_spec [OF procs_ok_table [OF assms(1)]])
qed

subsection \<open>Creating a process keeps the table well-formed\<close>

text \<open>The environment: blocks of the right length, literals where no allocation reaches them.\<close>

definition env_ok :: "penv \<Rightarrow> kheap \<Rightarrow> bool" where
  "env_ok E h \<longleftrightarrow> block_alloc_ok (e_block E) \<and> (\<exists>xs. kstring h {} (e_cv_name E) xs) \<and> (\<exists>xs. kstring h {} (e_lk_name E) xs)"

definition code_list :: "psys \<Rightarrow> vaddr list" where
  "code_list s = (case codes s of None \<Rightarrow> [] | Some a \<Rightarrow> array_list a)"

lemma kstring_mono: "kstring h A a xs \<Longrightarrow> A \<subseteq> B \<Longrightarrow> kstring h B a xs"
  by (auto simp: kstring_def)

lemma env_ok_grown: "env_ok E h \<Longrightarrow> grown h B h' B' \<Longrightarrow> env_ok E h'"
  unfolding env_ok_def using kstring_kept [of h "{}" _ _ h'] by (auto simp: grown_def kept_def)

lemma set_pheap_simps [simp]:
  "pheap (set_pheap h s) = h" "procarr (set_pheap h s) = procarr s" "codes (set_pheap h s) = codes s" "procs (set_pheap h s) = procs s"
  "exitcs (set_pheap h s) = exitcs s" "table (set_pheap h s) = table s" "pids (set_pheap h s) = pids s" "curp (set_pheap h s) = curp s"
  "pid_at (set_pheap h s) = pid_at s" "code_list (set_pheap h s) = code_list s" "tables (set_pheap h s) = tables s"
  by (simp_all add: set_pheap_def table_def pids_def pid_at_def code_list_def fun_eq_iff)

lemma codes_update_simps [simp]: "table (s\<lparr>codes := c\<rparr>) = table s" "pids (s\<lparr>codes := c\<rparr>) = pids s"
  by (simp_all add: table_def pids_def pid_at_def)

lemma procs_ok_grown:
  assumes "procs_ok B s" and "grown (pheap s) B h B'"
  shows "procs_ok B' (set_pheap h s)"
proof -
  have "fst ` B \<subseteq> fst ` B'" using assms(2) by (auto simp: grown_def)
  then show ?thesis using assms by (simp add: procs_ok_def arrays_ok_def grown_def) blast
qed

lemma kmalloc_block:
  assumes "heap_abs h B" and "unat sz < 2048" and "kmalloc me sz h = Ok (p, h')" and "p \<noteq> 0"
  obtains n where "grown h B h' (insert (p, n) B)" and "p \<notin> fst ` B"
  using kmalloc_allocated [OF assms(1-3)] assms(4) that by (force simp: allocated_def)

lemma kmalloc_any:
  assumes "heap_abs h B" and "unat sz < 2048" and "kmalloc me sz h = Ok (p, h')"
  obtains B' where "grown h B h' B'" and "p \<noteq> 0 \<Longrightarrow> p \<in> fst ` B'"
  using kmalloc_allocated [OF assms] that by (cases "p = 0") (force simp: allocated_def)+

lemma create_codes_result:
  assumes "procs_ok B s" and "create_codes E s = Ok s'"
  obtains h B' where "s' = (set_pheap h s)\<lparr>codes := codes s'\<rparr>" and "grown (pheap s) B h B'" and "procs_ok B' s'" and "codes s' \<noteq> None"
    and "code_list s' = code_list s"
proof (cases "codes s")
  case (Some cs)
  then have "s' = s" using assms(2) by (simp add: create_codes_def)
  moreover have "grown (pheap s) B (pheap s) B" using assms(1) by (simp add: procs_ok_def grown_refl)
  ultimately show ?thesis using that [of "pheap s" B] Some assms(1) by (simp add: set_pheap_def)
next
  case None
  then obtain a h where a: "kmalloc (e_cpu E) 12 (pheap s) = Ok (a, h)" "s' = (set_pheap h s)\<lparr>codes := Some array_init\<rparr>"
    using assms(2) by (auto simp: create_codes_def bindR_eq_Ok split: if_splits)
  have abs: "heap_abs (pheap s) B" using assms(1) by (simp add: procs_ok_def)
  obtain B' where g: "grown (pheap s) B h B'" by (rule kmalloc_any [OF abs _ a(1)]) simp
  have "procs_ok B' s'"
    using procs_ok_grown [OF assms(1) g] unfolding a(2) by (simp add: procs_ok_def arrays_ok_def)
  then show ?thesis using that [OF _ g] a(2) None by (simp add: code_list_def)
qed

lemma register_result:
  assumes "procs_ok B s" and "block_alloc_ok (e_block E)" and "length (table s) < 2 ^ 28" and "length (code_list s) < 2 ^ 28"
    and "register E p pid s = Ok s'"
  obtains a cs c h B' where "s' = (set_pheap h s)\<lparr>procarr := Some a, codes := Some cs, exitcs := (exitcs s)(c \<mapsto> \<lparr>x_pid = pid, exitcode = -1\<rparr>)\<rparr>"
    and "grown (pheap s) B h B'" and "array_inv a" and "array_list a = table s \<or> array_list a = table s @ [p]"
    and "array_inv cs" and "array_list cs = code_list s \<or> array_list cs = code_list s @ [c]" and "c \<noteq> 0" and "c \<in> fst ` B'" and "c \<notin> fst ` B"
proof -
  obtain a0 cs0 where a0: "procarr s = Some a0" "array_inv a0" "codes s = Some cs0" "array_inv cs0"
    using assms(1,5) by (auto simp: procs_ok_def arrays_ok_def register_def bindR_eq_Ok split: option.splits if_splits)
  have lists: "table s = array_list a0" "code_list s = array_list cs0" using a0 by (simp_all add: table_def code_list_def)
  obtain r i a c h r' i' cs where st: "array_add (e_block E) a0 p = Ok (r, i, a)" "kmalloc (e_cpu E) 8 (pheap s) = Ok (c, h)" "c \<noteq> 0"
      "array_add (e_block E) cs0 c = Ok (r', i', cs)"
      "s' = (set_pheap h s)\<lparr>procarr := Some a, codes := Some cs, exitcs := (exitcs s)(c \<mapsto> \<lparr>x_pid = pid, exitcode = -1\<rparr>)\<rparr>"
    using assms(5) a0 by (auto simp: register_def bindR_eq_Ok split: if_splits)
  have a: "array_inv a" "array_list a = table s \<or> array_list a = table s @ [p]"
    using karr.add_elems [OF a0(2) assms(2), of p] st(1) assms(3) lists a0(2) by auto
  have cs: "array_inv cs" "array_list cs = code_list s \<or> array_list cs = code_list s @ [c]"
    using karr.add_elems [OF a0(4) assms(2), of c] st(4) assms(4) lists a0(4) by auto
  have "heap_abs (pheap s) B" using assms(1) by (simp add: procs_ok_def)
  then obtain n where "grown (pheap s) B h (insert (c, n) B)" "c \<notin> fst ` B" by (rule kmalloc_block [OF _ _ st(2,3)]) simp
  then show ?thesis using that st(3,5) a cs by force
qed

text \<open>The state after everything has been put together.\<close>

lemma entered_ok:
  assumes ok: "procs_ok B s" and g: "grown (pheap s) B (pheap s') B'" and p: "p \<noteq> 0" "p \<notin> fst ` B" "p \<in> fst ` B'"
    and arr: "procarr s' = Some a" "array_inv a" "array_list a = table s \<or> array_list a = table s @ [p]"
    and cs: "codes s' = Some cs" "array_inv cs" "array_list cs = code_list s \<or> array_list cs = code_list s @ [c]"
    and ex: "exitcs s' = (exitcs s)(c \<mapsto> x)" "c \<noteq> 0" "c \<in> fst ` B'"
    and pr: "procs s' = (procs s)(p \<mapsto> pr)" "p_pid pr \<in> {PID_MIN..PID_MAX}" "p_pid pr \<notin> set (pids s)"
  shows "procs_ok B' s'" and "pids s' = pids s \<or> pids s' = pids s @ [p_pid pr]"
proof -
  have sub: "fst ` B \<subseteq> fst ` B'" using g by (auto simp: grown_def)
  have new: "p \<notin> dom (procs s)" using ok p(2) by (auto simp: procs_ok_def)
  then have notin: "p \<notin> set (table s)" using ok by (auto simp: procs_ok_def)
  have at: "pid_at s' q = (if q = p then p_pid pr else pid_at s q)" for q using pr(1) by (simp add: pid_at_def)
  have tab: "table s' = array_list a" using arr(1) by (simp add: table_def)
  have old: "map (pid_at s') (table s) = pids s" using at notin by (auto simp: pids_def)
  show pids: "pids s' = pids s \<or> pids s' = pids s @ [p_pid pr]"
    using arr(3) tab old at [of p] by (auto simp: pids_def)
  have codes: "0 \<notin> set (code_list s)" "set (code_list s) \<subseteq> dom (exitcs s)"
    using ok by (cases "codes s"; force simp: procs_ok_def arrays_ok_def code_list_def)+
  have "arrays_ok s'" using arr(1,2) cs ex(1,2) codes by (auto simp: arrays_ok_def)
  moreover have "heap_abs (pheap s') B'" using g by (simp add: grown_def)
  moreover have "dom (procs s) \<union> dom (exitcs s) \<subseteq> fst ` B'" using ok sub unfolding procs_ok_def by blast
  then have "dom (procs s') \<union> dom (exitcs s') \<subseteq> fst ` B'" using p(3) ex(1,3) pr(1) by simp
  moreover have "0 \<notin> set (table s')" "set (table s') \<subseteq> dom (procs s')" using ok tab arr(3) p(1) pr(1) by (auto simp: procs_ok_def)
  moreover have "distinct (pids s')" "set (pids s') \<subseteq> {PID_MIN..PID_MAX}" using ok pids pr(2,3) by (auto simp: procs_ok_def)
  ultimately show "procs_ok B' s'" by (simp add: procs_ok_def)
qed

text \<open>What creation has done when it returns.\<close>

definition created :: "psys \<Rightarrow> vaddr \<Rightarrow> psys \<Rightarrow> bool" where
  "created s p s' \<longleftrightarrow> (if p = 0 then procs s' = procs s \<and> pids s' = pids s
     else \<exists>pr. procs s' = (procs s)(p \<mapsto> pr) \<and> p \<notin> dom (procs s) \<and> p_pid pr \<in> {PID_MIN..PID_MAX} \<and> p_pid pr \<notin> set (pids s)
       \<and> (\<forall>i. PID_MIN \<le> i \<longrightarrow> i < p_pid pr \<longrightarrow> i \<in> set (pids s)) \<and> (pids s' = pids s \<or> pids s' = pids s @ [p_pid pr]))"

text \<open>The allocations after the tables: a condition variable, a lock and the descriptor table.\<close>

lemma synch_alloc_grown:
  assumes "heap_abs h B" and "env_ok E h" and "cv_alloc me (e_cv_name E) h = Ok (cv, h1)" and "lock_alloc me (e_lk_name E) h1 = Ok (lk, h2)"
    and "kmalloc me 256 h2 = Ok (t, h3)"
  obtains B' where "grown h B h3 B'"
proof -
  obtain xs where xs: "kstring h B (e_cv_name E) xs" using assms(2) kstring_mono [of h "{}"] by (auto simp: env_ok_def)
  obtain B1 where g1: "grown h B h1 B1"
    using named_alloc_allocated [OF assms(1) xs _ assms(3) [unfolded cv_alloc_named]] by auto
  have "env_ok E h1" by (rule env_ok_grown [OF assms(2) g1])
  then obtain ys where ys: "kstring h1 B1 (e_lk_name E) ys" using kstring_mono [of h1 "{}"] by (auto simp: env_ok_def)
  obtain B2 where g2: "grown h1 B1 h2 B2"
    using named_alloc_allocated [OF grown_abs [OF g1] ys _ assms(4) [unfolded lock_alloc_named]] by auto
  obtain B3 where g3: "grown h2 B2 h3 B3" by (rule kmalloc_any [OF grown_abs [OF g2] _ assms(5)]) simp
  show ?thesis using that grown_trans [OF grown_trans [OF g1 g2] g3] .
qed

lemma set_pid_simps [simp]: "p_pid (set_pid (Some i) pr) = i"
  by (simp add: set_pid_def)

lemma proc_create_run:
  assumes "proc_create E name s = Ok (p, s')" and "p \<noteq> 0"
  obtains h nm h1 pid s2 s3 cv h4 lk h5 t h6 pr where "kmalloc (e_cpu E) 52 (pheap s) = Ok (p, h)" and "kstrdup (e_cpu E) name h = Ok (nm, h1)"
    and "pick_pid (set_pheap h1 s) [PID_MIN..PID_MAX] = Ok pid" and "\<forall>i. pid = Some i \<longrightarrow> p_pid pr = i"
    and "create_codes E (set_pheap h1 s) = Ok s2" and "register E p (p_pid pr) s2 = Ok s3"
    and "cv_alloc (e_cpu E) (e_cv_name E) (pheap s3) = Ok (cv, h4)" and "lock_alloc (e_cpu E) (e_lk_name E) h4 = Ok (lk, h5)"
    and "kmalloc (e_cpu E) 256 h5 = Ok (t, h6)" and "procs s' = (procs s3)(p \<mapsto> pr)"
    and "pheap s' = h6" and "procarr s' = procarr s3" and "codes s' = codes s3" and "exitcs s' = exitcs s3"
proof -
  let ?raw = "\<lambda>nm. (e_proc E)\<lparr>p_name := nm, p_threads := array_init, p_lock := spinlock_init, p_as := 0, p_cwd := 0\<rparr>"
  obtain h nm h1 where k: "kmalloc (e_cpu E) 52 (pheap s) = Ok (p, h)" "kstrdup (e_cpu E) name h = Ok (nm, h1)" "nm \<noteq> 0"
    using assms by (auto simp: proc_create_def Let_def bindR_eq_Ok split: if_splits)
  obtain pid s2 s3 where r: "pick_pid (set_pheap h1 s) [PID_MIN..PID_MAX] = Ok pid" "create_codes E (set_pheap h1 s) = Ok s2"
      "register E p (p_pid (set_pid pid (?raw nm))) s2 = Ok s3"
    using assms k by (auto simp: proc_create_def bindR_eq_Ok Let_def)
  obtain cv h4 lk h5 t h6 where t: "cv_alloc (e_cpu E) (e_cv_name E) (pheap s3) = Ok (cv, h4)" "lock_alloc (e_cpu E) (e_lk_name E) h4 = Ok (lk, h5)"
    "kmalloc (e_cpu E) 256 h5 = Ok (t, h6)"
    "s' = (set_pheap h6 s3)\<lparr>procs := (procs s3)(p \<mapsto> (set_pid pid (?raw nm))\<lparr>p_cv := cv, p_lk := lk, p_open := 0, p_table := t\<rparr>),
           tables := (if t = 0 then tables s3 else (tables s3)(t \<mapsto> e_table E))\<rparr>"
    using assms k r by (auto simp: proc_create_def bindR_eq_Ok Let_def)
  show ?thesis
    by (rule that [OF k(1,2) r(1) _ r(2) _ t(1-3), of "(set_pid pid (?raw nm))\<lparr>p_cv := cv, p_lk := lk, p_open := 0, p_table := t\<rparr>"])
      (use r(3) t(4) in simp_all)
qed

lemma proc_create_ok:
  assumes ok: "procs_ok B s" and env: "env_ok E (pheap s)" and name: "kstring (pheap s) B name xs"
    and room: "length (pids s) < 32766" "length (code_list s) < 2 ^ 28" and run: "proc_create E name s = Ok (p, s')" and p0: "p \<noteq> 0"
  shows "\<exists>B'. procs_ok B' s' \<and> grown (pheap s) B (pheap s') B' \<and> created s p s'"
proof -
  obtain h nm h1 pid s2 s3 cv h4 lk h5 t h6 pr where k: "kmalloc (e_cpu E) 52 (pheap s) = Ok (p, h)" "kstrdup (e_cpu E) name h = Ok (nm, h1)"
    and pid: "pick_pid (set_pheap h1 s) [PID_MIN..PID_MAX] = Ok pid" "\<forall>i. pid = Some i \<longrightarrow> p_pid pr = i"
    and r: "create_codes E (set_pheap h1 s) = Ok s2" "register E p (p_pid pr) s2 = Ok s3"
    and t: "cv_alloc (e_cpu E) (e_cv_name E) (pheap s3) = Ok (cv, h4)" "lock_alloc (e_cpu E) (e_lk_name E) h4 = Ok (lk, h5)" "kmalloc (e_cpu E) 256 h5 = Ok (t, h6)"
    and s': "procs s' = (procs s3)(p \<mapsto> pr)" "pheap s' = h6" "procarr s' = procarr s3" "codes s' = codes s3" "exitcs s' = exitcs s3"
    by (rule proc_create_run [OF run p0])
  have abs: "heap_abs (pheap s) B" using ok by (simp add: procs_ok_def)
  obtain n where g0: "grown (pheap s) B h (insert (p, n) B)" and new: "p \<notin> fst ` B" by (rule kmalloc_block [OF abs _ k(1) p0]) simp
  obtain B1 where g1: "grown h (insert (p, n) B) h1 B1"
    using kstrdup_allocated(1) [OF grown_abs [OF g0] kstring_grown [OF name g0] k(2)] by (cases "nm = 0") (auto simp: allocated_def)
  have g01: "grown (pheap s) B h1 B1" by (rule grown_trans [OF g0 g1])
  have ok1: "procs_ok B1 (set_pheap h1 s)" by (rule procs_ok_grown [OF ok g01])
  obtain h2 B2 where s2: "s2 = (set_pheap h2 (set_pheap h1 s))\<lparr>codes := codes s2\<rparr>" and g2: "grown h1 B1 h2 B2" and ok2: "procs_ok B2 s2"
    and lists: "code_list s2 = code_list s"
    by (rule create_codes_result [OF ok1 r(1)]) simp
  have same2: "pheap s2 = h2" "table s2 = table s" "procs s2 = procs s" "exitcs s2 = exitcs s" "pids s2 = pids s"
    by (subst s2; simp add: table_def pids_def pid_at_def)+
  have g02: "grown (pheap s) B h2 B2" by (rule grown_trans [OF g01 g2])
  have len: "length (table s2) < 2 ^ 28" "length (code_list s2) < 2 ^ 28" using room lists same2(2) by (simp_all add: pids_def)
  have bl: "block_alloc_ok (e_block E)" using env by (simp add: env_ok_def)
  obtain a cs c h3 B3 where s3: "s3 = (set_pheap h3 s2)\<lparr>procarr := Some a, codes := Some cs, exitcs := (exitcs s2)(c \<mapsto> \<lparr>x_pid = p_pid pr, exitcode = -1\<rparr>)\<rparr>"
    and g3: "grown (pheap s2) B2 h3 B3" and a: "array_inv a" "array_list a = table s2 \<or> array_list a = table s2 @ [p]"
    and cs: "array_inv cs" "array_list cs = code_list s2 \<or> array_list cs = code_list s2 @ [c]" and c: "c \<noteq> 0" "c \<in> fst ` B3"
    by (rule register_result [OF ok2 bl len r(2)])
  have g03: "grown (pheap s) B h3 B3" using grown_trans [OF g02] g3 same2(1) by simp
  have h3: "pheap s3 = h3" using s3 by simp
  obtain B' where g4: "grown h3 B3 h6 B'"
    by (rule synch_alloc_grown [OF grown_abs [OF g03] env_ok_grown [OF env g03] t(1) [unfolded h3] t(2,3)])
  have g: "grown (pheap s) B (pheap s') B'" using grown_trans [OF g03 g4] s'(2) by simp
  obtain i where i: "pid = Some i" "i \<in> {PID_MIN..PID_MAX}" "i \<notin> set (pids s)" "\<And>j. PID_MIN \<le> j \<Longrightarrow> j < i \<Longrightarrow> j \<in> set (pids s)"
    using pick_pid_free [OF ok1] pid(1) room(1) by (metis run.inject(1) set_pheap_simps(7))
  have "(p, n) \<in> B'" using grown_member [OF g4 grown_member [OF g3 grown_member [OF g2 grown_member [OF g1]]]] same2(1) by simp
  then have pB: "p \<in> fst ` B'" by force
  have "c \<in> fst ` B'" using c(2) g4 by (force simp: grown_def)
  then have "procs_ok B' s' \<and> (pids s' = pids s \<or> pids s' = pids s @ [p_pid pr])"
    using entered_ok [OF ok g p0 new pB _ a(1) _ _ cs(1) _ _ c(1), of "\<lparr>x_pid = p_pid pr, exitcode = -1\<rparr>" pr] s3 s' a(2) cs(2) same2 lists i pid(2)
    by simp
  moreover have "p \<notin> dom (procs s)" using ok new by (auto simp: procs_ok_def)
  ultimately show ?thesis using g s'(1) s3 same2(3) i pid(2) p0 by (auto simp: created_def)
qed

lemma proc_create_null:
  assumes ok: "procs_ok B s" and name: "kstring (pheap s) B name xs" and run: "proc_create E name s = Ok (0, s')"
  shows "\<exists>B'. procs_ok B' s' \<and> grown (pheap s) B (pheap s') B' \<and> created s 0 s'"
proof -
  have abs: "heap_abs (pheap s) B" using ok by (simp add: procs_ok_def)
  obtain p h where k: "kmalloc (e_cpu E) 52 (pheap s) = Ok (p, h)" using run by (auto simp: proc_create_def bindR_eq_Ok)
  have "\<exists>h'. s' = set_pheap h' s \<and> grown (pheap s) B h' B"
  proof (cases "p = 0")
    case True
    then show ?thesis using run k kmalloc_allocated [OF abs _ k] by (auto simp: proc_create_def allocated_def)
  next
    case False
    then obtain n where n: "\<forall>k. (p, k) \<notin> B" "grown (pheap s) B h (insert (p, n) B)"
      using kmalloc_allocated [OF abs _ k] by (auto simp: allocated_def)
    obtain nm h1 where nm: "kstrdup (e_cpu E) name h = Ok (nm, h1)" using run k False by (auto simp: proc_create_def bindR_eq_Ok)
    have "nm = 0"
    proof (rule ccontr)
      assume "nm \<noteq> 0"
      then show False using run k False nm by (auto simp: proc_create_def Let_def bindR_eq_Ok)
    qed
    then obtain h2 where h2: "kfree (e_cpu E) p h1 = Ok h2" "s' = set_pheap h2 s" using run k False nm by (auto simp: proc_create_def bindR_eq_Ok)
    have "grown h (insert (p, n) B) h1 (insert (p, n) B)"
      using kstrdup_allocated(1) [OF grown_abs [OF n(2)] kstring_grown [OF name n(2)] nm] \<open>nm = 0\<close> by (simp add: allocated_def)
    then have "grown (pheap s) B h2 B" by (rule grown_free [OF grown_trans [OF n(2)] _ n(1) h2(1)]) simp
    then show ?thesis using h2(2) by blast
  qed
  then obtain h' where h': "s' = set_pheap h' s" "grown (pheap s) B h' B" by blast
  then show ?thesis using procs_ok_grown [OF ok h'(2)] by (auto simp: created_def)
qed

text \<open>With enough memory creation succeeds.\<close>

lemma register_progress:
  assumes "procs_ok B s" and "block_alloc_ok (e_block E)" and "length (table s) < 2 ^ 28" and "length (code_list s) < 2 ^ 28"
    and "codes s \<noteq> None" and "roomy (Suc k) (pheap s)"
  shows "\<exists>s'. register E p pid s = Ok s' \<and> roomy k (pheap s')"
proof -
  obtain a cs where a: "procarr s = Some a" "array_inv a" "codes s = Some cs" "array_inv cs"
    using assms(1,5) by (auto simp: procs_ok_def arrays_ok_def)
  have lists: "table s = array_list a" "code_list s = array_list cs" using a by (simp_all add: table_def code_list_def)
  obtain r i a' where a': "array_add (e_block E) a p = Ok (r, i, a')"
    using karr.add_elems [OF a(2) assms(2), of p] assms(3) lists by auto
  have abs: "heap_abs (pheap s) B" using assms(1) by (simp add: procs_ok_def)
  obtain c h where c: "kmalloc (e_cpu E) 8 (pheap s) = Ok (c, h)" "c \<noteq> 0" "roomy k h"
    using kmalloc_progress [OF abs _ assms(6), of 8 "e_cpu E"] by auto
  obtain r' i' cs' where "array_add (e_block E) cs c = Ok (r', i', cs')"
    using karr.add_elems [OF a(4) assms(2), of c] assms(4) lists by auto
  then show ?thesis using a a' c by (simp add: register_def)
qed

lemma synch_alloc_progress:
  assumes "heap_abs h B" and "env_ok E h" and "roomy (Suc (3 + (3 + k))) h"
  shows "\<exists>cv h1 lk h2 t h3. cv_alloc me (e_cv_name E) h = Ok (cv, h1) \<and> lock_alloc me (e_lk_name E) h1 = Ok (lk, h2) \<and> kmalloc me 256 h2 = Ok (t, h3) \<and> t \<noteq> 0 \<and> roomy k h3"
proof -
  have room: "roomy (3 + (3 + Suc k)) h" using assms(3) by (simp add: add.commute)
  obtain xs where xs: "kstring h B (e_cv_name E) xs" using assms(2) kstring_mono [of h "{}"] by (auto simp: env_ok_def)
  obtain cv h1 where cv: "named_alloc 8 me (e_cv_name E) h = Ok (cv, h1)" "roomy (3 + Suc k) h1"
    using named_alloc_progress [OF assms(1) xs _ room, of 8 me] by auto
  obtain B1 where g1: "grown h B h1 B1" using named_alloc_allocated [OF assms(1) xs _ cv(1)] by auto
  obtain ys where ys: "kstring h1 B1 (e_lk_name E) ys"
    using env_ok_grown [OF assms(2) g1] kstring_mono [of h1 "{}"] by (auto simp: env_ok_def)
  obtain lk h2 where lk: "named_alloc 20 me (e_lk_name E) h1 = Ok (lk, h2)" "roomy (Suc k) h2"
    using named_alloc_progress [OF grown_abs [OF g1] ys _ cv(2), of 20 me] by auto
  obtain B2 where g2: "grown h1 B1 h2 B2" using named_alloc_allocated [OF grown_abs [OF g1] ys _ lk(1)] by auto
  obtain t h3 where "kmalloc me 256 h2 = Ok (t, h3)" "t \<noteq> 0" "roomy k h3" using kmalloc_progress [OF grown_abs [OF g2] _ lk(2), of 256 me] by auto
  then show ?thesis using cv(1) lk(1) by (auto simp: cv_alloc_named lock_alloc_named)
qed

lemma create_codes_progress:
  assumes "procs_ok B s" and "roomy (Suc k) (pheap s)"
  shows "\<exists>s'. create_codes E s = Ok s' \<and> roomy k (pheap s')"
proof (cases "codes s")
  case None
  have "heap_abs (pheap s) B" using assms(1) by (simp add: procs_ok_def)
  then obtain a h where "kmalloc (e_cpu E) 12 (pheap s) = Ok (a, h)" "a \<noteq> 0" "roomy k h"
    using kmalloc_progress [OF _ _ assms(2), of B 12 "e_cpu E"] by auto
  then show ?thesis using None by (simp add: create_codes_def)
next
  case (Some c)
  then show ?thesis using roomy_mono [OF assms(2), of k] by (simp add: create_codes_def)
qed

lemma proc_create_progress:
  assumes ok: "procs_ok B s" and env: "env_ok E (pheap s)" and name: "kstring (pheap s) B name xs"
    and len: "length (pids s) < 32766" "length (code_list s) < 2 ^ 28" and room: "roomy 11 (pheap s)"
  shows "\<exists>p s'. proc_create E name s = Ok (p, s') \<and> p \<noteq> 0"
proof -
  have abs: "heap_abs (pheap s) B" using ok by (simp add: procs_ok_def)
  have r: "roomy (Suc (Suc (Suc (Suc (Suc (3 + (3 + 0))))))) (pheap s)" using room by (simp add: numeral_eq_Suc)
  obtain p h where p: "kmalloc (e_cpu E) 52 (pheap s) = Ok (p, h)" "p \<noteq> 0" "roomy (Suc (Suc (Suc (Suc (3 + (3 + 0)))))) h"
    using kmalloc_progress [OF abs _ r, of 52 "e_cpu E"] by auto
  obtain n where g0: "grown (pheap s) B h (insert (p, n) B)" by (rule kmalloc_block [OF abs _ p(1,2)]) simp
  obtain nm h1 where nm: "kstrdup (e_cpu E) name h = Ok (nm, h1)" "nm \<noteq> 0" "roomy (Suc (Suc (Suc (3 + (3 + 0))))) h1"
    using kstrdup_progress [OF grown_abs [OF g0] kstring_grown [OF name g0] p(3)] by blast
  obtain B1 where g1: "grown h (insert (p, n) B) h1 B1"
    using kstrdup_allocated(1) [OF grown_abs [OF g0] kstring_grown [OF name g0] nm(1)] nm(2) by (auto simp: allocated_def)
  have g01: "grown (pheap s) B h1 B1" by (rule grown_trans [OF g0 g1])
  have ok1: "procs_ok B1 (set_pheap h1 s)" by (rule procs_ok_grown [OF ok g01])
  obtain i where pid: "pick_pid (set_pheap h1 s) [PID_MIN..PID_MAX] = Ok (Some i)"
    using pick_pid_free [OF ok1] len(1) by (metis set_pheap_simps(7))
  obtain s2 where s2: "create_codes E (set_pheap h1 s) = Ok s2" "roomy (Suc (Suc (3 + (3 + 0)))) (pheap s2)"
    using create_codes_progress [OF ok1, of "Suc (Suc (3 + (3 + 0)))"] nm(3) by auto
  obtain h2 B2 where f: "s2 = (set_pheap h2 (set_pheap h1 s))\<lparr>codes := codes s2\<rparr>" "grown h1 B1 h2 B2" "procs_ok B2 s2" "codes s2 \<noteq> None"
    "code_list s2 = code_list s"
    by (rule create_codes_result [OF ok1 s2(1)]) simp
  have same: "table s2 = table s" "pheap s2 = h2" by (subst f(1); simp)+
  have bl: "block_alloc_ok (e_block E)" using env by (simp add: env_ok_def)
  have l2: "length (table s2) < 2 ^ 28" "length (code_list s2) < 2 ^ 28" using len f(5) same(1) by (simp_all add: pids_def)
  obtain s3 where s3: "register E p i s2 = Ok s3" "roomy (Suc (3 + (3 + 0))) (pheap s3)"
    using register_progress [OF f(3) bl l2 f(4) s2(2)] by blast
  obtain h3 B3 where g3: "pheap s3 = h3" "grown h2 B2 h3 B3"
    by (rule register_result [OF f(3) bl l2 s3(1)]) (simp add: same(2))
  have g03: "grown (pheap s) B h3 B3" by (rule grown_trans [OF grown_trans [OF g01 f(2)] g3(2)])
  obtain cv h4 lk h5 t h6 where "cv_alloc (e_cpu E) (e_cv_name E) (pheap s3) = Ok (cv, h4)" "lock_alloc (e_cpu E) (e_lk_name E) h4 = Ok (lk, h5)"
    "kmalloc (e_cpu E) 256 h5 = Ok (t, h6)"
    using synch_alloc_progress [OF grown_abs [OF g03] env_ok_grown [OF env g03], of 0 "e_cpu E"] s3(2) g3(1) by auto
  then show ?thesis using p(1,2) nm(1,2) pid s2(1) s3(1) by (simp add: proc_create_def)
qed


text \<open>The process table before the first process, on the machine with sixty-four frames.\<close>

definition no_proc :: proc where
  "no_proc = \<lparr>p_name = 0, p_lock = spinlock_init, p_threads = array_init, p_as = 0, p_cwd = 0, p_pid = 0, p_cv = 0, p_lk = 0,
     p_table = 0, p_open = 0\<rparr>"

definition plain_env :: penv where
  "plain_env = \<lparr>e_cpu = 0, e_cv_name = 0x80000100, e_lk_name = 0x80000200, e_block = (\<lambda>n. Some (replicate (unat n div 4) 0)),
     e_tblock = (\<lambda>n. Some (replicate (unat n div 4) 0)), e_proc = no_proc, e_table = replicate 64 0\<rparr>"

definition empty_psys :: psys where
  "empty_psys = \<lparr>pvm = example_vm\<lparr>heap := wide_heap\<rparr>, pfds = Map.empty, tables = Map.empty, procs = Map.empty, exitcs = Map.empty,
     procarr = Some array_init, codes = None, kproc = 0, curp = 0, vrefs = (\<lambda>_. 0), psch = boot_sched boot_lists, perrno = 0,
     frames = Map.empty, starts = Map.empty\<rparr>"

lemma empty_psys_ok: "procs_ok {} empty_psys" "env_ok plain_env (pheap empty_psys)" "pids empty_psys = []" "code_list empty_psys = []"
  "pheap empty_psys = wide_heap"
proof -
  have "kstring wide_heap {} 0x80000100 []" "kstring wide_heap {} 0x80000200 []" by (rule wide_heap_string; simp)+
  then show "env_ok plain_env (pheap empty_psys)"
    by (auto simp: env_ok_def plain_env_def empty_psys_def block_alloc_ok_def)
qed (use wide_heap_abs in \<open>auto simp: procs_ok_def arrays_ok_def empty_psys_def table_def pids_def code_list_def\<close>)


end
