(* ===== verification/ProcCalls.thy ===== *)
theory ProcCalls
  imports Procs
begin

text \<open>
  The process system calls (\<^verbatim>\<open>kern/syscall/procops.c\<close>) apart from \<open>execv\<close>, and \<open>enter_forked_process\<close>
  (\<^verbatim>\<open>kern/arch/mips/syscall/syscall.c\<close>). \<open>sys_waitpid\<close> and \<open>sys__exit\<close> run concurrently: they are broken into
  the steps between which another thread can run, over the same process and exit-code tables.
\<close>

subsection \<open>fork\<close>

text \<open>What \<open>thread_fork\<close> gets from \<open>kmalloc\<close>, and the new thread.\<close>

record forkenv =
  got_thread :: bool
  got_tname :: bool
  new_stack :: "u32 list option"
  new_thread :: nat

definition fork_thread :: "penv \<Rightarrow> forkenv \<Rightarrow> vaddr \<Rightarrow> vaddr \<Rightarrow> vaddr \<Rightarrow> psys \<Rightarrow> (int \<times> psys) run" where
  "fork_thread E T p data1 data2 s =
     bindR (case thread_create (got_thread T) (got_tname T) (new_thread T) (psch s) of
              Some sc \<Rightarrow> if new_stack T = None then Ok (0, s) else proc_addthread E p (new_thread T) (s\<lparr>psch := sc\<rparr>)
            | None \<Rightarrow> Ok (0, s)) (\<lambda>(added, s').
     bindR (thread_fork (e_cpu E) (got_thread T) (got_tname T) (new_stack T) added (new_thread T) (Some (unat p)) (psch s)) (\<lambda>(r, sc).
       Ok (r, s'\<lparr>psch := sc, starts := (if r = 0 then (starts s)(new_thread T \<mapsto> (data1, data2)) else starts s)\<rparr>)))"

definition sys_fork :: "penv \<Rightarrow> forkenv \<Rightarrow> trapframe \<Rightarrow> psys \<Rightarrow> (int \<times> psys) run" where
  "sys_fork E T tf s =
     (case procarr s of
        None \<Rightarrow> Halt Wild
      | Some a \<Rightarrow>
          if array_get_num a = of_int (PID_MAX - PID_MIN) then Ok (0, s\<lparr>perrno := EMPROC\<rparr>)
          else
            bindR (kmalloc (e_cpu E) 52 (pheap s)) (\<lambda>(p, h).
            if p = 0 then Halt Wild
            else with_proc (curp s) s (\<lambda>cur.
              bindR (kstrdup (e_cpu E) (p_name cur) h) (\<lambda>(nm, h).
              bindR (cv_alloc (e_cpu E) (e_cv_name E) h) (\<lambda>(cv, h).
              bindR (lock_alloc (e_cpu E) (e_lk_name E) h) (\<lambda>(lk, h).
              bindR (kmalloc (e_cpu E) 256 h) (\<lambda>(t, h).
              if t = 0 then Halt Wild
              else case tables s (p_table cur) of
                  None \<Rightarrow> Halt Wild
                | Some tab \<Rightarrow>
                    let s = (set_pheap h s)\<lparr>tables := (tables s)(t \<mapsto> take MAX_fd_table tab)\<rparr> in
                    bindR (pick_pid s [PID_MIN..PID_MAX]) (\<lambda>pid.
                    let pr = set_pid pid ((e_proc E)\<lparr>p_name := nm, p_cwd := p_cwd cur, p_lock := spinlock_init, p_cv := cv, p_lk := lk,
                          p_open := 0, p_table := t, p_threads := array_init\<rparr>) in
                    bindR (register E p (p_pid pr) s) (\<lambda>s.
                    bindR (kmalloc (e_cpu E) 148 (pheap s)) (\<lambda>(ctf, h).
                    if ctf = 0 then Halt Wild
                    else
                      let s = (set_pheap h s)\<lparr>procs := (procs s)(p \<mapsto> pr), frames := (frames s)(ctf \<mapsto> fork_frame tf)\<rparr> in
                      bindR (fork_thread E T p ctf (p_as cur) s) (\<lambda>(_, s). Ok (p_pid pr, s))))))))))))"

definition sys_getpid :: "psys \<Rightarrow> int run" where
  "sys_getpid s = with_proc (curp s) s (\<lambda>pr. Ok (p_pid pr))"

text \<open>The virtual memory state as the current process sees it.\<close>

definition vm_view :: "psys \<Rightarrow> vm" where
  "vm_view s = (pvm s)\<lparr>curproc := curp s \<noteq> 0, p_addrspace := (case procs s (curp s) of None \<Rightarrow> 0 | Some pr \<Rightarrow> p_as pr)\<rparr>"

text \<open>The new thread; \<open>raw_new\<close> is \<open>newas\<close> when \<open>as_copy\<close> fails, whose result is not looked at.\<close>

definition enter_forked_process :: "penv \<Rightarrow> vaddr \<Rightarrow> addrspace \<Rightarrow> vaddr \<Rightarrow> vaddr \<Rightarrow> psys \<Rightarrow> (trapframe \<times> psys) run" where
  "enter_forked_process E raw_new raw_as tf old s =
     bindR (as_copy (e_cpu E) raw_as old (pvm s)) (\<lambda>(_, new, m).
     bindR (curproc_setas E (case new of None \<Rightarrow> raw_new | Some n \<Rightarrow> n) (s\<lparr>pvm := m\<rparr>)) (\<lambda>(_, s).
     bindR (as_activate (vm_view s)) (\<lambda>m.
     let s = s\<lparr>pvm := m\<rparr> in
     case frames s tf of
       None \<Rightarrow> Halt Wild
     | Some ptf \<Rightarrow>
         bindR (kfree (e_cpu E) tf (pheap s)) (\<lambda>h.
           Ok (child_frame ptf, (set_pheap h s)\<lparr>frames := (frames s)(tf := None)\<rparr>)))))"

subsection \<open>What fork does\<close>

text \<open>Attaching the thread changes only the new process's thread table and spinlock.\<close>

lemma proc_addthread_result:
  assumes "proc_addthread E p t s = Ok (r, s')"
  obtains pr ts lk sc where "procs s p = Some pr" and "s' = (set_proc p (\<lambda>pr. pr\<lparr>p_threads := ts, p_lock := lk\<rparr>) s)\<lparr>psch := sc\<rparr>"
proof -
  obtain pr ts lk where "procs s p = Some pr" "s' = set_proc p (\<lambda>pr. pr\<lparr>p_threads := ts, p_lock := lk\<rparr>) s
      \<or> s' = (set_proc p (\<lambda>pr. pr\<lparr>p_threads := ts, p_lock := lk\<rparr>) s)\<lparr>psch := set_thread t (\<lambda>th. th\<lparr>t_proc := Some (unat p)\<rparr>) (psch (set_proc p (\<lambda>pr. pr\<lparr>p_threads := ts, p_lock := lk\<rparr>) s))\<rparr>"
    using assms by (auto simp: proc_addthread_def with_proc_def kassert_eq_Ok bindR_eq_Ok Let_def split: option.splits if_splits)
  then show ?thesis
  proof (elim disjE)
    assume "procs s p = Some pr" and "s' = set_proc p (\<lambda>pr. pr\<lparr>p_threads := ts, p_lock := lk\<rparr>) s"
    then show ?thesis using that [where ts = ts and lk = lk and sc = "psch s"] by (simp add: set_proc_def)
  qed (use that in blast)
qed

lemma fork_thread_result:
  assumes "fork_thread E T p d1 d2 s = Ok (r, s')" and "procs s p = Some pr"
  obtains pr' where "procs s' = (procs s)(p \<mapsto> pr')" and "p_pid pr' = p_pid pr" and "p_table pr' = p_table pr"
    and "pheap s' = pheap s" and "procarr s' = procarr s" and "codes s' = codes s" and "exitcs s' = exitcs s" and "frames s' = frames s"
    and "tables s' = tables s" and "starts s' = (if r = 0 then (starts s)(new_thread T \<mapsto> (d1, d2)) else starts s)"
proof -
  obtain added s1 sc where st: "(case thread_create (got_thread T) (got_tname T) (new_thread T) (psch s) of
        Some sc \<Rightarrow> if new_stack T = None then Ok (0, s) else proc_addthread E p (new_thread T) (s\<lparr>psch := sc\<rparr>)
      | None \<Rightarrow> Ok (0, s)) = Ok (added, s1)"
    "s' = s1\<lparr>psch := sc, starts := (if r = 0 then (starts s)(new_thread T \<mapsto> (d1, d2)) else starts s)\<rparr>"
    using assms(1) by (auto simp: fork_thread_def bindR_eq_Ok)
  consider "s1 = s" | sc' where "proc_addthread E p (new_thread T) (s\<lparr>psch := sc'\<rparr>) = Ok (added, s1)"
    using st(1) by (auto split: option.splits if_splits)
  then show ?thesis
  proof cases
    case 1
    then show ?thesis using that [of pr] st(2) assms(2) by (simp add: fun_upd_idem)
  next
    case (2 sc')
    obtain ts lk sc2 where "s1 = (set_proc p (\<lambda>pr. pr\<lparr>p_threads := ts, p_lock := lk\<rparr>) (s\<lparr>psch := sc'\<rparr>))\<lparr>psch := sc2\<rparr>"
      using proc_addthread_result [OF 2] by metis
    then show ?thesis using that [of "pr\<lparr>p_threads := ts, p_lock := lk\<rparr>"] st(2) assms(2) by (simp add: set_proc_def)
  qed
qed

lemma sys_fork_run:
  assumes "sys_fork E T tf s = Ok (r, s')" and a: "procarr s = Some a" "array_get_num a \<noteq> of_int (PID_MAX - PID_MIN)"
  obtains p h cur nm h1 cv h2 lk h3 t h4 tab pid s1 s2 ctf h5 pr where "procs s (curp s) = Some cur" and "p \<noteq> 0" and "kmalloc (e_cpu E) 52 (pheap s) = Ok (p, h)"
    and "kstrdup (e_cpu E) (p_name cur) h = Ok (nm, h1)" and "cv_alloc (e_cpu E) (e_cv_name E) h1 = Ok (cv, h2)"
    and "lock_alloc (e_cpu E) (e_lk_name E) h2 = Ok (lk, h3)" and "kmalloc (e_cpu E) 256 h3 = Ok (t, h4)" and "t \<noteq> 0" and "tables s (p_table cur) = Some tab"
    and "s1 = (set_pheap h4 s)\<lparr>tables := (tables s)(t \<mapsto> take MAX_fd_table tab)\<rparr>" and "pick_pid s1 [PID_MIN..PID_MAX] = Ok pid"
    and "\<forall>i. pid = Some i \<longrightarrow> p_pid pr = i" and "p_table pr = t" and "r = p_pid pr"
    and "register E p (p_pid pr) s1 = Ok s2" and "kmalloc (e_cpu E) 148 (pheap s2) = Ok (ctf, h5)" and "ctf \<noteq> 0"
    and "\<exists>q. fork_thread E T p ctf (p_as cur) ((set_pheap h5 s2)\<lparr>procs := (procs s2)(p \<mapsto> pr), frames := (frames s2)(ctf \<mapsto> fork_frame tf)\<rparr>) = Ok (q, s')"
proof -
  obtain p h cur where p: "kmalloc (e_cpu E) 52 (pheap s) = Ok (p, h)" "p \<noteq> 0" "procs s (curp s) = Some cur"
    using assms(1) a by (auto simp: sys_fork_def with_proc_def bindR_eq_Ok split: option.splits if_splits)
  obtain nm h1 cv h2 lk h3 t h4 where k: "kstrdup (e_cpu E) (p_name cur) h = Ok (nm, h1)" "cv_alloc (e_cpu E) (e_cv_name E) h1 = Ok (cv, h2)"
    "lock_alloc (e_cpu E) (e_lk_name E) h2 = Ok (lk, h3)" "kmalloc (e_cpu E) 256 h3 = Ok (t, h4)"
    using assms(1) a p by (auto simp: sys_fork_def with_proc_def bindR_eq_Ok)
  obtain tab where t: "t \<noteq> 0" "tables s (p_table cur) = Some tab"
    using assms(1) a p k by (auto simp: sys_fork_def with_proc_def split: option.splits if_splits)
  define s1 where "s1 = (set_pheap h4 s)\<lparr>tables := (tables s)(t \<mapsto> take MAX_fd_table tab)\<rparr>"
  let ?pr = "\<lambda>pid. set_pid pid ((e_proc E)\<lparr>p_name := nm, p_cwd := p_cwd cur, p_lock := spinlock_init, p_cv := cv, p_lk := lk,
                          p_open := 0, p_table := t, p_threads := array_init\<rparr>)"
  obtain pid s2 ctf h5 where r: "pick_pid s1 [PID_MIN..PID_MAX] = Ok pid" "register E p (p_pid (?pr pid)) s1 = Ok s2"
    "kmalloc (e_cpu E) 148 (pheap s2) = Ok (ctf, h5)" "ctf \<noteq> 0" "r = p_pid (?pr pid)"
    "\<exists>q. fork_thread E T p ctf (p_as cur) ((set_pheap h5 s2)\<lparr>procs := (procs s2)(p \<mapsto> ?pr pid), frames := (frames s2)(ctf \<mapsto> fork_frame tf)\<rparr>) = Ok (q, s')"
    using assms(1) a p k t by (auto simp: sys_fork_def with_proc_def bindR_eq_Ok Let_def s1_def split: if_splits)
  have "p_table (?pr pid) = t" by (simp add: set_pid_def split: option.split)
  then show ?thesis by (intro that [OF p(3,2,1) k t s1_def r(1) _ _ r(5,2-4,6)]) auto
qed

text \<open>A child of the current process, as \<open>fork\<close> leaves it.\<close>

definition forked :: "forkenv \<Rightarrow> trapframe \<Rightarrow> psys \<Rightarrow> int \<Rightarrow> psys \<Rightarrow> bool" where
  "forked T tf s r s' \<longleftrightarrow> (\<exists>p pr cur tab ctf.
     procs s' p = Some pr \<and> p \<notin> dom (procs s) \<and> p_pid pr = r \<and> r \<in> {PID_MIN..PID_MAX} \<and> r \<notin> set (pids s)
     \<and> (\<forall>i. PID_MIN \<le> i \<longrightarrow> i < r \<longrightarrow> i \<in> set (pids s)) \<and> (pids s' = pids s \<or> pids s' = pids s @ [r])
     \<and> procs s (curp s) = Some cur \<and> procs s' (curp s) = Some cur \<and> tables s (p_table cur) = Some tab
     \<and> tables s' (p_table pr) = Some (take MAX_fd_table tab) \<and> frames s' ctf = Some tf
     \<and> (starts s' = starts s \<or> starts s' = (starts s)(new_thread T \<mapsto> (ctf, p_as cur))))"

lemma kstrdup_grown:
  assumes "heap_abs h B" and "kstring h B name xs" and "kstrdup me name h = Ok (nm, h')"
  obtains B' where "grown h B h' B'"
  using kstrdup_allocated(1) [OF assms] that by (cases "nm = 0") (auto simp: allocated_def)

lemma fork_alloc_grown:
  assumes ok: "procs_ok B s" and env: "env_ok E (pheap s)" and name: "kstring (pheap s) B name xs" and p0: "p \<noteq> 0"
    and k: "kmalloc (e_cpu E) 52 (pheap s) = Ok (p, h)"
    "kstrdup (e_cpu E) name h = Ok (nm, h1)" "cv_alloc (e_cpu E) (e_cv_name E) h1 = Ok (cv, h2)"
    "lock_alloc (e_cpu E) (e_lk_name E) h2 = Ok (lk, h3)" "kmalloc (e_cpu E) 256 h3 = Ok (t, h4)"
  obtains B' where "grown (pheap s) B h4 B'" and "p \<notin> fst ` B" and "p \<in> fst ` B'"
proof -
  have abs: "heap_abs (pheap s) B" using ok by (simp add: procs_ok_def)
  obtain n where g0: "grown (pheap s) B h (insert (p, n) B)" and new: "p \<notin> fst ` B" by (rule kmalloc_block [OF abs _ k(1) p0]) simp
  obtain B1 where g1: "grown h (insert (p, n) B) h1 B1"
    by (rule kstrdup_grown [OF grown_abs [OF g0] kstring_grown [OF name g0] k(2)])
  have g01: "grown (pheap s) B h1 B1" by (rule grown_trans [OF g0 g1])
  obtain B2 where g2: "grown h1 B1 h4 B2" by (rule synch_alloc_grown [OF grown_abs [OF g01] env_ok_grown [OF env g01] k(3-5)])
  have "(p, n) \<in> B2" using grown_member [OF g2 grown_member [OF g1]] by simp
  then have "p \<in> fst ` B2" by force
  then show ?thesis using that [OF grown_trans [OF g01 g2] new] by simp
qed

lemma procs_ok_same:
  assumes "procs_ok B s" and "grown (pheap s) B (pheap s1) B1"
    and s1: "procs s1 = procs s" "exitcs s1 = exitcs s" "procarr s1 = procarr s" "codes s1 = codes s"
  shows "procs_ok B1 s1" and "table s1 = table s" and "pids s1 = pids s" and "code_list s1 = code_list s"
proof -
  have at: "pid_at s1 = pid_at s" using s1 by (simp add: pid_at_def fun_eq_iff)
  show same: "table s1 = table s" "code_list s1 = code_list s" using s1 by (simp_all add: table_def code_list_def)
  show pids: "pids s1 = pids s" using at same(1) by (simp add: pids_def)
  have "fst ` B \<subseteq> fst ` B1" using assms(2) by (auto simp: grown_def)
  then show "procs_ok B1 s1" using assms(1) grown_abs [OF assms(2)] s1 same pids by (simp add: procs_ok_def arrays_ok_def) blast
qed

text \<open>The tables and the trap frame: what is added once the structures of the child are there.\<close>

lemma fork_register_ok:
  assumes ok: "procs_ok B s" and env: "env_ok E (pheap s)" and g: "grown (pheap s) B (pheap s1) B1" and p: "p \<noteq> 0" "p \<notin> fst ` B" "p \<in> fst ` B1"
    and s1: "procs s1 = procs s" "exitcs s1 = exitcs s" "procarr s1 = procarr s" "codes s1 = codes s"
    and room: "length (pids s) < 32766" "length (code_list s) < 2 ^ 28" and reg: "register E p (p_pid pr) s1 = Ok s2"
    and k: "kmalloc (e_cpu E) 148 (pheap s2) = Ok (ctf, h)"
    and pid: "p_pid pr \<in> {PID_MIN..PID_MAX}" "p_pid pr \<notin> set (pids s)"
    and s': "procs s' = (procs s2)(p \<mapsto> pr)" "pheap s' = h" "procarr s' = procarr s2" "codes s' = codes s2" "exitcs s' = exitcs s2"
  obtains B' where "procs_ok B' s'" and "grown (pheap s) B (pheap s') B'" and "pids s' = pids s \<or> pids s' = pids s @ [p_pid pr]"
    and "procs s2 = procs s" and "tables s2 = tables s1" and "frames s2 = frames s1" and "starts s2 = starts s1"
proof -
  note ok1 = procs_ok_same(1) [OF ok g s1] and same = procs_ok_same(2-4) [OF ok g s1]
  have bl: "block_alloc_ok (e_block E)" using env by (simp add: env_ok_def)
  have len: "length (table s1) < 2 ^ 28" "length (code_list s1) < 2 ^ 28" using room same by (simp_all add: pids_def)
  obtain a cs c h6 B3 where s2: "s2 = (set_pheap h6 s1)\<lparr>procarr := Some a, codes := Some cs, exitcs := (exitcs s1)(c \<mapsto> \<lparr>x_pid = p_pid pr, exitcode = -1\<rparr>)\<rparr>"
    and g3: "grown (pheap s1) B1 h6 B3" and a: "array_inv a" "array_list a = table s1 \<or> array_list a = table s1 @ [p]"
    and cs: "array_inv cs" "array_list cs = code_list s1 \<or> array_list cs = code_list s1 @ [c]" and c: "c \<noteq> 0" "c \<in> fst ` B3"
    by (rule register_result [OF ok1 bl len reg])
  have g03: "grown (pheap s) B h6 B3" by (rule grown_trans [OF g g3])
  have h6: "pheap s2 = h6" using s2 by simp
  obtain B4 where g4: "grown h6 B3 h B4" by (rule kmalloc_any [OF grown_abs [OF g03] _ k [unfolded h6]]) simp
  have g04: "grown (pheap s) B (pheap s') B4" using grown_trans [OF g03 g4] s'(2) by simp
  have sub: "B1 \<subseteq> B3" "B3 \<subseteq> B4" using g3 g4 by (auto simp: grown_def)
  then have pB: "p \<in> fst ` B4" and cB: "c \<in> fst ` B4" using p(3) c(2) by auto
  have "procs_ok B4 s' \<and> (pids s' = pids s \<or> pids s' = pids s @ [p_pid pr])"
    using entered_ok [OF ok g04 p(1,2) pB _ a(1) _ _ cs(1) _ _ c(1) cB, of "\<lparr>x_pid = p_pid pr, exitcode = -1\<rparr>" pr] s' s2 s1 same a(2) cs(2) pid
    by simp
  then show ?thesis using that [OF _ g04] s2 s1(1) by (auto simp: set_pheap_def)
qed

lemma sys_fork_ok:
  assumes ok: "procs_ok B s" and env: "env_ok E (pheap s)" and cur: "procs s (curp s) = Some cur" and name: "kstring (pheap s) B (p_name cur) xs"
    and room: "length (pids s) < 32766" "length (code_list s) < 2 ^ 28" and run: "sys_fork E T tf s = Ok (r, s')" "procarr s = Some arr" "array_get_num arr \<noteq> of_int (PID_MAX - PID_MIN)"
  shows "\<exists>B'. procs_ok B' s' \<and> grown (pheap s) B (pheap s') B' \<and> forked T tf s r s'"
proof -
  obtain p h cur' nm h1 cv h2 lk h3 t h4 tab pid s1 s2 ctf h5 pr where cur': "procs s (curp s) = Some cur'" and p0: "p \<noteq> 0"
    and k: "kmalloc (e_cpu E) 52 (pheap s) = Ok (p, h)"
    "kstrdup (e_cpu E) (p_name cur') h = Ok (nm, h1)" "cv_alloc (e_cpu E) (e_cv_name E) h1 = Ok (cv, h2)"
    "lock_alloc (e_cpu E) (e_lk_name E) h2 = Ok (lk, h3)" "kmalloc (e_cpu E) 256 h3 = Ok (t, h4)" and t: "t \<noteq> 0" "tables s (p_table cur') = Some tab"
    and s1: "s1 = (set_pheap h4 s)\<lparr>tables := (tables s)(t \<mapsto> take MAX_fd_table tab)\<rparr>" and pid: "pick_pid s1 [PID_MIN..PID_MAX] = Ok pid"
    "\<forall>i. pid = Some i \<longrightarrow> p_pid pr = i" and pr: "p_table pr = t" "r = p_pid pr"
    and reg: "register E p (p_pid pr) s1 = Ok s2" and ctf: "kmalloc (e_cpu E) 148 (pheap s2) = Ok (ctf, h5)" "ctf \<noteq> 0"
    and th: "\<exists>q. fork_thread E T p ctf (p_as cur') ((set_pheap h5 s2)\<lparr>procs := (procs s2)(p \<mapsto> pr), frames := (frames s2)(ctf \<mapsto> fork_frame tf)\<rparr>) = Ok (q, s')"
    by (rule sys_fork_run [OF run])
  have [simp]: "cur' = cur" using cur cur' by simp
  obtain B1 where g1: "grown (pheap s) B (pheap s1) B1" and p: "p \<notin> fst ` B" "p \<in> fst ` B1"
    by (rule fork_alloc_grown [OF ok env _ p0 k]) (use name s1 in simp_all)
  have same: "procs s1 = procs s" "exitcs s1 = exitcs s" "procarr s1 = procarr s" "codes s1 = codes s"
    by (simp_all add: s1)
  note ok1 = procs_ok_same(1) [OF ok g1 same] and pids1 = procs_ok_same(3) [OF ok g1 same]
  obtain i where i: "pid = Some i" "i \<in> {PID_MIN..PID_MAX}" "i \<notin> set (pids s)" "\<forall>j. PID_MIN \<le> j \<longrightarrow> j < i \<longrightarrow> j \<in> set (pids s)"
    by (rule pick_pid_free [OF ok1]) (use room pid(1) pids1 in auto)
  let ?s3 = "(set_pheap h5 s2)\<lparr>procs := (procs s2)(p \<mapsto> pr), frames := (frames s2)(ctf \<mapsto> fork_frame tf)\<rparr>"
  obtain q where q: "fork_thread E T p ctf (p_as cur) ?s3 = Ok (q, s')" using th by auto
  obtain pr' where s': "procs s' = (procs ?s3)(p \<mapsto> pr')" "p_pid pr' = p_pid pr" "p_table pr' = p_table pr" "pheap s' = pheap ?s3" "procarr s' = procarr ?s3"
    "codes s' = codes ?s3" "exitcs s' = exitcs ?s3" "frames s' = frames ?s3" "tables s' = tables ?s3"
    "starts s' = (if q = 0 then (starts ?s3)(new_thread T \<mapsto> (ctf, p_as cur)) else starts ?s3)"
    by (rule fork_thread_result [OF q, of pr]) (use that in simp_all)
  obtain B' where B': "procs_ok B' s'" "grown (pheap s) B (pheap s') B'" "pids s' = pids s \<or> pids s' = pids s @ [p_pid pr']" "procs s2 = procs s" "tables s2 = tables s1" "starts s2 = starts s"
    by (rule fork_register_ok [OF ok env g1 p0 p same(1-4) room _ ctf(1), of pr' s'])
      (use reg s' i pid(2) s1 in \<open>simp_all add: set_pheap_def\<close>)
  have "p \<notin> dom (procs s)" using ok p(1) by (auto simp: procs_ok_def)
  moreover from this have "procs s' (curp s) = Some cur" "procs s' p = Some pr'" using cur s'(1) B'(4) by auto
  moreover have "tables s' t = Some (take MAX_fd_table tab)" "frames s' ctf = Some tf" using s' B'(5) s1 fork_frame_copies by simp_all
  moreover have "starts s' = starts s \<or> starts s' = (starts s)(new_thread T \<mapsto> (ctf, p_as cur))"
    using s'(10) B'(6) by (simp add: set_pheap_def)
  moreover have "p_pid pr' = r" "r = i" "p_table pr' = t" using s'(2,3) pr i(1) pid(2) by simp_all
  ultimately have "forked T tf s r s'" unfolding forked_def using B'(3) i(2-4) cur t(2) \<open>cur' = cur\<close>
    by (intro exI [of _ p] exI [of _ pr'] exI [of _ cur] exI [of _ tab] exI [of _ ctf]) simp
  then show ?thesis using B'(1,2) by blast
qed

text \<open>With enough memory, and if the thread can be created, \<open>fork\<close> succeeds.\<close>

definition threads_start :: "penv \<Rightarrow> forkenv \<Rightarrow> sched \<Rightarrow> bool" where
  "threads_start E T sc \<longleftrightarrow> (\<forall>p d1 d2 s pr. psch s = sc \<longrightarrow> procs s p = Some pr \<longrightarrow> p_lock pr = spinlock_init \<longrightarrow> p_threads pr = array_init \<longrightarrow>
     (\<exists>s'. fork_thread E T p d1 d2 s = Ok (0, s')))"

lemma sys_fork_progress:
  assumes ok: "procs_ok B s" and env: "env_ok E (pheap s)" and cur: "procs s (curp s) = Some cur" and name: "kstring (pheap s) B (p_name cur) xs"
    and len: "length (pids s) < 32765" "length (code_list s) < 2 ^ 28" and codes: "codes s \<noteq> None" and tab: "tables s (p_table cur) = Some tab"
    and room: "roomy 11 (pheap s)" and th: "threads_start E T (psch s)"
  shows "\<exists>r s' ctf. sys_fork E T tf s = Ok (r, s') \<and> r \<noteq> 0 \<and> starts s' (new_thread T) = Some (ctf, p_as cur)"
proof -
  have abs: "heap_abs (pheap s) B" using ok by (simp add: procs_ok_def)
  obtain a where a: "procarr s = Some a" "array_inv a" "array_list a = table s"
    using ok by (auto simp: procs_ok_def arrays_ok_def table_def)
  have num: "array_get_num a \<noteq> of_int (PID_MAX - PID_MIN)"
    using karr.num_elems [OF a(2)] a(3) len(1) by (auto simp: pids_def PID_MIN_def PID_MAX_def)
  have r: "roomy (Suc (Suc (Suc (3 + (3 + Suc (Suc 0)))))) (pheap s)" using room by (simp add: numeral_eq_Suc)
  obtain p h where p: "kmalloc (e_cpu E) 52 (pheap s) = Ok (p, h)" "p \<noteq> 0" "roomy (Suc (Suc (3 + (3 + Suc (Suc 0))))) h"
    using kmalloc_progress [OF abs _ r, of 52 "e_cpu E"] by auto
  obtain n where g0: "grown (pheap s) B h (insert (p, n) B)" by (rule kmalloc_block [OF abs _ p(1,2)]) simp
  note name0 = kstring_grown [OF name g0]
  obtain nm h1 where nm: "kstrdup (e_cpu E) (p_name cur) h = Ok (nm, h1)" "roomy (Suc (3 + (3 + Suc (Suc 0)))) h1"
    using kstrdup_progress [OF grown_abs [OF g0] name0 p(3)] by blast
  obtain B1 where g1: "grown h (insert (p, n) B) h1 B1" by (rule kstrdup_grown [OF grown_abs [OF g0] name0 nm(1)])
  have g01: "grown (pheap s) B h1 B1" by (rule grown_trans [OF g0 g1])
  obtain cv h2 lk h3 t h4 where k: "cv_alloc (e_cpu E) (e_cv_name E) h1 = Ok (cv, h2)" "lock_alloc (e_cpu E) (e_lk_name E) h2 = Ok (lk, h3)"
    "kmalloc (e_cpu E) 256 h3 = Ok (t, h4)" "t \<noteq> 0" "roomy (Suc (Suc 0)) h4"
    using synch_alloc_progress [OF grown_abs [OF g01] env_ok_grown [OF env g01] nm(2), of "e_cpu E"] by blast
  let ?s1 = "(set_pheap h4 s)\<lparr>tables := (tables s)(t \<mapsto> take MAX_fd_table tab)\<rparr>"
  obtain B2 where g2: "grown (pheap s) B (pheap ?s1) B2"
    by (rule fork_alloc_grown [OF ok env name p(2,1) nm(1) k(1-3)]) simp
  have ok1: "procs_ok B2 ?s1" and same: "table ?s1 = table s" "pids ?s1 = pids s" "code_list ?s1 = code_list s"
    using procs_ok_same [OF ok g2] by simp_all
  obtain i where i: "pick_pid ?s1 [PID_MIN..PID_MAX] = Ok (Some i)" "i \<in> {PID_MIN..PID_MAX}"
    by (rule pick_pid_free [OF ok1]) (use len same in auto)
  have bl: "block_alloc_ok (e_block E)" using env by (simp add: env_ok_def)
  have l1: "length (table ?s1) < 2 ^ 28" "length (code_list ?s1) < 2 ^ 28" "codes ?s1 \<noteq> None" "roomy (Suc (Suc 0)) (pheap ?s1)"
    using len same codes k(5) by (simp_all add: pids_def)
  obtain s2 where s2: "register E p i ?s1 = Ok s2" "roomy (Suc 0) (pheap s2)" using register_progress [OF ok1 bl l1] by blast
  obtain h5 B3 where h5: "pheap s2 = h5" "grown (pheap ?s1) B2 h5 B3" and ps: "psch s2 = psch s"
    by (rule register_result [OF ok1 bl l1(1,2) s2(1)]) (use same in \<open>simp_all add: pids_def set_pheap_def\<close>)
  obtain ctf h6 where ctf: "kmalloc (e_cpu E) 148 (pheap s2) = Ok (ctf, h6)" "ctf \<noteq> 0"
    using kmalloc_progress [OF grown_abs [OF h5(2)], of 148 0 "e_cpu E"] s2(2) h5(1) by auto
  let ?pr = "set_pid (Some i) ((e_proc E)\<lparr>p_name := nm, p_cwd := p_cwd cur, p_lock := spinlock_init, p_cv := cv, p_lk := lk,
                          p_open := 0, p_table := t, p_threads := array_init\<rparr>)"
  let ?s3 = "(set_pheap h6 s2)\<lparr>procs := (procs s2)(p \<mapsto> ?pr), frames := (frames s2)(ctf \<mapsto> fork_frame tf)\<rparr>"
  have "psch ?s3 = psch s" "procs ?s3 p = Some ?pr" "p_lock ?pr = spinlock_init" "p_threads ?pr = array_init"
    using ps by (simp_all add: set_pid_def set_pheap_def)
  then obtain s' where s': "fork_thread E T p ctf (p_as cur) ?s3 = Ok (0, s')" using th unfolding threads_start_def by blast
  have "starts s' (new_thread T) = Some (ctf, p_as cur)" by (rule fork_thread_result [OF s', of ?pr]) simp_all
  moreover have "sys_fork E T tf s = Ok (i, s')"
    using a(1) num p(1,2) cur nm(1) k(1-4) tab i(1) s2(1) ctf s' by (simp add: sys_fork_def with_proc_def Let_def)
  moreover have "i \<noteq> 0" using i(2) by (simp add: PID_MIN_def)
  ultimately show ?thesis by blast
qed


text \<open>One process, not in the table (the kernel's own process), on the machine with sixty-four frames.\<close>

definition one_psys :: "vaddr \<Rightarrow> kheap \<Rightarrow> psys" where
  "one_psys a h = (set_pheap h empty_psys)\<lparr>procs := [a \<mapsto> no_proc\<lparr>p_name := 0x80000300, p_table := 0x80001000\<rparr>],
     tables := [0x80001000 \<mapsto> replicate 64 0], curp := a, codes := Some array_init\<rparr>"

definition plain_thread :: forkenv where
  "plain_thread = \<lparr>got_thread = True, got_tname = True, new_stack = Some (replicate 1024 0), new_thread = 3\<rparr>"

lemma plain_thread_forks: "\<exists>sc. thread_fork 0 True True (Some (replicate 1024 0)) 0 3 (Some q) (boot_sched boot_lists) = Ok (0, sc)"
proof -
  have "thread_create True True 3 (boot_sched boot_lists) \<noteq> None" by (simp add: thread_create_def)
  then obtain s1 where s1: "thread_create True True 3 (boot_sched boot_lists) = Some s1" by blast
  then have f: "rq_lock s1 = (\<lambda>_. spinlock_init)" "c_curthread (cpus s1 0) = 1" "t_cpu (thr s1 1) = 0" "\<not> c_isidle (cpus s1 0)"
    "tln_prev (lists s1) (TailNode (RunQueue 0)) = Some (HeadNode (RunQueue 0))"
    by (auto simp: thread_create_def boot_sched_def boot_thread_def boot_lists_def threadlistnode_init_def threadlist_init_def set_prev_def set_next_def Let_def)
  then have "\<exists>h. threadlist_addtail (lists s1) (RunQueue 0) 3 = Ok h"
    by (simp add: threadlist_addtail_def threadlist_insertbeforenode_def deref_def set_prev_def set_next_def Let_def)
  then show ?thesis using f s1
    by (auto simp: thread_fork_def thread_make_runnable_def acquire_rq_def release_rq_def set_thread_def Let_def)
qed

lemma plain_threads_start: "threads_start plain_env plain_thread (boot_sched boot_lists)"
  unfolding threads_start_def
proof (intro allI impI)
  fix p d1 d2 and s :: psys and pr :: proc
  assume s: "psch s = boot_sched boot_lists" "procs s p = Some pr" "p_lock pr = spinlock_init" "p_threads pr = array_init"
  have "block_alloc_ok (e_tblock plain_env)" by (simp add: plain_env_def block_alloc_ok_def)
  then obtain ts where "array_add (e_tblock plain_env) array_init 3 = Ok (0, 0, ts)"
    using karr.add_elems [of array_init "e_tblock plain_env" 3] by (auto simp: array_init_num plain_env_def)
  then show "\<exists>s'. fork_thread plain_env plain_thread p d1 d2 s = Ok (0, s')"
    using s plain_thread_forks [of "unat p"]
    by (auto simp: fork_thread_def plain_thread_def thread_create_def proc_addthread_def with_proc_def plain_env_def Let_def)
qed

lemma one_psys_ok:
  obtains a n h where "procs_ok {(a, n)} (one_psys a h)" and "env_ok plain_env (pheap (one_psys a h))"
    and "kstring (pheap (one_psys a h)) {(a, n)} 0x80000300 []" and "roomy 11 (pheap (one_psys a h))"
proof -
  have r: "roomy (Suc 11) wide_heap" using roomy_mono [OF wide_heap_roomy] by simp
  obtain a h where a: "kmalloc 0 52 wide_heap = Ok (a, h)" "a \<noteq> 0" "roomy 11 h"
    using kmalloc_progress [OF wide_heap_abs _ r, of 52 0] by auto
  obtain n where g: "grown wide_heap {} h {(a, n)}" by (rule kmalloc_block [OF wide_heap_abs _ a(1,2)]) simp
  have h: "pheap (one_psys a h) = h" by (simp add: one_psys_def)
  have "kstring wide_heap {} 0x80000300 []" by (rule wide_heap_string) simp
  then have "kstring h {(a, n)} 0x80000300 []" by (rule kstring_grown [OF _ g])
  moreover have "env_ok plain_env h" using env_ok_grown [OF _ g] empty_psys_ok(2,5) by simp
  moreover have "procs_ok {(a, n)} (one_psys a h)"
    using grown_abs [OF g] h by (simp add: procs_ok_def arrays_ok_def table_def pids_def) (simp add: one_psys_def empty_psys_def)
  ultimately show ?thesis using that [of a n h] h a(3) by simp
qed

lemma one_psys_fields: "procs (one_psys a h) (curp (one_psys a h)) = Some (no_proc\<lparr>p_name := 0x80000300, p_table := 0x80001000\<rparr>)"
  "tables (one_psys a h) 0x80001000 = Some (replicate 64 0)" "pids (one_psys a h) = []" "code_list (one_psys a h) = []"
  "codes (one_psys a h) \<noteq> None" "psch (one_psys a h) = boot_sched boot_lists" "starts (one_psys a h) = Map.empty"
  by (simp_all add: one_psys_def empty_psys_def pids_def table_def code_list_def set_pheap_def)

lemma one_psys_forks:
  assumes "procs_ok {(a, n)} (one_psys a h)" and "env_ok plain_env (pheap (one_psys a h))"
    and "kstring (pheap (one_psys a h)) {(a, n)} 0x80000300 []" and "roomy 11 (pheap (one_psys a h))"
  obtains r s' ctf where "sys_fork plain_env plain_thread tf (one_psys a h) = Ok (r, s')" and "r \<noteq> 0" and "starts s' 3 = Some (ctf, 0)"
  using sys_fork_progress [OF assms(1,2) one_psys_fields(1) _ _ _ one_psys_fields(5) _ assms(4), of "[]" "replicate 64 0" plain_thread tf]
    one_psys_fields plain_threads_start assms(3) that by (auto simp: plain_thread_def no_proc_def)


text \<open>What the new thread needs: the frame and the old address space, memory for two structures, and a usable process.\<close>

definition child_ready :: "vaddr \<Rightarrow> vaddr \<Rightarrow> psys \<Rightarrow> bool" where
  "child_ready ctf old s \<longleftrightarrow> (\<exists>B n. heap_abs (pheap s) B \<and> (ctf, n) \<in> B) \<and> roomy 2 (pheap s) \<and> spaces (pvm s) old \<noteq> None
     \<and> (\<exists>pr. curp s \<noteq> 0 \<and> procs s (curp s) = Some pr \<and> p_lock pr = spinlock_init)
     \<and> stats_lock (pvm s) \<noteq> 0 \<and> spl (pvm s) \<in> {spl_low, spl_high}"

lemma as_activate_total: "stats_lock m \<noteq> 0 \<Longrightarrow> spl m \<in> {spl_low, spl_high} \<Longrightarrow> \<exists>m'. as_activate m = Ok m' \<and> heap m' = heap m"
  using spl_steps(1) [of m] spl_steps(2) [of _ "spl m"]
  by (simp add: as_activate_def vmstats_inc_def vmstats_inc_raw_def VMSTAT_COUNT_def)

lemma as_copy_total:
  assumes "heap_abs (heap m) B" and "roomy 2 (heap m)" and "spaces m old \<noteq> None"
  obtains new m' B' where "as_copy me raw old m = Ok (0, Some new, m')" and "grown (heap m) B (heap m') B'"
    and "stats_lock m' = stats_lock m" and "spl m' = spl m"
proof -
  have r: "roomy (Suc (Suc 0)) (heap m)" using assms(2) by (simp add: numeral_eq_Suc)
  obtain x h where x: "kmalloc me 80 (heap m) = Ok (x, h)" "x \<noteq> 0" "roomy (Suc 0) h"
    using kmalloc_progress [OF assms(1) _ r, of 80 me] by auto
  obtain B1 where g1: "grown (heap m) B h B1" by (rule kmalloc_any [OF assms(1) _ x(1)]) simp
  obtain y h2 where y: "kmalloc me 240 h = Ok (y, h2)" "y \<noteq> 0" using kmalloc_progress [OF grown_abs [OF g1] _ x(3), of 240 me] by auto
  obtain B2 where g2: "grown h B1 h2 B2" by (rule kmalloc_any [OF grown_abs [OF g1] _ y(1)]) simp
  obtain o' where "spaces m old = Some o'" using assms(3) by blast
  then obtain m' where "as_copy me raw old m = Ok (0, Some x, m')" "heap m' = h2" "stats_lock m' = stats_lock m" "spl m' = spl m"
    using x(1,2) y by (cases "x = old") (auto simp: as_copy_def as_create_def STACKPAGES_def as_prepare_load_def Let_def)
  then show ?thesis using that grown_trans [OF g1 g2] by simp
qed

lemma enter_forked_total:
  assumes "child_ready ctf old s" and "frames s ctf = Some tf"
  shows "\<exists>x. enter_forked_process E raw_new raw_as ctf old s = Ok x"
proof -
  obtain B n pr where B: "heap_abs (pheap s) B" "(ctf, n) \<in> B" and pr: "curp s \<noteq> 0" "procs s (curp s) = Some pr" "p_lock pr = spinlock_init"
    and r: "roomy 2 (pheap s)" "spaces (pvm s) old \<noteq> None" and st: "stats_lock (pvm s) \<noteq> 0" "spl (pvm s) \<in> {spl_low, spl_high}"
    using assms(1) by (auto simp: child_ready_def)
  obtain new m B' where c: "as_copy (e_cpu E) raw_as old (pvm s) = Ok (0, Some new, m)" "grown (pheap s) B (heap m) B'"
    "stats_lock m = stats_lock (pvm s)" "spl m = spl (pvm s)" by (rule as_copy_total [OF B(1) r])
  let ?s1 = "set_proc (curp s) (\<lambda>pr. pr\<lparr>p_as := new, p_lock := spinlock_init\<rparr>) (s\<lparr>pvm := m\<rparr>)"
  have set: "curproc_setas E new (s\<lparr>pvm := m\<rparr>) = Ok (p_as pr, ?s1)" using pr by (simp add: curproc_setas_def with_proc_def)
  have "stats_lock (vm_view ?s1) \<noteq> 0" "spl (vm_view ?s1) \<in> {spl_low, spl_high}" using st c(3,4) by (simp_all add: vm_view_def set_proc_def)
  then obtain m2 where m2: "as_activate (vm_view ?s1) = Ok m2" "heap m2 = heap m"
    using as_activate_total [of "vm_view ?s1"] by (auto simp: vm_view_def set_proc_def)
  have "(ctf, n) \<in> B'" by (rule grown_member [OF c(2) B(2)])
  then obtain h where "kfree (e_cpu E) ctf (heap m2) = Ok h" using kfree_spec [OF grown_abs [OF c(2)]] m2(2) by metis
  moreover have "frames ?s1 ctf = Some tf" using assms(2) by (simp add: set_proc_def)
  ultimately show ?thesis using c(1) set m2(1) by (simp add: enter_forked_process_def Let_def)
qed



end
