(* ===== verification/Synch.thy ===== *)
theory Synch
  imports Sched
begin

text \<open>
  Semaphores, locks and condition variables (\<^verbatim>\<open>kern/thread/synch.c\<close>), executed by any number of
  threads in any interleaving. Each step of a thread is one acquisition or release of a spinlock or
  one access to the shared fields; spinlocks exclude by \<open>Spinlock\<close> and wait channels are
  first-in first-out by \<open>Sched\<close>, so a spinlock is represented here by the thread that holds it and a
  channel by the sequence of its sleepers. A thread whose next step needs a held spinlock waits.
\<close>

subsection \<open>Creation and destruction\<close>

record semaphore =
  sem_count :: int
  sem_lock :: "nat option"
  sem_wclock :: "nat option"
  sem_sleepers :: "nat list"

definition sem_create :: "bool \<Rightarrow> bool \<Rightarrow> bool \<Rightarrow> int \<Rightarrow> semaphore option run" where
  "sem_create got_sem got_name got_wchan initial_count =
     kassert (initial_count \<ge> 0)
       (if \<not> got_sem then Ok None
        else if \<not> got_name then Ok None
        else if \<not> got_wchan then Ok None
        else Ok (Some \<lparr>sem_count = initial_count, sem_lock = None, sem_wclock = None, sem_sleepers = []\<rparr>))"

definition sem_destroy :: "semaphore \<Rightarrow> unit run" where
  "sem_destroy sem =
     kassert (sem_lock sem = None) (kassert (sem_wclock sem = None) (kassert (sem_sleepers sem = []) (Ok ())))"

subsection \<open>Semaphores\<close>

text \<open>
  Where a thread is in \<open>P\<close> or \<open>V\<close>. \<open>P\<close>: about to take the spinlock, to test the count, to lock the
  channel, to release the spinlock, to go to sleep; asleep; woken; about to decrement, to release.
  \<open>V\<close>: about to take the spinlock, to increment, to wake, to release.
\<close>

datatype sem_pc = SIdle | PStart | PTest | PWchan | PRelease | PSleep | PAsleep | PWoken | PTake | PFinish
  | VStart | VInc | VWake | VFinish

text \<open>\<open>p_done\<close> and \<open>v_done\<close> count the decrements and increments so far.\<close>

record sem_system =
  sem :: semaphore
  spc :: "nat \<Rightarrow> sem_pc"
  p_done :: nat
  v_done :: nat

datatype sem_call = CallP | CallV | Continue

definition sgo :: "nat \<Rightarrow> sem_pc \<Rightarrow> sem_system \<Rightarrow> sem_system" where
  "sgo t p s = s\<lparr>spc := (spc s)(t := p)\<rparr>"

definition with_sem :: "(semaphore \<Rightarrow> semaphore) \<Rightarrow> sem_system \<Rightarrow> sem_system" where
  "with_sem f s = s\<lparr>sem := f (sem s)\<rparr>"

text \<open>One step of thread \<open>t\<close> in \<open>P\<close>.\<close>

definition P_step :: "nat \<Rightarrow> sem_system \<Rightarrow> sem_system run" where
  "P_step t s =
     (case spc s t of
        PStart \<Rightarrow> if sem_lock (sem s) = None
                  then Ok (sgo t PTest (with_sem (\<lambda>m. m\<lparr>sem_lock := Some t\<rparr>) s)) else Ok s
      | PTest \<Rightarrow> if sem_count (sem s) = 0 then Ok (sgo t PWchan s) else Ok (sgo t PTake s)
      | PWchan \<Rightarrow> if sem_wclock (sem s) = None
                  then Ok (sgo t PRelease (with_sem (\<lambda>m. m\<lparr>sem_wclock := Some t\<rparr>) s)) else Ok s
      | PRelease \<Rightarrow> Ok (sgo t PSleep (with_sem (\<lambda>m. m\<lparr>sem_lock := None\<rparr>) s))
      | PSleep \<Rightarrow> Ok (sgo t PAsleep (with_sem (\<lambda>m. m\<lparr>sem_sleepers := sem_sleepers m @ [t], sem_wclock := None\<rparr>) s))
      | PWoken \<Rightarrow> if sem_lock (sem s) = None
                  then Ok (sgo t PTest (with_sem (\<lambda>m. m\<lparr>sem_lock := Some t\<rparr>) s)) else Ok s
      | PTake \<Rightarrow> kassert (sem_count (sem s) > 0)
                  (Ok (sgo t PFinish (with_sem (\<lambda>m. m\<lparr>sem_count := sem_count m - 1\<rparr>) (s\<lparr>p_done := Suc (p_done s)\<rparr>))))
      | PFinish \<Rightarrow> Ok (sgo t SIdle (with_sem (\<lambda>m. m\<lparr>sem_lock := None\<rparr>) s))
      | _ \<Rightarrow> Ok s)"

text \<open>
  One step of thread \<open>t\<close> in \<open>V\<close>. The call of \<open>wchan_wakeone\<close> is one step: it holds the channel's
  spinlock throughout, and the thread it takes off the channel becomes runnable.
\<close>

definition V_step :: "nat \<Rightarrow> sem_system \<Rightarrow> sem_system run" where
  "V_step t s =
     (case spc s t of
        VStart \<Rightarrow> if sem_lock (sem s) = None
                  then Ok (sgo t VInc (with_sem (\<lambda>m. m\<lparr>sem_lock := Some t\<rparr>) s)) else Ok s
      | VInc \<Rightarrow> (let c = cint (sem_count (sem s) + 1) in kassert (c > 0)
                  (Ok (sgo t VWake (with_sem (\<lambda>m. m\<lparr>sem_count := c\<rparr>) (s\<lparr>v_done := Suc (v_done s)\<rparr>)))))
      | VWake \<Rightarrow> if sem_wclock (sem s) \<noteq> None then Ok s
                 else (case sem_sleepers (sem s) of
                         [] \<Rightarrow> Ok (sgo t VFinish s)
                       | u # us \<Rightarrow> Ok (sgo t VFinish (sgo u PWoken (with_sem (\<lambda>m. m\<lparr>sem_sleepers := us\<rparr>) s))))
      | VFinish \<Rightarrow> Ok (sgo t SIdle (with_sem (\<lambda>m. m\<lparr>sem_lock := None\<rparr>) s))
      | _ \<Rightarrow> Ok s)"

definition sem_step :: "nat \<Rightarrow> sem_call \<Rightarrow> sem_system \<Rightarrow> sem_system run" where
  "sem_step t call s =
     (if spc s t = SIdle then
        (case call of CallP \<Rightarrow> Ok (sgo t PStart s) | CallV \<Rightarrow> Ok (sgo t VStart s) | Continue \<Rightarrow> Ok s)
      else if spc s t \<in> {VStart, VInc, VWake, VFinish} then V_step t s
      else P_step t s)"

fun sem_run :: "(nat \<times> sem_call) list \<Rightarrow> sem_system \<Rightarrow> sem_system run" where
  "sem_run [] s = Ok s"
| "sem_run ((t, call) # cs) s = bindR (sem_step t call s) (sem_run cs)"

definition sem_start :: "semaphore \<Rightarrow> sem_system" where
  "sem_start m = \<lparr>sem = m, spc = (\<lambda>_. SIdle), p_done = 0, v_done = 0\<rparr>"

fun owner_pc :: "sem_pc \<Rightarrow> bool" where
  "owner_pc SIdle = False" | "owner_pc PStart = False" | "owner_pc PTest = True" | "owner_pc PWchan = True"
| "owner_pc PRelease = True" | "owner_pc PSleep = False" | "owner_pc PAsleep = False" | "owner_pc PWoken = False"
| "owner_pc PTake = True" | "owner_pc PFinish = True" | "owner_pc VStart = False" | "owner_pc VInc = True"
| "owner_pc VWake = True" | "owner_pc VFinish = True"

definition wchan_pc :: "sem_pc \<Rightarrow> bool" where
  "wchan_pc p \<longleftrightarrow> p = PRelease \<or> p = PSleep"

text \<open>The threads that will look at the count again, or are about to wake one that will.\<close>

fun active_pc :: "sem_pc \<Rightarrow> bool" where
  "active_pc SIdle = False" | "active_pc PStart = False" | "active_pc PTest = True" | "active_pc PWchan = False"
| "active_pc PRelease = False" | "active_pc PSleep = False" | "active_pc PAsleep = False" | "active_pc PWoken = True"
| "active_pc PTake = True" | "active_pc PFinish = False" | "active_pc VStart = False" | "active_pc VInc = False"
| "active_pc VWake = True" | "active_pc VFinish = False"

definition sem_locks :: "sem_system \<Rightarrow> bool" where
  "sem_locks s \<longleftrightarrow> (\<forall>t. owner_pc (spc s t) \<longleftrightarrow> sem_lock (sem s) = Some t)
     \<and> (\<forall>t. wchan_pc (spc s t) \<longleftrightarrow> sem_wclock (sem s) = Some t)"

definition sem_queue :: "sem_system \<Rightarrow> bool" where
  "sem_queue s \<longleftrightarrow> distinct (sem_sleepers (sem s)) \<and> (\<forall>t. t \<in> set (sem_sleepers (sem s)) \<longleftrightarrow> spc s t = PAsleep)"

definition sem_counts :: "int \<Rightarrow> sem_system \<Rightarrow> bool" where
  "sem_counts i s \<longleftrightarrow> 0 \<le> sem_count (sem s) \<and> sem_count (sem s) < 2 ^ 31
     \<and> sem_count (sem s) = i + int (v_done s) - int (p_done s)
     \<and> (\<forall>t. spc s t = PWchan \<or> spc s t = PRelease \<longrightarrow> sem_count (sem s) = 0)
     \<and> (\<forall>t. spc s t = PTake \<longrightarrow> 0 < sem_count (sem s))"

definition active :: "sem_system \<Rightarrow> nat set" where
  "active s = {t. active_pc (spc s t)}"

definition sem_wakes :: "sem_system \<Rightarrow> bool" where
  "sem_wakes s \<longleftrightarrow> finite {t. spc s t \<noteq> SIdle}
     \<and> (sem_sleepers (sem s) \<noteq> [] \<or> (\<exists>t. spc s t = PSleep) \<longrightarrow> sem_count (sem s) \<le> int (card (active s)))"

definition sem_inv :: "int \<Rightarrow> sem_system \<Rightarrow> bool" where
  "sem_inv i s \<longleftrightarrow> sem_locks s \<and> sem_queue s \<and> sem_counts i s \<and> sem_wakes s"

lemmas sem_upd_defs = sgo_def with_sem_def

text \<open>
  Every step leaves the state alone, or moves the stepping thread from one place to the next, or is
  the waking step, which moves the longest sleeper as well.
\<close>

inductive sem_trans :: "nat \<Rightarrow> sem_system \<Rightarrow> sem_system \<Rightarrow> bool" where
  stay: "sem_trans t s s"
| call: "spc s t = SIdle \<Longrightarrow> p = PStart \<or> p = VStart \<Longrightarrow> sem_trans t s (sgo t p s)"
| acquire: "(p, q) \<in> {(PStart, PTest), (PWoken, PTest), (VStart, VInc)} \<Longrightarrow> spc s t = p \<Longrightarrow>
    sem_lock (sem s) = None \<Longrightarrow> sem_trans t s (sgo t q (with_sem (\<lambda>m. m\<lparr>sem_lock := Some t\<rparr>) s))"
| empty: "spc s t = PTest \<Longrightarrow> sem_count (sem s) = 0 \<Longrightarrow> sem_trans t s (sgo t PWchan s)"
| avail: "spc s t = PTest \<Longrightarrow> sem_count (sem s) \<noteq> 0 \<Longrightarrow> sem_trans t s (sgo t PTake s)"
| bridge: "spc s t = PWchan \<Longrightarrow> sem_wclock (sem s) = None \<Longrightarrow>
    sem_trans t s (sgo t PRelease (with_sem (\<lambda>m. m\<lparr>sem_wclock := Some t\<rparr>) s))"
| release: "(p, q) \<in> {(PRelease, PSleep), (PFinish, SIdle), (VFinish, SIdle)} \<Longrightarrow> spc s t = p \<Longrightarrow>
    sem_trans t s (sgo t q (with_sem (\<lambda>m. m\<lparr>sem_lock := None\<rparr>) s))"
| sleep: "spc s t = PSleep \<Longrightarrow>
    sem_trans t s (sgo t PAsleep (with_sem (\<lambda>m. m\<lparr>sem_sleepers := sem_sleepers m @ [t], sem_wclock := None\<rparr>) s))"
| take: "spc s t = PTake \<Longrightarrow> 0 < sem_count (sem s) \<Longrightarrow>
    sem_trans t s (sgo t PFinish (with_sem (\<lambda>m. m\<lparr>sem_count := sem_count m - 1\<rparr>) (s\<lparr>p_done := Suc (p_done s)\<rparr>)))"
| inc: "spc s t = VInc \<Longrightarrow> 0 < cint (sem_count (sem s) + 1) \<Longrightarrow>
    sem_trans t s (sgo t VWake (with_sem (\<lambda>m. m\<lparr>sem_count := cint (sem_count (sem s) + 1)\<rparr>)
      (s\<lparr>v_done := Suc (v_done s)\<rparr>)))"
| nobody: "spc s t = VWake \<Longrightarrow> sem_wclock (sem s) = None \<Longrightarrow> sem_sleepers (sem s) = [] \<Longrightarrow>
    sem_trans t s (sgo t VFinish s)"
| wake: "spc s t = VWake \<Longrightarrow> sem_wclock (sem s) = None \<Longrightarrow> sem_sleepers (sem s) = u # us \<Longrightarrow>
    sem_trans t s (sgo t VFinish (sgo u PWoken (with_sem (\<lambda>m. m\<lparr>sem_sleepers := us\<rparr>) s)))"

lemma sem_step_trans: "sem_step t c s = Ok s' \<Longrightarrow> sem_trans t s s'"
  by (cases "spc s t"; cases c)
    (auto simp: sem_step_def V_step_def P_step_def kassert_eq_Ok Let_def
      split: if_splits list.splits intro: sem_trans.intros)

lemma sem_locksD:
  "sem_locks s \<Longrightarrow> owner_pc (spc s t) \<longleftrightarrow> sem_lock (sem s) = Some t"
  "sem_locks s \<Longrightarrow> wchan_pc (spc s t) \<longleftrightarrow> sem_wclock (sem s) = Some t"
  by (auto simp: sem_locks_def)

lemma sem_locks_upd:
  assumes "sem_locks s"
    and "\<And>u. u \<noteq> t \<Longrightarrow> owner_pc (spc s' u) = owner_pc (spc s u) \<and> wchan_pc (spc s' u) = wchan_pc (spc s u)"
    and "(sem_lock (sem s') = sem_lock (sem s) \<and> owner_pc (spc s' t) = owner_pc (spc s t))
      \<or> (sem_lock (sem s) = None \<and> sem_lock (sem s') = Some t \<and> owner_pc (spc s' t))
      \<or> (owner_pc (spc s t) \<and> sem_lock (sem s') = None \<and> \<not> owner_pc (spc s' t))"
    and "(sem_wclock (sem s') = sem_wclock (sem s) \<and> wchan_pc (spc s' t) = wchan_pc (spc s t))
      \<or> (sem_wclock (sem s) = None \<and> sem_wclock (sem s') = Some t \<and> wchan_pc (spc s' t))
      \<or> (wchan_pc (spc s t) \<and> sem_wclock (sem s') = None \<and> \<not> wchan_pc (spc s' t))"
  shows "sem_locks s'"
  unfolding sem_locks_def
proof (intro conjI allI)
  fix u
  show "owner_pc (spc s' u) \<longleftrightarrow> sem_lock (sem s') = Some u"
    using assms(2) [of u] assms(3) sem_locksD(1) [OF assms(1), of u] sem_locksD(1) [OF assms(1), of t]
    by (cases "u = t") auto
  show "wchan_pc (spc s' u) \<longleftrightarrow> sem_wclock (sem s') = Some u"
    using assms(2) [of u] assms(4) sem_locksD(2) [OF assms(1), of u] sem_locksD(2) [OF assms(1), of t]
    by (cases "u = t") auto
qed

lemma sem_locks_trans:
  assumes "sem_trans t s s'" and "sem_locks s" and "sem_queue s"
  shows "sem_locks s'"
proof -
  have woken: "spc s u = PAsleep" if "sem_sleepers (sem s) = u # us" for u us
    using assms(3) that by (auto simp: sem_queue_def)
  show ?thesis
    using assms(1)
  proof cases
    case (wake u us)
    then show ?thesis using woken [OF wake(4)]
      by (intro sem_locks_upd [OF assms(2), of t]) (simp_all add: sem_upd_defs wchan_pc_def)
  next
    case (acquire p q)
    then show ?thesis by (intro sem_locks_upd [OF assms(2), of t]) (auto simp: sem_upd_defs wchan_pc_def)
  next
    case (release p q)
    then show ?thesis by (intro sem_locks_upd [OF assms(2), of t]) (auto simp: sem_upd_defs wchan_pc_def)
  next
    case (call p)
    then show ?thesis by (intro sem_locks_upd [OF assms(2), of t]) (auto simp: sem_upd_defs wchan_pc_def)
  qed (use assms(2) in \<open>simp_all add: sem_locks_upd [OF assms(2), of t] sem_upd_defs wchan_pc_def\<close>)
qed

lemma sem_queue_upd:
  "\<lbrakk>sem_queue s; sem_sleepers (sem s') = sem_sleepers (sem s); \<And>u. spc s' u = PAsleep \<longleftrightarrow> spc s u = PAsleep\<rbrakk>
    \<Longrightarrow> sem_queue s'"
  by (simp add: sem_queue_def)

lemma sem_queue_trans:
  assumes "sem_trans t s s'" and "sem_queue s"
  shows "sem_queue s'"
  using assms(1)
proof cases
  case (wake u us)
  then have d: "distinct (u # us)" and mem: "x \<in> set (u # us) \<longleftrightarrow> spc s x = PAsleep" for x
    using assms(2) by (simp_all add: sem_queue_def)
  have "x \<in> set us \<longleftrightarrow> spc s' x = PAsleep" for x
    using mem [of x] mem [of t] wake d by (cases "x = t"; cases "x = u") (auto simp: sem_upd_defs)
  then show ?thesis using wake(1) d by (simp add: sem_queue_def sem_upd_defs)
next
  case sleep
  then have "t \<notin> set (sem_sleepers (sem s))" using assms(2) by (simp add: sem_queue_def)
  then show ?thesis using sleep assms(2) by (auto simp: sem_queue_def sem_upd_defs)
qed (rule sem_queue_upd [OF assms(2)]; auto simp: sem_upd_defs assms(2))+

lemma sem_counts_upd:
  "\<lbrakk>sem_counts i s; sem_count (sem s') = sem_count (sem s); p_done s' = p_done s; v_done s' = v_done s;
    \<And>u. u \<noteq> t \<Longrightarrow> spc s' u = spc s u \<or> spc s' u = PWoken;
    spc s' t = PWchan \<or> spc s' t = PRelease \<Longrightarrow> sem_count (sem s) = 0;
    spc s' t = PTake \<Longrightarrow> 0 < sem_count (sem s)\<rbrakk> \<Longrightarrow> sem_counts i s'"
  unfolding sem_counts_def
  by (intro conjI allI impI; (elim conjE)?; metis sem_pc.distinct)

lemma sem_counts_trans:
  assumes "sem_trans t s s'" and "sem_locks s" and "sem_counts i s"
  shows "sem_counts i s'"
proof -
  have c0: "0 \<le> sem_count (sem s)" "sem_count (sem s) < 2 ^ 31" using assms(3) by (auto simp: sem_counts_def)
  have alone: "u = t" if "owner_pc (spc s t)" "owner_pc (spc s u)" for u
    using that sem_locksD(1) [OF assms(2)] by auto
  have quiet: "spc s u \<noteq> PWchan \<and> spc s u \<noteq> PRelease \<and> spc s u \<noteq> PTake" if "owner_pc (spc s t)" "u \<noteq> t" for u
    using alone [of u] that by (cases "spc s u") auto
  show ?thesis
    using assms(1)
  proof cases
    case take
    then show ?thesis using assms(3) quiet by (auto simp: sem_counts_def sem_upd_defs)
  next
    case inc
    have "sem_count (sem s) + 1 < 2 ^ 31"
    proof (rule ccontr)
      assume "\<not> ?thesis"
      then have "sem_count (sem s) + 1 = 2 ^ 31" using c0(2) by simp
      then show False using inc(3) cint_overflow by simp
    qed
    then have "cint (sem_count (sem s) + 1) = sem_count (sem s) + 1" using c0(1) by (intro cint_small) simp_all
    then show ?thesis using inc assms(3) quiet \<open>sem_count (sem s) + 1 < 2 ^ 31\<close>
      by (auto simp: sem_counts_def sem_upd_defs)
  next
    case bridge
    then have "sem_count (sem s) = 0" using assms(3) unfolding sem_counts_def by blast
    with bridge show ?thesis by (intro sem_counts_upd [OF assms(3), of _ t]) (simp_all add: sem_upd_defs)
  next
    case avail
    with c0 show ?thesis by (intro sem_counts_upd [OF assms(3), of _ t]) (simp_all add: sem_upd_defs)
  next
    case stay
    then show ?thesis using assms(3) by simp
  qed (rule sem_counts_upd [OF assms(3), of _ t]; auto simp: sem_upd_defs)+
qed

lemma cint_inc_le:
  assumes "0 \<le> x" and "x < 2 ^ 31"
  shows "cint (x + 1) \<le> x + 1"
proof (cases "x + 1 = 2 ^ 31")
  case True
  show ?thesis unfolding True cint_overflow by simp
next
  case False
  with assms show ?thesis by (subst cint_small) simp_all
qed

text \<open>How the set of active threads changes when one thread moves.\<close>

lemma active_move:
  assumes "finite {u. spc s u \<noteq> SIdle}" and "\<And>u. u \<noteq> t \<Longrightarrow> spc s' u = spc s u"
  shows "finite {u. spc s' u \<noteq> SIdle}"
    and "int (card (active s')) = int (card (active s))
      + (if active_pc (spc s' t) then 1 else 0) - (if active_pc (spc s t) then 1 else 0)"
proof -
  have "{u. spc s' u \<noteq> SIdle} \<subseteq> insert t {u. spc s u \<noteq> SIdle}" using assms(2) by auto
  then show fin': "finite {u. spc s' u \<noteq> SIdle}" using assms(1) finite_subset by blast
  have sub: "active r \<subseteq> {u. spc r u \<noteq> SIdle}" for r by (auto simp: active_def)
  have fin: "finite (active s)" "finite (active s')"
    by (rule finite_subset [OF sub assms(1)], rule finite_subset [OF sub fin'])
  have rest: "active s' - {t} = active s - {t}" using assms(2) by (auto simp: active_def)
  have split: "int (card (active r)) = int (card (active r - {t})) + (if active_pc (spc r t) then 1 else 0)"
    if "finite (active r)" for r
  proof (cases "t \<in> active r")
    case True
    with that have "card (active r) = Suc (card (active r - {t}))" by (rule card.remove)
    with True show ?thesis by (simp add: active_def)
  qed (simp add: active_def)
  show "int (card (active s')) = int (card (active s))
      + (if active_pc (spc s' t) then 1 else 0) - (if active_pc (spc s t) then 1 else 0)"
    using split [OF fin(1)] split [OF fin(2)] rest by simp
qed

lemma sem_wakes_upd:
  assumes "sem_wakes s" and "\<And>u. u \<noteq> t \<Longrightarrow> spc s' u = spc s u"
    and "sem_sleepers (sem s') \<noteq> [] \<or> (\<exists>u. spc s' u = PSleep) \<Longrightarrow>
      (sem_sleepers (sem s) \<noteq> [] \<or> (\<exists>u. spc s u = PSleep)) \<and>
      sem_count (sem s') - (if active_pc (spc s' t) then 1 else 0)
        \<le> sem_count (sem s) - (if active_pc (spc s t) then 1 else 0)
      \<or> sem_count (sem s') \<le> 0"
  shows "sem_wakes s'"
proof -
  have fin: "finite {u. spc s u \<noteq> SIdle}" using assms(1) by (simp add: sem_wakes_def)
  note m = active_move [OF fin, of t s', OF assms(2)]
  show ?thesis unfolding sem_wakes_def
  proof (intro conjI impI)
    show "finite {u. spc s' u \<noteq> SIdle}" by (rule m(1))
    assume "sem_sleepers (sem s') \<noteq> [] \<or> (\<exists>u. spc s' u = PSleep)"
    from assms(3) [OF this] show "sem_count (sem s') \<le> int (card (active s'))"
    proof
      assume a: "(sem_sleepers (sem s) \<noteq> [] \<or> (\<exists>u. spc s u = PSleep)) \<and>
        sem_count (sem s') - (if active_pc (spc s' t) then 1 else 0)
          \<le> sem_count (sem s) - (if active_pc (spc s t) then 1 else 0)"
      then have "sem_count (sem s) \<le> int (card (active s))" using assms(1) by (simp add: sem_wakes_def)
      with a m(2) show ?thesis by linarith
    qed simp
  qed
qed

lemma sem_wakes_trans:
  assumes tr: "sem_trans t s s'" and locks: "sem_locks s" and counts: "sem_counts i s"
    and queue: "sem_queue s" and wakes: "sem_wakes s"
  shows "sem_wakes s'"
  using tr
proof cases
  case stay
  then show ?thesis using wakes by simp
next
  case (call p)
  then show ?thesis by (intro sem_wakes_upd [OF wakes, of t]) (auto simp: sem_upd_defs split: if_splits)
next
  case (acquire p q)
  then show ?thesis by (intro sem_wakes_upd [OF wakes, of t]) (auto simp: sem_upd_defs split: if_splits)
next
  case (release p q)
  show ?thesis
  proof (cases "p = PRelease")
    case True
    then have "sem_count (sem s) = 0" using release(3) counts unfolding sem_counts_def by blast
    with release show ?thesis by (intro sem_wakes_upd [OF wakes, of t]) (auto simp: sem_upd_defs split: if_splits)
  next
    case False
    with release show ?thesis by (intro sem_wakes_upd [OF wakes, of t]) (auto simp: sem_upd_defs split: if_splits)
  qed
next
  case sleep
  then show ?thesis by (intro sem_wakes_upd [OF wakes, of t]) (auto simp: sem_upd_defs split: if_splits)
next
  case inc
  have "cint (sem_count (sem s) + 1) \<le> sem_count (sem s) + 1"
    using counts by (intro cint_inc_le) (auto simp: sem_counts_def)
  with inc show ?thesis by (intro sem_wakes_upd [OF wakes, of t]) (auto simp: sem_upd_defs split: if_splits)
next
  case nobody
  have "spc s u \<noteq> PSleep" for u
    using sem_locksD(2) [OF locks, of u] nobody(3) by (auto simp: wchan_pc_def)
  with nobody show ?thesis by (intro sem_wakes_upd [OF wakes, of t]) (auto simp: sem_upd_defs split: if_splits)
next
  case (wake u us)
  let ?s1 = "sgo u PWoken (with_sem (\<lambda>m. m\<lparr>sem_sleepers := us\<rparr>) s)"
  have u: "spc s u = PAsleep" using queue wake(4) by (auto simp: sem_queue_def)
  then have ut: "u \<noteq> t" using wake(2) by auto
  have "finite {x. spc s x \<noteq> SIdle}" and le: "sem_count (sem s) \<le> int (card (active s))"
    using wakes wake(4) by (auto simp: sem_wakes_def)
  note m1 = active_move [OF this(1), of u ?s1]
  have "finite {x. spc ?s1 x \<noteq> SIdle}" "int (card (active ?s1)) = int (card (active s)) + 1"
    using m1 u by (auto simp: sem_upd_defs split: if_splits)
  note m2 = active_move [OF this(1), of t s']
  have "finite {x. spc s' x \<noteq> SIdle}" "int (card (active s')) = int (card (active s))"
    using m2 wake ut \<open>int (card (active ?s1)) = int (card (active s)) + 1\<close> by (auto simp: sem_upd_defs split: if_splits)
  then show ?thesis using le wake(1) by (simp add: sem_wakes_def sem_upd_defs)
next
  case avail
  then show ?thesis by (intro sem_wakes_upd [OF wakes, of t]) (auto simp: sem_upd_defs split: if_splits)
qed (rule sem_wakes_upd [OF wakes, of t]; auto simp: sem_upd_defs split: if_splits)+

lemma sem_step_inv:
  assumes "sem_inv i s" and "sem_step t c s = Ok s'"
  shows "sem_inv i s'"
proof -
  have tr: "sem_trans t s s'" by (rule sem_step_trans [OF assms(2)])
  have s: "sem_locks s" "sem_queue s" "sem_counts i s" "sem_wakes s" using assms(1) by (auto simp: sem_inv_def)
  show ?thesis unfolding sem_inv_def
    using sem_locks_trans [OF tr s(1,2)] sem_queue_trans [OF tr s(2)] sem_counts_trans [OF tr s(1,3)]
      sem_wakes_trans [OF tr s(1,3,2,4)] by blast
qed

text \<open>No assertion of \<open>P\<close> or \<open>V\<close> fails, short of a count that no longer fits an \<open>int\<close>.\<close>

lemma sem_step_ok:
  assumes "sem_inv i s" and "sem_count (sem s) < 2 ^ 31 - 1"
  shows "\<exists>s'. sem_step t c s = Ok s' \<and> v_done s' \<le> Suc (v_done s)"
proof -
  have c: "0 \<le> sem_count (sem s)" "spc s t = PTake \<Longrightarrow> 0 < sem_count (sem s)"
    using assms(1) by (auto simp: sem_inv_def sem_counts_def)
  have "cint (sem_count (sem s) + 1) = sem_count (sem s) + 1" using c(1) assms(2) by (intro cint_small) simp_all
  then show ?thesis using c
    by (cases "spc s t"; cases c)
      (simp_all add: sem_step_def P_step_def V_step_def sem_upd_defs split: list.splits)
qed

lemma sem_run_inv:
  "\<lbrakk>sem_inv i s; i + int (v_done s) + int (length cs) < 2 ^ 31\<rbrakk> \<Longrightarrow> \<exists>s'. sem_run cs s = Ok s' \<and> sem_inv i s'"
proof (induction cs arbitrary: s)
  case (Cons a cs)
  obtain t c where a: "a = (t, c)" by (cases a)
  have "sem_count (sem s) < 2 ^ 31 - 1" using Cons.prems by (auto simp: sem_inv_def sem_counts_def)
  from sem_step_ok [OF Cons.prems(1) this, of t c] obtain s' where
    s': "sem_step t c s = Ok s'" "v_done s' \<le> Suc (v_done s)" by blast
  have "\<exists>s''. sem_run cs s' = Ok s'' \<and> sem_inv i s''"
    using Cons.prems(2) s'(2) by (intro Cons.IH [OF sem_step_inv [OF Cons.prems(1) s'(1)]]) simp
  then show ?case using s'(1) a by simp
qed simp

lemma sem_start_inv:
  assumes "0 \<le> i" and "i < 2 ^ 31"
  shows "sem_inv i (sem_start \<lparr>sem_count = i, sem_lock = None, sem_wclock = None, sem_sleepers = []\<rparr>)"
  using assms by (simp add: sem_inv_def sem_locks_def sem_queue_def sem_counts_def sem_wakes_def sem_start_def
      wchan_pc_def)

lemma sem_run_from_create:
  assumes "0 \<le> i" and "i + int (length cs) < 2 ^ 31"
  shows "\<exists>m s. sem_create True True True i = Ok (Some m) \<and> sem_run cs (sem_start m) = Ok s \<and> sem_inv i s"
proof -
  let ?m = "\<lparr>sem_count = i, sem_lock = None, sem_wclock = None, sem_sleepers = []\<rparr>"
  have "sem_inv i (sem_start ?m)" using assms by (intro sem_start_inv) simp_all
  from sem_run_inv [OF this, of cs] assms(2) have "\<exists>s. sem_run cs (sem_start ?m) = Ok s \<and> sem_inv i s"
    by (simp add: sem_start_def)
  then show ?thesis using assms(1) by (simp add: sem_create_def)
qed

text \<open>
  C5: a semaphore counts. Whatever the threads call and however their steps interleave, no
  assertion fails, the count is the initial count plus the completed increments of \<open>V\<close> minus the
  completed decrements of \<open>P\<close>, it is never negative, and at most one thread is between acquiring
  and releasing the semaphore's spinlock.
\<close>

theorem semaphore_conserves_count:
  assumes "0 \<le> i" and "i + int (length cs) < 2 ^ 31"
  shows "\<exists>m s. sem_create True True True i = Ok (Some m) \<and> sem_run cs (sem_start m) = Ok s
    \<and> sem_count (sem s) = i + int (v_done s) - int (p_done s) \<and> int (p_done s) \<le> i + int (v_done s)
    \<and> (\<forall>t u. owner_pc (spc s t) \<longrightarrow> owner_pc (spc s u) \<longrightarrow> t = u)"
proof -
  from sem_run_from_create [OF assms] obtain m s where
    s: "sem_create True True True i = Ok (Some m)" "sem_run cs (sem_start m) = Ok s" "sem_inv i s" by blast
  then have "sem_locks s" "sem_counts i s" by (auto simp: sem_inv_def)
  then have "sem_count (sem s) = i + int (v_done s) - int (p_done s)" "int (p_done s) \<le> i + int (v_done s)"
    "\<forall>t u. owner_pc (spc s t) \<longrightarrow> owner_pc (spc s u) \<longrightarrow> t = u"
    using sem_locksD(1) [of s] by (auto simp: sem_counts_def)
  with s show ?thesis by blast
qed

theorem semaphore_conserves_count_witness:
  "\<exists>m s. sem_create True True True 1 = Ok (Some m)
    \<and> sem_run [(1, CallP), (1, Continue), (1, Continue), (1, Continue)] (sem_start m) = Ok s
    \<and> sem_count (sem s) = 1 + int (v_done s) - int (p_done s)"
  using semaphore_conserves_count [of 1 "[(1, CallP), (1, Continue), (1, Continue), (1, Continue)]"] by auto

text \<open>
  C2: no wakeup is lost. If a thread sleeps on a semaphore, or has let go of the spinlock on its way
  to sleep, while the count is positive, then some other thread has been woken and will test the
  count, or is testing it, or is just about to wake a sleeper.
\<close>

theorem semaphore_no_lost_wakeup:
  assumes "0 \<le> i" and "i + int (length cs) < 2 ^ 31"
  shows "\<exists>m s. sem_create True True True i = Ok (Some m) \<and> sem_run cs (sem_start m) = Ok s
    \<and> ((\<exists>t. spc s t = PAsleep \<or> spc s t = PSleep) \<and> 0 < sem_count (sem s) \<longrightarrow>
        (\<exists>u. spc s u \<in> {PWoken, PTest, PTake, VWake}))"
proof -
  from sem_run_from_create [OF assms] obtain m s where
    s: "sem_create True True True i = Ok (Some m)" "sem_run cs (sem_start m) = Ok s" "sem_inv i s" by blast
  have "\<exists>u. spc s u \<in> {PWoken, PTest, PTake, VWake}"
    if t: "spc s t = PAsleep \<or> spc s t = PSleep" and pos: "0 < sem_count (sem s)" for t
  proof -
    have "sem_sleepers (sem s) \<noteq> [] \<or> (\<exists>t. spc s t = PSleep)"
      using t s(3) by (auto simp: sem_inv_def sem_queue_def)
    then have "0 < card (active s)" using s(3) pos by (auto simp: sem_inv_def sem_wakes_def)
    then obtain u where "u \<in> active s" by fastforce
    then have "active_pc (spc s u)" by (simp add: active_def)
    then show ?thesis by (intro exI [of _ u]) (cases "spc s u"; simp)
  qed
  with s(1,2) show ?thesis by blast
qed

theorem semaphore_no_lost_wakeup_witness:
  "\<exists>m s. sem_create True True True 0 = Ok (Some m)
    \<and> sem_run [(1, CallP), (1, Continue), (1, Continue), (1, Continue), (1, Continue), (2, CallV), (2, Continue),
        (2, Continue)] (sem_start m) = Ok s
    \<and> spc s 1 = PSleep \<and> 0 < sem_count (sem s) \<and> (\<exists>u. spc s u \<in> {PWoken, PTest, PTake, VWake})"
proof -
  let ?cs = "[(1, CallP), (1, Continue), (1, Continue), (1, Continue), (1, Continue), (2, CallV), (2, Continue),
        (2, Continue)]"
  let ?m = "\<lparr>sem_count = 0, sem_lock = None, sem_wclock = None, sem_sleepers = []\<rparr>"
  have "cint 1 = 1" by (simp add: cint_def)
  then have "\<exists>s. sem_run ?cs (sem_start ?m) = Ok s \<and> spc s 1 = PSleep \<and> 0 < sem_count (sem s)"
    by (simp add: sem_step_def P_step_def V_step_def sem_start_def sem_upd_defs)
  moreover have "sem_create True True True 0 = Ok (Some ?m)" by (simp add: sem_create_def)
  ultimately show ?thesis using semaphore_no_lost_wakeup [of 0 ?cs] by auto
qed

end
