(* ===== verification/Locks.thy ===== *)
theory Locks
  imports Synch
begin

text \<open>
  Locks and condition variables (\<^verbatim>\<open>kern/thread/synch.c\<close>, the second half), executed by any number of
  threads in any interleaving, one access or spinlock operation at a time. \<open>cv_wait\<close> calls
  \<open>lock_release\<close> and \<open>lock_acquire\<close>; the argument of the release places says whether the caller is
  \<open>cv_wait\<close>.
\<close>

subsection \<open>The steps of the lock and condition variable operations\<close>

text \<open>
  Places in \<open>lock_acquire\<close> (\<open>A\<close>), in \<open>lock_release\<close> (\<open>R\<close>) and in \<open>cv_wait\<close> (\<open>W\<close>): about to take the
  spinlock, to test the holder, to lock the channel, to release the spinlock, to go to sleep;
  asleep; woken; about to become holder, to release the spinlock; holding the lock; about to make
  the unlocked check, to check and clear the holder, to wake, to release the spinlock; about to lock
  the condition variable's channel, to go to sleep on it; asleep there.
\<close>

datatype lk_pc = LIdle | AStart | ATest | AWchan | ARelease | ASleep | AAsleep | AWoken | ATake | AFinish
  | Held | RStart bool | RLock bool | RClear bool | RWake bool | RFinish bool | WLock | WSleep | WAsleep

record lk_system =
  lock_holder :: "nat option"
  lock_lock :: "nat option"
  lk_wclock :: "nat option"
  lk_sleepers :: "nat list"
  cv_wclock :: "nat option"
  cv_sleepers :: "nat list"
  lpc :: "nat \<Rightarrow> lk_pc"

datatype lk_call = Acquire | Release | Wait | Signal | Broadcast | Proceed

definition lgo :: "nat \<Rightarrow> lk_pc \<Rightarrow> lk_system \<Rightarrow> lk_system" where
  "lgo t p s = s\<lparr>lpc := (lpc s)(t := p)\<rparr>"

definition lock_do_i_hold :: "nat \<Rightarrow> lk_system \<Rightarrow> bool" where
  "lock_do_i_hold t s \<longleftrightarrow> lock_holder s = Some t"

definition lock_acquire_step :: "nat \<Rightarrow> lk_system \<Rightarrow> lk_system run" where
  "lock_acquire_step t s =
     (case lpc s t of
        AStart \<Rightarrow> if lock_lock s = None then Ok (lgo t ATest (s\<lparr>lock_lock := Some t\<rparr>)) else Ok s
      | ATest \<Rightarrow> if lock_holder s \<noteq> None \<and> \<not> lock_do_i_hold t s then Ok (lgo t AWchan s)
                 else if lock_do_i_hold t s then Ok (lgo t AFinish s) else Ok (lgo t ATake s)
      | AWchan \<Rightarrow> if lk_wclock s = None then Ok (lgo t ARelease (s\<lparr>lk_wclock := Some t\<rparr>)) else Ok s
      | ARelease \<Rightarrow> Ok (lgo t ASleep (s\<lparr>lock_lock := None\<rparr>))
      | ASleep \<Rightarrow> Ok (lgo t AAsleep (s\<lparr>lk_sleepers := lk_sleepers s @ [t], lk_wclock := None\<rparr>))
      | AWoken \<Rightarrow> if lock_lock s = None then Ok (lgo t ATest (s\<lparr>lock_lock := Some t\<rparr>)) else Ok s
      | ATake \<Rightarrow> kassert (lock_holder s = None) (Ok (lgo t AFinish (s\<lparr>lock_holder := Some t\<rparr>)))
      | AFinish \<Rightarrow> Ok (lgo t Held (s\<lparr>lock_lock := None\<rparr>))
      | _ \<Rightarrow> Ok s)"

definition lock_release_step :: "nat \<Rightarrow> lk_system \<Rightarrow> lk_system run" where
  "lock_release_step t s =
     (case lpc s t of
        RStart w \<Rightarrow> kassert (lock_holder s \<noteq> None) (Ok (lgo t (RLock w) s))
      | RLock w \<Rightarrow> if lock_lock s = None then Ok (lgo t (RClear w) (s\<lparr>lock_lock := Some t\<rparr>)) else Ok s
      | RClear w \<Rightarrow> kassert (lock_do_i_hold t s) (Ok (lgo t (RWake w) (s\<lparr>lock_holder := None\<rparr>)))
      | RWake w \<Rightarrow> if lk_wclock s \<noteq> None then Ok s
                   else (case lk_sleepers s of
                           [] \<Rightarrow> Ok (lgo t (RFinish w) s)
                         | u # us \<Rightarrow> Ok (lgo t (RFinish w) (lgo u AWoken (s\<lparr>lk_sleepers := us\<rparr>))))
      | RFinish w \<Rightarrow> Ok (lgo t (if w then WSleep else LIdle) (s\<lparr>lock_lock := None\<rparr>))
      | _ \<Rightarrow> Ok s)"

text \<open>
  \<open>cv_wait\<close> locks the channel of the condition variable, releases the lock, sleeps, and acquires the
  lock again once woken.
\<close>

definition cv_wait_step :: "nat \<Rightarrow> lk_system \<Rightarrow> lk_system run" where
  "cv_wait_step t s =
     (case lpc s t of
        WLock \<Rightarrow> if cv_wclock s = None then Ok (lgo t (RStart True) (s\<lparr>cv_wclock := Some t\<rparr>)) else Ok s
      | WSleep \<Rightarrow> Ok (lgo t WAsleep (s\<lparr>cv_sleepers := cv_sleepers s @ [t], cv_wclock := None\<rparr>))
      | _ \<Rightarrow> Ok s)"

definition cv_signal :: "lk_system \<Rightarrow> lk_system run" where
  "cv_signal s =
     (if cv_wclock s \<noteq> None then Ok s
      else case cv_sleepers s of [] \<Rightarrow> Ok s | u # us \<Rightarrow> Ok (lgo u AStart (s\<lparr>cv_sleepers := us\<rparr>)))"

definition cv_broadcast :: "lk_system \<Rightarrow> lk_system run" where
  "cv_broadcast s =
     (if cv_wclock s \<noteq> None then Ok s
      else Ok (s\<lparr>cv_sleepers := [], lpc := \<lambda>u. if u \<in> set (cv_sleepers s) then AStart else lpc s u\<rparr>))"

text \<open>
  A thread outside the operations starts one. Signalling does not require the lock: the code does
  not check it.
\<close>

definition lk_step :: "nat \<Rightarrow> lk_call \<Rightarrow> lk_system \<Rightarrow> lk_system run" where
  "lk_step t call s =
     (if lpc s t = LIdle then
        (case call of Acquire \<Rightarrow> Ok (lgo t AStart s) | Signal \<Rightarrow> cv_signal s | Broadcast \<Rightarrow> cv_broadcast s | _ \<Rightarrow> Ok s)
      else if lpc s t = Held then
        (case call of Acquire \<Rightarrow> Ok (lgo t AStart s) | Release \<Rightarrow> Ok (lgo t (RStart False) s)
         | Wait \<Rightarrow> Ok (lgo t WLock s) | Signal \<Rightarrow> cv_signal s | Broadcast \<Rightarrow> cv_broadcast s | Proceed \<Rightarrow> Ok s)
      else case lpc s t of
        RStart w \<Rightarrow> lock_release_step t s | RLock w \<Rightarrow> lock_release_step t s | RClear w \<Rightarrow> lock_release_step t s
      | RWake w \<Rightarrow> lock_release_step t s | RFinish w \<Rightarrow> lock_release_step t s
      | WLock \<Rightarrow> cv_wait_step t s | WSleep \<Rightarrow> cv_wait_step t s | WAsleep \<Rightarrow> Ok s
      | _ \<Rightarrow> lock_acquire_step t s)"

fun lk_run :: "(nat \<times> lk_call) list \<Rightarrow> lk_system \<Rightarrow> lk_system run" where
  "lk_run [] s = Ok s"
| "lk_run ((t, c) # cs) s = bindR (lk_step t c s) (lk_run cs)"

definition lock_create :: "bool \<Rightarrow> bool \<Rightarrow> bool \<Rightarrow> lk_system option" where
  "lock_create got_lock got_name got_wchan =
     (if got_lock \<and> got_name \<and> got_wchan then
        Some \<lparr>lock_holder = None, lock_lock = None, lk_wclock = None, lk_sleepers = [],
              cv_wclock = None, cv_sleepers = [], lpc = \<lambda>_. LIdle\<rparr>
      else None)"

text \<open>Neither function checks who holds the lock; the channels must be empty.\<close>

definition lock_destroy :: "lk_system \<Rightarrow> unit run" where
  "lock_destroy s =
     kassert (lock_lock s = None) (kassert (lk_wclock s = None) (kassert (lk_sleepers s = []) (Ok ())))"

definition cv_destroy :: "lk_system \<Rightarrow> unit run" where
  "cv_destroy s = kassert (cv_wclock s = None) (kassert (cv_sleepers s = []) (Ok ()))"

subsection \<open>Tokens and queues\<close>

text \<open>
  A spinlock, or the lock itself, is a token: its holder is the one thread whose place is of a given
  kind. A channel is a queue of exactly the threads at the sleeping place.
\<close>

definition token :: "('p \<Rightarrow> bool) \<Rightarrow> (nat \<Rightarrow> 'p) \<Rightarrow> nat option \<Rightarrow> bool" where
  "token cls pcs k \<longleftrightarrow> (\<forall>t. cls (pcs t) \<longleftrightarrow> k = Some t)"

definition queued :: "('p \<Rightarrow> bool) \<Rightarrow> (nat \<Rightarrow> 'p) \<Rightarrow> nat list \<Rightarrow> bool" where
  "queued cls pcs q \<longleftrightarrow> distinct q \<and> (\<forall>t. t \<in> set q \<longleftrightarrow> cls (pcs t))"

lemma tokenD: "token cls pcs k \<Longrightarrow> cls (pcs t) \<longleftrightarrow> k = Some t"
  by (simp add: token_def)

lemma token_upd:
  assumes "token cls pcs k" and "\<And>u. u \<noteq> t \<Longrightarrow> cls (pcs' u) = cls (pcs u)"
    and "(k' = k \<and> cls (pcs' t) = cls (pcs t)) \<or> (k = None \<and> k' = Some t \<and> cls (pcs' t))
      \<or> (cls (pcs t) \<and> k' = None \<and> \<not> cls (pcs' t))"
  shows "token cls pcs' k'"
  unfolding token_def
proof
  fix u
  show "cls (pcs' u) \<longleftrightarrow> k' = Some u"
    using assms(2) [of u] assms(3) tokenD [OF assms(1), of u] tokenD [OF assms(1), of t]
    by (cases "u = t") auto
qed

lemma queuedD: "queued cls pcs q \<Longrightarrow> t \<in> set q \<longleftrightarrow> cls (pcs t)"
  by (simp add: queued_def)

lemma queued_fun_upd: "queued cls pcs q \<Longrightarrow> cls p = cls (pcs t) \<Longrightarrow> queued cls (pcs(t := p)) q"
  by (simp add: queued_def)

lemma queued_enq:
  "\<lbrakk>queued cls pcs q; \<not> cls (pcs t); cls (pcs' t); \<And>u. u \<noteq> t \<Longrightarrow> cls (pcs' u) = cls (pcs u)\<rbrakk> \<Longrightarrow> queued cls pcs' (q @ [t])"
  unfolding queued_def by (auto, metis+)

lemma queued_deq:
  assumes "queued cls pcs (u # q)" and "\<not> cls (pcs' u)" and "\<And>x. x \<noteq> u \<Longrightarrow> cls (pcs' x) = cls (pcs x)"
  shows "queued cls pcs' q"
  unfolding queued_def
proof (intro conjI allI)
  show "distinct q" using assms(1) by (simp add: queued_def)
  show "t \<in> set q \<longleftrightarrow> cls (pcs' t)" for t
    using assms queuedD [OF assms(1), of t] by (cases "t = u") (auto simp: queued_def)
qed

subsection \<open>The transitions\<close>

inductive lk_trans :: "nat \<Rightarrow> lk_system \<Rightarrow> lk_system \<Rightarrow> bool" where
  stay: "lk_trans t s s"
| move: "lpc s t = p \<Longrightarrow> (p, q) \<in> {(LIdle, AStart), (Held, AStart), (Held, RStart False), (Held, WLock),
      (RStart False, RLock False), (RStart True, RLock True)} \<Longrightarrow> lk_trans t s (lgo t q s)"
| take_spin: "lpc s t = p \<Longrightarrow> (p, q) \<in> {(AStart, ATest), (AWoken, ATest), (RLock False, RClear False),
      (RLock True, RClear True)} \<Longrightarrow> lock_lock s = None \<Longrightarrow> lk_trans t s (lgo t q (s\<lparr>lock_lock := Some t\<rparr>))"
| drop_spin: "lpc s t = p \<Longrightarrow> (p, q) \<in> {(ARelease, ASleep), (AFinish, Held), (RFinish False, LIdle),
      (RFinish True, WSleep)} \<Longrightarrow> lk_trans t s (lgo t q (s\<lparr>lock_lock := None\<rparr>))"
| busy: "lpc s t = ATest \<Longrightarrow> lock_holder s = Some u \<Longrightarrow> u \<noteq> t \<Longrightarrow> lk_trans t s (lgo t AWchan s)"
| mine: "lpc s t = ATest \<Longrightarrow> lock_holder s = Some t \<Longrightarrow> lk_trans t s (lgo t AFinish s)"
| free: "lpc s t = ATest \<Longrightarrow> lock_holder s = None \<Longrightarrow> lk_trans t s (lgo t ATake s)"
| bridge: "lpc s t = AWchan \<Longrightarrow> lk_wclock s = None \<Longrightarrow> lk_trans t s (lgo t ARelease (s\<lparr>lk_wclock := Some t\<rparr>))"
| sleep: "lpc s t = ASleep \<Longrightarrow>
    lk_trans t s (lgo t AAsleep (s\<lparr>lk_sleepers := lk_sleepers s @ [t], lk_wclock := None\<rparr>))"
| take: "lpc s t = ATake \<Longrightarrow> lock_holder s = None \<Longrightarrow> lk_trans t s (lgo t AFinish (s\<lparr>lock_holder := Some t\<rparr>))"
| clear: "lpc s t = RClear w \<Longrightarrow> lock_holder s = Some t \<Longrightarrow> lk_trans t s (lgo t (RWake w) (s\<lparr>lock_holder := None\<rparr>))"
| nobody: "lpc s t = RWake w \<Longrightarrow> lk_wclock s = None \<Longrightarrow> lk_sleepers s = [] \<Longrightarrow> lk_trans t s (lgo t (RFinish w) s)"
| wake: "lpc s t = RWake w \<Longrightarrow> lk_wclock s = None \<Longrightarrow> lk_sleepers s = u # us \<Longrightarrow>
    lk_trans t s (lgo t (RFinish w) (lgo u AWoken (s\<lparr>lk_sleepers := us\<rparr>)))"
| wlock: "lpc s t = WLock \<Longrightarrow> cv_wclock s = None \<Longrightarrow> lk_trans t s (lgo t (RStart True) (s\<lparr>cv_wclock := Some t\<rparr>))"
| wsleep: "lpc s t = WSleep \<Longrightarrow>
    lk_trans t s (lgo t WAsleep (s\<lparr>cv_sleepers := cv_sleepers s @ [t], cv_wclock := None\<rparr>))"
| signal: "cv_wclock s = None \<Longrightarrow> cv_sleepers s = u # us \<Longrightarrow> lk_trans t s (lgo u AStart (s\<lparr>cv_sleepers := us\<rparr>))"
| broadcast: "cv_wclock s = None \<Longrightarrow> lk_trans t s
    (s\<lparr>cv_sleepers := [], lpc := \<lambda>u. if u \<in> set (cv_sleepers s) then AStart else lpc s u\<rparr>)"

lemma cv_signal_trans: "cv_signal s = Ok s' \<Longrightarrow> lk_trans t s s'"
  by (auto simp: cv_signal_def split: if_splits list.splits intro: lk_trans.intros)

lemma cv_broadcast_trans: "cv_broadcast s = Ok s' \<Longrightarrow> lk_trans t s s'"
  by (auto simp: cv_broadcast_def split: if_splits intro: lk_trans.intros)

lemmas acquire_step_defs = lock_acquire_step_def lock_do_i_hold_def kassert_eq_Ok

lemma lock_acquire_trans:
  assumes "lock_acquire_step t s = Ok s'"
  shows "lk_trans t s s'"
proof (cases "lpc s t")
  case AStart
  then show ?thesis using assms take_spin [OF AStart, of ATest] stay
    by (auto simp: acquire_step_defs split: if_splits)
next
  case AWoken
  then show ?thesis using assms take_spin [OF AWoken, of ATest] stay
    by (auto simp: acquire_step_defs split: if_splits)
next
  case ATest
  then show ?thesis using assms busy [OF ATest] mine [OF ATest] free [OF ATest]
    by (cases "lock_holder s") (auto simp: acquire_step_defs split: if_splits)
next
  case AWchan
  then show ?thesis using assms bridge [OF AWchan] stay by (auto simp: acquire_step_defs split: if_splits)
next
  case ARelease
  then show ?thesis using assms drop_spin [OF ARelease, of ASleep] by (auto simp: acquire_step_defs)
next
  case AFinish
  then show ?thesis using assms drop_spin [OF AFinish, of Held] by (auto simp: acquire_step_defs)
next
  case ASleep
  then show ?thesis using assms sleep [OF ASleep] by (simp add: acquire_step_defs)
next
  case ATake
  then show ?thesis using assms lk_trans.take [OF ATake] by (auto simp: acquire_step_defs)
qed (use assms stay in \<open>simp_all add: acquire_step_defs\<close>)

lemmas release_step_defs = lock_release_step_def lock_do_i_hold_def kassert_eq_Ok

lemma lock_release_trans:
  assumes "lock_release_step t s = Ok s'"
  shows "lk_trans t s s'"
proof (cases "lpc s t")
  case (RStart w)
  then show ?thesis using assms move [OF RStart, of "RLock w"] by (cases w) (auto simp: release_step_defs)
next
  case (RLock w)
  then show ?thesis using assms take_spin [OF RLock, of "RClear w"] stay
    by (cases w) (auto simp: release_step_defs split: if_splits)
next
  case (RClear w)
  then show ?thesis using assms clear [OF RClear] by (auto simp: release_step_defs)
next
  case (RWake w)
  then show ?thesis using assms nobody [OF RWake] wake [OF RWake] stay
    by (auto simp: release_step_defs split: if_splits list.splits)
next
  case (RFinish w)
  then show ?thesis using assms drop_spin [OF RFinish, of "if w then WSleep else LIdle"]
    by (cases w) (auto simp: release_step_defs)
qed (use assms stay in \<open>simp_all add: release_step_defs\<close>)

lemma cv_wait_trans: "cv_wait_step t s = Ok s' \<Longrightarrow> lk_trans t s s'"
  by (cases "lpc s t") (auto simp: cv_wait_step_def split: if_splits intro: lk_trans.intros)

lemma lk_step_trans: "lk_step t c s = Ok s' \<Longrightarrow> lk_trans t s s'"
  unfolding lk_step_def
  using move [of s t "lpc s t"] stay cv_signal_trans cv_broadcast_trans lock_acquire_trans lock_release_trans
    cv_wait_trans
  by (cases "lpc s t"; cases c) auto

subsection \<open>Invariants\<close>

fun in_spin :: "lk_pc \<Rightarrow> bool" where
  "in_spin ATest = True" | "in_spin AWchan = True" | "in_spin ARelease = True" | "in_spin ATake = True"
| "in_spin AFinish = True" | "in_spin (RClear w) = True" | "in_spin (RWake w) = True"
| "in_spin (RFinish w) = True" | "in_spin _ = False"

fun in_wchan :: "lk_pc \<Rightarrow> bool" where
  "in_wchan ARelease = True" | "in_wchan ASleep = True" | "in_wchan _ = False"

fun in_cv :: "lk_pc \<Rightarrow> bool" where
  "in_cv (RStart w) = w" | "in_cv (RLock w) = w" | "in_cv (RClear w) = w" | "in_cv (RWake w) = w"
| "in_cv (RFinish w) = w" | "in_cv WSleep = True" | "in_cv _ = False"

text \<open>Places at which the thread holds the lock, and places at which it may.\<close>

fun holding :: "lk_pc \<Rightarrow> bool" where
  "holding Held = True" | "holding (RStart w) = True" | "holding (RLock w) = True" | "holding (RClear w) = True"
| "holding WLock = True" | "holding AFinish = True" | "holding _ = False"

fun may_hold :: "lk_pc \<Rightarrow> bool" where
  "may_hold AStart = True" | "may_hold ATest = True" | "may_hold p = holding p"

fun lk_asleep :: "lk_pc \<Rightarrow> bool" where
  "lk_asleep AAsleep = True" | "lk_asleep _ = False"

fun cv_asleep :: "lk_pc \<Rightarrow> bool" where
  "cv_asleep WAsleep = True" | "cv_asleep _ = False"

fun lk_active :: "lk_pc \<Rightarrow> bool" where
  "lk_active AWoken = True" | "lk_active ATest = True" | "lk_active ATake = True" | "lk_active (RWake w) = True"
| "lk_active _ = False"

definition lk_tokens :: "lk_system \<Rightarrow> bool" where
  "lk_tokens s \<longleftrightarrow> token in_spin (lpc s) (lock_lock s) \<and> token in_wchan (lpc s) (lk_wclock s)
     \<and> token in_cv (lpc s) (cv_wclock s) \<and> queued lk_asleep (lpc s) (lk_sleepers s)
     \<and> queued cv_asleep (lpc s) (cv_sleepers s)"

definition lk_holder_ok :: "lk_system \<Rightarrow> bool" where
  "lk_holder_ok s \<longleftrightarrow> (\<forall>t. holding (lpc s t) \<longrightarrow> lock_holder s = Some t)
     \<and> (\<forall>t. lock_holder s = Some t \<longrightarrow> may_hold (lpc s t))
     \<and> (\<forall>t. lpc s t = AWchan \<or> lpc s t = ARelease \<longrightarrow> lock_holder s \<noteq> None)
     \<and> (\<forall>t. lpc s t = ATake \<longrightarrow> lock_holder s = None)"

definition lk_waiting :: "lk_system \<Rightarrow> bool" where
  "lk_waiting s \<longleftrightarrow> lk_sleepers s \<noteq> [] \<or> (\<exists>t. lpc s t = ASleep)"

definition lk_wakes :: "lk_system \<Rightarrow> bool" where
  "lk_wakes s \<longleftrightarrow> (lk_waiting s \<longrightarrow> lock_holder s \<noteq> None \<or> (\<exists>t. lk_active (lpc s t)))"

definition lk_inv :: "lk_system \<Rightarrow> bool" where
  "lk_inv s \<longleftrightarrow> lk_tokens s \<and> lk_holder_ok s \<and> lk_wakes s"

lemma lgo_simps [simp]:
  "lpc (lgo t p s) = (lpc s)(t := p)" "lock_holder (lgo t p s) = lock_holder s" "lock_lock (lgo t p s) = lock_lock s"
  "lk_wclock (lgo t p s) = lk_wclock s" "lk_sleepers (lgo t p s) = lk_sleepers s"
  "cv_wclock (lgo t p s) = cv_wclock s" "cv_sleepers (lgo t p s) = cv_sleepers s"
  by (simp_all add: lgo_def)

lemma lk_tokensD:
  assumes "lk_tokens s"
  shows "token in_spin (lpc s) (lock_lock s)" "token in_wchan (lpc s) (lk_wclock s)"
    "token in_cv (lpc s) (cv_wclock s)" "queued lk_asleep (lpc s) (lk_sleepers s)"
    "queued cv_asleep (lpc s) (cv_sleepers s)"
  using assms by (simp_all add: lk_tokens_def)

text \<open>A step of one thread that touches no channel queue.\<close>

lemma lk_tokens_move:
  assumes "lk_tokens s" and "\<And>u. u \<noteq> t \<Longrightarrow> lpc s' u = lpc s u"
    and "lk_sleepers s' = lk_sleepers s" "cv_sleepers s' = cv_sleepers s"
    and "lk_asleep (lpc s' t) = lk_asleep (lpc s t)" "cv_asleep (lpc s' t) = cv_asleep (lpc s t)"
    and "(lock_lock s' = lock_lock s \<and> in_spin (lpc s' t) = in_spin (lpc s t))
      \<or> (lock_lock s = None \<and> lock_lock s' = Some t \<and> in_spin (lpc s' t))
      \<or> (in_spin (lpc s t) \<and> lock_lock s' = None \<and> \<not> in_spin (lpc s' t))"
    and "(lk_wclock s' = lk_wclock s \<and> in_wchan (lpc s' t) = in_wchan (lpc s t))
      \<or> (lk_wclock s = None \<and> lk_wclock s' = Some t \<and> in_wchan (lpc s' t))
      \<or> (in_wchan (lpc s t) \<and> lk_wclock s' = None \<and> \<not> in_wchan (lpc s' t))"
    and "(cv_wclock s' = cv_wclock s \<and> in_cv (lpc s' t) = in_cv (lpc s t))
      \<or> (cv_wclock s = None \<and> cv_wclock s' = Some t \<and> in_cv (lpc s' t))
      \<or> (in_cv (lpc s t) \<and> cv_wclock s' = None \<and> \<not> in_cv (lpc s' t))"
  shows "lk_tokens s'"
proof -
  note d = lk_tokensD [OF assms(1)]
  have "token in_spin (lpc s') (lock_lock s')" using assms(2,7) by (intro token_upd [OF d(1), of t]) simp_all
  moreover have "token in_wchan (lpc s') (lk_wclock s')" using assms(2,8) by (intro token_upd [OF d(2), of t]) simp_all
  moreover have "token in_cv (lpc s') (cv_wclock s')" using assms(2,9) by (intro token_upd [OF d(3), of t]) simp_all
  moreover have "lk_asleep (lpc s' u) = lk_asleep (lpc s u)" "cv_asleep (lpc s' u) = cv_asleep (lpc s u)" for u
    using assms(2) [of u] assms(5,6) by (cases "u = t"; simp)+
  ultimately show ?thesis using d(4,5) assms(3,4) by (simp add: lk_tokens_def queued_def)
qed

lemma lk_tokens_trans:
  assumes "lk_tokens s" and "lk_trans t s s'"
  shows "lk_tokens s'"
  using assms(2)
proof cases
  case stay
  then show ?thesis using assms(1) by simp
next
  case (move p q)
  then show ?thesis by (intro lk_tokens_move [OF assms(1), of t]) auto
next
  case (take_spin p q)
  then show ?thesis by (intro lk_tokens_move [OF assms(1), of t]) auto
next
  case (drop_spin p q)
  then show ?thesis by (intro lk_tokens_move [OF assms(1), of t]) auto
next
  case sleep
  note d = lk_tokensD [OF assms(1)]
  have "token in_spin (lpc s') (lock_lock s')" using sleep by (intro token_upd [OF d(1), of t]) simp_all
  moreover have "token in_wchan (lpc s') (lk_wclock s')" using sleep by (intro token_upd [OF d(2), of t]) simp_all
  moreover have "token in_cv (lpc s') (cv_wclock s')" using sleep by (intro token_upd [OF d(3), of t]) simp_all
  moreover have "queued lk_asleep (lpc s') (lk_sleepers s @ [t])" using sleep by (intro queued_enq [OF d(4)]) simp_all
  moreover have "queued cv_asleep (lpc s') (cv_sleepers s')" using sleep d(5) by (simp add: queued_fun_upd)
  ultimately show ?thesis using sleep(1) by (simp add: lk_tokens_def)
next
  case wsleep
  note d = lk_tokensD [OF assms(1)]
  have "token in_spin (lpc s') (lock_lock s')" using wsleep by (intro token_upd [OF d(1), of t]) simp_all
  moreover have "token in_wchan (lpc s') (lk_wclock s')" using wsleep by (intro token_upd [OF d(2), of t]) simp_all
  moreover have "token in_cv (lpc s') (cv_wclock s')" using wsleep by (intro token_upd [OF d(3), of t]) simp_all
  moreover have "queued cv_asleep (lpc s') (cv_sleepers s @ [t])" using wsleep by (intro queued_enq [OF d(5)]) simp_all
  moreover have "queued lk_asleep (lpc s') (lk_sleepers s')" using wsleep d(4) by (simp add: queued_fun_upd)
  ultimately show ?thesis using wsleep(1) by (simp add: lk_tokens_def)
next
  case (wake w u us)
  note d = lk_tokensD [OF assms(1)]
  have "lk_asleep (lpc s u)" using queuedD [OF d(4), of u] wake(4) by simp
  then have u: "lpc s u = AAsleep" by (cases "lpc s u") simp_all
  let ?s = "lgo u AWoken (s\<lparr>lk_sleepers := us\<rparr>)"
  have "token in_spin (lpc ?s) (lock_lock ?s)" using u by (intro token_upd [OF d(1), of u]) simp_all
  moreover have "token in_wchan (lpc ?s) (lk_wclock ?s)" using u by (intro token_upd [OF d(2), of u]) simp_all
  moreover have "token in_cv (lpc ?s) (cv_wclock ?s)" using u by (intro token_upd [OF d(3), of u]) simp_all
  moreover have "queued lk_asleep (lpc ?s) us" by (rule queued_deq [OF d(4) [unfolded wake(4)]]) simp_all
  moreover have "queued cv_asleep (lpc ?s) (cv_sleepers ?s)" using d(5) u by (simp add: queued_fun_upd)
  ultimately have tok: "lk_tokens ?s" by (simp add: lk_tokens_def)
  have "u \<noteq> t" using u wake(2) by auto
  then show ?thesis using wake(1,2) by (intro lk_tokens_move [OF tok, of t]) simp_all
next
  case (signal u us)
  note d = lk_tokensD [OF assms(1)]
  have "cv_asleep (lpc s u)" using queuedD [OF d(5), of u] signal(3) by simp
  then have u: "lpc s u = WAsleep" by (cases "lpc s u") simp_all
  have "token in_spin (lpc s') (lock_lock s')" using signal u by (intro token_upd [OF d(1), of u]) simp_all
  moreover have "token in_wchan (lpc s') (lk_wclock s')" using signal u by (intro token_upd [OF d(2), of u]) simp_all
  moreover have "token in_cv (lpc s') (cv_wclock s')" using signal u by (intro token_upd [OF d(3), of u]) simp_all
  moreover have "queued cv_asleep (lpc s') us" by (rule queued_deq [OF d(5) [unfolded signal(3)]]) (simp_all add: signal(1))
  moreover have "queued lk_asleep (lpc s') (lk_sleepers s')" using d(4) signal u by (simp add: queued_fun_upd)
  ultimately show ?thesis using signal(1) by (simp add: lk_tokens_def)
next
  case broadcast
  note d = lk_tokensD [OF assms(1)]
  have slp: "lpc s u = WAsleep" if "u \<in> set (cv_sleepers s)" for u
    using queuedD [OF d(5), of u] that by (cases "lpc s u") simp_all
  have "in_spin (lpc s' u) = in_spin (lpc s u)" "in_wchan (lpc s' u) = in_wchan (lpc s u)"
    "in_cv (lpc s' u) = in_cv (lpc s u)" "lk_asleep (lpc s' u) = lk_asleep (lpc s u)" "\<not> cv_asleep (lpc s' u)" for u
    using broadcast(1) slp [of u] queuedD [OF d(5), of u] by (cases "u \<in> set (cv_sleepers s)"; simp)+
  then show ?thesis using d broadcast(1) by (simp add: lk_tokens_def token_def queued_def)
qed (rule lk_tokens_move [OF assms(1), of t]; simp)+

lemma lk_holder_move:
  assumes "lk_holder_ok s" and "lock_holder s' = lock_holder s"
    and "\<And>u. u \<noteq> t \<Longrightarrow> lpc s' u = lpc s u \<or> (\<not> may_hold (lpc s u) \<and> (lpc s' u = AWoken \<or> lpc s' u = AStart))"
    and "holding (lpc s' t) \<Longrightarrow> lock_holder s = Some t" and "lock_holder s = Some t \<Longrightarrow> may_hold (lpc s' t)"
    and "lpc s' t = AWchan \<or> lpc s' t = ARelease \<Longrightarrow> lock_holder s \<noteq> None"
    and "lpc s' t = ATake \<Longrightarrow> lock_holder s = None"
  shows "lk_holder_ok s'"
proof -
  have old: "holding (lpc s u) \<Longrightarrow> lock_holder s = Some u" "lock_holder s = Some u \<Longrightarrow> may_hold (lpc s u)"
    "lpc s u = AWchan \<or> lpc s u = ARelease \<Longrightarrow> lock_holder s \<noteq> None" "lpc s u = ATake \<Longrightarrow> lock_holder s = None" for u
    using assms(1) unfolding lk_holder_ok_def by blast+
  have "(holding (lpc s' u) \<longrightarrow> lock_holder s = Some u) \<and> (lock_holder s = Some u \<longrightarrow> may_hold (lpc s' u))
    \<and> (lpc s' u = AWchan \<or> lpc s' u = ARelease \<longrightarrow> lock_holder s \<noteq> None)
    \<and> (lpc s' u = ATake \<longrightarrow> lock_holder s = None)" for u
  proof (cases "u = t")
    case True
    then show ?thesis using assms(4-7) by simp
  next
    case False
    from assms(3) [OF this] show ?thesis
    proof
      assume "lpc s' u = lpc s u"
      then show ?thesis using old [of u] by simp
    next
      assume "\<not> may_hold (lpc s u) \<and> (lpc s' u = AWoken \<or> lpc s' u = AStart)"
      then show ?thesis using old(2) [of u] by auto
    qed
  qed
  then show ?thesis unfolding lk_holder_ok_def assms(2) by blast
qed

lemma lk_holder_trans:
  assumes tok: "lk_tokens s" and ok: "lk_holder_ok s" and tr: "lk_trans t s s'"
  shows "lk_holder_ok s'"
proof -
  note d = lk_tokensD [OF tok]
  have old: "holding (lpc s u) \<Longrightarrow> lock_holder s = Some u" "lock_holder s = Some u \<Longrightarrow> may_hold (lpc s u)"
    "lpc s u = AWchan \<or> lpc s u = ARelease \<Longrightarrow> lock_holder s \<noteq> None" "lpc s u = ATake \<Longrightarrow> lock_holder s = None" for u
    using ok unfolding lk_holder_ok_def by blast+
  have alone: "lpc s u \<noteq> AWchan \<and> lpc s u \<noteq> ARelease \<and> lpc s u \<noteq> ATake" if "in_spin (lpc s t)" "u \<noteq> t" for u
    using tokenD [OF d(1), of u] tokenD [OF d(1), of t] that by (cases "lpc s u") auto
  show ?thesis
    using tr
  proof cases
    case stay
    then show ?thesis using ok by simp
  next
    case (move p q)
    then show ?thesis using old [of t] by (intro lk_holder_move [OF ok, of _ t]) auto
  next
    case (take_spin p q)
    then show ?thesis using old [of t] by (intro lk_holder_move [OF ok, of _ t]) auto
  next
    case (drop_spin p q)
    then show ?thesis using old [of t] by (intro lk_holder_move [OF ok, of _ t]) auto
  next
    case take
    then show ?thesis using old alone unfolding lk_holder_ok_def by (auto split: if_splits)
  next
    case (clear w)
    have "\<not> holding (lpc s u)" if "u \<noteq> t" for u using old(1) [of u] clear(3) that by auto
    then show ?thesis using clear(1,2) alone unfolding lk_holder_ok_def by (auto split: if_splits)
  next
    case (wake w u us)
    have "lk_asleep (lpc s u)" using queuedD [OF d(4), of u] wake(4) by simp
    then have "lpc s u = AAsleep" by (cases "lpc s u") simp_all
    then show ?thesis using wake old [of t] by (intro lk_holder_move [OF ok, of _ t]) auto
  next
    case (signal u us)
    have "cv_asleep (lpc s u)" using queuedD [OF d(5), of u] signal(3) by simp
    then have "lpc s u = WAsleep" by (cases "lpc s u") simp_all
    then show ?thesis using signal old(2) [of u] by (intro lk_holder_move [OF ok, of _ u]) auto
  next
    case broadcast
    have "lpc s u = WAsleep" if "u \<in> set (cv_sleepers s)" for u
      using queuedD [OF d(5), of u] that by (cases "lpc s u") simp_all
    then show ?thesis using broadcast old [of t]
      by (intro lk_holder_move [OF ok, of _ t]) (auto split: if_splits)
  qed (use old [of t] in \<open>intro lk_holder_move [OF ok, of _ t]; auto\<close>)+
qed

lemma lk_wakes_keep:
  assumes "lk_wakes s" and "lock_holder s' = lock_holder s"
    and "lk_sleepers s' \<noteq> [] \<or> (\<exists>u. lpc s' u = ASleep) \<Longrightarrow> lk_sleepers s \<noteq> [] \<or> (\<exists>u. lpc s u = ASleep)"
    and "\<And>u. lk_active (lpc s u) \<Longrightarrow> lk_active (lpc s' u)"
  shows "lk_wakes s'"
  using assms unfolding lk_wakes_def lk_waiting_def by metis

lemma lk_wakes_here:
  "lock_holder s' \<noteq> None \<or> lk_active (lpc s' u) \<Longrightarrow> lk_wakes s'"
  by (auto simp: lk_wakes_def)

lemma lk_wakes_trans:
  assumes tok: "lk_tokens s" and ok: "lk_holder_ok s" and wakes: "lk_wakes s" and tr: "lk_trans t s s'"
  shows "lk_wakes s'"
  using tr
proof cases
  case stay
  then show ?thesis using wakes by simp
next
  case (move p q)
  then show ?thesis by (intro lk_wakes_keep [OF wakes]) (auto split: if_splits)
next
  case (take_spin p q)
  show ?thesis
  proof (cases "q = ATest")
    case True
    then show ?thesis using take_spin(1) by (intro lk_wakes_here [of _ t]) simp
  next
    case False
    then show ?thesis using take_spin by (intro lk_wakes_keep [OF wakes]) (auto split: if_splits)
  qed
next
  case (drop_spin p q)
  show ?thesis
  proof (cases "p = ARelease")
    case True
    then have "lock_holder s \<noteq> None" using ok drop_spin(2) unfolding lk_holder_ok_def by blast
    then show ?thesis using drop_spin(1) by (intro lk_wakes_here) simp
  next
    case False
    then show ?thesis using drop_spin by (intro lk_wakes_keep [OF wakes]) (auto split: if_splits)
  qed
next
  case bridge
  then have "lock_holder s \<noteq> None" using ok unfolding lk_holder_ok_def by blast
  then show ?thesis using bridge(1) by (intro lk_wakes_here) simp
next
  case nobody
  have "lpc s u \<noteq> ASleep" for u
    using tokenD [OF lk_tokensD(2) [OF tok], of u] nobody(3) by auto
  then show ?thesis using nobody by (auto simp: lk_wakes_def lk_waiting_def split: if_splits)
next
  case (wake w u us)
  have "lk_asleep (lpc s u)" using queuedD [OF lk_tokensD(4) [OF tok], of u] wake(4) by simp
  then have "u \<noteq> t" using wake(2) by auto
  then show ?thesis using wake(1) by (intro lk_wakes_here [of _ u]) simp
next
  case (signal u us)
  have "cv_asleep (lpc s u)" using queuedD [OF lk_tokensD(5) [OF tok], of u] signal(3) by simp
  then have "lpc s u = WAsleep" by (cases "lpc s u") simp_all
  then show ?thesis using signal by (intro lk_wakes_keep [OF wakes]) (auto split: if_splits)
next
  case broadcast
  have "lpc s u = WAsleep" if "u \<in> set (cv_sleepers s)" for u
    using queuedD [OF lk_tokensD(5) [OF tok], of u] that by (cases "lpc s u") simp_all
  then show ?thesis using broadcast by (intro lk_wakes_keep [OF wakes]) (auto split: if_splits)
next
  case sleep
  then show ?thesis by (intro lk_wakes_keep [OF wakes]) (auto split: if_splits)
next
  case wlock
  then show ?thesis by (intro lk_wakes_keep [OF wakes]) (auto split: if_splits)
next
  case wsleep
  then show ?thesis by (intro lk_wakes_keep [OF wakes]) (auto split: if_splits)
qed (rule lk_wakes_here [of _ t]; simp)+

lemma lk_step_inv:
  assumes "lk_inv s" and "lk_step t c s = Ok s'"
  shows "lk_inv s'"
  using lk_step_trans [OF assms(2)] assms(1) lk_tokens_trans lk_holder_trans lk_wakes_trans
  unfolding lk_inv_def by blast

text \<open>No assertion in any of the operations fails.\<close>

lemma lk_step_ok:
  assumes "lk_inv s"
  shows "\<exists>s'. lk_step t c s = Ok s'"
proof -
  have h: "holding (lpc s t) \<Longrightarrow> lock_holder s = Some t" "lpc s t = ATake \<Longrightarrow> lock_holder s = None"
    using assms unfolding lk_inv_def lk_holder_ok_def by blast+
  have "\<exists>s'. cv_signal s = Ok s'" "\<exists>s'. cv_broadcast s = Ok s'"
    by (auto simp: cv_signal_def cv_broadcast_def split: list.splits)
  then show ?thesis using h
    by (cases "lpc s t"; cases c)
      (auto simp: lk_step_def lock_acquire_step_def lock_release_step_def cv_wait_step_def lock_do_i_hold_def
        split: list.splits)
qed

lemma lk_run_inv: "lk_inv s \<Longrightarrow> \<exists>s'. lk_run cs s = Ok s' \<and> lk_inv s'"
proof (induction cs arbitrary: s)
  case (Cons a cs)
  obtain t c where a: "a = (t, c)" by (cases a)
  from lk_step_ok [OF Cons.prems, of t c] obtain s' where s': "lk_step t c s = Ok s'" by blast
  from Cons.IH [OF lk_step_inv [OF Cons.prems s']] show ?case using a s' by simp
qed simp

lemma lk_create_inv: "lock_create True True True = Some s \<Longrightarrow> lk_inv s"
  by (auto simp: lock_create_def lk_inv_def lk_tokens_def token_def queued_def lk_holder_ok_def lk_wakes_def
      lk_waiting_def)

lemma lk_run_from_create:
  "\<exists>s0 s. lock_create True True True = Some s0 \<and> lk_run cs s0 = Ok s \<and> lk_inv s"
proof -
  obtain s0 where "lock_create True True True = Some s0" by (simp add: lock_create_def)
  then show ?thesis using lk_run_inv [OF lk_create_inv] by blast
qed

subsection \<open>Properties\<close>

text \<open>
  C1: locks exclude. For any number of threads calling \<open>lock_acquire\<close>, \<open>lock_release\<close>, \<open>cv_wait\<close>,
  \<open>cv_signal\<close> and \<open>cv_broadcast\<close>, with their steps interleaved in any way, no assertion fails, at
  most one thread holds the lock, and it is the one \<open>lock_do_i_hold\<close> answers for.
\<close>

theorem lock_mutual_exclusion:
  "\<exists>s0 s. lock_create True True True = Some s0 \<and> lk_run cs s0 = Ok s
    \<and> (\<forall>t u. lpc s t = Held \<longrightarrow> lpc s u = Held \<longrightarrow> t = u)
    \<and> (\<forall>t. lpc s t = Held \<longrightarrow> lock_do_i_hold t s)"
proof -
  from lk_run_from_create [of cs] obtain s0 s where
    s: "lock_create True True True = Some s0" "lk_run cs s0 = Ok s" "lk_inv s" by blast
  have h: "lock_holder s = Some t" if "lpc s t = Held" for t
    using s(3) that unfolding lk_inv_def lk_holder_ok_def by (metis holding.simps(1))
  then have "\<forall>t u. lpc s t = Held \<longrightarrow> lpc s u = Held \<longrightarrow> t = u" by (metis option.inject)
  with s h show ?thesis by (auto simp: lock_do_i_hold_def)
qed

theorem lock_mutual_exclusion_witness:
  "\<exists>s0 s. lock_create True True True = Some s0
    \<and> lk_run [(1, Acquire), (2, Acquire), (2, Proceed), (1, Proceed), (2, Proceed), (2, Proceed), (2, Proceed)] s0 = Ok s
    \<and> lpc s 2 = Held \<and> lock_do_i_hold 2 s \<and> lpc s 1 \<noteq> Held"
proof -
  let ?cs = "[(1, Acquire), (2, Acquire), (2, Proceed), (1, Proceed), (2, Proceed), (2, Proceed), (2, Proceed)]"
  have "\<exists>s0 s. lock_create True True True = Some s0 \<and> lk_run ?cs s0 = Ok s \<and> lpc s 2 = Held"
    by (simp add: lock_create_def lk_step_def lock_acquire_step_def lock_do_i_hold_def lgo_def)
  then show ?thesis using lock_mutual_exclusion [of ?cs]
    by (metis numeral_eq_one_iff option.inject run.inject(1) semiring_norm(85))
qed

text \<open>
  C7: a lock is handed on. If a thread sleeps on a lock, or has let go of the spinlock on its way to
  sleep, then the lock is held, or some thread has been woken or is testing the holder, or the
  releasing thread is about to wake a sleeper.
\<close>

theorem lock_no_lost_wakeup:
  "\<exists>s0 s. lock_create True True True = Some s0 \<and> lk_run cs s0 = Ok s
    \<and> ((\<exists>t. lpc s t = AAsleep \<or> lpc s t = ASleep) \<longrightarrow> lock_holder s \<noteq> None
        \<or> (\<exists>u. lpc s u \<in> {AWoken, ATest, ATake, RWake False, RWake True}))"
proof -
  from lk_run_from_create [of cs] obtain s0 s where
    s: "lock_create True True True = Some s0" "lk_run cs s0 = Ok s" "lk_inv s" by blast
  have "lock_holder s \<noteq> None \<or> (\<exists>u. lpc s u \<in> {AWoken, ATest, ATake, RWake False, RWake True})"
    if "lpc s t = AAsleep \<or> lpc s t = ASleep" for t
  proof -
    have "t \<in> set (lk_sleepers s) \<longleftrightarrow> lk_asleep (lpc s t)"
      using s(3) by (simp add: lk_inv_def lk_tokens_def queued_def)
    then have "lk_waiting s" using that by (auto simp: lk_waiting_def)
    then consider "lock_holder s \<noteq> None" | u where "lk_active (lpc s u)"
      using s(3) by (auto simp: lk_inv_def lk_wakes_def)
    then show ?thesis
    proof cases
      case 2
      have "lpc s u \<in> {AWoken, ATest, ATake, RWake False, RWake True}" using 2 by (cases "lpc s u") auto
      then show ?thesis by blast
    qed blast
  qed
  with s(1,2) show ?thesis by blast
qed

theorem lock_no_lost_wakeup_witness:
  "\<exists>s0 s. lock_create True True True = Some s0
    \<and> lk_run [(1, Acquire), (1, Proceed), (1, Proceed), (1, Proceed), (1, Proceed), (2, Acquire), (2, Proceed),
        (2, Proceed), (2, Proceed), (2, Proceed), (2, Proceed)] s0 = Ok s
    \<and> lpc s 2 = AAsleep \<and> (lock_holder s \<noteq> None \<or> (\<exists>u. lpc s u \<in> {AWoken, ATest, ATake, RWake False, RWake True}))"
proof -
  let ?cs = "[(1, Acquire), (1, Proceed), (1, Proceed), (1, Proceed), (1, Proceed), (2, Acquire), (2, Proceed),
        (2, Proceed), (2, Proceed), (2, Proceed), (2, Proceed)]"
  have "\<exists>s0 s. lock_create True True True = Some s0 \<and> lk_run ?cs s0 = Ok s \<and> lpc s 2 = AAsleep"
    by (simp add: lock_create_def lk_step_def lock_acquire_step_def lock_do_i_hold_def lgo_def)
  then show ?thesis using lock_no_lost_wakeup [of ?cs] by (metis option.inject run.inject(1))
qed

text \<open>
  C6: \<open>cv_wait\<close> releases the lock and goes to sleep atomically with respect to signals. Whenever a
  signaller can get the channel, every thread that has given up the lock inside \<open>cv_wait\<close> and has
  not been woken is on the channel; the signal then wakes exactly the one that has waited longest,
  a broadcast all of them, and the woken threads go on to acquire the lock.
\<close>

theorem cv_wait_is_atomic:
  "\<exists>s0 s. lock_create True True True = Some s0 \<and> lk_run cs s0 = Ok s
    \<and> (cv_wclock s = None \<longrightarrow>
        (\<forall>t. lpc s t \<in> {RWake True, RFinish True, WSleep, WAsleep} \<longleftrightarrow> t \<in> set (cv_sleepers s))
        \<and> (\<forall>u us. cv_sleepers s = u # us \<longrightarrow> (\<exists>s'. cv_signal s = Ok s' \<and> lpc s' = (lpc s)(u := AStart)
             \<and> cv_sleepers s' = us))
        \<and> (\<exists>s'. cv_broadcast s = Ok s' \<and> cv_sleepers s' = []
             \<and> (\<forall>t. lpc s' t = (if lpc s t = WAsleep then AStart else lpc s t))))"
proof -
  from lk_run_from_create [of cs] obtain s0 s where
    s: "lock_create True True True = Some s0" "lk_run cs s0 = Ok s" "lk_inv s" by blast
  have q: "t \<in> set (cv_sleepers s) \<longleftrightarrow> cv_asleep (lpc s t)" and tk: "in_cv (lpc s t) \<longleftrightarrow> cv_wclock s = Some t" for t
    using s(3) by (auto simp: lk_inv_def lk_tokens_def queued_def token_def)
  have slp: "cv_asleep p \<longleftrightarrow> p = WAsleep" for p by (cases p) simp_all
  have "(\<forall>t. lpc s t \<in> {RWake True, RFinish True, WSleep, WAsleep} \<longleftrightarrow> t \<in> set (cv_sleepers s))
      \<and> (\<forall>u us. cv_sleepers s = u # us \<longrightarrow> (\<exists>s'. cv_signal s = Ok s' \<and> lpc s' = (lpc s)(u := AStart)
           \<and> cv_sleepers s' = us))
      \<and> (\<exists>s'. cv_broadcast s = Ok s' \<and> cv_sleepers s' = []
           \<and> (\<forall>t. lpc s' t = (if lpc s t = WAsleep then AStart else lpc s t)))" if free: "cv_wclock s = None"
  proof (intro conjI allI impI)
    show "lpc s t \<in> {RWake True, RFinish True, WSleep, WAsleep} \<longleftrightarrow> t \<in> set (cv_sleepers s)" for t
      using tk [of t] q [of t] free by (cases "lpc s t") auto
    show "\<exists>s'. cv_signal s = Ok s' \<and> lpc s' = (lpc s)(u := AStart) \<and> cv_sleepers s' = us"
      if "cv_sleepers s = u # us" for u us using that free by (simp add: cv_signal_def)
    show "\<exists>s'. cv_broadcast s = Ok s' \<and> cv_sleepers s' = []
        \<and> (\<forall>t. lpc s' t = (if lpc s t = WAsleep then AStart else lpc s t))"
      using free by (simp add: cv_broadcast_def q slp)
  qed
  note body = impI [OF this]
  show ?thesis by (rule exI [of _ s0], rule exI [of _ s], intro conjI s(1,2)) (rule body)
qed

theorem cv_wait_is_atomic_witness:
  "\<exists>s0 s. lock_create True True True = Some s0
    \<and> lk_run [(1, Acquire), (1, Proceed), (1, Proceed), (1, Proceed), (1, Proceed), (1, Wait), (1, Proceed),
        (1, Proceed), (1, Proceed), (1, Proceed), (1, Proceed), (1, Proceed), (1, Proceed)] s0 = Ok s
    \<and> cv_wclock s = None \<and> 1 \<in> set (cv_sleepers s)"
proof -
  let ?cs = "[(1, Acquire), (1, Proceed), (1, Proceed), (1, Proceed), (1, Proceed), (1, Wait), (1, Proceed),
        (1, Proceed), (1, Proceed), (1, Proceed), (1, Proceed), (1, Proceed), (1, Proceed)]"
  have "\<exists>s0 s. lock_create True True True = Some s0 \<and> lk_run ?cs s0 = Ok s \<and> cv_wclock s = None \<and> lpc s 1 = WAsleep"
    by (simp add: lock_create_def lk_step_def lock_acquire_step_def lock_release_step_def cv_wait_step_def
        lock_do_i_hold_def lgo_def)
  then show ?thesis using cv_wait_is_atomic [of ?cs] by (metis insertCI option.inject run.inject(1))
qed

end
