(* ===== verification/WaitExit.thy ===== *)
theory WaitExit
  imports ProcCalls Locks
begin

text \<open>
  \<open>sys_waitpid\<close> and \<open>sys__exit\<close> (\<^verbatim>\<open>kern/syscall/procops.c\<close>) and the encoding of the exit status
  (\<^verbatim>\<open>kern/include/kern/wait.h\<close>). Any number of threads run the two calls in any interleaving. A step is one
  step of the lock or condition variable of the process concerned, as in \<open>Locks\<close>, or a whole
  search or update of one of the two tables.
\<close>

subsection \<open>The exit status\<close>

definition WWHAT :: "int \<Rightarrow> int" where "WWHAT x = x AND 3"
definition WVAL :: "int \<Rightarrow> int" where "WVAL x = drop_bit 2 x"
definition MKWVAL :: "int \<Rightarrow> int" where "MKWVAL x = cint (push_bit 2 x)"

definition WEXITED :: int where "WEXITED = 0"
definition WSIGNALED :: int where "WSIGNALED = 1"
definition WCORED :: int where "WCORED = 2"
definition WSTOPPED :: int where "WSTOPPED = 3"

definition WIFEXITED :: "int \<Rightarrow> bool" where "WIFEXITED x \<longleftrightarrow> WWHAT x = WEXITED"
definition WIFSIGNALED :: "int \<Rightarrow> bool" where "WIFSIGNALED x \<longleftrightarrow> WWHAT x = WSIGNALED \<or> WWHAT x = WCORED"
definition WIFSTOPPED :: "int \<Rightarrow> bool" where "WIFSTOPPED x \<longleftrightarrow> WWHAT x = WSTOPPED"
definition WCOREDUMP :: "int \<Rightarrow> bool" where "WCOREDUMP x \<longleftrightarrow> WWHAT x = WCORED"
definition WEXITSTATUS :: "int \<Rightarrow> int" where "WEXITSTATUS x = WVAL x"
definition WTERMSIG :: "int \<Rightarrow> int" where "WTERMSIG x = WVAL x"
definition WSTOPSIG :: "int \<Rightarrow> int" where "WSTOPSIG x = WVAL x"

definition MKWAIT_EXIT :: "int \<Rightarrow> int" where "MKWAIT_EXIT x = MKWVAL x OR WEXITED"
definition MKWAIT_SIG :: "int \<Rightarrow> int" where "MKWAIT_SIG x = MKWVAL x OR WSIGNALED"
definition MKWAIT_CORE :: "int \<Rightarrow> int" where "MKWAIT_CORE x = MKWVAL x OR WCORED"
definition MKWAIT_STOP :: "int \<Rightarrow> int" where "MKWAIT_STOP x = MKWVAL x OR WSTOPPED"

lemmas wait_defs = WWHAT_def WVAL_def MKWVAL_def WEXITED_def WSIGNALED_def WCORED_def WSTOPPED_def WIFEXITED_def WIFSIGNALED_def
  WIFSTOPPED_def WCOREDUMP_def WEXITSTATUS_def WTERMSIG_def WSTOPSIG_def MKWAIT_EXIT_def MKWAIT_SIG_def MKWAIT_CORE_def MKWAIT_STOP_def

lemma low_tag:
  assumes "0 \<le> k" and "k < 4"
  shows "push_bit 2 x OR k = 4 * x + k" and "(4 * x + k) AND 3 = k" and "drop_bit 2 (4 * x + k) = (x :: int)"
proof -
  have m: "a AND 3 = a mod 4" for a :: int using take_bit_eq_mask [of 2 a] by (simp add: take_bit_eq_mod mask_eq_exp_minus_1)
  have "push_bit 2 x AND k = 0"
  proof (rule bit_eqI)
    fix n
    have "take_bit 2 k = k" using assms by (simp add: take_bit_int_eq_self)
    then have "bit k n \<Longrightarrow> n < 2" by (metis bit_take_bit_iff)
    then show "bit (push_bit 2 x AND k) n = bit 0 n" by (auto simp: bit_and_iff bit_push_bit_iff)
  qed
  then show "push_bit 2 x OR k = 4 * x + k" using disjunctive_add_eq_or [of "push_bit 2 x" k] by (simp add: push_bit_eq_mult)
  show "(4 * x + k) AND 3 = k" using assms by (simp add: m)
  show "drop_bit 2 (4 * x + k) = x" using assms by (simp add: drop_bit_eq_div)
qed

lemma MKWVAL_push: "MKWVAL x = push_bit 2 (signed_take_bit 29 x)"
  unfolding MKWVAL_def cint_def
proof (rule bit_eqI)
  fix n
  show "bit (signed_take_bit 31 (push_bit 2 x)) n = bit (push_bit 2 (signed_take_bit 29 x)) n"
    by (cases "n < 31") (auto simp: bit_signed_take_bit_iff bit_push_bit_iff min_def)
qed

lemma status_encoding:
  "MKWAIT_EXIT x = 4 * signed_take_bit 29 x + 0" "MKWAIT_SIG x = 4 * signed_take_bit 29 x + 1" "MKWAIT_CORE x = 4 * signed_take_bit 29 x + 2"
  "MKWAIT_STOP x = 4 * signed_take_bit 29 x + 3"
  unfolding MKWAIT_EXIT_def MKWAIT_SIG_def MKWAIT_CORE_def MKWAIT_STOP_def MKWVAL_push WEXITED_def WSIGNALED_def WCORED_def WSTOPPED_def
  by (rule low_tag(1); simp)+

lemma WEXITSTATUS_MKWAIT: "WEXITSTATUS (MKWAIT_EXIT x) = signed_take_bit 29 x"
  unfolding status_encoding WEXITSTATUS_def WVAL_def by (rule low_tag(3)) simp_all

text \<open>
  The encodings of the wait status invert. For each of the four kinds of status the test macro of
  that kind accepts the encoded value, the other tests reject it, and the value macro gives the encoded
  number back reduced to thirty signed bits, hence unchanged if it is between \<open>-2^29\<close> and \<open>2^29 - 1\<close>.
\<close>

theorem wait_status_roundtrip:
  "WIFEXITED (MKWAIT_EXIT x) \<and> \<not> WIFSIGNALED (MKWAIT_EXIT x) \<and> \<not> WIFSTOPPED (MKWAIT_EXIT x) \<and> WEXITSTATUS (MKWAIT_EXIT x) = signed_take_bit 29 x
   \<and> WIFSIGNALED (MKWAIT_SIG x) \<and> \<not> WCOREDUMP (MKWAIT_SIG x) \<and> \<not> WIFEXITED (MKWAIT_SIG x) \<and> \<not> WIFSTOPPED (MKWAIT_SIG x)
   \<and> WTERMSIG (MKWAIT_SIG x) = signed_take_bit 29 x
   \<and> WIFSIGNALED (MKWAIT_CORE x) \<and> WCOREDUMP (MKWAIT_CORE x) \<and> \<not> WIFEXITED (MKWAIT_CORE x) \<and> WTERMSIG (MKWAIT_CORE x) = signed_take_bit 29 x
   \<and> WIFSTOPPED (MKWAIT_STOP x) \<and> \<not> WIFEXITED (MKWAIT_STOP x) \<and> \<not> WIFSIGNALED (MKWAIT_STOP x) \<and> WSTOPSIG (MKWAIT_STOP x) = signed_take_bit 29 x
   \<and> (signed_take_bit 29 x = x \<longleftrightarrow> - (2 ^ 29) \<le> x \<and> x < 2 ^ 29)"
proof -
  let ?y = "signed_take_bit 29 x"
  have what: "WWHAT (4 * ?y + k) = k" "WVAL (4 * ?y + k) = ?y" if "0 \<le> k" "k < 4" for k
    unfolding WWHAT_def WVAL_def using low_tag(2,3) [OF that] by simp_all
  have "signed_take_bit 29 x = x \<longleftrightarrow> - (2 ^ 29) \<le> x \<and> x < 2 ^ 29" by (rule signed_take_bit_int_eq_self_iff)
  then show ?thesis unfolding status_encoding WIFEXITED_def WIFSIGNALED_def WIFSTOPPED_def WCOREDUMP_def WEXITSTATUS_def WTERMSIG_def WSTOPSIG_def
    using what [of 0] what [of 1] what [of 2] what [of 3] by (simp add: WEXITED_def WSIGNALED_def WCORED_def WSTOPPED_def)
qed

subsection \<open>The two calls\<close>

text \<open>
  Places in \<open>sys_waitpid\<close>: in \<open>lock_acquire\<close>, about to test whether the process is still in the table, in
  \<open>cv_wait\<close>, in \<open>lock_release\<close>, about to read the exit code; returned (with the process id, the status
  pointer and the status stored) or failed. Places in \<open>sys__exit\<close>: the exit code is stored and the
  process is about to leave the table, about to broadcast, finished.
\<close>

datatype wpc = InUser | Locking int vaddr vaddr | Checking int vaddr vaddr | Waiting int vaddr vaddr | Unlocking int vaddr vaddr
  | Reading int vaddr | Waited int vaddr int | WaitSelf int | WaitFailed | Removing | Waking | Gone

datatype wcall = CallWait int vaddr int | CallExit int | Go

text \<open>
  \<open>lks\<close> is the lock and the condition variable of each process, \<open>tproc\<close> the process of each thread,
  \<open>ustat\<close> the memory of each process as far as the status pointers reach; \<open>exits\<close> records the codes each
  process has passed to \<open>_exit\<close>. \<open>bad\<close> says which stores through a status pointer trap fatally.
\<close>

record wsys =
  wp :: psys
  lks :: "vaddr \<Rightarrow> lk_system"
  tproc :: "nat \<Rightarrow> vaddr"
  wpcs :: "nat \<Rightarrow> wpc"
  ustat :: "vaddr \<Rightarrow> vaddr \<Rightarrow> int"
  exits :: "vaddr \<Rightarrow> int set"

definition wgo :: "nat \<Rightarrow> wpc \<Rightarrow> wsys \<Rightarrow> wsys" where
  "wgo t p s = s\<lparr>wpcs := (wpcs s)(t := p)\<rparr>"

text \<open>A step of thread \<open>t\<close> on the lock of process \<open>p\<close>; once \<open>t\<close> is at place \<open>q\<close> there, the call is over.\<close>

definition lk_move :: "nat \<Rightarrow> vaddr \<Rightarrow> lk_call \<Rightarrow> (lk_pc \<Rightarrow> bool) \<Rightarrow> wpc \<Rightarrow> wpc \<Rightarrow> wsys \<Rightarrow> wsys run" where
  "lk_move t p c over inside fin s =
     bindR (lk_step t c (lks s p)) (\<lambda>l.
       Ok (wgo t (if over (lpc l t) then fin else inside) (s\<lparr>lks := (lks s)(p := l)\<rparr>)))"

definition valid_status :: "addrspace \<Rightarrow> vaddr \<Rightarrow> bool" where
  "valid_status as addr \<longleftrightarrow>
     as_vbase1 as \<le> addr \<and> addr < as_vbase1 as + as_npages1 as * PAGE_SIZE
     \<or> as_vbase2 as \<le> addr \<and> addr < as_vbase2 as + as_npages2 as * PAGE_SIZE
     \<or> USERSTACK - of_nat STACKPAGES * PAGE_SIZE \<le> addr \<and> addr < USERSTACK"

definition wait_fail :: "nat \<Rightarrow> int \<Rightarrow> wsys \<Rightarrow> wsys run" where
  "wait_fail t e s = Ok (wgo t WaitFailed (s\<lparr>wp := (wp s)\<lparr>perrno := e\<rparr>\<rparr>))"

definition waitpid_enter :: "nat \<Rightarrow> int \<Rightarrow> vaddr \<Rightarrow> int \<Rightarrow> wsys \<Rightarrow> wsys run" where
  "waitpid_enter t pid status options s =
     (if options \<noteq> 0 then wait_fail t EINVAL s
      else with_proc (tproc s t) (wp s) (\<lambda>cur.
        if pid = p_pid cur then Ok (wgo t (WaitSelf pid) s)
        else if p_as cur \<noteq> 0 \<and> spaces (pvm (wp s)) (p_as cur) = None then Halt Wild
        else if p_as cur \<noteq> 0 \<and> \<not> valid_status (the (spaces (pvm (wp s)) (p_as cur))) status then wait_fail t EFAULT s
        else bindR (find_proc pid (wp s)) (\<lambda>p.
          if p \<noteq> 0 then lk_move t p Acquire (\<lambda>q. q = Held) (Locking pid status p) (Checking pid status p) s
          else Ok (wgo t (Reading pid status) s))))"

definition waitpid_step :: "(vaddr \<Rightarrow> vaddr \<Rightarrow> bool) \<Rightarrow> nat \<Rightarrow> wsys \<Rightarrow> wsys run" where
  "waitpid_step bad t s =
     (case wpcs s t of
        Locking pid status p \<Rightarrow> lk_move t p Proceed (\<lambda>q. q = Held) (Locking pid status p) (Checking pid status p) s
      | Checking pid status p \<Rightarrow>
          bindR (find_proc pid (wp s)) (\<lambda>q.
            if q \<noteq> 0 then lk_move t p Wait (\<lambda>q. q = Held) (Waiting pid status p) (Checking pid status p) s
            else lk_move t p Release (\<lambda>q. q = LIdle) (Unlocking pid status p) (Reading pid status) s)
      | Waiting pid status p \<Rightarrow> lk_move t p Proceed (\<lambda>q. q = Held) (Waiting pid status p) (Checking pid status p) s
      | Unlocking pid status p \<Rightarrow> lk_move t p Proceed (\<lambda>q. q = LIdle) (Unlocking pid status p) (Reading pid status) s
      | Reading pid status \<Rightarrow>
          bindR (find_exitc pid (wp s)) (\<lambda>c.
            if c = 0 then wait_fail t ESRCH s
            else case exitcs (wp s) c of
                None \<Rightarrow> Halt Wild
              | Some x \<Rightarrow>
                  if bad (tproc s t) status then Halt Panicked
                  else Ok (wgo t (Waited pid status (exitcode x))
                         (s\<lparr>ustat := (ustat s)(tproc s t := (ustat s (tproc s t))(status := exitcode x))\<rparr>)))
      | _ \<Rightarrow> Ok s)"

definition exit_enter :: "nat \<Rightarrow> int \<Rightarrow> wsys \<Rightarrow> wsys run" where
  "exit_enter t code s =
     with_proc (tproc s t) (wp s) (\<lambda>cur.
       bindR (find_exitc (p_pid cur) (wp s)) (\<lambda>c.
         let s = s\<lparr>exits := (exits s)(tproc s t := insert code (exits s (tproc s t)))\<rparr> in
         Ok (wgo t Removing
           (if c = 0 then s
            else s\<lparr>wp := (wp s)\<lparr>exitcs := (exitcs (wp s))(c := map_option (\<lambda>x. x\<lparr>exitcode := MKWAIT_EXIT code\<rparr>) (exitcs (wp s) c))\<rparr>\<rparr>))))"

definition exit_step :: "nat \<Rightarrow> wsys \<Rightarrow> wsys run" where
  "exit_step t s =
     (case wpcs s t of
        Removing \<Rightarrow>
          (case procarr (wp s) of
             None \<Rightarrow> Halt Wild
           | Some a \<Rightarrow>
               bindR (scan (array_get a) (\<lambda>x. x = tproc s t) 0 (unat (array_get_num a))) (\<lambda>found.
               bindR (case found of None \<Rightarrow> Ok a | Some (i, _) \<Rightarrow> array_remove a (of_nat i)) (\<lambda>a.
                 Ok (wgo t Waking (s\<lparr>wp := (wp s)\<lparr>procarr := Some a\<rparr>\<rparr>)))))
      | Waking \<Rightarrow>
          if cv_wclock (lks s (tproc s t)) \<noteq> None then Ok s
          else bindR (cv_broadcast (lks s (tproc s t))) (\<lambda>l. Ok (wgo t Gone (s\<lparr>lks := (lks s)(tproc s t := l)\<rparr>)))
      | _ \<Rightarrow> Ok s)"

text \<open>A thread in user mode makes a call; a thread inside a call goes on with it.\<close>

fun in_user :: "wpc \<Rightarrow> bool" where
  "in_user InUser = True" | "in_user (Waited _ _ _) = True" | "in_user (WaitSelf _) = True" | "in_user WaitFailed = True"
| "in_user _ = False"

definition wstep :: "(vaddr \<Rightarrow> vaddr \<Rightarrow> bool) \<Rightarrow> nat \<Rightarrow> wcall \<Rightarrow> wsys \<Rightarrow> wsys run" where
  "wstep bad t c s =
     (if in_user (wpcs s t) then
        (case c of CallWait pid status options \<Rightarrow> waitpid_enter t pid status options s | CallExit code \<Rightarrow> exit_enter t code s | Go \<Rightarrow> Ok s)
      else if wpcs s t \<in> {Removing, Waking} then exit_step t s
      else waitpid_step bad t s)"

fun wrun :: "(vaddr \<Rightarrow> vaddr \<Rightarrow> bool) \<Rightarrow> (nat \<times> wcall) list \<Rightarrow> wsys \<Rightarrow> wsys run" where
  "wrun bad [] s = Ok s"
| "wrun bad ((t, c) # cs) s = bindR (wstep bad t c s) (wrun bad cs)"

subsection \<open>Exit codes\<close>

definition code_entry :: "psys \<Rightarrow> int \<Rightarrow> vaddr option" where
  "code_entry s pid = find (\<lambda>c. map_option x_pid (exitcs s c) = Some pid) (code_list s)"

definition code_of :: "psys \<Rightarrow> int \<Rightarrow> int option" where
  "code_of s pid = Option.bind (code_entry s pid) (\<lambda>c. map_option exitcode (exitcs s c))"

lemma find_exitc_spec:
  assumes "table_ok s" and "codes s \<noteq> None"
  shows "find_exitc pid s = Ok (case code_entry s pid of None \<Rightarrow> 0 | Some c \<Rightarrow> c)"
proof -
  obtain a where a: "codes s = Some a" "array_inv a" "0 \<notin> set (array_list a)" "set (array_list a) \<subseteq> dom (exitcs s)"
    using assms by (auto simp: table_ok_def arrays_ok_def)
  have "x \<noteq> 0 \<and> map_option x_pid (exitcs s x) \<noteq> None" if "x \<in> set (array_list a)" for x using a(3,4) that by auto
  then show ?thesis using find_pid_spec [OF a(2), of "\<lambda>c. map_option x_pid (exitcs s c)" pid] a(1)
    by (simp add: find_exitc_def code_entry_def code_list_def)
qed

lemma code_entry_Some:
  assumes "table_ok s" and "code_entry s pid = Some c"
  shows "c \<noteq> 0 \<and> (\<exists>x. exitcs s c = Some x \<and> x_pid x = pid)"
proof -
  have "c \<in> set (code_list s)" "map_option x_pid (exitcs s c) = Some pid" using assms(2) by (auto simp: code_entry_def find_Some_iff)
  moreover from this have "c \<noteq> 0" using assms(1) by (cases "codes s") (auto simp: table_ok_def arrays_ok_def code_list_def)
  ultimately show ?thesis by auto
qed

text \<open>Storing an exit code changes the code of that process id only.\<close>

definition put_code :: "vaddr \<Rightarrow> int \<Rightarrow> psys \<Rightarrow> psys" where
  "put_code c v s = s\<lparr>exitcs := (exitcs s)(c := map_option (\<lambda>x. x\<lparr>exitcode := v\<rparr>) (exitcs s c))\<rparr>"

lemma put_code_pid: "map_option x_pid (exitcs (put_code c v s) d) = map_option x_pid (exitcs s d)"
  by (auto simp: put_code_def option.map_comp comp_def)

lemma put_code_same [simp]: "procs (put_code c v s) = procs s" "procarr (put_code c v s) = procarr s" "codes (put_code c v s) = codes s"
  "pvm (put_code c v s) = pvm s" "table (put_code c v s) = table s" "pids (put_code c v s) = pids s" "code_list (put_code c v s) = code_list s"
  by (simp_all add: put_code_def table_def pids_def pid_at_def code_list_def)

lemma put_code_entry [simp]: "code_entry (put_code c v s) pid = code_entry s pid"
  by (simp add: code_entry_def put_code_pid)

lemma put_code_of:
  assumes "table_ok s" and "code_entry s pid = Some c"
  shows "code_of (put_code c v s) q = (if q = pid then Some v else code_of s q)"
proof (cases "q = pid")
  case True
  obtain x where "exitcs s c = Some x" using code_entry_Some [OF assms] by blast
  then show ?thesis using assms(2) True by (simp add: code_of_def) (simp add: put_code_def)
next
  case False
  have "d \<noteq> c" if "code_entry s q = Some d" for d using code_entry_Some [OF assms] code_entry_Some [OF assms(1) that] False by auto
  then show ?thesis using False by (cases "code_entry s q") (simp_all add: code_of_def, simp add: put_code_def)
qed

lemma put_code_ok: "table_ok s \<Longrightarrow> table_ok (put_code c v s)"
proof -
  have "dom (exitcs (put_code c v s)) = dom (exitcs s)" by (auto simp: put_code_def split: if_splits)
  then show "table_ok s \<Longrightarrow> table_ok (put_code c v s)" by (simp add: table_ok_def arrays_ok_def)
qed

subsection \<open>The invariant\<close>

text \<open>Where the machine starts: every thread is in user mode, in a process of the table that has an exit-code entry.\<close>

definition fresh_lock :: lk_system where
  "fresh_lock = \<lparr>lock_holder = None, lock_lock = None, lk_wclock = None, lk_sleepers = [], cv_wclock = None, cv_sleepers = [],
     lpc = \<lambda>_. LIdle\<rparr>"

definition wstart :: "wsys \<Rightarrow> bool" where
  "wstart b \<longleftrightarrow> table_ok (wp b) \<and> codes (wp b) \<noteq> None \<and> (\<forall>pid\<in>set (pids (wp b)). code_entry (wp b) pid \<noteq> None)
     \<and> (\<forall>p. lks b p = fresh_lock \<and> exits b p = {}) \<and> (\<forall>t. wpcs b t = InUser \<and> tproc b t \<in> set (table (wp b)))
     \<and> (\<forall>p pr. procs (wp b) p = Some pr \<longrightarrow> p_as pr \<noteq> 0 \<longrightarrow> spaces (pvm (wp b)) (p_as pr) \<noteq> None)"

text \<open>What holds at each place, for the initial state \<open>b\<close>.\<close>

definition place_ok :: "wsys \<Rightarrow> wsys \<Rightarrow> nat \<Rightarrow> wpc \<Rightarrow> bool" where
  "place_ok b s t q =
     (case q of
        Unlocking pid _ _ \<Rightarrow> pid \<notin> set (pids (wp s))
      | Reading pid _ \<Rightarrow> pid \<notin> set (pids (wp s))
      | Waited pid _ v \<Rightarrow> \<forall>p\<in>set (table (wp b)). pid_at (wp b) p = pid \<longrightarrow> p \<notin> set (table (wp s)) \<and> v \<in> MKWAIT_EXIT ` exits s p
      | Removing \<Rightarrow> exits s (tproc b t) \<noteq> {}
      | _ \<Rightarrow> True)"

definition wstable :: "wsys \<Rightarrow> wsys \<Rightarrow> bool" where
  "wstable b s \<longleftrightarrow> table_ok (wp s) \<and> codes (wp s) = codes (wp b) \<and> procs (wp s) = procs (wp b) \<and> pvm (wp s) = pvm (wp b)
     \<and> (\<forall>pid. code_entry (wp s) pid = code_entry (wp b) pid) \<and> set (table (wp s)) \<subseteq> set (table (wp b)) \<and> tproc s = tproc b
     \<and> (\<forall>p. lk_inv (lks s p))"

definition codes_right :: "wsys \<Rightarrow> wsys \<Rightarrow> bool" where
  "codes_right b s \<longleftrightarrow> (\<forall>p\<in>set (table (wp b)). (p \<notin> set (table (wp s)) \<longrightarrow> exits s p \<noteq> {})
     \<and> (exits s p \<noteq> {} \<longrightarrow> (\<exists>code\<in>exits s p. code_of (wp s) (pid_at (wp b) p) = Some (MKWAIT_EXIT code))))"

definition winv :: "wsys \<Rightarrow> wsys \<Rightarrow> bool" where
  "winv b s \<longleftrightarrow> wstable b s \<and> codes_right b s \<and> (\<forall>t. place_ok b s t (wpcs s t))"

lemma fresh_lock_inv: "lk_inv fresh_lock"
  by (rule lk_create_inv) (simp add: lock_create_def fresh_lock_def)

lemma wstart_inv: "wstart b \<Longrightarrow> winv b b"
  by (auto simp: wstart_def winv_def wstable_def codes_right_def place_ok_def fresh_lock_inv)

lemma place_mono:
  assumes "place_ok b s t q" and "set (table (wp s')) \<subseteq> set (table (wp s))" and "procs (wp s') = procs (wp s)" and "\<And>p. exits s p \<subseteq> exits s' p"
  shows "place_ok b s' t q"
proof -
  have "pid_at (wp s') = pid_at (wp s)" using assms(3) by (simp add: pid_at_def fun_eq_iff)
  then have "set (pids (wp s')) \<subseteq> set (pids (wp s))" using assms(2) by (auto simp: pids_def)
  then show ?thesis using assms by (auto simp: place_ok_def split: wpc.splits) blast+
qed

lemma perrno_same [simp]: "table (s\<lparr>perrno := e\<rparr>) = table s" "pids (s\<lparr>perrno := e\<rparr>) = pids s" "code_entry (s\<lparr>perrno := e\<rparr>) = code_entry s"
  "code_of (s\<lparr>perrno := e\<rparr>) = code_of s" "table_ok (s\<lparr>perrno := e\<rparr>) = table_ok s"
proof -
  have at: "pid_at (s\<lparr>perrno := e\<rparr>) = pid_at s" by (simp add: pid_at_def fun_eq_iff)
  show t: "table (s\<lparr>perrno := e\<rparr>) = table s" by (simp add: table_def)
  show p: "pids (s\<lparr>perrno := e\<rparr>) = pids s" using at t by (simp add: pids_def)
  show c: "code_entry (s\<lparr>perrno := e\<rparr>) = code_entry s" by (simp add: code_entry_def code_list_def fun_eq_iff)
  show "code_of (s\<lparr>perrno := e\<rparr>) = code_of s" using c by (simp add: code_of_def fun_eq_iff)
  show "table_ok (s\<lparr>perrno := e\<rparr>) = table_ok s" using t p by (simp add: table_ok_def arrays_ok_def)
qed

lemma wgo_simps [simp]: "wp (wgo t q s) = wp s" "lks (wgo t q s) = lks s" "tproc (wgo t q s) = tproc s" "exits (wgo t q s) = exits s"
  "wpcs (wgo t q s) = (wpcs s)(t := q)"
  by (simp_all add: wgo_def)

text \<open>Steps that leave the tables alone.\<close>

lemma winv_move:
  assumes "winv b s" and "\<And>p. lk_inv (lks s' p)" and "wpcs s' = (wpcs s)(t := q)" and "tproc s' = tproc s" and "exits s' = exits s"
    and "wp s' = wp s \<or> wp s' = (wp s)\<lparr>perrno := e\<rparr>" and "place_ok b s t q"
  shows "winv b s'"
proof -
  have same: "table (wp s') = table (wp s)" "procs (wp s') = procs (wp s)" "code_of (wp s') = code_of (wp s)"
    "wstable b s'" using assms(1,2,4,6) by (auto simp: winv_def wstable_def)
  have "place_ok b s' u (wpcs s' u)" for u
    using place_mono [of b s u "wpcs s' u" s'] assms(1,3,5,7) same by (cases "u = t") (simp_all add: winv_def)
  moreover have "codes_right b s'" using assms(1,5) same by (simp add: winv_def codes_right_def)
  ultimately show ?thesis using same(4) by (simp add: winv_def)
qed

lemma lk_move_ok:
  assumes "winv b s" and "place_ok b s t inside" and "place_ok b s t fin"
  shows "\<exists>s'. lk_move t p c over inside fin s = Ok s' \<and> winv b s'"
proof -
  have inv: "lk_inv (lks s p)" for p using assms(1) by (simp add: winv_def wstable_def)
  obtain l where l: "lk_step t c (lks s p) = Ok l" using lk_step_ok [OF inv] by blast
  let ?s = "wgo t (if over (lpc l t) then fin else inside) (s\<lparr>lks := (lks s)(p := l)\<rparr>)"
  have "winv b ?s" by (rule winv_move [OF assms(1), where t = t and q = "if over (lpc l t) then fin else inside"]) (use inv lk_step_inv [OF inv l] assms(2,3) in simp_all)
  then show ?thesis using l by (simp add: lk_move_def)
qed

lemma wait_fail_ok:
  assumes "winv b s"
  shows "\<exists>s'. wait_fail t e s = Ok s' \<and> winv b s'"
proof -
  have "\<And>p. lk_inv (lks s p)" using assms by (simp add: winv_def wstable_def)
  then have "winv b (wgo t WaitFailed (s\<lparr>wp := (wp s)\<lparr>perrno := e\<rparr>\<rparr>))"
    by (intro winv_move [OF assms, of _ t WaitFailed e]) (simp_all add: place_ok_def)
  then show ?thesis by (simp add: wait_fail_def)
qed

lemma wgo_ok: "winv b s \<Longrightarrow> place_ok b s t q \<Longrightarrow> winv b (wgo t q s)"
  by (rule winv_move [of b s _ t q]) (simp_all, simp add: winv_def wstable_def)

lemma current_proc:
  assumes "wstart b" and "winv b s"
  obtains cur where "procs (wp s) (tproc s t) = Some cur" and "p_pid cur = pid_at (wp b) (tproc s t)" and "tproc s t \<in> set (table (wp b))"
    and "p_as cur \<noteq> 0 \<Longrightarrow> spaces (pvm (wp s)) (p_as cur) \<noteq> None"
proof -
  have t: "tproc s t \<in> set (table (wp b))" "procs (wp s) = procs (wp b)" "pvm (wp s) = pvm (wp b)" "set (table (wp b)) \<subseteq> dom (procs (wp b))"
    using assms by (auto simp: wstart_def winv_def wstable_def table_ok_def)
  then obtain cur where "procs (wp b) (tproc s t) = Some cur" by auto
  then show ?thesis using that [of cur] t assms(1) by (auto simp: wstart_def pid_at_def)
qed

lemma find_proc_winv:
  assumes "winv b s"
  obtains p where "find_proc pid (wp s) = Ok p" and "p = 0 \<longleftrightarrow> pid \<notin> set (pids (wp s))"
proof -
  have ok: "table_ok (wp s)" using assms by (simp add: winv_def wstable_def)
  obtain p where "find_proc pid (wp s) = Ok p" using find_proc_spec [OF ok] by blast
  then show ?thesis using that find_proc_null [OF ok, of pid] by simp
qed

lemma waitpid_enter_ok:
  assumes "wstart b" and "winv b s"
  shows "\<exists>s'. waitpid_enter t pid status options s = Ok s' \<and> winv b s'"
proof -
  obtain cur where cur: "procs (wp s) (tproc s t) = Some cur" "p_as cur \<noteq> 0 \<Longrightarrow> spaces (pvm (wp s)) (p_as cur) \<noteq> None"
    using current_proc [OF assms, of t] by metis
  obtain p where p: "find_proc pid (wp s) = Ok p" "p = 0 \<longleftrightarrow> pid \<notin> set (pids (wp s))" by (rule find_proc_winv [OF assms(2)])
  have "winv b (wgo t (WaitSelf pid) s)" "pid \<notin> set (pids (wp s)) \<Longrightarrow> winv b (wgo t (Reading pid status) s)"
    using wgo_ok [OF assms(2)] by (simp_all add: place_ok_def)
  moreover have "\<exists>s'. lk_move t p Acquire (\<lambda>q. q = Held) (Locking pid status p) (Checking pid status p) s = Ok s' \<and> winv b s'"
    by (rule lk_move_ok [OF assms(2)]) (simp_all add: place_ok_def)
  ultimately show ?thesis using cur p wait_fail_ok [OF assms(2)] by (auto simp: waitpid_enter_def with_proc_def)
qed

lemma read_code:
  assumes "winv b s" and "pid \<notin> set (pids (wp s))" and "code_entry (wp s) pid = Some c"
  obtains x where "exitcs (wp s) c = Some x" and "c \<noteq> 0" and "place_ok b s t (Waited pid status (exitcode x))"
proof -
  have ok: "table_ok (wp s)" and at: "pid_at (wp s) = pid_at (wp b)" using assms(1) by (auto simp: winv_def wstable_def pid_at_def)
  obtain x where x: "exitcs (wp s) c = Some x" "c \<noteq> 0" using code_entry_Some [OF ok assms(3)] by blast
  then have code: "code_of (wp s) pid = Some (exitcode x)" using assms(3) by (simp add: code_of_def)
  have "p \<notin> set (table (wp s)) \<and> exitcode x \<in> MKWAIT_EXIT ` exits s p" if p: "p \<in> set (table (wp b))" "pid_at (wp b) p = pid" for p
  proof -
    have out: "p \<notin> set (table (wp s))" using assms(2) p(2) at by (auto simp: pids_def)
    then obtain code where "code \<in> exits s p" "code_of (wp s) pid = Some (MKWAIT_EXIT code)"
      using assms(1) p unfolding winv_def codes_right_def by metis
    then show ?thesis using out code by simp
  qed
  then show ?thesis using that [OF x] by (simp add: place_ok_def)
qed

lemma waitpid_step_ok:
  assumes "wstart b" and "winv b s"
  shows "\<exists>s'. waitpid_step (\<lambda>_ _. False) t s = Ok s' \<and> winv b s'"
proof (cases "wpcs s t")
  case (Locking pid status p)
  then show ?thesis using lk_move_ok [OF assms(2), of t "Locking pid status p" "Checking pid status p"] by (simp add: waitpid_step_def place_ok_def)
next
  case (Waiting pid status p)
  then show ?thesis using lk_move_ok [OF assms(2), of t "Waiting pid status p" "Checking pid status p"] by (simp add: waitpid_step_def place_ok_def)
next
  case (Unlocking pid status p)
  then have "place_ok b s t (Unlocking pid status p)" using assms(2) unfolding winv_def by metis
  then show ?thesis using Unlocking lk_move_ok [OF assms(2), of t "Unlocking pid status p" "Reading pid status"] by (simp add: waitpid_step_def place_ok_def)
next
  case (Checking pid status p)
  obtain q where q: "find_proc pid (wp s) = Ok q" "q = 0 \<longleftrightarrow> pid \<notin> set (pids (wp s))" by (rule find_proc_winv [OF assms(2)])
  then show ?thesis using Checking lk_move_ok [OF assms(2), of t "Unlocking pid status p" "Reading pid status"]
      lk_move_ok [OF assms(2), of t "Waiting pid status p" "Checking pid status p"] by (cases "q = 0") (simp_all add: waitpid_step_def place_ok_def)
next
  case (Reading pid status)
  have "place_ok b s t (Reading pid status)" using assms(2) Reading unfolding winv_def by metis
  then have out: "pid \<notin> set (pids (wp s))" by (simp add: place_ok_def)
  have ok: "table_ok (wp s)" "codes (wp s) \<noteq> None" "\<And>p. lk_inv (lks s p)" using assms by (auto simp: winv_def wstable_def wstart_def)
  show ?thesis
  proof (cases "code_entry (wp s) pid")
    case None
    then show ?thesis using Reading find_exitc_spec [OF ok(1,2), of pid] wait_fail_ok [OF assms(2)] by (simp add: waitpid_step_def)
  next
    case (Some c)
    obtain x where x: "exitcs (wp s) c = Some x" "c \<noteq> 0" "place_ok b s t (Waited pid status (exitcode x))" by (rule read_code [OF assms(2) out Some])
    let ?s = "wgo t (Waited pid status (exitcode x)) (s\<lparr>ustat := (ustat s)(tproc s t := (ustat s (tproc s t))(status := exitcode x))\<rparr>)"
    have "winv b ?s" by (rule winv_move [OF assms(2), of _ t "Waited pid status (exitcode x)"]) (use ok(3) x(3) in simp_all)
    then show ?thesis using Reading Some x find_exitc_spec [OF ok(1,2), of pid] by (simp add: waitpid_step_def)
  qed
qed (use assms(2) in \<open>auto simp: waitpid_step_def\<close>)

lemma exit_enter_ok:
  assumes "wstart b" and "winv b s"
  shows "\<exists>s'. exit_enter t code s = Ok s' \<and> winv b s'"
proof -
  obtain cur where cur: "procs (wp s) (tproc s t) = Some cur" "p_pid cur = pid_at (wp b) (tproc s t)" "tproc s t \<in> set (table (wp b))"
    using current_proc [OF assms, of t] by metis
  have st: "wstable b s" "codes_right b s" and ok: "table_ok (wp s)" "codes (wp s) \<noteq> None" "tproc s = tproc b"
    using assms by (auto simp: winv_def wstable_def wstart_def)
  have "p_pid cur \<in> set (pids (wp b))" using cur(2,3) by (simp add: pids_def)
  then obtain c where c: "code_entry (wp s) (p_pid cur) = Some c"
    using assms(1) st(1) by (auto simp: wstart_def wstable_def)
  then have c0: "c \<noteq> 0" using code_entry_Some [OF ok(1)] by blast
  let ?e = "(exits s)(tproc s t := insert code (exits s (tproc s t)))"
  let ?s = "wgo t Removing (s\<lparr>exits := ?e, wp := put_code c (MKWAIT_EXIT code) (wp s)\<rparr>)"
  have run: "exit_enter t code s = Ok ?s"
    using cur(1) find_exitc_spec [OF ok(1,2), of "p_pid cur"] c c0 by (simp add: exit_enter_def with_proc_def put_code_def)
  have "wstable b ?s" using st(1) put_code_ok [OF ok(1)] by (simp add: wstable_def)
  moreover have "codes_right b ?s"
  proof -
    have inj: "pid_at (wp b) p = p_pid cur \<longleftrightarrow> p = tproc s t" if "p \<in> set (table (wp b))" for p
      using assms(1) that cur(2,3) by (auto simp: wstart_def table_ok_def pids_def distinct_map inj_on_def)
    show ?thesis using st(2) inj cur(2) put_code_of [OF ok(1) c] by (auto simp: codes_right_def)
  qed
  moreover have "place_ok b ?s u (wpcs ?s u)" for u
  proof (cases "u = t")
    case False
    have "place_ok b s u (wpcs s u)" using assms(2) by (simp add: winv_def)
    then have "place_ok b ?s u (wpcs s u)" by (rule place_mono) auto
    then show ?thesis using False by simp
  qed (use ok(3) in \<open>simp add: place_ok_def\<close>)
  ultimately show ?thesis using run by (simp add: winv_def)
qed

lemma remove_from_array:
  assumes "array_inv a"
  shows "\<exists>found a'. scan (array_get a) (\<lambda>x. x = p) 0 (unat (array_get_num a)) = Ok found
    \<and> (case found of None \<Rightarrow> Ok a | Some (i, _) \<Rightarrow> array_remove a (of_nat i)) = Ok a' \<and> array_inv a' \<and> array_list a' = remove1 p (array_list a)"
proof (cases "first_match (\<lambda>x. x = p) 0 (array_list a)")
  case None
  then have "p \<notin> set (array_list a)" using first_match_find [of "\<lambda>x. x = p" 0 "array_list a"] find_None_iff [of "\<lambda>x. x = p" "array_list a"] by auto
  then show ?thesis using None assms karr.scan_finds [OF assms] by (simp add: remove1_idem)
next
  case (Some jz)
  then show ?thesis using karr.remove_found [OF assms, of p] karr.scan_finds [OF assms] by (cases jz) auto
qed

lemma exit_removes:
  assumes "table_ok (wp s)" and "wpcs s t = Removing"
  obtains a' where "exit_step t s = Ok (wgo t Waking (s\<lparr>wp := (wp s)\<lparr>procarr := Some a'\<rparr>\<rparr>))" and "array_inv a'"
    and "array_list a' = remove1 (tproc s t) (table (wp s))"
proof -
  obtain a where a: "procarr (wp s) = Some a" "array_inv a" "table (wp s) = array_list a"
    using assms(1) by (auto simp: table_ok_def arrays_ok_def table_def)
  obtain found a' where "scan (array_get a) (\<lambda>x. x = tproc s t) 0 (unat (array_get_num a)) = Ok found"
      "(case found of None \<Rightarrow> Ok a | Some (i, _) \<Rightarrow> array_remove a (of_nat i)) = Ok a'"
    "array_inv a'" "array_list a' = remove1 (tproc s t) (table (wp s))" using remove_from_array [OF a(2), of "tproc s t"] a(3) by auto
  then show ?thesis using that [of a'] a(1) assms(2) by (simp add: exit_step_def)
qed

lemma exit_step_ok:
  assumes "wstart b" and "winv b s"
  shows "\<exists>s'. exit_step t s = Ok s' \<and> winv b s'"
proof (cases "wpcs s t")
  case Removing
  have st: "wstable b s" "codes_right b s" and ok: "table_ok (wp s)" "tproc s = tproc b" using assms by (auto simp: winv_def wstable_def)
  have placed: "place_ok b s t (wpcs s t)" using assms(2) by (simp add: winv_def)
  have ex: "exits s (tproc s t) \<noteq> {}" using placed Removing ok(2) by (simp add: place_ok_def)
  obtain a' where a': "exit_step t s = Ok (wgo t Waking (s\<lparr>wp := (wp s)\<lparr>procarr := Some a'\<rparr>\<rparr>))" "array_inv a'"
    "array_list a' = remove1 (tproc s t) (table (wp s))" by (rule exit_removes [OF ok(1) Removing])
  let ?w = "(wp s)\<lparr>procarr := Some a'\<rparr>"
  let ?s = "wgo t Waking (s\<lparr>wp := ?w\<rparr>)"
  have tab: "table ?w = remove1 (tproc s t) (table (wp s))" using a'(3) by (simp add: table_def)
  then have sub: "set (table ?w) \<subseteq> set (table (wp s))" by (simp add: set_remove1_subset)
  have at: "pid_at ?w = pid_at (wp s)" by (simp add: pid_at_def fun_eq_iff)
  have ce: "code_entry ?w = code_entry (wp s)" "code_of ?w = code_of (wp s)" by (simp_all add: code_of_def code_entry_def code_list_def fun_eq_iff)
  have "distinct (pids ?w)" using ok(1) tab at by (simp add: table_ok_def pids_def distinct_map inj_on_diff set_remove1_eq)
  then have "table_ok ?w" using ok(1) sub a'(2) by (auto simp: table_ok_def arrays_ok_def)
  then have "wstable b ?s" using st(1) sub ce by (auto simp: wstable_def)
  moreover have "p \<in> set (table ?w) \<or> exits s p \<noteq> {}" if "p \<in> set (table (wp s))" for p
    using that tab ex in_set_remove1 [of p "tproc s t" "table (wp s)"] by (cases "p = tproc s t") auto
  then have "codes_right b ?s" using st(2) ce by (auto simp: codes_right_def)
  moreover have "place_ok b ?s u (wpcs ?s u)" for u
  proof (cases "u = t")
    case False
    have "place_ok b s u (wpcs s u)" using assms(2) by (simp add: winv_def)
    then have "place_ok b ?s u (wpcs s u)" by (rule place_mono) (use sub in simp_all)
    then show ?thesis using False by simp
  qed (simp add: place_ok_def)
  ultimately show ?thesis using a'(1) by (simp add: winv_def)
next
  case Waking
  have inv: "lk_inv (lks s p)" for p using assms(2) by (simp add: winv_def wstable_def)
  have "lk_inv l" if "cv_broadcast (lks s (tproc s t)) = Ok l" for l
    using cv_broadcast_trans [OF that, of t] inv lk_tokens_trans lk_holder_trans lk_wakes_trans unfolding lk_inv_def by blast
  moreover have "\<exists>l. cv_broadcast (lks s (tproc s t)) = Ok l" by (simp add: cv_broadcast_def)
  then obtain l where l: "cv_broadcast (lks s (tproc s t)) = Ok l" by blast
  ultimately have "winv b (wgo t Gone (s\<lparr>lks := (lks s)(tproc s t := l)\<rparr>))"
    by (intro winv_move [OF assms(2), of _ t Gone]) (use inv in \<open>simp_all add: place_ok_def\<close>)
  then show ?thesis using Waking assms(2) l by (simp add: exit_step_def)
qed (use assms(2) in \<open>auto simp: exit_step_def\<close>)

lemma wstep_ok: "wstart b \<Longrightarrow> winv b s \<Longrightarrow> \<exists>s'. wstep (\<lambda>_ _. False) t c s = Ok s' \<and> winv b s'"
  using waitpid_enter_ok exit_enter_ok exit_step_ok waitpid_step_ok by (cases c) (simp_all add: wstep_def)

lemma wrun_ok: "wstart b \<Longrightarrow> winv b s \<Longrightarrow> \<exists>s'. wrun (\<lambda>_ _. False) cs s = Ok s' \<and> winv b s'"
proof (induction cs arbitrary: s)
  case (Cons a cs)
  obtain t c where a: "a = (t, c)" by (cases a)
  obtain s' where s': "wstep (\<lambda>_ _. False) t c s = Ok s'" "winv b s'" using wstep_ok [OF Cons.prems] by blast
  then show ?case using Cons.IH [OF Cons.prems(1) s'(2)] a by simp
qed simp


subsection \<open>The lost wakeup\<close>

text \<open>Only signals and broadcasts move a thread that sleeps on the condition variable.\<close>

lemma asleep_kept:
  assumes "lk_inv l" and "lk_step v c l = Ok l'" and "c \<noteq> Signal" and "c \<noteq> Broadcast" and "lpc l t = WAsleep"
  shows "lpc l' t = WAsleep"
proof -
  have "x \<noteq> t" if "lk_sleepers l = x # xs" for x xs
  proof -
    have "queued lk_asleep (lpc l) (x # xs)" using assms(1) that by (simp add: lk_inv_def lk_tokens_def)
    then have "lk_asleep (lpc l x)" using queuedD by fastforce
    then show ?thesis using assms(5) by auto
  qed
  then show ?thesis using assms(2-5)
    by (cases "lpc l v"; cases c)
      (auto simp: lk_step_def lock_acquire_step_def lock_release_step_def cv_wait_step_def kassert_eq_Ok split: if_splits list.splits)
qed

definition stuck :: "wsys \<Rightarrow> nat \<Rightarrow> nat \<Rightarrow> vaddr \<Rightarrow> wsys \<Rightarrow> bool" where
  "stuck b t u p s \<longleftrightarrow> winv b s \<and> (\<exists>pid status. wpcs s t = Waiting pid status p) \<and> lpc (lks s p) t = WAsleep \<and> wpcs s u = Gone"

lemma lk_move_lks:
  assumes "lk_move v q c over inside fin s = Ok s'" and "lk_inv (lks s q)" and "c \<noteq> Signal" and "c \<noteq> Broadcast" and "lpc (lks s p) t = WAsleep"
  shows "lpc (lks s' p) t = WAsleep \<and> (\<forall>x. x \<noteq> v \<longrightarrow> wpcs s' x = wpcs s x)"
proof -
  obtain l where l: "lk_step v c (lks s q) = Ok l" "s' = wgo v (if over (lpc l v) then fin else inside) (s\<lparr>lks := (lks s)(q := l)\<rparr>)"
    using assms(1) by (auto simp: lk_move_def bindR_eq_Ok)
  have "lpc (lks s' p) t = WAsleep" using asleep_kept [OF assms(2) l(1) assms(3,4), of t] assms(5) l(2) by (cases "q = p") auto
  then show ?thesis using l(2) by simp
qed

lemma wait_fail_fields: "wait_fail v e s = Ok s' \<Longrightarrow> lks s' = lks s \<and> (\<forall>x. x \<noteq> v \<longrightarrow> wpcs s' x = wpcs s x)"
  by (auto simp: wait_fail_def)

lemma waitpid_enter_keeps:
  assumes "waitpid_enter v pid st opt s = Ok s'" and "\<And>q. lk_inv (lks s q)" and "lpc (lks s p) t = WAsleep"
  shows "lpc (lks s' p) t = WAsleep \<and> (\<forall>x. x \<noteq> v \<longrightarrow> wpcs s' x = wpcs s x)"
proof -
  consider e where "wait_fail v e s = Ok s'" | q where "s' = wgo v q s" | q i f where "lk_move v q Acquire (\<lambda>q. q = Held) i f s = Ok s'"
    using assms(1) by (auto simp: waitpid_enter_def with_proc_def bindR_eq_Ok split: if_splits option.splits)
  then show ?thesis
    by cases (use assms(3) wait_fail_fields lk_move_lks [OF _ assms(2) _ _ assms(3)] in auto)
qed

lemma waitpid_step_keeps:
  assumes "waitpid_step F v s = Ok s'" and "\<And>q. lk_inv (lks s q)" and "lpc (lks s p) t = WAsleep"
  shows "lpc (lks s' p) t = WAsleep \<and> (\<forall>x. x \<noteq> v \<longrightarrow> wpcs s' x = wpcs s x)"
proof -
  consider e where "wait_fail v e s = Ok s'" | "s' = s" | q m where "s' = wgo v q (s\<lparr>ustat := m\<rparr>)"
    | q c ov i f where "lk_move v q c ov i f s = Ok s'" "c \<noteq> Signal" "c \<noteq> Broadcast"
    using assms(1) by (cases "wpcs s v") (auto simp: waitpid_step_def bindR_eq_Ok split: if_splits option.splits)
  then show ?thesis
    by cases (use assms(3) wait_fail_fields lk_move_lks [OF _ assms(2) _ _ assms(3)] in auto)
qed

lemma exit_keeps:
  assumes "exit_enter v code s = Ok s' \<or> exit_step v s = Ok s'" and "lpc (lks s p) t = WAsleep" and "tproc s v = p \<Longrightarrow> wpcs s v = Gone"
  shows "lpc (lks s' p) t = WAsleep \<and> (\<forall>x. x \<noteq> v \<longrightarrow> wpcs s' x = wpcs s x)"
  using assms(1)
proof
  assume "exit_enter v code s = Ok s'"
  then show ?thesis using assms(2) by (auto simp: exit_enter_def with_proc_def bindR_eq_Ok Let_def split: option.splits if_splits)
next
  assume "exit_step v s = Ok s'"
  then show ?thesis using assms(2,3)
    by (cases "wpcs s v") (auto simp: exit_step_def bindR_eq_Ok split: option.splits if_splits)
qed

lemma stuck_step:
  assumes "wstart b" and "stuck b t u p s" and only: "\<And>v. tproc b v = p \<Longrightarrow> v = u" and "wstep (\<lambda>_ _. False) v c s = Ok s'"
  shows "stuck b t u p s'"
proof -
  obtain pid st where f: "winv b s" "wpcs s t = Waiting pid st p" "lpc (lks s p) t = WAsleep" "wpcs s u = Gone"
    using assms(2) by (auto simp: stuck_def)
  have inv: "lk_inv (lks s q)" and tp: "tproc s = tproc b" for q using f(1) by (auto simp: winv_def wstable_def)
  have w: "winv b s'" using wstep_ok [OF assms(1) f(1), of v c] assms(4) by auto
  have gone: "tproc s v = p \<Longrightarrow> wpcs s v = Gone" using only [of v] tp f(4) by auto
  have k: "lpc (lks s' p) t = WAsleep \<and> (\<forall>x. x \<noteq> v \<longrightarrow> wpcs s' x = wpcs s x) \<and> (v = t \<or> v = u \<longrightarrow> wpcs s' v = wpcs s v)"
  proof (cases "in_user (wpcs s v)")
    case True
    then have v: "v \<noteq> t" "v \<noteq> u" using f(2,4) by auto
    show ?thesis using assms(4) v True waitpid_enter_keeps [OF _ inv f(3)] exit_keeps [OF disjI1 f(3) gone] f(3)
      by (cases c) (simp_all add: wstep_def)
  next
    case False
    show ?thesis
    proof (cases "wpcs s v \<in> {Removing, Waking}")
      case True
      then have "exit_step v s = Ok s'" "v \<noteq> t" "v \<noteq> u" using assms(4) False f(2,4) by (auto simp: wstep_def)
      then show ?thesis using exit_keeps [OF _ f(3) gone] by simp
    next
      case out: False
      then have st: "waitpid_step (\<lambda>_ _. False) v s = Ok s'" using assms(4) False by (simp add: wstep_def)
      have "wpcs s' t = wpcs s t" if "v = t"
        using st that f(2,3) by (auto simp: waitpid_step_def lk_move_def lk_step_def)
      moreover have "wpcs s' u = wpcs s u" if "v = u" using st that f(4) by (simp add: waitpid_step_def)
      ultimately show ?thesis using waitpid_step_keeps [OF st inv f(3)] by auto
    qed
  qed
  have "wpcs s' t = wpcs s t" using k by (cases "t = v") simp_all
  moreover have "wpcs s' u = wpcs s u" using k by (cases "u = v") simp_all
  ultimately show ?thesis using w k f by (simp add: stuck_def)
qed

lemma stuck_run:
  assumes "wstart b" and "stuck b t u p s" and "\<And>v. tproc b v = p \<Longrightarrow> v = u" and "wrun (\<lambda>_ _. False) cs s = Ok s'"
  shows "stuck b t u p s'"
  using assms(2,4)
proof (induction cs arbitrary: s)
  case (Cons a cs)
  obtain v c where a: "a = (v, c)" by (cases a)
  obtain s1 where s1: "wstep (\<lambda>_ _. False) v c s = Ok s1" "wrun (\<lambda>_ _. False) cs s1 = Ok s'" using Cons.prems(2) a by (auto simp: bindR_eq_Ok)
  show ?case using Cons.IH [OF stuck_step [OF assms(1) Cons.prems(1) assms(3) s1(1)] s1(2)] .
qed simp

text \<open>The waiting thread gets the lock, sees the process in the table and calls \<open>cv_wait\<close>.\<close>

lemma wait_begins:
  assumes start: "wstart b" and p: "p \<in> set (table (wp b))" "tproc b t \<noteq> p"
    and st: "\<And>pr. procs (wp b) (tproc b t) = Some pr \<Longrightarrow> p_as pr \<noteq> 0 \<Longrightarrow> valid_status (the (spaces (pvm (wp b)) (p_as pr))) status"
  shows "wrun F ((t, CallWait (pid_at (wp b) p) status 0) # replicate 5 (t, Go)) b = Ok
    (b\<lparr>lks := (lks b)(p := fresh_lock\<lparr>lock_holder := Some t, lpc := (\<lambda>_. LIdle)(t := WLock)\<rparr>),
       wpcs := (wpcs b)(t := Waiting (pid_at (wp b) p) status p)\<rparr>)"
proof -
  obtain cur where cur: "procs (wp b) (tproc b t) = Some cur" "p_pid cur = pid_at (wp b) (tproc b t)" "tproc b t \<in> set (table (wp b))"
    "p_as cur \<noteq> 0 \<Longrightarrow> spaces (pvm (wp b)) (p_as cur) \<noteq> None" using current_proc [OF start wstart_inv [OF start], of t] by metis
  have tab: "table_ok (wp b)" "wpcs b t = InUser" "lks b p = fresh_lock" using start by (auto simp: wstart_def)
  have ne: "pid_at (wp b) p \<noteq> p_pid cur" using tab(1) p cur(2,3) by (auto simp: table_ok_def pids_def distinct_map inj_on_def)
  have "find_proc (pid_at (wp b) p) (wp b) = Ok p" by (rule find_proc_found [OF tab(1) p(1)])
  moreover have "p \<noteq> 0" using tab(1) p(1) by (auto simp: table_ok_def)
  moreover have "\<not> (p_as cur \<noteq> 0 \<and> spaces (pvm (wp b)) (p_as cur) = None)"
    "\<not> (p_as cur \<noteq> 0 \<and> \<not> valid_status (the (spaces (pvm (wp b)) (p_as cur))) status)" using cur(4) st [OF cur(1)] by blast+
  ultimately show ?thesis using cur(1) ne tab(2,3)
    by (simp add: numeral_eq_Suc wstep_def waitpid_enter_def with_proc_def waitpid_step_def lk_move_def lk_step_def lock_acquire_step_def
        lock_do_i_hold_def fresh_lock_def lgo_def wgo_def) blast
qed

text \<open>The process exits while nobody is on its condition variable.\<close>

lemma broadcast_nobody: "cv_sleepers l = [] \<Longrightarrow> cv_broadcast l = Ok l"
  by (cases l) (simp add: cv_broadcast_def)

lemma exit_unnoticed:
  assumes start: "wstart b" and s: "winv b s" and u: "wpcs s u = InUser" and l: "cv_wclock (lks s (tproc b u)) = None" "cv_sleepers (lks s (tproc b u)) = []"
  shows "\<exists>s'. wrun (\<lambda>_ _. False) [(u, CallExit code), (u, Go), (u, Go)] s = Ok s' \<and> winv b s' \<and> lks s' = lks s \<and> wpcs s' = (wpcs s)(u := Gone)
    \<and> tproc b u \<notin> set (table (wp s'))"
proof -
  have tp: "tproc s = tproc b" using s by (simp add: winv_def wstable_def)
  obtain s1 where s1: "exit_enter u code s = Ok s1" "winv b s1" using exit_enter_ok [OF start s] by blast
  then have f1: "wpcs s1 = (wpcs s)(u := Removing)" "lks s1 = lks s" "tproc s1 = tproc b"
    using tp by (auto simp: exit_enter_def with_proc_def bindR_eq_Ok Let_def split: option.splits if_splits)
  have ok: "table_ok (wp s1)" using s1(2) by (simp add: winv_def wstable_def)
  have "wpcs s1 u = Removing" using f1(1) by simp
  then obtain a' where a': "exit_step u s1 = Ok (wgo u Waking (s1\<lparr>wp := (wp s1)\<lparr>procarr := Some a'\<rparr>\<rparr>))" "array_list a' = remove1 (tproc s1 u) (table (wp s1))"
    by (rule exit_removes [OF ok])
  define s2 where "s2 = wgo u Waking (s1\<lparr>wp := (wp s1)\<lparr>procarr := Some a'\<rparr>\<rparr>)"
  have f2: "wpcs s2 = (wpcs s)(u := Waking)" "lks s2 = lks s" "tproc s2 = tproc b" "exit_step u s1 = Ok s2" using f1 a'(1) by (simp_all add: s2_def)
  have "distinct (table (wp s1))" using ok by (auto simp: table_ok_def pids_def distinct_map)
  then have out: "tproc b u \<notin> set (table (wp s2))" using a'(2) f1(3) by (simp add: s2_def table_def)
  have l2: "lks s2 = (lks s2)(tproc b u := lks s (tproc b u))" using f2(2) by simp
  have ex: "exit_step u s2 = Ok (wgo u Gone s2)"
    using f2(1-3) l broadcast_nobody [OF l(2)] by (simp add: exit_step_def) (simp add: wgo_def)
  have run: "wrun (\<lambda>_ _. False) [(u, CallExit code), (u, Go), (u, Go)] s = Ok (wgo u Gone s2)"
    using u s1(1) f1(1) f2(1,4) ex by (simp add: wstep_def)
  have "winv b (wgo u Gone s2)" using wrun_ok [OF start s] run by (metis run.inject(1))
  then show ?thesis using run f2 out by simp
qed

text \<open>The waiting thread, which holds the lock, releases it and goes to sleep.\<close>

lemma wait_sleeps:
  assumes "wpcs s t = Waiting pid status p" and "lks s p = fresh_lock\<lparr>lock_holder := Some t, lpc := (\<lambda>_. LIdle)(t := WLock)\<rparr>"
  shows "\<exists>s'. wrun F (replicate 7 (t, Go)) s = Ok s' \<and> wp s' = wp s \<and> wpcs s' = wpcs s \<and> lpc (lks s' p) t = WAsleep"
proof -
  have "(wpcs s)(t := Waiting pid status p) = wpcs s" using assms(1) by auto
  then show ?thesis using assms
    by (simp add: numeral_eq_Suc wstep_def waitpid_step_def lk_move_def lk_step_def lock_release_step_def cv_wait_step_def
        lock_do_i_hold_def fresh_lock_def lgo_def wgo_def)
qed

lemma wrun_append: "wrun F (xs @ ys) s = bindR (wrun F xs s) (wrun F ys)"
proof (induction xs arbitrary: s)
  case (Cons x xs)
  then have "wrun F (xs @ ys) = (\<lambda>s. bindR (wrun F xs s) (wrun F ys))" by blast
  then show ?case by (cases x) (simp add: bindR_assoc)
qed simp

text \<open>
  C28: \<open>waitpid\<close> can wait forever for a process that has exited. \<open>_exit\<close> takes the process out of the table
  and broadcasts without holding the process's lock, so both can happen after a waiting thread has
  looked at the table and before it is on the condition variable. For every process with a single
  thread and every thread of another process there is such a schedule; afterwards, whatever all
  threads do, the waiting thread never returns from \<open>waitpid\<close>.
\<close>

theorem waitpid_can_miss_exit:
  assumes "wstart b" and "tproc b t \<noteq> tproc b u" and "\<forall>v. tproc b v = tproc b u \<longrightarrow> v = u"
    and "\<forall>pr. procs (wp b) (tproc b t) = Some pr \<longrightarrow> p_as pr \<noteq> 0 \<longrightarrow> valid_status (the (spaces (pvm (wp b)) (p_as pr))) status"
  shows "\<exists>cs s. wrun (\<lambda>_ _. False) cs b = Ok s \<and> tproc b u \<notin> set (table (wp s)) \<and>
    (\<forall>cs'. \<exists>s' pid q. wrun (\<lambda>_ _. False) cs' s = Ok s' \<and> wpcs s' t = Waiting pid q (tproc b u))"
proof -
  let ?F = "\<lambda>_ _. False" and ?p = "tproc b u"
  have p: "?p \<in> set (table (wp b))" using assms(1) by (simp add: wstart_def)
  have ne: "t \<noteq> u" using assms(2) by auto
  let ?cs1 = "(t, CallWait (pid_at (wp b) ?p) status 0) # replicate 5 (t, Go)"
  obtain s1 where s1: "wrun ?F ?cs1 b = Ok s1" "lks s1 ?p = fresh_lock\<lparr>lock_holder := Some t, lpc := (\<lambda>_. LIdle)(t := WLock)\<rparr>"
    "wpcs s1 = (wpcs b)(t := Waiting (pid_at (wp b) ?p) status ?p)"
    using wait_begins [OF assms(1) p assms(2), of status ?F] assms(4) by auto
  have inv1: "winv b s1" using wrun_ok [OF assms(1) wstart_inv [OF assms(1)]] s1(1) by (metis run.inject(1))
  have "wpcs s1 u = InUser" using s1(3) assms(1) ne by (simp add: wstart_def)
  then obtain s2 where s2: "wrun ?F [(u, CallExit 0), (u, Go), (u, Go)] s1 = Ok s2" "winv b s2" "lks s2 = lks s1" "wpcs s2 = (wpcs s1)(u := Gone)"
    "?p \<notin> set (table (wp s2))"
    using exit_unnoticed [OF assms(1) inv1, of u 0] s1(2) by (auto simp: fresh_lock_def)
  obtain s3 where s3: "wrun ?F (replicate 7 (t, Go)) s2 = Ok s3" "wp s3 = wp s2" "wpcs s3 = wpcs s2" "lpc (lks s3 ?p) t = WAsleep"
    using wait_sleeps [of s2 t "pid_at (wp b) ?p" status ?p ?F] s1(2,3) s2(3,4) ne by auto
  have inv3: "winv b s3" using wrun_ok [OF assms(1) s2(2)] s3(1) by (metis run.inject(1))
  have run: "wrun ?F (?cs1 @ [(u, CallExit 0), (u, Go), (u, Go)] @ replicate 7 (t, Go)) b = Ok s3"
    using s1(1) s2(1) s3(1) by (simp only: wrun_append bindR.simps)
  have st: "stuck b t u ?p s3" using inv3 s3(3,4) s2(4) s1(3) ne by (simp add: stuck_def)
  have "\<exists>s' pid q. wrun ?F cs' s3 = Ok s' \<and> wpcs s' t = Waiting pid q ?p" for cs'
  proof -
    obtain s' where s': "wrun ?F cs' s3 = Ok s'" using wrun_ok [OF assms(1) inv3] by blast
    then have "stuck b t u ?p s'" using stuck_run [OF assms(1) st] assms(3) by blast
    then show ?thesis using s' by (auto simp: stuck_def)
  qed
  then show ?thesis using run s2(5) s3(2) by (intro exI [of _ "?cs1 @ [(u, CallExit 0), (u, Go), (u, Go)] @ replicate 7 (t, Go)"] exI [of _ s3]) simp
qed

text \<open>Two processes, with ids 2 and 3, each with one thread.\<close>

definition two_procs :: psys where
  "two_procs = empty_psys\<lparr>procs := [0x80004000 \<mapsto> no_proc\<lparr>p_pid := 2\<rparr>, 0x80005000 \<mapsto> no_proc\<lparr>p_pid := 3\<rparr>],
     procarr := Some \<lparr>arr_v = [0x80004000, 0x80005000, 0, 0], arr_num = 2, arr_max = 4\<rparr>,
     exitcs := [0x80006000 \<mapsto> \<lparr>x_pid = 2, exitcode = -1\<rparr>, 0x80006010 \<mapsto> \<lparr>x_pid = 3, exitcode = -1\<rparr>],
     codes := Some \<lparr>arr_v = [0x80006000, 0x80006010, 0, 0], arr_num = 2, arr_max = 4\<rparr>\<rparr>"

definition two_start :: wsys where
  "two_start = \<lparr>wp = two_procs, lks = (\<lambda>_. fresh_lock), tproc = (\<lambda>v. if v = 1 then 0x80005000 else 0x80004000), wpcs = (\<lambda>_. InUser),
     ustat = (\<lambda>_ _. 0), exits = (\<lambda>_. {})\<rparr>"

lemma two_arrays: "array_inv \<lparr>arr_v = [x, y, 0, 0], arr_num = 2, arr_max = 4\<rparr>" "array_list \<lparr>arr_v = [x, y, 0, 0 :: vaddr], arr_num = 2, arr_max = 4\<rparr> = [x, y]"
  by (auto simp: array_inv_def array_list_def good_max_def intro: exI [of _ 0])

lemma two_tables: "table two_procs = [0x80004000, 0x80005000]" "code_list two_procs = [0x80006000, 0x80006010]" "pids two_procs = [2, 3]"
  by (simp_all add: table_def pids_def pid_at_def code_list_def two_procs_def two_arrays no_proc_def)

lemma two_start_ok: "wstart two_start"
proof -
  have "arrays_ok two_procs" by (auto simp: arrays_ok_def two_procs_def two_arrays)
  then have "table_ok two_procs" unfolding table_ok_def two_tables by (simp add: two_procs_def)
  moreover have "codes two_procs \<noteq> None" by (simp add: two_procs_def)
  moreover have "\<forall>pid\<in>set (pids two_procs). code_entry two_procs pid \<noteq> None" unfolding code_entry_def two_tables by (simp add: two_procs_def)
  moreover have "p_as pr = 0" if "procs two_procs p = Some pr" for p pr using that by (auto simp: two_procs_def no_proc_def split: if_splits)
  ultimately show ?thesis by (auto simp: wstart_def two_start_def two_tables)
qed

lemma two_gone:
  assumes "winv two_start s" and "0x80005000 \<notin> set (table (wp s))"
  shows "3 \<notin> set (pids (wp s))"
proof -
  have "set (table (wp s)) \<subseteq> {0x80004000, 0x80005000}" "procs (wp s) = procs two_procs"
    using assms(1) by (auto simp: winv_def wstable_def two_start_def two_tables)
  then show ?thesis using assms(2) by (auto simp: pids_def pid_at_def two_procs_def no_proc_def)
qed

theorem waitpid_can_miss_exit_witness:
  "\<exists>cs s. wrun (\<lambda>_ _. False) cs two_start = Ok s \<and> 3 \<notin> set (pids (wp s)) \<and>
    (\<forall>cs'. \<exists>s' pid q. wrun (\<lambda>_ _. False) cs' s = Ok s' \<and> wpcs s' 2 = Waiting pid q 0x80005000)"
proof -
  have pr: "\<forall>pr. procs (wp two_start) (tproc two_start 2) = Some pr \<longrightarrow> p_as pr \<noteq> 0 \<longrightarrow> valid_status (the (spaces (pvm (wp two_start)) (p_as pr))) 64"
    by (simp add: two_start_def two_procs_def no_proc_def)
  have tp: "tproc two_start 2 \<noteq> tproc two_start 1" "\<forall>v. tproc two_start v = tproc two_start 1 \<longrightarrow> v = 1" by (simp_all add: two_start_def)
  obtain cs s where s: "wrun (\<lambda>_ _. False) cs two_start = Ok s" "0x80005000 \<notin> set (table (wp s))"
    "\<forall>cs'. \<exists>s' pid q. wrun (\<lambda>_ _. False) cs' s = Ok s' \<and> wpcs s' 2 = Waiting pid q 0x80005000"
    using waitpid_can_miss_exit [OF two_start_ok tp pr] by (auto simp: two_start_def)
  have "winv two_start s" using wrun_ok [OF two_start_ok wstart_inv [OF two_start_ok]] s(1) by (metis run.inject(1))
  then have "3 \<notin> set (pids (wp s))" using s(2) by (rule two_gone)
  then show ?thesis using s(1,3) by blast
qed


end
