(* ===== verification/Disk.thy ===== *)
theory Disk
  imports Uio
begin

text \<open>
  The disk driver (\<^verbatim>\<open>kern/dev/lamebus/lhd.c\<close>) and the block I/O of the file system
  (\<^verbatim>\<open>kern/fs/sfs/sfs_io.c\<close>). The file system code sees a \<open>struct uio\<close> only through \<open>uiomove\<close>, its
  offset and its residual count, and its callers pass a single buffer; here such a transfer is the
  record \<open>xfer\<close>, with the bytes delivered so far (reading) or still to be taken (writing) instead of
  the memory they are in. \<open>x_moves\<close> holds the results of the coming calls of \<open>uiomove\<close>, zero when it is
  exhausted. The disk is hardware: \<open>dk_codes\<close> holds the status codes of its coming interrupts,
  success when it is exhausted; a failed operation leaves the medium as it was. The semaphores that
  hand the device from thread to thread are left out.
\<close>

subsection \<open>Transfers\<close>

record xfer =
  x_rw :: uio_dir
  x_off :: nat
  x_resid :: nat
  x_data :: "u8 list"
  x_moves :: "int list"

definition next_result :: "int list \<Rightarrow> int" where
  "next_result rs = (case rs of [] \<Rightarrow> 0 | r # _ \<Rightarrow> r)"

text \<open>\<open>uiomove\<close> between the buffer and the transfer.\<close>

definition xmove :: "u8 list \<Rightarrow> xfer \<Rightarrow> int \<times> u8 list \<times> xfer" where
  "xmove buf u =
     (let n = min (length buf) (x_resid u); r = next_result (x_moves u); u = (if n = 0 then u else u\<lparr>x_moves := tl (x_moves u)\<rparr>) in
      if n > 0 \<and> r \<noteq> 0 then (r, buf, u)
      else
        let u' = u\<lparr>x_off := x_off u + n, x_resid := x_resid u - n\<rparr> in
        if x_rw u = UIO_READ then (0, buf, u'\<lparr>x_data := x_data u @ take n buf\<rparr>)
        else (0, take n (x_data u) @ drop n buf, u'\<lparr>x_data := drop n (x_data u)\<rparr>))"

definition kernel_xfer :: "uio_dir \<Rightarrow> nat \<Rightarrow> nat \<Rightarrow> u8 list \<Rightarrow> xfer" where
  "kernel_xfer rw off n bs = \<lparr>x_rw = rw, x_off = off, x_resid = n, x_data = bs, x_moves = []\<rparr>"

subsection \<open>The disk driver\<close>

definition LHD_IDLE :: int where [layout_defs]: "LHD_IDLE = 0"
definition LHD_WORKING :: int where [layout_defs]: "LHD_WORKING = 1"
definition LHD_OK :: int where [layout_defs]: "LHD_OK = 4"
definition LHD_INVSECT :: int where [layout_defs]: "LHD_INVSECT = 12"
definition LHD_MEDIA :: int where [layout_defs]: "LHD_MEDIA = 20"
definition LHD_STATEMASK :: int where [layout_defs]: "LHD_STATEMASK = 0x1d"
definition LHD_SECTSIZE :: nat where [layout_defs]: "LHD_SECTSIZE = 512"

record disk =
  d_blocks :: u32
  dk_data :: "u32 \<Rightarrow> u8 list"
  dk_codes :: "int list"
  lh_buf :: "u8 list"

definition lhd_code_to_errno :: "int \<Rightarrow> int" where
  "lhd_code_to_errno code =
     (let c = code AND LHD_STATEMASK in
      if c = LHD_OK then 0 else if c = LHD_INVSECT then EINVAL else if c = LHD_MEDIA then EIO else EAGAIN)"

text \<open>The interrupts up to the one that reports completion.\<close>

fun lhd_irq :: "int list \<Rightarrow> int \<times> int list" where
  "lhd_irq [] = (0, [])"
| "lhd_irq (val # cs) =
     (if val AND LHD_STATEMASK \<in> {LHD_OK, LHD_INVSECT, LHD_MEDIA} then (lhd_code_to_errno val, cs) else lhd_irq cs)"

text \<open>One operation of the hardware on its buffer.\<close>

definition lhd_operate :: "uio_dir \<Rightarrow> u32 \<Rightarrow> disk \<Rightarrow> int \<times> disk" where
  "lhd_operate rw sector d =
     (let (r, cs) = lhd_irq (dk_codes d); d = d\<lparr>dk_codes := cs\<rparr> in
      if r \<noteq> 0 then (r, d)
      else if rw = UIO_WRITE then (0, d\<lparr>dk_data := (dk_data d)(sector := lh_buf d)\<rparr>)
      else (0, d\<lparr>lh_buf := dk_data d sector\<rparr>))"

fun lhd_sectors :: "u32 \<Rightarrow> nat \<Rightarrow> xfer \<Rightarrow> disk \<Rightarrow> int \<times> xfer \<times> disk" where
  "lhd_sectors sector 0 u d = (0, u, d)"
| "lhd_sectors sector (Suc n) u d =
     (if x_rw u = UIO_WRITE then
        (case xmove (lh_buf d) u of (r, buf, u) \<Rightarrow>
           if r \<noteq> 0 then (r, u, d)
           else case lhd_operate UIO_WRITE sector (d\<lparr>lh_buf := buf\<rparr>) of (r, d) \<Rightarrow>
             if r \<noteq> 0 then (r, u, d) else lhd_sectors (sector + 1) n u d)
      else
        (case lhd_operate UIO_READ sector d of (r, d) \<Rightarrow>
           if r \<noteq> 0 then (r, u, d)
           else case xmove (lh_buf d) u of (r, _, u) \<Rightarrow> if r \<noteq> 0 then (r, u, d) else lhd_sectors (sector + 1) n u d))"

definition lhd_io :: "xfer \<Rightarrow> disk \<Rightarrow> int \<times> xfer \<times> disk" where
  "lhd_io u d =
     (let sector = of_nat (x_off u div LHD_SECTSIZE); len = x_resid u div LHD_SECTSIZE in
      if x_off u mod LHD_SECTSIZE \<noteq> 0 \<or> x_resid u mod LHD_SECTSIZE \<noteq> 0 then (EINVAL, u, d)
      else if sector + of_nat len > d_blocks d then (EINVAL, u, d)
      else lhd_sectors sector len u d)"

definition lhd_ioctl :: int where "lhd_ioctl = EIOCTL"

subsection \<open>Blocks\<close>

definition SFS_BLOCKSIZE :: nat where [layout_defs]: "SFS_BLOCKSIZE = 512"

text \<open>\<open>n\<close> is the number of attempts left: ten retries.\<close>

fun sfs_rwblock_tries :: "nat \<Rightarrow> xfer \<Rightarrow> disk \<Rightarrow> (int \<times> xfer \<times> disk) run" where
  "sfs_rwblock_tries 0 u d = Ok (EIO, u, d)"
| "sfs_rwblock_tries (Suc n) u d =
     (case lhd_io u d of (result, u, d) \<Rightarrow>
        if result = EINVAL then Halt Panicked
        else if result = EIO \<and> n > 0 then sfs_rwblock_tries n u d
        else Ok (result, u, d))"

definition sfs_rwblock :: "xfer \<Rightarrow> disk \<Rightarrow> (int \<times> xfer \<times> disk) run" where
  "sfs_rwblock = sfs_rwblock_tries 11"

definition sfs_rblock :: "u32 \<Rightarrow> disk \<Rightarrow> (int \<times> u8 list \<times> disk) run" where
  "sfs_rblock block d =
     bindR (sfs_rwblock (kernel_xfer UIO_READ (unat block * SFS_BLOCKSIZE) SFS_BLOCKSIZE []) d) (\<lambda>(r, u, d). Ok (r, x_data u, d))"

definition sfs_wblock :: "u8 list \<Rightarrow> u32 \<Rightarrow> disk \<Rightarrow> (int \<times> disk) run" where
  "sfs_wblock data block d =
     bindR (sfs_rwblock (kernel_xfer UIO_WRITE (unat block * SFS_BLOCKSIZE) SFS_BLOCKSIZE data) d) (\<lambda>(r, _, d). Ok (r, d))"

subsection \<open>What block I/O does\<close>

definition disk_ok :: "disk \<Rightarrow> bool" where
  "disk_ok d \<longleftrightarrow> (\<forall>b. length (dk_data d b) = SFS_BLOCKSIZE) \<and> length (lh_buf d) = SFS_BLOCKSIZE"

text \<open>The device reports no errors.\<close>

definition quiet :: "disk \<Rightarrow> bool" where
  "quiet d \<longleftrightarrow> (\<forall>c\<in>set (dk_codes d). c AND LHD_STATEMASK \<notin> {LHD_INVSECT, LHD_MEDIA})"

lemma quiet_irq: "\<forall>c\<in>set cs. c AND LHD_STATEMASK \<notin> {LHD_INVSECT, LHD_MEDIA} \<Longrightarrow> fst (lhd_irq cs) = 0 \<and> set (snd (lhd_irq cs)) \<subseteq> set cs"
  by (induction cs rule: lhd_irq.induct) (auto simp: lhd_code_to_errno_def)

lemma irq_errors: "fst (lhd_irq cs) \<in> {0, EINVAL, EIO}"
  by (induction cs rule: lhd_irq.induct) (auto simp: lhd_code_to_errno_def layout_defs)

text \<open>One attempt at one block.\<close>

lemma block_sector: "unat b * SFS_BLOCKSIZE div LHD_SECTSIZE = unat b" "unat b * SFS_BLOCKSIZE mod LHD_SECTSIZE = 0"
  by (simp_all add: layout_defs)

lemma block_in_range: "b < d_blocks d \<Longrightarrow> \<not> b + 1 > d_blocks d"
  by (simp add: not_less inc_le)

lemma lhd_io_block:
  assumes "b < d_blocks d" and "x_off u = unat b * SFS_BLOCKSIZE" and "x_resid u = SFS_BLOCKSIZE"
  shows "lhd_io u d = lhd_sectors b 1 u d"
  using block_in_range [OF assms(1)] unfolding lhd_io_def assms(2,3) block_sector by (simp add: Let_def) (simp add: layout_defs)

lemma lhd_read_block:
  assumes "disk_ok d" and "x_rw u = UIO_READ" and "x_resid u = SFS_BLOCKSIZE" and "next_result (x_moves u) = 0"
  shows "lhd_sectors b 1 u d = (case lhd_irq (dk_codes d) of (r, cs) \<Rightarrow>
    if r \<noteq> 0 then (r, u, d\<lparr>dk_codes := cs\<rparr>)
    else (0, u\<lparr>x_off := x_off u + SFS_BLOCKSIZE, x_resid := 0, x_data := x_data u @ dk_data d b, x_moves := tl (x_moves u)\<rparr>,
          d\<lparr>dk_codes := cs, lh_buf := dk_data d b\<rparr>))"
  using assms by (auto simp: lhd_operate_def xmove_def disk_ok_def SFS_BLOCKSIZE_def Let_def split: prod.splits)

lemma lhd_write_block:
  assumes "disk_ok d" and "x_rw u = UIO_WRITE" and "x_resid u = SFS_BLOCKSIZE" and "next_result (x_moves u) = 0" and "SFS_BLOCKSIZE \<le> length (x_data u)"
  shows "lhd_sectors b 1 u d = (let v = take SFS_BLOCKSIZE (x_data u);
      u' = u\<lparr>x_off := x_off u + SFS_BLOCKSIZE, x_resid := 0, x_data := drop SFS_BLOCKSIZE (x_data u), x_moves := tl (x_moves u)\<rparr> in
    case lhd_irq (dk_codes d) of (r, cs) \<Rightarrow>
      if r \<noteq> 0 then (r, u', d\<lparr>dk_codes := cs, lh_buf := v\<rparr>)
      else (0, u', d\<lparr>dk_codes := cs, lh_buf := v, dk_data := (dk_data d)(b := v)\<rparr>))"
  using assms by (auto simp: lhd_operate_def xmove_def disk_ok_def Let_def SFS_BLOCKSIZE_def split: prod.splits)

text \<open>The device after a successful operation: same size, contents \<open>f\<close>, still without errors.\<close>

definition io_done :: "disk \<Rightarrow> (u32 \<Rightarrow> u8 list) \<Rightarrow> disk \<Rightarrow> bool" where
  "io_done d f d' \<longleftrightarrow> dk_data d' = f \<and> d_blocks d' = d_blocks d \<and> disk_ok d' \<and> quiet d'"

lemma io_done_refl: "disk_ok d \<Longrightarrow> quiet d \<Longrightarrow> io_done d (dk_data d) d"
  by (simp add: io_done_def)

lemma rwblock_once: "lhd_io u d = (0, u', d') \<Longrightarrow> sfs_rwblock u d = Ok (0, u', d')"
  by (simp add: sfs_rwblock_def numeral_eq_Suc EINVAL_def EIO_def)

lemma quiet_completes:
  assumes "quiet d"
  obtains cs where "lhd_irq (dk_codes d) = (0, cs)" and "\<forall>c\<in>set cs. c AND LHD_STATEMASK \<notin> {LHD_INVSECT, LHD_MEDIA}"
  using quiet_irq [OF assms [unfolded quiet_def]] assms that [of "snd (lhd_irq (dk_codes d))"] unfolding quiet_def
  by (metis prod.collapse subsetD)

lemma rwblock_reads:
  assumes "disk_ok d" and "quiet d" and "b < d_blocks d" and "x_rw u = UIO_READ" and "x_off u = unat b * SFS_BLOCKSIZE"
    and "x_resid u = SFS_BLOCKSIZE" and "next_result (x_moves u) = 0"
  shows "\<exists>d'. sfs_rwblock u d = Ok (0, u\<lparr>x_off := x_off u + SFS_BLOCKSIZE, x_resid := 0, x_data := x_data u @ dk_data d b, x_moves := tl (x_moves u)\<rparr>, d')
    \<and> io_done d (dk_data d) d'"
proof -
  obtain cs where cs: "lhd_irq (dk_codes d) = (0, cs)" "\<forall>c\<in>set cs. c AND LHD_STATEMASK \<notin> {LHD_INVSECT, LHD_MEDIA}" by (rule quiet_completes [OF assms(2)])
  let ?d = "d\<lparr>dk_codes := cs, lh_buf := dk_data d b\<rparr>"
  have "io_done d (dk_data d) ?d" using assms(1) cs(2) by (simp add: io_done_def disk_ok_def quiet_def)
  moreover have "lhd_io u d = (0, u\<lparr>x_off := x_off u + SFS_BLOCKSIZE, x_resid := 0, x_data := x_data u @ dk_data d b, x_moves := tl (x_moves u)\<rparr>, ?d)"
    unfolding lhd_io_block [OF assms(3,5,6)] lhd_read_block [OF assms(1,4,6,7)] cs(1) by simp
  ultimately show ?thesis using rwblock_once by blast
qed

lemma rwblock_writes:
  assumes "disk_ok d" and "quiet d" and "b < d_blocks d" and "x_rw u = UIO_WRITE" and "x_off u = unat b * SFS_BLOCKSIZE"
    and "x_resid u = SFS_BLOCKSIZE" and "next_result (x_moves u) = 0" and "SFS_BLOCKSIZE \<le> length (x_data u)"
  shows "\<exists>d'. sfs_rwblock u d = Ok (0, u\<lparr>x_off := x_off u + SFS_BLOCKSIZE, x_resid := 0, x_data := drop SFS_BLOCKSIZE (x_data u), x_moves := tl (x_moves u)\<rparr>, d')
    \<and> io_done d ((dk_data d)(b := take SFS_BLOCKSIZE (x_data u))) d'"
proof -
  obtain cs where cs: "lhd_irq (dk_codes d) = (0, cs)" "\<forall>c\<in>set cs. c AND LHD_STATEMASK \<notin> {LHD_INVSECT, LHD_MEDIA}" by (rule quiet_completes [OF assms(2)])
  let ?v = "take SFS_BLOCKSIZE (x_data u)"
  let ?d = "d\<lparr>dk_codes := cs, lh_buf := ?v, dk_data := (dk_data d)(b := ?v)\<rparr>"
  have "length ?v = SFS_BLOCKSIZE" using assms(8) by simp
  then have "io_done d ((dk_data d)(b := ?v)) ?d" using assms(1) cs(2) by (simp add: io_done_def disk_ok_def quiet_def)
  moreover have "lhd_io u d = (0, u\<lparr>x_off := x_off u + SFS_BLOCKSIZE, x_resid := 0, x_data := drop SFS_BLOCKSIZE (x_data u), x_moves := tl (x_moves u)\<rparr>, ?d)"
    unfolding lhd_io_block [OF assms(3,5,6)] lhd_write_block [OF assms(1,4,6,7,8)] cs(1) by (simp add: Let_def)
  ultimately show ?thesis using rwblock_once by blast
qed

lemma sfs_rblock_reads:
  assumes "disk_ok d" and "quiet d" and "b < d_blocks d"
  shows "\<exists>d'. sfs_rblock b d = Ok (0, dk_data d b, d') \<and> io_done d (dk_data d) d'"
  using rwblock_reads [OF assms, of "kernel_xfer UIO_READ (unat b * SFS_BLOCKSIZE) SFS_BLOCKSIZE []"]
  by (auto simp: sfs_rblock_def kernel_xfer_def next_result_def)

lemma sfs_wblock_writes:
  assumes "disk_ok d" and "quiet d" and "b < d_blocks d" and "length bs = SFS_BLOCKSIZE"
  shows "\<exists>d'. sfs_wblock bs b d = Ok (0, d') \<and> io_done d ((dk_data d)(b := bs)) d'"
  using rwblock_writes [OF assms(1-3), of "kernel_xfer UIO_WRITE (unat b * SFS_BLOCKSIZE) SFS_BLOCKSIZE bs"] assms(4)
  by (auto simp: sfs_wblock_def kernel_xfer_def next_result_def)

subsection \<open>Retries\<close>

lemma irq_media: "lhd_irq (LHD_MEDIA # cs) = (EIO, cs)" "lhd_irq (LHD_OK # cs) = (0, cs)"
  by (simp_all add: lhd_code_to_errno_def layout_defs)

lemma read_tries:
  assumes "disk_ok d" and "b < d_blocks d" and "x_rw u = UIO_READ" and "x_off u = unat b * SFS_BLOCKSIZE" and "x_resid u = SFS_BLOCKSIZE"
    and "next_result (x_moves u) = 0" and "dk_codes d = replicate n LHD_MEDIA @ LHD_OK # cs" and "n < k"
  shows "sfs_rwblock_tries k u d = Ok (0, u\<lparr>x_off := x_off u + SFS_BLOCKSIZE, x_resid := 0, x_data := x_data u @ dk_data d b, x_moves := tl (x_moves u)\<rparr>,
    d\<lparr>dk_codes := cs, lh_buf := dk_data d b\<rparr>)"
  using assms
proof (induction n arbitrary: d k)
  case 0
  obtain k' where "k = Suc k'" using 0 by (cases k) auto
  then show ?case using lhd_io_block [OF 0(2,4,5)] lhd_read_block [OF 0(1,3,5,6)] 0 irq_media(2) by (simp add: EINVAL_def EIO_def)
next
  case (Suc n)
  obtain k' where k: "k = Suc k'" "n < k'" using Suc by (cases k) auto
  let ?d = "d\<lparr>dk_codes := replicate n LHD_MEDIA @ LHD_OK # cs\<rparr>"
  have "lhd_io u d = (EIO, u, ?d)"
    using lhd_io_block [OF Suc.prems(2,4,5)] lhd_read_block [OF Suc.prems(1,3,5,6)] Suc.prems irq_media(1) by (simp add: EIO_def)
  moreover have "sfs_rwblock_tries k' u ?d = Ok (0, u\<lparr>x_off := x_off u + SFS_BLOCKSIZE, x_resid := 0, x_data := x_data u @ dk_data ?d b, x_moves := tl (x_moves u)\<rparr>,
      ?d\<lparr>dk_codes := cs, lh_buf := dk_data ?d b\<rparr>)"
    by (rule Suc.IH) (use Suc.prems k(2) in \<open>simp_all add: disk_ok_def\<close>)
  ultimately show ?case using k by (simp add: EINVAL_def EIO_def)
qed

text \<open>
  C40: retrying works for reads and loses writes. A read that the disk fails up to ten times with a
  media error returns the contents of the block. A write that fails once with a media error has already
  consumed the transfer, so the retry asks the driver for nothing: the write is reported as
  successful although no block has changed.
\<close>

theorem retries_lose_writes:
  assumes "disk_ok d" and "b < d_blocks d" and "length bs = SFS_BLOCKSIZE"
  shows "(\<forall>n\<le>10. \<forall>cs. dk_codes d = replicate n LHD_MEDIA @ LHD_OK # cs \<longrightarrow>
      (\<exists>d'. sfs_rblock b d = Ok (0, dk_data d b, d') \<and> dk_data d' = dk_data d))
    \<and> (\<forall>cs. dk_codes d = LHD_MEDIA # cs \<longrightarrow> (\<exists>d'. sfs_wblock bs b d = Ok (0, d') \<and> dk_data d' = dk_data d))"
proof (intro conjI allI impI)
  fix n cs
  assume n: "n \<le> (10 :: nat)" and cs: "dk_codes d = replicate n LHD_MEDIA @ LHD_OK # cs"
  let ?u = "kernel_xfer UIO_READ (unat b * SFS_BLOCKSIZE) SFS_BLOCKSIZE []"
  have u: "x_rw ?u = UIO_READ" "x_off ?u = unat b * SFS_BLOCKSIZE" "x_resid ?u = SFS_BLOCKSIZE" "next_result (x_moves ?u) = 0" "x_data ?u = []"
    by (simp_all add: kernel_xfer_def next_result_def)
  show "\<exists>d'. sfs_rblock b d = Ok (0, dk_data d b, d') \<and> dk_data d' = dk_data d"
    unfolding sfs_rblock_def sfs_rwblock_def using read_tries [OF assms(1,2) u(1-4) cs, of 11] n u(5) by simp
next
  fix cs
  assume cs: "dk_codes d = LHD_MEDIA # cs"
  let ?u = "kernel_xfer UIO_WRITE (unat b * SFS_BLOCKSIZE) SFS_BLOCKSIZE bs"
  let ?u' = "?u\<lparr>x_off := x_off ?u + SFS_BLOCKSIZE, x_resid := 0, x_data := drop SFS_BLOCKSIZE (x_data ?u), x_moves := tl (x_moves ?u)\<rparr>"
  let ?d = "d\<lparr>dk_codes := cs, lh_buf := take SFS_BLOCKSIZE bs\<rparr>"
  have u: "x_rw ?u = UIO_WRITE" "x_off ?u = unat b * SFS_BLOCKSIZE" "x_resid ?u = SFS_BLOCKSIZE" "next_result (x_moves ?u) = 0" "SFS_BLOCKSIZE \<le> length (x_data ?u)" "x_data ?u = bs"
    using assms(3) by (simp_all add: kernel_xfer_def next_result_def)
  have first: "lhd_io ?u d = (EIO, ?u', ?d)"
    unfolding lhd_io_block [OF assms(2) u(2,3)] lhd_write_block [OF assms(1) u(1,3,4,5)] cs irq_media(1) u(6) by (simp add: Let_def EIO_def)
  have "x_off ?u' div LHD_SECTSIZE = Suc (unat b)" "x_off ?u' mod LHD_SECTSIZE = 0" "x_resid ?u' = 0" using u(2) by (simp_all add: layout_defs)
  then have "lhd_io ?u' ?d = (0, ?u', ?d)" using block_in_range [OF assms(2)] unfolding lhd_io_def by (simp add: Let_def add.commute)
  then have "sfs_rwblock ?u d = Ok (0, ?u', ?d)" using first by (simp add: sfs_rwblock_def numeral_eq_Suc EIO_def EINVAL_def)
  then show "\<exists>d'. sfs_wblock bs b d = Ok (0, d') \<and> dk_data d' = dk_data d" by (simp add: sfs_wblock_def)
qed

definition bad_disk :: disk where
  "bad_disk = \<lparr>d_blocks = 8, dk_data = (\<lambda>_. replicate 512 0), dk_codes = [20, 4], lh_buf = replicate 512 0\<rparr>"

theorem retries_lose_writes_witness:
  "(\<exists>d'. sfs_rblock 3 bad_disk = Ok (0, replicate 512 0, d')) \<and> (\<exists>d'. sfs_wblock (replicate 512 1) 3 bad_disk = Ok (0, d') \<and> dk_data d' 3 = replicate 512 0)"
proof -
  have d: "disk_ok bad_disk" "(3 :: u32) < d_blocks bad_disk" "length (replicate 512 1 :: u8 list) = SFS_BLOCKSIZE" by (simp_all add: bad_disk_def disk_ok_def layout_defs)
  have c: "dk_codes bad_disk = replicate 1 LHD_MEDIA @ LHD_OK # []" "dk_codes bad_disk = LHD_MEDIA # [LHD_OK]" "dk_data bad_disk 3 = replicate 512 0"
    by (simp_all add: bad_disk_def layout_defs)
  have "(1 :: nat) \<le> 10" by simp
  then have "\<exists>d'. sfs_rblock 3 bad_disk = Ok (0, dk_data bad_disk 3, d')"
    "\<exists>d'. sfs_wblock (replicate 512 1) 3 bad_disk = Ok (0, d') \<and> dk_data d' = dk_data bad_disk"
    using retries_lose_writes [OF d] c(1,2) by blast+
  then show ?thesis using c(3) by force
qed

end
