(* ===== verification/SfsFormat.thy ===== *)
theory SfsFormat
  imports Disk
begin

text \<open>
  The on-disk format of SFS (\<^verbatim>\<open>kern/include/kern/sfs.h\<close>): the structures that occupy whole blocks,
  as the bytes a big-endian machine writes for them, and how they are read back.
\<close>

subsection \<open>Constants\<close>

definition SFS_MAGIC :: u32 where "SFS_MAGIC = 0xabadf001"
definition SFS_VOLNAME_SIZE :: nat where "SFS_VOLNAME_SIZE = 32"
definition SFS_NDIRECT :: nat where [layout_defs]: "SFS_NDIRECT = 15"
definition SFS_DBPERIDB :: nat where [layout_defs]: "SFS_DBPERIDB = 128"
definition SFS_NAMELEN :: nat where [layout_defs]: "SFS_NAMELEN = 60"
definition SFS_SB_LOCATION :: u32 where "SFS_SB_LOCATION = 0"
definition SFS_ROOT_LOCATION :: u32 where "SFS_ROOT_LOCATION = 1"
definition SFS_MAP_LOCATION :: u32 where "SFS_MAP_LOCATION = 2"
definition SFS_NOINO :: u32 where "SFS_NOINO = 0"
definition SFS_BLOCKBITS :: u32 where "SFS_BLOCKBITS = of_nat (SFS_BLOCKSIZE * 8)"

definition SFS_ROUNDUP :: "u32 \<Rightarrow> u32 \<Rightarrow> u32" where "SFS_ROUNDUP a b = ((a + b - 1) div b) * b"
definition SFS_BITMAPSIZE :: "u32 \<Rightarrow> u32" where "SFS_BITMAPSIZE nblocks = SFS_ROUNDUP nblocks SFS_BLOCKBITS"
definition SFS_BITBLOCKS :: "u32 \<Rightarrow> u32" where "SFS_BITBLOCKS nblocks = SFS_BITMAPSIZE nblocks div SFS_BLOCKBITS"

definition SFS_TYPE_INVAL :: u16 where [layout_defs]: "SFS_TYPE_INVAL = 0"
definition SFS_TYPE_FILE :: u16 where [layout_defs]: "SFS_TYPE_FILE = 1"
definition SFS_TYPE_DIR :: u16 where [layout_defs]: "SFS_TYPE_DIR = 2"

subsection \<open>Structures\<close>

record sfs_super =
  sp_magic :: u32
  sp_nblocks :: u32
  sp_volname :: "u8 list"
  sp_reserved :: "u32 list"

record sfs_inode =
  sfi_size :: u32
  sfi_type :: u16
  sfi_linkcount :: u16
  sfi_direct :: "u32 list"
  sfi_indirect :: u32
  sfi_waste :: "u32 list"

record sfs_dir =
  sfd_ino :: u32
  sfd_name :: "u8 list"

subsection \<open>Bytes\<close>

definition be32 :: "u32 \<Rightarrow> u8 list" where
  "be32 w = [ucast (drop_bit 24 w), ucast (drop_bit 16 w), ucast (drop_bit 8 w), ucast w]"

definition be16 :: "u16 \<Rightarrow> u8 list" where
  "be16 w = [ucast (drop_bit 8 w), ucast w]"

definition un32 :: "u8 list \<Rightarrow> u32" where
  "un32 bs = push_bit 24 (ucast (bs ! 0)) OR push_bit 16 (ucast (bs ! 1)) OR push_bit 8 (ucast (bs ! 2)) OR ucast (bs ! 3)"

definition un16 :: "u8 list \<Rightarrow> u16" where
  "un16 bs = push_bit 8 (ucast (bs ! 0)) OR ucast (bs ! 1)"

definition words_bytes :: "u32 list \<Rightarrow> u8 list" where
  "words_bytes ws = concat (map be32 ws)"

fun bytes_words :: "nat \<Rightarrow> u8 list \<Rightarrow> u32 list" where
  "bytes_words 0 bs = []"
| "bytes_words (Suc n) bs = un32 (take 4 bs) # bytes_words n (drop 4 bs)"

lemma un32_be32 [simp]: "un32 (be32 w) = w"
proof (rule bit_eqI)
  fix n
  assume "possible_bit TYPE(u32) n"
  then have "n < 32" by (simp add: possible_bit_word)
  then show "bit (un32 (be32 w)) n = bit w n"
    by (cases "n < 8"; cases "n < 16"; cases "n < 24") (auto simp: un32_def be32_def bit_or_iff bit_push_bit_iff bit_ucast_iff bit_drop_bit_eq possible_bit_word)
qed

lemma un16_be16 [simp]: "un16 (be16 w) = w"
proof (rule bit_eqI)
  fix n
  assume "possible_bit TYPE(u16) n"
  then have "n < 16" by (simp add: possible_bit_word)
  then show "bit (un16 (be16 w)) n = bit w n"
    by (auto simp: un16_def be16_def bit_or_iff bit_push_bit_iff bit_ucast_iff bit_drop_bit_eq possible_bit_word)
qed

lemma be_length [simp]: "length (be32 w) = 4" "length (be16 h) = 2"
  by (simp_all add: be32_def be16_def)

lemma words_bytes_simps [simp]: "words_bytes [] = []" "words_bytes (w # ws) = be32 w @ words_bytes ws" "length (words_bytes ws) = 4 * length ws"
proof -
  show "words_bytes [] = []" "words_bytes (w # ws) = be32 w @ words_bytes ws" by (simp_all add: words_bytes_def)
  show "length (words_bytes ws) = 4 * length ws" unfolding words_bytes_def by (induction ws) simp_all
qed

lemma bytes_words_words [simp]: "n = length ws \<Longrightarrow> bytes_words n (words_bytes ws @ rest) = ws"
  by (induction ws arbitrary: n) simp_all

lemma bytes_words_length [simp]: "length (bytes_words n bs) = n"
  by (induction n arbitrary: bs) simp_all

text \<open>Structures as blocks.\<close>

definition enc_inode :: "sfs_inode \<Rightarrow> u8 list" where
  "enc_inode i = be32 (sfi_size i) @ be16 (sfi_type i) @ be16 (sfi_linkcount i) @ words_bytes (sfi_direct i) @ be32 (sfi_indirect i)
     @ words_bytes (sfi_waste i)"

definition dec_inode :: "u8 list \<Rightarrow> sfs_inode" where
  "dec_inode bs = \<lparr>sfi_size = un32 (take 4 bs), sfi_type = un16 (take 2 (drop 4 bs)), sfi_linkcount = un16 (take 2 (drop 6 bs)),
     sfi_direct = bytes_words 15 (drop 8 bs), sfi_indirect = un32 (take 4 (drop 68 bs)), sfi_waste = bytes_words 110 (drop 72 bs)\<rparr>"

definition enc_super :: "sfs_super \<Rightarrow> u8 list" where
  "enc_super s = be32 (sp_magic s) @ be32 (sp_nblocks s) @ sp_volname s @ words_bytes (sp_reserved s)"

definition dec_super :: "u8 list \<Rightarrow> sfs_super" where
  "dec_super bs = \<lparr>sp_magic = un32 (take 4 bs), sp_nblocks = un32 (take 4 (drop 4 bs)), sp_volname = take 32 (drop 8 bs),
     sp_reserved = bytes_words 118 (drop 40 bs)\<rparr>"

definition enc_dir :: "sfs_dir \<Rightarrow> u8 list" where
  "enc_dir e = be32 (sfd_ino e) @ sfd_name e"

definition dec_dir :: "u8 list \<Rightarrow> sfs_dir" where
  "dec_dir bs = \<lparr>sfd_ino = un32 (take 4 bs), sfd_name = take 60 (drop 4 bs)\<rparr>"

definition inode_shape :: "sfs_inode \<Rightarrow> bool" where
  "inode_shape i \<longleftrightarrow> length (sfi_direct i) = 15 \<and> length (sfi_waste i) = 110"

definition super_shape :: "sfs_super \<Rightarrow> bool" where
  "super_shape s \<longleftrightarrow> length (sp_volname s) = 32 \<and> length (sp_reserved s) = 118"

definition dir_shape :: "sfs_dir \<Rightarrow> bool" where
  "dir_shape e \<longleftrightarrow> length (sfd_name e) = 60"

lemma enc_inode_length: "inode_shape i \<Longrightarrow> length (enc_inode i) = 512"
  by (simp add: inode_shape_def enc_inode_def)

lemma dec_enc_inode: "inode_shape i \<Longrightarrow> dec_inode (enc_inode i) = i"
  using bytes_words_words [of 110 "sfi_waste i" "[]"] by (cases i) (simp add: inode_shape_def enc_inode_def dec_inode_def)

lemma dec_inode_shape: "inode_shape (dec_inode bs)"
  by (simp add: inode_shape_def dec_inode_def)

lemma enc_super_length: "super_shape s \<Longrightarrow> length (enc_super s) = 512"
  by (simp add: super_shape_def enc_super_def)

lemma dec_enc_super: "super_shape s \<Longrightarrow> dec_super (enc_super s) = s"
  using bytes_words_words [of 118 "sp_reserved s" "[]"] by (cases s) (simp add: super_shape_def enc_super_def dec_super_def)

lemma enc_dir_length: "dir_shape e \<Longrightarrow> length (enc_dir e) = 64"
  by (simp add: dir_shape_def enc_dir_def)

lemma dec_enc_dir: "dir_shape e \<Longrightarrow> dec_dir (enc_dir e) = e"
  by (cases e) (simp add: dir_shape_def enc_dir_def dec_dir_def)

lemma dec_dir_shape: "length bs = 64 \<Longrightarrow> dir_shape (dec_dir bs)"
  by (simp add: dir_shape_def dec_dir_def)

end
