(* ===== verification/SfsMap.thy ===== *)
theory SfsMap
  imports SfsFormat Bitmap KArray
begin

text \<open>
  Space allocation and block mapping of SFS (\<^verbatim>\<open>kern/fs/sfs/sfs_vnode.c\<close>, first part). A
  file is handled as the vnode structure \<open>sv\<close> that the code has a pointer to, passed in and handed back,
  next to the file system \<open>sfs_fs\<close>; the vnodes in memory are in the store \<open>sv_store\<close>. All of this runs under
  the big lock of the VFS layer, so the static buffers are local variables here.
\<close>

subsection \<open>State\<close>

datatype sfs_ops = sfs_fileops | sfs_dirops

record sfs_vnode =
  vn_refcount :: int
  vn_opencount :: int
  vn_ops :: sfs_ops
  sv_i :: sfs_inode
  sv_ino :: u32
  sv_dirty :: bool

record sfs_fs =
  sfs_super :: sfs_super
  sfs_superdirty :: bool
  sfs_device :: disk
  sfs_vnodes :: "vaddr karray"
  sfs_freemap :: bitmap
  sfs_freemapdirty :: bool
  sv_store :: "vaddr \<rightharpoonup> sfs_vnode"

text \<open>Block I/O on the device of the file system.\<close>

definition fs_rblock :: "u32 \<Rightarrow> sfs_fs \<Rightarrow> (int \<times> u8 list \<times> sfs_fs) run" where
  "fs_rblock b s = bindR (sfs_rblock b (sfs_device s)) (\<lambda>(r, bs, d). Ok (r, bs, s\<lparr>sfs_device := d\<rparr>))"

definition fs_wblock :: "u8 list \<Rightarrow> u32 \<Rightarrow> sfs_fs \<Rightarrow> (int \<times> sfs_fs) run" where
  "fs_wblock bs b s = bindR (sfs_wblock bs b (sfs_device s)) (\<lambda>(r, d). Ok (r, s\<lparr>sfs_device := d\<rparr>))"

definition fs_rwblock :: "xfer \<Rightarrow> sfs_fs \<Rightarrow> (int \<times> xfer \<times> sfs_fs) run" where
  "fs_rwblock u s = bindR (sfs_rwblock u (sfs_device s)) (\<lambda>(r, u, d). Ok (r, u, s\<lparr>sfs_device := d\<rparr>))"

subsection \<open>Allocation\<close>

definition sfs_clearblock :: "u32 \<Rightarrow> sfs_fs \<Rightarrow> (int \<times> sfs_fs) run" where
  "sfs_clearblock block s = fs_wblock (replicate SFS_BLOCKSIZE 0) block s"

definition sfs_sync_inode :: "sfs_vnode \<Rightarrow> sfs_fs \<Rightarrow> (int \<times> sfs_vnode \<times> sfs_fs) run" where
  "sfs_sync_inode sv s =
     (if sv_dirty sv then
        bindR (fs_wblock (enc_inode (sv_i sv)) (sv_ino sv) s) (\<lambda>(result, s).
          if result \<noteq> 0 then Ok (result, sv, s) else Ok (0, sv\<lparr>sv_dirty := False\<rparr>, s))
      else Ok (0, sv, s))"

definition sfs_balloc :: "sfs_fs \<Rightarrow> (int \<times> u32 \<times> sfs_fs) run" where
  "sfs_balloc s =
     bindR (bitmap_alloc (sfs_freemap s)) (\<lambda>(result, diskblock, b).
       if result \<noteq> 0 then Ok (result, diskblock, s\<lparr>sfs_freemap := b\<rparr>)
       else
         let s = s\<lparr>sfs_freemap := b, sfs_freemapdirty := True\<rparr> in
         if diskblock \<ge> sp_nblocks (sfs_super s) then Halt Panicked
         else bindR (sfs_clearblock diskblock s) (\<lambda>(r, s). Ok (r, diskblock, s)))"

definition sfs_bfree :: "u32 \<Rightarrow> sfs_fs \<Rightarrow> sfs_fs run" where
  "sfs_bfree diskblock s = bindR (bitmap_unmark (sfs_freemap s) diskblock) (\<lambda>b. Ok (s\<lparr>sfs_freemap := b, sfs_freemapdirty := True\<rparr>))"

definition sfs_bused :: "u32 \<Rightarrow> sfs_fs \<Rightarrow> bool run" where
  "sfs_bused diskblock s =
     (if diskblock \<ge> sp_nblocks (sfs_super s) then Halt Panicked
      else bindR (bitmap_isset (sfs_freemap s) diskblock) (\<lambda>x. Ok (x \<noteq> 0)))"

subsection \<open>Block mapping\<close>

text \<open>The end of \<open>sfs_bmap\<close>: the block must be marked in use.\<close>

definition hand_back :: "u32 \<Rightarrow> sfs_vnode \<Rightarrow> sfs_fs \<Rightarrow> (int \<times> u32 \<times> sfs_vnode \<times> sfs_fs) run" where
  "hand_back block sv s =
     (if block = 0 then Ok (0, 0, sv, s)
      else bindR (sfs_bused block s) (\<lambda>used. if used then Ok (0, block, sv, s) else Halt Panicked))"

definition bmap_direct :: "sfs_vnode \<Rightarrow> nat \<Rightarrow> bool \<Rightarrow> sfs_fs \<Rightarrow> (int \<times> u32 \<times> sfs_vnode \<times> sfs_fs) run" where
  "bmap_direct sv i doalloc s =
     (let block = sfi_direct (sv_i sv) ! i in
      if block = 0 \<and> doalloc then
        bindR (sfs_balloc s) (\<lambda>(result, block, s).
          if result \<noteq> 0 then Ok (result, 0, sv, s)
          else hand_back block (sv\<lparr>sv_i := (sv_i sv)\<lparr>sfi_direct := (sfi_direct (sv_i sv))[i := block]\<rparr>, sv_dirty := True\<rparr>) s)
      else hand_back block sv s)"

text \<open>The entry \<open>idoff\<close> of the indirect block \<open>idblock\<close>, whose contents are in \<open>idbuf\<close>.\<close>

definition bmap_entry :: "sfs_vnode \<Rightarrow> u32 \<Rightarrow> u32 list \<Rightarrow> nat \<Rightarrow> bool \<Rightarrow> sfs_fs \<Rightarrow> (int \<times> u32 \<times> sfs_vnode \<times> sfs_fs) run" where
  "bmap_entry sv idblock idbuf idoff doalloc s =
     (let block = idbuf ! idoff in
      if block = 0 \<and> doalloc then
        bindR (sfs_balloc s) (\<lambda>(result, block, s).
          if result \<noteq> 0 then Ok (result, 0, sv, s)
          else bindR (fs_wblock (words_bytes (idbuf[idoff := block])) idblock s) (\<lambda>(result, s).
            if result \<noteq> 0 then Ok (result, 0, sv, s) else hand_back block sv s))
      else hand_back block sv s)"

definition bmap_indirect :: "sfs_vnode \<Rightarrow> nat \<Rightarrow> bool \<Rightarrow> sfs_fs \<Rightarrow> (int \<times> u32 \<times> sfs_vnode \<times> sfs_fs) run" where
  "bmap_indirect sv idoff doalloc s =
     (let idblock = sfi_indirect (sv_i sv) in
      if idblock = 0 \<and> \<not> doalloc then Ok (0, 0, sv, s)
      else if idblock = 0 then
        bindR (sfs_balloc s) (\<lambda>(result, idblock, s).
          if result \<noteq> 0 then Ok (result, 0, sv, s)
          else bmap_entry (sv\<lparr>sv_i := (sv_i sv)\<lparr>sfi_indirect := idblock\<rparr>, sv_dirty := True\<rparr>) idblock (replicate SFS_DBPERIDB 0) idoff doalloc s)
      else
        bindR (fs_rblock idblock s) (\<lambda>(result, bs, s).
          if result \<noteq> 0 then Ok (result, 0, sv, s) else bmap_entry sv idblock (bytes_words SFS_DBPERIDB bs) idoff doalloc s))"

definition sfs_bmap :: "sfs_vnode \<Rightarrow> u32 \<Rightarrow> bool \<Rightarrow> sfs_fs \<Rightarrow> (int \<times> u32 \<times> sfs_vnode \<times> sfs_fs) run" where
  "sfs_bmap sv fileblock doalloc s =
     (if fileblock < of_nat SFS_NDIRECT then bmap_direct sv (unat fileblock) doalloc s
      else
        let fileblock = fileblock - of_nat SFS_NDIRECT;
            idnum = fileblock div of_nat SFS_DBPERIDB;
            idoff = fileblock mod of_nat SFS_DBPERIDB
        in if idnum > 0 then Ok (EFBIG, 0, sv, s) else bmap_indirect sv (unat idoff) doalloc s)"

subsection \<open>Well-formed file systems and files\<close>

text \<open>
  The free map covers the device, marks the superblock and everything beyond the end as used, and the
  device works.
\<close>

abbreviation blocks_in_use :: "sfs_fs \<Rightarrow> nat set" where
  "blocks_in_use s \<equiv> bm_used (sfs_freemap s)"

abbreviation fs_data :: "sfs_fs \<Rightarrow> u32 \<Rightarrow> u8 list" where
  "fs_data s \<equiv> dk_data (sfs_device s)"

definition fs_ok :: "sfs_fs \<Rightarrow> bool" where
  "fs_ok s \<longleftrightarrow> bitmap_inv (sfs_freemap s) \<and> disk_ok (sfs_device s) \<and> quiet (sfs_device s) \<and> sp_nblocks (sfs_super s) \<le> d_blocks (sfs_device s)
     \<and> unat (sp_nblocks (sfs_super s)) \<le> bm_cap (sfs_freemap s) \<and> {unat (sp_nblocks (sfs_super s))..<bm_cap (sfs_freemap s)} \<subseteq> blocks_in_use s
     \<and> 0 \<in> blocks_in_use s"

text \<open>The blocks a file refers to, direct and indirect, in order; zero is a hole.\<close>

definition idwords :: "(u32 \<Rightarrow> u8 list) \<Rightarrow> sfs_inode \<Rightarrow> u32 list" where
  "idwords f i = (if sfi_indirect i = 0 then replicate SFS_DBPERIDB 0 else bytes_words SFS_DBPERIDB (f (sfi_indirect i)))"

definition fblocks :: "(u32 \<Rightarrow> u8 list) \<Rightarrow> sfs_inode \<Rightarrow> u32 list" where
  "fblocks f i = sfi_direct i @ idwords f i"

definition owned :: "(u32 \<Rightarrow> u8 list) \<Rightarrow> sfs_inode \<Rightarrow> u32 set" where
  "owned f i = set (sfi_indirect i # fblocks f i) - {0}"

definition file_ok :: "sfs_fs \<Rightarrow> sfs_inode \<Rightarrow> bool" where
  "file_ok s i \<longleftrightarrow> inode_shape i \<and> (\<forall>b\<in>owned (fs_data s) i. unat b \<in> blocks_in_use s \<and> b < sp_nblocks (sfs_super s))
     \<and> distinct (filter (\<lambda>b. b \<noteq> 0) (sfi_indirect i # fblocks (fs_data s) i))"

text \<open>The contents of a file, as if holes were zero.\<close>

definition file_byte :: "(u32 \<Rightarrow> u8 list) \<Rightarrow> sfs_inode \<Rightarrow> nat \<Rightarrow> u8" where
  "file_byte f i n = (let b = fblocks f i ! (n div SFS_BLOCKSIZE) in if b = 0 then 0 else f b ! (n mod SFS_BLOCKSIZE))"

lemma fblocks_length [simp]: "inode_shape i \<Longrightarrow> length (fblocks f i) = 143"
  by (simp add: fblocks_def idwords_def inode_shape_def layout_defs)

lemma file_ok_cong: "sfi_direct j = sfi_direct i \<Longrightarrow> sfi_indirect j = sfi_indirect i \<Longrightarrow> sfi_waste j = sfi_waste i \<Longrightarrow> file_ok s j = file_ok s i"
  by (simp only: file_ok_def owned_def fblocks_def idwords_def inode_shape_def)

subsection \<open>Allocation\<close>

lemma fs_ok_device: "fs_ok s \<Longrightarrow> io_done (sfs_device s) f d \<Longrightarrow> fs_ok (s\<lparr>sfs_device := d\<rparr>)"
  by (simp add: fs_ok_def io_done_def)

lemma fs_rblock_reads:
  assumes "fs_ok s" and "b < sp_nblocks (sfs_super s)"
  obtains d where "fs_rblock b s = Ok (0, fs_data s b, s\<lparr>sfs_device := d\<rparr>)" and "io_done (sfs_device s) (fs_data s) d"
proof -
  have "disk_ok (sfs_device s)" "quiet (sfs_device s)" "b < d_blocks (sfs_device s)" using assms by (auto simp: fs_ok_def)
  then show ?thesis using sfs_rblock_reads that by (fastforce simp: fs_rblock_def)
qed

lemma fs_wblock_writes:
  assumes "fs_ok s" and "b < sp_nblocks (sfs_super s)" and "length bs = SFS_BLOCKSIZE"
  obtains d where "fs_wblock bs b s = Ok (0, s\<lparr>sfs_device := d\<rparr>)" and "io_done (sfs_device s) ((fs_data s)(b := bs)) d"
proof -
  have "disk_ok (sfs_device s)" "quiet (sfs_device s)" "b < d_blocks (sfs_device s)" using assms by (auto simp: fs_ok_def)
  then show ?thesis using sfs_wblock_writes assms(3) that by (fastforce simp: fs_wblock_def)
qed

lemma sfs_balloc_spec:
  assumes "fs_ok s"
  shows "(sfs_balloc s = Ok (ENOSPC, 0, s) \<and> blocks_in_use s = {..<bm_cap (sfs_freemap s)})
    \<or> (\<exists>b fm d. sfs_balloc s = Ok (0, b, s\<lparr>sfs_freemap := fm, sfs_freemapdirty := True, sfs_device := d\<rparr>) \<and> b \<noteq> 0 \<and> unat b \<notin> blocks_in_use s
        \<and> b < sp_nblocks (sfs_super s) \<and> bm_cap fm = bm_cap (sfs_freemap s) \<and> bm_used fm = insert (unat b) (blocks_in_use s)
        \<and> io_done (sfs_device s) ((fs_data s)(b := replicate SFS_BLOCKSIZE 0)) d
        \<and> fs_ok (s\<lparr>sfs_freemap := fm, sfs_freemapdirty := True, sfs_device := d\<rparr>))"
proof -
  have inv: "bitmap_inv (sfs_freemap s)" using assms by (simp add: fs_ok_def)
  from bitmap_alloc_spec [OF inv] show ?thesis
  proof
    assume "bitmap_alloc (sfs_freemap s) = Ok (ENOSPC, 0, sfs_freemap s) \<and> bm_used (sfs_freemap s) = {..<bm_cap (sfs_freemap s)}"
    then show ?thesis by (simp add: sfs_balloc_def ENOSPC_def)
  next
    assume "\<exists>i b'. bitmap_alloc (sfs_freemap s) = Ok (0, of_nat i, b') \<and> i < bm_cap (sfs_freemap s) \<and> i \<notin> bm_used (sfs_freemap s)
      \<and> {..<i} \<subseteq> bm_used (sfs_freemap s) \<and> bitmap_inv b' \<and> bm_cap b' = bm_cap (sfs_freemap s) \<and> bm_used b' = insert i (bm_used (sfs_freemap s))"
    then obtain i fm where a: "bitmap_alloc (sfs_freemap s) = Ok (0, of_nat i, fm)" "i < bm_cap (sfs_freemap s)" "i \<notin> blocks_in_use s"
      "bitmap_inv fm" "bm_cap fm = bm_cap (sfs_freemap s)" "bm_used fm = insert i (blocks_in_use s)" by blast
    let ?b = "of_nat i :: u32"
    have i: "unat ?b = i" by (rule bm_used_word [OF inv a(2)])
    have lt: "i < unat (sp_nblocks (sfs_super s))" 
    proof (rule ccontr)
      assume "\<not> i < unat (sp_nblocks (sfs_super s))"
      then have "i \<in> {unat (sp_nblocks (sfs_super s))..<bm_cap (sfs_freemap s)}" using a(2) by simp
      then show False using assms a(3) unfolding fs_ok_def by blast
    qed
    then have b: "?b < sp_nblocks (sfs_super s)" using i by (simp add: word_less_nat_alt)
    have nz: "?b \<noteq> 0" using i a(3) assms by (auto simp: fs_ok_def)
    let ?s = "s\<lparr>sfs_freemap := fm, sfs_freemapdirty := True\<rparr>"
    have ok: "fs_ok ?s" using assms a by (auto simp: fs_ok_def)
    obtain d where d: "fs_wblock (replicate SFS_BLOCKSIZE 0) ?b ?s = Ok (0, ?s\<lparr>sfs_device := d\<rparr>)"
      "io_done (sfs_device s) ((fs_data s)(?b := replicate SFS_BLOCKSIZE 0)) d"
      using fs_wblock_writes [OF ok, of ?b "replicate SFS_BLOCKSIZE 0"] b by auto
    have "sfs_balloc s = Ok (0, ?b, ?s\<lparr>sfs_device := d\<rparr>)" using a(1) b d(1) by (simp add: sfs_balloc_def sfs_clearblock_def)
    moreover have "fs_ok (?s\<lparr>sfs_device := d\<rparr>)" using fs_ok_device [OF ok] d(2) by simp
    ultimately show ?thesis using i a nz b d(2) by (intro disjI2 exI [of _ ?b] exI [of _ fm] exI [of _ d]) simp
  qed
qed

lemma sfs_bused_spec:
  assumes "fs_ok s" and "b < sp_nblocks (sfs_super s)"
  shows "sfs_bused b s = Ok (unat b \<in> blocks_in_use s)"
proof -
  have "unat b < bm_cap (sfs_freemap s)" using assms by (auto simp: fs_ok_def word_less_nat_alt)
  then obtain r where "bitmap_isset (sfs_freemap s) b = Ok r" "r \<noteq> 0 \<longleftrightarrow> unat b \<in> blocks_in_use s"
    using bitmap_isset_spec [of "sfs_freemap s" b] assms(1) by (auto simp: fs_ok_def)
  then show ?thesis using assms(2) by (simp add: sfs_bused_def)
qed

lemma hand_back_spec:
  assumes "fs_ok s" and "b \<noteq> 0 \<Longrightarrow> b < sp_nblocks (sfs_super s) \<and> unat b \<in> blocks_in_use s"
  shows "hand_back b sv s = Ok (0, b, sv, s)"
  using assms sfs_bused_spec [OF assms(1), of b] by (cases "b = 0") (simp_all add: hand_back_def)

subsection \<open>What block mapping does\<close>

text \<open>Everything that block allocation and block I/O leave alone.\<close>

definition same_fs :: "sfs_fs \<Rightarrow> sfs_fs \<Rightarrow> bool" where
  "same_fs s s' \<longleftrightarrow> sfs_super s' = sfs_super s \<and> sfs_superdirty s' = sfs_superdirty s \<and> sfs_vnodes s' = sfs_vnodes s \<and> sv_store s' = sv_store s
     \<and> bm_cap (sfs_freemap s') = bm_cap (sfs_freemap s) \<and> d_blocks (sfs_device s') = d_blocks (sfs_device s)"

lemma same_fs_refl [simp]: "same_fs s s"
  by (simp add: same_fs_def)

lemma same_fs_trans [trans]: "same_fs s s' \<Longrightarrow> same_fs s' s'' \<Longrightarrow> same_fs s s''"
  by (simp add: same_fs_def)

definition allocated :: "sfs_fs \<Rightarrow> u32 \<Rightarrow> sfs_fs \<Rightarrow> bool" where
  "allocated s b s' \<longleftrightarrow> fs_ok s' \<and> same_fs s s' \<and> b \<noteq> 0 \<and> unat b \<notin> blocks_in_use s \<and> b < sp_nblocks (sfs_super s)
     \<and> blocks_in_use s' = insert (unat b) (blocks_in_use s) \<and> fs_data s' = (fs_data s)(b := replicate SFS_BLOCKSIZE 0)"

lemma balloc_cases:
  assumes "fs_ok s"
  obtains "sfs_balloc s = Ok (ENOSPC, 0, s)" and "blocks_in_use s = {..<bm_cap (sfs_freemap s)}"
  | b s' where "sfs_balloc s = Ok (0, b, s')" and "allocated s b s'"
  using sfs_balloc_spec [OF assms]
proof (elim disjE exE conjE)
  fix b fm d
  assume a: "sfs_balloc s = Ok (0, b, s\<lparr>sfs_freemap := fm, sfs_freemapdirty := True, sfs_device := d\<rparr>)" "b \<noteq> 0" "unat b \<notin> blocks_in_use s"
    "b < sp_nblocks (sfs_super s)" "bm_cap fm = bm_cap (sfs_freemap s)" "bm_used fm = insert (unat b) (blocks_in_use s)"
    "io_done (sfs_device s) ((fs_data s)(b := replicate SFS_BLOCKSIZE 0)) d"
    "fs_ok (s\<lparr>sfs_freemap := fm, sfs_freemapdirty := True, sfs_device := d\<rparr>)"
  show ?thesis by (rule that(2) [OF a(1)]) (use a in \<open>simp add: allocated_def same_fs_def io_done_def\<close>)
qed (rule that(1))

text \<open>
  The effect of a mapping step: the file gains the blocks \<open>new\<close>, which were free and are now marked;
  no block that belongs to anything else changes.
\<close>

definition extended :: "sfs_fs \<Rightarrow> sfs_inode \<Rightarrow> u32 set \<Rightarrow> sfs_fs \<Rightarrow> sfs_inode \<Rightarrow> bool" where
  "extended s i new s' i' \<longleftrightarrow> fs_ok s' \<and> file_ok s' i' \<and> same_fs s s'
     \<and> sfi_size i' = sfi_size i \<and> sfi_type i' = sfi_type i \<and> sfi_linkcount i' = sfi_linkcount i \<and> sfi_waste i' = sfi_waste i
     \<and> (if sfi_indirect i = 0 then sfi_indirect i' \<in> insert 0 new else sfi_indirect i' = sfi_indirect i)
     \<and> blocks_in_use s' = blocks_in_use s \<union> unat ` new \<and> unat ` new \<inter> blocks_in_use s = {}
     \<and> owned (fs_data s') i' = owned (fs_data s) i \<union> new
     \<and> (\<forall>b. b \<notin> new \<longrightarrow> b = 0 \<or> b \<noteq> sfi_indirect i \<longrightarrow> fs_data s' b = fs_data s b)"

lemma extended_refl: "fs_ok s \<Longrightarrow> file_ok s i \<Longrightarrow> extended s i {} s i"
  by (simp add: extended_def)

lemma extended_io: "fs_ok s \<Longrightarrow> file_ok s i \<Longrightarrow> io_done (sfs_device s) (fs_data s) d \<Longrightarrow> extended s i {} (s\<lparr>sfs_device := d\<rparr>) i"
  using fs_ok_device [of s "fs_data s" d] by (simp add: extended_def same_fs_def io_done_def file_ok_def)

lemma extended_same: "extended s i new s' i' \<Longrightarrow> b \<notin> new \<Longrightarrow> b = 0 \<or> b \<noteq> sfi_indirect i \<Longrightarrow> fs_data s' b = fs_data s b"
  unfolding extended_def by blast

lemma extended_trans:
  assumes a: "extended s i N s' i'" and b: "extended s' i' M s'' i''"
  shows "extended s i (N \<union> M) s'' i''"
proof -
  have use: "blocks_in_use s' = blocks_in_use s \<union> unat ` N" "unat ` N \<inter> blocks_in_use s = {}" "unat ` M \<inter> blocks_in_use s' = {}"
    "blocks_in_use s'' = blocks_in_use s' \<union> unat ` M" "owned (fs_data s') i' = owned (fs_data s) i \<union> N"
    "owned (fs_data s'') i'' = owned (fs_data s') i' \<union> M" "same_fs s s'" "same_fs s' s''"
    using a b by (simp_all add: extended_def)
  have ind: "if sfi_indirect i = 0 then sfi_indirect i' \<in> insert 0 N else sfi_indirect i' = sfi_indirect i" using a unfolding extended_def by blast
  moreover have "if sfi_indirect i' = 0 then sfi_indirect i'' \<in> insert 0 M else sfi_indirect i'' = sfi_indirect i'" using b unfolding extended_def by blast
  ultimately have ind': "if sfi_indirect i = 0 then sfi_indirect i'' \<in> insert 0 (N \<union> M) else sfi_indirect i'' = sfi_indirect i"
    by (auto split: if_splits)
  have "fs_data s'' x = fs_data s x" if x: "x \<notin> N \<union> M" "x = 0 \<or> x \<noteq> sfi_indirect i" for x
  proof -
    have "x = 0 \<or> x \<noteq> sfi_indirect i'" using ind x by (auto split: if_splits)
    then have "fs_data s'' x = fs_data s' x" using extended_same [OF b] x(1) by blast
    also have "\<dots> = fs_data s x" using extended_same [OF a] x by blast
    finally show ?thesis .
  qed
  moreover have "unat ` (N \<union> M) \<inter> blocks_in_use s = {}" "blocks_in_use s'' = blocks_in_use s \<union> unat ` (N \<union> M)"
    "owned (fs_data s'') i'' = owned (fs_data s) i \<union> (N \<union> M)" using use by (auto simp: image_Un)
  moreover have "same_fs s s''" using use(7,8) by (rule same_fs_trans)
  ultimately show ?thesis using ind' a b unfolding extended_def by simp
qed

text \<open>Blocks in use are apart from freshly allocated ones.\<close>

lemma bytes_words_cong: "take (4 * n) bs = take (4 * n) cs \<Longrightarrow> bytes_words n bs = bytes_words n cs"
proof (induction n arbitrary: bs cs)
  case (Suc n)
  have "take 4 bs = take 4 (take (4 * Suc n) bs)" "take 4 cs = take 4 (take (4 * Suc n) cs)" by simp_all
  then have "take 4 bs = take 4 cs" using Suc.prems by metis
  moreover have "take (4 * n) (drop 4 bs) = drop 4 (take (4 * Suc n) bs)" "take (4 * n) (drop 4 cs) = drop 4 (take (4 * Suc n) cs)"
    by (simp_all add: drop_take)
  then have "bytes_words n (drop 4 bs) = bytes_words n (drop 4 cs)" using Suc by metis
  ultimately show ?case by simp
qed simp

lemma fblocks_direct: "inode_shape i \<Longrightarrow> n < 15 \<Longrightarrow> fblocks f i ! n = sfi_direct i ! n"
  by (simp add: fblocks_def inode_shape_def nth_append)

lemma fblocks_indirect: "inode_shape i \<Longrightarrow> fblocks f i ! (15 + n) = idwords f i ! n"
  by (simp add: fblocks_def inode_shape_def nth_append)

lemma owned_nth: "inode_shape i \<Longrightarrow> n < 143 \<Longrightarrow> fblocks f i ! n \<noteq> 0 \<Longrightarrow> fblocks f i ! n \<in> owned f i"
  by (simp add: owned_def)

lemma filter_update_distinct:
  assumes "distinct (filter (\<lambda>b. b \<noteq> 0) xs)" and "n < length xs" and "xs ! n = 0" and "b \<notin> set xs" and "b \<noteq> (0 :: u32)"
  shows "distinct (filter (\<lambda>b. b \<noteq> 0) (xs[n := b]))"
proof -
  have xs: "xs = take n xs @ 0 # drop (Suc n) xs" using assms(2,3) id_take_nth_drop [of n xs] by simp
  have up: "xs[n := b] = take n xs @ b # drop (Suc n) xs" using assms(2) by (simp add: upd_conv_take_nth_drop)
  have "distinct (filter (\<lambda>b. b \<noteq> 0) (take n xs) @ filter (\<lambda>b. b \<noteq> 0) (drop (Suc n) xs))"
    using assms(1) by (subst (asm) xs) simp
  moreover have "b \<notin> set (take n xs)" "b \<notin> set (drop (Suc n) xs)" using assms(4) by (meson in_set_takeD in_set_dropD)+
  ultimately show ?thesis unfolding up using assms(5) by simp
qed

lemma set_update_hole:
  assumes "n < length xs" and "xs ! n = 0"
  shows "set (xs[n := b]) - {0} = (set xs - {0}) \<union> ({b} - {0 :: u32})"
proof -
  have xs: "xs = take n xs @ 0 # drop (Suc n) xs" using assms id_take_nth_drop [of n xs] by simp
  have up: "xs[n := b] = take n xs @ b # drop (Suc n) xs" using assms(1) by (simp add: upd_conv_take_nth_drop)
  have "set xs = set (take n xs) \<union> {0} \<union> set (drop (Suc n) xs)" by (subst xs) auto
  then show ?thesis unfolding up by auto
qed

text \<open>The three ways a file grows: a direct block, the indirect block, an entry of the indirect block.\<close>

lemma fresh_not_owned: "allocated s b s' \<Longrightarrow> file_ok s i \<Longrightarrow> b \<notin> owned (fs_data s) i \<and> b \<notin> set (sfi_indirect i # fblocks (fs_data s) i)"
  by (auto simp: allocated_def file_ok_def owned_def)

lemma idwords_cong: "(sfi_indirect i \<noteq> 0 \<Longrightarrow> g (sfi_indirect i) = f (sfi_indirect i)) \<Longrightarrow> sfi_indirect j = sfi_indirect i \<Longrightarrow> idwords g j = idwords f i"
  by (simp add: idwords_def)

lemma file_ok_step:
  assumes "allocated s b s'" and "file_ok s i" and "inode_shape i'" and "owned f i' \<subseteq> insert b (owned (fs_data s) i)"
    and "distinct (filter (\<lambda>b. b \<noteq> 0) (sfi_indirect i' # fblocks f i'))" and "fs_data s'' = f" and "fs_ok s''" and "sfs_super s'' = sfs_super s"
    and "blocks_in_use s'' = blocks_in_use s'"
  shows "file_ok s'' i'"
proof -
  have "unat x \<in> blocks_in_use s'' \<and> x < sp_nblocks (sfs_super s'')" if "x \<in> owned f i'" for x
  proof (cases "x = b")
    case True
    then show ?thesis using assms(1,8,9) by (simp add: allocated_def)
  next
    case False
    then have "x \<in> owned (fs_data s) i" using that assms(4) by blast
    then show ?thesis using assms(1,2,8,9) by (simp add: allocated_def file_ok_def)
  qed
  then show ?thesis using assms by (simp add: file_ok_def)
qed

lemma grow_direct:
  assumes a: "allocated s b s'" and i: "file_ok s i" and n: "n < 15" "sfi_direct i ! n = 0"
  defines "i' \<equiv> i\<lparr>sfi_direct := (sfi_direct i)[n := b]\<rparr>"
  shows "extended s i {b} s' i'" and "fblocks (fs_data s') i' = (fblocks (fs_data s) i)[n := b]"
proof -
  have len: "length (sfi_direct i) = 15" and shape: "inode_shape i'" using i by (simp_all add: file_ok_def inode_shape_def i'_def)
  note fr = fresh_not_owned [OF a i]
  have "idwords (fs_data s') i' = idwords (fs_data s) i" using a fr by (intro idwords_cong) (auto simp: allocated_def i'_def)
  then show fb: "fblocks (fs_data s') i' = (fblocks (fs_data s) i)[n := b]" using len n(1) by (simp add: fblocks_def i'_def list_update_append)
  have hole: "fblocks (fs_data s) i ! n = 0" "n < length (fblocks (fs_data s) i)" using n i len by (simp_all add: fblocks_def nth_append file_ok_def)
  have b0: "b \<noteq> 0" using a by (simp add: allocated_def)
  have own: "owned (fs_data s') i' = owned (fs_data s) i \<union> {b}"
    using set_update_hole [OF hole(2,1), of b] b0 unfolding owned_def fb by (auto simp: i'_def)
  have "distinct (filter (\<lambda>b. b \<noteq> 0) ((sfi_indirect i # fblocks (fs_data s) i)[Suc n := b]))"
    using i fr hole b0 by (intro filter_update_distinct) (simp_all add: file_ok_def)
  then have dist: "distinct (filter (\<lambda>b. b \<noteq> 0) (sfi_indirect i' # fblocks (fs_data s') i'))"
    unfolding fb by (simp add: i'_def)
  have "file_ok s' i'" using a own by (intro file_ok_step [OF a i shape _ dist]) (simp_all add: allocated_def same_fs_def)
  then show "extended s i {b} s' i'" using a own by (simp add: extended_def allocated_def) (simp add: i'_def)
qed

lemma zero_block_words: "bytes_words n (replicate (4 * n) 0) = replicate n 0"
proof (induction n)
  case (Suc n)
  have "un32 (replicate 4 0) = 0" by (simp add: un32_def numeral_eq_Suc)
  moreover have "replicate (4 * Suc n) (0 :: u8) = replicate 4 0 @ replicate (4 * n) 0" by (simp add: replicate_add)
  ultimately show ?case using Suc by simp
qed (simp)

lemma grow_indirect:
  assumes a: "allocated s b s'" and i: "file_ok s i" and n: "sfi_indirect i = 0"
  defines "i' \<equiv> i\<lparr>sfi_indirect := b\<rparr>"
  shows "extended s i {b} s' i'" and "fblocks (fs_data s') i' = fblocks (fs_data s) i" and "idwords (fs_data s') i' = replicate SFS_DBPERIDB 0"
proof -
  have shape: "inode_shape i'" using i by (simp add: file_ok_def inode_shape_def i'_def)
  note fr = fresh_not_owned [OF a i]
  have b0: "b \<noteq> 0" using a by (simp add: allocated_def)
  show id: "idwords (fs_data s') i' = replicate SFS_DBPERIDB 0"
    using a b0 zero_block_words [of 128] by (simp add: idwords_def allocated_def i'_def layout_defs)
  then show fb: "fblocks (fs_data s') i' = fblocks (fs_data s) i" using n by (simp add: fblocks_def i'_def idwords_def)
  have own: "owned (fs_data s') i' = owned (fs_data s) i \<union> {b}" unfolding owned_def fb using b0 n by (auto simp: i'_def)
  have dist: "distinct (filter (\<lambda>b. b \<noteq> 0) (sfi_indirect i' # fblocks (fs_data s') i'))"
    unfolding fb using i fr n by (simp add: i'_def file_ok_def)
  have "file_ok s' i'" using a own by (intro file_ok_step [OF a i shape _ dist]) (simp_all add: allocated_def same_fs_def)
  then show "extended s i {b} s' i'" using a own n by (simp add: extended_def allocated_def) (simp add: i'_def)
qed

lemma words_bytes_read [simp]: "n = length ws \<Longrightarrow> bytes_words n (words_bytes ws) = ws"
  using bytes_words_words [of n ws "[]"] by simp

lemma grow_entry:
  assumes a: "allocated s b s'" and i: "file_ok s i" and x: "sfi_indirect i = x" "x \<noteq> 0" and n: "n < 128" "idwords (fs_data s) i ! n = 0"
    and d: "io_done (sfs_device s') ((fs_data s')(x := words_bytes ((idwords (fs_data s) i)[n := b]))) d"
  defines "s'' \<equiv> s'\<lparr>sfs_device := d\<rparr>"
  shows "extended s i {b} s'' i" and "fblocks (fs_data s'') i = (fblocks (fs_data s) i)[15 + n := b]"
proof -
  have len: "length (sfi_direct i) = 15" "length (idwords (fs_data s) i) = 128" and shape: "inode_shape i"
    using i by (simp_all add: file_ok_def inode_shape_def idwords_def layout_defs)
  note fr = fresh_not_owned [OF a i]
  have "idwords (fs_data s'') i = (idwords (fs_data s) i)[n := b]"
    using d x len(2) by (subst idwords_def) (simp add: s''_def io_done_def layout_defs)
  then show fb: "fblocks (fs_data s'') i = (fblocks (fs_data s) i)[15 + n := b]" using len by (simp add: fblocks_def list_update_append)
  have hole: "fblocks (fs_data s) i ! (15 + n) = 0" "15 + n < length (fblocks (fs_data s) i)" using n i len by (simp_all add: fblocks_def nth_append file_ok_def)
  have b0: "b \<noteq> 0" using a by (simp add: allocated_def)
  have own: "owned (fs_data s'') i = owned (fs_data s) i \<union> {b}"
    using set_update_hole [OF hole(2,1), of b] b0 unfolding owned_def fb by auto
  have "distinct (filter (\<lambda>b. b \<noteq> 0) ((sfi_indirect i # fblocks (fs_data s) i)[Suc (15 + n) := b]))"
    using i fr hole b0 by (intro filter_update_distinct) (simp_all add: file_ok_def)
  then have dist: "distinct (filter (\<lambda>b. b \<noteq> 0) (sfi_indirect i # fblocks (fs_data s'') i))" unfolding fb by simp
  have ok: "fs_ok s''" unfolding s''_def using a d by (intro fs_ok_device) (simp_all add: allocated_def)
  have same: "same_fs s s''" using a d by (simp add: allocated_def same_fs_def s''_def io_done_def)
  have "file_ok s'' i" using a own same by (intro file_ok_step [OF a i shape _ dist _ ok]) (simp_all add: same_fs_def s''_def)
  moreover have "fs_data s'' c = fs_data s c" if "c \<noteq> b" "c = 0 \<or> c \<noteq> x" for c using a d that x(2) by (auto simp add: s''_def io_done_def allocated_def)
  ultimately show "extended s i {b} s'' i" using a own ok same x by (simp add: extended_def allocated_def) (simp add: s''_def)
qed

text \<open>What a mapping call may do to the vnode: only block pointers change, and then the inode is dirty.\<close>

definition remapped :: "sfs_vnode \<Rightarrow> sfs_vnode \<Rightarrow> bool" where
  "remapped sv sv' \<longleftrightarrow> sv_ino sv' = sv_ino sv \<and> vn_refcount sv' = vn_refcount sv \<and> vn_opencount sv' = vn_opencount sv \<and> vn_ops sv' = vn_ops sv
     \<and> (sv_dirty sv \<longrightarrow> sv_dirty sv') \<and> (sv_i sv' \<noteq> sv_i sv \<longrightarrow> sv_dirty sv')"

lemma remapped_refl [simp]: "remapped sv sv"
  by (simp add: remapped_def)

lemma remapped_trans: "remapped sv sv' \<Longrightarrow> remapped sv' sv'' \<Longrightarrow> remapped sv sv''"
  by (auto simp: remapped_def)

definition mapped :: "sfs_vnode \<Rightarrow> sfs_fs \<Rightarrow> nat \<Rightarrow> bool \<Rightarrow> int \<times> u32 \<times> sfs_vnode \<times> sfs_fs \<Rightarrow> bool" where
  "mapped sv s n alloc = (\<lambda>(r, b, sv', s'). \<exists>new. extended s (sv_i sv) new s' (sv_i sv') \<and> remapped sv sv' \<and>
     (if r = 0 then fblocks (fs_data s') (sv_i sv') = (fblocks (fs_data s) (sv_i sv))[n := b]
        \<and> (if fblocks (fs_data s) (sv_i sv) ! n = 0 \<and> alloc then b \<in> new \<and> b \<noteq> 0 \<and> fs_data s' b = replicate SFS_BLOCKSIZE 0
           else new = {} \<and> sv' = sv \<and> fs_data s' = fs_data s \<and> b = fblocks (fs_data s) (sv_i sv) ! n)
      else r = ENOSPC \<and> alloc \<and> fblocks (fs_data s) (sv_i sv) ! n = 0 \<and> fblocks (fs_data s') (sv_i sv') = fblocks (fs_data s) (sv_i sv) \<and> blocks_in_use s' = {..<bm_cap (sfs_freemap s')}))"

lemma mapped_found:
  assumes "fs_ok s" and "file_ok s (sv_i sv)" and "fblocks (fs_data s) (sv_i sv) ! n = b" and "\<not> (b = 0 \<and> alloc)"
  shows "mapped sv s n alloc (0, b, sv, s)"
  unfolding mapped_def using assms(3,4) extended_refl [OF assms(1,2)] by (auto intro!: exI [of _ "{}"])

lemma file_ok_block:
  assumes "file_ok s i" and "n < 143" and "fblocks (fs_data s) i ! n \<noteq> 0"
  shows "fblocks (fs_data s) i ! n < sp_nblocks (sfs_super s) \<and> unat (fblocks (fs_data s) i ! n) \<in> blocks_in_use s"
  using assms owned_nth [of i n "fs_data s"] by (auto simp: file_ok_def)

lemma direct_maps:
  assumes s: "fs_ok s" and i: "file_ok s (sv_i sv)" and n: "n < 15"
  obtains y where "bmap_direct sv n alloc s = Ok y" and "mapped sv s n alloc y"
proof -
  let ?b = "sfi_direct (sv_i sv) ! n"
  have nth: "fblocks (fs_data s) (sv_i sv) ! n = ?b" using fblocks_direct i n by (simp add: file_ok_def)
  show thesis
  proof (cases "?b = 0 \<and> alloc")
    case True
    from s show thesis
    proof (cases rule: balloc_cases)
      case 1
      then show thesis using True that nth extended_refl [OF s i] by (simp add: bmap_direct_def mapped_def ENOSPC_def) blast
    next
      case (2 b s')
      let ?sv = "sv\<lparr>sv_i := (sv_i sv)\<lparr>sfi_direct := (sfi_direct (sv_i sv))[n := b]\<rparr>, sv_dirty := True\<rparr>"
      note g = grow_direct [OF 2(2) i n conjunct1 [OF True]]
      have "hand_back b ?sv s' = Ok (0, b, ?sv, s')" using 2(2) by (intro hand_back_spec) (simp_all add: allocated_def same_fs_def)
      then have "bmap_direct sv n alloc s = Ok (0, b, ?sv, s')" using True 2(1) by (simp add: bmap_direct_def)
      moreover have "mapped sv s n alloc (0, b, ?sv, s')"
        unfolding mapped_def using g 2(2) True nth by (auto simp: remapped_def allocated_def intro!: exI [of _ "{b}"])
      ultimately show thesis by (rule that)
    qed
  next
    case False
    have "hand_back ?b sv s = Ok (0, ?b, sv, s)" using file_ok_block [OF i, of n] n nth by (intro hand_back_spec [OF s]) simp
    then have "bmap_direct sv n alloc s = Ok (0, ?b, sv, s)" unfolding bmap_direct_def Let_def if_not_P [OF False] .
    moreover have "mapped sv s n alloc (0, ?b, sv, s)" using mapped_found [OF s i nth False] .
    ultimately show thesis by (rule that)
  qed
qed

lemma entry_maps:
  assumes s: "fs_ok s" and i: "file_ok s (sv_i sv)" and x: "sfi_indirect (sv_i sv) \<noteq> 0" and n: "n < 128"
  obtains y where "bmap_entry sv (sfi_indirect (sv_i sv)) (idwords (fs_data s) (sv_i sv)) n alloc s = Ok y" and "mapped sv s (15 + n) alloc y"
proof -
  let ?x = "sfi_indirect (sv_i sv)" and ?ws = "idwords (fs_data s) (sv_i sv)"
  let ?b = "?ws ! n"
  have nth: "fblocks (fs_data s) (sv_i sv) ! (15 + n) = ?b" using fblocks_indirect i n by (simp add: file_ok_def)
  have len: "length (words_bytes (?ws[n := b])) = SFS_BLOCKSIZE" for b by (simp add: idwords_def layout_defs)
  show thesis
  proof (cases "?b = 0 \<and> alloc")
    case True
    from s show thesis
    proof (cases rule: balloc_cases)
      case 1
      then show thesis using True that nth extended_refl [OF s i] by (simp add: bmap_entry_def mapped_def ENOSPC_def) blast
    next
      case (2 b s')
      have ok: "fs_ok s'" "?x < sp_nblocks (sfs_super s')" using 2(2) i x by (auto simp: allocated_def same_fs_def file_ok_def owned_def)
      obtain d where d: "fs_wblock (words_bytes (?ws[n := b])) ?x s' = Ok (0, s'\<lparr>sfs_device := d\<rparr>)"
        "io_done (sfs_device s') ((fs_data s')(?x := words_bytes (?ws[n := b]))) d" using fs_wblock_writes [OF ok len] by blast
      note g = grow_entry [OF 2(2) i refl x n conjunct1 [OF True] d(2)]
      have "hand_back b sv (s'\<lparr>sfs_device := d\<rparr>) = Ok (0, b, sv, s'\<lparr>sfs_device := d\<rparr>)"
        using 2(2) fs_ok_device [OF ok(1) d(2)] by (intro hand_back_spec) (simp_all add: allocated_def same_fs_def)
      then have "bmap_entry sv ?x ?ws n alloc s = Ok (0, b, sv, s'\<lparr>sfs_device := d\<rparr>)" using True 2(1) d(1) by (simp add: bmap_entry_def)
      moreover have "b \<noteq> ?x" using fresh_not_owned [OF 2(2) i] by simp
      then have "mapped sv s (15 + n) alloc (0, b, sv, s'\<lparr>sfs_device := d\<rparr>)"
        unfolding mapped_def using g 2(2) d(2) True nth by (auto simp: allocated_def io_done_def intro!: exI [of _ "{b}"])
      ultimately show thesis by (rule that)
    qed
  next
    case False
    have "hand_back ?b sv s = Ok (0, ?b, sv, s)" using file_ok_block [OF i, of "15 + n"] n nth by (intro hand_back_spec [OF s]) simp
    then have "bmap_entry sv ?x ?ws n alloc s = Ok (0, ?b, sv, s)" unfolding bmap_entry_def Let_def if_not_P [OF False] .
    moreover have "mapped sv s (15 + n) alloc (0, ?b, sv, s)" using mapped_found [OF s i nth False] .
    ultimately show thesis by (rule that)
  qed
qed

lemma mapped_step:
  assumes "extended s (sv_i sv) N s' (sv_i sv')" and "remapped sv sv'" and fb: "fblocks (fs_data s') (sv_i sv') = fblocks (fs_data s) (sv_i sv)"
    and hole: "fblocks (fs_data s) (sv_i sv) ! n = 0" and m: "mapped sv' s' n True y"
  shows "mapped sv s n True y"
proof -
  obtain r b sv'' s'' where y: "y = (r, b, sv'', s'')" by (cases y)
  from m obtain M where M: "extended s' (sv_i sv') M s'' (sv_i sv'')" "remapped sv' sv''"
    "if r = 0 then fblocks (fs_data s'') (sv_i sv'') = (fblocks (fs_data s) (sv_i sv))[n := b] \<and> b \<in> M \<and> b \<noteq> 0 \<and> fs_data s'' b = replicate SFS_BLOCKSIZE 0
      else r = ENOSPC \<and> fblocks (fs_data s'') (sv_i sv'') = fblocks (fs_data s) (sv_i sv) \<and> blocks_in_use s'' = {..<bm_cap (sfs_freemap s'')}"
    unfolding mapped_def y fb using hole by auto
  then show ?thesis unfolding mapped_def y
    using extended_trans [OF assms(1) M(1)] remapped_trans [OF assms(2) M(2)] hole by (auto split: if_splits)
qed

lemma indirect_maps:
  assumes s: "fs_ok s" and i: "file_ok s (sv_i sv)" and n: "n < 128"
  obtains y where "bmap_indirect sv n alloc s = Ok y" and "mapped sv s (15 + n) alloc y"
proof -
  let ?x = "sfi_indirect (sv_i sv)"
  have nth: "fblocks (fs_data s) (sv_i sv) ! (15 + n) = idwords (fs_data s) (sv_i sv) ! n" using fblocks_indirect i by (simp add: file_ok_def)
  consider (none) "?x = 0" "\<not> alloc" | (make) "?x = 0" "alloc" | (there) "?x \<noteq> 0" by blast
  then show thesis
  proof cases
    case none
    have "fblocks (fs_data s) (sv_i sv) ! (15 + n) = 0" using nth none n by (simp add: idwords_def layout_defs)
    from mapped_found [OF s i this] show thesis using that none by (simp add: bmap_indirect_def)
  next
    case make
    have hole: "fblocks (fs_data s) (sv_i sv) ! (15 + n) = 0" using nth make n by (simp add: idwords_def layout_defs)
    from s show thesis
    proof (cases rule: balloc_cases)
      case 1
      then show thesis using make that hole extended_refl [OF s i] by (simp add: bmap_indirect_def mapped_def ENOSPC_def) blast
    next
      case (2 b s')
      let ?sv = "sv\<lparr>sv_i := (sv_i sv)\<lparr>sfi_indirect := b\<rparr>, sv_dirty := True\<rparr>"
      note g = grow_indirect [OF 2(2) i make(1)]
      have b: "fs_ok s'" "file_ok s' (sv_i ?sv)" "sfi_indirect (sv_i ?sv) \<noteq> 0" using g(1) 2(2) by (simp_all add: extended_def allocated_def)
      obtain y where y: "bmap_entry ?sv (sfi_indirect (sv_i ?sv)) (idwords (fs_data s') (sv_i ?sv)) n alloc s' = Ok y" "mapped ?sv s' (15 + n) alloc y"
        by (rule entry_maps [OF b n, of alloc])
      then have "bmap_entry ?sv b (replicate SFS_DBPERIDB 0) n alloc s' = Ok y" using g(3) by simp
      note y = this y(2)
      have "mapped sv s (15 + n) True y" using hole g y(2) make(2) by (intro mapped_step [of s sv "{b}" s' ?sv]) (simp_all add: remapped_def)
      then show thesis using that y(1) 2(1) make by (simp add: bmap_indirect_def)
    qed
  next
    case there
    have "?x < sp_nblocks (sfs_super s)" using i there by (auto simp: file_ok_def owned_def)
    from fs_rblock_reads [OF s this] obtain d where d: "fs_rblock ?x s = Ok (0, fs_data s ?x, s\<lparr>sfs_device := d\<rparr>)" "io_done (sfs_device s) (fs_data s) d" .
    let ?s = "s\<lparr>sfs_device := d\<rparr>"
    have data: "fs_data ?s = fs_data s" using d(2) by (simp add: io_done_def)
    note e = extended_io [OF s i d(2)]
    have ok: "fs_ok ?s" "file_ok ?s (sv_i sv)" using e by (simp_all add: extended_def)
    obtain y where y: "bmap_entry sv ?x (idwords (fs_data s) (sv_i sv)) n alloc ?s = Ok y" "mapped sv ?s (15 + n) alloc y"
      using entry_maps [OF ok there n, of alloc] unfolding data .
    have "bmap_indirect sv n alloc s = Ok y" using there d(1) y(1) by (simp add: bmap_indirect_def idwords_def)
    moreover have "mapped sv s (15 + n) alloc y"
    proof -
      obtain r b sv' s' where q: "y = (r, b, sv', s')" by (cases y)
      have tr: "extended s (sv_i sv) M s'' i''" if "extended ?s (sv_i sv) M s'' i''" for M s'' i'' using extended_trans [OF e that] by simp
      from y(2) show ?thesis unfolding q mapped_def data prod.case using tr by blast
    qed
    ultimately show thesis by (rule that)
  qed
qed

lemma sfs_bmap_maps:
  assumes "fs_ok s" and "file_ok s (sv_i sv)" and "unat n < 143"
  obtains y where "sfs_bmap sv n alloc s = Ok y" and "mapped sv s (unat n) alloc y"
proof (cases "unat n < 15")
  case True
  then show ?thesis using direct_maps [OF assms(1,2) True, of alloc] that by (auto simp: sfs_bmap_def word_less_nat_alt layout_defs)
next
  case False
  have n: "unat (n - 15) = unat n - 15" using False by (simp add: unat_sub word_le_nat_alt)
  have "(n - 15) div 128 = 0" "unat ((n - 15) mod 128) = unat n - 15"
    using assms(3) n by (simp_all add: word_arith_nat_div unat_mod)
  then have "sfs_bmap sv n alloc s = bmap_indirect sv (unat n - 15) alloc s" using False by (simp add: sfs_bmap_def word_less_nat_alt layout_defs)
  moreover obtain y where "bmap_indirect sv (unat n - 15) alloc s = Ok y" "mapped sv s (15 + (unat n - 15)) alloc y"
    using assms(3) False by (elim indirect_maps [OF assms(1,2), of "unat n - 15" alloc, rotated]) simp
  ultimately show ?thesis using that False by simp
qed

lemma sfs_bmap_too_big:
  assumes "unat n \<ge> 143"
  shows "sfs_bmap sv n alloc s = Ok (EFBIG, 0, sv, s)"
proof -
  have n: "unat (n - 15) = unat n - 15" using assms by (simp add: unat_sub word_le_nat_alt)
  have "unat ((n - 15) div 128) > 0" using assms by (simp add: unat_div n div_greater_zero_iff)
  then show ?thesis using assms by (simp add: sfs_bmap_def word_less_nat_alt layout_defs)
qed

end
