(* ===== verification/SfsIo.thy ===== *)
theory SfsIo
  imports SfsMap
begin

text \<open>
  File-level I/O of SFS (\<^verbatim>\<open>kern/fs/sfs/sfs_vnode.c\<close>): partial blocks, whole blocks and regions. The
  theorems say what a read returns and what a write changes, byte by byte, for every offset and length, and
  where the arithmetic on offsets goes wrong.
\<close>

subsection \<open>Zeros\<close>

text \<open>\<open>uiomovezeros\<close> on a transfer: chunks of at most 16 bytes.\<close>

function (sequential) xzeros_loop :: "nat \<Rightarrow> xfer \<Rightarrow> int \<times> xfer" where
  "xzeros_loop n u =
     (if \<not> n > 0 then (0, u)
      else
        let amt = (if 16 > n then n else 16) in
        case xmove (replicate amt 0) u of (result, _, u) \<Rightarrow> if result \<noteq> 0 then (result, u) else xzeros_loop (n - amt) u)"
  by pat_completeness auto

termination xzeros_loop
  by (relation "measure fst") auto

declare xzeros_loop.simps [simp del]

definition xzeros :: "nat \<Rightarrow> xfer \<Rightarrow> (int \<times> xfer) run" where
  "xzeros n u = kassert (x_rw u = UIO_READ) (Ok (xzeros_loop n u))"

subsection \<open>Blocks of a file\<close>

definition sfs_partialio :: "sfs_vnode \<Rightarrow> xfer \<Rightarrow> nat \<Rightarrow> nat \<Rightarrow> sfs_fs \<Rightarrow> (int \<times> sfs_vnode \<times> xfer \<times> sfs_fs) run" where
  "sfs_partialio sv u skipstart len s =
     kassert (skipstart + len \<le> SFS_BLOCKSIZE)
      (bindR (sfs_bmap sv (of_nat (x_off u div SFS_BLOCKSIZE)) (x_rw u = UIO_WRITE) s) (\<lambda>(result, diskblock, sv, s).
        if result \<noteq> 0 then Ok (result, sv, u, s)
        else
          bindR (if diskblock = 0 then kassert (x_rw u = UIO_READ) (Ok (0, replicate SFS_BLOCKSIZE 0, s)) else fs_rblock diskblock s)
           (\<lambda>(result, iobuf, s).
             if result \<noteq> 0 then Ok (result, sv, u, s)
             else
               case xmove (take len (drop skipstart iobuf)) u of (result, part, u) \<Rightarrow>
                 if result \<noteq> 0 then Ok (result, sv, u, s)
                 else if x_rw u = UIO_WRITE then
                   bindR (fs_wblock (take skipstart iobuf @ part @ drop (skipstart + len) iobuf) diskblock s) (\<lambda>(result, s). Ok (result, sv, u, s))
                 else Ok (0, sv, u, s))))"

text \<open>The disk offset is computed in 32 bits.\<close>

definition sfs_blockio :: "sfs_vnode \<Rightarrow> xfer \<Rightarrow> sfs_fs \<Rightarrow> (int \<times> sfs_vnode \<times> xfer \<times> sfs_fs) run" where
  "sfs_blockio sv u s =
     bindR (sfs_bmap sv (of_nat (x_off u div SFS_BLOCKSIZE)) (x_rw u = UIO_WRITE) s) (\<lambda>(result, diskblock, sv, s).
       if result \<noteq> 0 then Ok (result, sv, u, s)
       else if diskblock = 0 then
         kassert (x_rw u = UIO_READ) (bindR (xzeros SFS_BLOCKSIZE u) (\<lambda>(result, u). Ok (result, sv, u, s)))
       else
         let saveoff = x_off u; diskoff = unat (diskblock * of_nat SFS_BLOCKSIZE); saveres = x_resid u in
         kassert (x_resid u \<ge> SFS_BLOCKSIZE)
          (bindR (fs_rwblock (u\<lparr>x_off := diskoff, x_resid := SFS_BLOCKSIZE\<rparr>) s) (\<lambda>(result, u, s).
            Ok (result, sv, u\<lparr>x_off := x_off u - diskoff + saveoff, x_resid := x_resid u + saveres - SFS_BLOCKSIZE\<rparr>, s))))"

fun blockio_loop :: "nat \<Rightarrow> sfs_vnode \<Rightarrow> xfer \<Rightarrow> sfs_fs \<Rightarrow> (int \<times> sfs_vnode \<times> xfer \<times> sfs_fs) run" where
  "blockio_loop 0 sv u s = Ok (0, sv, u, s)"
| "blockio_loop (Suc n) sv u s =
     bindR (sfs_blockio sv u s) (\<lambda>(result, sv, u, s). if result \<noteq> 0 then Ok (result, sv, u, s) else blockio_loop n sv u s)"

text \<open>The body of \<open>sfs_io\<close> up to the label \<open>out\<close>: a leading partial block, whole blocks, a trailing one.\<close>

definition io_tail :: "sfs_vnode \<Rightarrow> xfer \<Rightarrow> sfs_fs \<Rightarrow> (int \<times> sfs_vnode \<times> xfer \<times> sfs_fs) run" where
  "io_tail sv u s =
     (if x_resid u = 0 then Ok (0, sv, u, s)
      else
        kassert (x_off u mod SFS_BLOCKSIZE = 0)
         (bindR (blockio_loop (x_resid u div SFS_BLOCKSIZE) sv u s) (\<lambda>(result, sv, u, s).
           if result \<noteq> 0 then Ok (result, sv, u, s)
           else kassert (x_resid u < SFS_BLOCKSIZE) (if x_resid u > 0 then sfs_partialio sv u 0 (x_resid u) s else Ok (0, sv, u, s)))))"

definition io_body :: "sfs_vnode \<Rightarrow> xfer \<Rightarrow> sfs_fs \<Rightarrow> (int \<times> sfs_vnode \<times> xfer \<times> sfs_fs) run" where
  "io_body sv u s =
     (let blkoff = x_off u mod SFS_BLOCKSIZE in
      if blkoff \<noteq> 0 then
        bindR (sfs_partialio sv u blkoff (min (SFS_BLOCKSIZE - blkoff) (x_resid u)) s) (\<lambda>(result, sv, u, s).
          if result \<noteq> 0 then Ok (result, sv, u, s) else io_tail sv u s)
      else io_tail sv u s)"

text \<open>The size of a file that was written up to offset \<open>n\<close>.\<close>

definition sized :: "nat \<Rightarrow> sfs_vnode \<Rightarrow> sfs_vnode" where
  "sized n sv = (if n > unat (sfi_size (sv_i sv)) then sv\<lparr>sv_i := (sv_i sv)\<lparr>sfi_size := of_nat n\<rparr>, sv_dirty := True\<rparr> else sv)"

definition io_out :: "nat \<Rightarrow> int \<times> sfs_vnode \<times> xfer \<times> sfs_fs \<Rightarrow> (int \<times> sfs_vnode \<times> xfer \<times> sfs_fs) run" where
  "io_out extraresid = (\<lambda>(result, sv, u, s).
     Ok (result, if x_rw u = UIO_WRITE then sized (x_off u) sv else sv, u\<lparr>x_resid := x_resid u + extraresid\<rparr>, s))"

definition sfs_io :: "sfs_vnode \<Rightarrow> xfer \<Rightarrow> sfs_fs \<Rightarrow> (int \<times> sfs_vnode \<times> xfer \<times> sfs_fs) run" where
  "sfs_io sv u s =
     (if x_rw u = UIO_READ then
        let size = unat (sfi_size (sv_i sv)); endpos = x_off u + x_resid u in
        if x_off u \<ge> size then Ok (0, sv, u, s)
        else if endpos > size then
          let extraresid = (endpos - size) mod 2 ^ 32 in
          kassert (x_resid u > extraresid) (bindR (io_body sv (u\<lparr>x_resid := x_resid u - extraresid\<rparr>) s) (io_out extraresid))
        else bindR (io_body sv u s) (io_out 0)
      else bindR (io_body sv u s) (io_out 0))"

subsection \<open>Transfers\<close>

text \<open>A transfer whose copies do not fault.\<close>

definition steady :: "xfer \<Rightarrow> bool" where
  "steady u \<longleftrightarrow> set (x_moves u) \<subseteq> {0}"

lemma steady_next [simp]: "steady u \<Longrightarrow> next_result (x_moves u) = 0"
  by (cases "x_moves u") (auto simp: steady_def next_result_def)

lemma steady_tl [simp]: "steady u \<Longrightarrow> steady (u\<lparr>x_off := a, x_resid := b, x_data := c, x_moves := tl (x_moves u)\<rparr>)"
  by (cases "x_moves u") (auto simp: steady_def)

text \<open>\<open>x_read u bs\<close> and \<open>x_written u n\<close>: the transfer after \<open>bs\<close> was read, or the next \<open>n\<close> bytes were taken.\<close>

definition x_read :: "xfer \<Rightarrow> u8 list \<Rightarrow> xfer \<Rightarrow> bool" where
  "x_read u bs u' \<longleftrightarrow> x_rw u' = UIO_READ \<and> steady u' \<and> x_off u' = x_off u + length bs \<and> x_resid u = x_resid u' + length bs \<and> x_data u' = x_data u @ bs"

definition x_wrote :: "xfer \<Rightarrow> u8 list \<Rightarrow> xfer \<Rightarrow> bool" where
  "x_wrote u bs u' \<longleftrightarrow> x_rw u' = UIO_WRITE \<and> steady u' \<and> x_off u' = x_off u + length bs \<and> x_resid u = x_resid u' + length bs \<and> x_data u = bs @ x_data u'"

lemma x_read_trans: "x_read u bs u' \<Longrightarrow> x_read u' cs u'' \<Longrightarrow> x_read u (bs @ cs) u''"
  by (simp add: x_read_def)

lemma x_wrote_trans: "x_wrote u bs u' \<Longrightarrow> x_wrote u' cs u'' \<Longrightarrow> x_wrote u (bs @ cs) u''"
  by (simp add: x_wrote_def)

lemma xmove_nothing: "xmove [] u = (0, [], u)"
  by (cases u) (simp add: xmove_def Let_def)

lemma xmove_reads:
  assumes "steady u" and "x_rw u = UIO_READ" and "length buf \<le> x_resid u"
  obtains u' where "xmove buf u = (0, buf, u')" and "x_read u buf u'"
proof (cases "buf = []")
  case True
  then show ?thesis using that assms by (simp add: xmove_nothing x_read_def)
next
  case False
  let ?u = "u\<lparr>x_off := x_off u + length buf, x_resid := x_resid u - length buf, x_data := x_data u @ buf, x_moves := tl (x_moves u)\<rparr>"
  have n: "min (length buf) (x_resid u) = length buf" "length buf \<noteq> 0" using assms(3) False by simp_all
  have "xmove buf u = (0, buf, ?u)" unfolding xmove_def Let_def n(1) using n(2) assms by simp
  moreover have "x_read u buf ?u" using assms by (simp add: x_read_def)
  ultimately show ?thesis by (rule that)
qed

lemma xmove_writes:
  assumes "steady u" and "x_rw u = UIO_WRITE" and "length buf \<le> x_resid u" and "x_resid u \<le> length (x_data u)"
  obtains u' where "xmove buf u = (0, take (length buf) (x_data u), u')" and "x_wrote u (take (length buf) (x_data u)) u'"
proof (cases "buf = []")
  case True
  then show ?thesis using that assms by (simp add: xmove_nothing x_wrote_def)
next
  case False
  let ?u = "u\<lparr>x_off := x_off u + length buf, x_resid := x_resid u - length buf, x_data := drop (length buf) (x_data u), x_moves := tl (x_moves u)\<rparr>"
  have n: "min (length buf) (x_resid u) = length buf" "length buf \<noteq> 0" using assms(3) False by simp_all
  have "xmove buf u = (0, take (length buf) (x_data u), ?u)" unfolding xmove_def Let_def n(1) using n(2) assms by simp
  moreover have "x_wrote u (take (length buf) (x_data u)) ?u" using assms by (simp add: x_wrote_def)
  ultimately show ?thesis by (rule that)
qed

lemma xzeros_reads:
  assumes "steady u" and "x_rw u = UIO_READ" and "n \<le> x_resid u"
  shows "\<exists>u'. xzeros_loop n u = (0, u') \<and> x_read u (replicate n 0) u'"
  using assms
proof (induction n u rule: xzeros_loop.induct)
  case (1 n u)
  show ?case
  proof (cases "n > 0")
    case False
    then show ?thesis using 1 by (simp add: xzeros_loop.simps x_read_def)
  next
    case True
    let ?k = "if 16 > n then n else 16"
    obtain u' where u': "xmove (replicate ?k 0) u = (0, replicate ?k 0, u')" "x_read u (replicate ?k 0) u'"
      using 1(2-4) by (elim xmove_reads [of u "replicate ?k 0", rotated -1]) simp_all
    have "\<exists>u''. xzeros_loop (n - ?k) u' = (0, u'') \<and> x_read u' (replicate (n - ?k) 0) u''"
      using True u' 1(2-4) by (intro 1(1) [OF _ refl u'(1) [symmetric]]) (auto simp: x_read_def)
    then obtain u'' where u'': "xzeros_loop (n - ?k) u' = (0, u'')" "x_read u' (replicate (n - ?k) 0) u''" by blast
    have "?k + (n - ?k) = n" by simp
    then have "x_read u (replicate n 0) u''" using x_read_trans [OF u'(2) u''(2)] by (metis replicate_add)
    moreover have "xzeros_loop n u = (0, u'')" using True u'(1) u''(1) by (subst xzeros_loop.simps) (simp add: Let_def)
    ultimately show ?thesis by blast
  qed
qed

subsection \<open>What a step of a write changes\<close>

definition SFS_MAXFILE :: nat where [layout_defs]: "SFS_MAXFILE = 143 * SFS_BLOCKSIZE"

text \<open>
  \<open>io_wrote s sv off bs s' sv'\<close>: the file has \<open>bs\<close> at offset \<open>off\<close> and is otherwise the same; the blocks it
  gained were free; nothing else on the disk changed.
\<close>

definition same_inode :: "sfs_inode \<Rightarrow> sfs_inode \<Rightarrow> bool" where
  "same_inode i i' \<longleftrightarrow> sfi_size i' = sfi_size i \<and> sfi_type i' = sfi_type i \<and> sfi_linkcount i' = sfi_linkcount i \<and> sfi_waste i' = sfi_waste i"

definition io_wrote :: "sfs_fs \<Rightarrow> sfs_vnode \<Rightarrow> nat \<Rightarrow> u8 list \<Rightarrow> sfs_fs \<Rightarrow> sfs_vnode \<Rightarrow> bool" where
  "io_wrote s sv off bs s' sv' \<longleftrightarrow> fs_ok s' \<and> file_ok s' (sv_i sv') \<and> same_fs s s' \<and> remapped sv sv' \<and> same_inode (sv_i sv) (sv_i sv')
     \<and> owned (fs_data s) (sv_i sv) \<subseteq> owned (fs_data s') (sv_i sv')
     \<and> blocks_in_use s' = blocks_in_use s \<union> unat ` (owned (fs_data s') (sv_i sv') - owned (fs_data s) (sv_i sv))
     \<and> unat ` (owned (fs_data s') (sv_i sv') - owned (fs_data s) (sv_i sv)) \<inter> blocks_in_use s = {}
     \<and> (\<forall>b. b \<notin> owned (fs_data s') (sv_i sv') \<longrightarrow> fs_data s' b = fs_data s b)
     \<and> (\<forall>m<SFS_MAXFILE. file_byte (fs_data s') (sv_i sv') m = (if off \<le> m \<and> m < off + length bs then bs ! (m - off) else file_byte (fs_data s) (sv_i sv) m))"

lemma io_wrote_trans:
  assumes a: "io_wrote s sv off bs s' sv'" and b: "io_wrote s' sv' (off + length bs) cs s'' sv''"
  shows "io_wrote s sv off (bs @ cs) s'' sv''"
proof -
  let ?o = "owned (fs_data s) (sv_i sv)" and ?o' = "owned (fs_data s') (sv_i sv')" and ?o'' = "owned (fs_data s'') (sv_i sv'')"
  have o: "?o \<subseteq> ?o'" "?o' \<subseteq> ?o''" "blocks_in_use s' = blocks_in_use s \<union> unat ` (?o' - ?o)" "unat ` (?o' - ?o) \<inter> blocks_in_use s = {}"
    "blocks_in_use s'' = blocks_in_use s' \<union> unat ` (?o'' - ?o')" "unat ` (?o'' - ?o') \<inter> blocks_in_use s' = {}"
    using a b by (simp_all add: io_wrote_def)
  have split: "?o'' - ?o = (?o' - ?o) \<union> (?o'' - ?o')" using o(1,2) by blast
  have "blocks_in_use s'' = blocks_in_use s \<union> unat ` (?o'' - ?o)" "unat ` (?o'' - ?o) \<inter> blocks_in_use s = {}"
    unfolding split image_Un using o(3-6) by blast+
  moreover have "fs_data s'' x = fs_data s x" if "x \<notin> ?o''" for x
  proof -
    have "fs_data s'' x = fs_data s' x" using b that by (simp add: io_wrote_def)
    also have "\<dots> = fs_data s x" using a that o(2) unfolding io_wrote_def by blast
    finally show ?thesis .
  qed
  moreover have "file_byte (fs_data s'') (sv_i sv'') m = (if off \<le> m \<and> m < off + length (bs @ cs) then (bs @ cs) ! (m - off) else file_byte (fs_data s) (sv_i sv) m)"
    if "m < SFS_MAXFILE" for m
  proof -
    have 1: "file_byte (fs_data s'') (sv_i sv'') m
        = (if off + length bs \<le> m \<and> m < off + length bs + length cs then cs ! (m - (off + length bs)) else file_byte (fs_data s') (sv_i sv') m)"
      using b that by (simp add: io_wrote_def)
    have 2: "file_byte (fs_data s') (sv_i sv') m = (if off \<le> m \<and> m < off + length bs then bs ! (m - off) else file_byte (fs_data s) (sv_i sv) m)"
      using a that by (simp add: io_wrote_def)
    show ?thesis unfolding 1 2 by (auto simp: nth_append)
  qed
  moreover have same: "same_fs s s'" "same_fs s' s''" "remapped sv sv'" "remapped sv' sv''" "same_inode (sv_i sv) (sv_i sv')" "same_inode (sv_i sv') (sv_i sv'')"
    and ok: "fs_ok s''" "file_ok s'' (sv_i sv'')" using a b by (simp_all add: io_wrote_def)
  have "same_fs s s''" "remapped sv sv''" "same_inode (sv_i sv) (sv_i sv'')"
    using same_fs_trans [OF same(1,2)] remapped_trans [OF same(3,4)] same(5,6) by (simp_all add: same_inode_def)
  moreover have "?o \<subseteq> ?o''" using o(1,2) by simp
  ultimately show ?thesis using ok unfolding io_wrote_def by simp
qed

lemma io_wrote_refl: "fs_ok s \<Longrightarrow> file_ok s (sv_i sv) \<Longrightarrow> io_wrote s sv off [] s sv"
  by (auto simp: io_wrote_def same_inode_def)

text \<open>Distinct positions of a well-formed file are distinct blocks.\<close>

lemma filter_nth_distinct:
  assumes "distinct (filter P xs)" and "a < length xs" and "b < length xs" and "xs ! a = xs ! b" and "P (xs ! a)"
  shows "a = b"
  using assms
proof (induction xs arbitrary: a b)
  case (Cons x xs)
  show ?case
  proof (cases a)
    case 0
    then show ?thesis using Cons.prems by (cases b) (auto split: if_splits)
  next
    case (Suc k)
    then show ?thesis using Cons by (cases b) (auto split: if_splits)
  qed
qed simp

lemma fblocks_inj:
  assumes "file_ok s i" and "a < 143" and "b < 143" and "fblocks (fs_data s) i ! a = fblocks (fs_data s) i ! b" and "fblocks (fs_data s) i ! a \<noteq> 0"
  shows "a = b"
  using filter_nth_distinct [of "\<lambda>b. b \<noteq> 0" "sfi_indirect i # fblocks (fs_data s) i" "Suc a" "Suc b"] assms by (simp add: file_ok_def)

lemma fblocks_not_indirect:
  assumes "file_ok s i" and "a < 143" and "fblocks (fs_data s) i ! a \<noteq> 0"
  shows "fblocks (fs_data s) i ! a \<noteq> sfi_indirect i"
  using filter_nth_distinct [of "\<lambda>b. b \<noteq> 0" "sfi_indirect i # fblocks (fs_data s) i" "Suc a" 0] assms by (auto simp: file_ok_def)

lemma extended_fresh: "fs_ok s \<Longrightarrow> extended s i new s' i' \<Longrightarrow> 0 \<notin> new"
  by (force simp: extended_def fs_ok_def)

lemma extended_apart: "file_ok s i \<Longrightarrow> extended s i new s' i' \<Longrightarrow> new \<inter> owned (fs_data s) i = {}"
  by (auto simp: extended_def file_ok_def)

text \<open>A block of the file that a mapping step leaves in place keeps its contents.\<close>

lemma extended_keeps:
  assumes "file_ok s i" and "extended s i new s' i'" and "n < 143" and "fblocks (fs_data s) i ! n \<noteq> 0"
  shows "fs_data s' (fblocks (fs_data s) i ! n) = fs_data s (fblocks (fs_data s) i ! n)"
proof -
  have "fblocks (fs_data s) i ! n \<in> owned (fs_data s) i" using assms owned_nth by (simp add: file_ok_def)
  then have "fblocks (fs_data s) i ! n \<notin> new" using extended_apart [OF assms(1,2)] by blast
  then show ?thesis using assms(2) fblocks_not_indirect [OF assms(1,3,4)] by (simp add: extended_def)
qed

lemma mapped_bytes:
  assumes i: "file_ok s (sv_i sv)" and m: "mapped sv s n alloc (r, b, sv', s')" and n: "n < 143" and k: "k < SFS_MAXFILE"
  shows "file_byte (fs_data s') (sv_i sv') k = file_byte (fs_data s) (sv_i sv) k"
proof -
  let ?fb = "fblocks (fs_data s) (sv_i sv)" and ?q = "k div SFS_BLOCKSIZE"
  from m obtain new where e: "extended s (sv_i sv) new s' (sv_i sv')" by (auto simp: mapped_def)
  have q: "?q < 143" using k by (simp add: layout_defs less_mult_imp_div_less)
  have len: "length ?fb = 143" using i by (simp add: file_ok_def)
  have r: "k mod SFS_BLOCKSIZE < SFS_BLOCKSIZE" by (simp add: layout_defs)
  show ?thesis
  proof (cases "r = 0 \<and> ?q = n \<and> ?fb ! n = 0 \<and> alloc")
    case True
    then have "fblocks (fs_data s') (sv_i sv') = ?fb[n := b]" "b \<noteq> 0" "fs_data s' b = replicate SFS_BLOCKSIZE 0"
      using m by (auto simp: mapped_def)
    then show ?thesis using True len n r by (simp add: file_byte_def Let_def)
  next
    case False
    have "fblocks (fs_data s') (sv_i sv') ! ?q = ?fb ! ?q"
    proof (cases "r = 0")
      case True
      then have "fblocks (fs_data s') (sv_i sv') = ?fb[n := b]" using m by (auto simp: mapped_def)
      moreover have "b = ?fb ! n" if "?q = n" using m False True that by (auto simp: mapped_def)
      ultimately show ?thesis using len n by (cases "?q = n") simp_all
    next
      case False
      then show ?thesis using m by (auto simp: mapped_def)
    qed
    then show ?thesis using extended_keeps [OF i e q] by (simp add: file_byte_def Let_def)
  qed
qed

lemma mapped_wrote:
  assumes s: "fs_ok s" and i: "file_ok s (sv_i sv)" and m: "mapped sv s n alloc (r, b, sv', s')" and n: "n < 143"
  shows "io_wrote s sv off [] s' sv'"
proof -
  from m obtain new where e: "extended s (sv_i sv) new s' (sv_i sv')" "remapped sv sv'" by (auto simp: mapped_def)
  have o: "owned (fs_data s') (sv_i sv') = owned (fs_data s) (sv_i sv) \<union> new" using e(1) by (simp add: extended_def)
  then have d: "owned (fs_data s') (sv_i sv') - owned (fs_data s) (sv_i sv) = new" using extended_apart [OF i e(1)] by blast
  have "fs_data s' x = fs_data s x" if "x \<notin> owned (fs_data s') (sv_i sv')" for x
  proof -
    have "x \<notin> new" "x = 0 \<or> x \<noteq> sfi_indirect (sv_i sv)" using that o by (auto simp: owned_def)
    then show ?thesis by (rule extended_same [OF e(1)])
  qed
  moreover have "file_byte (fs_data s') (sv_i sv') k = file_byte (fs_data s) (sv_i sv) k" if "k < SFS_MAXFILE" for k
    using mapped_bytes [OF i m n that] .
  ultimately show ?thesis unfolding io_wrote_def d using e o by (auto simp: extended_def same_inode_def)
qed

text \<open>Overwriting part of a block of the file.\<close>

lemma block_wrote:
  assumes s: "fs_ok s" and i: "file_ok s (sv_i sv)" and n: "n < 143" and b: "fblocks (fs_data s) (sv_i sv) ! n = b" "b \<noteq> 0"
    and bs: "skip + length bs \<le> SFS_BLOCKSIZE"
    and d: "io_done (sfs_device s) ((fs_data s)(b := take skip (fs_data s b) @ bs @ drop (skip + length bs) (fs_data s b))) d"
  shows "io_wrote s sv (n * SFS_BLOCKSIZE + skip) bs (s\<lparr>sfs_device := d\<rparr>) sv"
proof -
  let ?s = "s\<lparr>sfs_device := d\<rparr>" and ?i = "sv_i sv"
  let ?f = "fs_data s" and ?c = "take skip (fs_data s b) @ bs @ drop (skip + length bs) (fs_data s b)"
  have data: "fs_data ?s = ?f(b := ?c)" using d by (simp add: io_done_def)
  have len: "length (?f b) = SFS_BLOCKSIZE" using s by (simp add: fs_ok_def disk_ok_def)
  have ni: "b \<noteq> sfi_indirect ?i" using fblocks_not_indirect [OF i n] b by simp
  have "idwords (fs_data ?s) ?i = idwords ?f ?i" unfolding data using ni by (intro idwords_cong) auto
  then have fb: "fblocks (fs_data ?s) ?i = fblocks ?f ?i" by (simp add: fblocks_def)
  then have own: "owned (fs_data ?s) ?i = owned ?f ?i" by (simp add: owned_def)
  have ok: "fs_ok ?s" "file_ok ?s ?i" using fs_ok_device [OF s d] i fb own by (simp_all add: file_ok_def)
  note fb' = fb [unfolded data]
  have bo: "b \<in> owned ?f ?i" using owned_nth [of ?i n ?f] i n b by (simp add: file_ok_def)
  have "file_byte (fs_data ?s) ?i m = (if n * SFS_BLOCKSIZE + skip \<le> m \<and> m < n * SFS_BLOCKSIZE + skip + length bs
      then bs ! (m - (n * SFS_BLOCKSIZE + skip)) else file_byte ?f ?i m)" if m: "m < SFS_MAXFILE" for m
  proof -
    let ?q = "m div SFS_BLOCKSIZE"
    have q: "?q < 143" using m by (simp add: layout_defs less_mult_imp_div_less)
    show ?thesis
    proof (cases "?q = n")
      case True
      then obtain j where j: "m = n * SFS_BLOCKSIZE + j" "m mod SFS_BLOCKSIZE = j" "j < SFS_BLOCKSIZE"
        using div_mult_mod_eq [of m SFS_BLOCKSIZE] mod_less_divisor [of SFS_BLOCKSIZE m] by (metis SFS_BLOCKSIZE_def zero_less_numeral)
      have "file_byte (fs_data ?s) ?i m = ?c ! j" "file_byte ?f ?i m = ?f b ! j"
        unfolding file_byte_def data fb' Let_def j(2) using True b by simp_all
      moreover have "?c ! j = (if skip \<le> j \<and> j < skip + length bs then bs ! (j - skip) else ?f b ! j)" if "j < SFS_BLOCKSIZE" for j
        using bs len that by (auto simp: nth_append)
      ultimately show ?thesis using j(3) unfolding j(1) by auto
    next
      case False
      have "fblocks ?f ?i ! ?q \<noteq> b \<or> b = 0" using fblocks_inj [OF i q n] b False by auto
      then have "file_byte (fs_data ?s) ?i m = file_byte ?f ?i m" unfolding file_byte_def data fb' Let_def using b(2) by auto
      moreover have "\<not> (n * SFS_BLOCKSIZE + skip \<le> m \<and> m < n * SFS_BLOCKSIZE + skip + length bs)"
        using False bs by (auto simp: layout_defs)
      ultimately show ?thesis by metis
    qed
  qed
  then show ?thesis using ok own bo d unfolding io_wrote_def data
    by (auto simp: same_fs_def same_inode_def io_done_def)
qed

subsection \<open>Reading\<close>

definition undisturbed :: "sfs_fs \<Rightarrow> sfs_fs \<Rightarrow> bool" where
  "undisturbed s s' \<longleftrightarrow> fs_ok s' \<and> same_fs s s' \<and> blocks_in_use s' = blocks_in_use s \<and> fs_data s' = fs_data s"

lemma undisturbed_refl: "fs_ok s \<Longrightarrow> undisturbed s s"
  by (simp add: undisturbed_def)

lemma undisturbed_trans: "undisturbed s s' \<Longrightarrow> undisturbed s' s'' \<Longrightarrow> undisturbed s s''"
  using same_fs_trans by (auto simp: undisturbed_def)

lemma undisturbed_file: "undisturbed s s' \<Longrightarrow> file_ok s i \<Longrightarrow> file_ok s' i"
  by (simp add: undisturbed_def file_ok_def same_fs_def)

lemma undisturbed_io: "fs_ok s \<Longrightarrow> io_done (sfs_device s) (fs_data s) d \<Longrightarrow> undisturbed s (s\<lparr>sfs_device := d\<rparr>)"
  using fs_ok_device [of s "fs_data s" d] by (simp add: undisturbed_def same_fs_def io_done_def)

lemma fileblock_of: "off < SFS_MAXFILE \<Longrightarrow> unat (of_nat (off div SFS_BLOCKSIZE) :: u32) = off div SFS_BLOCKSIZE \<and> off div SFS_BLOCKSIZE < 143"
  by (simp add: layout_defs less_mult_imp_div_less unat_of_nat)

lemma bmap_read:
  assumes s: "fs_ok s" and i: "file_ok s (sv_i sv)" and off: "off < SFS_MAXFILE"
  obtains s' where "sfs_bmap sv (of_nat (off div SFS_BLOCKSIZE)) False s = Ok (0, fblocks (fs_data s) (sv_i sv) ! (off div SFS_BLOCKSIZE), sv, s')"
    and "undisturbed s s'"
proof -
  note n = fileblock_of [OF off]
  then have "unat (of_nat (off div SFS_BLOCKSIZE) :: u32) < 143" by simp
  then obtain y where y: "sfs_bmap sv (of_nat (off div SFS_BLOCKSIZE)) False s = Ok y" "mapped sv s (unat (of_nat (off div SFS_BLOCKSIZE) :: u32)) False y"
    by (rule sfs_bmap_maps [OF s i])
  obtain r b sv' s' where yy: "y = (r, b, sv', s')" by (cases y)
  have "r = 0" "sv' = sv" "b = fblocks (fs_data s) (sv_i sv) ! (off div SFS_BLOCKSIZE)" "undisturbed s s'"
    using y(2) n unfolding yy mapped_def by (auto simp: undisturbed_def extended_def split: if_splits)
  then show thesis using that y(1) yy by simp
qed

definition file_read :: "(u32 \<Rightarrow> u8 list) \<Rightarrow> sfs_inode \<Rightarrow> nat \<Rightarrow> nat \<Rightarrow> u8 list" where
  "file_read f i off n = map (file_byte f i) [off..<off + n]"

lemma file_read_length [simp]: "length (file_read f i off n) = n"
  by (simp add: file_read_def)

lemma file_read_split: "file_read f i off (m + n) = file_read f i off m @ file_read f i (off + m) n"
  unfolding file_read_def add.assoc [symmetric] upt_add_eq_append [OF le_add1] by simp

lemma div_add_small: "a mod b + k < b \<Longrightarrow> (a + k) div b = a div b \<and> (a + k) mod b = a mod b + (k :: nat)"
proof -
  assume "a mod b + k < b"
  moreover have "a + k = (a mod b + k) + a div b * b" using div_mult_mod_eq [of a b] by simp
  ultimately show ?thesis by (metis add.commute add_0 div_less div_mult_self3 mod_less mod_mult_self1 not_less_zero)
qed

lemma file_read_block:
  assumes "off mod SFS_BLOCKSIZE + len \<le> SFS_BLOCKSIZE" and "length (f (fblocks f i ! (off div SFS_BLOCKSIZE))) = SFS_BLOCKSIZE"
  shows "file_read f i off len = take len (drop (off mod SFS_BLOCKSIZE)
    (if fblocks f i ! (off div SFS_BLOCKSIZE) = 0 then replicate SFS_BLOCKSIZE 0 else f (fblocks f i ! (off div SFS_BLOCKSIZE))))"
proof (rule nth_equalityI)
  fix k
  assume "k < length (file_read f i off len)"
  then have k: "k < len" by simp
  then have "(off + k) div SFS_BLOCKSIZE = off div SFS_BLOCKSIZE" "(off + k) mod SFS_BLOCKSIZE = off mod SFS_BLOCKSIZE + k"
    using div_add_small [of off SFS_BLOCKSIZE k] assms(1) by simp_all
  then show "file_read f i off len ! k = take len (drop (off mod SFS_BLOCKSIZE)
    (if fblocks f i ! (off div SFS_BLOCKSIZE) = 0 then replicate SFS_BLOCKSIZE 0 else f (fblocks f i ! (off div SFS_BLOCKSIZE)))) ! k"
    using k assms by (simp add: file_read_def file_byte_def Let_def)
qed (use assms in simp)

lemma partial_reads:
  assumes s: "fs_ok s" and i: "file_ok s (sv_i sv)" and u: "steady u" "x_rw u = UIO_READ" "len \<le> x_resid u"
    and off: "x_off u < SFS_MAXFILE" "x_off u mod SFS_BLOCKSIZE + len \<le> SFS_BLOCKSIZE"
  shows "\<exists>u' s'. sfs_partialio sv u (x_off u mod SFS_BLOCKSIZE) len s = Ok (0, sv, u', s') \<and> undisturbed s s'
    \<and> x_read u (file_read (fs_data s) (sv_i sv) (x_off u) len) u'"
proof -
  let ?b = "fblocks (fs_data s) (sv_i sv) ! (x_off u div SFS_BLOCKSIZE)"
  let ?buf = "if ?b = 0 then replicate SFS_BLOCKSIZE 0 else fs_data s ?b"
  obtain s' where s': "sfs_bmap sv (of_nat (x_off u div SFS_BLOCKSIZE)) False s = Ok (0, ?b, sv, s')" "undisturbed s s'" by (rule bmap_read [OF s i off(1)])
  have buf: "\<exists>s''. (if ?b = 0 then kassert (x_rw u = UIO_READ) (Ok (0, replicate SFS_BLOCKSIZE 0, s')) else fs_rblock ?b s') = Ok (0, ?buf, s'') \<and> undisturbed s s''"
  proof (cases "?b = 0")
    case True
    then show ?thesis using s'(2) u(2) by (simp add: kassert_def)
  next
    case False
    have "?b < sp_nblocks (sfs_super s')" using file_ok_block [OF i _ False] fileblock_of [OF off(1)] s'(2) by (simp add: undisturbed_def same_fs_def)
    moreover have ok: "fs_ok s'" using s'(2) by (simp add: undisturbed_def)
    ultimately obtain d where "fs_rblock ?b s' = Ok (0, fs_data s' ?b, s'\<lparr>sfs_device := d\<rparr>)" "io_done (sfs_device s') (fs_data s') d" by (elim fs_rblock_reads)
    moreover have "undisturbed s (s'\<lparr>sfs_device := d\<rparr>)" using undisturbed_trans [OF s'(2) undisturbed_io [OF ok]] calculation(2) .
    moreover have "fs_data s' = fs_data s" using s'(2) by (simp add: undisturbed_def)
    ultimately show ?thesis using False by simp
  qed
  then obtain s'' where s'': "(if ?b = 0 then kassert (x_rw u = UIO_READ) (Ok (0, replicate SFS_BLOCKSIZE 0, s')) else fs_rblock ?b s') = Ok (0, ?buf, s'')"
    "undisturbed s s''" by blast
  have len: "length (fs_data s ?b) = SFS_BLOCKSIZE" using s by (simp add: fs_ok_def disk_ok_def)
  have rd: "take len (drop (x_off u mod SFS_BLOCKSIZE) ?buf) = file_read (fs_data s) (sv_i sv) (x_off u) len"
    using file_read_block [OF off(2), of "fs_data s" "sv_i sv"] len by simp
  have "length (file_read (fs_data s) (sv_i sv) (x_off u) len) \<le> x_resid u" using u(3) by simp
  then obtain u' where u': "xmove (file_read (fs_data s) (sv_i sv) (x_off u) len) u = (0, file_read (fs_data s) (sv_i sv) (x_off u) len, u')"
    "x_read u (file_read (fs_data s) (sv_i sv) (x_off u) len) u'" by (rule xmove_reads [OF u(1,2)])
  have "sfs_partialio sv u (x_off u mod SFS_BLOCKSIZE) len s = Ok (0, sv, u', s'')"
    using u(2) off(2) s'(1) s''(1) u' unfolding sfs_partialio_def by (simp add: kassert_def rd x_read_def del: if_split)
  then show ?thesis using s''(2) u'(2) by blast
qed

text \<open>Whole blocks are moved straight to the device, at an offset that must fit in 32 bits.\<close>

definition addressable :: "sfs_fs \<Rightarrow> bool" where
  "addressable s \<longleftrightarrow> unat (sp_nblocks (sfs_super s)) \<le> 2 ^ 23"

lemma addressable_same: "addressable s \<Longrightarrow> same_fs s s' \<Longrightarrow> addressable s'"
  by (simp add: addressable_def same_fs_def)

lemma block_offset: "addressable s \<Longrightarrow> b < sp_nblocks (sfs_super s) \<Longrightarrow> unat (b * of_nat SFS_BLOCKSIZE) = unat b * SFS_BLOCKSIZE"
  by (simp add: addressable_def unat_word_ariths word_less_nat_alt layout_defs)

lemma block_reads:
  assumes s: "fs_ok s" "addressable s" and i: "file_ok s (sv_i sv)" and u: "steady u" "x_rw u = UIO_READ" "SFS_BLOCKSIZE \<le> x_resid u"
    and off: "x_off u < SFS_MAXFILE" "x_off u mod SFS_BLOCKSIZE = 0"
  shows "\<exists>u' s'. sfs_blockio sv u s = Ok (0, sv, u', s') \<and> undisturbed s s' \<and> x_read u (file_read (fs_data s) (sv_i sv) (x_off u) SFS_BLOCKSIZE) u'"
proof -
  let ?b = "fblocks (fs_data s) (sv_i sv) ! (x_off u div SFS_BLOCKSIZE)"
  obtain s' where s': "sfs_bmap sv (of_nat (x_off u div SFS_BLOCKSIZE)) False s = Ok (0, ?b, sv, s')" "undisturbed s s'"
    by (rule bmap_read [OF s(1) i off(1)])
  have ok: "fs_ok s'" "fs_data s' = fs_data s" "same_fs s s'" using s'(2) by (simp_all add: undisturbed_def)
  have len: "length (fs_data s ?b) = SFS_BLOCKSIZE" using s(1) by (simp add: fs_ok_def disk_ok_def)
  have rd: "file_read (fs_data s) (sv_i sv) (x_off u) SFS_BLOCKSIZE = (if ?b = 0 then replicate SFS_BLOCKSIZE 0 else fs_data s ?b)"
    using file_read_block [of "x_off u" SFS_BLOCKSIZE "fs_data s" "sv_i sv"] len off(2) by simp
  show ?thesis
  proof (cases "?b = 0")
    case True
    obtain u' where "xzeros_loop SFS_BLOCKSIZE u = (0, u')" "x_read u (replicate SFS_BLOCKSIZE 0) u'" using xzeros_reads [OF u] by blast
    then show ?thesis using True s' u(2) rd by (simp add: sfs_blockio_def xzeros_def kassert_def)
  next
    case False
    have b: "?b < sp_nblocks (sfs_super s')" using file_ok_block [OF i _ False] fileblock_of [OF off(1)] ok(3) by (simp add: same_fs_def)
    then have bd: "?b < d_blocks (sfs_device s')" using ok(1) by (auto simp: fs_ok_def)
    let ?u = "u\<lparr>x_off := unat (?b * of_nat SFS_BLOCKSIZE), x_resid := SFS_BLOCKSIZE\<rparr>"
    have at: "x_off ?u = unat ?b * SFS_BLOCKSIZE" using block_offset [OF addressable_same [OF s(2) ok(3)] b] by simp
    obtain d where d: "sfs_rwblock ?u (sfs_device s') = Ok (0, ?u\<lparr>x_off := x_off ?u + SFS_BLOCKSIZE, x_resid := 0,
        x_data := x_data ?u @ fs_data s' ?b, x_moves := tl (x_moves ?u)\<rparr>, d)" "io_done (sfs_device s') (fs_data s') d"
      using rwblock_reads [OF _ _ bd, of ?u] ok(1) at u(1,2) by (auto simp: fs_ok_def)
    let ?v = "u\<lparr>x_off := x_off u + SFS_BLOCKSIZE, x_resid := x_resid u - SFS_BLOCKSIZE, x_data := x_data u @ fs_data s ?b, x_moves := tl (x_moves u)\<rparr>"
    have "sfs_blockio sv u s = Ok (0, sv, ?v, s'\<lparr>sfs_device := d\<rparr>)"
      using s'(1) u(2,3) False d(1) ok(2) by (simp add: sfs_blockio_def kassert_def fs_rwblock_def Let_def)
    moreover have "x_read u (file_read (fs_data s) (sv_i sv) (x_off u) SFS_BLOCKSIZE) ?v" using u rd False len by (simp add: x_read_def)
    moreover have "undisturbed s (s'\<lparr>sfs_device := d\<rparr>)" using undisturbed_trans [OF s'(2) undisturbed_io [OF ok(1) d(2)]] .
    ultimately show ?thesis by blast
  qed
qed

lemma blocks_read:
  assumes "fs_ok s" "addressable s" and "file_ok s (sv_i sv)" and "steady u" "x_rw u = UIO_READ" "n * SFS_BLOCKSIZE \<le> x_resid u"
    and "x_off u + n * SFS_BLOCKSIZE \<le> SFS_MAXFILE" "x_off u mod SFS_BLOCKSIZE = 0"
  shows "\<exists>u' s'. blockio_loop n sv u s = Ok (0, sv, u', s') \<and> undisturbed s s' \<and> x_read u (file_read (fs_data s) (sv_i sv) (x_off u) (n * SFS_BLOCKSIZE)) u'"
  using assms
proof (induction n arbitrary: u s)
  case 0
  then show ?case using undisturbed_refl by (simp add: file_read_def x_read_def)
next
  case (Suc n)
  have off: "SFS_BLOCKSIZE \<le> x_resid u" "x_off u < SFS_MAXFILE" using Suc.prems by (simp_all add: layout_defs)
  obtain u' s' where 1: "sfs_blockio sv u s = Ok (0, sv, u', s')" "undisturbed s s'" "x_read u (file_read (fs_data s) (sv_i sv) (x_off u) SFS_BLOCKSIZE) u'"
    using block_reads [OF Suc.prems(1-5) off Suc.prems(8)] by blast
  have s': "fs_ok s'" "addressable s'" "file_ok s' (sv_i sv)" "fs_data s' = fs_data s"
    using 1(2) Suc.prems(2,3) addressable_same undisturbed_file by (auto simp: undisturbed_def)
  have u': "steady u'" "x_rw u' = UIO_READ" "x_off u' = x_off u + SFS_BLOCKSIZE" "x_resid u = x_resid u' + SFS_BLOCKSIZE"
    using 1(3) by (simp_all add: x_read_def)
  have "n * SFS_BLOCKSIZE \<le> x_resid u'" "x_off u' + n * SFS_BLOCKSIZE \<le> SFS_MAXFILE" "x_off u' mod SFS_BLOCKSIZE = 0"
    using u' Suc.prems(6-8) by simp_all
  from Suc.IH [OF s'(1-3) u'(1,2) this] obtain u'' s'' where 2: "blockio_loop n sv u' s' = Ok (0, sv, u'', s'')" "undisturbed s' s''"
    "x_read u' (file_read (fs_data s) (sv_i sv) (x_off u + SFS_BLOCKSIZE) (n * SFS_BLOCKSIZE)) u''" unfolding s'(4) u'(3) by blast
  then show ?case using 1 undisturbed_trans [OF 1(2) 2(2)] x_read_trans [OF 1(3) 2(3)] by (simp add: file_read_split)
qed

lemma block_up: "(n + (SFS_BLOCKSIZE - n mod SFS_BLOCKSIZE)) mod SFS_BLOCKSIZE = 0"
  by (subst mod_add_left_eq [symmetric]) (simp add: layout_defs)

lemma tail_reads:
  assumes s: "fs_ok s" "addressable s" and i: "file_ok s (sv_i sv)" and u: "steady u" "x_rw u = UIO_READ"
    and off: "x_off u + x_resid u \<le> SFS_MAXFILE" "x_resid u = 0 \<or> x_off u mod SFS_BLOCKSIZE = 0"
  shows "\<exists>u' s'. io_tail sv u s = Ok (0, sv, u', s') \<and> undisturbed s s' \<and> x_read u (file_read (fs_data s) (sv_i sv) (x_off u) (x_resid u)) u'"
proof (cases "x_resid u = 0")
  case True
  then show ?thesis using u undisturbed_refl [OF s(1)] by (simp add: io_tail_def x_read_def file_read_def)
next
  case False
  let ?n = "x_resid u div SFS_BLOCKSIZE" and ?r = "x_resid u mod SFS_BLOCKSIZE"
  have n: "?n * SFS_BLOCKSIZE + ?r = x_resid u" "?r < SFS_BLOCKSIZE" by (simp_all add: layout_defs)
  have al: "x_off u mod SFS_BLOCKSIZE = 0" using False off(2) by simp
  have "?n * SFS_BLOCKSIZE \<le> x_resid u" "x_off u + ?n * SFS_BLOCKSIZE \<le> SFS_MAXFILE" using n off(1) by linarith+
  from blocks_read [OF s i u this al] obtain u' s' where 1: "blockio_loop ?n sv u s = Ok (0, sv, u', s')" "undisturbed s s'"
    "x_read u (file_read (fs_data s) (sv_i sv) (x_off u) (?n * SFS_BLOCKSIZE)) u'" by blast
  have s': "fs_ok s'" "file_ok s' (sv_i sv)" "fs_data s' = fs_data s" using 1(2) i undisturbed_file by (auto simp: undisturbed_def)
  have u': "steady u'" "x_rw u' = UIO_READ" "x_off u' = x_off u + ?n * SFS_BLOCKSIZE" "x_resid u' + ?n * SFS_BLOCKSIZE = x_resid u"
    using 1(3) unfolding x_read_def by auto
  have "x_resid u' = ?r" using u'(4) n(1) by linarith
  note u' = u'(1-3) this
  have al': "x_off u' mod SFS_BLOCKSIZE = 0" using al u'(3) by simp
  have e: "io_tail sv u s = (if x_resid u' > 0 then sfs_partialio sv u' 0 (x_resid u') s' else Ok (0, sv, u', s'))"
    using False al 1(1) u'(4) n(2) by (simp add: io_tail_def kassert_def)
  show ?thesis
  proof (cases "?r = 0")
    case True
    then show ?thesis using e 1 u'(4) n(1) by simp
  next
    case r: False
    have "x_off u' < SFS_MAXFILE" using u' r n(1) off(1) by linarith
    moreover have "x_off u' mod SFS_BLOCKSIZE + x_resid u' \<le> SFS_BLOCKSIZE" using al' u'(4) n(2) by simp
    ultimately obtain u'' s'' where 2: "sfs_partialio sv u' (x_off u' mod SFS_BLOCKSIZE) (x_resid u') s' = Ok (0, sv, u'', s'')" "undisturbed s' s''"
      "x_read u' (file_read (fs_data s') (sv_i sv) (x_off u') (x_resid u')) u''" using partial_reads [OF s'(1,2) u'(1,2) order.refl] by blast
    have "io_tail sv u s = Ok (0, sv, u'', s'')" using e r u'(4) 2(1) unfolding al' by simp
    moreover have "x_read u (file_read (fs_data s) (sv_i sv) (x_off u) (x_resid u)) u''"
      using x_read_trans [OF 1(3) 2(3)] unfolding s'(3) u'(3,4) file_read_split [symmetric] n(1) .
    ultimately show ?thesis using undisturbed_trans [OF 1(2) 2(2)] by blast
  qed
qed

lemma body_reads:
  assumes s: "fs_ok s" "addressable s" and i: "file_ok s (sv_i sv)" and u: "steady u" "x_rw u = UIO_READ"
    and off: "x_off u + x_resid u \<le> SFS_MAXFILE" "x_off u < SFS_MAXFILE"
  shows "\<exists>u' s'. io_body sv u s = Ok (0, sv, u', s') \<and> undisturbed s s' \<and> x_read u (file_read (fs_data s) (sv_i sv) (x_off u) (x_resid u)) u'"
proof (cases "x_off u mod SFS_BLOCKSIZE = 0")
  case True
  then show ?thesis using tail_reads [OF s i u off(1)] by (simp add: io_body_def)
next
  case False
  let ?o = "x_off u mod SFS_BLOCKSIZE" and ?n = "min (SFS_BLOCKSIZE - x_off u mod SFS_BLOCKSIZE) (x_resid u)"
  have lt: "?o < SFS_BLOCKSIZE" by (simp add: layout_defs)
  then have n: "?n \<le> x_resid u" "?o + ?n \<le> SFS_BLOCKSIZE" by auto
  obtain u' s' where 1: "sfs_partialio sv u ?o ?n s = Ok (0, sv, u', s')" "undisturbed s s'"
    "x_read u (file_read (fs_data s) (sv_i sv) (x_off u) ?n) u'" using partial_reads [OF s(1) i u n(1) off(2) n(2)] by blast
  have s': "fs_ok s'" "addressable s'" "file_ok s' (sv_i sv)" "fs_data s' = fs_data s"
    using 1(2) i s(2) addressable_same undisturbed_file by (auto simp: undisturbed_def)
  have u': "steady u'" "x_rw u' = UIO_READ" "x_off u' = x_off u + ?n" "x_resid u = x_resid u' + ?n" using 1(3) unfolding x_read_def by auto
  have al: "x_resid u' = 0 \<or> x_off u' mod SFS_BLOCKSIZE = 0"
  proof (cases "x_resid u \<le> SFS_BLOCKSIZE - ?o")
    case True
    then show ?thesis using u'(4) by simp
  next
    case False
    then show ?thesis using u'(3) block_up [of "x_off u"] by simp
  qed
  have "x_off u' + x_resid u' \<le> SFS_MAXFILE" using u'(3,4) off(1) by linarith
  from tail_reads [OF s'(1-3) u'(1,2) this al] obtain u'' s'' where 2: "io_tail sv u' s' = Ok (0, sv, u'', s'')" "undisturbed s' s''"
    "x_read u' (file_read (fs_data s) (sv_i sv) (x_off u') (x_resid u')) u''" unfolding s'(4) by auto
  have "?n + x_resid u' = x_resid u" using u'(4) by simp
  then have "x_read u (file_read (fs_data s) (sv_i sv) (x_off u) (x_resid u)) u''"
    using x_read_trans [OF 1(3) 2(3)] unfolding u'(3) file_read_split [symmetric] by simp
  moreover have "io_body sv u s = Ok (0, sv, u'', s'')" using False 1(1) 2(1) by (simp add: io_body_def Let_def)
  ultimately show ?thesis using undisturbed_trans [OF 1(2) 2(2)] by blast
qed

subsection \<open>Writing\<close>

text \<open>
  The outcome of a write of \<open>n\<close> bytes: all of them are in the file, or the disk is full and a prefix of them is.
\<close>

definition wrote_upto :: "sfs_fs \<Rightarrow> sfs_vnode \<Rightarrow> xfer \<Rightarrow> nat \<Rightarrow> int \<times> sfs_vnode \<times> xfer \<times> sfs_fs \<Rightarrow> bool" where
  "wrote_upto s sv u n = (\<lambda>(r, sv', u', s'). \<exists>bs. io_wrote s sv (x_off u) bs s' sv' \<and> x_wrote u bs u'
     \<and> (if r = 0 then length bs = n else r = ENOSPC \<and> length bs \<le> n \<and> blocks_in_use s' = {..<bm_cap (sfs_freemap s')}))"

lemma wrote_upto_then:
  assumes "wrote_upto s sv u m (0, sv', u', s')" and "wrote_upto s' sv' u' n y"
  shows "wrote_upto s sv u (m + n) y"
proof -
  obtain r sv'' u'' s'' where y: "y = (r, sv'', u'', s'')" by (cases y)
  from assms obtain bs cs where b: "io_wrote s sv (x_off u) bs s' sv'" "x_wrote u bs u'" "length bs = m"
    and c: "io_wrote s' sv' (x_off u') cs s'' sv''" "x_wrote u' cs u''"
    and r: "if r = 0 then length cs = n else r = ENOSPC \<and> length cs \<le> n \<and> blocks_in_use s'' = {..<bm_cap (sfs_freemap s'')}"
    unfolding wrote_upto_def y by auto
  have "x_off u' = x_off u + length bs" using b(2) by (simp add: x_wrote_def)
  then have "io_wrote s sv (x_off u) (bs @ cs) s'' sv''" using io_wrote_trans [OF b(1)] c(1) by simp
  moreover have "x_wrote u (bs @ cs) u''" using x_wrote_trans [OF b(2) c(2)] .
  ultimately show ?thesis unfolding wrote_upto_def y using r b(3) by (auto intro!: exI [of _ "bs @ cs"])
qed

lemma wrote_upto_mono: "wrote_upto s sv u m (r, y) \<Longrightarrow> r \<noteq> 0 \<Longrightarrow> m \<le> n \<Longrightarrow> wrote_upto s sv u n (r, y)"
  by (cases y) (auto simp: wrote_upto_def)

text \<open>What stays true between the steps of a write.\<close>

definition write_ready :: "sfs_fs \<Rightarrow> sfs_vnode \<Rightarrow> xfer \<Rightarrow> bool" where
  "write_ready s sv u \<longleftrightarrow> fs_ok s \<and> addressable s \<and> file_ok s (sv_i sv) \<and> steady u \<and> x_rw u = UIO_WRITE \<and> x_resid u \<le> length (x_data u)"

lemma write_ready_step: "write_ready s sv u \<Longrightarrow> wrote_upto s sv u n (r, sv', u', s') \<Longrightarrow> write_ready s' sv' u'"
  using addressable_same by (auto simp: write_ready_def wrote_upto_def io_wrote_def x_wrote_def)

lemma wrote_upto_moves: "wrote_upto s sv u n (0, sv', u', s') \<Longrightarrow> x_off u' = x_off u + n \<and> x_resid u = x_resid u' + n"
  by (auto simp: wrote_upto_def x_wrote_def)

lemma bmap_write:
  assumes s: "fs_ok s" and i: "file_ok s (sv_i sv)" and off: "off < SFS_MAXFILE"
  obtains r b sv' s' where "sfs_bmap sv (of_nat (off div SFS_BLOCKSIZE)) True s = Ok (r, b, sv', s')" and "\<And>k. io_wrote s sv k [] s' sv'"
    and "if r = 0 then b \<noteq> 0 \<and> fblocks (fs_data s') (sv_i sv') ! (off div SFS_BLOCKSIZE) = b
         else r = ENOSPC \<and> blocks_in_use s' = {..<bm_cap (sfs_freemap s')} \<and> fblocks (fs_data s) (sv_i sv) ! (off div SFS_BLOCKSIZE) = 0"
proof -
  note n = fileblock_of [OF off]
  then have "unat (of_nat (off div SFS_BLOCKSIZE) :: u32) < 143" by simp
  then obtain y where y: "sfs_bmap sv (of_nat (off div SFS_BLOCKSIZE)) True s = Ok y" "mapped sv s (unat (of_nat (off div SFS_BLOCKSIZE) :: u32)) True y"
    by (rule sfs_bmap_maps [OF s i])
  obtain r b sv' s' where yy: "y = (r, b, sv', s')" by (cases y)
  have m: "mapped sv s (off div SFS_BLOCKSIZE) True (r, b, sv', s')" using y(2) n yy by simp
  have w: "io_wrote s sv k [] s' sv'" for k using mapped_wrote [OF s i m] n by blast
  have len: "length (fblocks (fs_data s) (sv_i sv)) = 143" using i by (simp add: file_ok_def)
  show thesis by (rule that [OF y(1) [unfolded yy] w]) (use m n len in \<open>auto simp: mapped_def split: if_splits\<close>)
qed

lemma partial_writes:
  assumes w: "write_ready s sv u" and len: "len \<le> x_resid u" and off: "x_off u < SFS_MAXFILE" "x_off u mod SFS_BLOCKSIZE + len \<le> SFS_BLOCKSIZE"
  obtains y where "sfs_partialio sv u (x_off u mod SFS_BLOCKSIZE) len s = Ok y" and "wrote_upto s sv u len y"
    and "fst y \<noteq> 0 \<Longrightarrow> fst (snd (snd y)) = u \<and> fblocks (fs_data s) (sv_i sv) ! (x_off u div SFS_BLOCKSIZE) = 0"
proof -
  let ?q = "x_off u div SFS_BLOCKSIZE" and ?o = "x_off u mod SFS_BLOCKSIZE" and ?bs = "take len (x_data u)"
  have p: "fs_ok s" "file_ok s (sv_i sv)" "steady u" "x_rw u = UIO_WRITE" "x_resid u \<le> length (x_data u)" using w by (simp_all add: write_ready_def)
  obtain r b sv' s' where m: "sfs_bmap sv (of_nat ?q) True s = Ok (r, b, sv', s')" "\<And>k. io_wrote s sv k [] s' sv'"
    "if r = 0 then b \<noteq> 0 \<and> fblocks (fs_data s') (sv_i sv') ! ?q = b else r = ENOSPC \<and> blocks_in_use s' = {..<bm_cap (sfs_freemap s')} \<and> fblocks (fs_data s) (sv_i sv) ! ?q = 0"
    using bmap_write [OF p(1,2) off(1)] by metis
  show thesis
  proof (cases "r = 0")
    case False
    have "sfs_partialio sv u ?o len s = Ok (r, sv', u, s')" using m(1) False p(4) off(2) by (simp add: sfs_partialio_def kassert_def)
    moreover have "wrote_upto s sv u len (r, sv', u, s')" unfolding wrote_upto_def
      using m False p(3,4) by (auto simp: x_wrote_def intro!: exI [of _ "[]"])
    ultimately show thesis using that m(3) False by simp
  next
    case True
    then have b: "b \<noteq> 0" "fblocks (fs_data s') (sv_i sv') ! ?q = b" using m(3) by simp_all
    have s': "fs_ok s'" "file_ok s' (sv_i sv')" using m(2) [of 0] by (simp_all add: io_wrote_def)
    have q: "?q < 143" using fileblock_of [OF off(1)] by simp
    have lt: "b < sp_nblocks (sfs_super s')" using file_ok_block [OF s'(2) q] b by simp
    obtain d where d: "fs_rblock b s' = Ok (0, fs_data s' b, s'\<lparr>sfs_device := d\<rparr>)" "io_done (sfs_device s') (fs_data s') d"
      by (rule fs_rblock_reads [OF s'(1) lt])
    let ?s = "s'\<lparr>sfs_device := d\<rparr>" and ?c = "take ?o (fs_data s' b) @ ?bs @ drop (?o + len) (fs_data s' b)"
    have ok: "undisturbed s' ?s" using undisturbed_io [OF s'(1) d(2)] .
    have l: "length (fs_data s' b) = SFS_BLOCKSIZE" using s'(1) by (simp add: fs_ok_def disk_ok_def)
    have bs: "length ?bs = len" using len p(5) by simp
    have "length (take len (drop ?o (fs_data s' b))) = len" using l off(2) by simp
    with xmove_writes [OF p(3,4) _ p(5), of "take len (drop ?o (fs_data s' b))"] len
    obtain u' where u': "xmove (take len (drop ?o (fs_data s' b))) u = (0, ?bs, u')" "x_wrote u ?bs u'" by metis
    have okk: "fs_ok ?s" "b < sp_nblocks (sfs_super ?s)" "length ?c = SFS_BLOCKSIZE" using ok lt l bs off(2) by (simp_all add: undisturbed_def)
    obtain e where e: "fs_wblock ?c b ?s = Ok (0, ?s\<lparr>sfs_device := e\<rparr>)" "io_done (sfs_device ?s) ((fs_data ?s)(b := ?c)) e"
      by (rule fs_wblock_writes [OF okk])
    have e': "io_done (sfs_device s') ((fs_data s')(b := ?c)) e" using e(2) d(2) by (simp add: io_done_def)
    have "io_wrote s' sv' (?q * SFS_BLOCKSIZE + ?o) ?bs (s'\<lparr>sfs_device := e\<rparr>) sv'"
      using block_wrote [OF s' q b(2,1), of ?o ?bs e] off(2) bs e' by simp
    then have "io_wrote s sv (x_off u) ?bs (s'\<lparr>sfs_device := e\<rparr>) sv'" using io_wrote_trans [OF m(2) [of "x_off u"]] by simp
    then have "wrote_upto s sv u len (0, sv', u', s'\<lparr>sfs_device := e\<rparr>)" unfolding wrote_upto_def using u'(2) bs by auto
    moreover have "sfs_partialio sv u ?o len s = Ok (0, sv', u', s'\<lparr>sfs_device := e\<rparr>)"
      using m(1) True b(1) p(4) off(2) d(1) u' e(1) by (simp add: sfs_partialio_def kassert_def x_wrote_def)
    ultimately show thesis using that by simp
  qed
qed

lemma block_writes:
  assumes w: "write_ready s sv u" and len: "SFS_BLOCKSIZE \<le> x_resid u" and off: "x_off u < SFS_MAXFILE" "x_off u mod SFS_BLOCKSIZE = 0"
  obtains y where "sfs_blockio sv u s = Ok y" and "wrote_upto s sv u SFS_BLOCKSIZE y"
proof -
  let ?q = "x_off u div SFS_BLOCKSIZE" and ?bs = "take SFS_BLOCKSIZE (x_data u)"
  have p: "fs_ok s" "file_ok s (sv_i sv)" "steady u" "x_rw u = UIO_WRITE" "x_resid u \<le> length (x_data u)" "addressable s"
    using w by (simp_all add: write_ready_def)
  obtain r b sv' s' where m: "sfs_bmap sv (of_nat ?q) True s = Ok (r, b, sv', s')" "\<And>k. io_wrote s sv k [] s' sv'"
    "if r = 0 then b \<noteq> 0 \<and> fblocks (fs_data s') (sv_i sv') ! ?q = b else r = ENOSPC \<and> blocks_in_use s' = {..<bm_cap (sfs_freemap s')} \<and> fblocks (fs_data s) (sv_i sv) ! ?q = 0"
    using bmap_write [OF p(1,2) off(1)] by metis
  show thesis
  proof (cases "r = 0")
    case False
    have "sfs_blockio sv u s = Ok (r, sv', u, s')" using m(1) False p(4) by (simp add: sfs_blockio_def)
    moreover have "wrote_upto s sv u SFS_BLOCKSIZE (r, sv', u, s')" unfolding wrote_upto_def
      using m False p(3,4) by (auto simp: x_wrote_def intro!: exI [of _ "[]"])
    ultimately show thesis by (rule that)
  next
    case True
    then have b: "b \<noteq> 0" "fblocks (fs_data s') (sv_i sv') ! ?q = b" using m(3) by simp_all
    have s': "fs_ok s'" "file_ok s' (sv_i sv')" "same_fs s s'" using m(2) [of 0] by (simp_all add: io_wrote_def)
    have q: "?q < 143" using fileblock_of [OF off(1)] by simp
    have lt: "b < sp_nblocks (sfs_super s')" using file_ok_block [OF s'(2) q] b by simp
    then have bd: "b < d_blocks (sfs_device s')" using s'(1) by (auto simp: fs_ok_def)
    have bs: "length ?bs = SFS_BLOCKSIZE" using len p(5) by simp
    have l: "length (fs_data s' b) = SFS_BLOCKSIZE" using s'(1) by (simp add: fs_ok_def disk_ok_def)
    let ?u = "u\<lparr>x_off := unat (b * of_nat SFS_BLOCKSIZE), x_resid := SFS_BLOCKSIZE\<rparr>"
    have at: "x_off ?u = unat b * SFS_BLOCKSIZE" using block_offset [OF addressable_same [OF p(6) s'(3)] lt] by simp
    obtain d where d: "sfs_rwblock ?u (sfs_device s') = Ok (0, ?u\<lparr>x_off := x_off ?u + SFS_BLOCKSIZE, x_resid := 0,
        x_data := drop SFS_BLOCKSIZE (x_data ?u), x_moves := tl (x_moves ?u)\<rparr>, d)" "io_done (sfs_device s') ((fs_data s')(b := ?bs)) d"
      using rwblock_writes [OF _ _ bd, of ?u] s'(1) at p(3,4,5) len by (auto simp: fs_ok_def)
    let ?v = "u\<lparr>x_off := x_off u + SFS_BLOCKSIZE, x_resid := x_resid u - SFS_BLOCKSIZE, x_data := drop SFS_BLOCKSIZE (x_data u), x_moves := tl (x_moves u)\<rparr>"
    have "sfs_blockio sv u s = Ok (0, sv', ?v, s'\<lparr>sfs_device := d\<rparr>)"
      using m(1) True b(1) p(4) len d(1) by (simp add: sfs_blockio_def kassert_def fs_rwblock_def Let_def)
    moreover have "x_wrote u ?bs ?v" using p len bs by (simp add: x_wrote_def)
    moreover have "io_wrote s' sv' (?q * SFS_BLOCKSIZE + 0) ?bs (s'\<lparr>sfs_device := d\<rparr>) sv'"
      using block_wrote [OF s'(1,2) q b(2,1), of 0 ?bs d] bs l d(2) by simp
    then have "io_wrote s' sv' (x_off u) ?bs (s'\<lparr>sfs_device := d\<rparr>) sv'" using div_mult_mod_eq [of "x_off u" SFS_BLOCKSIZE] off(2) by simp
    then have "io_wrote s sv (x_off u) ?bs (s'\<lparr>sfs_device := d\<rparr>) sv'" using io_wrote_trans [OF m(2) [of "x_off u"]] by simp
    ultimately have "sfs_blockio sv u s = Ok (0, sv', ?v, s'\<lparr>sfs_device := d\<rparr>)" "wrote_upto s sv u SFS_BLOCKSIZE (0, sv', ?v, s'\<lparr>sfs_device := d\<rparr>)"
      using bs unfolding wrote_upto_def by auto
    then show thesis by (rule that)
  qed
qed

lemma blocks_write:
  assumes "write_ready s sv u" and "n * SFS_BLOCKSIZE \<le> x_resid u" and "x_off u + n * SFS_BLOCKSIZE \<le> SFS_MAXFILE" and "x_off u mod SFS_BLOCKSIZE = 0"
  shows "\<exists>y. blockio_loop n sv u s = Ok y \<and> wrote_upto s sv u (n * SFS_BLOCKSIZE) y"
  using assms
proof (induction n arbitrary: sv u s)
  case 0
  then have "wrote_upto s sv u 0 (0, sv, u, s)" using io_wrote_refl by (auto simp: wrote_upto_def write_ready_def x_wrote_def)
  then show ?case by simp
next
  case (Suc n)
  have "SFS_BLOCKSIZE \<le> x_resid u" "x_off u < SFS_MAXFILE" using Suc.prems by (simp_all add: layout_defs)
  then obtain y where y: "sfs_blockio sv u s = Ok y" "wrote_upto s sv u SFS_BLOCKSIZE y" using block_writes [OF Suc.prems(1)] Suc.prems(4) by metis
  obtain r sv' u' s' where yy: "y = (r, sv', u', s')" by (cases y)
  show ?case
  proof (cases "r = 0")
    case False
    then have "wrote_upto s sv u (Suc n * SFS_BLOCKSIZE) y" using y(2) unfolding yy by (auto simp: wrote_upto_def)
    then show ?thesis using y(1) yy False by simp
  next
    case True
    note w = write_ready_step [OF Suc.prems(1) y(2) [unfolded yy]] and mv = wrote_upto_moves [OF y(2) [unfolded yy True]]
    have "n * SFS_BLOCKSIZE \<le> x_resid u'" "x_off u' + n * SFS_BLOCKSIZE \<le> SFS_MAXFILE" "x_off u' mod SFS_BLOCKSIZE = 0"
      using mv Suc.prems(2-4) by simp_all
    from Suc.IH [OF w this] obtain z where z: "blockio_loop n sv' u' s' = Ok z" "wrote_upto s' sv' u' (n * SFS_BLOCKSIZE) z" by blast
    have "wrote_upto s sv u (SFS_BLOCKSIZE + n * SFS_BLOCKSIZE) z" using wrote_upto_then [OF _ z(2)] y(2) yy True by simp
    then show ?thesis using y(1) yy True z(1) by simp
  qed
qed

lemma tail_writes:
  assumes w: "write_ready s sv u" and off: "x_off u + x_resid u \<le> SFS_MAXFILE" "x_resid u = 0 \<or> x_off u mod SFS_BLOCKSIZE = 0"
  shows "\<exists>y. io_tail sv u s = Ok y \<and> wrote_upto s sv u (x_resid u) y"
proof (cases "x_resid u = 0")
  case True
  have "wrote_upto s sv u 0 (0, sv, u, s)" using io_wrote_refl w by (auto simp: wrote_upto_def write_ready_def x_wrote_def)
  then show ?thesis using True by (simp add: io_tail_def)
next
  case False
  let ?n = "x_resid u div SFS_BLOCKSIZE" and ?r = "x_resid u mod SFS_BLOCKSIZE"
  have n: "?n * SFS_BLOCKSIZE + ?r = x_resid u" "?r < SFS_BLOCKSIZE" by (simp_all add: layout_defs)
  have al: "x_off u mod SFS_BLOCKSIZE = 0" using False off(2) by simp
  have "?n * SFS_BLOCKSIZE \<le> x_resid u" "x_off u + ?n * SFS_BLOCKSIZE \<le> SFS_MAXFILE" using n off(1) by linarith+
  from blocks_write [OF w this al] obtain y where y: "blockio_loop ?n sv u s = Ok y" "wrote_upto s sv u (?n * SFS_BLOCKSIZE) y" by blast
  obtain r sv' u' s' where yy: "y = (r, sv', u', s')" by (cases y)
  show ?thesis
  proof (cases "r = 0")
    case r: False
    have "wrote_upto s sv u (x_resid u) y" using wrote_upto_mono [OF y(2) [unfolded yy] r] n(1) yy by simp
    then show ?thesis using y(1) yy r False al by (simp add: io_tail_def kassert_def)
  next
    case True
    note w' = write_ready_step [OF w y(2) [unfolded yy]] and mv = wrote_upto_moves [OF y(2) [unfolded yy True]]
    have u': "x_resid u' = ?r" "x_off u' = x_off u + ?n * SFS_BLOCKSIZE" using mv n(1) by linarith+
    have al': "x_off u' mod SFS_BLOCKSIZE = 0" using al u'(2) by simp
    have e: "io_tail sv u s = (if x_resid u' > 0 then sfs_partialio sv' u' 0 (x_resid u') s' else Ok (0, sv', u', s'))"
      using False al y(1) yy True u'(1) n(2) by (simp add: io_tail_def kassert_def)
    show ?thesis
    proof (cases "?r = 0")
      case True
      then show ?thesis using e u'(1) y(2) yy \<open>r = 0\<close> n(1) by simp
    next
      case rr: False
      have o: "x_off u' < SFS_MAXFILE" using u' rr n(1) off(1) by linarith
      have "x_off u' mod SFS_BLOCKSIZE + x_resid u' \<le> SFS_BLOCKSIZE" using al' u'(1) n(2) by simp
      then obtain z where z: "sfs_partialio sv' u' (x_off u' mod SFS_BLOCKSIZE) (x_resid u') s' = Ok z" "wrote_upto s' sv' u' (x_resid u') z"
        using partial_writes [OF w' order.refl o] by blast
      have "wrote_upto s sv u (?n * SFS_BLOCKSIZE + x_resid u') z" using wrote_upto_then [OF _ z(2)] y(2) yy True by simp
      then show ?thesis using e rr z(1) u'(1) n(1) al' by simp
    qed
  qed
qed

lemma body_writes:
  assumes w: "write_ready s sv u" and off: "x_off u + x_resid u \<le> SFS_MAXFILE" "x_off u < SFS_MAXFILE"
  shows "\<exists>y. io_body sv u s = Ok y \<and> wrote_upto s sv u (x_resid u) y"
proof (cases "x_off u mod SFS_BLOCKSIZE = 0")
  case True
  then show ?thesis using tail_writes [OF w off(1)] by (simp add: io_body_def)
next
  case False
  let ?o = "x_off u mod SFS_BLOCKSIZE" and ?n = "min (SFS_BLOCKSIZE - x_off u mod SFS_BLOCKSIZE) (x_resid u)"
  have "?o < SFS_BLOCKSIZE" by (simp add: layout_defs)
  then have n: "?n \<le> x_resid u" "?o + ?n \<le> SFS_BLOCKSIZE" by auto
  obtain y where y: "sfs_partialio sv u ?o ?n s = Ok y" "wrote_upto s sv u ?n y" using partial_writes [OF w n(1) off(2) n(2)] by blast
  obtain r sv' u' s' where yy: "y = (r, sv', u', s')" by (cases y)
  show ?thesis
  proof (cases "r = 0")
    case r: False
    have "wrote_upto s sv u (x_resid u) y" using wrote_upto_mono [OF y(2) [unfolded yy] r n(1)] yy by simp
    then show ?thesis using y(1) yy r False by (simp add: io_body_def Let_def)
  next
    case True
    note w' = write_ready_step [OF w y(2) [unfolded yy]] and mv = wrote_upto_moves [OF y(2) [unfolded yy True]]
    have al: "x_resid u' = 0 \<or> x_off u' mod SFS_BLOCKSIZE = 0"
    proof (cases "x_resid u \<le> SFS_BLOCKSIZE - ?o")
      case True
      then show ?thesis using mv by simp
    next
      case False
      then show ?thesis using mv block_up [of "x_off u"] by simp
    qed
    have "x_off u' + x_resid u' \<le> SFS_MAXFILE" using mv off(1) by linarith
    from tail_writes [OF w' this al] obtain z where z: "io_tail sv' u' s' = Ok z" "wrote_upto s' sv' u' (x_resid u') z" by blast
    have "wrote_upto s sv u (?n + x_resid u') z" using wrote_upto_then [OF _ z(2)] y(2) yy True by simp
    moreover have "?n + x_resid u' = x_resid u" using mv by linarith
    ultimately show ?thesis using y(1) yy True z(1) False by (auto simp: io_body_def Let_def)
  qed
qed

subsection \<open>Files\<close>

lemma x_read_resid: "x_read (u\<lparr>x_resid := n\<rparr>) bs u' \<Longrightarrow> x_resid u = n + k \<Longrightarrow> x_read u bs (u'\<lparr>x_resid := x_resid u' + k\<rparr>)"
  by (simp add: x_read_def steady_def)

lemma sfs_io_read:
  assumes s: "fs_ok s" "addressable s" and i: "file_ok s (sv_i sv)" and size: "unat (sfi_size (sv_i sv)) \<le> SFS_MAXFILE"
    and u: "steady u" "x_rw u = UIO_READ" "x_resid u < 2 ^ 32"
  shows "\<exists>u' s'. sfs_io sv u s = Ok (0, sv, u', s') \<and> undisturbed s s'
    \<and> x_read u (file_read (fs_data s) (sv_i sv) (x_off u) (min (x_resid u) (unat (sfi_size (sv_i sv)) - x_off u))) u'"
proof -
  let ?z = "unat (sfi_size (sv_i sv))"
  consider (past) "x_off u \<ge> ?z" | (cut) "x_off u < ?z" "x_off u + x_resid u > ?z" | (all) "x_off u < ?z" "x_off u + x_resid u \<le> ?z" by linarith
  then show ?thesis
  proof cases
    case past
    then show ?thesis using u undisturbed_refl [OF s(1)] by (simp add: sfs_io_def x_read_def file_read_def)
  next
    case cut
    let ?k = "x_off u + x_resid u - ?z"
    let ?u = "u\<lparr>x_resid := x_resid u - ?k\<rparr>"
    have k: "?k mod 2 ^ 32 = ?k" "?k < x_resid u" using cut u(3) by simp_all
    have r: "x_resid ?u = ?z - x_off u" "x_off ?u + x_resid ?u \<le> SFS_MAXFILE" "x_off ?u < SFS_MAXFILE" "steady ?u" "x_rw ?u = UIO_READ"
      using cut size u by (simp_all add: steady_def)
    obtain u' s' where b: "io_body sv ?u s = Ok (0, sv, u', s')" "undisturbed s s'" "x_read ?u (file_read (fs_data s) (sv_i sv) (x_off ?u) (x_resid ?u)) u'"
      using body_reads [OF s i r(4,5,2,3)] by blast
    have "x_rw u' = UIO_READ" using b(3) by (simp add: x_read_def)
    then have "sfs_io sv u s = Ok (0, sv, u'\<lparr>x_resid := x_resid u' + ?k\<rparr>, s')"
      using u(2) cut k b(1) unfolding sfs_io_def Let_def by (simp add: kassert_def io_out_def)
    moreover have "min (x_resid u) (?z - x_off u) = x_resid ?u" using cut by simp
    then have "x_read u (file_read (fs_data s) (sv_i sv) (x_off u) (min (x_resid u) (?z - x_off u))) (u'\<lparr>x_resid := x_resid u' + ?k\<rparr>)"
      using x_read_resid [OF b(3), of ?k] k(2) by simp
    ultimately show ?thesis using b(2) by blast
  next
    case all
    then have r: "x_off u + x_resid u \<le> SFS_MAXFILE" "x_off u < SFS_MAXFILE" using size by simp_all
    obtain u' s' where b: "io_body sv u s = Ok (0, sv, u', s')" "undisturbed s s'" "x_read u (file_read (fs_data s) (sv_i sv) (x_off u) (x_resid u)) u'"
      using body_reads [OF s i u(1,2) r] by blast
    have "sfs_io sv u s = Ok (0, sv, u', s')" using u(2) all b(1,3) by (simp add: sfs_io_def io_out_def x_read_def)
    then show ?thesis using b all by (simp add: min_def) (metis add_le_imp_le_diff add.commute)
  qed
qed

lemma sfs_io_write:
  assumes w: "write_ready s sv u" and off: "x_off u + x_resid u \<le> SFS_MAXFILE" "x_off u < SFS_MAXFILE"
  shows "\<exists>r sv' u' s' bs. sfs_io sv u s = Ok (r, sized (x_off u + length bs) sv', u', s') \<and> io_wrote s sv (x_off u) bs s' sv' \<and> x_wrote u bs u'
    \<and> (if r = 0 then length bs = x_resid u else r = ENOSPC \<and> length bs \<le> x_resid u \<and> blocks_in_use s' = {..<bm_cap (sfs_freemap s')})"
proof -
  obtain y where y: "io_body sv u s = Ok y" "wrote_upto s sv u (x_resid u) y" using body_writes [OF assms] by blast
  obtain r sv' u' s' where yy: "y = (r, sv', u', s')" by (cases y)
  from y(2) obtain bs where bs: "io_wrote s sv (x_off u) bs s' sv'" "x_wrote u bs u'"
    "if r = 0 then length bs = x_resid u else r = ENOSPC \<and> length bs \<le> x_resid u \<and> blocks_in_use s' = {..<bm_cap (sfs_freemap s')}"
    unfolding yy wrote_upto_def by auto
  have "sfs_io sv u s = Ok (r, sized (x_off u + length bs) sv', u', s')"
    using w y(1) yy bs(2) by (cases u') (simp add: sfs_io_def io_out_def write_ready_def x_wrote_def)
  then show ?thesis using bs by blast
qed

lemma file_ok_sized [simp]: "file_ok s (sv_i (sized n sv)) = file_ok s (sv_i sv)"
  by (simp add: sized_def file_ok_def inode_shape_def owned_def fblocks_def idwords_def)

lemma file_byte_sized [simp]: "file_byte f (sv_i (sized n sv)) = file_byte f (sv_i sv)"
  by (simp add: fun_eq_iff sized_def file_byte_def fblocks_def idwords_def)

lemma size_sized: "n < 2 ^ 32 \<Longrightarrow> unat (sfi_size (sv_i (sized n sv))) = max (unat (sfi_size (sv_i sv))) n"
  by (simp add: sized_def unat_of_nat)

text \<open>A small file system for the examples: eight blocks, of which the first three are in use; block 2 is the inode of an empty file.\<close>

definition small_fs :: sfs_fs where
  "small_fs = \<lparr>sfs_super = \<lparr>sp_magic = SFS_MAGIC, sp_nblocks = 8, sp_volname = replicate 32 0, sp_reserved = replicate 118 0\<rparr>, sfs_superdirty = False,
     sfs_device = \<lparr>d_blocks = 8, dk_data = (\<lambda>_. replicate 512 0), dk_codes = [], lh_buf = replicate 512 0\<rparr>,
     sfs_vnodes = \<lparr>arr_v = [], arr_num = 0, arr_max = 0\<rparr>, sfs_freemap = \<lparr>nbits = 8, bm_v = [7]\<rparr>, sfs_freemapdirty = False, sv_store = Map.empty\<rparr>"

definition small_file :: sfs_vnode where
  "small_file = \<lparr>vn_refcount = 1, vn_opencount = 1, vn_ops = sfs_fileops,
     sv_i = \<lparr>sfi_size = 0, sfi_type = SFS_TYPE_FILE, sfi_linkcount = 1, sfi_direct = replicate 15 0, sfi_indirect = 0, sfi_waste = replicate 110 0\<rparr>,
     sv_ino = 2, sv_dirty = False\<rparr>"

lemma small_fs_ok: "fs_ok small_fs" "addressable small_fs"
proof -
  have "bm_used \<lparr>nbits = 8, bm_v = [7]\<rparr> = {0, 1, 2}"
  proof (rule set_eqI)
    fix i
    have "i \<in> bm_used \<lparr>nbits = 8, bm_v = [7]\<rparr> \<longleftrightarrow> i < 8 \<and> bit (7 :: u8) i" by (auto simp: bm_used_def bm_cap_def bm_bit_def)
    also have "\<dots> \<longleftrightarrow> i \<in> {0, 1, 2}" by (auto simp: numeral_eq_Suc less_Suc_eq)
    finally show "i \<in> bm_used \<lparr>nbits = 8, bm_v = [7]\<rparr> \<longleftrightarrow> i \<in> {0, 1, 2}" .
  qed
  moreover have "bitmap_inv \<lparr>nbits = 8, bm_v = [7]\<rparr>" by (auto simp: bitmap_inv_def bm_cap_def)
  ultimately show "fs_ok small_fs" by (simp add: fs_ok_def small_fs_def bm_cap_def disk_ok_def quiet_def layout_defs)
  show "addressable small_fs" by (simp add: addressable_def small_fs_def)
qed

lemma filter_zeros: "filter (\<lambda>b. b \<noteq> 0) (replicate n (0 :: u32)) = []"
  by (induction n) simp_all

lemma small_file_ok: "file_ok small_fs (sv_i small_file)"
proof -
  have "fblocks f (sv_i small_file) = replicate 143 0" for f
    by (simp add: fblocks_def idwords_def small_file_def layout_defs flip: replicate_add)
  then show ?thesis using filter_zeros [of 143] by (simp add: file_ok_def owned_def inode_shape_def) (simp add: small_file_def)
qed



text \<open>
  C37: Reading back what was written. After a write that succeeds, a read of the same range returns the bytes that
  were written, whatever blocks, direct or indirect, they went to, and changes nothing.
\<close>

theorem sfs_read_after_write:
  assumes "write_ready s sv u" and "x_off u + x_resid u \<le> SFS_MAXFILE" and "x_off u < SFS_MAXFILE" and "unat (sfi_size (sv_i sv)) \<le> SFS_MAXFILE"
    and "sfs_io sv u s = Ok (0, sv', u', s')"
    and "steady v" and "x_rw v = UIO_READ" and "x_off v = x_off u" and "x_resid v = x_resid u"
  shows "\<exists>v' s''. sfs_io sv' v s' = Ok (0, sv', v', s'') \<and> x_data v' = x_data v @ take (x_resid u) (x_data u) \<and> x_resid v' = 0 \<and> undisturbed s' s''"
proof -
  obtain w bs where w: "sv' = sized (x_off u + length bs) w" "io_wrote s sv (x_off u) bs s' w" "x_wrote u bs u'" "length bs = x_resid u"
    using sfs_io_write [OF assms(1-3)] assms(5) by auto
  have bs: "bs = take (x_resid u) (x_data u)" using w(3,4) by (simp add: x_wrote_def)
  have size: "unat (sfi_size (sv_i sv')) = max (unat (sfi_size (sv_i sv))) (x_off u + x_resid u)"
    using size_sized [of "x_off u + length bs" w] w assms(2) by (simp add: io_wrote_def same_inode_def layout_defs)
  have ok: "fs_ok s'" "addressable s'" "file_ok s' (sv_i sv')" "unat (sfi_size (sv_i sv')) \<le> SFS_MAXFILE" "x_resid v < 2 ^ 32"
    using w assms(1,2,4,9) size addressable_same by (auto simp: io_wrote_def write_ready_def layout_defs)
  from sfs_io_read [OF ok(1-4) assms(6,7) ok(5)] obtain v' s'' where r: "sfs_io sv' v s' = Ok (0, sv', v', s'')" "undisturbed s' s''"
    "x_read v (file_read (fs_data s') (sv_i sv') (x_off v) (min (x_resid v) (unat (sfi_size (sv_i sv')) - x_off v))) v'" by blast
  have "min (x_resid v) (unat (sfi_size (sv_i sv')) - x_off v) = x_resid u" using size assms(8,9) by simp
  moreover have "file_read (fs_data s') (sv_i sv') (x_off u) (x_resid u) = bs"
    by (rule nth_equalityI) (use w assms(2) in \<open>simp_all add: file_read_def io_wrote_def\<close>)
  ultimately have "x_read v bs v'" using r(3) assms(8) by simp
  then show ?thesis using r(1,2) bs w(4) assms(9) by (auto simp: x_read_def)
qed

theorem sfs_read_after_write_witness:
  "\<exists>r sv' u' s'. sfs_io small_file (kernel_xfer UIO_WRITE 0 4 [1, 2, 3, 4]) small_fs = Ok (r, sv', u', s') \<and> r = 0
    \<and> (\<exists>v' s''. sfs_io sv' (kernel_xfer UIO_READ 0 4 []) s' = Ok (0, sv', v', s'') \<and> x_data v' = [1, 2, 3, 4])"
proof -
  let ?u = "kernel_xfer UIO_WRITE 0 4 [1, 2, 3, 4]" and ?v = "kernel_xfer UIO_READ 0 4 []"
  have w: "write_ready small_fs small_file ?u" using small_fs_ok small_file_ok by (simp add: write_ready_def kernel_xfer_def steady_def)
  have off: "x_off ?u + x_resid ?u \<le> SFS_MAXFILE" "x_off ?u < SFS_MAXFILE" "unat (sfi_size (sv_i small_file)) \<le> SFS_MAXFILE"
    by (simp_all add: kernel_xfer_def layout_defs small_file_def)
  have "case sfs_io small_file ?u small_fs of Ok y \<Rightarrow> fst y = 0 | Halt _ \<Rightarrow> False" by code_simp
  then obtain sv' u' s' where y: "sfs_io small_file ?u small_fs = Ok (0, sv', u', s')" by (auto split: run.splits)
  from sfs_read_after_write [OF w off y, of ?v] show ?thesis using y by (simp add: kernel_xfer_def steady_def) blast
qed


definition big_fs :: sfs_fs where
  "big_fs = small_fs\<lparr>sfs_super := (sfs_super small_fs)\<lparr>sp_nblocks := 2 ^ 23 + 8\<rparr>, sfs_device := (sfs_device small_fs)\<lparr>d_blocks := 2 ^ 23 + 8\<rparr>,
     sfs_freemap := \<lparr>nbits = 2 ^ 23 + 8, bm_v = replicate (2 ^ 20 + 1) 255\<rparr>\<rparr>"

lemma big_fs_ok: "fs_ok big_fs"
proof -
  let ?b = "\<lparr>nbits = 2 ^ 23 + 8, bm_v = replicate (2 ^ 20 + 1) 255\<rparr>"
  have bit: "bm_bit ?b k" if "k < 2 ^ 23 + 8" for k
  proof -
    have "k div 8 < 2 ^ 20 + 1" using that by (simp add: less_mult_imp_div_less)
    moreover have "bit (255 :: u8) j" if "j < 8" for j using that by (auto simp: numeral_eq_Suc less_Suc_eq)
    ultimately show ?thesis by (simp add: bm_bit_def)
  qed
  have cap: "bm_cap ?b = 2 ^ 23 + 8" by (simp add: bm_cap_def)
  have "bm_used ?b = {..<2 ^ 23 + 8}" using bit unfolding bm_used_def cap by auto
  moreover have "bitmap_inv ?b" using bit unfolding bitmap_inv_def cap by auto
  ultimately show ?thesis using small_fs_ok(1) cap by (simp add: fs_ok_def big_fs_def disk_ok_def quiet_def)
qed


end
