(* ===== verification/SfsDir.thy ===== *)
theory SfsDir
  imports SfsIo
begin

text \<open>
  Directories of SFS (\<^verbatim>\<open>kern/fs/sfs/sfs_vnode.c\<close>): a directory is a file of 64-byte slots. A name is the list of
  its bytes, without the terminating zero. The operations are shown to implement a finite map from names to
  inode numbers.
\<close>

subsection \<open>Slots\<close>

definition DIRSIZE :: nat where [layout_defs]: "DIRSIZE = 64"

text \<open>The position is computed in 32 bits.\<close>

definition slot_pos :: "nat \<Rightarrow> nat" where
  "slot_pos slot = unat (of_nat slot * of_nat DIRSIZE :: u32)"

definition sfs_readdir :: "sfs_vnode \<Rightarrow> nat \<Rightarrow> sfs_fs \<Rightarrow> (int \<times> sfs_dir \<times> sfs_vnode \<times> sfs_fs) run" where
  "sfs_readdir sv slot s =
     bindR (sfs_io sv (kernel_xfer UIO_READ (slot_pos slot) DIRSIZE []) s) (\<lambda>(result, sv, ku, s).
       if result \<noteq> 0 then Ok (result, dec_dir (x_data ku), sv, s)
       else if x_resid ku > 0 then Halt Panicked
       else Ok (0, dec_dir (x_data ku), sv, s))"

definition sfs_writedir :: "sfs_vnode \<Rightarrow> sfs_dir \<Rightarrow> nat \<Rightarrow> sfs_fs \<Rightarrow> (int \<times> sfs_vnode \<times> sfs_fs) run" where
  "sfs_writedir sv sd slot s =
     bindR (sfs_io sv (kernel_xfer UIO_WRITE (slot_pos slot) DIRSIZE (enc_dir sd)) s) (\<lambda>(result, sv, ku, s).
       if result \<noteq> 0 then Ok (result, sv, s)
       else if x_resid ku > 0 then Halt Panicked
       else Ok (0, sv, s))"

definition sfs_dir_nentries :: "sfs_vnode \<Rightarrow> nat run" where
  "sfs_dir_nentries sv =
     kassert (sfi_type (sv_i sv) = SFS_TYPE_DIR)
      (if unat (sfi_size (sv_i sv)) mod DIRSIZE \<noteq> 0 then Halt Panicked else Ok (unat (sfi_size (sv_i sv)) div DIRSIZE))"

subsection \<open>Searching\<close>

text \<open>The name in a slot as a C string, its last byte forced to zero.\<close>

definition cname :: "sfs_dir \<Rightarrow> u8 list" where
  "cname e = takeWhile (\<lambda>c. c \<noteq> 0) ((sfd_name e)[SFS_NAMELEN - 1 := 0])"

text \<open>The variables of the search: \<open>found\<close> with the inode number and slot handed back, and the last empty slot.\<close>

record dirsearch =
  ds_found :: "(u32 \<times> nat) option"
  ds_empty :: "nat option"

definition findname_slot :: "u8 list \<Rightarrow> nat \<Rightarrow> sfs_dir \<Rightarrow> dirsearch \<Rightarrow> dirsearch run" where
  "findname_slot name i tsd ds =
     (if sfd_ino tsd = SFS_NOINO then Ok (ds\<lparr>ds_empty := Some i\<rparr>)
      else if cname tsd = name then kassert (ds_found ds = None) (Ok (ds\<lparr>ds_found := Some (sfd_ino tsd, i)\<rparr>))
      else Ok ds)"

fun findname_loop :: "u8 list \<Rightarrow> nat \<Rightarrow> nat \<Rightarrow> dirsearch \<Rightarrow> sfs_vnode \<Rightarrow> sfs_fs \<Rightarrow> (int \<times> dirsearch \<times> sfs_vnode \<times> sfs_fs) run" where
  "findname_loop name i 0 ds sv s = Ok (if ds_found ds \<noteq> None then 0 else ENOENT, ds, sv, s)"
| "findname_loop name i (Suc left) ds sv s =
     bindR (sfs_readdir sv i s) (\<lambda>(result, tsd, sv, s).
       if result \<noteq> 0 then Ok (result, ds, sv, s)
       else bindR (findname_slot name i tsd ds) (\<lambda>ds. findname_loop name (Suc i) left ds sv s))"

definition sfs_dir_findname :: "sfs_vnode \<Rightarrow> u8 list \<Rightarrow> sfs_fs \<Rightarrow> (int \<times> dirsearch \<times> sfs_vnode \<times> sfs_fs) run" where
  "sfs_dir_findname sv name s =
     bindR (sfs_dir_nentries sv) (\<lambda>nentries. findname_loop name 0 nentries \<lparr>ds_found = None, ds_empty = None\<rparr> sv s)"

subsection \<open>Linking and unlinking\<close>

definition dir_entry :: "u32 \<Rightarrow> u8 list \<Rightarrow> sfs_dir" where
  "dir_entry ino name = \<lparr>sfd_ino = ino, sfd_name = name @ replicate (SFS_NAMELEN - length name) 0\<rparr>"

text \<open>The slot that is handed back is the last component but two; it is only meaningful when the result is zero.\<close>

definition sfs_dir_link :: "sfs_vnode \<Rightarrow> u8 list \<Rightarrow> u32 \<Rightarrow> sfs_fs \<Rightarrow> (int \<times> nat \<times> sfs_vnode \<times> sfs_fs) run" where
  "sfs_dir_link sv name ino s =
     bindR (sfs_dir_findname sv name s) (\<lambda>(result, ds, sv, s).
       if result \<noteq> 0 \<and> result \<noteq> ENOENT then Ok (result, 0, sv, s)
       else if result = 0 then Ok (EEXIST, 0, sv, s)
       else if length name + 1 > SFS_NAMELEN then Ok (ENAMETOOLONG, 0, sv, s)
       else
         bindR (case ds_empty ds of None \<Rightarrow> sfs_dir_nentries sv | Some k \<Rightarrow> Ok k) (\<lambda>emptyslot.
           bindR (sfs_writedir sv (dir_entry ino name) emptyslot s) (\<lambda>(result, sv, s). Ok (result, emptyslot, sv, s))))"

definition sfs_dir_unlink :: "sfs_vnode \<Rightarrow> nat \<Rightarrow> sfs_fs \<Rightarrow> (int \<times> sfs_vnode \<times> sfs_fs) run" where
  "sfs_dir_unlink sv slot s = sfs_writedir sv (dir_entry SFS_NOINO []) slot s"

subsection \<open>Directories as finite maps\<close>

definition dir_entries :: "(u32 \<Rightarrow> u8 list) \<Rightarrow> sfs_inode \<Rightarrow> sfs_dir list" where
  "dir_entries f i = map (\<lambda>k. dec_dir (file_read f i (k * DIRSIZE) DIRSIZE)) [0..<unat (sfi_size i) div DIRSIZE]"

definition names_at :: "sfs_dir list \<Rightarrow> u8 list \<Rightarrow> nat set" where
  "names_at es name = {k. k < length es \<and> sfd_ino (es ! k) \<noteq> SFS_NOINO \<and> cname (es ! k) = name}"

definition unique_names :: "sfs_dir list \<Rightarrow> bool" where
  "unique_names es \<longleftrightarrow> (\<forall>a b. a < length es \<longrightarrow> b < length es \<longrightarrow> sfd_ino (es ! a) \<noteq> SFS_NOINO \<longrightarrow> sfd_ino (es ! b) \<noteq> SFS_NOINO
     \<longrightarrow> cname (es ! a) = cname (es ! b) \<longrightarrow> a = b)"

definition dir_map :: "sfs_dir list \<Rightarrow> u8 list \<rightharpoonup> u32" where
  "dir_map es name = (case filter (\<lambda>e. sfd_ino e \<noteq> SFS_NOINO \<and> cname e = name) es of [] \<Rightarrow> None | e # _ \<Rightarrow> Some (sfd_ino e))"

definition dir_ok :: "sfs_fs \<Rightarrow> sfs_vnode \<Rightarrow> bool" where
  "dir_ok s sv \<longleftrightarrow> fs_ok s \<and> addressable s \<and> file_ok s (sv_i sv) \<and> sfi_type (sv_i sv) = SFS_TYPE_DIR
     \<and> unat (sfi_size (sv_i sv)) mod DIRSIZE = 0 \<and> unat (sfi_size (sv_i sv)) \<le> SFS_MAXFILE \<and> unique_names (dir_entries (fs_data s) (sv_i sv))"

lemma dir_entries_length [simp]: "length (dir_entries f i) = unat (sfi_size i) div DIRSIZE"
  by (simp add: dir_entries_def)

lemma nentries_spec: "dir_ok s sv \<Longrightarrow> sfs_dir_nentries sv = Ok (length (dir_entries (fs_data s) (sv_i sv)))"
  by (simp add: dir_ok_def sfs_dir_nentries_def)

lemma slot_pos_small: "slot * DIRSIZE < 2 ^ 32 \<Longrightarrow> slot_pos slot = slot * DIRSIZE"
  by (simp add: slot_pos_def unat_word_ariths unat_of_nat layout_defs)

lemma undisturbed_dir: "undisturbed s s' \<Longrightarrow> dir_ok s sv \<Longrightarrow> dir_ok s' sv"
  using undisturbed_file addressable_same by (auto simp: dir_ok_def undisturbed_def)

lemma readdir_spec:
  assumes d: "dir_ok s sv" and slot: "slot < unat (sfi_size (sv_i sv)) div DIRSIZE"
  obtains s' where "sfs_readdir sv slot s = Ok (0, dir_entries (fs_data s) (sv_i sv) ! slot, sv, s')" and "undisturbed s s'"
proof -
  have p: "fs_ok s" "addressable s" "file_ok s (sv_i sv)" "unat (sfi_size (sv_i sv)) \<le> SFS_MAXFILE" using d by (simp_all add: dir_ok_def)
  have lt: "slot * DIRSIZE + DIRSIZE \<le> unat (sfi_size (sv_i sv))" using slot d by (auto simp: dir_ok_def layout_defs)
  have pos: "slot_pos slot = slot * DIRSIZE" using lt p(4) by (intro slot_pos_small) (simp add: layout_defs)
  let ?u = "kernel_xfer UIO_READ (slot_pos slot) DIRSIZE []"
  have u: "steady ?u" "x_rw ?u = UIO_READ" "x_resid ?u < 2 ^ 32" by (simp_all add: kernel_xfer_def steady_def layout_defs)
  have off: "x_off ?u = slot * DIRSIZE" "x_resid ?u = DIRSIZE" "x_data ?u = []" using pos by (simp_all add: kernel_xfer_def)
  have "min (x_resid ?u) (unat (sfi_size (sv_i sv)) - x_off ?u) = DIRSIZE" using lt off by simp
  with sfs_io_read [OF p u] obtain u' s' where "sfs_io sv ?u s = Ok (0, sv, u', s')" "undisturbed s s'"
    "x_read ?u (file_read (fs_data s) (sv_i sv) (slot * DIRSIZE) DIRSIZE) u'" unfolding off(1) by metis
  then show thesis using that slot off by (simp add: sfs_readdir_def x_read_def dir_entries_def)
qed

subsection \<open>What the search finds\<close>

definition found_upto :: "sfs_dir list \<Rightarrow> u8 list \<Rightarrow> nat \<Rightarrow> dirsearch \<Rightarrow> bool" where
  "found_upto es name i ds \<longleftrightarrow>
     (case ds_found ds of None \<Rightarrow> \<forall>k<i. k \<notin> names_at es name | Some (ino, k) \<Rightarrow> k < i \<and> k \<in> names_at es name \<and> ino = sfd_ino (es ! k))
     \<and> (case ds_empty ds of None \<Rightarrow> \<forall>k<i. sfd_ino (es ! k) \<noteq> SFS_NOINO | Some k \<Rightarrow> k < i \<and> sfd_ino (es ! k) = SFS_NOINO)"

lemma names_at_unique: "unique_names es \<Longrightarrow> a \<in> names_at es name \<Longrightarrow> b \<in> names_at es name \<Longrightarrow> a = b"
  by (simp add: unique_names_def names_at_def)

lemma found_upto_step:
  assumes u: "unique_names es" and f: "found_upto es name i ds" and i: "i < length es"
  shows "\<exists>ds'. findname_slot name i (es ! i) ds = Ok ds' \<and> found_upto es name (Suc i) ds'"
proof -
  consider (free) "sfd_ino (es ! i) = SFS_NOINO" | (hit) "sfd_ino (es ! i) \<noteq> SFS_NOINO" "cname (es ! i) = name"
    | (other) "sfd_ino (es ! i) \<noteq> SFS_NOINO" "cname (es ! i) \<noteq> name" by blast
  then show ?thesis
  proof cases
    case free
    then have "i \<notin> names_at es name" by (simp add: names_at_def)
    then have "found_upto es name (Suc i) (ds\<lparr>ds_empty := Some i\<rparr>)" using f free by (auto simp: found_upto_def less_Suc_eq split: option.splits)
    then show ?thesis using free by (simp add: findname_slot_def)
  next
    case hit
    then have n: "i \<in> names_at es name" using i by (simp add: names_at_def)
    then have "k \<notin> names_at es name" if "k < i" for k using names_at_unique [OF u n] that by blast
    with f have none: "ds_found ds = None" by (cases "ds_found ds") (auto simp: found_upto_def)
    have "found_upto es name (Suc i) (ds\<lparr>ds_found := Some (sfd_ino (es ! i), i)\<rparr>)"
      using f hit n by (auto simp: found_upto_def less_Suc_eq split: option.splits)
    then show ?thesis using hit none by (simp add: findname_slot_def)
  next
    case other
    then have "i \<notin> names_at es name" by (simp add: names_at_def)
    then have "found_upto es name (Suc i) ds" using f other by (auto simp: found_upto_def less_Suc_eq split: option.splits)
    then show ?thesis using other by (simp add: findname_slot_def)
  qed
qed

lemma findname_loop_spec:
  assumes "dir_ok s sv" and "found_upto (dir_entries (fs_data s) (sv_i sv)) name i ds" and "i + n = length (dir_entries (fs_data s) (sv_i sv))"
  shows "\<exists>ds' s'. findname_loop name i n ds sv s = Ok (if ds_found ds' \<noteq> None then 0 else ENOENT, ds', sv, s') \<and> undisturbed s s'
    \<and> found_upto (dir_entries (fs_data s) (sv_i sv)) name (length (dir_entries (fs_data s) (sv_i sv))) ds'"
  using assms
proof (induction n arbitrary: i ds s)
  case 0
  then show ?case using undisturbed_refl by (auto simp: dir_ok_def)
next
  case (Suc n)
  let ?es = "dir_entries (fs_data s) (sv_i sv)"
  have lt: "i < length ?es" using Suc.prems(3) by simp
  then have "i < unat (sfi_size (sv_i sv)) div DIRSIZE" by simp
  then obtain s' where r: "sfs_readdir sv i s = Ok (0, ?es ! i, sv, s')" "undisturbed s s'" by (rule readdir_spec [OF Suc.prems(1)])
  have "unique_names ?es" using Suc.prems(1) by (simp add: dir_ok_def)
  then obtain ds' where f: "findname_slot name i (?es ! i) ds = Ok ds'" "found_upto ?es name (Suc i) ds'"
    using found_upto_step [OF _ Suc.prems(2) lt] by blast
  have es: "dir_entries (fs_data s') (sv_i sv) = ?es" using r(2) by (simp add: undisturbed_def)
  have "Suc i + n = length ?es" using Suc.prems(3) by simp
  from Suc.IH [OF undisturbed_dir [OF r(2) Suc.prems(1)], unfolded es, OF f(2) this] undisturbed_trans [OF r(2)]
  show ?case unfolding findname_loop.simps r(1) by (fastforce simp: f(1))
qed

lemma findname_spec:
  assumes "dir_ok s sv"
  obtains ds s' where "sfs_dir_findname sv name s = Ok (if ds_found ds \<noteq> None then 0 else ENOENT, ds, sv, s')" and "undisturbed s s'"
    and "found_upto (dir_entries (fs_data s) (sv_i sv)) name (length (dir_entries (fs_data s) (sv_i sv))) ds"
proof -
  have "found_upto (dir_entries (fs_data s) (sv_i sv)) name 0 \<lparr>ds_found = None, ds_empty = None\<rparr>" by (simp add: found_upto_def)
  from findname_loop_spec [OF assms this, of "length (dir_entries (fs_data s) (sv_i sv))"]
  show thesis using that by (auto simp: sfs_dir_findname_def nentries_spec [OF assms])
qed

text \<open>The map in terms of positions.\<close>

lemma dir_map_Some_iff:
  assumes "unique_names es"
  shows "dir_map es name = Some ino \<longleftrightarrow> (\<exists>k\<in>names_at es name. ino = sfd_ino (es ! k))"
proof (cases "filter (\<lambda>e. sfd_ino e \<noteq> SFS_NOINO \<and> cname e = name) es")
  case Nil
  then have "names_at es name = {}" by (auto simp: names_at_def filter_empty_conv)
  then show ?thesis using Nil by (simp add: dir_map_def)
next
  case (Cons e xs)
  then have "e \<in> set (filter (\<lambda>e. sfd_ino e \<noteq> SFS_NOINO \<and> cname e = name) es)" by simp
  then obtain k where k: "k < length es" "e = es ! k" "sfd_ino e \<noteq> SFS_NOINO" "cname e = name" by (auto simp: in_set_conv_nth)
  then have n: "k \<in> names_at es name" by (simp add: names_at_def)
  then have "names_at es name = {k}" using names_at_unique [OF assms n] by blast
  then show ?thesis using Cons k by (auto simp: dir_map_def)
qed

lemma dir_map_None_iff: "dir_map es name = None \<longleftrightarrow> names_at es name = {}"
proof -
  have "dir_map es name = None \<longleftrightarrow> filter (\<lambda>e. sfd_ino e \<noteq> SFS_NOINO \<and> cname e = name) es = []" by (simp add: dir_map_def split: list.split)
  also have "\<dots> \<longleftrightarrow> names_at es name = {}" by (auto simp: filter_empty_conv all_set_conv_all_nth names_at_def)
  finally show ?thesis .
qed

lemma found_upto_map:
  assumes "unique_names es" and "found_upto es name (length es) ds"
  shows "map_option fst (ds_found ds) = dir_map es name"
proof (cases "ds_found ds")
  case None
  then have "names_at es name = {}" using assms(2) by (auto simp: found_upto_def names_at_def)
  then show ?thesis using None dir_map_None_iff [of es name] by simp
next
  case (Some p)
  obtain ino k where p: "p = (ino, k)" by (cases p)
  then have "k \<in> names_at es name" "ino = sfd_ino (es ! k)" using assms(2) Some by (auto simp: found_upto_def)
  then have "dir_map es name = Some ino" using dir_map_Some_iff [OF assms(1), of name ino] by blast
  then show ?thesis using Some p by simp
qed

subsection \<open>Writing a slot\<close>

text \<open>A write within one block is done completely or not at all.\<close>

lemma io_in_block:
  assumes "0 < x_resid u" and "x_resid u < SFS_BLOCKSIZE" and "x_off u mod SFS_BLOCKSIZE + x_resid u \<le> SFS_BLOCKSIZE"
    and p: "sfs_partialio sv u (x_off u mod SFS_BLOCKSIZE) (x_resid u) s = Ok (r, sv', u', s')" and "r = 0 \<Longrightarrow> x_resid u' = 0"
  shows "io_body sv u s = Ok (r, sv', u', s')"
proof (cases "x_off u mod SFS_BLOCKSIZE = 0")
  case True
  then show ?thesis using assms by (simp add: io_body_def io_tail_def)
next
  case False
  then have "min (SFS_BLOCKSIZE - x_off u mod SFS_BLOCKSIZE) (x_resid u) = x_resid u" using assms(3) by simp
  then show ?thesis using False p assms(5) by (auto simp: io_body_def io_tail_def Let_def)
qed

lemma write_in_block:
  assumes w: "write_ready s sv u" and u: "0 < x_resid u" "x_resid u < SFS_BLOCKSIZE" "x_off u mod SFS_BLOCKSIZE + x_resid u \<le> SFS_BLOCKSIZE" "x_off u < SFS_MAXFILE"
  shows "(\<exists>v u' s'. sfs_io sv u s = Ok (0, sized (x_off u + x_resid u) v, u', s') \<and> io_wrote s sv (x_off u) (take (x_resid u) (x_data u)) s' v \<and> x_resid u' = 0)
    \<or> (\<exists>v u' s'. sfs_io sv u s = Ok (ENOSPC, sized (x_off u) v, u', s') \<and> io_wrote s sv (x_off u) [] s' v \<and> blocks_in_use s' = {..<bm_cap (sfs_freemap s')}
        \<and> fblocks (fs_data s) (sv_i sv) ! (x_off u div SFS_BLOCKSIZE) = 0)"
proof -
  obtain y where y: "sfs_partialio sv u (x_off u mod SFS_BLOCKSIZE) (x_resid u) s = Ok y" "wrote_upto s sv u (x_resid u) y"
    "fst y \<noteq> 0 \<Longrightarrow> fst (snd (snd y)) = u \<and> fblocks (fs_data s) (sv_i sv) ! (x_off u div SFS_BLOCKSIZE) = 0" using partial_writes [OF w order.refl u(4,3)] by blast
  obtain r v u' s' where yy: "y = (r, v, u', s')" by (cases y)
  from y(2) obtain bs where bs: "io_wrote s sv (x_off u) bs s' v" "x_wrote u bs u'"
    "if r = 0 then length bs = x_resid u else r = ENOSPC \<and> blocks_in_use s' = {..<bm_cap (sfs_freemap s')}" unfolding yy wrote_upto_def by auto
  have "io_body sv u s = Ok (r, v, u', s')" using y(1) yy bs u by (intro io_in_block) (auto simp: x_wrote_def)
  then have io: "sfs_io sv u s = Ok (r, sized (x_off u') v, u', s')" using w bs(2) by (simp add: sfs_io_def io_out_def write_ready_def x_wrote_def)
  show ?thesis
  proof (cases "r = 0")
    case True
    then have "bs = take (x_resid u) (x_data u)" "x_off u' = x_off u + x_resid u" "x_resid u' = 0" using bs(2,3) by (simp_all add: x_wrote_def)
    then show ?thesis using io bs(1) True by auto
  next
    case False
    then have "u' = u" "fblocks (fs_data s) (sv_i sv) ! (x_off u div SFS_BLOCKSIZE) = 0" using y(3) yy by simp_all
    moreover from this have "bs = []" using bs(2) by (simp add: x_wrote_def)
    ultimately show ?thesis using io bs False by auto
  qed
qed

lemma file_read_wrote:
  assumes "io_wrote s sv off bs s' v" and "p + n \<le> SFS_MAXFILE" and "p + n \<le> off \<or> off + length bs \<le> p"
  shows "file_read (fs_data s') (sv_i v) p n = file_read (fs_data s) (sv_i sv) p n"
  unfolding file_read_def using assms by (auto simp: io_wrote_def)

lemma file_read_sized [simp]: "file_read f (sv_i (sized n sv)) = file_read f (sv_i sv)"
  by (simp add: fun_eq_iff file_read_def)

lemma file_read_written:
  assumes "io_wrote s sv off bs s' v" and "off + length bs \<le> SFS_MAXFILE"
  shows "file_read (fs_data s') (sv_i v) off (length bs) = bs"
  by (rule nth_equalityI) (use assms in \<open>simp_all add: file_read_def io_wrote_def\<close>)

lemma dir_entries_written:
  assumes w: "io_wrote s sv (slot * DIRSIZE) (enc_dir sd) s' v" and sd: "dir_shape sd" and d: "dir_ok s sv"
    and slot: "slot \<le> length (dir_entries (fs_data s) (sv_i sv))" "slot * DIRSIZE < SFS_MAXFILE"
  defines "es \<equiv> dir_entries (fs_data s) (sv_i sv)" and "sv' \<equiv> sized (slot * DIRSIZE + DIRSIZE) v"
  shows "dir_entries (fs_data s') (sv_i sv') = (if slot < length es then es[slot := sd] else es @ [sd])"
    and "unat (sfi_size (sv_i sv')) = (if slot < length es then unat (sfi_size (sv_i sv)) else unat (sfi_size (sv_i sv)) + DIRSIZE)"
proof -
  have len: "length (enc_dir sd) = DIRSIZE" using enc_dir_length [OF sd] by (simp add: layout_defs)
  have max: "slot * DIRSIZE + DIRSIZE \<le> SFS_MAXFILE" using slot(2) by (simp add: layout_defs)
  have z: "unat (sfi_size (sv_i sv)) = length es * DIRSIZE" "length es * DIRSIZE \<le> SFS_MAXFILE" using d by (auto simp: dir_ok_def es_def layout_defs)
  have size: "unat (sfi_size (sv_i sv')) = max (length es * DIRSIZE) (slot * DIRSIZE + DIRSIZE)"
    unfolding sv'_def using size_sized [of "slot * DIRSIZE + DIRSIZE" v] max w z(1) by (simp add: io_wrote_def same_inode_def layout_defs)
  show sz: "unat (sfi_size (sv_i sv')) = (if slot < length es then unat (sfi_size (sv_i sv)) else unat (sfi_size (sv_i sv)) + DIRSIZE)"
  proof (cases "slot < length es")
    case True
    then have "slot * DIRSIZE + DIRSIZE \<le> length es * DIRSIZE" by (simp add: layout_defs)
    then show ?thesis using True unfolding size z(1) by simp
  next
    case False
    then have "slot = length es" using slot(1) by (simp add: es_def)
    then show ?thesis unfolding size z(1) by simp
  qed
  let ?n = "unat (sfi_size (sv_i sv')) div DIRSIZE"
  have n: "?n = (if slot < length es then length es else Suc (length es))" using sz z(1) by (simp add: layout_defs)
  have at: "dec_dir (file_read (fs_data s') (sv_i sv') (k * DIRSIZE) DIRSIZE) = (if k = slot then sd else es ! k)" if "k < ?n" for k
  proof (cases "k = slot")
    case True
    have "file_read (fs_data s') (sv_i v) (slot * DIRSIZE) (length (enc_dir sd)) = enc_dir sd" using max len by (intro file_read_written [OF w]) simp
    then show ?thesis using True dec_enc_dir [OF sd] by (simp add: len sv'_def)
  next
    case False
    then have k: "k < length es" using that n slot(1) by (auto simp: es_def split: if_splits)
    then have "k * DIRSIZE + DIRSIZE \<le> SFS_MAXFILE" using z(2) by (simp add: layout_defs)
    moreover have "k * DIRSIZE + DIRSIZE \<le> slot * DIRSIZE \<or> slot * DIRSIZE + length (enc_dir sd) \<le> k * DIRSIZE"
      using False len by (auto simp: layout_defs)
    ultimately have "file_read (fs_data s') (sv_i v) (k * DIRSIZE) DIRSIZE = file_read (fs_data s) (sv_i sv) (k * DIRSIZE) DIRSIZE"
      by (rule file_read_wrote [OF w])
    then show ?thesis using False k by (simp add: sv'_def es_def dir_entries_def)
  qed
  show "dir_entries (fs_data s') (sv_i sv') = (if slot < length es then es[slot := sd] else es @ [sd])"
  proof -
    have "slot \<le> length es" using slot(1) by (simp only: es_def)
    then show ?thesis by (intro nth_equalityI) (use n at in \<open>auto simp: dir_entries_def [of "fs_data s'"] nth_append nth_list_update\<close>)
  qed
qed

text \<open>What writing a slot leaves alone.\<close>

definition dir_frame :: "sfs_fs \<Rightarrow> sfs_vnode \<Rightarrow> sfs_fs \<Rightarrow> sfs_vnode \<Rightarrow> bool" where
  "dir_frame s sv s' sv' \<longleftrightarrow> fs_ok s' \<and> addressable s' \<and> file_ok s' (sv_i sv') \<and> same_fs s s' \<and> remapped sv sv'
     \<and> sfi_type (sv_i sv') = sfi_type (sv_i sv) \<and> sfi_linkcount (sv_i sv') = sfi_linkcount (sv_i sv)
     \<and> unat (sfi_size (sv_i sv')) mod DIRSIZE = 0 \<and> unat (sfi_size (sv_i sv')) \<le> SFS_MAXFILE
     \<and> owned (fs_data s) (sv_i sv) \<subseteq> owned (fs_data s') (sv_i sv')
     \<and> blocks_in_use s' = blocks_in_use s \<union> unat ` (owned (fs_data s') (sv_i sv') - owned (fs_data s) (sv_i sv))
     \<and> unat ` (owned (fs_data s') (sv_i sv') - owned (fs_data s) (sv_i sv)) \<inter> blocks_in_use s = {}
     \<and> (\<forall>b. b \<notin> owned (fs_data s') (sv_i sv') \<longrightarrow> fs_data s' b = fs_data s b)"

lemma dir_frame_ok: "dir_frame s sv s' sv' \<Longrightarrow> sfi_type (sv_i sv) = SFS_TYPE_DIR \<Longrightarrow> unique_names (dir_entries (fs_data s') (sv_i sv')) \<Longrightarrow> dir_ok s' sv'"
  by (simp add: dir_frame_def dir_ok_def)

lemma owned_sized [simp]: "owned f (sv_i (sized n v)) = owned f (sv_i v)"
  by (simp add: sized_def owned_def fblocks_def idwords_def)

lemma remapped_sized: "remapped sv v \<Longrightarrow> remapped sv (sized n v)"
  by (simp add: remapped_def sized_def)

lemma io_wrote_frame:
  assumes "io_wrote s sv off bs s' v" and "dir_ok s sv" and "unat (sfi_size (sv_i (sized n v))) mod DIRSIZE = 0" and "unat (sfi_size (sv_i (sized n v))) \<le> SFS_MAXFILE"
  shows "dir_frame s sv s' (sized n v)"
proof -
  have "sfi_type (sv_i (sized n v)) = sfi_type (sv_i sv)" "sfi_linkcount (sv_i (sized n v)) = sfi_linkcount (sv_i sv)"
    using assms(1) by (simp_all add: sized_def io_wrote_def same_inode_def)
  then show ?thesis using assms addressable_same [of s s'] remapped_sized [of sv v n] by (simp add: dir_frame_def io_wrote_def dir_ok_def)
qed

lemma writedir_spec:
  assumes d: "dir_ok s sv" and sd: "dir_shape sd" and slot: "slot \<le> length (dir_entries (fs_data s) (sv_i sv))" "slot * DIRSIZE < SFS_MAXFILE"
  obtains (written) sv' s' where "sfs_writedir sv sd slot s = Ok (0, sv', s')" and "dir_frame s sv s' sv'"
    and "dir_entries (fs_data s') (sv_i sv') = (if slot < length (dir_entries (fs_data s) (sv_i sv)) then (dir_entries (fs_data s) (sv_i sv))[slot := sd]
       else dir_entries (fs_data s) (sv_i sv) @ [sd])"
  | (full) sv' s' where "sfs_writedir sv sd slot s = Ok (ENOSPC, sv', s')" and "dir_frame s sv s' sv'"
    and "dir_entries (fs_data s') (sv_i sv') = dir_entries (fs_data s) (sv_i sv)" and "blocks_in_use s' = {..<bm_cap (sfs_freemap s')}"
    and "fblocks (fs_data s) (sv_i sv) ! (slot * DIRSIZE div SFS_BLOCKSIZE) = 0"
proof -
  let ?es = "dir_entries (fs_data s) (sv_i sv)" and ?u = "kernel_xfer UIO_WRITE (slot_pos slot) DIRSIZE (enc_dir sd)"
  have len: "length (enc_dir sd) = DIRSIZE" using enc_dir_length [OF sd] by (simp add: layout_defs)
  have "slot_pos slot = slot * DIRSIZE" using slot(2) by (intro slot_pos_small) (simp add: layout_defs)
  then have u: "x_off ?u = slot * DIRSIZE" "x_resid ?u = DIRSIZE" "x_data ?u = enc_dir sd" by (simp_all add: kernel_xfer_def)
  have w: "write_ready s sv ?u" using d len by (simp add: dir_ok_def write_ready_def kernel_xfer_def steady_def)
  have "slot * 64 mod 512 = slot mod 8 * 64" using mult_mod_right [of 64 slot 8] by (simp add: mult.commute)
  then have "x_off ?u mod SFS_BLOCKSIZE + x_resid ?u \<le> SFS_BLOCKSIZE" unfolding u by (simp add: layout_defs)
  moreover have "0 < x_resid ?u" "x_resid ?u < SFS_BLOCKSIZE" "x_off ?u < SFS_MAXFILE" using slot(2) unfolding u by (simp_all add: layout_defs)
  ultimately consider (1) v u' s' where "sfs_io sv ?u s = Ok (0, sized (slot * DIRSIZE + DIRSIZE) v, u', s')" "io_wrote s sv (slot * DIRSIZE) (enc_dir sd) s' v" "x_resid u' = 0"
    | (2) v u' s' where "sfs_io sv ?u s = Ok (ENOSPC, sized (slot * DIRSIZE) v, u', s')" "io_wrote s sv (slot * DIRSIZE) [] s' v" "blocks_in_use s' = {..<bm_cap (sfs_freemap s')}"
      "fblocks (fs_data s) (sv_i sv) ! (slot * DIRSIZE div SFS_BLOCKSIZE) = 0"
    using write_in_block [OF w] len unfolding u by auto
  then show thesis
  proof cases
    case 1
    note e = dir_entries_written [OF 1(2) sd d slot]
    have z: "unat (sfi_size (sv_i sv)) mod DIRSIZE = 0" "unat (sfi_size (sv_i sv)) \<le> SFS_MAXFILE" using d by (simp_all add: dir_ok_def)
    have "unat (sfi_size (sv_i (sized (slot * DIRSIZE + DIRSIZE) v))) mod DIRSIZE = 0" unfolding e(2) using z by simp
    moreover have "unat (sfi_size (sv_i (sized (slot * DIRSIZE + DIRSIZE) v))) \<le> SFS_MAXFILE"
      unfolding e(2) using z slot by (auto simp: layout_defs)
    ultimately have "dir_frame s sv s' (sized (slot * DIRSIZE + DIRSIZE) v)" by (rule io_wrote_frame [OF 1(2) d])
    then show thesis using written [OF _ _ e(1)] 1 by (simp add: sfs_writedir_def)
  next
    case 2
    have z: "unat (sfi_size (sv_i v)) = unat (sfi_size (sv_i sv))" "slot * DIRSIZE \<le> unat (sfi_size (sv_i sv))"
      using 2(2) slot(1) by (auto simp: io_wrote_def same_inode_def layout_defs)
    then have v: "sized (slot * DIRSIZE) v = v" by (simp add: sized_def)
    have "file_read (fs_data s') (sv_i v) (k * DIRSIZE) DIRSIZE = file_read (fs_data s) (sv_i sv) (k * DIRSIZE) DIRSIZE" if "k < length ?es" for k
      using that d by (intro file_read_wrote [OF 2(2)]) (auto simp: dir_ok_def layout_defs)
    then have "dir_entries (fs_data s') (sv_i v) = ?es" by (simp add: dir_entries_def z(1))
    moreover have "dir_frame s sv s' v" using io_wrote_frame [OF 2(2) d, of "slot * DIRSIZE"] v z d by (simp add: dir_ok_def)
    ultimately show thesis using full 2 v by (simp add: sfs_writedir_def ENOSPC_def)
  qed
qed

subsection \<open>Linking and unlinking\<close>

text \<open>A usable name: no zero byte, and it fits with its terminator.\<close>

definition name_ok :: "u8 list \<Rightarrow> bool" where
  "name_ok name \<longleftrightarrow> 0 \<notin> set name \<and> length name + 1 \<le> SFS_NAMELEN"

lemma dir_entry_shape: "length name \<le> SFS_NAMELEN \<Longrightarrow> dir_shape (dir_entry ino name)"
  by (simp add: dir_shape_def dir_entry_def layout_defs)

lemma cname_dir_entry: "name_ok name \<Longrightarrow> cname (dir_entry ino name) = name"
proof -
  assume n: "name_ok name"
  have "(name @ replicate (60 - length name) 0)[59 := 0] = name @ replicate (60 - length name) (0 :: u8)"
    using n by (simp add: list_update_append name_ok_def layout_defs) (metis list_update_id nth_replicate list_update_beyond not_le length_replicate)
  moreover have "length name \<le> 59" using n by (simp add: name_ok_def layout_defs)
  then have "60 - length name = Suc (59 - length name)" by arith
  moreover have "takeWhile (\<lambda>c. c \<noteq> 0) (name @ 0 # xs) = name" for xs using n by (subst takeWhile_append2) (auto simp: name_ok_def)
  ultimately show ?thesis by (simp add: cname_def dir_entry_def layout_defs)
qed

lemma names_at_written:
  assumes "slot \<le> length es"
  shows "names_at (if slot < length es then es[slot := e] else es @ [e]) m
    = (names_at es m - {slot}) \<union> (if sfd_ino e \<noteq> SFS_NOINO \<and> cname e = m then {slot} else {})"
  using assms by (auto simp: names_at_def nth_append nth_list_update split: if_splits)

lemma unique_names_alt: "unique_names es \<longleftrightarrow> (\<forall>m a b. a \<in> names_at es m \<longrightarrow> b \<in> names_at es m \<longrightarrow> a = b)"
  by (auto simp: unique_names_def names_at_def)

lemma dir_map_eqI:
  assumes "unique_names es" and "unique_names es'" and "names_at es m = names_at es' m" and "\<And>k. k \<in> names_at es m \<Longrightarrow> sfd_ino (es ! k) = sfd_ino (es' ! k)"
  shows "dir_map es m = dir_map es' m"
proof (rule option.expand)
  show "(dir_map es m = None) = (dir_map es' m = None)" using assms(3) by (simp only: dir_map_None_iff)
  fix a
  show "the (dir_map es m) = the (dir_map es' m)" if "dir_map es m \<noteq> None" "dir_map es' m \<noteq> None"
    using that assms dir_map_Some_iff [OF assms(1), of m] dir_map_Some_iff [OF assms(2), of m] by fastforce
qed

text \<open>Putting an entry for a name that is not there into a free slot, or clearing a slot, updates the map.\<close>

lemma link_map:
  assumes u: "unique_names es" and s: "slot \<le> length es" "slot < length es \<longrightarrow> sfd_ino (es ! slot) = SFS_NOINO" and n: "dir_map es name = None" "cname e = name" "sfd_ino e \<noteq> SFS_NOINO"
  defines "es' \<equiv> (if slot < length es then es[slot := e] else es @ [e])"
  shows "unique_names es'" and "dir_map es' = (dir_map es)(name \<mapsto> sfd_ino e)"
proof -
  have at: "names_at es' m = (if m = name then {slot} else names_at es m)" for m
  proof -
    have "slot \<notin> names_at es m" for m using s by (auto simp: names_at_def)
    moreover have "names_at es name = {}" using n(1) dir_map_None_iff by blast
    ultimately show ?thesis using names_at_written [OF s(1), of e m] n(2,3) unfolding es'_def by auto
  qed
  show u': "unique_names es'" unfolding unique_names_alt at using u [unfolded unique_names_alt] by auto
  have nth: "es' ! slot = e" "\<And>k. k < length es \<Longrightarrow> k \<noteq> slot \<Longrightarrow> es' ! k = es ! k" using s(1) by (auto simp: es'_def nth_append)
  show "dir_map es' = (dir_map es)(name \<mapsto> sfd_ino e)"
  proof
    fix m
    show "dir_map es' m = ((dir_map es)(name \<mapsto> sfd_ino e)) m"
    proof (cases "m = name")
      case True
      then show ?thesis using dir_map_Some_iff [OF u', of name "sfd_ino e"] at nth(1) by simp
    next
      case False
      have "sfd_ino (es' ! k) = sfd_ino (es ! k)" if "k \<in> names_at es' m" for k
      proof -
        have "k \<in> names_at es m" using that at False by simp
        then have "k < length es" "k \<noteq> slot" using s(2) by (auto simp: names_at_def)
        then show ?thesis using nth(2) by simp
      qed
      then show ?thesis using dir_map_eqI [OF u' u] at False by simp
    qed
  qed
qed

lemma unlink_map:
  assumes u: "unique_names es" and slot: "slot \<in> names_at es name" and e: "sfd_ino e = SFS_NOINO"
  shows "unique_names (es[slot := e])" and "dir_map (es[slot := e]) = (dir_map es)(name := None)"
proof -
  have lt: "slot < length es" "cname (es ! slot) = name" using slot by (simp_all add: names_at_def)
  have at: "names_at (es[slot := e]) m = (if m = name then {} else names_at es m)" for m
  proof -
    have "names_at es name = {slot}" using names_at_unique [OF u slot] slot by blast
    moreover have "slot \<notin> names_at es m" if "m \<noteq> name" using lt that by (simp add: names_at_def)
    ultimately show ?thesis using names_at_written [of slot es e m] lt(1) e by auto
  qed
  show u': "unique_names (es[slot := e])" unfolding unique_names_alt at using u [unfolded unique_names_alt] by auto
  show "dir_map (es[slot := e]) = (dir_map es)(name := None)"
  proof
    fix m
    show "dir_map (es[slot := e]) m = ((dir_map es)(name := None)) m"
    proof (cases "m = name")
      case True
      then show ?thesis using dir_map_None_iff [of "es[slot := e]" name] at by simp
    next
      case False
      have "sfd_ino (es[slot := e] ! k) = sfd_ino (es ! k)" if "k \<in> names_at (es[slot := e]) m" for k
      proof -
        have "k \<noteq> slot" using that e lt(1) by (cases "k = slot") (simp_all add: names_at_def)
        then show ?thesis by simp
      qed
      then show ?thesis using dir_map_eqI [OF u' u, of m] at False by simp
    qed
  qed
qed

lemma undisturbed_frame: "dir_ok s sv \<Longrightarrow> undisturbed s s' \<Longrightarrow> dir_frame s sv s' sv"
  using undisturbed_file [of s s' "sv_i sv"] addressable_same [of s s'] by (simp add: dir_frame_def undisturbed_def dir_ok_def)

lemma dir_frame_after:
  assumes "undisturbed s s'" and "dir_frame s' sv s'' sv'"
  shows "dir_frame s sv s'' sv'"
proof -
  have "fs_data s' = fs_data s" "blocks_in_use s' = blocks_in_use s" "same_fs s s'" "same_fs s' s''"
    using assms by (simp_all add: undisturbed_def dir_frame_def)
  then show ?thesis using assms(2) same_fs_trans [of s s' s''] unfolding dir_frame_def by simp
qed

text \<open>The directory has room for another slot within the largest file.\<close>

definition dir_room :: "sfs_vnode \<Rightarrow> bool" where
  "dir_room sv \<longleftrightarrow> unat (sfi_size (sv_i sv)) < SFS_MAXFILE"

lemma dir_link_spec:
  assumes d: "dir_ok s sv" and room: "dir_room sv" and ino: "ino \<noteq> SFS_NOINO" and name: "0 \<notin> set name"
  defines "es \<equiv> dir_entries (fs_data s) (sv_i sv)"
  shows "\<exists>r slot sv' s'. sfs_dir_link sv name ino s = Ok (r, slot, sv', s') \<and> dir_frame s sv s' sv' \<and> dir_ok s' sv' \<and>
    (if dir_map es name \<noteq> None then r = EEXIST \<and> dir_map (dir_entries (fs_data s') (sv_i sv')) = dir_map es
     else if length name + 1 > SFS_NAMELEN then r = ENAMETOOLONG \<and> dir_map (dir_entries (fs_data s') (sv_i sv')) = dir_map es
     else (r = 0 \<and> dir_map (dir_entries (fs_data s') (sv_i sv')) = (dir_map es)(name \<mapsto> ino) \<and> slot \<in> names_at (dir_entries (fs_data s') (sv_i sv')) name)
       \<or> (r = ENOSPC \<and> dir_map (dir_entries (fs_data s') (sv_i sv')) = dir_map es \<and> blocks_in_use s' = {..<bm_cap (sfs_freemap s')}))"
proof -
  obtain ds t where f: "sfs_dir_findname sv name s = Ok (if ds_found ds \<noteq> None then 0 else ENOENT, ds, sv, t)" "undisturbed s t"
    "found_upto es name (length es) ds" unfolding es_def by (rule findname_spec [OF d])
  have u: "unique_names es" and ty: "sfi_type (sv_i sv) = SFS_TYPE_DIR" using d by (simp_all add: dir_ok_def es_def)
  have m: "map_option fst (ds_found ds) = dir_map es name" by (rule found_upto_map [OF u f(3)])
  have t: "dir_ok t sv" "fs_data t = fs_data s" using undisturbed_dir [OF f(2) d] f(2) by (simp_all add: undisturbed_def)
  have est: "dir_entries (fs_data t) (sv_i sv) = es" by (simp add: t(2) es_def)
  note fr = undisturbed_frame [OF d f(2)]
  consider (exists) "dir_map es name \<noteq> None" | (long) "dir_map es name = None" "length name + 1 > SFS_NAMELEN" | (go) "dir_map es name = None" "name_ok name"
    using name unfolding name_ok_def by linarith
  then show ?thesis
  proof cases
    case exists
    then have "ds_found ds \<noteq> None" using m by auto
    then show ?thesis using f(1) exists fr t(1) est by (simp add: sfs_dir_link_def)
  next
    case long
    then have "ds_found ds = None" using m by simp
    then show ?thesis using f(1) long fr t(1) est by (simp add: sfs_dir_link_def ENOENT_def)
  next
    case go
    then have none: "ds_found ds = None" using m by simp
    define slot where "slot = (case ds_empty ds of None \<Rightarrow> length es | Some k \<Rightarrow> k)"
    have slot: "slot \<le> length es" "slot < length es \<longrightarrow> sfd_ino (es ! slot) = SFS_NOINO"
      using f(3) by (auto simp: found_upto_def slot_def split: option.splits)
    have "length es * DIRSIZE < SFS_MAXFILE" using room d by (auto simp: dir_room_def dir_ok_def es_def layout_defs)
    then have max: "slot * DIRSIZE < SFS_MAXFILE" using mult_le_mono1 [OF slot(1), of DIRSIZE] by linarith
    have sd: "dir_shape (dir_entry ino name)" using go(2) by (intro dir_entry_shape) (simp add: name_ok_def)
    have e: "cname (dir_entry ino name) = name" "sfd_ino (dir_entry ino name) \<noteq> SFS_NOINO" "sfd_ino (dir_entry ino name) = ino"
      using cname_dir_entry [OF go(2)] ino by (simp_all add: dir_entry_def)
    have ne: "(case ds_empty ds of None \<Rightarrow> sfs_dir_nentries sv | Some k \<Rightarrow> Ok k) = Ok slot"
      using nentries_spec [OF t(1)] est by (simp add: slot_def split: option.split)
    have go': "sfs_dir_link sv name ino s = bindR (sfs_writedir sv (dir_entry ino name) slot t) (\<lambda>(result, sv, s). Ok (result, slot, sv, s))"
      using f(1) none go(2) ne by (simp add: sfs_dir_link_def ENOENT_def name_ok_def)
    have "slot \<le> length (dir_entries (fs_data t) (sv_i sv))" using slot(1) by (simp only: est)
    from t(1) sd this max show ?thesis
    proof (cases rule: writedir_spec)
      case (written sv' s')
      note es' = written(3) [unfolded est]
      note lm = link_map [OF u slot go(1) e(1,2)]
      have "dir_ok s' sv'" using dir_frame_ok [OF written(2) ty] lm(1) es' by simp
      moreover have "slot \<in> names_at (dir_entries (fs_data s') (sv_i sv')) name"
        unfolding es' using names_at_written [OF slot(1), of "dir_entry ino name" name] e by simp
      ultimately show ?thesis using go' written(1) dir_frame_after [OF f(2) written(2)] lm(2) e(3) go by (auto simp: es' name_ok_def)
    next
      case (full sv' s')
      have "dir_ok s' sv'" using dir_frame_ok [OF full(2) ty] u full(3) est by simp
      then show ?thesis using go' full dir_frame_after [OF f(2) full(2)] go est by (auto simp: name_ok_def)
    qed
  qed
qed

text \<open>A slot in use lies in a block of the directory, so clearing it needs no space.\<close>

lemma hole_is_free:
  assumes "fblocks f i ! (slot * DIRSIZE div SFS_BLOCKSIZE) = 0" and "slot < length (dir_entries f i)"
  shows "sfd_ino (dir_entries f i ! slot) = SFS_NOINO"
proof -
  have "file_byte f i (slot * DIRSIZE + k) = 0" if "k < DIRSIZE" for k
  proof -
    have "slot * 64 mod 512 = slot mod 8 * 64" using mult_mod_right [of 64 slot 8] by (simp add: mult.commute)
    then have "slot * DIRSIZE mod SFS_BLOCKSIZE + k < SFS_BLOCKSIZE" using that by (simp add: layout_defs)
    then have "(slot * DIRSIZE + k) div SFS_BLOCKSIZE = slot * DIRSIZE div SFS_BLOCKSIZE" using div_add_small by blast
    then show ?thesis using assms(1) by (simp add: file_byte_def)
  qed
  then have "file_read f i (slot * DIRSIZE) DIRSIZE = replicate DIRSIZE 0" by (intro nth_equalityI) (simp_all add: file_read_def)
  moreover have "un32 (replicate 4 0) = 0" by (simp add: un32_def numeral_eq_Suc)
  ultimately show ?thesis using assms(2) by (simp add: dir_entries_def dec_dir_def SFS_NOINO_def layout_defs)
qed

lemma dir_unlink_spec:
  assumes d: "dir_ok s sv" and slot: "slot \<in> names_at (dir_entries (fs_data s) (sv_i sv)) name"
  obtains sv' s' where "sfs_dir_unlink sv slot s = Ok (0, sv', s')" and "dir_frame s sv s' sv'" and "dir_ok s' sv'"
    and "dir_map (dir_entries (fs_data s') (sv_i sv')) = (dir_map (dir_entries (fs_data s) (sv_i sv)))(name := None)"
proof -
  let ?es = "dir_entries (fs_data s) (sv_i sv)"
  have u: "unique_names ?es" and ty: "sfi_type (sv_i sv) = SFS_TYPE_DIR" and z: "unat (sfi_size (sv_i sv)) \<le> SFS_MAXFILE" using d by (simp_all add: dir_ok_def)
  have lt: "slot < length ?es" "slot \<le> length ?es" "sfd_ino (?es ! slot) \<noteq> SFS_NOINO" using slot by (simp_all add: names_at_def)
  have max: "slot * DIRSIZE < SFS_MAXFILE" using lt(1) z by (auto simp: layout_defs)
  have sd: "dir_shape (dir_entry SFS_NOINO [])" by (intro dir_entry_shape) simp
  note um = unlink_map [OF u slot, of "dir_entry SFS_NOINO []"]
  from d sd lt(2) max show thesis
  proof (cases rule: writedir_spec)
    case (written sv' s')
    then have es: "dir_entries (fs_data s') (sv_i sv') = ?es[slot := dir_entry SFS_NOINO []]" using lt(1) by simp
    have "dir_ok s' sv'" using dir_frame_ok [OF written(2) ty] um(1) es by (simp add: dir_entry_def)
    then show thesis using that written(1,2) um(2) es by (simp add: sfs_dir_unlink_def dir_entry_def)
  next
    case (full sv' s')
    then show thesis using hole_is_free [OF _ lt(1)] lt(3) by blast
  qed
qed

subsection \<open>Directories as an abstract data type\<close>

text \<open>
  The contract of a directory, for names \<open>'n\<close> and references \<open>'i\<close>: what each operation returns and does to the map
  of names. Adding may fail for lack of space, and then changes nothing.
\<close>

locale directory =
  fixes inv :: "'d \<Rightarrow> bool" and names :: "'d \<Rightarrow> 'n \<rightharpoonup> 'i" and room :: "'d \<Rightarrow> bool" and good :: "'n \<Rightarrow> bool" and valid :: "'i \<Rightarrow> bool"
    and find_name :: "'n \<Rightarrow> 'd \<Rightarrow> (int \<times> 'i option \<times> 'd) run" and add_name :: "'n \<Rightarrow> 'i \<Rightarrow> 'd \<Rightarrow> (int \<times> 'd) run" and del_name :: "'n \<Rightarrow> 'd \<Rightarrow> (int \<times> 'd) run"
  assumes finds: "inv d \<Longrightarrow> \<exists>d'. find_name n d = Ok (if names d n = None then ENOENT else 0, names d n, d') \<and> inv d' \<and> names d' = names d \<and> room d' = room d"
    and adds: "inv d \<Longrightarrow> room d \<Longrightarrow> good n \<Longrightarrow> valid i \<Longrightarrow> \<exists>r d'. add_name n i d = Ok (r, d') \<and> inv d'
      \<and> (if names d n \<noteq> None then r = EEXIST \<and> names d' = names d else r = 0 \<and> names d' = (names d)(n \<mapsto> i) \<or> r = ENOSPC \<and> names d' = names d)"
    and dels: "inv d \<Longrightarrow> \<exists>d'. del_name n d = Ok (if names d n = None then ENOENT else 0, d') \<and> inv d' \<and> names d' = (names d)(n := None)"
begin

lemma add_then_find:
  assumes "inv d" and "room d" and "good n" and "valid i" and "add_name n i d = Ok (0, d')"
  shows "\<exists>d''. find_name m d' = Ok (if m = n \<or> names d m \<noteq> None then 0 else ENOENT, if m = n then Some i else names d m, d'')"
proof -
  have e: "inv d'" "names d' = (names d)(n \<mapsto> i)" using adds [OF assms(1-4)] assms(5) by (auto simp: errno_defs split: if_splits)
  then show ?thesis using finds [OF e(1), of m] by auto
qed

lemma del_then_find:
  assumes "inv d" and "del_name n d = Ok (r, d')"
  shows "\<exists>d''. find_name m d' = Ok (if m \<noteq> n \<and> names d m \<noteq> None then 0 else ENOENT, if m = n then None else names d m, d'')"
proof -
  have e: "inv d'" "names d' = (names d)(n := None)" using dels [OF assms(1), of n] assms(2) by auto
  then show ?thesis using finds [OF e(1), of m] by auto
qed

lemma add_then_del:
  assumes "inv d" and "room d" and "good n" and "valid i" and "add_name n i d = Ok (0, d')"
  shows "\<exists>d''. del_name n d' = Ok (0, d'') \<and> inv d'' \<and> names d'' = names d"
proof -
  have e: "inv d'" "names d' = (names d)(n \<mapsto> i)" "names d n = None" using adds [OF assms(1-4)] assms(5) by (auto simp: errno_defs split: if_splits)
  have "(names d)(n := None) = names d" using e(3) by auto
  then show ?thesis using dels [OF e(1), of n] e(2) by auto
qed

end

definition dir_find :: "u8 list \<Rightarrow> sfs_vnode \<times> sfs_fs \<Rightarrow> (int \<times> u32 option \<times> sfs_vnode \<times> sfs_fs) run" where
  "dir_find name = (\<lambda>(sv, s). bindR (sfs_dir_findname sv name s) (\<lambda>(r, ds, sv, s). Ok (r, map_option fst (ds_found ds), sv, s)))"

definition dir_add :: "u8 list \<Rightarrow> u32 \<Rightarrow> sfs_vnode \<times> sfs_fs \<Rightarrow> (int \<times> sfs_vnode \<times> sfs_fs) run" where
  "dir_add name ino = (\<lambda>(sv, s). bindR (sfs_dir_link sv name ino s) (\<lambda>(r, slot, sv, s). Ok (r, sv, s)))"

definition dir_del :: "u8 list \<Rightarrow> sfs_vnode \<times> sfs_fs \<Rightarrow> (int \<times> sfs_vnode \<times> sfs_fs) run" where
  "dir_del name = (\<lambda>(sv, s). bindR (sfs_dir_findname sv name s) (\<lambda>(r, ds, sv, s).
     case ds_found ds of None \<Rightarrow> Ok (r, sv, s) | Some (ino, slot) \<Rightarrow> sfs_dir_unlink sv slot s))"

definition dir_names :: "sfs_vnode \<times> sfs_fs \<Rightarrow> u8 list \<rightharpoonup> u32" where
  "dir_names = (\<lambda>(sv, s). dir_map (dir_entries (fs_data s) (sv_i sv)))"

interpretation sfsdir: directory "\<lambda>(sv, s). dir_ok s sv" dir_names "\<lambda>(sv, s). dir_room sv" name_ok "\<lambda>ino. ino \<noteq> SFS_NOINO" dir_find dir_add dir_del
proof (unfold_locales, goal_cases)
  case (1 d n)
  obtain sv s where d: "d = (sv, s)" by (cases d)
  then have ok: "dir_ok s sv" using 1 by simp
  obtain ds s' where f: "sfs_dir_findname sv n s = Ok (if ds_found ds \<noteq> None then 0 else ENOENT, ds, sv, s')" "undisturbed s s'"
    "found_upto (dir_entries (fs_data s) (sv_i sv)) n (length (dir_entries (fs_data s) (sv_i sv))) ds" by (rule findname_spec [OF ok])
  have m: "map_option fst (ds_found ds) = dir_map (dir_entries (fs_data s) (sv_i sv)) n" using found_upto_map f(3) ok by (simp add: dir_ok_def)
  then have "ds_found ds = None \<longleftrightarrow> dir_map (dir_entries (fs_data s) (sv_i sv)) n = None" by (metis option.map_disc_iff)
  then show ?case using f(1,2) m undisturbed_dir [OF f(2) ok] by (simp add: d dir_find_def dir_names_def undisturbed_def)
next
  case (2 d n i)
  obtain sv s where d: "d = (sv, s)" by (cases d)
  have h: "dir_ok s sv" "dir_room sv" "i \<noteq> SFS_NOINO" "0 \<notin> set n" "\<not> length n + 1 > SFS_NAMELEN" using 2 d by (simp_all add: name_ok_def)
  note h' = if_not_P [OF h(5)]
  from dir_link_spec [OF h(1-4), unfolded h'] obtain r slot sv' s' where "sfs_dir_link sv n i s = Ok (r, slot, sv', s')" "dir_ok s' sv'"
    "if dir_map (dir_entries (fs_data s) (sv_i sv)) n \<noteq> None then r = EEXIST \<and> dir_map (dir_entries (fs_data s') (sv_i sv')) = dir_map (dir_entries (fs_data s) (sv_i sv))
     else r = 0 \<and> dir_map (dir_entries (fs_data s') (sv_i sv')) = (dir_map (dir_entries (fs_data s) (sv_i sv)))(n \<mapsto> i)
       \<or> r = ENOSPC \<and> dir_map (dir_entries (fs_data s') (sv_i sv')) = dir_map (dir_entries (fs_data s) (sv_i sv))" by (auto split: if_splits)
  then show ?case by (intro exI [of _ r] exI [of _ "(sv', s')"]) (unfold d dir_names_def prod.case, simp add: dir_add_def)
next
  case (3 d n)
  obtain sv s where d: "d = (sv, s)" by (cases d)
  then have ok: "dir_ok s sv" using 3 by simp
  obtain ds s' where f: "sfs_dir_findname sv n s = Ok (if ds_found ds \<noteq> None then 0 else ENOENT, ds, sv, s')" "undisturbed s s'"
    "found_upto (dir_entries (fs_data s) (sv_i sv)) n (length (dir_entries (fs_data s) (sv_i sv))) ds" by (rule findname_spec [OF ok])
  have m: "map_option fst (ds_found ds) = dir_map (dir_entries (fs_data s) (sv_i sv)) n" using found_upto_map f(3) ok by (simp add: dir_ok_def)
  have s': "dir_ok s' sv" "fs_data s' = fs_data s" using undisturbed_dir [OF f(2) ok] f(2) by (simp_all add: undisturbed_def)
  show ?case
  proof (cases "ds_found ds")
    case None
    then have "dir_names (sv, s) n = None" using m by (simp add: dir_names_def)
    then show ?thesis using None f(1) s' by (auto simp: d dir_del_def dir_names_def)
  next
    case (Some p)
    obtain ino slot where p: "p = (ino, slot)" by (cases p)
    then have "slot \<in> names_at (dir_entries (fs_data s') (sv_i sv)) n" using f(3) Some s'(2) by (simp add: found_upto_def)
    then obtain sv' s'' where "sfs_dir_unlink sv slot s' = Ok (0, sv', s'')" "dir_ok s'' sv'"
      "dir_map (dir_entries (fs_data s'') (sv_i sv')) = (dir_map (dir_entries (fs_data s') (sv_i sv)))(n := None)" using dir_unlink_spec [OF s'(1)] by metis
    moreover have "dir_names (sv, s) n \<noteq> None" using m [symmetric] Some by (simp add: dir_names_def)
    ultimately show ?thesis using f(1) Some p s'(2) by (auto simp: d dir_del_def dir_names_def)
  qed
qed

text \<open>
  C33: Directories are maps from names to inode numbers. After a successful link of a new name the search finds
  every other name exactly as before and the new one with the inode number it was given, and removing the name
  again restores the map; the slot that was found is the one that is cleared.
\<close>

theorem sfs_directory_is_map:
  assumes "dir_ok s sv" and "dir_room sv" and "name_ok name" and "ino \<noteq> SFS_NOINO" and "sfs_dir_link sv name ino s = Ok (0, slot, sv', s')"
  shows "dir_names (sv, s) name = None
    \<and> (\<forall>m. \<exists>d. dir_find m (sv', s') = Ok (if m = name \<or> dir_names (sv, s) m \<noteq> None then 0 else ENOENT, if m = name then Some ino else dir_names (sv, s) m, d))
    \<and> (\<exists>sv'' s''. dir_del name (sv', s') = Ok (0, sv'', s'') \<and> dir_ok s'' sv'' \<and> dir_names (sv'', s'') = dir_names (sv, s))"
proof -
  have a: "dir_add name ino (sv, s) = Ok (0, sv', s')" using assms(5) by (simp add: dir_add_def)
  have p: "(\<lambda>(sv, s). dir_ok s sv) (sv, s)" "(\<lambda>(sv, s). dir_room sv) (sv, s)" using assms by simp_all
  have n: "dir_names (sv, s) name = None" using sfsdir.adds [OF p assms(3,4)] a by (auto simp: errno_defs split: if_splits)
  have "\<exists>d. dir_find m (sv', s') = Ok (if m = name \<or> dir_names (sv, s) m \<noteq> None then 0 else ENOENT, if m = name then Some ino else dir_names (sv, s) m, d)" for m
    by (rule sfsdir.add_then_find [OF p assms(3,4) a])
  moreover have "\<exists>sv'' s''. dir_del name (sv', s') = Ok (0, sv'', s'') \<and> dir_ok s'' sv'' \<and> dir_names (sv'', s'') = dir_names (sv, s)"
    using sfsdir.add_then_del [OF p assms(3,4) a] by auto
  ultimately show ?thesis using n by blast
qed

definition small_dir :: sfs_vnode where
  "small_dir = small_file\<lparr>sv_i := (sv_i small_file)\<lparr>sfi_type := SFS_TYPE_DIR\<rparr>, vn_ops := sfs_dirops\<rparr>"

lemma small_dir_ok: "dir_ok small_fs small_dir" "dir_room small_dir"
proof -
  have "file_ok small_fs (sv_i small_dir)" using small_file_ok file_ok_cong [of "sv_i small_dir" "sv_i small_file" small_fs] by (simp add: small_dir_def)
  moreover have "sfi_size (sv_i small_dir) = 0" "sfi_type (sv_i small_dir) = SFS_TYPE_DIR" by (simp_all add: small_dir_def small_file_def)
  ultimately show "dir_ok small_fs small_dir" "dir_room small_dir"
    using small_fs_ok by (simp_all add: dir_ok_def dir_room_def dir_entries_def unique_names_def layout_defs)
qed

theorem sfs_directory_is_map_witness:
  "\<exists>slot sv' s'. sfs_dir_link small_dir [104, 105] 5 small_fs = Ok (0, slot, sv', s') \<and> (\<exists>d. dir_find [104, 105] (sv', s') = Ok (0, Some 5, d))"
proof -
  have "case sfs_dir_link small_dir [104, 105] 5 small_fs of Ok y \<Rightarrow> fst y = 0 | Halt _ \<Rightarrow> False" by code_simp
  then obtain slot sv' s' where l: "sfs_dir_link small_dir [104, 105] 5 small_fs = Ok (0, slot, sv', s')" by (auto split: run.splits)
  have "name_ok [104, 105]" "(5 :: u32) \<noteq> SFS_NOINO" by (simp_all add: name_ok_def SFS_NOINO_def layout_defs)
  from sfs_directory_is_map [OF small_dir_ok this l] have "\<exists>d. dir_find [104, 105] (sv', s') = Ok (0, Some 5, d)" by (auto dest: spec [of _ "[104, 105]"])
  then show ?thesis using l by blast
qed

end
