(* ===== verification/SfsVnode.thy ===== *)
theory SfsVnode
  imports SfsDir
begin

text \<open>
  The vnode operations of SFS (\<^verbatim>\<open>kern/fs/sfs/sfs_vnode.c\<close>) and the reference counts of \<^verbatim>\<open>kern/vfs/vnode.c\<close>. A vnode
  is a pointer into \<open>sv_store\<close>; the vnodes in use are those of the table \<open>sfs_vnodes\<close>. The result of \<open>kmalloc\<close> for a
  new vnode structure is a parameter \<open>pv\<close>, the allocator of the table a parameter \<open>ka\<close>.
\<close>

subsection \<open>Vnodes in memory\<close>

definition with_vnode :: "vaddr \<Rightarrow> sfs_fs \<Rightarrow> (sfs_vnode \<Rightarrow> 'a run) \<Rightarrow> 'a run" where
  "with_vnode v s f = (case sv_store s v of None \<Rightarrow> Halt Wild | Some sv \<Rightarrow> f sv)"

definition put_vnode :: "vaddr \<Rightarrow> sfs_vnode \<Rightarrow> sfs_fs \<Rightarrow> sfs_fs" where
  "put_vnode v sv s = s\<lparr>sv_store := (sv_store s)(v \<mapsto> sv)\<rparr>"

definition vnode_init :: "sfs_ops \<Rightarrow> sfs_vnode \<Rightarrow> sfs_vnode" where
  "vnode_init ops sv = sv\<lparr>vn_ops := ops, vn_refcount := 1, vn_opencount := 0\<rparr>"

definition vnode_cleanup :: "sfs_vnode \<Rightarrow> sfs_vnode run" where
  "vnode_cleanup sv = kassert (vn_refcount sv = 1) (kassert (vn_opencount sv = 0) (Ok (sv\<lparr>vn_refcount := 0, vn_opencount := 0\<rparr>)))"

definition vnode_check :: "sfs_vnode \<Rightarrow> bool \<Rightarrow> 'a run \<Rightarrow> 'a run" where
  "vnode_check sv is_reclaim k =
     (if vn_refcount sv < 0 then Halt Panicked
      else if vn_refcount sv = 0 \<and> \<not> is_reclaim then Halt Panicked
      else if vn_opencount sv < 0 then Halt Panicked
      else k)"

definition vnode_incref :: "vaddr \<Rightarrow> sfs_fs \<Rightarrow> sfs_fs run" where
  "vnode_incref v s = with_vnode v s (\<lambda>sv. Ok (put_vnode v (sv\<lparr>vn_refcount := vn_refcount sv + 1\<rparr>) s))"

definition vnode_incopen :: "vaddr \<Rightarrow> sfs_fs \<Rightarrow> sfs_fs run" where
  "vnode_incopen v s = with_vnode v s (\<lambda>sv. Ok (put_vnode v (sv\<lparr>vn_opencount := vn_opencount sv + 1\<rparr>) s))"

subsection \<open>Loading\<close>

fun find_loaded :: "u32 \<Rightarrow> nat \<Rightarrow> nat \<Rightarrow> sfs_fs \<Rightarrow> vaddr option run" where
  "find_loaded ino i 0 s = Ok None"
| "find_loaded ino i (Suc left) s =
     bindR (array_get (sfs_vnodes s) (of_nat i)) (\<lambda>v. with_vnode v s (\<lambda>sv.
       bindR (sfs_bused (sv_ino sv) s) (\<lambda>used.
         if \<not> used then Halt Panicked else if sv_ino sv = ino then Ok (Some v) else find_loaded ino (Suc i) left s)))"

text \<open>The function table is chosen by the type of the object.\<close>

definition ops_of :: "u16 \<Rightarrow> sfs_ops run" where
  "ops_of t = (if t = SFS_TYPE_FILE then Ok sfs_fileops else if t = SFS_TYPE_DIR then Ok sfs_dirops else Halt Panicked)"

definition fresh_vnode :: "u32 \<Rightarrow> u8 list \<Rightarrow> sfs_vnode" where
  "fresh_vnode ino bs = \<lparr>vn_refcount = 0, vn_opencount = 0, vn_ops = sfs_fileops, sv_i = dec_inode bs, sv_ino = ino, sv_dirty = False\<rparr>"

definition load_new :: "vaddr option \<Rightarrow> vaddr block_alloc \<Rightarrow> u32 \<Rightarrow> u16 \<Rightarrow> sfs_fs \<Rightarrow> (int \<times> vaddr \<times> sfs_fs) run" where
  "load_new pv ka ino forcetype s =
     (case pv of None \<Rightarrow> Ok (ENOMEM, 0, s)
      | Some v \<Rightarrow>
          bindR (sfs_bused ino s) (\<lambda>used.
            if \<not> used then Halt Panicked
            else bindR (fs_rblock ino s) (\<lambda>(result, bs, s).
              if result \<noteq> 0 then Ok (result, 0, s)
              else
                let sv = fresh_vnode ino bs in
                bindR (if forcetype \<noteq> SFS_TYPE_INVAL
                       then kassert (sfi_type (sv_i sv) = SFS_TYPE_INVAL) (Ok (sv\<lparr>sv_i := (sv_i sv)\<lparr>sfi_type := forcetype\<rparr>, sv_dirty := True\<rparr>))
                       else Ok sv) (\<lambda>sv.
                  bindR (ops_of (sfi_type (sv_i sv))) (\<lambda>ops.
                    bindR (array_add ka (sfs_vnodes s) v) (\<lambda>(result, _, a).
                      if result \<noteq> 0 then Ok (result, 0, s\<lparr>sfs_vnodes := a\<rparr>)
                      else Ok (0, v, put_vnode v (vnode_init ops sv) (s\<lparr>sfs_vnodes := a\<rparr>))))))))"

definition sfs_loadvnode :: "vaddr option \<Rightarrow> vaddr block_alloc \<Rightarrow> u32 \<Rightarrow> u16 \<Rightarrow> sfs_fs \<Rightarrow> (int \<times> vaddr \<times> sfs_fs) run" where
  "sfs_loadvnode pv ka ino forcetype s =
     bindR (find_loaded ino 0 (unat (array_get_num (sfs_vnodes s))) s) (\<lambda>hit.
       case hit of
         Some v \<Rightarrow> kassert (forcetype = SFS_TYPE_INVAL) (bindR (vnode_incref v s) (\<lambda>s. Ok (0, v, s)))
       | None \<Rightarrow> load_new pv ka ino forcetype s)"

definition sfs_getroot :: "vaddr option \<Rightarrow> vaddr block_alloc \<Rightarrow> sfs_fs \<Rightarrow> (vaddr \<times> sfs_fs) run" where
  "sfs_getroot pv ka s =
     bindR (sfs_loadvnode pv ka SFS_ROOT_LOCATION SFS_TYPE_INVAL s) (\<lambda>(result, v, s). if result \<noteq> 0 then Halt Panicked else Ok (v, s))"

definition sfs_makeobj :: "vaddr option \<Rightarrow> vaddr block_alloc \<Rightarrow> u16 \<Rightarrow> sfs_fs \<Rightarrow> (int \<times> vaddr \<times> sfs_fs) run" where
  "sfs_makeobj pv ka type s =
     bindR (sfs_balloc s) (\<lambda>(result, ino, s). if result \<noteq> 0 then Ok (result, 0, s) else sfs_loadvnode pv ka ino type s)"

subsection \<open>Operations on open files\<close>

text \<open>Running an operation on the vnode structure \<open>v\<close> points to.\<close>

definition on_vnode :: "vaddr \<Rightarrow> sfs_fs \<Rightarrow> (sfs_vnode \<Rightarrow> sfs_fs \<Rightarrow> (int \<times> sfs_vnode \<times> sfs_fs) run) \<Rightarrow> (int \<times> sfs_fs) run" where
  "on_vnode v s f = with_vnode v s (\<lambda>sv. bindR (f sv s) (\<lambda>(result, sv, s). Ok (result, put_vnode v sv s)))"

definition sfs_open :: "int \<Rightarrow> int" where
  "sfs_open openflags = (if openflags AND O_APPEND \<noteq> 0 then EUNIMP else 0)"

definition sfs_opendir :: "int \<Rightarrow> int" where
  "sfs_opendir openflags =
     (if openflags AND O_ACCMODE \<noteq> O_RDONLY then EISDIR else if openflags AND O_APPEND \<noteq> 0 then EISDIR else 0)"

definition sfs_read :: "vaddr \<Rightarrow> xfer \<Rightarrow> sfs_fs \<Rightarrow> (int \<times> xfer \<times> sfs_fs) run" where
  "sfs_read v u s =
     kassert (x_rw u = UIO_READ) (with_vnode v s (\<lambda>sv. bindR (sfs_io sv u s) (\<lambda>(result, sv, u, s). Ok (result, u, put_vnode v sv s))))"

definition sfs_write :: "vaddr \<Rightarrow> xfer \<Rightarrow> sfs_fs \<Rightarrow> (int \<times> xfer \<times> sfs_fs) run" where
  "sfs_write v u s =
     kassert (x_rw u = UIO_WRITE) (with_vnode v s (\<lambda>sv. bindR (sfs_io sv u s) (\<lambda>(result, sv, u, s). Ok (result, u, put_vnode v sv s))))"

definition sfs_ioctl :: int where "sfs_ioctl = EINVAL"
definition sfs_mmap :: int where "sfs_mmap = EUNIMP"

text \<open>File types of \<^verbatim>\<open>kern/include/kern/stattypes.h\<close>, in octal \<open>010000\<close> and \<open>020000\<close>.\<close>

definition S_IFREG :: u32 where [layout_defs]: "S_IFREG = 4096"
definition S_IFDIR :: u32 where [layout_defs]: "S_IFDIR = 8192"

record stat =
  st_size :: nat
  st_mode :: u32
  st_nlink :: u32
  st_blocks :: u32

definition sfs_gettype :: "sfs_vnode \<Rightarrow> u32 run" where
  "sfs_gettype sv =
     (if sfi_type (sv_i sv) = SFS_TYPE_FILE then Ok S_IFREG else if sfi_type (sv_i sv) = SFS_TYPE_DIR then Ok S_IFDIR else Halt Panicked)"

definition sfs_stat :: "sfs_vnode \<Rightarrow> stat run" where
  "sfs_stat sv =
     vnode_check sv False (bindR (sfs_gettype sv) (\<lambda>mode. Ok \<lparr>st_size = unat (sfi_size (sv_i sv)), st_mode = mode, st_nlink = 0, st_blocks = 0\<rparr>))"

definition sfs_tryseek :: "int \<Rightarrow> int" where
  "sfs_tryseek pos = (if pos < 0 then EINVAL else 0)"

definition sfs_fsync :: "vaddr \<Rightarrow> sfs_fs \<Rightarrow> (int \<times> sfs_fs) run" where
  "sfs_fsync v s = on_vnode v s sfs_sync_inode"

definition sfs_close :: "vaddr \<Rightarrow> sfs_fs \<Rightarrow> (int \<times> sfs_fs) run" where
  "sfs_close v s = with_vnode v s (\<lambda>sv. vnode_check sv False (sfs_fsync v s))"

definition vnode_decopen :: "vaddr \<Rightarrow> sfs_fs \<Rightarrow> sfs_fs run" where
  "vnode_decopen v s = with_vnode v s (\<lambda>sv.
     kassert (vn_opencount sv > 0)
      (let sv = sv\<lparr>vn_opencount := vn_opencount sv - 1\<rparr>; s = put_vnode v sv s in
       if vn_opencount sv > 0 then Ok s
       else vnode_check sv False (bindR (sfs_close v s) (\<lambda>(result, s). Ok s))))"

definition sfs_namefile :: "sfs_vnode \<Rightarrow> int run" where
  "sfs_namefile sv = kassert (sv_ino sv = SFS_ROOT_LOCATION) (Ok 0)"

subsection \<open>Truncation\<close>

text \<open>The loop over the direct blocks, and the one over the indirect block with its flags \<open>hasnonzero\<close> and \<open>iddirty\<close>.\<close>

fun trunc_direct :: "u32 \<Rightarrow> nat \<Rightarrow> nat \<Rightarrow> sfs_vnode \<Rightarrow> sfs_fs \<Rightarrow> (sfs_vnode \<times> sfs_fs) run" where
  "trunc_direct blocklen i 0 sv s = Ok (sv, s)"
| "trunc_direct blocklen i (Suc left) sv s =
     (let block = sfi_direct (sv_i sv) ! i in
      if of_nat i \<ge> blocklen \<and> block \<noteq> 0 then
        bindR (sfs_bfree block s) (\<lambda>s.
          trunc_direct blocklen (Suc i) left (sv\<lparr>sv_i := (sv_i sv)\<lparr>sfi_direct := (sfi_direct (sv_i sv))[i := 0]\<rparr>, sv_dirty := True\<rparr>) s)
      else trunc_direct blocklen (Suc i) left sv s)"

fun trunc_entries :: "u32 \<Rightarrow> u32 \<Rightarrow> nat \<Rightarrow> nat \<Rightarrow> u32 list \<Rightarrow> bool \<Rightarrow> bool \<Rightarrow> sfs_fs \<Rightarrow> (u32 list \<times> bool \<times> bool \<times> sfs_fs) run" where
  "trunc_entries blocklen baseblock j 0 idbuf hasnonzero iddirty s = Ok (idbuf, hasnonzero, iddirty, s)"
| "trunc_entries blocklen baseblock j (Suc left) idbuf hasnonzero iddirty s =
     (if blocklen < baseblock + of_nat j \<and> idbuf ! j \<noteq> 0 then
        bindR (sfs_bfree (idbuf ! j) s) (\<lambda>s. trunc_entries blocklen baseblock (Suc j) left (idbuf[j := 0]) hasnonzero True s)
      else trunc_entries blocklen baseblock (Suc j) left idbuf (hasnonzero \<or> idbuf ! j \<noteq> 0) iddirty s)"

definition trunc_indirect :: "u32 \<Rightarrow> sfs_vnode \<Rightarrow> sfs_fs \<Rightarrow> (int \<times> sfs_vnode \<times> sfs_fs) run" where
  "trunc_indirect blocklen sv s =
     (let idblock = sfi_indirect (sv_i sv); baseblock = of_nat SFS_NDIRECT; highblock = baseblock + of_nat SFS_DBPERIDB - 1 in
      if blocklen < highblock \<and> idblock \<noteq> 0 then
        bindR (fs_rblock idblock s) (\<lambda>(result, bs, s).
          if result \<noteq> 0 then Ok (result, sv, s)
          else bindR (trunc_entries blocklen baseblock 0 SFS_DBPERIDB (bytes_words SFS_DBPERIDB bs) False False s) (\<lambda>(idbuf, hasnonzero, iddirty, s).
            if \<not> hasnonzero then
              bindR (sfs_bfree idblock s) (\<lambda>s. Ok (0, sv\<lparr>sv_i := (sv_i sv)\<lparr>sfi_indirect := 0\<rparr>, sv_dirty := True\<rparr>, s))
            else if iddirty then bindR (fs_wblock (words_bytes idbuf) idblock s) (\<lambda>(result, s). Ok (result, sv, s))
            else Ok (0, sv, s)))
      else Ok (0, sv, s))"

definition sfs_truncate :: "nat \<Rightarrow> sfs_vnode \<Rightarrow> sfs_fs \<Rightarrow> (int \<times> sfs_vnode \<times> sfs_fs) run" where
  "sfs_truncate len sv s =
     (let blocklen = of_nat ((len + SFS_BLOCKSIZE - 1) div SFS_BLOCKSIZE) in
      bindR (trunc_direct blocklen 0 SFS_NDIRECT sv s) (\<lambda>(sv, s).
        bindR (trunc_indirect blocklen sv s) (\<lambda>(result, sv, s).
          if result \<noteq> 0 then Ok (result, sv, s)
          else Ok (0, sv\<lparr>sv_i := (sv_i sv)\<lparr>sfi_size := of_nat len\<rparr>, sv_dirty := True\<rparr>, s))))"

subsection \<open>Reclaiming\<close>

definition VOP_TRUNCATE :: "vaddr \<Rightarrow> nat \<Rightarrow> sfs_fs \<Rightarrow> (int \<times> sfs_fs) run" where
  "VOP_TRUNCATE v len s = with_vnode v s (\<lambda>sv.
     vnode_check sv False (case vn_ops sv of sfs_fileops \<Rightarrow> on_vnode v s (sfs_truncate len) | sfs_dirops \<Rightarrow> Ok (EISDIR, s)))"

definition drop_vnode :: "vaddr \<Rightarrow> sfs_fs \<Rightarrow> (int \<times> sfs_fs) run" where
  "drop_vnode v s =
     bindR (scan (array_get (sfs_vnodes s)) (\<lambda>v2. v2 = v) 0 (unat (array_get_num (sfs_vnodes s)))) (\<lambda>hit.
       case hit of None \<Rightarrow> Halt Panicked
       | Some (ix, _) \<Rightarrow>
           bindR (array_remove (sfs_vnodes s) (of_nat ix)) (\<lambda>a. with_vnode v s (\<lambda>sv.
             bindR (vnode_cleanup sv) (\<lambda>_. Ok (0, s\<lparr>sfs_vnodes := a, sv_store := (sv_store s)(v := None)\<rparr>)))))"

definition sfs_reclaim :: "vaddr \<Rightarrow> sfs_fs \<Rightarrow> (int \<times> sfs_fs) run" where
  "sfs_reclaim v s = with_vnode v s (\<lambda>sv.
     if vn_refcount sv \<noteq> 1 then kassert (vn_refcount sv > 1) (Ok (EBUSY, put_vnode v (sv\<lparr>vn_refcount := vn_refcount sv - 1\<rparr>) s))
     else
       bindR (if sfi_linkcount (sv_i sv) = 0 then VOP_TRUNCATE v 0 s else Ok (0, s)) (\<lambda>(result, s).
         if result \<noteq> 0 then Ok (result, s)
         else bindR (on_vnode v s sfs_sync_inode) (\<lambda>(result, s).
           if result \<noteq> 0 then Ok (result, s)
           else bindR (if sfi_linkcount (sv_i sv) = 0 then sfs_bfree (sv_ino sv) s else Ok s) (drop_vnode v))))"

definition vnode_decref :: "vaddr \<Rightarrow> sfs_fs \<Rightarrow> sfs_fs run" where
  "vnode_decref v s = with_vnode v s (\<lambda>sv.
     kassert (vn_refcount sv > 0)
      (if vn_refcount sv > 1 then Ok (put_vnode v (sv\<lparr>vn_refcount := vn_refcount sv - 1\<rparr>) s)
       else vnode_check sv True (bindR (sfs_reclaim v s) (\<lambda>(result, s). Ok s))))"

subsection \<open>Names\<close>

text \<open>Directory operations on the vnode \<open>v\<close> points to; the search leaves the vnode as it is.\<close>

definition find_in :: "vaddr \<Rightarrow> u8 list \<Rightarrow> sfs_fs \<Rightarrow> (int \<times> dirsearch \<times> sfs_fs) run" where
  "find_in v name s = with_vnode v s (\<lambda>sv. bindR (sfs_dir_findname sv name s) (\<lambda>(result, ds, sv, s). Ok (result, ds, put_vnode v sv s)))"

definition link_in :: "vaddr \<Rightarrow> u8 list \<Rightarrow> u32 \<Rightarrow> sfs_fs \<Rightarrow> (int \<times> nat \<times> sfs_fs) run" where
  "link_in v name ino s = with_vnode v s (\<lambda>sv. bindR (sfs_dir_link sv name ino s) (\<lambda>(result, slot, sv, s). Ok (result, slot, put_vnode v sv s)))"

definition unlink_in :: "vaddr \<Rightarrow> nat \<Rightarrow> sfs_fs \<Rightarrow> (int \<times> sfs_fs) run" where
  "unlink_in v slot s = on_vnode v s (\<lambda>sv. sfs_dir_unlink sv slot)"

text \<open>Changing the link count, a 16-bit field.\<close>

definition add_links :: "vaddr \<Rightarrow> u16 \<Rightarrow> sfs_fs \<Rightarrow> sfs_fs run" where
  "add_links v n s = with_vnode v s (\<lambda>sv. Ok (put_vnode v (sv\<lparr>sv_i := (sv_i sv)\<lparr>sfi_linkcount := sfi_linkcount (sv_i sv) + n\<rparr>, sv_dirty := True\<rparr>) s))"

definition sfs_lookonce :: "vaddr option \<Rightarrow> vaddr block_alloc \<Rightarrow> vaddr \<Rightarrow> u8 list \<Rightarrow> sfs_fs \<Rightarrow> (int \<times> vaddr \<times> nat \<times> sfs_fs) run" where
  "sfs_lookonce pv ka v name s =
     bindR (find_in v name s) (\<lambda>(result, ds, s).
       case ds_found ds of
         Some (ino, slot) \<Rightarrow>
           if result \<noteq> 0 then Ok (result, 0, 0, s)
           else bindR (sfs_loadvnode pv ka ino SFS_TYPE_INVAL s) (\<lambda>(result, w, s).
             if result \<noteq> 0 then Ok (result, 0, 0, s)
             else with_vnode w s (\<lambda>sv. if sfi_linkcount (sv_i sv) = 0 then Halt Panicked else Ok (0, w, slot, s)))
       | None \<Rightarrow> Ok (result, 0, 0, s))"

definition sfs_creat :: "vaddr option \<Rightarrow> vaddr block_alloc \<Rightarrow> vaddr \<Rightarrow> u8 list \<Rightarrow> bool \<Rightarrow> sfs_fs \<Rightarrow> (int \<times> vaddr \<times> sfs_fs) run" where
  "sfs_creat pv ka v name excl s =
     bindR (find_in v name s) (\<lambda>(result, ds, s).
       if result \<noteq> 0 \<and> result \<noteq> ENOENT then Ok (result, 0, s)
       else if result = 0 \<and> excl then Ok (EEXIST, 0, s)
       else
         case ds_found ds of
           Some (ino, _) \<Rightarrow> sfs_loadvnode pv ka ino SFS_TYPE_INVAL s
         | None \<Rightarrow>
             bindR (sfs_makeobj pv ka SFS_TYPE_FILE s) (\<lambda>(result, w, s).
               if result \<noteq> 0 then Ok (result, 0, s)
               else with_vnode w s (\<lambda>newguy.
                 bindR (link_in v name (sv_ino newguy) s) (\<lambda>(result, slot, s).
                   if result \<noteq> 0 then bindR (vnode_decref w s) (\<lambda>s. Ok (result, 0, s))
                   else bindR (add_links w 1 s) (\<lambda>s. Ok (0, w, s))))))"

definition sfs_link :: "vaddr \<Rightarrow> u8 list \<Rightarrow> vaddr \<Rightarrow> sfs_fs \<Rightarrow> (int \<times> sfs_fs) run" where
  "sfs_link v name f s = with_vnode f s (\<lambda>sv.
     bindR (link_in v name (sv_ino sv) s) (\<lambda>(result, slot, s).
       if result \<noteq> 0 then Ok (result, s) else bindR (add_links f 1 s) (\<lambda>s. Ok (0, s))))"

definition sfs_remove :: "vaddr option \<Rightarrow> vaddr block_alloc \<Rightarrow> vaddr \<Rightarrow> u8 list \<Rightarrow> sfs_fs \<Rightarrow> (int \<times> sfs_fs) run" where
  "sfs_remove pv ka v name s =
     bindR (sfs_lookonce pv ka v name s) (\<lambda>(result, w, slot, s).
       if result \<noteq> 0 then Ok (result, s)
       else bindR (unlink_in v slot s) (\<lambda>(result, s).
         bindR (if result = 0 then with_vnode w s (\<lambda>victim. kassert (sfi_linkcount (sv_i victim) > 0) (add_links w (- 1) s)) else Ok s) (\<lambda>s.
           bindR (vnode_decref w s) (\<lambda>s. Ok (result, s)))))"

text \<open>The two recovery paths of \<open>sfs_rename\<close>: \<open>puke\<close> and \<open>puke_harder\<close>.\<close>

definition puke :: "vaddr \<Rightarrow> int \<Rightarrow> sfs_fs \<Rightarrow> (int \<times> sfs_fs) run" where
  "puke w result s = bindR (vnode_decref w s) (\<lambda>s. Ok (result, s))"

definition puke_harder :: "vaddr \<Rightarrow> vaddr \<Rightarrow> nat \<Rightarrow> int \<Rightarrow> sfs_fs \<Rightarrow> (int \<times> sfs_fs) run" where
  "puke_harder v w slot2 result s =
     bindR (unlink_in v slot2 s) (\<lambda>(result2, s).
       if result2 \<noteq> 0 then Halt Panicked
       else with_vnode w s (\<lambda>g1. puke w result (put_vnode w (g1\<lparr>sv_i := (sv_i g1)\<lparr>sfi_linkcount := sfi_linkcount (sv_i g1) - 1\<rparr>\<rparr>) s)))"

definition sfs_rename :: "vaddr option \<Rightarrow> vaddr block_alloc \<Rightarrow> vaddr \<Rightarrow> u8 list \<Rightarrow> vaddr \<Rightarrow> u8 list \<Rightarrow> sfs_fs \<Rightarrow> (int \<times> sfs_fs) run" where
  "sfs_rename pv ka d1 n1 d2 n2 s =
     kassert (d1 = d2) (with_vnode d1 s (\<lambda>sv. kassert (sv_ino sv = SFS_ROOT_LOCATION)
      (bindR (sfs_lookonce pv ka d1 n1 s) (\<lambda>(result, g, slot1, s).
        if result \<noteq> 0 then Ok (result, s)
        else with_vnode g s (\<lambda>g1. kassert (sfi_type (sv_i g1) = SFS_TYPE_FILE)
          (bindR (link_in d1 n2 (sv_ino g1) s) (\<lambda>(result, slot2, s).
            if result \<noteq> 0 then puke g result s
            else bindR (add_links g 1 s) (\<lambda>s.
              bindR (unlink_in d1 slot1 s) (\<lambda>(result, s).
                if result \<noteq> 0 then puke_harder d1 g slot2 result s
                else with_vnode g s (\<lambda>g1. kassert (sfi_linkcount (sv_i g1) > 0)
                  (bindR (add_links g (- 1) s) (\<lambda>s. bindR (vnode_decref g s) (\<lambda>s. Ok (0, s))))))))))))))"

definition sfs_lookparent :: "vaddr \<Rightarrow> u8 list \<Rightarrow> nat \<Rightarrow> sfs_fs \<Rightarrow> (int \<times> vaddr \<times> u8 list \<times> sfs_fs) run" where
  "sfs_lookparent v path buflen s = with_vnode v s (\<lambda>sv.
     if sfi_type (sv_i sv) \<noteq> SFS_TYPE_DIR then Ok (ENOTDIR, 0, [], s)
     else if length path + 1 > buflen then Ok (ENAMETOOLONG, 0, [], s)
     else bindR (vnode_incref v s) (\<lambda>s. Ok (0, v, path, s)))"

definition sfs_lookup :: "vaddr option \<Rightarrow> vaddr block_alloc \<Rightarrow> vaddr \<Rightarrow> u8 list \<Rightarrow> sfs_fs \<Rightarrow> (int \<times> vaddr \<times> sfs_fs) run" where
  "sfs_lookup pv ka v path s = with_vnode v s (\<lambda>sv.
     if sfi_type (sv_i sv) \<noteq> SFS_TYPE_DIR then Ok (ENOTDIR, 0, s)
     else bindR (sfs_lookonce pv ka v path s) (\<lambda>(result, w, slot, s). Ok (result, w, s)))"

subsection \<open>What truncation frees\<close>

definition freed :: "sfs_fs \<Rightarrow> u32 set \<Rightarrow> sfs_fs \<Rightarrow> bool" where
  "freed s B s' \<longleftrightarrow> fs_ok s' \<and> same_fs s s' \<and> fs_data s' = fs_data s \<and> blocks_in_use s' = blocks_in_use s - unat ` B"

lemma freed_none: "fs_ok s \<Longrightarrow> freed s {} s"
  by (simp add: freed_def)

lemma freed_trans: "freed s A s' \<Longrightarrow> freed s' B s'' \<Longrightarrow> freed s (A \<union> B) s''"
  unfolding freed_def using same_fs_trans by (auto simp: image_Un)

lemma freed_io:
  assumes "freed s A s'" and "io_done (sfs_device s') (fs_data s') d"
  shows "freed s A (s'\<lparr>sfs_device := d\<rparr>)"
  using assms fs_ok_device [of s' "fs_data s'" d] by (simp add: freed_def same_fs_def io_done_def)

definition freeable :: "sfs_fs \<Rightarrow> u32 \<Rightarrow> bool" where
  "freeable s b \<longleftrightarrow> b \<noteq> 0 \<and> b < sp_nblocks (sfs_super s) \<and> unat b \<in> blocks_in_use s"

lemma bfree_spec:
  assumes s: "fs_ok s" and b: "freeable s b"
  obtains s' where "sfs_bfree b s = Ok s'" and "freed s {b} s'"
proof -
  have inv: "bitmap_inv (sfs_freemap s)" using s by (simp add: fs_ok_def)
  have lt: "unat b < unat (sp_nblocks (sfs_super s))" using b by (simp add: freeable_def word_less_nat_alt)
  then have cap: "unat b < bm_cap (sfs_freemap s)" using s by (auto simp: fs_ok_def)
  have used: "unat b \<in> bm_used (sfs_freemap s)" using b by (simp add: freeable_def)
  obtain fm where fm: "bitmap_unmark (sfs_freemap s) b = Ok fm" "bitmap_inv fm" "bm_cap fm = bm_cap (sfs_freemap s)" "bm_used fm = bm_used (sfs_freemap s) - {unat b}"
    using bitmap_unmark_effect [OF inv used] by auto
  let ?s = "s\<lparr>sfs_freemap := fm, sfs_freemapdirty := True\<rparr>"
  have "unat b \<noteq> 0" using b by (simp add: freeable_def unat_eq_zero)
  then have "fs_ok ?s" using s fm lt by (auto simp: fs_ok_def)
  then show thesis using that fm by (simp add: sfs_bfree_def freed_def same_fs_def)
qed

lemma freeable_freed: "freed s B s' \<Longrightarrow> freeable s b \<Longrightarrow> b \<notin> B \<Longrightarrow> freeable s' b"
  unfolding freeable_def freed_def same_fs_def by (auto dest: word_eq_of_unat)

text \<open>The common shape of the two loops: every entry at a position that satisfies \<open>P\<close> is freed and cleared.\<close>

fun free_entries :: "(nat \<Rightarrow> bool) \<Rightarrow> nat \<Rightarrow> nat \<Rightarrow> u32 list \<Rightarrow> sfs_fs \<Rightarrow> (u32 list \<times> sfs_fs) run" where
  "free_entries P i 0 xs s = Ok (xs, s)"
| "free_entries P i (Suc n) xs s =
     (if P i \<and> xs ! i \<noteq> 0 then bindR (sfs_bfree (xs ! i) s) (\<lambda>s. free_entries P (Suc i) n (xs[i := 0]) s) else free_entries P (Suc i) n xs s)"

definition cut_list :: "(nat \<Rightarrow> bool) \<Rightarrow> nat \<Rightarrow> nat \<Rightarrow> u32 list \<Rightarrow> u32 list" where
  "cut_list P i n xs = map (\<lambda>k. if i \<le> k \<and> k < i + n \<and> P k then 0 else xs ! k) [0..<length xs]"

lemma cut_list_length [simp]: "length (cut_list P i n xs) = length xs"
  by (simp add: cut_list_def)

lemma cut_list_nth: "k < length xs \<Longrightarrow> cut_list P i n xs ! k = (if i \<le> k \<and> k < i + n \<and> P k then 0 else xs ! k)"
  by (simp add: cut_list_def)

definition cut_blocks :: "(nat \<Rightarrow> bool) \<Rightarrow> nat \<Rightarrow> nat \<Rightarrow> u32 list \<Rightarrow> u32 set" where
  "cut_blocks P i n xs = {xs ! k |k. i \<le> k \<and> k < i + n \<and> P k \<and> xs ! k \<noteq> 0}"

lemma cut_list_clear:
  assumes "i < length xs" and "P i"
  shows "cut_list P (Suc i) n (xs[i := 0]) = cut_list P i (Suc n) xs"
proof (rule nth_equalityI)
  fix k
  assume "k < length (cut_list P (Suc i) n (xs[i := 0]))"
  then show "cut_list P (Suc i) n (xs[i := 0]) ! k = cut_list P i (Suc n) xs ! k" using assms by (cases k i rule: linorder_cases) (simp_all add: cut_list_nth)
qed simp

lemma cut_list_keep:
  assumes "\<not> (P i \<and> xs ! i \<noteq> 0)"
  shows "cut_list P (Suc i) n xs = cut_list P i (Suc n) xs"
proof (rule nth_equalityI)
  fix k
  assume "k < length (cut_list P (Suc i) n xs)"
  then show "cut_list P (Suc i) n xs ! k = cut_list P i (Suc n) xs ! k" using assms by (cases k i rule: linorder_cases) (auto simp: cut_list_nth)
qed simp

lemma range_split: "i \<le> k \<and> k < i + Suc n \<longleftrightarrow> k = i \<or> Suc i \<le> k \<and> k < Suc i + (n :: nat)"
  by auto

lemma cut_blocks_split: "cut_blocks P i (Suc n) xs = (if P i \<and> xs ! i \<noteq> 0 then {xs ! i} else {}) \<union> cut_blocks P (Suc i) n xs"
proof -
  have "x \<in> cut_blocks P i (Suc n) xs \<longleftrightarrow> (\<exists>k. (i \<le> k \<and> k < i + Suc n) \<and> x = xs ! k \<and> P k \<and> xs ! k \<noteq> 0)" for x by (auto simp: cut_blocks_def)
  moreover have "x \<in> cut_blocks P (Suc i) n xs \<longleftrightarrow> (\<exists>k. (Suc i \<le> k \<and> k < Suc i + n) \<and> x = xs ! k \<and> P k \<and> xs ! k \<noteq> 0)" for x by (auto simp: cut_blocks_def)
  ultimately show ?thesis unfolding set_eq_iff range_split by auto
qed

lemma cut_blocks_beyond: "cut_blocks P (Suc i) n (xs[i := b]) = cut_blocks P (Suc i) n xs"
  unfolding cut_blocks_def by (metis (no_types, lifting) Suc_le_eq less_irrefl nth_list_update_neq)

lemma free_entries_spec:
  assumes "fs_ok s" and "i + n \<le> length xs" and "\<And>k. i \<le> k \<Longrightarrow> k < i + n \<Longrightarrow> xs ! k \<noteq> 0 \<Longrightarrow> freeable s (xs ! k)"
    and "\<And>a b. i \<le> a \<Longrightarrow> a < b \<Longrightarrow> b < i + n \<Longrightarrow> xs ! a \<noteq> 0 \<Longrightarrow> xs ! a \<noteq> xs ! b"
  shows "\<exists>s'. free_entries P i n xs s = Ok (cut_list P i n xs, s') \<and> freed s (cut_blocks P i n xs) s'"
  using assms
proof (induction n arbitrary: i xs s)
  case 0
  have "cut_list P i 0 xs = xs" by (rule nth_equalityI) (auto simp: cut_list_nth)
  moreover have "cut_blocks P i 0 xs = {}" by (auto simp: cut_blocks_def)
  ultimately show ?case using freed_none [OF 0(1)] by simp
next
  case (Suc n)
  show ?case
  proof (cases "P i \<and> xs ! i \<noteq> 0")
    case True
    obtain t where t: "sfs_bfree (xs ! i) s = Ok t" "freed s {xs ! i} t" using bfree_spec [OF Suc.prems(1)] Suc.prems(3) [of i] True by auto
    let ?ys = "xs[i := 0]"
    have ok: "fs_ok t" "Suc i + n \<le> length ?ys" using t(2) Suc.prems(2) by (simp_all add: freed_def)
    have "freeable t (?ys ! k)" if k: "Suc i \<le> k" "k < Suc i + n" "?ys ! k \<noteq> 0" for k
    proof -
      have "?ys ! k = xs ! k" "freeable s (xs ! k)" "xs ! k \<notin> {xs ! i}" using Suc.prems(3) [of k] Suc.prems(4) [of i k] k True by simp_all
      then show ?thesis using freeable_freed [OF t(2)] by simp
    qed
    moreover have "?ys ! a \<noteq> ?ys ! b" if "Suc i \<le> a" "a < b" "b < Suc i + n" "?ys ! a \<noteq> 0" for a b
      using Suc.prems(4) [of a b] that by simp
    ultimately obtain s' where s': "free_entries P (Suc i) n ?ys t = Ok (cut_list P (Suc i) n ?ys, s')" "freed t (cut_blocks P (Suc i) n ?ys) s'"
      using Suc.IH [OF ok] by blast
    have "cut_list P (Suc i) n ?ys = cut_list P i (Suc n) xs" using True Suc.prems(2) by (intro cut_list_clear) simp_all
    moreover have "cut_blocks P i (Suc n) xs = {xs ! i} \<union> cut_blocks P (Suc i) n ?ys" unfolding cut_blocks_beyond using True by (simp add: cut_blocks_split)
    ultimately show ?thesis using True t(1) s'(1) freed_trans [OF t(2) s'(2)] by auto
  next
    case False
    have "\<exists>s'. free_entries P (Suc i) n xs s = Ok (cut_list P (Suc i) n xs, s') \<and> freed s (cut_blocks P (Suc i) n xs) s'"
      using Suc.prems by (intro Suc.IH) auto
    moreover have "cut_blocks P i (Suc n) xs = cut_blocks P (Suc i) n xs" unfolding cut_blocks_split if_not_P [OF False] by simp
    ultimately show ?thesis using False cut_list_keep [of P i xs n] by auto
  qed
qed

lemma free_entries_shape: "free_entries P i n xs s = Ok (ys, s') \<Longrightarrow> i + n \<le> length xs \<Longrightarrow> ys = cut_list P i n xs"
proof (induction n arbitrary: i xs s)
  case 0
  then show ?case by (intro nth_equalityI) (auto simp: cut_list_nth)
next
  case (Suc n)
  show ?case
  proof (cases "P i \<and> xs ! i \<noteq> 0")
    case True
    then obtain t where "free_entries P (Suc i) n (xs[i := 0]) t = Ok (ys, s')" using Suc.prems(1) by (auto simp: bindR_eq_Ok)
    then have "ys = cut_list P (Suc i) n (xs[i := 0])" using Suc.IH Suc.prems(2) by simp
    then show ?thesis using True Suc.prems(2) cut_list_clear [of i xs P n] by simp
  next
    case False
    then have "free_entries P (Suc i) n xs s = Ok (ys, s')" using Suc.prems(1) by auto
    then have "ys = cut_list P (Suc i) n xs" using Suc.IH Suc.prems(2) by simp
    then show ?thesis using cut_list_keep [of P i xs n] False by simp
  qed
qed

lemma trunc_direct_eq:
  "free_entries (\<lambda>k. B \<le> of_nat k) i n (sfi_direct (sv_i sv)) s = Ok (xs, s')
   \<Longrightarrow> \<exists>d. trunc_direct B i n sv s = Ok (sv\<lparr>sv_i := (sv_i sv)\<lparr>sfi_direct := xs\<rparr>, sv_dirty := d\<rparr>, s')"
proof (induction n arbitrary: i sv s)
  case 0
  then show ?case by (intro exI [of _ "sv_dirty sv"]) simp
next
  case (Suc n)
  show ?case
  proof (cases "B \<le> of_nat i \<and> sfi_direct (sv_i sv) ! i \<noteq> 0")
    case True
    then obtain t where t: "sfs_bfree (sfi_direct (sv_i sv) ! i) s = Ok t" "free_entries (\<lambda>k. B \<le> of_nat k) (Suc i) n ((sfi_direct (sv_i sv))[i := 0]) t = Ok (xs, s')"
      using Suc.prems by (auto simp: bindR_eq_Ok)
    let ?sv = "sv\<lparr>sv_i := (sv_i sv)\<lparr>sfi_direct := (sfi_direct (sv_i sv))[i := 0]\<rparr>, sv_dirty := True\<rparr>"
    have "free_entries (\<lambda>k. B \<le> of_nat k) (Suc i) n (sfi_direct (sv_i ?sv)) t = Ok (xs, s')" using t(2) by simp
    from Suc.IH [OF this] show ?thesis using True t(1) by auto
  next
    case False
    then show ?thesis using Suc by auto
  qed
qed

lemma trunc_entries_eq:
  "free_entries (\<lambda>k. B < base + of_nat k) j n ws s = Ok (xs, s') \<Longrightarrow> j + n \<le> length ws
   \<Longrightarrow> \<exists>h d. trunc_entries B base j n ws hz dirty s = Ok (xs, h, d, s') \<and> (h \<longleftrightarrow> hz \<or> (\<exists>k. j \<le> k \<and> k < j + n \<and> xs ! k \<noteq> 0)) \<and> (dirty \<longrightarrow> d) \<and> (\<not> d \<longrightarrow> xs = ws)"
proof (induction n arbitrary: j ws s hz dirty)
  case 0
  then show ?case by auto
next
  case (Suc n)
  have xs: "xs = cut_list (\<lambda>k. B < base + of_nat k) j (Suc n) ws" using free_entries_shape Suc.prems by blast
  have ex: "(\<exists>k. j \<le> k \<and> k < j + Suc n \<and> xs ! k \<noteq> 0) \<longleftrightarrow> xs ! j \<noteq> 0 \<or> (\<exists>k. Suc j \<le> k \<and> k < Suc j + n \<and> xs ! k \<noteq> 0)"
    using range_split [of j _ n] by metis
  show ?case
  proof (cases "B < base + of_nat j \<and> ws ! j \<noteq> 0")
    case True
    then obtain t where t: "sfs_bfree (ws ! j) s = Ok t" "free_entries (\<lambda>k. B < base + of_nat k) (Suc j) n (ws[j := 0]) t = Ok (xs, s')"
      using Suc.prems(1) by (auto simp: bindR_eq_Ok)
    have "xs ! j = 0" using xs True Suc.prems(2) by (simp add: cut_list_nth)
    then show ?thesis using Suc.IH [OF t(2), of hz True] Suc.prems(2) True t(1) ex by auto
  next
    case False
    then have f: "free_entries (\<lambda>k. B < base + of_nat k) (Suc j) n ws s = Ok (xs, s')" using Suc.prems(1) by auto
    have "xs ! j = ws ! j" using xs False Suc.prems(2) by (auto simp: cut_list_nth)
    then show ?thesis using Suc.IH [OF f, of "hz \<or> ws ! j \<noteq> 0" dirty] Suc.prems(2) False ex by auto
  qed
qed

text \<open>The indirect part: \<open>Q\<close> says which entries go.\<close>

lemma cut_list_false: "(\<And>k. k < length xs \<Longrightarrow> \<not> P k) \<Longrightarrow> cut_list P 0 (length xs) xs = xs"
  by (rule nth_equalityI) (simp_all add: cut_list_nth)

lemma cut_blocks_false: "(\<And>k. k < n \<Longrightarrow> \<not> P k) \<Longrightarrow> cut_blocks P 0 n xs = {}"
  by (auto simp: cut_blocks_def)

lemma cut_list_cong: "(\<And>k. k < length xs \<Longrightarrow> P k = Q k) \<Longrightarrow> n \<le> length xs \<Longrightarrow> cut_list P 0 n xs = cut_list Q 0 n xs \<and> cut_blocks P 0 n xs = cut_blocks Q 0 n xs"
  by (auto simp: cut_list_def cut_blocks_def)

definition id_cut :: "nat \<Rightarrow> nat \<Rightarrow> bool" where
  "id_cut nb k \<longleftrightarrow> nb < 142 \<and> nb < 15 + k"

lemma trunc_indirect_spec:
  assumes s: "fs_ok s" and B: "unat B = nb" and x: "sfi_indirect (sv_i sv) = x" "x \<noteq> 0 \<Longrightarrow> freeable s x"
    and ws: "ws = idwords (fs_data s) (sv_i sv)" "\<And>k. k < 128 \<Longrightarrow> ws ! k \<noteq> 0 \<Longrightarrow> freeable s (ws ! k) \<and> ws ! k \<noteq> x"
    "\<And>a b. a < b \<Longrightarrow> b < 128 \<Longrightarrow> ws ! a \<noteq> 0 \<Longrightarrow> ws ! a \<noteq> ws ! b"
  shows "\<exists>x' d s'. trunc_indirect B sv s = Ok (0, sv\<lparr>sv_i := (sv_i sv)\<lparr>sfi_indirect := x'\<rparr>, sv_dirty := d\<rparr>, s') \<and> fs_ok s' \<and> same_fs s s'
    \<and> (x' = x \<or> x' = 0) \<and> (nb < 142 \<and> (\<forall>k<128. cut_list (id_cut nb) 0 128 ws ! k = 0) \<longrightarrow> x' = 0) \<and> idwords (fs_data s') ((sv_i sv)\<lparr>sfi_indirect := x'\<rparr>) = cut_list (id_cut nb) 0 128 ws
    \<and> (\<forall>b. b = 0 \<or> b \<noteq> x \<longrightarrow> fs_data s' b = fs_data s b)
    \<and> blocks_in_use s' = blocks_in_use s - unat ` (cut_blocks (id_cut nb) 0 128 ws \<union> (if x' = x then {} else {x}))"
proof -
  have len: "length ws = 128" by (simp add: ws(1) idwords_def layout_defs)
  have id: "idwords f ((sv_i sv)\<lparr>sfi_indirect := x\<rparr>) = idwords f (sv_i sv)" for f using x(1) by (simp add: idwords_def)
  have cond: "B < 15 + 128 - 1 \<longleftrightarrow> nb < 142" using B by (simp add: word_less_nat_alt)
  show ?thesis
  proof (cases "nb < 142 \<and> x \<noteq> 0")
    case False
    then have "trunc_indirect B sv s = Ok (0, sv, s)" using cond x(1) by (auto simp: trunc_indirect_def layout_defs)
    moreover have "\<And>k. k < 128 \<Longrightarrow> ws ! k \<noteq> 0 \<Longrightarrow> \<not> id_cut nb k" using False x(1) by (auto simp: id_cut_def ws(1) idwords_def layout_defs)
    then have "cut_list (id_cut nb) 0 128 ws = ws" "cut_blocks (id_cut nb) 0 128 ws = {}"
      using len by (auto simp: cut_blocks_def intro!: nth_equalityI) (simp add: cut_list_nth, blast)
    ultimately show ?thesis using s ws(1) x(1) id False by (intro exI [of _ x] exI [of _ "sv_dirty sv"] exI [of _ s]) simp
  next
    case True
    then have lt: "x < sp_nblocks (sfs_super s)" using x(2) by (simp add: freeable_def)
    obtain d where d: "fs_rblock x s = Ok (0, fs_data s x, s\<lparr>sfs_device := d\<rparr>)" "io_done (sfs_device s) (fs_data s) d" by (rule fs_rblock_reads [OF s lt])
    let ?s = "s\<lparr>sfs_device := d\<rparr>" and ?P = "\<lambda>k. B < 15 + of_nat k"
    have f0: "freed s {} ?s" by (rule freed_io [OF freed_none [OF s] d(2)])
    have w: "bytes_words SFS_DBPERIDB (fs_data s x) = ws" using True x(1) by (simp add: ws(1) idwords_def)
    have "\<exists>s'. free_entries ?P 0 128 ws ?s = Ok (cut_list ?P 0 128 ws, s') \<and> freed ?s (cut_blocks ?P 0 128 ws) s'"
      using f0 len ws(2,3) freeable_freed [OF f0] by (intro free_entries_spec) (auto simp: freed_def)
    moreover have "?P k = id_cut nb k" if "k < length ws" for k
      using that len B True by (simp add: id_cut_def word_less_nat_alt unat_word_ariths unat_of_nat)
    ultimately obtain t where t: "free_entries ?P 0 128 ws ?s = Ok (cut_list (id_cut nb) 0 128 ws, t)" "freed ?s (cut_blocks (id_cut nb) 0 128 ws) t"
      using cut_list_cong [of ws ?P "id_cut nb" 128] len by auto
    let ?ys = "cut_list (id_cut nb) 0 128 ws" and ?F = "cut_blocks (id_cut nb) 0 128 ws"
    have ft: "freed s ?F t" using freed_trans [OF f0 t(2)] by simp
    obtain h dd where e: "trunc_entries B 15 0 128 ws False False ?s = Ok (?ys, h, dd, t)" "h \<longleftrightarrow> (\<exists>k<128. ?ys ! k \<noteq> 0)" "\<not> dd \<longrightarrow> ?ys = ws"
      using trunc_entries_eq [OF t(1), of False False] len by auto
    have xF: "x \<notin> ?F" using ws(2) by (auto simp: cut_blocks_def)
    have fx: "freeable t x" using freeable_freed [OF ft x(2) xF] True by simp
    have t_ok: "fs_ok t" "same_fs s t" "fs_data t = fs_data s" "blocks_in_use t = blocks_in_use s - unat ` ?F" using ft by (simp_all add: freed_def)
    have run: "trunc_indirect B sv s = (if \<not> h then bindR (sfs_bfree x t) (\<lambda>s. Ok (0, sv\<lparr>sv_i := (sv_i sv)\<lparr>sfi_indirect := 0\<rparr>, sv_dirty := True\<rparr>, s))
        else if dd then bindR (fs_wblock (words_bytes ?ys) x t) (\<lambda>(result, s). Ok (result, sv, s)) else Ok (0, sv, t))"
      using True cond x(1) d(1) w e(1) by (simp add: trunc_indirect_def layout_defs)
    consider (gone) "\<not> h" | (rewrite) "h" "dd" | (same) "h" "\<not> dd" by blast
    then show ?thesis
    proof cases
      case gone
      then have zero: "?ys = replicate 128 0" using e(2) len by (intro nth_equalityI) auto
      obtain t' where t': "sfs_bfree x t = Ok t'" "freed t {x} t'" by (rule bfree_spec [OF t_ok(1) fx])
      have "freed s (?F \<union> {x}) t'" by (rule freed_trans [OF ft t'(2)])
      then show ?thesis using gone run zero t'(1) True
        by (intro exI [of _ 0] exI [of _ True] exI [of _ t']) (simp add: freed_def idwords_def layout_defs)
    next
      case rewrite
      have wl: "length (words_bytes ?ys) = SFS_BLOCKSIZE" and xt: "x < sp_nblocks (sfs_super t)" using len fx by (simp_all add: layout_defs freeable_def)
      obtain c where c: "fs_wblock (words_bytes ?ys) x t = Ok (0, t\<lparr>sfs_device := c\<rparr>)" "io_done (sfs_device t) ((fs_data t)(x := words_bytes ?ys)) c"
        by (rule fs_wblock_writes [OF t_ok(1) xt wl])
      have "fs_ok (t\<lparr>sfs_device := c\<rparr>)" using fs_ok_device [OF t_ok(1) c(2)] .
      then show ?thesis using rewrite e(2) run c t_ok True x(1) len
        by (intro exI [of _ x] exI [of _ "sv_dirty sv"] exI [of _ "t\<lparr>sfs_device := c\<rparr>"]) (auto simp: same_fs_def io_done_def idwords_def layout_defs)
    next
      case same
      then show ?thesis using run t_ok x(1) e(2,3) ws(1) id
        by (intro exI [of _ x] exI [of _ "sv_dirty sv"] exI [of _ t]) auto
    qed
  qed
qed

definition trunc_cuts :: "nat \<Rightarrow> nat \<Rightarrow> bool" where
  "trunc_cuts nb k \<longleftrightarrow> (if k < 15 then nb \<le> k else id_cut nb (k - 15))"

lemma owned_freeable: "file_ok s i \<Longrightarrow> b \<in> owned (fs_data s) i \<Longrightarrow> freeable s b"
  by (auto simp: file_ok_def freeable_def owned_def)

lemma owned_cases:
  assumes "inode_shape i"
  shows "b \<in> owned f i \<longleftrightarrow> b \<noteq> 0 \<and> (b = sfi_indirect i \<or> (\<exists>k<143. b = fblocks f i ! k))"
  using assms by (auto simp: owned_def in_set_conv_nth)

lemma filter_distinctI: "(\<And>a b. a < b \<Longrightarrow> b < length xs \<Longrightarrow> P (xs ! a) \<Longrightarrow> xs ! a \<noteq> xs ! b) \<Longrightarrow> distinct (filter P xs)"
proof (induction xs)
  case (Cons x xs)
  have "distinct (filter P xs)"
  proof (rule Cons.IH)
    fix a b
    assume "a < b" "b < length xs" "P (xs ! a)"
    then show "xs ! a \<noteq> xs ! b" using Cons.prems [of "Suc a" "Suc b"] by simp
  qed
  moreover have "x \<notin> set xs" if "P x"
  proof
    assume "x \<in> set xs"
    then obtain b where "b < length xs" "x = xs ! b" by (auto simp: in_set_conv_nth)
    then show False using Cons.prems [of 0 "Suc b"] that by simp
  qed
  ultimately show ?case by auto
qed simp

text \<open>Cutting a file: what is left of its blocks, and which blocks are no longer its own.\<close>

lemma cut_file:
  assumes i: "file_ok s i" and shape: "inode_shape i'" and fb: "fblocks f' i' = cut_list P 0 143 (fblocks (fs_data s) i)"
    and x: "sfi_indirect i' = sfi_indirect i \<or> sfi_indirect i' = 0"
  shows "owned f' i' \<subseteq> owned (fs_data s) i"
    and "owned (fs_data s) i - owned f' i' = cut_blocks P 0 143 (fblocks (fs_data s) i) \<union> (if sfi_indirect i' = sfi_indirect i then {} else {sfi_indirect i})"
    and "distinct (filter (\<lambda>b. b \<noteq> 0) (sfi_indirect i' # fblocks f' i'))"
proof -
  let ?fb = "fblocks (fs_data s) i"
  have sh: "inode_shape i" and len: "length ?fb = 143" using i by (simp_all add: file_ok_def)
  have nth: "fblocks f' i' ! k = (if P k then 0 else ?fb ! k)" if "k < 143" for k using fb that len by (simp add: cut_list_nth)
  have inj: "a = b" if "a < 143" "b < 143" "?fb ! a = ?fb ! b" "?fb ! a \<noteq> 0" for a b using fblocks_inj [OF i] that by blast
  have ni: "?fb ! a \<noteq> sfi_indirect i" if "a < 143" "?fb ! a \<noteq> 0" for a using fblocks_not_indirect [OF i] that by blast
  have own: "b \<in> owned (fs_data s) i \<longleftrightarrow> b \<noteq> 0 \<and> (b = sfi_indirect i \<or> (\<exists>k<143. b = ?fb ! k))" for b by (rule owned_cases [OF sh])
  have own': "b \<in> owned f' i' \<longleftrightarrow> b \<noteq> 0 \<and> (b = sfi_indirect i' \<or> (\<exists>k<143. \<not> P k \<and> b = ?fb ! k))" for b
    unfolding owned_cases [OF shape] using nth by metis
  show "owned f' i' \<subseteq> owned (fs_data s) i" unfolding subset_iff own own' using x by blast
  have cut: "b \<in> cut_blocks P 0 143 ?fb \<longleftrightarrow> b \<noteq> 0 \<and> (\<exists>k<143. P k \<and> b = ?fb ! k)" for b by (auto simp: cut_blocks_def)
  show "owned (fs_data s) i - owned f' i' = cut_blocks P 0 143 ?fb \<union> (if sfi_indirect i' = sfi_indirect i then {} else {sfi_indirect i})"
  proof (rule set_eqI)
    fix b
    consider (zero) "b = 0" | (ind) "b \<noteq> 0" "b = sfi_indirect i" | (data) k where "b \<noteq> 0" "b \<noteq> sfi_indirect i" "k < 143" "b = ?fb ! k"
      | (none) "b \<notin> owned (fs_data s) i" using own by blast
    then show "b \<in> owned (fs_data s) i - owned f' i' \<longleftrightarrow> b \<in> cut_blocks P 0 143 ?fb \<union> (if sfi_indirect i' = sfi_indirect i then {} else {sfi_indirect i})"
    proof cases
      case zero
      then show ?thesis using own [of b] cut [of b] x by auto
    next
      case ind
      then have "\<not> (\<exists>k<143. b = ?fb ! k)" using ni by blast
      then show ?thesis using own [of b] own' [of b] cut [of b] ind by auto
    next
      case data
      have "(\<exists>j<143. P j \<and> b = ?fb ! j) \<longleftrightarrow> P k" "(\<exists>j<143. \<not> P j \<and> b = ?fb ! j) \<longleftrightarrow> \<not> P k" using data inj by blast+
      then show ?thesis using own [of b] own' [of b] cut [of b] data x by auto
    next
      case none
      then show ?thesis using own [of b] cut [of b] x by auto
    qed
  qed
  show "distinct (filter (\<lambda>b. b \<noteq> 0) (sfi_indirect i' # fblocks f' i'))"
  proof (rule filter_distinctI)
    fix a b
    assume ab: "a < b" "b < length (sfi_indirect i' # fblocks f' i')" "(sfi_indirect i' # fblocks f' i') ! a \<noteq> 0"
    then obtain c where c: "b = Suc c" "c < 143" using shape by (cases b) auto
    show "(sfi_indirect i' # fblocks f' i') ! a \<noteq> (sfi_indirect i' # fblocks f' i') ! b"
    proof (cases a)
      case 0
      then show ?thesis using ab c x ni [of c] nth [of c] by (auto split: if_splits)
    next
      case (Suc e)
      then show ?thesis using ab c inj [of e c] nth [of c] nth [of e] by (auto split: if_splits)
    qed
  qed
qed

lemma in_cut_blocks: "b \<in> cut_blocks P 0 n xs \<longleftrightarrow> b \<noteq> 0 \<and> (\<exists>k<n. P k \<and> xs ! k = b)"
  by (auto simp: cut_blocks_def)

lemma cut_append:
  assumes "length xs = 15" and "length ys = 128"
  shows "cut_list (trunc_cuts nb) 0 143 (xs @ ys) = cut_list (\<lambda>k. nb \<le> k) 0 15 xs @ cut_list (id_cut nb) 0 128 ys"
    and "cut_blocks (trunc_cuts nb) 0 143 (xs @ ys) = cut_blocks (\<lambda>k. nb \<le> k) 0 15 xs \<union> cut_blocks (id_cut nb) 0 128 ys"
proof -
  show "cut_list (trunc_cuts nb) 0 143 (xs @ ys) = cut_list (\<lambda>k. nb \<le> k) 0 15 xs @ cut_list (id_cut nb) 0 128 ys"
    using assms by (intro nth_equalityI) (auto simp: cut_list_nth nth_append trunc_cuts_def)
  have "(\<exists>k<143. trunc_cuts nb k \<and> (xs @ ys) ! k = b) \<longleftrightarrow> (\<exists>k<15. nb \<le> k \<and> xs ! k = b) \<or> (\<exists>k<128. id_cut nb k \<and> ys ! k = b)" for b
  proof
    assume "\<exists>k<143. trunc_cuts nb k \<and> (xs @ ys) ! k = b"
    then obtain k where k: "k < 143" "trunc_cuts nb k" "(xs @ ys) ! k = b" by blast
    show "(\<exists>k<15. nb \<le> k \<and> xs ! k = b) \<or> (\<exists>k<128. id_cut nb k \<and> ys ! k = b)"
    proof (cases "k < 15")
      case True
      then show ?thesis using k assms by (auto simp: nth_append trunc_cuts_def)
    next
      case False
      then have "k - 15 < 128" "id_cut nb (k - 15)" "ys ! (k - 15) = b" using k assms by (auto simp: nth_append trunc_cuts_def)
      then show ?thesis by blast
    qed
  next
    assume "(\<exists>k<15. nb \<le> k \<and> xs ! k = b) \<or> (\<exists>k<128. id_cut nb k \<and> ys ! k = b)"
    then show "\<exists>k<143. trunc_cuts nb k \<and> (xs @ ys) ! k = b"
    proof (elim disjE exE conjE)
      fix k
      assume "k < 15" "nb \<le> k" "xs ! k = b"
      then show ?thesis using assms by (intro exI [of _ k]) (simp add: nth_append trunc_cuts_def)
    next
      fix k
      assume "k < 128" "id_cut nb k" "ys ! k = b"
      then show ?thesis using assms by (intro exI [of _ "15 + k"]) (simp add: nth_append trunc_cuts_def)
    qed
  qed
  then show "cut_blocks (trunc_cuts nb) 0 143 (xs @ ys) = cut_blocks (\<lambda>k. nb \<le> k) 0 15 xs \<union> cut_blocks (id_cut nb) 0 128 ys"
    unfolding set_eq_iff Un_iff in_cut_blocks by blast
qed

definition same_kind :: "sfs_vnode \<Rightarrow> sfs_vnode \<Rightarrow> bool" where
  "same_kind sv sv' \<longleftrightarrow> sv_ino sv' = sv_ino sv \<and> vn_refcount sv' = vn_refcount sv \<and> vn_opencount sv' = vn_opencount sv \<and> vn_ops sv' = vn_ops sv
     \<and> sfi_type (sv_i sv') = sfi_type (sv_i sv) \<and> sfi_linkcount (sv_i sv') = sfi_linkcount (sv_i sv)"

text \<open>After the direct loop: what was freed, and that the indirect block and its entries are as before.\<close>

lemma trunc_direct_spec:
  assumes s: "fs_ok s" and i: "file_ok s i" and sv: "sv_i sv = i" and nb: "unat B = nb" "nb \<le> 143"
  obtains d t where "trunc_direct B 0 15 sv s = Ok (sv\<lparr>sv_i := i\<lparr>sfi_direct := cut_list (\<lambda>k. nb \<le> k) 0 15 (sfi_direct i)\<rparr>, sv_dirty := d\<rparr>, t)"
    and "freed s (cut_blocks (\<lambda>k. nb \<le> k) 0 15 (sfi_direct i)) t"
proof -
  let ?ds = "sfi_direct i" and ?P = "\<lambda>k. B \<le> of_nat k"
  have sh: "inode_shape i" and l: "length ?ds = 15" using i by (simp_all add: file_ok_def inode_shape_def)
  have at: "?ds ! k = fblocks (fs_data s) i ! k" if "k < 15" for k using fblocks_direct [OF sh that] by simp
  have "freeable s (?ds ! k)" if "k < 15" "?ds ! k \<noteq> 0" for k
    using owned_freeable [OF i owned_nth [OF sh, of k]] at [of k] that by simp
  moreover have "?ds ! a \<noteq> ?ds ! b" if "a < b" "b < 15" "?ds ! a \<noteq> 0" for a b using fblocks_inj [OF i, of a b] at [of a] at [of b] that by auto
  ultimately have "\<exists>t. free_entries ?P 0 15 ?ds s = Ok (cut_list ?P 0 15 ?ds, t) \<and> freed s (cut_blocks ?P 0 15 ?ds) t"
    using l by (intro free_entries_spec [OF s]) simp_all
  moreover have "?P k = (nb \<le> k)" if "k < length ?ds" for k using that nb l by (simp add: word_le_nat_alt unat_of_nat)
  ultimately obtain t where t: "free_entries ?P 0 15 ?ds s = Ok (cut_list (\<lambda>k. nb \<le> k) 0 15 ?ds, t)" "freed s (cut_blocks (\<lambda>k. nb \<le> k) 0 15 ?ds) t"
    using cut_list_cong [of ?ds ?P "\<lambda>k. nb \<le> k" 15] l by auto
  have "free_entries ?P 0 15 (sfi_direct (sv_i sv)) s = Ok (cut_list (\<lambda>k. nb \<le> k) 0 15 ?ds, t)" using t(1) sv by simp
  from trunc_direct_eq [OF this] show thesis using that t(2) sv by auto
qed

lemma trunc_direct_leaves:
  assumes i: "file_ok s i" and t: "freed s (cut_blocks P 0 15 (sfi_direct i)) t"
  shows "sfi_indirect i \<noteq> 0 \<Longrightarrow> freeable t (sfi_indirect i)"
    and "k < 128 \<Longrightarrow> idwords (fs_data s) i ! k \<noteq> 0 \<Longrightarrow> freeable t (idwords (fs_data s) i ! k) \<and> idwords (fs_data s) i ! k \<noteq> sfi_indirect i"
    and "a < b \<Longrightarrow> b < 128 \<Longrightarrow> idwords (fs_data s) i ! a \<noteq> 0 \<Longrightarrow> idwords (fs_data s) i ! a \<noteq> idwords (fs_data s) i ! b"
proof -
  have sh: "inode_shape i" using i by (simp add: file_ok_def)
  let ?fb = "fblocks (fs_data s) i" and ?ws = "idwords (fs_data s) i"
  have w: "?ws ! k = ?fb ! (15 + k)" for k by (rule fblocks_indirect [OF sh, symmetric])
  have A: "\<exists>j<15. ?fb ! j = b \<and> b \<noteq> 0" if "b \<in> cut_blocks P 0 15 (sfi_direct i)" for b
    using that fblocks_direct [OF sh] by (auto simp: in_cut_blocks)
  show "freeable t (sfi_indirect i)" if "sfi_indirect i \<noteq> 0"
  proof (rule freeable_freed [OF t])
    show "freeable s (sfi_indirect i)" using that by (intro owned_freeable [OF i]) (simp add: owned_def)
    show "sfi_indirect i \<notin> cut_blocks P 0 15 (sfi_direct i)"
    proof
      assume "sfi_indirect i \<in> cut_blocks P 0 15 (sfi_direct i)"
      then obtain j where "j < 15" "?fb ! j = sfi_indirect i" "sfi_indirect i \<noteq> 0" using A by blast
      then show False using fblocks_not_indirect [OF i, of j] by simp
    qed
  qed
  show "freeable t (?ws ! k) \<and> ?ws ! k \<noteq> sfi_indirect i" if k: "k < 128" "?ws ! k \<noteq> 0"
  proof
    show "freeable t (?ws ! k)"
    proof (rule freeable_freed [OF t])
      show "freeable s (?ws ! k)" unfolding w using k w by (intro owned_freeable [OF i] owned_nth [OF sh]) simp_all
      show "?ws ! k \<notin> cut_blocks P 0 15 (sfi_direct i)"
      proof
        assume "?ws ! k \<in> cut_blocks P 0 15 (sfi_direct i)"
        then obtain j where "j < 15" "?fb ! j = ?fb ! (15 + k)" "?fb ! j \<noteq> 0" using A w by fastforce
        then show False using fblocks_inj [OF i, of j "15 + k"] k(1) by simp
      qed
    qed
    show "?ws ! k \<noteq> sfi_indirect i" using fblocks_not_indirect [OF i, of "15 + k"] k w by simp
  qed
  show "?ws ! a \<noteq> ?ws ! b" if "a < b" "b < 128" "?ws ! a \<noteq> 0" using fblocks_inj [OF i, of "15 + a" "15 + b"] w [of a] w [of b] that by auto
qed

lemma sfs_truncate_spec:
  assumes s: "fs_ok s" and i: "file_ok s (sv_i sv)" and len: "len \<le> SFS_MAXFILE"
  defines "nb \<equiv> (len + SFS_BLOCKSIZE - 1) div SFS_BLOCKSIZE"
  shows "\<exists>sv' s'. sfs_truncate len sv s = Ok (0, sv', s') \<and> fs_ok s' \<and> same_fs s s' \<and> file_ok s' (sv_i sv') \<and> same_kind sv sv' \<and> sv_dirty sv'
    \<and> sfi_size (sv_i sv') = of_nat len \<and> fblocks (fs_data s') (sv_i sv') = cut_list (trunc_cuts nb) 0 143 (fblocks (fs_data s) (sv_i sv))
    \<and> (nb < 15 \<longrightarrow> sfi_indirect (sv_i sv') = 0) \<and> owned (fs_data s') (sv_i sv') \<subseteq> owned (fs_data s) (sv_i sv)
    \<and> blocks_in_use s' = blocks_in_use s - unat ` (owned (fs_data s) (sv_i sv) - owned (fs_data s') (sv_i sv'))
    \<and> (\<forall>b. b = 0 \<or> b \<noteq> sfi_indirect (sv_i sv) \<longrightarrow> fs_data s' b = fs_data s b)"
proof -
  let ?i = "sv_i sv" and ?B = "of_nat nb :: u32"
  let ?ds = "sfi_direct ?i" and ?ws = "idwords (fs_data s) ?i" and ?x = "sfi_indirect ?i"
  have sh: "inode_shape ?i" and l: "length ?ds = 15" "length ?ws = 128" using i by (simp_all add: file_ok_def inode_shape_def idwords_def layout_defs)
  have fb: "fblocks (fs_data s) ?i = ?ds @ ?ws" by (simp add: fblocks_def)
  have nb: "unat ?B = nb" "nb \<le> 143" using len by (auto simp: nb_def layout_defs unat_of_nat)
  let ?xs = "cut_list (\<lambda>k. nb \<le> k) 0 15 ?ds" and ?A = "cut_blocks (\<lambda>k. nb \<le> k) 0 15 ?ds"
  obtain d1 t where d1: "trunc_direct ?B 0 15 sv s = Ok (sv\<lparr>sv_i := ?i\<lparr>sfi_direct := ?xs\<rparr>, sv_dirty := d1\<rparr>, t)" "freed s ?A t"
    by (rule trunc_direct_spec [OF s i refl nb])
  let ?sv = "sv\<lparr>sv_i := ?i\<lparr>sfi_direct := ?xs\<rparr>, sv_dirty := d1\<rparr>"
  have t: "fs_ok t" "fs_data t = fs_data s" "same_fs s t" using d1(2) by (simp_all add: freed_def)
  have ix: "sfi_indirect (sv_i ?sv) = ?x" "?ws = idwords (fs_data t) (sv_i ?sv)" by (simp_all add: t(2) idwords_def)
  from trunc_indirect_spec [OF t(1) nb(1) ix(1) trunc_direct_leaves(1) [OF i d1(2)] ix(2) trunc_direct_leaves(2,3) [OF i d1(2)]]
  obtain x' d2 s' where e: "trunc_indirect ?B ?sv t = Ok (0, ?sv\<lparr>sv_i := (sv_i ?sv)\<lparr>sfi_indirect := x'\<rparr>, sv_dirty := d2\<rparr>, s')"
    "fs_ok s'" "same_fs t s'" "x' = ?x \<or> x' = 0" "idwords (fs_data s') ((sv_i ?sv)\<lparr>sfi_indirect := x'\<rparr>) = cut_list (id_cut nb) 0 128 ?ws"
    "\<forall>b. b = 0 \<or> b \<noteq> ?x \<longrightarrow> fs_data s' b = fs_data t b"
    "blocks_in_use s' = blocks_in_use t - unat ` (cut_blocks (id_cut nb) 0 128 ?ws \<union> (if x' = ?x then {} else {?x}))"
    "nb < 142 \<and> (\<forall>k<128. cut_list (id_cut nb) 0 128 ?ws ! k = 0) \<longrightarrow> x' = 0" by blast
  have gone: "nb < 15 \<longrightarrow> x' = 0" using e(8) l by (auto simp: cut_list_nth id_cut_def)
  let ?sv' = "?sv\<lparr>sv_i := ((sv_i ?sv)\<lparr>sfi_indirect := x'\<rparr>)\<lparr>sfi_size := of_nat len\<rparr>, sv_dirty := True\<rparr>"
  have run: "sfs_truncate len sv s = Ok (0, ?sv', s')" using d1(1) e(1) by (simp add: sfs_truncate_def nb_def Let_def layout_defs)
  have fb': "fblocks (fs_data s') (sv_i ?sv') = cut_list (trunc_cuts nb) 0 143 (fblocks (fs_data s) ?i)"
  proof -
    have "idwords (fs_data s') (sv_i ?sv') = cut_list (id_cut nb) 0 128 ?ws" unfolding e(5) [symmetric] by (rule idwords_cong) simp_all
    moreover have "sfi_direct (sv_i ?sv') = ?xs" by simp
    ultimately show ?thesis unfolding fblocks_def cut_append(1) [OF l] by (simp only:)
  qed
  have sh': "inode_shape (sv_i ?sv')" using sh l by (simp add: inode_shape_def)
  have ind': "sfi_indirect (sv_i ?sv') = ?x \<or> sfi_indirect (sv_i ?sv') = 0" using e(4) by auto
  note c = cut_file [OF i sh' fb' ind']
  have "blocks_in_use s' = blocks_in_use s - unat ` (?A \<union> (cut_blocks (id_cut nb) 0 128 ?ws \<union> (if x' = ?x then {} else {?x})))"
    using e(7) d1(2) by (auto simp: freed_def image_Un)
  also have "?A \<union> (cut_blocks (id_cut nb) 0 128 ?ws \<union> (if x' = ?x then {} else {?x})) = owned (fs_data s) ?i - owned (fs_data s') (sv_i ?sv')"
    unfolding c(2) fb cut_append(2) [OF l] by auto
  finally have use: "blocks_in_use s' = blocks_in_use s - unat ` (owned (fs_data s) ?i - owned (fs_data s') (sv_i ?sv'))" .
  have same: "same_fs s s'" by (rule same_fs_trans [OF t(3) e(3)])
  have "unat b \<in> blocks_in_use s' \<and> b < sp_nblocks (sfs_super s')" if "b \<in> owned (fs_data s') (sv_i ?sv')" for b
    using c(1) that i same unfolding use by (auto simp: file_ok_def same_fs_def dest: word_eq_of_unat)
  then have "file_ok s' (sv_i ?sv')" using sh' c(3) by (simp add: file_ok_def)
  then show ?thesis using run e(2,6) gone same fb' c(1) use t(2) by (intro exI [of _ ?sv'] exI [of _ s']) (simp add: same_kind_def)
qed

text \<open>An example: a file with block 3 at the start and, through the indirect block 4, block 5 at position 15.\<close>

definition demo_fs :: sfs_fs where
  "demo_fs = small_fs\<lparr>sfs_freemap := \<lparr>nbits = 8, bm_v = [63]\<rparr>,
     sfs_device := (sfs_device small_fs)\<lparr>dk_data := (\<lambda>_. replicate 512 0)(4 := words_bytes (5 # replicate 127 0), 5 := replicate 512 9)\<rparr>\<rparr>"

definition demo_file :: sfs_vnode where
  "demo_file = small_file\<lparr>sv_i := (sv_i small_file)\<lparr>sfi_direct := 3 # replicate 14 0, sfi_indirect := 4, sfi_size := 16 * 512\<rparr>\<rparr>"

lemma demo_used: "blocks_in_use demo_fs = {0, 1, 2, 3, 4, 5}"
proof (rule set_eqI)
  fix i
  have "i \<in> blocks_in_use demo_fs \<longleftrightarrow> i < 8 \<and> bit (63 :: u8) i" by (auto simp: demo_fs_def bm_used_def bm_cap_def bm_bit_def)
  also have "\<dots> \<longleftrightarrow> i \<in> {0, 1, 2, 3, 4, 5}" by (auto simp: numeral_eq_Suc less_Suc_eq)
  finally show "i \<in> blocks_in_use demo_fs \<longleftrightarrow> i \<in> {0, 1, 2, 3, 4, 5}" .
qed

lemma demo_blocks: "fblocks (fs_data demo_fs) (sv_i demo_file) = 3 # replicate 14 0 @ 5 # replicate 127 0"
proof -
  have "bytes_words SFS_DBPERIDB (words_bytes (5 # replicate 127 0)) = 5 # replicate 127 0" by (rule words_bytes_read) (simp add: layout_defs)
  then show ?thesis by (simp add: fblocks_def idwords_def demo_file_def demo_fs_def)
qed

lemma demo_ok: "fs_ok demo_fs" "file_ok demo_fs (sv_i demo_file)"
proof -
  have "bitmap_inv \<lparr>nbits = 8, bm_v = [63]\<rparr>" by (auto simp: bitmap_inv_def bm_cap_def)
  then show "fs_ok demo_fs" using demo_used small_fs_ok(1) by (simp add: fs_ok_def demo_fs_def small_fs_def bm_cap_def disk_ok_def quiet_def layout_defs)
  have "inode_shape (sv_i demo_file)" by (simp add: demo_file_def small_file_def inode_shape_def)
  moreover have "sfi_indirect (sv_i demo_file) = 4" "sp_nblocks (sfs_super demo_fs) = 8" by (simp_all add: demo_file_def demo_fs_def small_fs_def)
  ultimately show "file_ok demo_fs (sv_i demo_file)"
    unfolding file_ok_def owned_def demo_blocks demo_used using filter_zeros by (auto simp: word_less_nat_alt)
qed

text \<open>
  C36: Truncation frees what is cut off. Truncating a file to at most 14 blocks keeps the blocks before the new
  end, forgets every later one together with the indirect block, and returns exactly those blocks to the free
  map; the blocks that stay keep their contents and the size is the new length.
\<close>

theorem truncate_frees_tail:
  assumes "fs_ok s" and "file_ok s (sv_i sv)" and "len \<le> 14 * SFS_BLOCKSIZE"
  shows "\<exists>sv' s'. sfs_truncate len sv s = Ok (0, sv', s') \<and> fs_ok s' \<and> file_ok s' (sv_i sv') \<and> unat (sfi_size (sv_i sv')) = len \<and> sfi_indirect (sv_i sv') = 0
    \<and> (\<forall>k<143. fblocks (fs_data s') (sv_i sv') ! k = (if k * SFS_BLOCKSIZE < len then fblocks (fs_data s) (sv_i sv) ! k else 0))
    \<and> blocks_in_use s' = blocks_in_use s - unat ` (owned (fs_data s) (sv_i sv) - owned (fs_data s') (sv_i sv'))
    \<and> (\<forall>b. b = 0 \<or> b \<noteq> sfi_indirect (sv_i sv) \<longrightarrow> fs_data s' b = fs_data s b)"
proof -
  let ?nb = "(len + SFS_BLOCKSIZE - 1) div SFS_BLOCKSIZE"
  have len: "len \<le> SFS_MAXFILE" and nb: "?nb < 15" using assms(3) by (simp_all add: layout_defs less_mult_imp_div_less)
  have cuts: "trunc_cuts ?nb k \<longleftrightarrow> \<not> k * SFS_BLOCKSIZE < len" for k
  proof -
    have "?nb \<le> k \<longleftrightarrow> \<not> k * SFS_BLOCKSIZE < len" using div_less_iff_less_mult [of 512 "len + 511" "Suc k"] by (auto simp: layout_defs less_Suc_eq_le)
    then show ?thesis using nb by (auto simp: trunc_cuts_def id_cut_def)
  qed
  have l: "length (fblocks (fs_data s) (sv_i sv)) = 143" using assms(2) by (simp add: file_ok_def)
  obtain sv' s' where t: "sfs_truncate len sv s = Ok (0, sv', s')" "fs_ok s'" "file_ok s' (sv_i sv')" "sfi_size (sv_i sv') = of_nat len" "sfi_indirect (sv_i sv') = 0"
    "fblocks (fs_data s') (sv_i sv') = cut_list (trunc_cuts ?nb) 0 143 (fblocks (fs_data s) (sv_i sv))"
    "blocks_in_use s' = blocks_in_use s - unat ` (owned (fs_data s) (sv_i sv) - owned (fs_data s') (sv_i sv'))"
    "\<forall>b. b = 0 \<or> b \<noteq> sfi_indirect (sv_i sv) \<longrightarrow> fs_data s' b = fs_data s b" using sfs_truncate_spec [OF assms(1,2) len] nb by blast
  have "unat (sfi_size (sv_i sv')) = len" using t(4) len by (simp add: unat_of_nat layout_defs)
  moreover have "\<forall>k<143. fblocks (fs_data s') (sv_i sv') ! k = (if k * SFS_BLOCKSIZE < len then fblocks (fs_data s) (sv_i sv) ! k else 0)"
    unfolding t(6) using l cuts by (simp add: cut_list_nth)
  ultimately show ?thesis using t by blast
qed

theorem truncate_frees_tail_witness:
  "\<exists>sv' s'. sfs_truncate 100 demo_file demo_fs = Ok (0, sv', s') \<and> fblocks (fs_data s') (sv_i sv') ! 0 = 3 \<and> fblocks (fs_data s') (sv_i sv') ! 15 = 0"
proof -
  have "(100 :: nat) \<le> 14 * SFS_BLOCKSIZE" by (simp add: layout_defs)
  from truncate_frees_tail [OF demo_ok this] obtain sv' s' where t: "sfs_truncate 100 demo_file demo_fs = Ok (0, sv', s')"
    "\<forall>k<143. fblocks (fs_data s') (sv_i sv') ! k = (if k * SFS_BLOCKSIZE < 100 then fblocks (fs_data demo_fs) (sv_i demo_file) ! k else 0)" by blast
  then show ?thesis using spec [OF t(2), of 0] spec [OF t(2), of 15] by (simp add: demo_blocks layout_defs)
qed

text \<open>
  C38: Truncation past the direct blocks is off by one. When the new length ends in the range of the indirect
  block, the first block past the new end is neither freed nor forgotten: it stays in the file, marked in use, with
  its old contents, so the bytes that were cut off reappear when the file grows again.
\<close>

theorem truncate_keeps_block_past_end:
  assumes "fs_ok s" and "file_ok s (sv_i sv)" and "15 \<le> nb" and "nb \<le> 142" and "(nb - 1) * SFS_BLOCKSIZE < len" and "len \<le> nb * SFS_BLOCKSIZE"
    and "fblocks (fs_data s) (sv_i sv) ! nb = b" and "b \<noteq> 0"
  shows "\<exists>sv' s'. sfs_truncate len sv s = Ok (0, sv', s') \<and> unat (sfi_size (sv_i sv')) = len \<and> fblocks (fs_data s') (sv_i sv') ! nb = b \<and> unat b \<in> blocks_in_use s'
    \<and> (\<forall>m. m div SFS_BLOCKSIZE = nb \<longrightarrow> len \<le> m \<and> file_byte (fs_data s') (sv_i sv') m = file_byte (fs_data s) (sv_i sv) m)"
proof -
  have q: "(len + SFS_BLOCKSIZE - 1) div SFS_BLOCKSIZE = nb" using assms(3,5,6) by (auto simp: layout_defs intro!: div_nat_eqI)
  have len: "len \<le> SFS_MAXFILE" using assms(4,6) by (simp add: layout_defs)
  have l: "length (fblocks (fs_data s) (sv_i sv)) = 143" using assms(2) by (simp add: file_ok_def)
  obtain sv' s' where t: "sfs_truncate len sv s = Ok (0, sv', s')" "file_ok s' (sv_i sv')" "sfi_size (sv_i sv') = of_nat len"
    "fblocks (fs_data s') (sv_i sv') = cut_list (trunc_cuts nb) 0 143 (fblocks (fs_data s) (sv_i sv))"
    "\<forall>b. b = 0 \<or> b \<noteq> sfi_indirect (sv_i sv) \<longrightarrow> fs_data s' b = fs_data s b" using sfs_truncate_spec [OF assms(1,2) len] unfolding q by blast
  have nth: "fblocks (fs_data s') (sv_i sv') ! nb = b" using assms(3,4,7) l by (simp add: t(4) cut_list_nth trunc_cuts_def id_cut_def)
  have "b \<noteq> sfi_indirect (sv_i sv)" using fblocks_not_indirect [OF assms(2), of nb] assms(4,7,8) by simp
  then have "fs_data s' b = fs_data s b" using t(5) by blast
  then have "\<forall>m. m div SFS_BLOCKSIZE = nb \<longrightarrow> len \<le> m \<and> file_byte (fs_data s') (sv_i sv') m = file_byte (fs_data s) (sv_i sv) m"
    using nth assms(6,7) by (auto simp: file_byte_def layout_defs)
  moreover have "unat b \<in> blocks_in_use s'" using file_ok_block [OF t(2), of nb] nth assms(4,8) by simp
  moreover have "unat (sfi_size (sv_i sv')) = len" using t(3) len by (simp add: unat_of_nat layout_defs)
  ultimately show ?thesis using t(1) nth by blast
qed

theorem truncate_keeps_block_past_end_witness:
  "\<exists>sv' s'. sfs_truncate (15 * 512) demo_file demo_fs = Ok (0, sv', s') \<and> sfi_size (sv_i sv') = 15 * 512 \<and> 5 \<in> blocks_in_use s' \<and> file_byte (fs_data s') (sv_i sv') (15 * 512) = 9"
proof -
  have nth: "fblocks (fs_data demo_fs) (sv_i demo_file) ! 15 = 5" by (simp add: demo_blocks nth_append)
  have len: "(15 - 1) * SFS_BLOCKSIZE < 15 * 512" "15 * 512 \<le> 15 * SFS_BLOCKSIZE" by (simp_all add: layout_defs)
  have old: "file_byte (fs_data demo_fs) (sv_i demo_file) (15 * 512) = 9" using nth by (simp add: file_byte_def layout_defs) (simp add: demo_fs_def)
  from truncate_keeps_block_past_end [OF demo_ok _ _ len nth] obtain sv' s' where t: "sfs_truncate (15 * 512) demo_file demo_fs = Ok (0, sv', s')"
    "unat (sfi_size (sv_i sv')) = 15 * 512" "unat (5 :: u32) \<in> blocks_in_use s'"
    "\<forall>m. m div SFS_BLOCKSIZE = 15 \<longrightarrow> 15 * 512 \<le> m \<and> file_byte (fs_data s') (sv_i sv') m = file_byte (fs_data demo_fs) (sv_i demo_file) m" by auto
  have "sfi_size (sv_i sv') = 15 * 512" using t(2) by (intro word_eq_of_unat) simp
  then show ?thesis using t(1,3) spec [OF t(4), of "15 * 512"] old by (simp add: layout_defs)
qed

end
