(* ===== verification/SfsNames.thy ===== *)
theory SfsNames
  imports SfsVnode
begin

text \<open>
  Creating, finding and removing files by name (\<^verbatim>\<open>kern/fs/sfs/sfs_vnode.c\<close>): how the directory, the inodes on disk and
  the table of vnodes in memory fit together.
\<close>

subsection \<open>The table of vnodes\<close>

abbreviation loaded :: "sfs_fs \<Rightarrow> vaddr list" where
  "loaded s \<equiv> array_list (sfs_vnodes s)"

definition vtable_ok :: "sfs_fs \<Rightarrow> bool" where
  "vtable_ok s \<longleftrightarrow> array_inv (sfs_vnodes s) \<and> distinct (loaded s)
     \<and> (\<forall>v\<in>set (loaded s). \<exists>sv. sv_store s v = Some sv \<and> sv_ino sv < sp_nblocks (sfs_super s) \<and> unat (sv_ino sv) \<in> blocks_in_use s)
     \<and> (\<forall>v\<in>set (loaded s). \<forall>w\<in>set (loaded s). map_option sv_ino (sv_store s v) = map_option sv_ino (sv_store s w) \<longrightarrow> v = w)"

definition has_ino :: "sfs_fs \<Rightarrow> u32 \<Rightarrow> vaddr \<Rightarrow> bool" where
  "has_ino s ino v \<longleftrightarrow> map_option sv_ino (sv_store s v) = Some ino"

lemma find_loaded_scan:
  assumes s: "fs_ok s" and t: "vtable_ok s"
  shows "i + n = length (loaded s) \<Longrightarrow> find_loaded ino i n s = Ok (find (has_ino s ino) (drop i (loaded s)))"
proof (induction n arbitrary: i)
  case 0
  then show ?case by simp
next
  case (Suc n)
  have inv: "array_inv (sfs_vnodes s)" using t by (simp add: vtable_ok_def)
  have i: "i < length (loaded s)" using Suc.prems by simp
  have u: "unat (of_nat i :: u32) = i" using array_list_length [OF inv] unat_u32_bound [of "arr_num (sfs_vnodes s)"] i by (intro unat_of_nat_small) simp
  let ?v = "loaded s ! i"
  have g: "array_get (sfs_vnodes s) (of_nat i) = Ok ?v" using array_get_spec [OF inv, of "of_nat i"] i u array_list_length [OF inv] by simp
  have "?v \<in> set (loaded s)" using i by simp
  then obtain sv where sv: "sv_store s ?v = Some sv" "sv_ino sv < sp_nblocks (sfs_super s)" "unat (sv_ino sv) \<in> blocks_in_use s"
    using t by (auto simp: vtable_ok_def)
  have d: "drop i (loaded s) = ?v # drop (Suc i) (loaded s)" using i by (simp add: Cons_nth_drop_Suc)
  have "find_loaded ino (Suc i) n s = Ok (find (has_ino s ino) (drop (Suc i) (loaded s)))" using Suc by simp
  moreover have "has_ino s ino ?v \<longleftrightarrow> sv_ino sv = ino" by (simp add: has_ino_def sv)
  ultimately show ?case using g sv sfs_bused_spec [OF s sv(2)] by (simp add: d with_vnode_def)
qed

lemma find_loaded_spec:
  assumes "fs_ok s" and "vtable_ok s"
  shows "find_loaded ino 0 (unat (array_get_num (sfs_vnodes s))) s = Ok (find (has_ino s ino) (loaded s))"
  using find_loaded_scan [OF assms, of 0 "length (loaded s)" ino] array_list_length [of "sfs_vnodes s"] assms(2)
  by (simp add: vtable_ok_def array_get_num_def)

subsection \<open>The last reference to a removed file\<close>

text \<open>\<open>put_vnode\<close> and the free map, the disk and the table do not interfere.\<close>

lemma fs_ok_put [simp]: "fs_ok (put_vnode v sv s) = fs_ok s"
  by (simp add: put_vnode_def fs_ok_def)

lemma file_ok_put [simp]: "file_ok (put_vnode v sv s) i = file_ok s i"
  by (simp add: put_vnode_def file_ok_def)

lemma put_vnode_sel [simp]:
  "sfs_device (put_vnode v sv s) = sfs_device s" "sfs_super (put_vnode v sv s) = sfs_super s" "sfs_freemap (put_vnode v sv s) = sfs_freemap s"
  "sfs_vnodes (put_vnode v sv s) = sfs_vnodes s" "sv_store (put_vnode v sv s) = (sv_store s)(v \<mapsto> sv)"
  by (simp_all add: put_vnode_def)

lemma with_vnode_Some [simp]: "sv_store s v = Some sv \<Longrightarrow> with_vnode v s f = f sv"
  by (simp add: with_vnode_def)

lemma sync_inode_spec:
  assumes "fs_ok s" and "inode_shape (sv_i sv)" and "sv_ino sv < sp_nblocks (sfs_super s)"
  obtains d where "sfs_sync_inode sv s = Ok (0, sv\<lparr>sv_dirty := False\<rparr>, s\<lparr>sfs_device := d\<rparr>)"
    and "io_done (sfs_device s) (if sv_dirty sv then (fs_data s)(sv_ino sv := enc_inode (sv_i sv)) else fs_data s) d"
proof (cases "sv_dirty sv")
  case True
  have "length (enc_inode (sv_i sv)) = SFS_BLOCKSIZE" using enc_inode_length [OF assms(2)] by (simp add: layout_defs)
  then obtain d where "fs_wblock (enc_inode (sv_i sv)) (sv_ino sv) s = Ok (0, s\<lparr>sfs_device := d\<rparr>)"
    "io_done (sfs_device s) ((fs_data s)(sv_ino sv := enc_inode (sv_i sv))) d" by (rule fs_wblock_writes [OF assms(1,3)])
  then show ?thesis using that True by (simp add: sfs_sync_inode_def)
next
  case False
  have "sfs_sync_inode sv s = Ok (0, sv\<lparr>sv_dirty := False\<rparr>, s\<lparr>sfs_device := sfs_device s\<rparr>)" using False by (cases sv) (simp add: sfs_sync_inode_def)
  moreover have "io_done (sfs_device s) (fs_data s) (sfs_device s)" using assms(1) by (intro io_done_refl) (simp_all add: fs_ok_def)
  ultimately show ?thesis using that [of "sfs_device s"] False by simp
qed

lemma drop_vnode_spec:
  assumes inv: "array_inv (sfs_vnodes s)" and w: "w \<in> set (loaded s)" and sv: "sv_store s w = Some sv" "vn_refcount sv = 1" "vn_opencount sv = 0"
  obtains a where "drop_vnode w s = Ok (0, s\<lparr>sfs_vnodes := a, sv_store := (sv_store s)(w := None)\<rparr>)" and "array_inv a" and "array_list a = remove1 w (loaded s)"
proof -
  have "first_match (\<lambda>y. y = w) 0 (loaded s) \<noteq> None"
  proof
    assume "first_match (\<lambda>y. y = w) 0 (loaded s) = None"
    then have "find (\<lambda>y. y = w) (loaded s) = None" using first_match_find [of "\<lambda>y. y = w" 0 "loaded s"] by simp
    then show False using w by (auto simp: find_None_iff)
  qed
  then obtain j z where j: "first_match (\<lambda>y. y = w) 0 (loaded s) = Some (j, z)" by auto
  have sc: "scan (array_get (sfs_vnodes s)) (\<lambda>v2. v2 = w) 0 (unat (array_get_num (sfs_vnodes s))) = Ok (Some (j, z))" using karr.scan_finds [OF inv] j by metis
  from karr.remove_found [OF inv j] obtain a where "array_remove (sfs_vnodes s) (of_nat j) = Ok a" "array_inv a" "array_list a = remove1 w (loaded s)" by blast
  then show thesis using that sc sv by (simp add: drop_vnode_def vnode_cleanup_def)
qed

text \<open>A file that no directory entry refers to, with one reference left and not open.\<close>

definition unlinked :: "sfs_fs \<Rightarrow> vaddr \<Rightarrow> sfs_vnode \<Rightarrow> bool" where
  "unlinked s w f \<longleftrightarrow> w \<in> set (loaded s) \<and> sv_store s w = Some f \<and> vn_refcount f = 1 \<and> vn_opencount f = 0 \<and> vn_ops f = sfs_fileops \<and> sfi_linkcount (sv_i f) = 0
     \<and> file_ok s (sv_i f) \<and> freeable s (sv_ino f) \<and> sv_ino f \<notin> owned (fs_data s) (sv_i f)"

lemma truncate_to_zero:
  assumes "fs_ok s" and "file_ok s (sv_i f)"
  obtains f' s' where "sfs_truncate 0 f s = Ok (0, f', s')" and "fs_ok s'" and "same_fs s s'" and "file_ok s' (sv_i f')" and "same_kind f f'" and "sv_dirty f'"
    and "owned (fs_data s') (sv_i f') = {}" and "blocks_in_use s' = blocks_in_use s - unat ` owned (fs_data s) (sv_i f)"
    and "\<forall>b. b \<notin> owned (fs_data s) (sv_i f) \<longrightarrow> fs_data s' b = fs_data s b"
proof -
  have nb: "(0 + SFS_BLOCKSIZE - 1) div SFS_BLOCKSIZE = 0" by (simp add: layout_defs)
  from sfs_truncate_spec [OF assms, of 0] obtain f' s' where t: "sfs_truncate 0 f s = Ok (0, f', s')" "fs_ok s'" "same_fs s s'" "file_ok s' (sv_i f')" "same_kind f f'" "sv_dirty f'"
    "fblocks (fs_data s') (sv_i f') = cut_list (trunc_cuts 0) 0 143 (fblocks (fs_data s) (sv_i f))" "sfi_indirect (sv_i f') = 0"
    "blocks_in_use s' = blocks_in_use s - unat ` (owned (fs_data s) (sv_i f) - owned (fs_data s') (sv_i f'))"
    "\<forall>b. b = 0 \<or> b \<noteq> sfi_indirect (sv_i f) \<longrightarrow> fs_data s' b = fs_data s b" unfolding nb by auto
  have l: "length (fblocks (fs_data s) (sv_i f)) = 143" using assms(2) by (simp add: file_ok_def)
  have "fblocks (fs_data s') (sv_i f') = replicate 143 0" unfolding t(7) using l by (intro nth_equalityI) (simp_all add: cut_list_nth trunc_cuts_def id_cut_def)
  then have own: "owned (fs_data s') (sv_i f') = {}" using t(8) by (simp add: owned_def)
  have "fs_data s' b = fs_data s b" if "b \<notin> owned (fs_data s) (sv_i f)" for b
  proof -
    have "b = 0 \<or> b \<noteq> sfi_indirect (sv_i f)" using that by (auto simp: owned_def)
    then show ?thesis using t(10) by blast
  qed
  then show thesis using that t own by simp
qed

lemma decref_erases:
  assumes s: "fs_ok s" and inv: "array_inv (sfs_vnodes s)" and u: "unlinked s w f"
  shows "\<exists>s'. vnode_decref w s = Ok s' \<and> fs_ok s' \<and> sfs_super s' = sfs_super s \<and> sv_store s' = (sv_store s)(w := None) \<and> array_inv (sfs_vnodes s') \<and> loaded s' = remove1 w (loaded s)
    \<and> blocks_in_use s' = blocks_in_use s - unat ` insert (sv_ino f) (owned (fs_data s) (sv_i f))
    \<and> (\<forall>b. b \<notin> insert (sv_ino f) (owned (fs_data s) (sv_i f)) \<longrightarrow> fs_data s' b = fs_data s b)"
proof -
  let ?o = "owned (fs_data s) (sv_i f)" and ?n = "sv_ino f"
  have f: "w \<in> set (loaded s)" "sv_store s w = Some f" "vn_refcount f = 1" "vn_opencount f = 0" "vn_ops f = sfs_fileops" "sfi_linkcount (sv_i f) = 0"
    "file_ok s (sv_i f)" "freeable s ?n" "?n \<notin> ?o" using u by (simp_all add: unlinked_def)
  obtain f1 s1 where t: "sfs_truncate 0 f s = Ok (0, f1, s1)" "fs_ok s1" "same_fs s s1" "file_ok s1 (sv_i f1)" "same_kind f f1" "sv_dirty f1" "owned (fs_data s1) (sv_i f1) = {}"
    "blocks_in_use s1 = blocks_in_use s - unat ` ?o" "\<forall>b. b \<notin> ?o \<longrightarrow> fs_data s1 b = fs_data s b" by (rule truncate_to_zero [OF s f(7)])
  let ?s1 = "put_vnode w f1 s1"
  have k: "sv_ino f1 = ?n" "vn_refcount f1 = 1" "vn_opencount f1 = 0" using t(5) f by (simp_all add: same_kind_def)
  have n1: "freeable s1 ?n" using f(8,9) t(3,8) by (auto simp: freeable_def same_fs_def dest: word_eq_of_unat)
  have sh: "fs_ok ?s1" "inode_shape (sv_i f1)" "sv_ino f1 < sp_nblocks (sfs_super ?s1)" using t(2,4) n1 k(1) by (simp_all add: file_ok_def freeable_def)
  obtain d where d: "sfs_sync_inode f1 ?s1 = Ok (0, f1\<lparr>sv_dirty := False\<rparr>, ?s1\<lparr>sfs_device := d\<rparr>)"
    "io_done (sfs_device s1) ((fs_data s1)(?n := enc_inode (sv_i f1))) d" using sync_inode_spec [OF sh] t(6) k(1) by auto
  let ?s2 = "put_vnode w (f1\<lparr>sv_dirty := False\<rparr>) (?s1\<lparr>sfs_device := d\<rparr>)"
  have io: "io_done (sfs_device ?s1) ((fs_data s1)(?n := enc_inode (sv_i f1))) d" using d(2) by simp
  have s2: "fs_ok ?s2" "freeable ?s2 ?n" using fs_ok_device [OF sh(1) io] n1 by (simp_all add: freeable_def)
  obtain s3 where s3: "sfs_bfree ?n ?s2 = Ok s3" "freed ?s2 {?n} s3" by (rule bfree_spec [OF s2])
  have st: "sv_store s3 = (sv_store s)(w \<mapsto> f1\<lparr>sv_dirty := False\<rparr>)" "sfs_vnodes s3 = sfs_vnodes s" "sfs_super s3 = sfs_super s"
    using s3(2) t(3) by (simp_all add: freed_def same_fs_def)
  have pre: "array_inv (sfs_vnodes s3)" "w \<in> set (loaded s3)" "sv_store s3 w = Some (f1\<lparr>sv_dirty := False\<rparr>)" "vn_refcount (f1\<lparr>sv_dirty := False\<rparr>) = 1" "vn_opencount (f1\<lparr>sv_dirty := False\<rparr>) = 0"
    using st inv f(1) k by simp_all
  obtain a where a: "drop_vnode w s3 = Ok (0, s3\<lparr>sfs_vnodes := a, sv_store := (sv_store s3)(w := None)\<rparr>)" "array_inv a" "array_list a = remove1 w (loaded s3)"
    by (rule drop_vnode_spec [OF pre])
  have "VOP_TRUNCATE w 0 s = Ok (0, ?s1)" using f t(1) by (simp add: VOP_TRUNCATE_def vnode_check_def on_vnode_def)
  moreover have "on_vnode w ?s1 sfs_sync_inode = Ok (0, ?s2)" using d(1) by (simp add: on_vnode_def)
  ultimately have "sfs_reclaim w s = Ok (0, s3\<lparr>sfs_vnodes := a, sv_store := (sv_store s3)(w := None)\<rparr>)"
    using f s3(1) a(1) by (simp add: sfs_reclaim_def)
  then have run: "vnode_decref w s = Ok (s3\<lparr>sfs_vnodes := a, sv_store := (sv_store s3)(w := None)\<rparr>)" using f by (simp add: vnode_decref_def vnode_check_def)
  have data: "fs_data s3 b = fs_data s b" if "b \<notin> insert ?n ?o" for b using s3(2) io t(9) that by (simp add: freed_def io_done_def)
  have use: "blocks_in_use s3 = blocks_in_use s - unat ` insert ?n ?o" using s3(2) t(8) by (auto simp: freed_def)
  have "fs_ok s3" using s3(2) by (simp add: freed_def)
  then have "fs_ok (s3\<lparr>sfs_vnodes := a, sv_store := (sv_store s3)(w := None)\<rparr>)" by (simp add: fs_ok_def)
  then show ?thesis using run a(2,3) st data use by auto
qed

subsection \<open>Making a file\<close>

definition new_file :: "u32 \<Rightarrow> sfs_vnode" where
  "new_file ino = \<lparr>vn_refcount = 1, vn_opencount = 0, vn_ops = sfs_fileops,
     sv_i = \<lparr>sfi_size = 0, sfi_type = SFS_TYPE_FILE, sfi_linkcount = 0, sfi_direct = replicate 15 0, sfi_indirect = 0, sfi_waste = replicate 110 0\<rparr>,
     sv_ino = ino, sv_dirty = True\<rparr>"

lemma zero_words_long: "4 * n \<le> m \<Longrightarrow> bytes_words n (replicate m 0) = replicate n 0"
  using bytes_words_cong [of n "replicate m 0" "replicate (4 * n) 0"] zero_block_words [of n] by simp

lemma dec_inode_zero: "dec_inode (replicate 512 0) = \<lparr>sfi_size = 0, sfi_type = 0, sfi_linkcount = 0, sfi_direct = replicate 15 0, sfi_indirect = 0, sfi_waste = replicate 110 0\<rparr>"
proof -
  have "un32 (replicate 4 0) = 0" "un16 (replicate 2 0) = 0" by (simp_all add: un32_def un16_def numeral_eq_Suc)
  then show ?thesis using zero_words_long [of 15 504] zero_words_long [of 110 440] by (simp add: dec_inode_def)
qed

text \<open>The memory that \<open>sfs_loadvnode\<close> asks for is there: \<open>w\<close> is a new block, and the table can grow.\<close>

definition memory_for :: "sfs_fs \<Rightarrow> vaddr \<Rightarrow> vaddr block_alloc \<Rightarrow> bool" where
  "memory_for s w ka \<longleftrightarrow> w \<notin> set (loaded s) \<and> sv_store s w = None \<and> block_alloc_ok ka \<and> (\<forall>z. ka z \<noteq> None) \<and> length (loaded s) < 2 ^ 28"

lemma load_fresh:
  assumes s: "fs_ok s" and t: "vtable_ok s" and ino: "freeable s ino" "\<forall>v\<in>set (loaded s). \<not> has_ino s ino v" "fs_data s ino = replicate 512 0"
    and m: "memory_for s w ka"
  obtains d a where "sfs_loadvnode (Some w) ka ino SFS_TYPE_FILE s = Ok (0, w, put_vnode w (new_file ino) (s\<lparr>sfs_device := d, sfs_vnodes := a\<rparr>))"
    and "io_done (sfs_device s) (fs_data s) d" and "array_inv a" and "array_list a = loaded s @ [w]"
proof -
  have none: "find (has_ino s ino) (loaded s) = None" using ino(2) by (simp add: find_None_iff)
  have lt: "ino < sp_nblocks (sfs_super s)" "unat ino \<in> blocks_in_use s" using ino(1) by (simp_all add: freeable_def)
  obtain d where d: "fs_rblock ino s = Ok (0, fs_data s ino, s\<lparr>sfs_device := d\<rparr>)" "io_done (sfs_device s) (fs_data s) d" by (rule fs_rblock_reads [OF s lt(1)])
  have inv: "array_inv (sfs_vnodes s)" using t by (simp add: vtable_ok_def)
  obtain a where a: "array_add ka (sfs_vnodes s) w = Ok (0, arr_num (sfs_vnodes s), a)" "array_inv a" "array_list a = loaded s @ [w]"
  proof -
    have "block_alloc_ok ka" "length (loaded s) < 2 ^ 28" "\<not> (\<exists>z. ka z = None)" using m by (simp_all add: memory_for_def)
    then show thesis using array_add_spec [OF inv, of ka w] that by blast
  qed
  have "sfs_loadvnode (Some w) ka ino SFS_TYPE_FILE s = Ok (0, w, put_vnode w (new_file ino) (s\<lparr>sfs_device := d, sfs_vnodes := a\<rparr>))"
    using none find_loaded_spec [OF s t] sfs_bused_spec [OF s lt(1)] lt(2) d(1) a(1)
    by (simp add: sfs_loadvnode_def load_new_def fresh_vnode_def ino(3) dec_inode_zero ops_of_def vnode_init_def new_file_def layout_defs)
  then show thesis using that d(2) a(2,3) by blast
qed

lemma loaded_in_use:
  assumes "vtable_ok s" and "v \<in> set (loaded s)" and "has_ino s ino v"
  shows "unat ino \<in> blocks_in_use s"
proof -
  obtain sv where "sv_store s v = Some sv" "unat (sv_ino sv) \<in> blocks_in_use s" using assms(1,2) by (auto simp: vtable_ok_def)
  then show ?thesis using assms(3) by (simp add: has_ino_def)
qed

text \<open>After an allocation the vnodes, and any file or directory, are as well-formed as before.\<close>

lemma allocated_vtable: "vtable_ok s \<Longrightarrow> allocated s b s' \<Longrightarrow> vtable_ok s'"
  by (auto simp: vtable_ok_def allocated_def same_fs_def)

lemma file_same:
  assumes i: "inode_shape i" and same: "\<forall>b\<in>owned f i. g b = f b"
  shows "fblocks g i = fblocks f i" and "owned g i = owned f i" and "n < SFS_MAXFILE \<Longrightarrow> file_byte g i n = file_byte f i n"
proof -
  have "idwords g i = idwords f i" using same by (intro idwords_cong) (auto simp: owned_def)
  then show fb: "fblocks g i = fblocks f i" by (simp add: fblocks_def)
  then show "owned g i = owned f i" by (simp add: owned_def)
  show "file_byte g i n = file_byte f i n" if "n < SFS_MAXFILE"
  proof -
    have "n div SFS_BLOCKSIZE < 143" using that by (simp add: layout_defs less_mult_imp_div_less)
    then show ?thesis using owned_nth [OF i, of "n div SFS_BLOCKSIZE" f] same by (auto simp: file_byte_def fb Let_def)
  qed
qed

text \<open>A directory whose blocks are left alone, in a file system whose free map still has them.\<close>

lemma dir_ok_move:
  assumes d: "dir_ok s sv" and s': "fs_ok s'" "sfs_super s' = sfs_super s" and same: "\<forall>b\<in>owned (fs_data s) (sv_i sv). fs_data s' b = fs_data s b \<and> unat b \<in> blocks_in_use s'"
  shows "dir_ok s' sv" and "dir_entries (fs_data s') (sv_i sv) = dir_entries (fs_data s) (sv_i sv)"
proof -
  have i: "file_ok s (sv_i sv)" and sh: "inode_shape (sv_i sv)" and z: "unat (sfi_size (sv_i sv)) \<le> SFS_MAXFILE" using d by (simp_all add: dir_ok_def file_ok_def)
  have eq: "\<forall>b\<in>owned (fs_data s) (sv_i sv). fs_data s' b = fs_data s b" using same by blast
  note f = file_same [OF sh eq]
  show e: "dir_entries (fs_data s') (sv_i sv) = dir_entries (fs_data s) (sv_i sv)"
  proof -
    have "file_read (fs_data s') (sv_i sv) (k * DIRSIZE) DIRSIZE = file_read (fs_data s) (sv_i sv) (k * DIRSIZE) DIRSIZE" if "k < unat (sfi_size (sv_i sv)) div DIRSIZE" for k
    proof -
      have "k * DIRSIZE + DIRSIZE \<le> SFS_MAXFILE" using that z by (auto simp: layout_defs)
      then show ?thesis using f(3) by (auto simp: file_read_def)
    qed
    then show ?thesis by (simp add: dir_entries_def)
  qed
  have "file_ok s' (sv_i sv)" using i same s'(2) f(1,2) by (simp add: file_ok_def)
  then show "dir_ok s' sv" using d s' e by (simp add: dir_ok_def addressable_def)
qed

lemma put_vnode_same [simp]: "sv_store s v = Some sv \<Longrightarrow> put_vnode v sv s = s"
  by (cases s) (auto simp: put_vnode_def)

lemma find_in_spec:
  assumes d: "dir_ok s sv" and v: "sv_store s v = Some sv"
  obtains ds t where "find_in v name s = Ok (if ds_found ds \<noteq> None then 0 else ENOENT, ds, t)" and "undisturbed s t" and "map_option fst (ds_found ds) = dir_names (sv, s) name"
    and "\<forall>ino slot. ds_found ds = Some (ino, slot) \<longrightarrow> slot \<in> names_at (dir_entries (fs_data s) (sv_i sv)) name"
proof -
  obtain ds t where f: "sfs_dir_findname sv name s = Ok (if ds_found ds \<noteq> None then 0 else ENOENT, ds, sv, t)" "undisturbed s t"
    "found_upto (dir_entries (fs_data s) (sv_i sv)) name (length (dir_entries (fs_data s) (sv_i sv))) ds" by (rule findname_spec [OF d])
  have "sv_store t v = Some sv" using f(2) v by (simp add: undisturbed_def same_fs_def)
  then have "find_in v name s = Ok (if ds_found ds \<noteq> None then 0 else ENOENT, ds, t)" using f(1) v by (simp add: find_in_def)
  moreover have "map_option fst (ds_found ds) = dir_names (sv, s) name" using found_upto_map f(3) d by (simp add: dir_ok_def dir_names_def)
  moreover have "\<forall>ino slot. ds_found ds = Some (ino, slot) \<longrightarrow> slot \<in> names_at (dir_entries (fs_data s) (sv_i sv)) name" using f(3) by (auto simp: found_upto_def)
  ultimately show thesis using that f(2) by blast
qed

lemma makeobj_spec:
  assumes s: "fs_ok s" and t: "vtable_ok s" and m: "memory_for s w ka"
  obtains (full) "sfs_makeobj (Some w) ka SFS_TYPE_FILE s = Ok (ENOSPC, 0, s)" and "blocks_in_use s = {..<bm_cap (sfs_freemap s)}"
  | (made) ino s' where "sfs_makeobj (Some w) ka SFS_TYPE_FILE s = Ok (0, w, s')" and "fs_ok s'" and "sfs_super s' = sfs_super s" and "freeable s' ino"
    and "unat ino \<notin> blocks_in_use s" and "blocks_in_use s' = insert (unat ino) (blocks_in_use s)" and "sv_store s' = (sv_store s)(w \<mapsto> new_file ino)"
    and "array_inv (sfs_vnodes s')" and "loaded s' = loaded s @ [w]" and "\<forall>b. b \<noteq> ino \<longrightarrow> fs_data s' b = fs_data s b"
  using s
proof (cases rule: balloc_cases)
  case 1
  then show ?thesis using full by (simp add: sfs_makeobj_def ENOSPC_def)
next
  case (2 ino s1)
  have a: "fs_ok s1" "same_fs s s1" "ino \<noteq> 0" "unat ino \<notin> blocks_in_use s" "ino < sp_nblocks (sfs_super s)"
    "blocks_in_use s1 = insert (unat ino) (blocks_in_use s)" "fs_data s1 = (fs_data s)(ino := replicate SFS_BLOCKSIZE 0)" using 2(2) by (simp_all add: allocated_def)
  have sf: "sfs_super s1 = sfs_super s" "sfs_vnodes s1 = sfs_vnodes s" "sv_store s1 = sv_store s" using a(2) by (simp_all add: same_fs_def)
  have fr: "freeable s1 ino" using a sf by (simp add: freeable_def)
  have no: "\<forall>v\<in>set (loaded s1). \<not> has_ino s1 ino v" using loaded_in_use [OF t] a(4) sf by (auto simp: has_ino_def)
  have z: "fs_data s1 ino = replicate 512 0" using a(7) by (simp add: layout_defs)
  have m1: "memory_for s1 w ka" using m sf by (simp add: memory_for_def)
  obtain d b where l: "sfs_loadvnode (Some w) ka ino SFS_TYPE_FILE s1 = Ok (0, w, put_vnode w (new_file ino) (s1\<lparr>sfs_device := d, sfs_vnodes := b\<rparr>))"
    "io_done (sfs_device s1) (fs_data s1) d" "array_inv b" "array_list b = loaded s1 @ [w]" by (rule load_fresh [OF a(1) allocated_vtable [OF t 2(2)] fr no z m1])
  let ?s = "put_vnode w (new_file ino) (s1\<lparr>sfs_device := d, sfs_vnodes := b\<rparr>)"
  have "fs_ok (s1\<lparr>sfs_device := d\<rparr>)" using fs_ok_device [OF a(1) l(2)] .
  then have "fs_ok ?s" by (simp add: fs_ok_def)
  moreover have "\<forall>b. b \<noteq> ino \<longrightarrow> fs_data ?s b = fs_data s b" using l(2) a(7) by (simp add: io_done_def)
  moreover have "freeable ?s ino" using fr by (simp add: freeable_def)
  ultimately show ?thesis using made [of ?s ino] 2(1) l(1,3,4) a(4,6) sf by (simp add: sfs_makeobj_def)
qed

lemma new_file_unlinked:
  assumes "fs_ok s" and "w \<in> set (loaded s)" and "sv_store s w = Some (new_file ino)" and "freeable s ino"
  shows "unlinked s w (new_file ino)" and "owned f (sv_i (new_file ino)) = {}"
proof -
  have fb: "fblocks f (sv_i (new_file ino)) = replicate 143 0" for f
    by (simp add: new_file_def fblocks_def idwords_def layout_defs flip: replicate_add)
  moreover have ind: "sfi_indirect (sv_i (new_file ino)) = 0" by (simp add: new_file_def)
  ultimately show own: "owned f (sv_i (new_file ino)) = {}" for f by (simp add: owned_def)
  have "file_ok s (sv_i (new_file ino))" unfolding file_ok_def own fb ind using filter_zeros [of 143] by (simp add: new_file_def inode_shape_def)
  then show "unlinked s w (new_file ino)" using assms own by (simp add: unlinked_def) (simp add: new_file_def)
qed

text \<open>Linking the new file: the name is there and it is counted, or the directory is as before and the file is gone.\<close>

lemma creat_links:
  assumes d: "dir_ok s sv" "dir_room sv" and v: "sv_store s v = Some sv" "v \<noteq> w" and name: "name_ok name" "dir_names (sv, s) name = None"
    and w: "sv_store s w = Some (new_file ino)" "loaded s = vs @ [w]" "w \<notin> set vs" "array_inv (sfs_vnodes s)" and ino: "freeable s ino" "ino \<notin> owned (fs_data s) (sv_i sv)"
  shows "\<exists>r slot t. link_in v name ino s = Ok (r, slot, t) \<and>
    (if r = 0 then \<exists>sv' t'. add_links w 1 t = Ok t' \<and> sv_store t' v = Some sv' \<and> dir_ok t' sv' \<and> dir_names (sv', t') = (dir_names (sv, s))(name \<mapsto> ino)
        \<and> unat ino \<in> blocks_in_use t' \<and> sv_store t' w = Some ((new_file ino)\<lparr>sv_i := (sv_i (new_file ino))\<lparr>sfi_linkcount := 1\<rparr>\<rparr>)
     else r = ENOSPC \<and> (\<exists>sv' t'. vnode_decref w t = Ok t' \<and> sv_store t' v = Some sv' \<and> dir_ok t' sv' \<and> dir_names (sv', t') = dir_names (sv, s)
        \<and> sv_store t' w = None \<and> loaded t' = vs \<and> unat ino \<notin> blocks_in_use t'))"
proof -
  have n: "0 \<notin> set name" "\<not> length name + 1 > SFS_NAMELEN" using name(1) by (simp_all add: name_ok_def)
  have nino: "ino \<noteq> SFS_NOINO" using ino(1) by (simp add: freeable_def SFS_NOINO_def)
  have nn: "dir_map (dir_entries (fs_data s) (sv_i sv)) name = None" using name(2) by (simp add: dir_names_def)
  from dir_link_spec [OF d nino n(1)] obtain r slot sv' s' where l: "sfs_dir_link sv name ino s = Ok (r, slot, sv', s')" "dir_frame s sv s' sv'" "dir_ok s' sv'"
    "r = 0 \<and> dir_names (sv', s') = (dir_names (sv, s))(name \<mapsto> ino) \<or> r = ENOSPC \<and> dir_names (sv', s') = dir_names (sv, s)"
    using nn n(2) by (auto simp: dir_names_def)
  let ?t = "put_vnode v sv' s'"
  have fr: "same_fs s s'" "blocks_in_use s \<subseteq> blocks_in_use s'" "ino \<notin> owned (fs_data s') (sv_i sv')"
    using l(2) ino by (auto simp: dir_frame_def freeable_def)
  have t: "fs_ok ?t" "sv_store ?t w = Some (new_file ino)" "sv_store ?t v = Some sv'" "loaded ?t = vs @ [w]" "array_inv (sfs_vnodes ?t)" "freeable ?t ino"
    using l(3) fr(1,2) v(2) w ino(1) by (auto simp: same_fs_def dir_ok_def freeable_def)
  have link: "link_in v name ino s = Ok (r, slot, ?t)" using v(1) l(1) by (simp add: link_in_def)
  show ?thesis
  proof (cases "r = 0")
    case True
    let ?f = "(new_file ino)\<lparr>sv_i := (sv_i (new_file ino))\<lparr>sfi_linkcount := 1\<rparr>\<rparr>"
    let ?t' = "put_vnode w ?f ?t"
    have "add_links w 1 ?t = Ok ?t'" using t(2) by (simp add: add_links_def new_file_def)
    moreover have "dir_ok ?t' sv'" using l(3) by (intro dir_ok_move(1) [OF l(3)]) (auto simp: dir_ok_def file_ok_def)
    moreover have "dir_names (sv', ?t') = (dir_names (sv, s))(name \<mapsto> ino)" using l(4) True by (auto simp: dir_names_def ENOSPC_def)
    moreover have "unat ino \<in> blocks_in_use ?t'" using t(6) by (simp add: freeable_def)
    ultimately show ?thesis using link True t(3) v(2) by (intro exI [of _ r] exI [of _ slot] exI [of _ ?t]) auto
  next
    case False
    have wl: "w \<in> set (loaded ?t)" using t(4) by simp
    note u = new_file_unlinked [OF t(1) wl t(2,6)]
    from decref_erases [OF t(1,5) u(1)] obtain t' where e: "vnode_decref w ?t = Ok t'" "fs_ok t'" "sfs_super t' = sfs_super ?t" "sv_store t' = (sv_store ?t)(w := None)"
      "loaded t' = remove1 w (loaded ?t)" "blocks_in_use t' = blocks_in_use ?t - {unat ino}" "\<forall>b. b \<noteq> ino \<longrightarrow> fs_data t' b = fs_data ?t b"
      unfolding u(2) by (auto simp: new_file_def)
    have "\<forall>b\<in>owned (fs_data s') (sv_i sv'). fs_data t' b = fs_data s' b \<and> unat b \<in> blocks_in_use t'"
      using e(6,7) fr(3) l(3) by (auto simp: dir_ok_def file_ok_def dest: word_eq_of_unat)
    note mv = dir_ok_move [OF l(3) e(2) _ this]
    have "dir_ok t' sv'" "dir_names (sv', t') = dir_names (sv, s)" using mv e(3) l(4) False by (auto simp: dir_names_def)
    moreover have "loaded t' = vs" using e(5) t(4) w(3) by (simp add: remove1_append)
    ultimately show ?thesis using link False l(4) e t(3) v(2) by (intro exI [of _ r] exI [of _ slot] exI [of _ ?t]) auto
  qed
qed


definition opened :: "sfs_vnode \<Rightarrow> sfs_fs \<Rightarrow> sfs_fs" where
  "opened sv s = s\<lparr>sfs_vnodes := \<lparr>arr_v = [4096, 0, 0, 0], arr_num = 1, arr_max = 4\<rparr>, sv_store := [4096 \<mapsto> sv]\<rparr>"

lemma opened_loaded [simp]: "loaded (opened sv s) = [4096]" "array_inv (sfs_vnodes (opened sv s))" "sv_store (opened sv s) = [4096 \<mapsto> sv]"
  using good_max_def by (auto simp: opened_def array_list_def array_inv_def intro: exI [of _ 2])

lemma opened_same [simp]: "fs_ok (opened sv s) = fs_ok s" "fs_data (opened sv s) = fs_data s" "blocks_in_use (opened sv s) = blocks_in_use s" "sfs_super (opened sv s) = sfs_super s"
  by (simp_all add: opened_def fs_ok_def)


text \<open>
  C35: Files are erased with their last reference. When the last reference to the vnode of a file with no links
  goes, the file is truncated, its inode freed and the vnode dropped from the table and from memory: exactly its
  blocks and its inode return to the free map, and every other block of the disk is as it was.
\<close>

theorem last_reference_erases_file:
  assumes "fs_ok s" and "array_inv (sfs_vnodes s)" and "unlinked s w f"
  shows "\<exists>s'. vnode_decref w s = Ok s' \<and> fs_ok s' \<and> sv_store s' = (sv_store s)(w := None) \<and> loaded s' = remove1 w (loaded s)
    \<and> blocks_in_use s' = blocks_in_use s - unat ` insert (sv_ino f) (owned (fs_data s) (sv_i f))
    \<and> (\<forall>b. b \<notin> insert (sv_ino f) (owned (fs_data s) (sv_i f)) \<longrightarrow> fs_data s' b = fs_data s b)"
  using decref_erases [OF assms] by blast

theorem last_reference_erases_file_witness:
  "\<exists>s'. vnode_decref 4096 (opened (demo_file\<lparr>vn_opencount := 0, sv_i := (sv_i demo_file)\<lparr>sfi_linkcount := 0\<rparr>\<rparr>) demo_fs) = Ok s' \<and> loaded s' = [] \<and> blocks_in_use s' = {0, 1}"
proof -
  let ?f = "demo_file\<lparr>vn_opencount := 0, sv_i := (sv_i demo_file)\<lparr>sfi_linkcount := 0\<rparr>\<rparr>"
  let ?s = "opened ?f demo_fs"
  have fb: "fblocks (fs_data demo_fs) (sv_i ?f) = 3 # replicate 14 0 @ 5 # replicate 127 0" using demo_blocks by (auto simp: fblocks_def idwords_def)
  have ow: "owned (fs_data demo_fs) (sv_i ?f) = {3, 4, 5}" unfolding owned_def fb by (auto simp: demo_file_def)
  have ok: "file_ok ?s (sv_i ?f)" using demo_ok(2) file_ok_cong [of "sv_i ?f" "sv_i demo_file" demo_fs] by (simp add: file_ok_def)
  then have u: "unlinked ?s 4096 ?f" using ow demo_used by (simp add: unlinked_def freeable_def) (simp add: demo_file_def small_file_def demo_fs_def small_fs_def)
  have "sv_ino ?f = 2" by (simp add: demo_file_def small_file_def)
  then have "{0, 1} = blocks_in_use ?s - unat ` insert (sv_ino ?f) (owned (fs_data ?s) (sv_i ?f))" using ow demo_used by auto
  then show ?thesis using last_reference_erases_file [OF _ _ u] demo_ok(1) by auto
qed

end
