(* ===== verification/Spec2Isabelle.thy ===== *)
theory Spec2Isabelle
  imports Bswap KQueue VmBoot WaitExit SfsNames
begin

text \<open>
  A model of the OS/161 1.99 kernel of this repository, with the theorems that make it correct.
\<close>

end
